(* ===== verification/Prelude.thy ===== *)
theory Prelude
  imports Main "HOL-Library.Word" "HOL-Library.Char_ord" "HOL-Library.List_Lexorder"
    "HOL-Library.Monad_Syntax"
begin

text \<open>
  Shared vocabulary of the development of the ssdb server (directory src/ssdb/src).

  A byte string of the program (\<open>std::string\<close>, \<open>Bytes\<close>, \<open>leveldb::Slice\<close>) is a HOL
  \<^typ>\<open>string\<close>: a HOL character is exactly one byte, and the order on strings given by
  the library theories Char\_ord and List\_Lexorder is the bytewise order of \<open>memcmp\<close>.
  Fixed-width integers are \<^typ>\<open>64 word\<close> where the program uses \<open>uint64_t\<close> and \<open>int\<close> with
  the wrap-around written out (\<open>i32\<close>, \<open>i64\<close>) where it uses signed types.  Undefined
  behaviour of the program (an access outside an allocated block, a signed overflow, the use
  of an uninitialised pointer) is the value \<^term>\<open>None\<close> of an option type.

  The theory holds the little-endian image of integers in memory, big-endian order lemmas,
  and the generic list lemmas that the component theories share.
\<close>

section \<open>Bytes and fixed-width integers\<close>

type_synonym bytes = string

abbreviation NUL :: char where "NUL \<equiv> CHR 0x00"
abbreviation LF :: char where "LF \<equiv> CHR 0x0A"
abbreviation CR :: char where "CR \<equiv> CHR 0x0D"

named_theorems wire_simps \<open>facts about decimal headers and record framing\<close>
named_theorems key_simps \<open>facts about storage keys\<close>

definition schar :: "char \<Rightarrow> int" where
  "schar c = signed_take_bit 7 (of_char c)"

definition i32 :: "int \<Rightarrow> int" where
  "i32 x = signed_take_bit 31 x"

definition i64 :: "int \<Rightarrow> int" where
  "i64 x = signed_take_bit 63 x"

definition fits32 :: "int \<Rightarrow> bool" where
  "fits32 x \<longleftrightarrow> - (2 ^ 31) \<le> x \<and> x < 2 ^ 31"

definition fits64 :: "int \<Rightarrow> bool" where
  "fits64 x \<longleftrightarrow> - (2 ^ 63) \<le> x \<and> x < 2 ^ 63"

definition ck32 :: "int \<Rightarrow> int option" where
  "ck32 x = (if fits32 x then Some x else None)"

text \<open>The bytes of an unsigned integer in memory, least significant first (x86-64).\<close>

primrec le_bytes :: "nat \<Rightarrow> nat \<Rightarrow> bytes" where
  "le_bytes 0 v = []"
| "le_bytes (Suc n) v = char_of (v mod 256) # le_bytes n (v div 256)"

primrec le_val :: "bytes \<Rightarrow> nat" where
  "le_val [] = 0"
| "le_val (c # cs) = of_char c + 256 * le_val cs"

definition mem64 :: "64 word \<Rightarrow> bytes" where
  "mem64 w = le_bytes 8 (unat w)"

definition read64 :: "bytes \<Rightarrow> 64 word" where
  "read64 bs = word_of_nat (le_val (take 8 bs))"

section \<open>Lemmas\<close>

lemma i32_fits [simp]: "fits32 x \<Longrightarrow> i32 x = x"
  by (auto simp: fits32_def i32_def signed_take_bit_int_eq_self_iff)

lemma i64_fits [simp]: "fits64 x \<Longrightarrow> i64 x = x"
  by (auto simp: fits64_def i64_def signed_take_bit_int_eq_self_iff)

lemma fits32_i32 [simp]: "fits32 (i32 x)"
  using signed_take_bit_int_less_exp [of 31 x] signed_take_bit_int_greater_eq_minus_exp [of 31 x]
  by (simp add: fits32_def i32_def)

lemma of_char_less_256 [simp]: "(of_char c :: nat) < 256"
  by (metis mod_less_divisor of_char_mod_256 zero_less_numeral)

lemma of_char_int: "(of_char c :: int) = int (of_char c)"
  by (rule of_nat_of_char [symmetric])

lemma schar_ascii: "of_char c < (128::nat) \<Longrightarrow> schar c = of_char c"
proof -
  assume "of_char c < (128::nat)"
  then have "int (of_char c) < int 128" by (rule of_nat_less_iff [THEN iffD2])
  then have "(of_char c :: int) < 128" by (simp only: of_nat_of_char of_nat_numeral)
  moreover have "(0 :: int) \<le> of_char c" by (metis of_nat_0_le_iff of_nat_of_char)
  ultimately show ?thesis by (simp add: schar_def signed_take_bit_int_eq_self_iff)
qed

lemma length_le_bytes [simp]: "length (le_bytes n v) = n"
  by (induction n arbitrary: v) auto

lemma le_val_le_bytes: "le_val (le_bytes n v) = v mod 256 ^ n"
proof (induction n arbitrary: v)
  case (Suc n)
  have "v mod 256 ^ Suc n = v mod 256 + 256 * (v div 256 mod 256 ^ n)"
    by (simp add: mod_mult2_eq)
  with Suc show ?case by simp
qed simp

lemma le_bytes_le_val: "le_bytes (length cs) (le_val cs) = cs"
  by (induction cs) simp_all

lemma le_val_less: "le_val cs < 256 ^ length cs"
proof (induction cs)
  case (Cons c cs)
  have "of_char c + 256 * le_val cs < 256 + 256 * le_val cs" by simp
  also have "\<dots> \<le> 256 * 256 ^ length cs" using Cons by (simp add: Suc_le_eq flip: mult_Suc_right)
  finally show ?case by simp
qed simp

lemma unat64_less: "unat (w :: 64 word) < 18446744073709551616"
  by (rule order_less_le_trans [OF unsigned_less]) simp

lemma length_mem64 [simp]: "length (mem64 w) = 8"
  by (simp add: mem64_def)

lemma read64_mem64 [simp]: "read64 (mem64 w @ rest) = w"
proof -
  have "unat w < 256 ^ 8" using unsigned_less [of w] by simp
  then show ?thesis by (simp add: read64_def mem64_def le_val_le_bytes)
qed

lemma read64_mem64_Nil [simp]: "read64 (mem64 w) = w"
  using read64_mem64 [of w "[]"] by simp

lemma mem64_read64: "length bs = 8 \<Longrightarrow> mem64 (read64 bs) = bs"
proof -
  assume l: "length bs = 8"
  then have "le_val bs < 2 ^ 64" using le_val_less [of bs] by simp
  then have "unat (word_of_nat (le_val bs) :: 64 word) = le_val bs"
    by (simp add: unat_of_nat take_bit_nat_eq_self)
  then show ?thesis using l le_bytes_le_val [of bs] by (simp add: mem64_def read64_def)
qed

lemma mem64_inject [simp]: "mem64 v = mem64 w \<longleftrightarrow> v = w"
  by (metis read64_mem64_Nil)

text \<open>Reversed little-endian bytes are ordered like the numbers.\<close>

lemma snoc_less_snoc:
  fixes xs ys :: "'a::linorder list"
  shows "length xs = length ys \<Longrightarrow> xs @ [a] < ys @ [b] \<longleftrightarrow> xs < ys \<or> xs = ys \<and> a < b"
  by (induction xs ys rule: list_induct2) auto

lemma char_of_less_char_of:
  "m < 256 \<Longrightarrow> n < 256 \<Longrightarrow> char_of (m::nat) < char_of n \<longleftrightarrow> m < n"
  by (simp add: less_char_def)

lemma rev_le_bytes_inject:
  "v < 256 ^ n \<Longrightarrow> w < 256 ^ n \<Longrightarrow> rev (le_bytes n v) = rev (le_bytes n w) \<longleftrightarrow> v = w"
  by (metis le_val_le_bytes mod_less rev_is_rev_conv)

lemma rev_le_bytes_less:
  "v < 256 ^ n \<Longrightarrow> w < 256 ^ n \<Longrightarrow> rev (le_bytes n v) < rev (le_bytes n w) \<longleftrightarrow> v < w"
proof (induction n arbitrary: v w)
  case (Suc n)
  have d: "v div 256 < 256 ^ n" "w div 256 < 256 ^ n"
    using Suc.prems by (simp_all add: less_mult_imp_div_less mult.commute)
  have split: "v < w \<longleftrightarrow> v div 256 < w div 256 \<or> v div 256 = w div 256 \<and> v mod 256 < w mod 256"
    using div_mult_mod_eq [of v 256] div_mult_mod_eq [of w 256] mod_less_divisor [of 256 v]
      mod_less_divisor [of 256 w] by linarith
  show ?case
    using Suc.IH [OF d] rev_le_bytes_inject [OF d] split
    by (simp add: snoc_less_snoc less_char_def)
qed simp

lemma rev_mem64_less: "rev (mem64 v) < rev (mem64 w) \<longleftrightarrow> v < w"
proof -
  have "unat v < 256 ^ 8" "unat w < 256 ^ 8"
    using unsigned_less [of v] unsigned_less [of w] by simp_all
  then show ?thesis by (simp add: mem64_def rev_le_bytes_less word_less_nat_alt)
qed

section \<open>Encodings as an interface\<close>

text \<open>
  What every byte encoding of the program promises: decoding an encoded value gives the
  value back.  The contract is shared by the escaping of log strings, the storage keys and
  the binlog records; each of them interprets it in its own theory.
\<close>

locale codec =
  fixes encode :: "'a \<Rightarrow> bytes"
    and decode :: "bytes \<Rightarrow> 'a option"
    and valid :: "'a \<Rightarrow> bool"
  assumes decode_encode: "valid x \<Longrightarrow> decode (encode x) = Some x"
begin

lemma encode_eq_iff: "valid x \<Longrightarrow> valid y \<Longrightarrow> encode x = encode y \<longleftrightarrow> x = y"
  by (metis decode_encode option.inject)

lemma encode_inj_on: "inj_on encode (Collect valid)"
  by (auto intro!: inj_onI simp: encode_eq_iff)

end

text \<open>An encoding whose byte order is the order of the values, as the log keys need.\<close>

locale ordered_codec = codec encode decode valid
  for encode :: "'a::linorder \<Rightarrow> bytes" and decode and valid +
  assumes encode_less: "encode x < encode y \<longleftrightarrow> x < y"
begin

lemma encode_le: "encode x \<le> encode y \<longleftrightarrow> x \<le> y"
  by (metis encode_less linorder_not_less)

end

section \<open>Generic list lemmas\<close>

lemma takeWhile_all: "(\<And>x. x \<in> set xs \<Longrightarrow> P x) \<Longrightarrow> \<not> P y \<Longrightarrow> takeWhile P (xs @ y # ys) = xs"
  by (induction xs) auto

lemma dropWhile_all: "(\<And>x. x \<in> set xs \<Longrightarrow> P x) \<Longrightarrow> \<not> P y \<Longrightarrow> dropWhile P (xs @ y # ys) = y # ys"
  by (induction xs) auto

lemma same_prefix_less:
  fixes xs :: "'a::linorder list"
  shows "xs @ ys < xs @ zs \<longleftrightarrow> ys < zs"
  by (induction xs) auto

lemma take_past: "length h = a \<Longrightarrow> take (a + k) (h @ t) = h @ take k t"
  by auto

lemma one_le_word: "1 \<le> (n :: 64 word) \<longleftrightarrow> n \<noteq> 0"
  by (simp add: word_le_nat_alt Suc_le_eq unat_gt_0)

lemma unat_max_word64 [simp]: "unat (- 1 :: 64 word) = 2 ^ 64 - 1"
  by (simp add: unsigned_minus_1_eq_mask mask_eq_exp_minus_1)

section \<open>Results that may be an exception\<close>

fun bind_res :: "'e + 'a \<Rightarrow> ('a \<Rightarrow> 'e + 'b) \<Rightarrow> 'e + 'b" where
  "bind_res (Inl e) f = Inl e"
| "bind_res (Inr x) f = f x"

lemma bind_res_Inr_iff: "bind_res r f = Inr y \<longleftrightarrow> (\<exists>x. r = Inr x \<and> f x = Inr y)"
  by (cases r) auto

end
