(* ===== verification/Json_Lexer.thy ===== *)
theory Json_Lexer
  imports Prelude
begin

text \<open>
  Model of the lexical analysis of src/ssdb/src/util/json.hpp (class \<open>lexer\<close>), which reads the
  text of the configuration file: the line buffer with its pointers (\<open>fill_line_buffer\<close>), the
  scanner that re2c generated (\<open>scan\<close>, one definition per label of the automaton), and the
  token texts.

  The pointers \<open>m_start\<close>, \<open>m_marker\<close>, \<open>m_cursor\<close> and \<open>m_limit\<close> are offsets from
  \<open>m_content\<close>, which is the byte string it points to; \<open>m_null\<close> says that \<open>m_content\<close> and with it
  \<open>m_start\<close> are still null.  A read at or behind \<open>m_limit\<close>, a jump
  through a null marker and a failing assertion are \<^term>\<open>None\<close>.  The loop over the labels is a
  partial function, so that a scan that does not end would be \<^term>\<open>None\<close> as well; the theory
  proves that neither happens: every scan of a well-formed lexer returns a token.

  The proof goes through the automaton on the remaining text (\<open>vscan\<close>), which has no buffer;
  theory Json\_Grammar compares that automaton with the token grammar of RFC 7159.
\<close>

unbundle bit_operations_syntax

section \<open>Lexer state\<close>

datatype token_type =
    uninitialized
  | literal_true
  | literal_false
  | literal_null
  | value_string
  | value_number
  | begin_array
  | begin_object
  | end_array
  | end_object
  | name_separator
  | value_separator
  | parse_error
  | end_of_input

text \<open>An input stream: what it still holds, and \<open>eofbit\<close>.\<close>

record istream =
  s_rest :: bytes
  s_eof :: bool

text \<open>\<open>std::getline\<close>: the line without its newline; \<open>eofbit\<close> when no newline was found.\<close>

definition getline :: "istream \<Rightarrow> bytes \<times> istream" where
  "getline s = (case dropWhile (\<lambda>c. c \<noteq> LF) (s_rest s) of
       [] \<Rightarrow> (s_rest s, s\<lparr>s_rest := [], s_eof := True\<rparr>)
     | _ # r \<Rightarrow> (takeWhile (\<lambda>c. c \<noteq> LF) (s_rest s), s\<lparr>s_rest := r\<rparr>))"

text \<open>The members of \<open>lexer\<close>; \<open>yyaccept\<close> is a local variable of \<open>scan\<close>.\<close>

record lexer =
  m_stream :: "istream option"
  m_null :: bool
  m_content :: bytes
  m_start :: nat
  m_marker :: "nat option"
  m_cursor :: nat
  m_limit :: nat
  last_token_type :: token_type
  yyaccept :: nat

definition fill_asserts :: "lexer \<Rightarrow> bool" where
  "fill_asserts l \<longleftrightarrow>
     m_limit l = length (m_content l) \<and> m_start l \<le> m_cursor l \<and> m_cursor l \<le> m_limit l \<and>
     (case m_marker l of None \<Rightarrow> True | Some m \<Rightarrow> m \<le> m_limit l)"

text \<open>
  \<open>fill_line_buffer\<close>: without a stream, or at its end, the unread characters are kept and
  padded with a null and \<open>n - 1\<close> further characters; otherwise the next line is appended.
\<close>

definition fill_line_buffer :: "nat \<Rightarrow> lexer \<Rightarrow> lexer option" where
  "fill_line_buffer n l =
     (if \<not> fill_asserts l then None
      else
        let num_processed_chars = m_start l;
            offset_marker = (case m_marker l of None \<Rightarrow> 0 | Some m \<Rightarrow> m - m_start l);
            offset_cursor = m_cursor l - m_start l;
            (buffer, stream) = (case m_stream l of
                None \<Rightarrow> (drop num_processed_chars (m_content l) @ NUL # replicate (n - 1) (CHR 0x01), None)
              | Some s \<Rightarrow>
                  if s_eof s
                  then (drop num_processed_chars (m_content l) @ NUL # replicate (n - 1) (CHR 0x01), Some s)
                  else let (line, s') = getline s
                       in (drop num_processed_chars (m_content l) @ line @ [LF], Some s'))
        in Some (l\<lparr>m_stream := stream, m_null := False, m_content := buffer, m_start := 0,
                   m_marker := Some offset_marker, m_cursor := offset_cursor,
                   m_limit := length buffer\<rparr>))"

text \<open>The two constructors.\<close>

definition lexer_of_buffer :: "bytes \<Rightarrow> lexer" where
  "lexer_of_buffer buff =
     \<lparr>m_stream = None, m_null = False, m_content = buff, m_start = 0, m_marker = None, m_cursor = 0,
      m_limit = length buff, last_token_type = end_of_input, yyaccept = 0\<rparr>"

definition BOM :: bytes where
  "BOM = [CHR 0xEF, CHR 0xBB, CHR 0xBF]"

definition skip_bom :: "bytes \<Rightarrow> bytes" where
  "skip_bom b = (if take 3 b = BOM then b[0 := CHR 0x20, 1 := CHR 0x20, 2 := CHR 0x20] else b)"

text \<open>\<open>None\<close> in the outer option of the result: the stream is in a failed state.\<close>

definition lexer_of_stream :: "bool \<Rightarrow> istream \<Rightarrow> lexer option option" where
  "lexer_of_stream fail s =
     (if fail then None
      else Some (map_option (\<lambda>l. l\<lparr>m_content := skip_bom (m_content l)\<rparr>)
        (fill_line_buffer 0
          \<lparr>m_stream = Some s, m_null = True, m_content = [], m_start = 0, m_marker = None, m_cursor = 0,
           m_limit = 0, last_token_type = end_of_input, yyaccept = 0\<rparr>)))"

section \<open>The automaton\<close>

datatype label =
    P0 | P2 | P4 | P5 | P6 | P9 | P10 | P12 | P13 | P14 | P15 | P17 | P19 | P21 | P23 | P24 | P25
  | P26 | P28 | P30 | P31 | P32 | P33 | P35 | P36 | P37 | P38 | P39 | P40 | P41 | P42 | P43 | P44
  | P45 | P46 | P47 | P48 | P49 | P51 | P52 | P54 | P55 | P56 | P57 | P58 | P59 | P61 | P63 | P64
  | P66

datatype action = Goto label | Break token_type | Again

text \<open>The table \<open>yybm\<close> of the scanner: bit 32 white space, 64 digits, 128 plain string characters.\<close>

definition yybm :: "nat list" where
  "yybm =
    [0,   0,   0,   0,   0,   0,   0,   0,
     0,  32,  32,   0,   0,  32,   0,   0,
     0,   0,   0,   0,   0,   0,   0,   0,
     0,   0,   0,   0,   0,   0,   0,   0,
     160, 128,   0, 128, 128, 128, 128, 128,
     128, 128, 128, 128, 128, 128, 128, 128,
     192, 192, 192, 192, 192, 192, 192, 192,
     192, 192, 128, 128, 128, 128, 128, 128,
     128, 128, 128, 128, 128, 128, 128, 128,
     128, 128, 128, 128, 128, 128, 128, 128,
     128, 128, 128, 128, 128, 128, 128, 128,
     128, 128, 128, 128,   0, 128, 128, 128,
     128, 128, 128, 128, 128, 128, 128, 128,
     128, 128, 128, 128, 128, 128, 128, 128,
     128, 128, 128, 128, 128, 128, 128, 128,
     128, 128, 128, 128, 128, 128, 128, 128,
     0,   0,   0,   0,   0,   0,   0,   0,
     0,   0,   0,   0,   0,   0,   0,   0,
     0,   0,   0,   0,   0,   0,   0,   0,
     0,   0,   0,   0,   0,   0,   0,   0,
     0,   0,   0,   0,   0,   0,   0,   0,
     0,   0,   0,   0,   0,   0,   0,   0,
     0,   0,   0,   0,   0,   0,   0,   0,
     0,   0,   0,   0,   0,   0,   0,   0,
     0,   0,   0,   0,   0,   0,   0,   0,
     0,   0,   0,   0,   0,   0,   0,   0,
     0,   0,   0,   0,   0,   0,   0,   0,
     0,   0,   0,   0,   0,   0,   0,   0,
     0,   0,   0,   0,   0,   0,   0,   0,
     0,   0,   0,   0,   0,   0,   0,   0,
     0,   0,   0,   0,   0,   0,   0,   0,
     0,   0,   0,   0,   0,   0,   0,   0]"

definition yybm_bit :: "char \<Rightarrow> nat \<Rightarrow> bool" where
  "yybm_bit yych b \<longleftrightarrow> (yybm ! of_char yych) AND b \<noteq> 0"

text \<open>The branches of the labels on the character read.\<close>

definition basic_json_parser_0 :: "char \<Rightarrow> action" where
  "basic_json_parser_0 yych =
    (if yybm_bit yych 32 then Goto P6
     else if yych \<le> CHR ''['' then
       (if yych \<le> CHR ''-'' then
          (if yych \<le> CHR 0x22 then
             (if yych \<le> CHR 0x00 then Goto P2
              else if yych \<le> CHR ''!'' then Goto P4
              else Goto P9)
           else if yych \<le> CHR ''+'' then Goto P4
           else if yych \<le> CHR '','' then Goto P10
           else Goto P12)
        else if yych \<le> CHR ''9'' then
          (if yych \<le> CHR ''/'' then Goto P4
           else if yych \<le> CHR ''0'' then Goto P13
           else Goto P15)
        else if yych \<le> CHR '':'' then Goto P17
        else if yych \<le> CHR ''Z'' then Goto P4
        else Goto P19)
     else if yych \<le> CHR ''n'' then
       (if yych \<le> CHR ''e'' then
          (if yych = CHR '']'' then Goto P21
           else Goto P4)
        else if yych \<le> CHR ''f'' then Goto P23
        else if yych \<le> CHR ''m'' then Goto P4
        else Goto P24)
     else if yych \<le> CHR ''z'' then
       (if yych = CHR ''t'' then Goto P25
        else Goto P4)
     else if yych \<le> CHR ''{'' then Goto P26
     else if yych = CHR ''}'' then Goto P28
     else Goto P4)"

definition basic_json_parser_6 :: "char \<Rightarrow> action" where
  "basic_json_parser_6 yych =
    (if yybm_bit yych 32 then Goto P6
     else Again)"

definition basic_json_parser_9 :: "char \<Rightarrow> action" where
  "basic_json_parser_9 yych =
    (if yych \<le> CHR 0x1F then Goto P5
     else if yych \<le> CHR 0x7F then Goto P31
     else if yych \<le> CHR 0xC1 then Goto P5
     else if yych \<le> CHR 0xF4 then Goto P31
     else Goto P5)"

definition basic_json_parser_12 :: "char \<Rightarrow> action" where
  "basic_json_parser_12 yych =
    (if yych \<le> CHR ''/'' then Goto P5
     else if yych \<le> CHR ''0'' then Goto P13
     else if yych \<le> CHR ''9'' then Goto P15
     else Goto P5)"

definition basic_json_parser_13 :: "char \<Rightarrow> action" where
  "basic_json_parser_13 yych =
    (if yych \<le> CHR ''D'' then
       (if yych = CHR ''.'' then Goto P43
        else Goto P14)
     else if yych \<le> CHR ''E'' then Goto P44
     else if yych = CHR ''e'' then Goto P44
     else Goto P14)"

definition basic_json_parser_15 :: "char \<Rightarrow> action" where
  "basic_json_parser_15 yych =
    (if yybm_bit yych 64 then Goto P15
     else if yych \<le> CHR ''D'' then
       (if yych = CHR ''.'' then Goto P43
        else Goto P14)
     else if yych \<le> CHR ''E'' then Goto P44
     else if yych = CHR ''e'' then Goto P44
     else Goto P14)"

definition basic_json_parser_23 :: "char \<Rightarrow> action" where
  "basic_json_parser_23 yych =
    (if yych = CHR ''a'' then Goto P45
     else Goto P5)"

definition basic_json_parser_24 :: "char \<Rightarrow> action" where
  "basic_json_parser_24 yych =
    (if yych = CHR ''u'' then Goto P46
     else Goto P5)"

definition basic_json_parser_25 :: "char \<Rightarrow> action" where
  "basic_json_parser_25 yych =
    (if yych = CHR ''r'' then Goto P47
     else Goto P5)"

definition basic_json_parser_31 :: "char \<Rightarrow> action" where
  "basic_json_parser_31 yych =
    (if yybm_bit yych 128 then Goto P30
     else if yych \<le> CHR 0xE0 then
       (if yych \<le> CHR 0x5C then
          (if yych \<le> CHR 0x1F then Goto P32
           else if yych \<le> CHR 0x22 then Goto P33
           else Goto P35)
        else if yych \<le> CHR 0xC1 then Goto P32
        else if yych \<le> CHR 0xDF then Goto P36
        else Goto P37)
     else if yych \<le> CHR 0xEF then
       (if yych = CHR 0xED then Goto P39
        else Goto P38)
     else if yych \<le> CHR 0xF0 then Goto P40
     else if yych \<le> CHR 0xF3 then Goto P41
     else if yych \<le> CHR 0xF4 then Goto P42
     else Goto P32)"

definition basic_json_parser_35 :: "char \<Rightarrow> action" where
  "basic_json_parser_35 yych =
    (if yych \<le> CHR ''e'' then
       (if yych \<le> CHR ''/'' then
          (if yych = CHR 0x22 then Goto P30
           else if yych \<le> CHR ''.'' then Goto P32
           else Goto P30)
        else if yych \<le> CHR 0x5C then
          (if yych \<le> CHR ''['' then Goto P32
           else Goto P30)
        else if yych = CHR ''b'' then Goto P30
        else Goto P32)
     else if yych \<le> CHR ''q'' then
       (if yych \<le> CHR ''f'' then Goto P30
        else if yych = CHR ''n'' then Goto P30
        else Goto P32)
     else if yych \<le> CHR ''s'' then
       (if yych \<le> CHR ''r'' then Goto P30
        else Goto P32)
     else if yych \<le> CHR ''t'' then Goto P30
     else if yych \<le> CHR ''u'' then Goto P48
     else Goto P32)"

definition basic_json_parser_36 :: "char \<Rightarrow> action" where
  "basic_json_parser_36 yych =
    (if yych \<le> CHR 0x7F then Goto P32
     else if yych \<le> CHR 0xBF then Goto P30
     else Goto P32)"

definition basic_json_parser_37 :: "char \<Rightarrow> action" where
  "basic_json_parser_37 yych =
    (if yych \<le> CHR 0x9F then Goto P32
     else if yych \<le> CHR 0xBF then Goto P36
     else Goto P32)"

definition basic_json_parser_38 :: "char \<Rightarrow> action" where
  "basic_json_parser_38 yych =
    (if yych \<le> CHR 0x7F then Goto P32
     else if yych \<le> CHR 0xBF then Goto P36
     else Goto P32)"

definition basic_json_parser_39 :: "char \<Rightarrow> action" where
  "basic_json_parser_39 yych =
    (if yych \<le> CHR 0x7F then Goto P32
     else if yych \<le> CHR 0x9F then Goto P36
     else Goto P32)"

definition basic_json_parser_40 :: "char \<Rightarrow> action" where
  "basic_json_parser_40 yych =
    (if yych \<le> CHR 0x8F then Goto P32
     else if yych \<le> CHR 0xBF then Goto P38
     else Goto P32)"

definition basic_json_parser_41 :: "char \<Rightarrow> action" where
  "basic_json_parser_41 yych =
    (if yych \<le> CHR 0x7F then Goto P32
     else if yych \<le> CHR 0xBF then Goto P38
     else Goto P32)"

definition basic_json_parser_42 :: "char \<Rightarrow> action" where
  "basic_json_parser_42 yych =
    (if yych \<le> CHR 0x7F then Goto P32
     else if yych \<le> CHR 0x8F then Goto P38
     else Goto P32)"

definition basic_json_parser_43 :: "char \<Rightarrow> action" where
  "basic_json_parser_43 yych =
    (if yych \<le> CHR ''/'' then Goto P32
     else if yych \<le> CHR ''9'' then Goto P49
     else Goto P32)"

definition basic_json_parser_44 :: "char \<Rightarrow> action" where
  "basic_json_parser_44 yych =
    (if yych \<le> CHR '','' then
       (if yych = CHR ''+'' then Goto P51
        else Goto P32)
     else if yych \<le> CHR ''-'' then Goto P51
     else if yych \<le> CHR ''/'' then Goto P32
     else if yych \<le> CHR ''9'' then Goto P52
     else Goto P32)"

definition basic_json_parser_45 :: "char \<Rightarrow> action" where
  "basic_json_parser_45 yych =
    (if yych = CHR ''l'' then Goto P54
     else Goto P32)"

definition basic_json_parser_46 :: "char \<Rightarrow> action" where
  "basic_json_parser_46 yych =
    (if yych = CHR ''l'' then Goto P55
     else Goto P32)"

definition basic_json_parser_47 :: "char \<Rightarrow> action" where
  "basic_json_parser_47 yych =
    (if yych = CHR ''u'' then Goto P56
     else Goto P32)"

definition basic_json_parser_48 :: "char \<Rightarrow> action" where
  "basic_json_parser_48 yych =
    (if yych \<le> CHR ''@'' then
       (if yych \<le> CHR ''/'' then Goto P32
        else if yych \<le> CHR ''9'' then Goto P57
        else Goto P32)
     else if yych \<le> CHR ''F'' then Goto P57
     else if yych \<le> CHR 0x60 then Goto P32
     else if yych \<le> CHR ''f'' then Goto P57
     else Goto P32)"

definition basic_json_parser_49 :: "char \<Rightarrow> action" where
  "basic_json_parser_49 yych =
    (if yych \<le> CHR ''D'' then
       (if yych \<le> CHR ''/'' then Goto P14
        else if yych \<le> CHR ''9'' then Goto P49
        else Goto P14)
     else if yych \<le> CHR ''E'' then Goto P44
     else if yych = CHR ''e'' then Goto P44
     else Goto P14)"

definition basic_json_parser_51 :: "char \<Rightarrow> action" where
  "basic_json_parser_51 yych =
    (if yych \<le> CHR ''/'' then Goto P32
     else if yych \<ge> CHR '':'' then Goto P32
     else Goto P52)"

definition basic_json_parser_52 :: "char \<Rightarrow> action" where
  "basic_json_parser_52 yych =
    (if yych \<le> CHR ''/'' then Goto P14
     else if yych \<le> CHR ''9'' then Goto P52
     else Goto P14)"

definition basic_json_parser_54 :: "char \<Rightarrow> action" where
  "basic_json_parser_54 yych =
    (if yych = CHR ''s'' then Goto P58
     else Goto P32)"

definition basic_json_parser_55 :: "char \<Rightarrow> action" where
  "basic_json_parser_55 yych =
    (if yych = CHR ''l'' then Goto P59
     else Goto P32)"

definition basic_json_parser_56 :: "char \<Rightarrow> action" where
  "basic_json_parser_56 yych =
    (if yych = CHR ''e'' then Goto P61
     else Goto P32)"

definition basic_json_parser_57 :: "char \<Rightarrow> action" where
  "basic_json_parser_57 yych =
    (if yych \<le> CHR ''@'' then
       (if yych \<le> CHR ''/'' then Goto P32
        else if yych \<le> CHR ''9'' then Goto P63
        else Goto P32)
     else if yych \<le> CHR ''F'' then Goto P63
     else if yych \<le> CHR 0x60 then Goto P32
     else if yych \<le> CHR ''f'' then Goto P63
     else Goto P32)"

definition basic_json_parser_58 :: "char \<Rightarrow> action" where
  "basic_json_parser_58 yych =
    (if yych = CHR ''e'' then Goto P64
     else Goto P32)"

definition basic_json_parser_63 :: "char \<Rightarrow> action" where
  "basic_json_parser_63 yych =
    (if yych \<le> CHR ''@'' then
       (if yych \<le> CHR ''/'' then Goto P32
        else if yych \<le> CHR ''9'' then Goto P66
        else Goto P32)
     else if yych \<le> CHR ''F'' then Goto P66
     else if yych \<le> CHR 0x60 then Goto P32
     else if yych \<le> CHR ''f'' then Goto P66
     else Goto P32)"

definition basic_json_parser_66 :: "char \<Rightarrow> action" where
  "basic_json_parser_66 yych =
    (if yych \<le> CHR ''@'' then
       (if yych \<le> CHR ''/'' then Goto P32
        else if yych \<le> CHR ''9'' then Goto P30
        else Goto P32)
     else if yych \<le> CHR ''F'' then Goto P30
     else if yych \<le> CHR 0x60 then Goto P32
     else if yych \<le> CHR ''f'' then Goto P30
     else Goto P32)"

text \<open>
  The statements before a branch: reading \<open>*m_cursor\<close>, \<open>yych = *++m_cursor\<close>, the same with the
  marker set, with a refill when fewer than \<open>n\<close> characters are left, and the end of a token.
  (\<open>m_limit <= m_cursor\<close> is the test with \<open>n = 1\<close>.)
\<close>

definition read :: "(char \<Rightarrow> action) \<Rightarrow> lexer \<Rightarrow> (lexer \<times> action) option" where
  "read branch l =
     (if m_cursor l < m_limit l then Some (l, branch (m_content l ! m_cursor l)) else None)"

definition advance :: "lexer \<Rightarrow> lexer" where
  "advance l = l\<lparr>m_cursor := Suc (m_cursor l)\<rparr>"

definition set_marker :: "lexer \<Rightarrow> lexer" where
  "set_marker l = l\<lparr>m_marker := Some (m_cursor l)\<rparr>"

definition need :: "nat \<Rightarrow> lexer \<Rightarrow> lexer option" where
  "need n l = (if m_limit l - m_cursor l < n then fill_line_buffer n l else Some l)"

definition next_char :: "(char \<Rightarrow> action) \<Rightarrow> lexer \<Rightarrow> (lexer \<times> action) option" where
  "next_char branch l = read branch (advance l)"

definition next_marked :: "nat \<Rightarrow> (char \<Rightarrow> action) \<Rightarrow> lexer \<Rightarrow> (lexer \<times> action) option" where
  "next_marked a branch l = read branch (set_marker (advance (l\<lparr>yyaccept := a\<rparr>)))"

definition next_filled :: "(char \<Rightarrow> action) \<Rightarrow> lexer \<Rightarrow> (lexer \<times> action) option" where
  "next_filled branch l = Option.bind (need 1 (advance l)) (read branch)"

definition next_marked_filled :: "nat \<Rightarrow> (char \<Rightarrow> action) \<Rightarrow> lexer \<Rightarrow> (lexer \<times> action) option" where
  "next_marked_filled a branch l =
     Option.bind (need 3 (set_marker (advance (l\<lparr>yyaccept := a\<rparr>)))) (read branch)"

definition ends_token :: "token_type \<Rightarrow> lexer \<Rightarrow> (lexer \<times> action) option" where
  "ends_token t l = Some (advance l, Break t)"

text \<open>One label: what is executed between it and the next jump.\<close>

fun dfa_step :: "label \<Rightarrow> lexer \<Rightarrow> (lexer \<times> action) option" where
  "dfa_step P0 l = Option.bind (need 5 l) (read basic_json_parser_0)"
| "dfa_step P2 l = ends_token end_of_input l"
| "dfa_step P4 l = Some (advance l, Goto P5)"
| "dfa_step P5 l = Some (l, Break parse_error)"
| "dfa_step P6 l = next_filled basic_json_parser_6 l"
| "dfa_step P9 l = next_marked 0 basic_json_parser_9 l"
| "dfa_step P10 l = ends_token value_separator l"
| "dfa_step P12 l = next_char basic_json_parser_12 l"
| "dfa_step P13 l = next_marked 1 basic_json_parser_13 l"
| "dfa_step P14 l = Some (l, Break value_number)"
| "dfa_step P15 l = next_marked_filled 1 basic_json_parser_15 l"
| "dfa_step P17 l = ends_token name_separator l"
| "dfa_step P19 l = ends_token begin_array l"
| "dfa_step P21 l = ends_token end_array l"
| "dfa_step P23 l = next_marked 0 basic_json_parser_23 l"
| "dfa_step P24 l = next_marked 0 basic_json_parser_24 l"
| "dfa_step P25 l = next_marked 0 basic_json_parser_25 l"
| "dfa_step P26 l = ends_token begin_object l"
| "dfa_step P28 l = ends_token end_object l"
| "dfa_step P30 l = next_filled basic_json_parser_31 l"
| "dfa_step P31 l = read basic_json_parser_31 l"
| "dfa_step P32 l = (case m_marker l of None \<Rightarrow> None
     | Some m \<Rightarrow> Some (l\<lparr>m_cursor := m\<rparr>, if yyaccept l = 0 then Goto P5 else Goto P14))"
| "dfa_step P33 l = ends_token value_string l"
| "dfa_step P35 l = next_filled basic_json_parser_35 l"
| "dfa_step P36 l = next_filled basic_json_parser_36 l"
| "dfa_step P37 l = next_filled basic_json_parser_37 l"
| "dfa_step P38 l = next_filled basic_json_parser_38 l"
| "dfa_step P39 l = next_filled basic_json_parser_39 l"
| "dfa_step P40 l = next_filled basic_json_parser_40 l"
| "dfa_step P41 l = next_filled basic_json_parser_41 l"
| "dfa_step P42 l = next_filled basic_json_parser_42 l"
| "dfa_step P43 l = next_char basic_json_parser_43 l"
| "dfa_step P44 l = next_char basic_json_parser_44 l"
| "dfa_step P45 l = next_char basic_json_parser_45 l"
| "dfa_step P46 l = next_char basic_json_parser_46 l"
| "dfa_step P47 l = next_char basic_json_parser_47 l"
| "dfa_step P48 l = next_filled basic_json_parser_48 l"
| "dfa_step P49 l = next_marked_filled 1 basic_json_parser_49 l"
| "dfa_step P51 l = next_char basic_json_parser_51 l"
| "dfa_step P52 l = next_filled basic_json_parser_52 l"
| "dfa_step P54 l = next_char basic_json_parser_54 l"
| "dfa_step P55 l = next_char basic_json_parser_55 l"
| "dfa_step P56 l = next_char basic_json_parser_56 l"
| "dfa_step P57 l = next_filled basic_json_parser_57 l"
| "dfa_step P58 l = next_char basic_json_parser_58 l"
| "dfa_step P59 l = ends_token literal_null l"
| "dfa_step P61 l = ends_token literal_true l"
| "dfa_step P63 l = next_filled basic_json_parser_63 l"
| "dfa_step P64 l = ends_token literal_false l"
| "dfa_step P66 l = next_filled basic_json_parser_66 l"

text \<open>
  The head of the loop \<open>while (true)\<close> with its assertion that \<open>m_start\<close> is not null, and the loop:
  \<open>continue\<close> starts again behind white space.
\<close>

definition head_state :: "lexer \<Rightarrow> lexer" where
  "head_state l = l\<lparr>m_marker := None, m_start := m_cursor l, yyaccept := 0\<rparr>"

definition loop_head :: "lexer \<Rightarrow> lexer option" where
  "loop_head l = (if m_null l then None else Some (head_state l))"

partial_function (option) scan_from :: "label \<Rightarrow> lexer \<Rightarrow> lexer option" where
  "scan_from q l = Option.bind (dfa_step q l) (\<lambda>(l', a).
     case a of
       Goto q' \<Rightarrow> scan_from q' l'
     | Again \<Rightarrow> Option.bind (loop_head l') (scan_from P0)
     | Break t \<Rightarrow> Some (l'\<lparr>last_token_type := t\<rparr>))"

definition scan :: "lexer \<Rightarrow> lexer option" where
  "scan l = Option.bind (loop_head l) (scan_from P0)"

definition token_text :: "lexer \<Rightarrow> bytes" where
  "token_text l = take (m_cursor l - m_start l) (drop (m_start l) (m_content l))"

definition get_token_string :: "lexer \<Rightarrow> bytes option" where
  "get_token_string l = (if m_null l then None else Some (token_text l))"

section \<open>The automaton on the remaining text\<close>

text \<open>
  The same labels on what the scanner has consumed of the token, the text in front of it (a
  null stands behind its end), the position of the marker in the token and \<open>yyaccept\<close>.
\<close>

record vlex =
  v_tok :: bytes
  v_rest :: bytes
  v_mark :: nat
  v_acc :: nat

definition v_char :: "vlex \<Rightarrow> char" where
  "v_char v = (case v_rest v of [] \<Rightarrow> NUL | c # _ \<Rightarrow> c)"

definition v_advance :: "vlex \<Rightarrow> vlex" where
  "v_advance v = v\<lparr>v_tok := v_tok v @ [v_char v], v_rest := tl (v_rest v)\<rparr>"

definition v_set_marker :: "vlex \<Rightarrow> vlex" where
  "v_set_marker v = v\<lparr>v_mark := length (v_tok v)\<rparr>"

definition v_read :: "(char \<Rightarrow> action) \<Rightarrow> vlex \<Rightarrow> vlex \<times> action" where
  "v_read branch v = (v, branch (v_char v))"

abbreviation v_next :: "(char \<Rightarrow> action) \<Rightarrow> vlex \<Rightarrow> vlex \<times> action" where
  "v_next branch v \<equiv> v_read branch (v_advance v)"

abbreviation v_next_marked :: "nat \<Rightarrow> (char \<Rightarrow> action) \<Rightarrow> vlex \<Rightarrow> vlex \<times> action" where
  "v_next_marked a branch v \<equiv> v_read branch (v_set_marker (v_advance (v\<lparr>v_acc := a\<rparr>)))"

definition v_back :: "nat \<Rightarrow> vlex \<Rightarrow> vlex" where
  "v_back m v = v\<lparr>v_tok := take m (v_tok v), v_rest := drop m (v_tok v) @ v_rest v\<rparr>"

fun vstep :: "label \<Rightarrow> vlex \<Rightarrow> vlex \<times> action" where
  "vstep P0 v = v_read basic_json_parser_0 v"
| "vstep P2 v = (v_advance v, Break end_of_input)"
| "vstep P4 v = (v_advance v, Goto P5)"
| "vstep P5 v = (v, Break parse_error)"
| "vstep P6 v = v_next basic_json_parser_6 v"
| "vstep P9 v = v_next_marked 0 basic_json_parser_9 v"
| "vstep P10 v = (v_advance v, Break value_separator)"
| "vstep P12 v = v_next basic_json_parser_12 v"
| "vstep P13 v = v_next_marked 1 basic_json_parser_13 v"
| "vstep P14 v = (v, Break value_number)"
| "vstep P15 v = v_next_marked 1 basic_json_parser_15 v"
| "vstep P17 v = (v_advance v, Break name_separator)"
| "vstep P19 v = (v_advance v, Break begin_array)"
| "vstep P21 v = (v_advance v, Break end_array)"
| "vstep P23 v = v_next_marked 0 basic_json_parser_23 v"
| "vstep P24 v = v_next_marked 0 basic_json_parser_24 v"
| "vstep P25 v = v_next_marked 0 basic_json_parser_25 v"
| "vstep P26 v = (v_advance v, Break begin_object)"
| "vstep P28 v = (v_advance v, Break end_object)"
| "vstep P30 v = v_next basic_json_parser_31 v"
| "vstep P31 v = v_read basic_json_parser_31 v"
| "vstep P32 v = (v_back (v_mark v) v, if v_acc v = 0 then Goto P5 else Goto P14)"
| "vstep P33 v = (v_advance v, Break value_string)"
| "vstep P35 v = v_next basic_json_parser_35 v"
| "vstep P36 v = v_next basic_json_parser_36 v"
| "vstep P37 v = v_next basic_json_parser_37 v"
| "vstep P38 v = v_next basic_json_parser_38 v"
| "vstep P39 v = v_next basic_json_parser_39 v"
| "vstep P40 v = v_next basic_json_parser_40 v"
| "vstep P41 v = v_next basic_json_parser_41 v"
| "vstep P42 v = v_next basic_json_parser_42 v"
| "vstep P43 v = v_next basic_json_parser_43 v"
| "vstep P44 v = v_next basic_json_parser_44 v"
| "vstep P45 v = v_next basic_json_parser_45 v"
| "vstep P46 v = v_next basic_json_parser_46 v"
| "vstep P47 v = v_next basic_json_parser_47 v"
| "vstep P48 v = v_next basic_json_parser_48 v"
| "vstep P49 v = v_next_marked 1 basic_json_parser_49 v"
| "vstep P51 v = v_next basic_json_parser_51 v"
| "vstep P52 v = v_next basic_json_parser_52 v"
| "vstep P54 v = v_next basic_json_parser_54 v"
| "vstep P55 v = v_next basic_json_parser_55 v"
| "vstep P56 v = v_next basic_json_parser_56 v"
| "vstep P57 v = v_next basic_json_parser_57 v"
| "vstep P58 v = v_next basic_json_parser_58 v"
| "vstep P59 v = (v_advance v, Break literal_null)"
| "vstep P61 v = (v_advance v, Break literal_true)"
| "vstep P63 v = v_next basic_json_parser_63 v"
| "vstep P64 v = (v_advance v, Break literal_false)"
| "vstep P66 v = v_next basic_json_parser_66 v"

text \<open>A scan of the text: from a label to the token that is broken off.\<close>

definition v_head :: "vlex \<Rightarrow> vlex" where
  "v_head v = v\<lparr>v_tok := [], v_mark := 0, v_acc := 0\<rparr>"

inductive vscan :: "label \<Rightarrow> vlex \<Rightarrow> vlex \<Rightarrow> token_type \<Rightarrow> bool" where
  vscan_break: "vstep q v = (v', Break t) \<Longrightarrow> vscan q v v' t"
| vscan_goto: "vstep q v = (v1, Goto q1) \<Longrightarrow> vscan q1 v1 v' t \<Longrightarrow> vscan q v v' t"
| vscan_again: "vstep q v = (v1, Again) \<Longrightarrow> vscan P0 (v_head v1) v' t \<Longrightarrow> vscan q v v' t"

section \<open>The table\<close>

lemma yybm_values: "set yybm \<subseteq> {0, 32, 64, 128, 160, 192}"
  by (simp add: yybm_def)

lemma and_values:
  "x \<in> {0, 32, 64, 128, 160, 192 :: nat} \<Longrightarrow>
     ((x AND 32 \<noteq> 0) = (x = 32 \<or> x = 160)) \<and> ((x AND 64 \<noteq> 0) = (x = 192 \<or> x = 64)) \<and>
     ((x AND 128 \<noteq> 0) = (x = 128 \<or> x = 160 \<or> x = 192))"
  by auto

lemma yybm_runs:
  "yybm = replicate 9 0 @ [32, 32, 0, 0, 32] @ replicate 18 0 @ [160, 128, 0] @ replicate 13 128 @
     replicate 10 192 @ replicate 34 128 @ [0] @ replicate 35 128 @ replicate 128 0"
  by code_simp

lemma yybm_ranges:
  assumes "n < 256"
  shows "(yybm ! n = 32 \<or> yybm ! n = 160) = (n = 9 \<or> n = 10 \<or> n = 13 \<or> n = 32)"
    "(yybm ! n = 192 \<or> yybm ! n = 64) = (48 \<le> n \<and> n \<le> 57)"
    "(yybm ! n = 128 \<or> yybm ! n = 160 \<or> yybm ! n = 192) = (32 \<le> n \<and> n \<le> 127 \<and> n \<noteq> 34 \<and> n \<noteq> 92)"
  using assms unfolding yybm_runs by (auto simp: nth_append nth_Cons' split: if_splits)

lemma length_yybm: "length yybm = 256"
  by (simp add: yybm_def)

lemma char_eq_code: "c = d \<longleftrightarrow> (of_char c :: nat) = of_char d"
  by simp

lemma char_le_code: "c \<le> d \<longleftrightarrow> (of_char c :: nat) \<le> of_char d"
  by (simp add: less_eq_char_def)

lemma yybm_bits:
  "yybm_bit c 32 \<longleftrightarrow> (of_char c :: nat) = 9 \<or> (of_char c :: nat) = 10 \<or> (of_char c :: nat) = 13 \<or> (of_char c :: nat) = 32"
  "yybm_bit c 64 \<longleftrightarrow> 48 \<le> (of_char c :: nat) \<and> (of_char c :: nat) \<le> 57"
  "yybm_bit c 128 \<longleftrightarrow>
     32 \<le> (of_char c :: nat) \<and> (of_char c :: nat) \<le> 127 \<and> (of_char c :: nat) \<noteq> 34 \<and> (of_char c :: nat) \<noteq> 92"
proof -
  let ?n = "of_char c :: nat"
  note enum = yybm_ranges [of ?n, OF of_char_less_256]
  have "yybm ! ?n \<in> set yybm" by (simp add: length_yybm)
  with yybm_values have vals: "yybm ! ?n \<in> {0, 32, 64, 128, 160, 192}" by blast
  note * = and_values [OF vals]
  show "yybm_bit c 32 \<longleftrightarrow> ?n = 9 \<or> ?n = 10 \<or> ?n = 13 \<or> ?n = 32"
    unfolding yybm_bit_def using * enum(1) by blast
  show "yybm_bit c 64 \<longleftrightarrow> 48 \<le> ?n \<and> ?n \<le> 57"
    unfolding yybm_bit_def using * enum(2) by blast
  show "yybm_bit c 128 \<longleftrightarrow> 32 \<le> ?n \<and> ?n \<le> 127 \<and> ?n \<noteq> 34 \<and> ?n \<noteq> 92"
    unfolding yybm_bit_def using * enum(3) by blast
qed

section \<open>The buffer serves the automaton\<close>

text \<open>
  The text still to come from a stream: its rest and the newline that \<open>fill_line_buffer\<close>
  adds.  What the automaton sees ends at the first null.
\<close>

fun stream_text :: "istream option \<Rightarrow> bytes" where
  "stream_text None = []"
| "stream_text (Some s) = (if s_eof s then [] else s_rest s @ [LF])"

definition text_of :: "lexer \<Rightarrow> bytes" where
  "text_of l = takeWhile (\<lambda>c. c \<noteq> NUL) (drop (m_cursor l) (m_content l) @ stream_text (m_stream l))"

definition view_of :: "lexer \<Rightarrow> vlex" where
  "view_of l = \<lparr>v_tok = token_text l, v_rest = text_of l,
     v_mark = (case m_marker l of None \<Rightarrow> 0 | Some m \<Rightarrow> m - m_start l), v_acc = yyaccept l\<rparr>"

definition lex_ok :: "lexer \<Rightarrow> bool" where
  "lex_ok l \<longleftrightarrow> \<not> m_null l \<and>
     m_limit l = length (m_content l) \<and> m_start l \<le> m_cursor l \<and> m_cursor l \<le> m_limit l \<and>
     (\<forall>m. m_marker l = Some m \<longrightarrow> m_start l \<le> m \<and> m \<le> m_cursor l) \<and>
     NUL \<notin> set (token_text l)"

text \<open>
  The characters a line or the padding ends with stop the automaton.  \<open>reach k\<close>: either the
  buffer ends with such a character or \<open>k\<close> characters can be read without a test.
\<close>

definition stopper :: "char \<Rightarrow> bool" where
  "stopper c \<longleftrightarrow> c = NUL \<or> c = CHR 0x01 \<or> c = LF"

definition ends :: "lexer \<Rightarrow> bool" where
  "ends l \<longleftrightarrow> m_content l \<noteq> [] \<and> stopper (last (m_content l))"

definition reach :: "nat \<Rightarrow> lexer \<Rightarrow> bool" where
  "reach k l \<longleftrightarrow> k = 0 \<or> m_cursor l < m_limit l \<and> (k \<le> m_limit l - m_cursor l \<or> ends l)"

text \<open>The longest run of reads from a label to the next test of the limit.\<close>

fun dist :: "label \<Rightarrow> nat" where
  "dist P0 = 0" | "dist P5 = 0" | "dist P14 = 0" | "dist P32 = 0"
| "dist P12 = 5" | "dist P23 = 5"
| "dist P13 = 4" | "dist P24 = 4" | "dist P25 = 4" | "dist P45 = 4"
| "dist P44 = 3" | "dist P46 = 3" | "dist P47 = 3" | "dist P54 = 3"
| "dist P9 = 2" | "dist P43 = 2" | "dist P51 = 2" | "dist P55 = 2" | "dist P56 = 2" | "dist P58 = 2"
| "dist _ = 1"

fun needs_marker :: "label \<Rightarrow> bool" where
  "needs_marker P0 = False" | "needs_marker P2 = False" | "needs_marker P4 = False"
| "needs_marker P5 = False" | "needs_marker P6 = False" | "needs_marker P9 = False"
| "needs_marker P10 = False" | "needs_marker P12 = False" | "needs_marker P13 = False"
| "needs_marker P14 = False" | "needs_marker P15 = False" | "needs_marker P17 = False"
| "needs_marker P19 = False" | "needs_marker P21 = False" | "needs_marker P23 = False"
| "needs_marker P24 = False" | "needs_marker P25 = False" | "needs_marker P26 = False"
| "needs_marker P28 = False" | "needs_marker _ = True"

definition fits :: "label \<Rightarrow> char \<Rightarrow> bool" where
  "fits q c \<longleftrightarrow> (1 \<le> dist q \<longrightarrow> q \<noteq> P2 \<longrightarrow> c \<noteq> NUL) \<and> (2 \<le> dist q \<longrightarrow> \<not> stopper c)"

definition safe :: "label \<Rightarrow> lexer \<Rightarrow> bool" where
  "safe q l \<longleftrightarrow> lex_ok l \<and> reach (dist q) l \<and>
     (1 \<le> dist q \<longrightarrow> fits q (m_content l ! m_cursor l)) \<and> (needs_marker q \<longrightarrow> m_marker l \<noteq> None)"

definition branch_ok :: "nat \<Rightarrow> bool \<Rightarrow> (char \<Rightarrow> action) \<Rightarrow> bool" where
  "branch_ok k marked branch \<longleftrightarrow>
     (\<forall>c. case branch c of Goto q \<Rightarrow> dist q \<le> k \<and> (needs_marker q \<longrightarrow> marked) | _ \<Rightarrow> True) \<and>
     (\<forall>c \<in> set [NUL, CHR 0x01, LF]. case branch c of Goto q \<Rightarrow> fits q c | _ \<Rightarrow> True)"

lemma branch_ok_goto:
  assumes "branch_ok k marked branch" "branch c = Goto q"
  shows "dist q \<le> k" "fits q c" "needs_marker q \<Longrightarrow> marked"
proof -
  from assms show "dist q \<le> k" "needs_marker q \<Longrightarrow> marked"
    by (auto simp: branch_ok_def dest!: spec [of _ c])
  show "fits q c"
  proof (cases "c \<in> set [NUL, CHR 0x01, LF]")
    case True
    with assms show ?thesis by (auto simp: branch_ok_def)
  qed (simp add: fits_def stopper_def)
qed

lemma branch_ok_mono:
  "branch_ok k marked branch \<Longrightarrow> (marked \<Longrightarrow> marked') \<Longrightarrow> k \<le> k' \<Longrightarrow> branch_ok k' marked' branch"
  by (fastforce simp: branch_ok_def split: action.splits)

lemma branches_ok:
  "branch_ok 5 False basic_json_parser_0"
  "branch_ok 1 False basic_json_parser_6"
  "branch_ok 1 True basic_json_parser_9"
  "branch_ok 4 False basic_json_parser_12"
  "branch_ok 3 True basic_json_parser_13"
  "branch_ok 3 True basic_json_parser_15"
  "branch_ok 4 True basic_json_parser_23"
  "branch_ok 3 True basic_json_parser_24"
  "branch_ok 3 True basic_json_parser_25"
  "branch_ok 1 True basic_json_parser_31"
  "branch_ok 1 True basic_json_parser_35"
  "branch_ok 1 True basic_json_parser_36"
  "branch_ok 1 True basic_json_parser_37"
  "branch_ok 1 True basic_json_parser_38"
  "branch_ok 1 True basic_json_parser_39"
  "branch_ok 1 True basic_json_parser_40"
  "branch_ok 1 True basic_json_parser_41"
  "branch_ok 1 True basic_json_parser_42"
  "branch_ok 1 True basic_json_parser_43"
  "branch_ok 2 True basic_json_parser_44"
  "branch_ok 3 True basic_json_parser_45"
  "branch_ok 2 True basic_json_parser_46"
  "branch_ok 2 True basic_json_parser_47"
  "branch_ok 1 True basic_json_parser_48"
  "branch_ok 3 True basic_json_parser_49"
  "branch_ok 1 True basic_json_parser_51"
  "branch_ok 1 True basic_json_parser_52"
  "branch_ok 2 True basic_json_parser_54"
  "branch_ok 1 True basic_json_parser_55"
  "branch_ok 1 True basic_json_parser_56"
  "branch_ok 1 True basic_json_parser_57"
  "branch_ok 1 True basic_json_parser_58"
  "branch_ok 1 True basic_json_parser_63"
  "branch_ok 1 True basic_json_parser_66"
  unfolding branch_ok_def
  subgoal by (simp add: basic_json_parser_0_def yybm_bits char_le_code fits_def stopper_def)
  subgoal by (simp add: basic_json_parser_6_def yybm_bits char_le_code fits_def stopper_def)
  subgoal by (simp add: basic_json_parser_9_def yybm_bits char_le_code fits_def stopper_def)
  subgoal by (simp add: basic_json_parser_12_def yybm_bits char_le_code fits_def stopper_def)
  subgoal by (simp add: basic_json_parser_13_def yybm_bits char_le_code fits_def stopper_def)
  subgoal by (simp add: basic_json_parser_15_def yybm_bits char_le_code fits_def stopper_def)
  subgoal by (simp add: basic_json_parser_23_def yybm_bits char_le_code fits_def stopper_def)
  subgoal by (simp add: basic_json_parser_24_def yybm_bits char_le_code fits_def stopper_def)
  subgoal by (simp add: basic_json_parser_25_def yybm_bits char_le_code fits_def stopper_def)
  subgoal by (simp add: basic_json_parser_31_def yybm_bits char_le_code fits_def stopper_def)
  subgoal by (simp add: basic_json_parser_35_def yybm_bits char_le_code fits_def stopper_def)
  subgoal by (simp add: basic_json_parser_36_def yybm_bits char_le_code fits_def stopper_def)
  subgoal by (simp add: basic_json_parser_37_def yybm_bits char_le_code fits_def stopper_def)
  subgoal by (simp add: basic_json_parser_38_def yybm_bits char_le_code fits_def stopper_def)
  subgoal by (simp add: basic_json_parser_39_def yybm_bits char_le_code fits_def stopper_def)
  subgoal by (simp add: basic_json_parser_40_def yybm_bits char_le_code fits_def stopper_def)
  subgoal by (simp add: basic_json_parser_41_def yybm_bits char_le_code fits_def stopper_def)
  subgoal by (simp add: basic_json_parser_42_def yybm_bits char_le_code fits_def stopper_def)
  subgoal by (simp add: basic_json_parser_43_def yybm_bits char_le_code fits_def stopper_def)
  subgoal by (simp add: basic_json_parser_44_def yybm_bits char_le_code fits_def stopper_def)
  subgoal by (simp add: basic_json_parser_45_def yybm_bits char_le_code fits_def stopper_def)
  subgoal by (simp add: basic_json_parser_46_def yybm_bits char_le_code fits_def stopper_def)
  subgoal by (simp add: basic_json_parser_47_def yybm_bits char_le_code fits_def stopper_def)
  subgoal by (simp add: basic_json_parser_48_def yybm_bits char_le_code fits_def stopper_def)
  subgoal by (simp add: basic_json_parser_49_def yybm_bits char_le_code fits_def stopper_def)
  subgoal by (simp add: basic_json_parser_51_def yybm_bits char_le_code fits_def stopper_def)
  subgoal by (simp add: basic_json_parser_52_def yybm_bits char_le_code fits_def stopper_def)
  subgoal by (simp add: basic_json_parser_54_def yybm_bits char_le_code fits_def stopper_def)
  subgoal by (simp add: basic_json_parser_55_def yybm_bits char_le_code fits_def stopper_def)
  subgoal by (simp add: basic_json_parser_56_def yybm_bits char_le_code fits_def stopper_def)
  subgoal by (simp add: basic_json_parser_57_def yybm_bits char_le_code fits_def stopper_def)
  subgoal by (simp add: basic_json_parser_58_def yybm_bits char_le_code fits_def stopper_def)
  subgoal by (simp add: basic_json_parser_63_def yybm_bits char_le_code fits_def stopper_def)
  subgoal by (simp add: basic_json_parser_66_def yybm_bits char_le_code fits_def stopper_def)
  done

text \<open>One step of the program: it returns, its view is that of the automaton, and it may go on.\<close>

definition goes_on :: "(lexer \<times> action) option \<Rightarrow> vlex \<times> action \<Rightarrow> bool" where
  "goes_on x v \<longleftrightarrow> (\<exists>l a. x = Some (l, a) \<and> v = (view_of l, a) \<and> lex_ok l \<and>
     (case a of Goto q \<Rightarrow> safe q l | _ \<Rightarrow> True))"

lemma cursor_text:
  "m_cursor l < length (m_content l) \<Longrightarrow>
     text_of l = takeWhile (\<lambda>c. c \<noteq> NUL) (m_content l ! m_cursor l # drop (Suc (m_cursor l)) (m_content l) @ stream_text (m_stream l))"
  by (simp add: text_of_def Cons_nth_drop_Suc [symmetric])

lemma v_char_view: "m_cursor l < length (m_content l) \<Longrightarrow> v_char (view_of l) = m_content l ! m_cursor l"
  by (simp add: v_char_def view_of_def cursor_text)

lemma read_goes_on:
  assumes "lex_ok l" "reach k l" "0 < k" "branch_ok k (m_marker l \<noteq> None) branch"
  shows "goes_on (read branch l) (v_read branch (view_of l))"
proof -
  let ?c = "m_content l ! m_cursor l"
  have lt: "m_cursor l < m_limit l" and len: "m_limit l = length (m_content l)"
    using assms by (auto simp: reach_def lex_ok_def)
  have "safe q l" if "branch ?c = Goto q" for q
    using branch_ok_goto [OF assms(4) that] assms(1,2) lt
    by (auto simp: safe_def reach_def)
  then show ?thesis
    using assms(1) lt len by (auto simp: goes_on_def read_def v_read_def v_char_view split: action.splits)
qed

lemma token_advance:
  "m_start l \<le> m_cursor l \<Longrightarrow> m_cursor l < length (m_content l) \<Longrightarrow>
     token_text (advance l) = token_text l @ [m_content l ! m_cursor l]"
  by (simp add: token_text_def advance_def Suc_diff_le take_Suc_conv_app_nth)

lemma advance_ok:
  assumes "lex_ok l" "m_cursor l < m_limit l" "m_content l ! m_cursor l \<noteq> NUL"
  shows "lex_ok (advance l)" "view_of (advance l) = v_advance (view_of l)"
proof -
  have len: "m_limit l = length (m_content l)" using assms(1) by (simp add: lex_ok_def)
  have tok: "token_text (advance l) = token_text l @ [m_content l ! m_cursor l]"
    using assms len by (simp add: token_advance lex_ok_def)
  show "lex_ok (advance l)"
    unfolding lex_ok_def tok using assms by (auto simp: lex_ok_def advance_def)
  have "text_of (advance l) = tl (text_of l)"
    using assms len by (simp add: cursor_text) (simp add: text_of_def advance_def)
  then show "view_of (advance l) = v_advance (view_of l)"
    using assms len by (simp add: view_of_def [of "advance l"] tok v_advance_def v_char_view)
      (simp add: view_of_def advance_def split: option.split)
qed

lemma reach_advance:
  assumes "reach (Suc k) l" "k \<noteq> 0 \<Longrightarrow> \<not> stopper (m_content l ! m_cursor l)" "lex_ok l"
  shows "reach k (advance l)"
proof (cases "k = 0 \<or> Suc k \<le> m_limit l - m_cursor l")
  case False
  then have "ends l" "m_cursor l < m_limit l" "\<not> stopper (m_content l ! m_cursor l)"
    using assms by (auto simp: reach_def)
  moreover from this have "Suc (m_cursor l) \<noteq> m_limit l"
    using assms(3) by (auto simp: ends_def lex_ok_def last_conv_nth dest: sym)
  ultimately show ?thesis by (simp add: reach_def advance_def ends_def)
qed (auto simp: reach_def advance_def)

lemma set_marker_ok [simp]:
  "lex_ok l \<Longrightarrow> lex_ok (set_marker l)"
  "lex_ok l \<Longrightarrow> view_of (set_marker l) = v_set_marker (view_of l)"
  "reach k (set_marker l) = reach k l"
  "m_marker (set_marker l) = Some (m_cursor l)"
  by (auto simp: set_marker_def lex_ok_def reach_def ends_def view_of_def v_set_marker_def
      token_text_def text_of_def)

lemma yyaccept_ok [simp]:
  "lex_ok (l\<lparr>yyaccept := a\<rparr>) = lex_ok l"
  "view_of (l\<lparr>yyaccept := a\<rparr>) = view_of l\<lparr>v_acc := a\<rparr>"
  "reach k (l\<lparr>yyaccept := a\<rparr>) = reach k l"
  by (auto simp: lex_ok_def reach_def ends_def view_of_def token_text_def text_of_def split: option.split)

lemma getline_text:
  assumes "\<not> s_eof s" "getline s = (line, s')"
  shows "stream_text (Some s) = line @ [LF] @ stream_text (Some s')"
proof (cases "dropWhile (\<lambda>c. c \<noteq> LF) (s_rest s)")
  case Nil
  then have "getline s = (s_rest s, s\<lparr>s_rest := [], s_eof := True\<rparr>)"
    unfolding getline_def by (simp only: list.case)
  with assms(2) have "line = s_rest s" "s' = s\<lparr>s_rest := [], s_eof := True\<rparr>" by simp_all
  with assms(1) show ?thesis by simp
next
  case (Cons c r)
  have "c = LF" using hd_dropWhile [of "\<lambda>c. c \<noteq> LF" "s_rest s"] Cons by simp
  moreover have "takeWhile (\<lambda>c. c \<noteq> LF) (s_rest s) @ c # r = s_rest s"
    by (simp flip: Cons)
  moreover have "getline s = (takeWhile (\<lambda>c. c \<noteq> LF) (s_rest s), s\<lparr>s_rest := r\<rparr>)"
    unfolding getline_def Cons by (simp only: list.case)
  with assms(2) have "line = takeWhile (\<lambda>c. c \<noteq> LF) (s_rest s)" "s' = s\<lparr>s_rest := r\<rparr>" by simp_all
  ultimately show ?thesis using assms(1) by simp
qed

definition refilled :: "lexer \<Rightarrow> bytes \<Rightarrow> istream option \<Rightarrow> lexer" where
  "refilled l pad stream =
     l\<lparr>m_stream := stream, m_null := False, m_content := drop (m_start l) (m_content l) @ pad, m_start := 0,
       m_marker := Some (case m_marker l of None \<Rightarrow> 0 | Some m \<Rightarrow> m - m_start l),
       m_cursor := m_cursor l - m_start l,
       m_limit := length (drop (m_start l) (m_content l) @ pad)\<rparr>"

lemma refilled_marker: "m_marker (refilled l pad stream) \<noteq> None"
  by (simp add: refilled_def)

lemma refilled_ok:
  assumes "lex_ok l"
    and same: "takeWhile (\<lambda>c. c \<noteq> NUL) (drop (m_cursor l) (m_content l) @ pad @ stream_text stream) = text_of l"
  shows "lex_ok (refilled l pad stream)" "view_of (refilled l pad stream) = view_of l"
proof -
  have tok: "token_text (refilled l pad stream) = token_text l"
    using assms(1) by (auto simp: lex_ok_def token_text_def refilled_def)
  show "lex_ok (refilled l pad stream)"
    unfolding lex_ok_def tok using assms(1)
    by (auto simp: lex_ok_def refilled_def split: option.splits)
  have "text_of (refilled l pad stream) = text_of l"
    using assms(1) unfolding same [symmetric] by (simp add: text_of_def refilled_def lex_ok_def)
  then show "view_of (refilled l pad stream) = view_of l"
    unfolding view_of_def tok by (simp add: refilled_def split: option.split)
qed

lemma takeWhile_padding: "takeWhile (\<lambda>c. c \<noteq> NUL) (xs @ NUL # ys) = takeWhile (\<lambda>c. c \<noteq> NUL) xs"
  by (induction xs) simp_all

lemma fill_line_buffer_refilled:
  assumes "lex_ok l" "0 < n"
  obtains pad stream where "fill_line_buffer n l = Some (refilled l pad stream)"
    "takeWhile (\<lambda>c. c \<noteq> NUL) (drop (m_cursor l) (m_content l) @ pad @ stream_text stream) = text_of l"
    "pad \<noteq> []" "stopper (last pad)"
proof -
  have asserts: "fill_asserts l"
    using assms(1) by (auto simp: fill_asserts_def lex_ok_def split: option.split)
  have stop: "stopper (last (NUL # replicate (n - 1) (CHR 0x01)))"
    by (cases "n - 1") (simp_all add: stopper_def)
  show thesis
  proof (cases "\<exists>s. m_stream l = Some s \<and> \<not> s_eof s")
    case True
    then obtain s line s' where *: "m_stream l = Some s" "\<not> s_eof s" "getline s = (line, s')"
      by (metis surj_pair)
    show thesis
    proof (rule that [of "line @ [LF]" "Some s'"])
      show "fill_line_buffer n l = Some (refilled l (line @ [LF]) (Some s'))"
        using * asserts by (simp add: fill_line_buffer_def refilled_def Let_def)
      show "takeWhile (\<lambda>c. c \<noteq> NUL) (drop (m_cursor l) (m_content l) @ (line @ [LF]) @ stream_text (Some s'))
          = text_of l"
        using getline_text [OF *(2,3)] by (simp add: text_of_def *(1) del: stream_text.simps)
    qed (simp_all add: stopper_def)
  next
    case False
    then have "stream_text (m_stream l) = []" by (cases "m_stream l") auto
    with False asserts stop show thesis
      by (intro that [of "NUL # replicate (n - 1) (CHR 0x01)" "m_stream l"])
        (auto simp: fill_line_buffer_def refilled_def text_of_def takeWhile_padding Let_def split: option.split)
  qed
qed

text \<open>When a refill leaves fewer than \<open>n\<close> characters, what it added ends with a stopper.\<close>

lemma need_ok:
  assumes "lex_ok l" "0 < n"
  obtains l' where "need n l = Some l'" "lex_ok l'" "view_of l' = view_of l" "reach n l'"
    "m_marker l \<noteq> None \<Longrightarrow> m_marker l' \<noteq> None"
proof (cases "m_limit l - m_cursor l < n")
  case True
  obtain pad stream where *: "fill_line_buffer n l = Some (refilled l pad stream)"
    "takeWhile (\<lambda>c. c \<noteq> NUL) (drop (m_cursor l) (m_content l) @ pad @ stream_text stream) = text_of l"
    "pad \<noteq> []" "stopper (last pad)"
    using assms by (rule fill_line_buffer_refilled)
  have "m_cursor l \<le> length (m_content l)" "m_start l \<le> m_cursor l"
    using assms(1) by (auto simp: lex_ok_def)
  with *(3,4) have "reach n (refilled l pad stream)"
    by (cases pad) (auto simp: reach_def ends_def refilled_def)
  with True * refilled_ok [OF assms(1) *(2)] show thesis
    by (intro that [of "refilled l pad stream"]) (simp_all add: need_def refilled_marker)
next
  case False
  with assms show thesis by (intro that [of l]) (auto simp: need_def reach_def)
qed

lemmas safe_facts = safe_def fits_def

lemma goes_on_next_char:
  assumes "safe q l" "dist q = Suc k" "0 < k" "branch_ok k (needs_marker q) branch" "q \<noteq> P2"
  shows "goes_on (next_char branch l) (v_next branch (view_of l))"
proof -
  have "branch_ok k (m_marker l \<noteq> None) branch"
    using assms(1,4) by (auto simp: safe_def intro: branch_ok_mono)
  have lt: "m_cursor l < m_limit l" and cur: "m_content l ! m_cursor l \<noteq> NUL"
    "\<not> stopper (m_content l ! m_cursor l)" and ok: "lex_ok l"
    using assms(1,2,3,5) by (auto simp: safe_facts reach_def)
  have "reach k (advance l)" using assms(1,2) cur by (intro reach_advance) (auto simp: safe_def)
  then have "goes_on (read branch (advance l)) (v_read branch (view_of (advance l)))"
    using assms(3) \<open>branch_ok k (m_marker l \<noteq> None) branch\<close> advance_ok(1) [OF ok lt cur(1)]
    by (intro read_goes_on) (simp_all add: advance_def)
  then show ?thesis by (simp add: next_char_def advance_ok(2) [OF ok lt cur(1)])
qed

lemma goes_on_next_marked:
  assumes "safe q l" "dist q = Suc k" "0 < k" "branch_ok k True branch" "q \<noteq> P2"
  shows "goes_on (next_marked a branch l) (v_next_marked a branch (view_of l))"
proof -
  let ?l = "l\<lparr>yyaccept := a\<rparr>"
  have lt: "m_cursor ?l < m_limit ?l" and cur: "m_content ?l ! m_cursor ?l \<noteq> NUL"
    "\<not> stopper (m_content ?l ! m_cursor ?l)" and ok: "lex_ok ?l"
    using assms(1,2,3,5) by (auto simp: safe_facts reach_def)
  have "reach k (advance ?l)" using assms(1,2) cur by (intro reach_advance) (auto simp: safe_def)
  then have "goes_on (read branch (set_marker (advance ?l))) (v_read branch (view_of (set_marker (advance ?l))))"
    using assms(3,4) advance_ok(1) [OF ok lt cur(1)] by (intro read_goes_on) simp_all
  then show ?thesis using advance_ok [OF ok lt cur(1)] by (simp add: next_marked_def)
qed

lemma goes_on_next_filled:
  assumes "safe q l" "1 \<le> dist q" "branch_ok 1 (needs_marker q) branch" "q \<noteq> P2"
  shows "goes_on (next_filled branch l) (v_next branch (view_of l))"
proof -
  have lt: "m_cursor l < m_limit l" and cur: "m_content l ! m_cursor l \<noteq> NUL" and ok: "lex_ok l"
    using assms(1,2,4) by (auto simp: safe_facts reach_def)
  obtain l' where l': "need 1 (advance l) = Some l'" "lex_ok l'" "view_of l' = view_of (advance l)"
    "reach 1 l'" "m_marker (advance l) \<noteq> None \<Longrightarrow> m_marker l' \<noteq> None"
    using need_ok [OF advance_ok(1) [OF ok lt cur]] by (metis zero_less_one)
  have "branch_ok 1 (m_marker l' \<noteq> None) branch"
    using assms(1,3) l'(5) by (auto simp: safe_def advance_def intro: branch_ok_mono)
  with l' have "goes_on (read branch l') (v_read branch (view_of l'))" by (intro read_goes_on) simp_all
  then show ?thesis using l' by (simp add: next_filled_def advance_ok(2) [OF ok lt cur])
qed

lemma goes_on_next_marked_filled:
  assumes "safe q l" "1 \<le> dist q" "branch_ok 3 True branch" "q \<noteq> P2"
  shows "goes_on (next_marked_filled a branch l) (v_next_marked a branch (view_of l))"
proof -
  let ?l = "l\<lparr>yyaccept := a\<rparr>"
  have lt: "m_cursor ?l < m_limit ?l" and cur: "m_content ?l ! m_cursor ?l \<noteq> NUL" and ok: "lex_ok ?l"
    using assms(1,2,4) by (auto simp: safe_facts reach_def)
  let ?m = "set_marker (advance ?l)"
  have "lex_ok ?m" using advance_ok(1) [OF ok lt cur] by simp
  then obtain l' where l': "need 3 ?m = Some l'" "lex_ok l'" "view_of l' = view_of ?m"
    "reach 3 l'" "m_marker ?m \<noteq> None \<Longrightarrow> m_marker l' \<noteq> None"
    using need_ok [of ?m 3] by (metis zero_less_numeral)
  have "goes_on (read branch l') (v_read branch (view_of l'))"
    using l' assms(3) by (intro read_goes_on [of _ 3]) simp_all
  then show ?thesis using l' advance_ok [OF ok lt cur] by (simp add: next_marked_filled_def)
qed

lemma goes_on_ends_token:
  assumes "safe q l" "1 \<le> dist q" "q \<noteq> P2"
  shows "goes_on (ends_token t l) (v_advance (view_of l), Break t)"
proof -
  have "m_cursor l < m_limit l" "m_content l ! m_cursor l \<noteq> NUL" "lex_ok l"
    using assms by (auto simp: safe_facts reach_def)
  from advance_ok [OF this(3,1,2)] show ?thesis by (simp add: goes_on_def ends_token_def)
qed

lemma takeWhile_no_nul:
  "NUL \<notin> set xs \<Longrightarrow> takeWhile (\<lambda>c. c \<noteq> NUL) (xs @ ys) = xs @ takeWhile (\<lambda>c. c \<noteq> NUL) ys"
  by (induction xs) auto

lemma goes_on_back:
  assumes "safe P32 l"
  shows "goes_on (dfa_step P32 l) (vstep P32 (view_of l))"
proof -
  obtain m where m: "m_marker l = Some m" and ok: "lex_ok l" using assms by (auto simp: safe_def)
  let ?l = "l\<lparr>m_cursor := m\<rparr>" and ?mid = "take (m_cursor l - m) (drop m (m_content l))"
  have bounds: "m_start l \<le> m" "m \<le> m_cursor l" "m_cursor l \<le> length (m_content l)"
    "m_limit l = length (m_content l)"
    using ok m by (auto simp: lex_ok_def)
  have tok: "token_text l = token_text ?l @ ?mid"
    using bounds take_add [of "m - m_start l" "m_cursor l - m" "drop (m_start l) (m_content l)"]
    by (simp add: token_text_def)
  have len: "length (token_text ?l) = m - m_start l"
    using bounds by (simp add: token_text_def)
  have no_nul: "NUL \<notin> set (token_text ?l)" "NUL \<notin> set ?mid"
    using ok unfolding lex_ok_def tok set_append by blast+
  have mid: "?mid @ drop (m_cursor l) (m_content l) = drop m (m_content l)"
    using bounds append_take_drop_id [of "m_cursor l - m" "drop m (m_content l)"] by simp
  have "text_of ?l = takeWhile (\<lambda>c. c \<noteq> NUL) ((?mid @ drop (m_cursor l) (m_content l)) @ stream_text (m_stream l))"
    unfolding mid by (simp add: text_of_def)
  then have rest: "text_of ?l = ?mid @ text_of l"
    unfolding append_assoc takeWhile_no_nul [OF no_nul(2)] by (simp only: text_of_def)
  have ok': "lex_ok ?l" using ok no_nul(1) bounds m by (simp add: lex_ok_def)
  then have "safe P5 ?l" "safe P14 ?l" by (simp_all add: safe_def reach_def)
  moreover have "v_back (m - m_start l) (view_of l) = view_of ?l"
    using len by (simp add: v_back_def view_of_def tok rest m)
  ultimately show ?thesis
    using ok' m by (auto simp: goes_on_def view_of_def)
qed

lemma step_goes_on:
  assumes "safe q l" "q \<noteq> P2"
  shows "goes_on (dfa_step q l) (vstep q (view_of l))"
proof (cases q)
  case P0
  with assms obtain l' where l': "need 5 l = Some l'" "lex_ok l'" "view_of l' = view_of l" "reach 5 l'"
    using need_ok [of l 5] by (metis safe_def zero_less_numeral)
  have "branch_ok 5 (m_marker l' \<noteq> None) basic_json_parser_0"
    using branches_ok(1) by (rule branch_ok_mono) simp_all
  with l' have "goes_on (read basic_json_parser_0 l') (v_read basic_json_parser_0 (view_of l'))"
    by (intro read_goes_on [of _ 5]) simp_all
  with P0 l' show ?thesis by simp
next
  case P2
  with assms show ?thesis by simp
next
  case P4
  with assms have "lex_ok l" "m_cursor l < m_limit l" "m_content l ! m_cursor l \<noteq> NUL"
    by (auto simp: safe_facts reach_def)
  from advance_ok [OF this] P4 show ?thesis by (simp add: goes_on_def safe_def reach_def)
next
  case P5
  with assms show ?thesis by (simp add: goes_on_def safe_def)
next
  case P6
  with assms branches_ok(2) show ?thesis by (simp add: goes_on_next_filled [of q])
next
  case P9
  with assms show ?thesis
    by (simp add: goes_on_next_marked [OF _ _ _ branch_ok_mono [OF branches_ok(3)]])
next
  case P10
  with assms show ?thesis by (simp add: goes_on_ends_token)
next
  case P12
  with assms branches_ok(4) show ?thesis by (simp add: goes_on_next_char [of q _ 4])
next
  case P13
  with assms show ?thesis
    by (simp add: goes_on_next_marked [OF _ _ _ branch_ok_mono [OF branches_ok(5)]])
next
  case P14
  with assms show ?thesis by (simp add: goes_on_def safe_def)
next
  case P15
  with assms show ?thesis
    by (simp add: goes_on_next_marked_filled [OF _ _ branch_ok_mono [OF branches_ok(6)]])
next
  case P17
  with assms show ?thesis by (simp add: goes_on_ends_token)
next
  case P19
  with assms show ?thesis by (simp add: goes_on_ends_token)
next
  case P21
  with assms show ?thesis by (simp add: goes_on_ends_token)
next
  case P23
  with assms show ?thesis
    by (simp add: goes_on_next_marked [OF _ _ _ branch_ok_mono [OF branches_ok(7)]])
next
  case P24
  with assms show ?thesis
    by (simp add: goes_on_next_marked [OF _ _ _ branch_ok_mono [OF branches_ok(8)]])
next
  case P25
  with assms show ?thesis
    by (simp add: goes_on_next_marked [OF _ _ _ branch_ok_mono [OF branches_ok(9)]])
next
  case P26
  with assms show ?thesis by (simp add: goes_on_ends_token)
next
  case P28
  with assms show ?thesis by (simp add: goes_on_ends_token)
next
  case P30
  with assms branches_ok(10) show ?thesis by (simp add: goes_on_next_filled [of q])
next
  case P31
  with assms have "goes_on (read basic_json_parser_31 l) (v_read basic_json_parser_31 (view_of l))"
    by (intro read_goes_on [of _ 1] branch_ok_mono [OF branches_ok(10)]) (simp_all add: safe_def)
  with P31 show ?thesis by simp
next
  case P32
  with assms goes_on_back show ?thesis by simp
next
  case P33
  with assms show ?thesis by (simp add: goes_on_ends_token)
next
  case P35
  with assms branches_ok(11) show ?thesis by (simp add: goes_on_next_filled [of q])
next
  case P36
  with assms branches_ok(12) show ?thesis by (simp add: goes_on_next_filled [of q])
next
  case P37
  with assms branches_ok(13) show ?thesis by (simp add: goes_on_next_filled [of q])
next
  case P38
  with assms branches_ok(14) show ?thesis by (simp add: goes_on_next_filled [of q])
next
  case P39
  with assms branches_ok(15) show ?thesis by (simp add: goes_on_next_filled [of q])
next
  case P40
  with assms branches_ok(16) show ?thesis by (simp add: goes_on_next_filled [of q])
next
  case P41
  with assms branches_ok(17) show ?thesis by (simp add: goes_on_next_filled [of q])
next
  case P42
  with assms branches_ok(18) show ?thesis by (simp add: goes_on_next_filled [of q])
next
  case P43
  with assms branches_ok(19) show ?thesis by (simp add: goes_on_next_char [of q _ 1])
next
  case P44
  with assms branches_ok(20) show ?thesis by (simp add: goes_on_next_char [of q _ 2])
next
  case P45
  with assms branches_ok(21) show ?thesis by (simp add: goes_on_next_char [of q _ 3])
next
  case P46
  with assms branches_ok(22) show ?thesis by (simp add: goes_on_next_char [of q _ 2])
next
  case P47
  with assms branches_ok(23) show ?thesis by (simp add: goes_on_next_char [of q _ 2])
next
  case P48
  with assms branches_ok(24) show ?thesis by (simp add: goes_on_next_filled [of q])
next
  case P49
  with assms show ?thesis
    by (simp add: goes_on_next_marked_filled [OF _ _ branch_ok_mono [OF branches_ok(25)]])
next
  case P51
  with assms branches_ok(26) show ?thesis by (simp add: goes_on_next_char [of q _ 1])
next
  case P52
  with assms branches_ok(27) show ?thesis by (simp add: goes_on_next_filled [of q])
next
  case P54
  with assms branches_ok(28) show ?thesis by (simp add: goes_on_next_char [of q _ 2])
next
  case P55
  with assms branches_ok(29) show ?thesis by (simp add: goes_on_next_char [of q _ 1])
next
  case P56
  with assms branches_ok(30) show ?thesis by (simp add: goes_on_next_char [of q _ 1])
next
  case P57
  with assms branches_ok(31) show ?thesis by (simp add: goes_on_next_filled [of q])
next
  case P58
  with assms branches_ok(32) show ?thesis by (simp add: goes_on_next_char [of q _ 1])
next
  case P59
  with assms show ?thesis by (simp add: goes_on_ends_token)
next
  case P61
  with assms show ?thesis by (simp add: goes_on_ends_token)
next
  case P63
  with assms branches_ok(33) show ?thesis by (simp add: goes_on_next_filled [of q])
next
  case P64
  with assms show ?thesis by (simp add: goes_on_ends_token)
next
  case P66
  with assms branches_ok(34) show ?thesis by (simp add: goes_on_next_filled [of q])
qed

text \<open>A scan of the text is a scan of the buffer.\<close>

definition scanned :: "lexer \<Rightarrow> token_type \<Rightarrow> bytes \<Rightarrow> bytes \<Rightarrow> bool" where
  "scanned l t tok rest \<longleftrightarrow> last_token_type l = t \<and>
     (t \<noteq> end_of_input \<longrightarrow> lex_ok l \<and> token_text l = tok \<and> text_of l = rest)"

lemma last_token_type_ok [simp]:
  "lex_ok (l\<lparr>last_token_type := t\<rparr>) = lex_ok l"
  "token_text (l\<lparr>last_token_type := t\<rparr>) = token_text l"
  "text_of (l\<lparr>last_token_type := t\<rparr>) = text_of l"
  by (simp_all add: lex_ok_def token_text_def text_of_def)

lemma loop_head_ok:
  assumes "lex_ok l"
  shows "loop_head l = Some (head_state l)" "safe P0 (head_state l)" "view_of (head_state l) = v_head (view_of l)"
proof -
  have "token_text (head_state l) = []" by (simp add: token_text_def head_state_def)
  then show "safe P0 (head_state l)" "view_of (head_state l) = v_head (view_of l)"
    using assms by (auto simp: safe_def lex_ok_def reach_def view_of_def v_head_def)
      (simp_all add: head_state_def text_of_def)
  show "loop_head l = Some (head_state l)" using assms by (simp add: loop_head_def lex_ok_def)
qed

lemma scan_from_ok:
  assumes "vscan q v v' t" "safe q l" "view_of l = v"
  shows "\<exists>l'. scan_from q l = Some l' \<and> scanned l' t (v_tok v') (v_rest v')"
  using assms
proof (induction arbitrary: l)
  case (vscan_break q v v' t)
  show ?case
  proof (cases "q = P2")
    case True
    with vscan_break show ?thesis
      by (subst scan_from.simps) (simp add: ends_token_def scanned_def)
  next
    case False
    from step_goes_on [OF vscan_break.prems(1) False] vscan_break
    obtain l' where "dfa_step q l = Some (l', Break t)" "view_of l' = v'" "lex_ok l'"
      by (auto simp: goes_on_def)
    then show ?thesis
      by (subst scan_from.simps) (auto simp: scanned_def view_of_def)
  qed
next
  case (vscan_goto q v v1 q1 v' t)
  then have "q \<noteq> P2" by auto
  from step_goes_on [OF vscan_goto.prems(1) this] vscan_goto
  obtain l' where "dfa_step q l = Some (l', Goto q1)" "view_of l' = v1" "safe q1 l'"
    by (auto simp: goes_on_def)
  with vscan_goto.IH show ?case by (subst scan_from.simps) simp
next
  case (vscan_again q v v1 v' t)
  then have "q \<noteq> P2" by auto
  from step_goes_on [OF vscan_again.prems(1) this] vscan_again
  obtain l' where "dfa_step q l = Some (l', Again)" "view_of l' = v1" "lex_ok l'"
    by (auto simp: goes_on_def)
  with vscan_again.IH [of "head_state l'"] loop_head_ok show ?case
    by (subst scan_from.simps) simp
qed

definition v_start :: "bytes \<Rightarrow> vlex" where
  "v_start s = \<lparr>v_tok = [], v_rest = s, v_mark = 0, v_acc = 0\<rparr>"

lemma scan_ok:
  assumes "lex_ok l" "vscan P0 (v_start (text_of l)) v' t"
  obtains l' where "scan l = Some l'" "scanned l' t (v_tok v') (v_rest v')"
proof -
  have "view_of (head_state l) = v_start (text_of l)"
    using loop_head_ok(3) [OF assms(1)] by (simp add: v_head_def v_start_def view_of_def)
  with scan_from_ok [OF assms(2) loop_head_ok(2) [OF assms(1)]] loop_head_ok(1) [OF assms(1)] that show thesis
    by (auto simp: scan_def)
qed

text \<open>
  The lexer that the constructor leaves for a stream in a good state: its text is that of the
  stream up to the first null, with a newline added and the byte-order mark made blank.
\<close>

definition stream_start :: "bytes \<Rightarrow> bytes" where
  "stream_start s = skip_bom (takeWhile (\<lambda>c. c \<noteq> NUL) (s @ [LF]))"

lemma take_3_BOM: "take 3 b = BOM \<longleftrightarrow> (\<exists>r. b = BOM @ r)"
  by (metis append_take_drop_id append_eq_conv_conj length_Cons list.size(3) numeral_3_eq_3 BOM_def)

lemma skip_bom_BOM: "skip_bom (BOM @ r) = [CHR 0x20, CHR 0x20, CHR 0x20] @ r"
  by (simp add: skip_bom_def BOM_def numeral_2_eq_2 numeral_3_eq_3)

lemma skip_bom_other: "take 3 b \<noteq> BOM \<Longrightarrow> skip_bom b = b"
  by (simp add: skip_bom_def)

lemma take_line_BOM: "take 3 (takeWhile (\<lambda>c. c \<noteq> NUL) ((line @ [LF]) @ t)) = BOM \<Longrightarrow> take 3 (line @ [LF]) = BOM"
  by (cases line; cases "tl line"; cases "tl (tl line)")
    (auto simp: BOM_def numeral_3_eq_3 split: if_splits)

lemma lexer_of_stream_ok:
  assumes "\<not> s_eof s"
  obtains l where "lexer_of_stream False s = Some (Some l)" "lex_ok l" "text_of l = stream_start (s_rest s)"
proof -
  obtain line s' where line: "getline s = (line, s')" by fastforce
  note rest = getline_text [OF assms line]
  let ?b = "line @ [LF]" and ?rest = "stream_text (Some s')"
  define l where "l = \<lparr>m_stream = Some s', m_null = False, m_content = skip_bom ?b, m_start = 0, m_marker = Some 0,
    m_cursor = 0, m_limit = Suc (length line), last_token_type = end_of_input, yyaccept = 0\<rparr>"
  have "lexer_of_stream False s = Some (Some l)"
    using assms line by (simp add: lexer_of_stream_def fill_line_buffer_def fill_asserts_def l_def)
  moreover have "lex_ok l"
    by (simp add: lex_ok_def l_def token_text_def skip_bom_def)
  moreover have "text_of l = stream_start (s_rest s)"
  proof -
    have start: "stream_start (s_rest s) = skip_bom (takeWhile (\<lambda>c. c \<noteq> NUL) (?b @ ?rest))"
      using rest assms by (simp add: stream_start_def)
    show ?thesis
    proof (cases "take 3 ?b = BOM")
      case True
      then obtain r where r: "?b = BOM @ r" unfolding take_3_BOM by blast
      have "takeWhile (\<lambda>c. c \<noteq> NUL) ((BOM @ r) @ ?rest) = BOM @ takeWhile (\<lambda>c. c \<noteq> NUL) (r @ ?rest)"
        by (simp add: BOM_def)
      then show ?thesis
        unfolding start unfolding r by (simp add: text_of_def l_def r skip_bom_BOM del: stream_text.simps)
    next
      case False
      then have "take 3 (takeWhile (\<lambda>c. c \<noteq> NUL) (?b @ ?rest)) \<noteq> BOM"
        using take_line_BOM by blast
      with False show ?thesis
        unfolding start by (simp add: text_of_def l_def skip_bom_other del: stream_text.simps)
    qed
  qed
  ultimately show thesis by (rule that)
qed

end
