(* ===== verification/Json_Grammar.thy ===== *)
theory Json_Grammar
  imports Json_Lexer
begin

text \<open>
  The token grammar of RFC 7159 as functions on byte strings, and the proof that the automaton
  of theory Json\_Lexer computes it: \<open>token_at\<close> gives the class of the token at the front of a
  text and its length, and \<open>scan_token\<close> says that \<open>lexer::scan\<close> returns exactly that token
  behind the white space.
\<close>

section \<open>Reference grammar\<close>

definition within :: "nat \<Rightarrow> nat \<Rightarrow> char \<Rightarrow> bool" where
  "within lo hi c \<longleftrightarrow> lo \<le> of_char c \<and> of_char c \<le> hi"

definition one_of :: "bytes \<Rightarrow> char \<Rightarrow> bool" where
  "one_of cs c \<longleftrightarrow> c \<in> set cs"

definition white_space :: "char \<Rightarrow> bool" where
  "white_space = one_of [CHR 0x20, CHR 0x09, LF, CR]"

abbreviation decimal :: "char \<Rightarrow> bool" where
  "decimal \<equiv> within 48 57"

definition hexadecimal :: "char \<Rightarrow> bool" where
  "hexadecimal c \<longleftrightarrow> within 48 57 c \<or> within 65 70 c \<or> within 97 102 c"

text \<open>A string starts with characters of the given classes.\<close>

fun matches :: "(char \<Rightarrow> bool) list \<Rightarrow> bytes \<Rightarrow> bool" where
  "matches [] s = True"
| "matches (p # ps) [] = False"
| "matches (p # ps) (c # s) = (p c \<and> matches ps s)"

text \<open>
  The characters of a JSON string: plain ASCII, the escapes, and the well-formed UTF-8
  sequences of RFC 3629.
\<close>

abbreviation tail :: "char \<Rightarrow> bool" where
  "tail \<equiv> within 0x80 0xBF"

definition char_forms :: "(char \<Rightarrow> bool) list list" where
  "char_forms =
    [[within 0x20 0x21], [within 0x23 0x5B], [within 0x5D 0x7F],
     [one_of [CHR 0x5C], one_of [CHR 0x22, CHR 0x5C, CHR ''/'', CHR ''b'', CHR ''f'', CHR ''n'', CHR ''r'', CHR ''t'']],
     [one_of [CHR 0x5C], one_of [CHR ''u''], hexadecimal, hexadecimal, hexadecimal, hexadecimal],
     [within 0xC2 0xDF, tail],
     [within 0xE0 0xE0, within 0xA0 0xBF, tail],
     [within 0xE1 0xEC, tail, tail],
     [within 0xED 0xED, within 0x80 0x9F, tail],
     [within 0xEE 0xEF, tail, tail],
     [within 0xF0 0xF0, within 0x90 0xBF, tail, tail],
     [within 0xF1 0xF3, tail, tail, tail],
     [within 0xF4 0xF4, within 0x80 0x8F, tail, tail]]"

definition char_len :: "bytes \<Rightarrow> nat option" where
  "char_len s = map_option length (List.find (\<lambda>f. matches f s) char_forms)"

lemma char_len_pos: "char_len s = Some n \<Longrightarrow> 0 < n \<and> s \<noteq> []"
  by (cases s) (auto simp: char_len_def char_forms_def split: if_splits)

text \<open>The length of a string body up to and with its closing quote.\<close>

function str_len :: "bytes \<Rightarrow> nat option" where
  "str_len s =
     (if matches [one_of [CHR 0x22]] s then Some 1
      else case char_len s of None \<Rightarrow> None | Some n \<Rightarrow> map_option ((+) n) (str_len (drop n s)))"
  by pat_completeness auto
termination
  by (relation "measure length") (auto dest: char_len_pos)

declare str_len.simps [simp del]

definition int_len :: "bytes \<Rightarrow> nat option" where
  "int_len s =
     (if matches [one_of ''0''] s then Some 1
      else if matches [within 49 57] s then Some (length (takeWhile decimal s))
      else None)"

definition frac_len :: "bytes \<Rightarrow> nat" where
  "frac_len s = (if matches [one_of ''.'', decimal] s then 1 + length (takeWhile decimal (tl s)) else 0)"

definition exp_len :: "bytes \<Rightarrow> nat" where
  "exp_len s =
     (if matches [one_of ''eE'', decimal] s then 1 + length (takeWhile decimal (tl s))
      else if matches [one_of ''eE'', one_of ''+-'', decimal] s then 2 + length (takeWhile decimal (drop 2 s))
      else 0)"

definition num_len :: "bytes \<Rightarrow> nat option" where
  "num_len s =
     (let sign = (if matches [one_of ''-''] s then 1 else 0)
      in case int_len (drop sign s) of
           None \<Rightarrow> None
         | Some i \<Rightarrow>
             let f = frac_len (drop (sign + i) s)
             in Some (sign + i + f + exp_len (drop (sign + i + f) s)))"

definition keywords_of :: "(bytes \<times> token_type) list" where
  "keywords_of =
    [(''true'', literal_true), (''false'', literal_false), (''null'', literal_null),
     (''['', begin_array), (''{'', begin_object), ('']'', end_array), (''}'', end_object),
     ('':'', name_separator), ('','', value_separator)]"

definition prefix_of :: "bytes \<Rightarrow> bytes \<Rightarrow> bool" where
  "prefix_of w s \<longleftrightarrow> matches (map (\<lambda>c. one_of [c]) w) s"

text \<open>The token at the front of a text that does not start with white space.\<close>

definition token_at :: "bytes \<Rightarrow> token_type \<times> nat" where
  "token_at s =
     (if s = [] then (end_of_input, 0)
      else case List.find (\<lambda>(w, t). prefix_of w s) keywords_of of
        Some (w, t) \<Rightarrow> (t, length w)
      | None \<Rightarrow>
          if matches [one_of [CHR 0x22]] s
          then (case str_len (tl s) of Some n \<Rightarrow> (value_string, 1 + n) | None \<Rightarrow> (parse_error, 1))
          else (case num_len s of Some n \<Rightarrow> (value_number, n) | None \<Rightarrow> (parse_error, 1)))"

section \<open>Running the automaton\<close>

definition go :: "nat \<Rightarrow> vlex \<Rightarrow> vlex" where
  "go n v = v\<lparr>v_tok := v_tok v @ take n (v_rest v), v_rest := drop n (v_rest v)\<rparr>"

lemma go_simps [simp]:
  "v_tok (go n v) = v_tok v @ take n (v_rest v)" "v_rest (go n v) = drop n (v_rest v)"
  "v_mark (go n v) = v_mark v" "v_acc (go n v) = v_acc v" "go 0 v = v"
  by (simp_all add: go_def)

lemma go_go: "go m (go n v) = go (n + m) v"
  by (simp add: go_def take_add) (simp add: add.commute)

lemma v_advance_go: "v_rest v \<noteq> [] \<Longrightarrow> v_advance v = go 1 v"
  by (cases "v_rest v") (simp_all add: v_advance_def go_def v_char_def)

lemma back_go: "m \<le> length (v_tok v) \<Longrightarrow> v_back m (go n v) = v_back m v"
  by (simp add: v_back_def go_def)

lemma back_here: "v_back (length (v_tok v)) v = v"
  by (simp add: v_back_def)

lemma v_char_Nil [simp]: "v_rest v = [] \<Longrightarrow> v_char v = NUL"
  by (simp add: v_char_def)

lemma v_char_Cons [simp]: "v_rest v = c # s \<Longrightarrow> v_char v = c"
  by (simp add: v_char_def)

text \<open>A label that a text cannot continue goes back to the marker.\<close>

definition gives_up :: "label \<Rightarrow> vlex \<Rightarrow> bool" where
  "gives_up q v \<longleftrightarrow> vscan q v (v_back (v_mark v) v) (if v_acc v = 0 then parse_error else value_number)"

lemma vscan_P5: "vscan P5 v v parse_error"
  by (rule vscan_break) simp

lemma vscan_P14: "vscan P14 v v value_number"
  by (rule vscan_break) simp

lemma gives_up_P32: "gives_up P32 v"
  unfolding gives_up_def
  using vscan_goto [of P32 v "v_back (v_mark v) v" P5] vscan_goto [of P32 v "v_back (v_mark v) v" P14]
    vscan_P5 vscan_P14 by simp

lemma gives_up_step:
  assumes "vstep q v = (v', Goto P32)" "v' = v \<or> v_rest v \<noteq> [] \<and> v' = go 1 v" "v_mark v \<le> length (v_tok v)"
  shows "gives_up q v"
  using vscan_goto [OF assms(1) gives_up_P32 [of v', unfolded gives_up_def]] assms(2,3)
  by (auto simp: gives_up_def back_go)


declare vstep.simps [simp del]

text \<open>
  From a label to another along characters of given classes: the current character is kept,
  those behind it are tested.
\<close>

definition leads :: "label \<Rightarrow> (char \<Rightarrow> bool) list \<Rightarrow> label \<Rightarrow> bool" where
  "leads q ps q' \<longleftrightarrow> (\<forall>v. v_rest v \<noteq> [] \<longrightarrow> v_mark v \<le> length (v_tok v) \<longrightarrow>
     (if matches ps (tl (v_rest v))
      then \<forall>v' t. vscan q' (go (length ps) v) v' t \<longrightarrow> vscan q v v' t
      else gives_up q v))"

lemma leads_refl: "leads q [] q"
  by (simp add: leads_def)

lemma leads_step:
  assumes "\<And>v. vstep q v = v_next branch v" "\<And>c. branch c = (if p c then Goto q1 else Goto P32)"
    "\<not> p NUL" "leads q1 ps q'"
  shows "leads q (p # ps) q'"
  unfolding leads_def
proof (intro allI impI)
  fix v :: vlex
  assume v: "v_rest v \<noteq> []" "v_mark v \<le> length (v_tok v)"
  then have step: "vstep q v = (go 1 v, if p (v_char (go 1 v)) then Goto q1 else Goto P32)"
    by (simp add: assms(1,2) v_read_def v_advance_go)
  show "if matches (p # ps) (tl (v_rest v))
      then \<forall>v' t. vscan q' (go (length (p # ps)) v) v' t \<longrightarrow> vscan q v v' t else gives_up q v"
  proof (cases "p (v_char (go 1 v))")
    case False
    with step v have "gives_up q v" by (intro gives_up_step [of q v "go 1 v"]) simp_all
    moreover have "\<not> matches (p # ps) (tl (v_rest v))"
      using False by (cases "tl (v_rest v)") (simp_all add: drop_Suc)
    ultimately show ?thesis by simp
  next
    case True
    with assms(3) obtain c r where r: "v_rest (go 1 v) = c # r" "p c"
      by (cases "v_rest (go 1 v)") simp_all
    have "v_rest (go 1 v) \<noteq> []" "v_mark (go 1 v) \<le> length (v_tok (go 1 v))"
      "tl (v_rest (go 1 v)) = r"
      using r v by simp_all
    with assms(4) have *: "if matches ps r
        then \<forall>v' t. vscan q' (go (length ps) (go 1 v)) v' t \<longrightarrow> vscan q1 (go 1 v) v' t
        else gives_up q1 (go 1 v)"
      unfolding leads_def by metis
    have "tl (v_rest v) = c # r" using r by (simp add: drop_Suc)
    with * step True r(2) v(2) show ?thesis
      by (auto simp: go_go gives_up_def back_go intro: vscan_goto)
  qed
qed

lemma char_code_eq: "c = d \<longleftrightarrow> (of_char c :: nat) = of_char d"
  by simp

lemma branch_tails:
  "basic_json_parser_36 c = (if tail c then Goto P30 else Goto P32)"
  "basic_json_parser_37 c = (if within 0xA0 0xBF c then Goto P36 else Goto P32)"
  "basic_json_parser_38 c = (if tail c then Goto P36 else Goto P32)"
  "basic_json_parser_39 c = (if within 0x80 0x9F c then Goto P36 else Goto P32)"
  "basic_json_parser_40 c = (if within 0x90 0xBF c then Goto P38 else Goto P32)"
  "basic_json_parser_41 c = (if tail c then Goto P38 else Goto P32)"
  "basic_json_parser_42 c = (if within 0x80 0x8F c then Goto P38 else Goto P32)"
  by (auto simp: basic_json_parser_36_def basic_json_parser_37_def basic_json_parser_38_def
      basic_json_parser_39_def basic_json_parser_40_def basic_json_parser_41_def
      basic_json_parser_42_def char_le_code within_def)

lemma branch_hex:
  "basic_json_parser_48 c = (if hexadecimal c then Goto P57 else Goto P32)"
  "basic_json_parser_57 c = (if hexadecimal c then Goto P63 else Goto P32)"
  "basic_json_parser_63 c = (if hexadecimal c then Goto P66 else Goto P32)"
  "basic_json_parser_66 c = (if hexadecimal c then Goto P30 else Goto P32)"
  by (auto simp: basic_json_parser_48_def basic_json_parser_57_def basic_json_parser_63_def
      basic_json_parser_66_def char_le_code within_def hexadecimal_def)

lemma within_NUL [simp]: "0 < lo \<Longrightarrow> \<not> within lo hi NUL" "\<not> hexadecimal NUL"
  by (simp_all add: within_def hexadecimal_def)

lemma leads_utf8:
  "leads P36 [tail] P30"
  "leads P37 [within 0xA0 0xBF, tail] P30"
  "leads P38 [tail, tail] P30"
  "leads P39 [within 0x80 0x9F, tail] P30"
  "leads P40 [within 0x90 0xBF, tail, tail] P30"
  "leads P41 [tail, tail, tail] P30"
  "leads P42 [within 0x80 0x8F, tail, tail] P30"
proof -
  show 36: "leads P36 [tail] P30"
    by (rule leads_step [OF _ branch_tails(1) _ leads_refl]) (simp_all add: vstep.simps)
  show "leads P37 [within 0xA0 0xBF, tail] P30"
    by (rule leads_step [OF _ branch_tails(2) _ 36]) (simp_all add: vstep.simps)
  show 38: "leads P38 [tail, tail] P30"
    by (rule leads_step [OF _ branch_tails(3) _ 36]) (simp_all add: vstep.simps)
  show "leads P39 [within 0x80 0x9F, tail] P30"
    by (rule leads_step [OF _ branch_tails(4) _ 36]) (simp_all add: vstep.simps)
  show "leads P40 [within 0x90 0xBF, tail, tail] P30"
    by (rule leads_step [OF _ branch_tails(5) _ 38]) (simp_all add: vstep.simps)
  show "leads P41 [tail, tail, tail] P30"
    by (rule leads_step [OF _ branch_tails(6) _ 38]) (simp_all add: vstep.simps)
  show "leads P42 [within 0x80 0x8F, tail, tail] P30"
    by (rule leads_step [OF _ branch_tails(7) _ 38]) (simp_all add: vstep.simps)
qed

lemma leads_hex: "leads P48 [hexadecimal, hexadecimal, hexadecimal, hexadecimal] P30"
  by (rule leads_step [OF _ branch_hex(1)], simp_all add: vstep.simps, rule leads_step [OF _ branch_hex(2)], simp_all add: vstep.simps,
    rule leads_step [OF _ branch_hex(3)], simp_all add: vstep.simps, rule leads_step [OF _ branch_hex(4) _ leads_refl], simp_all add: vstep.simps)

section \<open>Strings\<close>

abbreviation simple_escape :: "char \<Rightarrow> bool" where
  "simple_escape \<equiv> one_of [CHR 0x22, CHR 0x5C, CHR ''/'', CHR ''b'', CHR ''f'', CHR ''n'', CHR ''r'', CHR ''t'']"

lemma branch_35:
  "basic_json_parser_35 c =
     (if simple_escape c then Goto P30 else if one_of [CHR ''u''] c then Goto P48 else Goto P32)"
  by (auto simp: basic_json_parser_35_def one_of_def char_le_code char_code_eq simp del: of_char_eq_iff)

lemma branch_31:
  "basic_json_parser_31 c =
     (if within 0x20 0x21 c \<or> within 0x23 0x5B c \<or> within 0x5D 0x7F c then Goto P30
      else if one_of [CHR 0x22] c then Goto P33
      else if one_of [CHR 0x5C] c then Goto P35
      else if within 0xC2 0xDF c then Goto P36
      else if within 0xE0 0xE0 c then Goto P37
      else if within 0xE1 0xEC c \<or> within 0xEE 0xEF c then Goto P38
      else if within 0xED 0xED c then Goto P39
      else if within 0xF0 0xF0 c then Goto P40
      else if within 0xF1 0xF3 c then Goto P41
      else if within 0xF4 0xF4 c then Goto P42
      else Goto P32)"
  by (auto simp: basic_json_parser_31_def one_of_def within_def yybm_bits char_le_code char_code_eq
      simp del: of_char_eq_iff)

lemma matches_length: "matches ps s \<Longrightarrow> length ps \<le> length s"
  by (induction ps s rule: matches.induct) simp_all

abbreviation plain :: "char \<Rightarrow> bool" where
  "plain c \<equiv> within 0x20 0x21 c \<or> within 0x23 0x5B c \<or> within 0x5D 0x7F c"

lemma one_of_codes:
  "one_of [CHR 0x5C] c \<longleftrightarrow> (of_char c :: nat) = 92"
  "one_of [CHR 0x22] c \<longleftrightarrow> (of_char c :: nat) = 34"
  by (auto simp: one_of_def char_code_eq simp del: of_char_eq_iff)

text \<open>The first characters of the forms exclude each other.\<close>

lemma first_classes:
  "within 0x20 0x21 c \<Longrightarrow> c \<noteq> CHR 0x5C \<and> c \<noteq> CHR 0x22 \<and>
     \<not> within 0x23 0x5B c \<and> \<not> within 0x5D 0x7F c \<and> \<not> within 0xC2 0xDF c \<and> \<not> within 0xE0 0xE0 c \<and> \<not> within 0xE1 0xEC c \<and> \<not> within 0xED 0xED c \<and> \<not> within 0xEE 0xEF c \<and> \<not> within 0xF0 0xF0 c \<and> \<not> within 0xF1 0xF3 c \<and> \<not> within 0xF4 0xF4 c"
  "within 0x23 0x5B c \<Longrightarrow> c \<noteq> CHR 0x5C \<and> c \<noteq> CHR 0x22 \<and>
     \<not> within 0x20 0x21 c \<and> \<not> within 0x5D 0x7F c \<and> \<not> within 0xC2 0xDF c \<and> \<not> within 0xE0 0xE0 c \<and> \<not> within 0xE1 0xEC c \<and> \<not> within 0xED 0xED c \<and> \<not> within 0xEE 0xEF c \<and> \<not> within 0xF0 0xF0 c \<and> \<not> within 0xF1 0xF3 c \<and> \<not> within 0xF4 0xF4 c"
  "within 0x5D 0x7F c \<Longrightarrow> c \<noteq> CHR 0x5C \<and> c \<noteq> CHR 0x22 \<and>
     \<not> within 0x20 0x21 c \<and> \<not> within 0x23 0x5B c \<and> \<not> within 0xC2 0xDF c \<and> \<not> within 0xE0 0xE0 c \<and> \<not> within 0xE1 0xEC c \<and> \<not> within 0xED 0xED c \<and> \<not> within 0xEE 0xEF c \<and> \<not> within 0xF0 0xF0 c \<and> \<not> within 0xF1 0xF3 c \<and> \<not> within 0xF4 0xF4 c"
  "within 0xC2 0xDF c \<Longrightarrow> c \<noteq> CHR 0x5C \<and> c \<noteq> CHR 0x22 \<and>
     \<not> within 0x20 0x21 c \<and> \<not> within 0x23 0x5B c \<and> \<not> within 0x5D 0x7F c \<and> \<not> within 0xE0 0xE0 c \<and> \<not> within 0xE1 0xEC c \<and> \<not> within 0xED 0xED c \<and> \<not> within 0xEE 0xEF c \<and> \<not> within 0xF0 0xF0 c \<and> \<not> within 0xF1 0xF3 c \<and> \<not> within 0xF4 0xF4 c"
  "within 0xE0 0xE0 c \<Longrightarrow> c \<noteq> CHR 0x5C \<and> c \<noteq> CHR 0x22 \<and>
     \<not> within 0x20 0x21 c \<and> \<not> within 0x23 0x5B c \<and> \<not> within 0x5D 0x7F c \<and> \<not> within 0xC2 0xDF c \<and> \<not> within 0xE1 0xEC c \<and> \<not> within 0xED 0xED c \<and> \<not> within 0xEE 0xEF c \<and> \<not> within 0xF0 0xF0 c \<and> \<not> within 0xF1 0xF3 c \<and> \<not> within 0xF4 0xF4 c"
  "within 0xE1 0xEC c \<Longrightarrow> c \<noteq> CHR 0x5C \<and> c \<noteq> CHR 0x22 \<and>
     \<not> within 0x20 0x21 c \<and> \<not> within 0x23 0x5B c \<and> \<not> within 0x5D 0x7F c \<and> \<not> within 0xC2 0xDF c \<and> \<not> within 0xE0 0xE0 c \<and> \<not> within 0xED 0xED c \<and> \<not> within 0xEE 0xEF c \<and> \<not> within 0xF0 0xF0 c \<and> \<not> within 0xF1 0xF3 c \<and> \<not> within 0xF4 0xF4 c"
  "within 0xED 0xED c \<Longrightarrow> c \<noteq> CHR 0x5C \<and> c \<noteq> CHR 0x22 \<and>
     \<not> within 0x20 0x21 c \<and> \<not> within 0x23 0x5B c \<and> \<not> within 0x5D 0x7F c \<and> \<not> within 0xC2 0xDF c \<and> \<not> within 0xE0 0xE0 c \<and> \<not> within 0xE1 0xEC c \<and> \<not> within 0xEE 0xEF c \<and> \<not> within 0xF0 0xF0 c \<and> \<not> within 0xF1 0xF3 c \<and> \<not> within 0xF4 0xF4 c"
  "within 0xEE 0xEF c \<Longrightarrow> c \<noteq> CHR 0x5C \<and> c \<noteq> CHR 0x22 \<and>
     \<not> within 0x20 0x21 c \<and> \<not> within 0x23 0x5B c \<and> \<not> within 0x5D 0x7F c \<and> \<not> within 0xC2 0xDF c \<and> \<not> within 0xE0 0xE0 c \<and> \<not> within 0xE1 0xEC c \<and> \<not> within 0xED 0xED c \<and> \<not> within 0xF0 0xF0 c \<and> \<not> within 0xF1 0xF3 c \<and> \<not> within 0xF4 0xF4 c"
  "within 0xF0 0xF0 c \<Longrightarrow> c \<noteq> CHR 0x5C \<and> c \<noteq> CHR 0x22 \<and>
     \<not> within 0x20 0x21 c \<and> \<not> within 0x23 0x5B c \<and> \<not> within 0x5D 0x7F c \<and> \<not> within 0xC2 0xDF c \<and> \<not> within 0xE0 0xE0 c \<and> \<not> within 0xE1 0xEC c \<and> \<not> within 0xED 0xED c \<and> \<not> within 0xEE 0xEF c \<and> \<not> within 0xF1 0xF3 c \<and> \<not> within 0xF4 0xF4 c"
  "within 0xF1 0xF3 c \<Longrightarrow> c \<noteq> CHR 0x5C \<and> c \<noteq> CHR 0x22 \<and>
     \<not> within 0x20 0x21 c \<and> \<not> within 0x23 0x5B c \<and> \<not> within 0x5D 0x7F c \<and> \<not> within 0xC2 0xDF c \<and> \<not> within 0xE0 0xE0 c \<and> \<not> within 0xE1 0xEC c \<and> \<not> within 0xED 0xED c \<and> \<not> within 0xEE 0xEF c \<and> \<not> within 0xF0 0xF0 c \<and> \<not> within 0xF4 0xF4 c"
  "within 0xF4 0xF4 c \<Longrightarrow> c \<noteq> CHR 0x5C \<and> c \<noteq> CHR 0x22 \<and>
     \<not> within 0x20 0x21 c \<and> \<not> within 0x23 0x5B c \<and> \<not> within 0x5D 0x7F c \<and> \<not> within 0xC2 0xDF c \<and> \<not> within 0xE0 0xE0 c \<and> \<not> within 0xE1 0xEC c \<and> \<not> within 0xED 0xED c \<and> \<not> within 0xEE 0xEF c \<and> \<not> within 0xF0 0xF0 c \<and> \<not> within 0xF1 0xF3 c"
  unfolding within_def by (intro conjI notI; simp)+

lemma char_len_classes:
  "within 0x20 0x21 c \<Longrightarrow> char_len (c # r) = Some 1"
  "within 0x23 0x5B c \<Longrightarrow> char_len (c # r) = Some 1"
  "within 0x5D 0x7F c \<Longrightarrow> char_len (c # r) = Some 1"
  "within 0xC2 0xDF c \<Longrightarrow> char_len (c # r) = (if matches [tail] r then Some 2 else None)"
  "within 0xE0 0xE0 c \<Longrightarrow> char_len (c # r) = (if matches [within 0xA0 0xBF, tail] r then Some 3 else None)"
  "within 0xE1 0xEC c \<Longrightarrow> char_len (c # r) = (if matches [tail, tail] r then Some 3 else None)"
  "within 0xED 0xED c \<Longrightarrow> char_len (c # r) = (if matches [within 0x80 0x9F, tail] r then Some 3 else None)"
  "within 0xEE 0xEF c \<Longrightarrow> char_len (c # r) = (if matches [tail, tail] r then Some 3 else None)"
  "within 0xF0 0xF0 c \<Longrightarrow> char_len (c # r) = (if matches [within 0x90 0xBF, tail, tail] r then Some 4 else None)"
  "within 0xF1 0xF3 c \<Longrightarrow> char_len (c # r) = (if matches [tail, tail, tail] r then Some 4 else None)"
  "within 0xF4 0xF4 c \<Longrightarrow> char_len (c # r) = (if matches [within 0x80 0x8F, tail, tail] r then Some 4 else None)"
  subgoal using first_classes(1) [of c] by (simp add: char_len_def char_forms_def one_of_def)
  subgoal using first_classes(2) [of c] by (simp add: char_len_def char_forms_def one_of_def)
  subgoal using first_classes(3) [of c] by (simp add: char_len_def char_forms_def one_of_def)
  subgoal using first_classes(4) [of c] by (simp add: char_len_def char_forms_def one_of_def)
  subgoal using first_classes(5) [of c] by (simp add: char_len_def char_forms_def one_of_def)
  subgoal using first_classes(6) [of c] by (simp add: char_len_def char_forms_def one_of_def)
  subgoal using first_classes(7) [of c] by (simp add: char_len_def char_forms_def one_of_def)
  subgoal using first_classes(8) [of c] by (simp add: char_len_def char_forms_def one_of_def)
  subgoal using first_classes(9) [of c] by (simp add: char_len_def char_forms_def one_of_def)
  subgoal using first_classes(10) [of c] by (simp add: char_len_def char_forms_def one_of_def)
  subgoal using first_classes(11) [of c] by (simp add: char_len_def char_forms_def one_of_def)
  done

lemma char_len_escape:
  "char_len (CHR 0x5C # r) =
     (if matches [simple_escape] r then Some 2
      else if matches [one_of ''u'', hexadecimal, hexadecimal, hexadecimal, hexadecimal] r then Some 6
      else None)"
  by (auto simp: char_len_def char_forms_def one_of_def within_def)

lemma char_len_other:
  "\<not> plain c \<Longrightarrow> c \<noteq> CHR 0x5C \<Longrightarrow> \<not> within 0xC2 0xDF c \<Longrightarrow> \<not> within 0xE0 0xE0 c \<Longrightarrow>
   \<not> (within 0xE1 0xEC c \<or> within 0xEE 0xEF c) \<Longrightarrow> \<not> within 0xED 0xED c \<Longrightarrow> \<not> within 0xF0 0xF0 c \<Longrightarrow>
   \<not> within 0xF1 0xF3 c \<Longrightarrow> \<not> within 0xF4 0xF4 c \<Longrightarrow> char_len (c # r) = None"
  by (simp add: char_len_def char_forms_def one_of_def)

text \<open>One character of a string: label 31 with the character in front of the cursor.\<close>

definition string_step :: "vlex \<Rightarrow> nat option \<Rightarrow> bool" where
  "string_step v k \<longleftrightarrow> (case k of
       None \<Rightarrow> gives_up P31 v
     | Some n \<Rightarrow> \<forall>v' t. vscan P31 (go n v) v' t \<longrightarrow> vscan P31 v v' t)"

lemma vscan_same_step:
  assumes "vscan q w v' t" "vstep q' v = vstep q w"
  shows "vscan q' v v' t"
  using assms(1)
proof cases
  case vscan_break
  with assms(2) show ?thesis by (intro vscan.vscan_break) simp
next
  case (vscan_goto v1 q1)
  with assms(2) show ?thesis by (intro vscan.vscan_goto [of q' v v1 q1]) simp_all
next
  case (vscan_again v1)
  with assms(2) show ?thesis by (intro vscan.vscan_again [of q' v v1]) simp_all
qed

lemma vscan_P30: "v_rest v \<noteq> [] \<Longrightarrow> vscan P31 (go 1 v) v' t \<Longrightarrow> vscan P30 v v' t"
  by (erule vscan_same_step) (simp add: v_advance_go vstep.simps)

lemma vstep_P31: "v_rest v = c # r \<Longrightarrow> vstep P31 v = (v, basic_json_parser_31 c)"
  by (simp add: v_read_def vstep.simps)

lemma string_step_leads:
  assumes "v_rest v = c # r" "basic_json_parser_31 c = Goto q" "leads q ps P30"
    "v_mark v \<le> length (v_tok v)" "n = Suc (length ps)"
  shows "string_step v (if matches ps r then Some n else None)"
proof (cases "matches ps r")
  case True
  have ne: "v_rest (go (length ps) v) \<noteq> []"
    using matches_length [OF True] assms(1) by simp
  have "vscan P31 v v' t" if "vscan P31 (go (Suc (length ps)) v) v' t" for v' t
  proof -
    have "vscan P30 (go (length ps) v) v' t" using that ne by (intro vscan_P30) (simp_all add: go_go)
    then have "vscan q v v' t" using assms True by (simp add: leads_def)
    with vstep_P31 [OF assms(1)] assms(2) show ?thesis by (auto intro: vscan_goto)
  qed
  with True assms(5) show ?thesis by (simp add: string_step_def)
next
  case False
  then have "gives_up q v" using assms by (simp add: leads_def)
  then have "gives_up P31 v"
    unfolding gives_up_def using vstep_P31 [OF assms(1)] assms(2) by (auto intro: vscan_goto)
  with False show ?thesis by (simp add: string_step_def)
qed

lemma string_step_escape:
  assumes "v_rest v = CHR 0x5C # r" "v_mark v \<le> length (v_tok v)"
  shows "string_step v (char_len (CHR 0x5C # r))"
proof -
  have p35: "vscan P31 v v' t" if "vscan P35 v v' t" for v' t
    using vstep_P31 [OF assms(1)] that
    by (auto simp: branch_31 within_def one_of_def intro: vscan_goto)
  have step: "vstep P35 v = (go 1 v, if matches [simple_escape] r then Goto P30
      else if matches [one_of ''u''] r then Goto P48 else Goto P32)"
    using assms(1) by (cases r) (simp_all add: v_read_def v_advance_go branch_35 one_of_def vstep.simps)
  consider (simple) "matches [simple_escape] r"
    | (hex) r' where "r = CHR ''u'' # r'" "\<not> matches [simple_escape] r"
    | (other) "\<not> matches [simple_escape] r" "\<not> matches [one_of ''u''] r"
    by (cases r) (auto simp: one_of_def)
  then show ?thesis
  proof cases
    case simple
    have "vscan P31 v v' t" if "vscan P31 (go 2 v) v' t" for v' t
    proof -
      have "vscan P30 (go 1 v) v' t"
        using that simple assms(1) by (intro vscan_P30) (auto simp: go_go numeral_2_eq_2)
      with step simple show ?thesis by (auto intro: p35 vscan_goto)
    qed
    with simple show ?thesis by (simp add: char_len_escape string_step_def)
  next
    case hex
    let ?hex4 = "[hexadecimal, hexadecimal, hexadecimal, hexadecimal]"
    have p48: "vscan P31 v v' t" if "vscan P48 (go 1 v) v' t" for v' t
      using step hex that by (auto intro: p35 vscan_goto simp: one_of_def)
    have "v_rest (go 1 v) \<noteq> []" "v_mark (go 1 v) \<le> length (v_tok (go 1 v))" "tl (v_rest (go 1 v)) = r'"
      using assms hex by simp_all
    with leads_hex have *: "if matches ?hex4 r'
        then \<forall>v' t. vscan P30 (go 4 (go 1 v)) v' t \<longrightarrow> vscan P48 (go 1 v) v' t else gives_up P48 (go 1 v)"
      unfolding leads_def by (metis (no_types, lifting) One_nat_def Suc_1 list.size(3,4) numeral_3_eq_3 numeral_eq_Suc
          pred_numeral_simps(2) semiring_norm(26,27) plus_1_eq_Suc add.commute)
    show ?thesis
    proof (cases "matches ?hex4 r'")
      case True
      have "vscan P31 v v' t" if "vscan P31 (go 6 v) v' t" for v' t
      proof -
        have "vscan P30 (go 4 (go 1 v)) v' t"
          using that matches_length [OF True] assms(1) hex by (intro vscan_P30) (simp_all add: go_go)
        with * True show ?thesis by (auto intro: p48)
      qed
      with hex True show ?thesis by (simp add: char_len_escape string_step_def one_of_def)
    next
      case False
      with * have "gives_up P31 v"
        using assms(2) by (auto simp: gives_up_def back_go intro: p48)
      with hex False show ?thesis by (simp add: char_len_escape string_step_def one_of_def)
    qed
  next
    case other
    with step assms have "gives_up P35 v" by (intro gives_up_step [of P35 v "go 1 v"]) auto
    then have "gives_up P31 v" by (auto simp: gives_up_def intro: p35)
    moreover have "char_len (CHR 0x5C # r) = None"
      using other by (cases r) (auto simp: char_len_escape)
    ultimately show ?thesis by (simp add: string_step_def)
  qed
qed

lemma string_step_char_len:
  assumes "v_rest v = c # r" "c \<noteq> CHR 0x22" "v_mark v \<le> length (v_tok v)"
  shows "string_step v (char_len (c # r))"
proof -
  note via = string_step_leads [OF assms(1) _ _ assms(3)]
  consider "c = CHR 0x5C" | "plain c" | "within 0xC2 0xDF c" | "within 0xE0 0xE0 c" | "within 0xE1 0xEC c"
    | "within 0xED 0xED c" | "within 0xEE 0xEF c" | "within 0xF0 0xF0 c" | "within 0xF1 0xF3 c"
    | "within 0xF4 0xF4 c"
    | (other) "c \<noteq> CHR 0x5C" "\<not> plain c" "\<not> within 0xC2 0xDF c" "\<not> within 0xE0 0xE0 c" "\<not> within 0xE1 0xEC c"
      "\<not> within 0xED 0xED c" "\<not> within 0xEE 0xEF c" "\<not> within 0xF0 0xF0 c" "\<not> within 0xF1 0xF3 c"
      "\<not> within 0xF4 0xF4 c"
    by blast
  then show ?thesis
  proof cases
    case 1
    with string_step_escape [of v r] assms show ?thesis by simp
  next
    case 2
    then show ?thesis using via [of P30 "[]" 1] char_len_classes(1,2,3) [of c]
      by (auto simp: branch_31 leads_refl)
  next
    case 3
    then show ?thesis using via [OF _ leads_utf8(1), of 2] char_len_classes(4) [of c] first_classes(4) [of c]
      by (simp add: branch_31 one_of_def)
  next
    case 4
    then show ?thesis using via [OF _ leads_utf8(2), of 3] char_len_classes(5) [of c] first_classes(5) [of c]
      by (simp add: branch_31 one_of_def)
  next
    case 5
    then show ?thesis using via [OF _ leads_utf8(3), of 3] char_len_classes(6) [of c] first_classes(6) [of c]
      by (simp add: branch_31 one_of_def)
  next
    case 6
    then show ?thesis using via [OF _ leads_utf8(4), of 3] char_len_classes(7) [of c] first_classes(7) [of c]
      by (simp add: branch_31 one_of_def)
  next
    case 7
    then show ?thesis using via [OF _ leads_utf8(3), of 3] char_len_classes(8) [of c] first_classes(8) [of c]
      by (simp add: branch_31 one_of_def)
  next
    case 8
    then show ?thesis using via [OF _ leads_utf8(5), of 4] char_len_classes(9) [of c] first_classes(9) [of c]
      by (simp add: branch_31 one_of_def)
  next
    case 9
    then show ?thesis using via [OF _ leads_utf8(6), of 4] char_len_classes(10) [of c] first_classes(10) [of c]
      by (simp add: branch_31 one_of_def)
  next
    case 10
    then show ?thesis using via [OF _ leads_utf8(7), of 4] char_len_classes(11) [of c] first_classes(11) [of c]
      by (simp add: branch_31 one_of_def)
  next
    case other
    then have "vstep P31 v = (v, Goto P32)" "char_len (c # r) = None"
      using assms(1,2) by (simp_all add: vstep_P31 branch_31 one_of_def char_len_def char_forms_def)
    then show ?thesis
      using assms(3) by (auto simp: string_step_def intro: gives_up_step)
  qed
qed

text \<open>The string scanned from label 31, and from the opening quote.\<close>

lemma string_scan:
  assumes "v_mark v \<le> length (v_tok v)"
  shows "case str_len (v_rest v) of
      Some n \<Rightarrow> vscan P31 v (go n v) value_string
    | None \<Rightarrow> gives_up P31 v"
  using assms
proof (induction "v_rest v" arbitrary: v rule: str_len.induct)
  case (1 v)
  consider (Nil) "v_rest v = []" | (quote) r where "v_rest v = CHR 0x22 # r"
    | (char) c r where "v_rest v = c # r" "c \<noteq> CHR 0x22"
    by (metis list.exhaust)
  then show ?case
  proof cases
    case Nil
    then have "str_len (v_rest v) = None" "vstep P31 v = (v, Goto P32)"
      by (simp_all add: str_len.simps char_len_def char_forms_def v_read_def branch_31 within_def one_of_def vstep.simps)
    with 1(2) show ?thesis by (auto intro: gives_up_step)
  next
    case quote
    have "vscan P33 v (go 1 v) value_string"
      using quote by (intro vscan_break) (simp add: v_advance_go vstep.simps)
    then have "vscan P31 v (go 1 v) value_string"
      using vstep_P31 [OF quote] by (auto simp: branch_31 within_def one_of_def intro: vscan_goto)
    moreover have "str_len (v_rest v) = Some 1"
      unfolding quote by (subst str_len.simps) (simp add: one_of_def)
    ultimately show ?thesis by simp
  next
    case char
    have len: "str_len (v_rest v) = (case char_len (v_rest v) of None \<Rightarrow> None
        | Some n \<Rightarrow> map_option ((+) n) (str_len (drop n (v_rest v))))"
      using char by (subst str_len.simps) (simp add: one_of_def)
    have step: "string_step v (char_len (v_rest v))"
      using string_step_char_len [OF char 1(2)] char by simp
    show ?thesis
    proof (cases "char_len (v_rest v)")
      case None
      with len step show ?thesis by (simp add: string_step_def)
    next
      case (Some n)
      have "\<not> matches [one_of [CHR 0x22]] (v_rest v)" using char by (simp add: one_of_def)
      from 1(1) [OF this Some, of "go n v"] 1(2)
      have "case str_len (drop n (v_rest v)) of
          Some m \<Rightarrow> vscan P31 (go n v) (go m (go n v)) value_string | None \<Rightarrow> gives_up P31 (go n v)"
        by simp
      with len step Some 1(2) show ?thesis
        by (auto simp: string_step_def go_go gives_up_def back_go split: option.splits)
    qed
  qed
qed

section \<open>Numbers\<close>

text \<open>From a label the scanner ends with a token of the given class, \<open>n\<close> characters on.\<close>

definition lands :: "label \<Rightarrow> vlex \<Rightarrow> nat \<Rightarrow> token_type \<Rightarrow> bool" where
  "lands q v n t \<longleftrightarrow> (\<exists>v'. vscan q v v' t \<and> v_tok v' = v_tok v @ take n (v_rest v) \<and> v_rest v' = drop n (v_rest v))"

lemma lands_step:
  assumes "vstep q v = (v1, Goto q1)" "v_tok v1 = v_tok v @ take k (v_rest v)"
    "v_rest v1 = drop k (v_rest v)" "lands q1 v1 m t"
  shows "lands q v (k + m) t"
proof -
  obtain v' where "vscan q1 v1 v' t" "v_tok v' = v_tok v1 @ take m (v_rest v1)" "v_rest v' = drop m (v_rest v1)"
    using assms(4) by (auto simp: lands_def)
  with vscan_goto [OF assms(1)] assms(2,3) show ?thesis
    by (auto simp: lands_def take_add add.commute)
qed

lemma lands_break: "vstep q v = (v1, Break t) \<Longrightarrow> v_tok v1 = v_tok v @ take k (v_rest v) \<Longrightarrow>
    v_rest v1 = drop k (v_rest v) \<Longrightarrow> lands q v k t"
  by (auto simp: lands_def intro: vscan_break)

lemma lands_gives_up: "gives_up q v \<Longrightarrow> v_mark v = length (v_tok v) \<Longrightarrow> v_acc v \<noteq> 0 \<Longrightarrow> lands q v 0 value_number"
  by (auto simp: lands_def gives_up_def back_here)

lemma lands_P14: "lands P14 v 0 value_number"
  by (rule lands_break [of _ _ v]) (simp_all add: vstep.simps)

lemma lands_P5: "lands P5 v 0 parse_error"
  by (rule lands_break [of _ _ v]) (simp_all add: vstep.simps)

lemma number_branches:
  "basic_json_parser_12 c = (if one_of ''0'' c then Goto P13 else if within 49 57 c then Goto P15 else Goto P5)"
  "basic_json_parser_13 c = (if one_of ''.'' c then Goto P43 else if one_of ''eE'' c then Goto P44 else Goto P14)"
  "basic_json_parser_15 c = (if decimal c then Goto P15 else if one_of ''.'' c then Goto P43 else if one_of ''eE'' c then Goto P44 else Goto P14)"
  "basic_json_parser_43 c = (if decimal c then Goto P49 else Goto P32)"
  "basic_json_parser_44 c = (if one_of ''+-'' c then Goto P51 else if decimal c then Goto P52 else Goto P32)"
  "basic_json_parser_49 c = (if decimal c then Goto P49 else if one_of ''eE'' c then Goto P44 else Goto P14)"
  "basic_json_parser_51 c = (if decimal c then Goto P52 else Goto P32)"
  "basic_json_parser_52 c = (if decimal c then Goto P52 else Goto P14)"
  by (auto simp: basic_json_parser_12_def basic_json_parser_13_def basic_json_parser_15_def
      basic_json_parser_43_def basic_json_parser_44_def basic_json_parser_49_def
      basic_json_parser_51_def basic_json_parser_52_def one_of_def within_def yybm_bits char_le_code
      char_code_eq simp del: of_char_eq_iff)

lemma number_NUL [simp]: "\<not> one_of ''eE'' NUL" "\<not> one_of ''+-'' NUL" "\<not> one_of ''.'' NUL"
  by (simp_all add: one_of_def)

lemma classes_exclude:
  "decimal c \<Longrightarrow> \<not> one_of ''eE'' c \<and> \<not> one_of ''+-'' c \<and> \<not> one_of ''.'' c"
  "one_of ''eE'' c \<Longrightarrow> \<not> one_of ''+-'' c \<and> \<not> one_of ''.'' c"
  by (auto simp: one_of_def within_def)

abbreviation digits :: "bytes \<Rightarrow> nat" where
  "digits s \<equiv> length (takeWhile decimal s)"

lemma lands_P52:
  "v_rest v = d # s \<Longrightarrow> lands P52 v (1 + digits s) value_number"
proof (induction s arbitrary: v d)
  case Nil
  then have "vstep P52 v = (go 1 v, Goto P14)"
    by (simp add: vstep.simps v_read_def v_advance_go number_branches)
  from lands_step [OF this, of 1 0] lands_P14 show ?case by simp
next
  case (Cons c s)
  then have step: "vstep P52 v = (go 1 v, if decimal c then Goto P52 else Goto P14)"
    by (simp add: vstep.simps v_read_def v_advance_go number_branches)
  show ?case
  proof (cases "decimal c")
    case True
    with step lands_step [of P52 v "go 1 v" P52 1 "1 + digits s"] Cons.IH [of "go 1 v" c] Cons.prems
    show ?thesis by simp
  next
    case False
    with step lands_step [of P52 v "go 1 v" P14 1 0] lands_P14 show ?thesis by simp
  qed
qed

lemma exponent_scan:
  assumes "v_rest v = c # s" "one_of ''eE'' c" "v_mark v = length (v_tok v)" "v_acc v \<noteq> 0"
  shows "lands P44 v (exp_len (c # s)) value_number"
proof -
  have step: "vstep P44 v = (go 1 v, basic_json_parser_44 (v_char (go 1 v)))"
    using assms(1) by (simp add: vstep.simps v_read_def v_advance_go)
  consider (digit) d r where "s = d # r" "decimal d"
    | (sign) d r where "s = d # r" "one_of ''+-'' d" "\<not> decimal d"
    | (none) "\<not> one_of ''+-'' (v_char (go 1 v))" "\<not> decimal (v_char (go 1 v))"
    using assms(1) classes_exclude(1) by (cases s) auto
  then show ?thesis
  proof cases
    case digit
    with assms lands_P52 [of "go 1 v" d r] classes_exclude(1) [of d] step
      lands_step [of P44 v "go 1 v" P52 1 "1 + digits r"]
    show ?thesis by (simp add: exp_len_def number_branches)
  next
    case sign
    have s44: "vstep P44 v = (go 1 v, Goto P51)"
      using step sign assms(1) by (simp add: number_branches)
    have s51: "vstep P51 (go 1 v) = (go 2 v, basic_json_parser_51 (v_char (go 2 v)))"
      using sign assms(1) by (simp add: vstep.simps v_read_def v_advance_go go_go numeral_2_eq_2)
    show ?thesis
    proof (cases "matches [decimal] r")
      case True
      then obtain d' r' where r: "r = d' # r'" "decimal d'" by (cases r) auto
      have "lands P51 (go 1 v) (1 + (1 + digits r')) value_number"
        using s51 r sign(1) assms(1) lands_P52 [of "go 2 v" d' r']
        by (intro lands_step [of P51 "go 1 v" "go 2 v" P52]) (simp_all add: number_branches numeral_2_eq_2)
      from lands_step [OF s44 _ _ this, of 1] show ?thesis
        using assms(2) sign r by (simp add: exp_len_def)
    next
      case False
      have "\<not> decimal (v_char (go 2 v))"
        using False sign(1) assms(1) by (cases r) simp_all
      then have "gives_up P51 (go 1 v)"
        using s51 sign(1) assms(1,3) by (intro gives_up_step [of P51 "go 1 v" "go 2 v"])
          (simp_all add: number_branches go_go numeral_2_eq_2)
      then have "gives_up P44 v"
        using s44 assms(3) by (auto simp: gives_up_def back_go intro: vscan_goto)
      moreover have "exp_len (c # s) = 0"
        using False sign by (cases r) (simp_all add: exp_len_def)
      ultimately show ?thesis using assms(3,4) lands_gives_up by simp
    qed
  next
    case none
    then have "gives_up P44 v"
      using step assms(1,3) by (intro gives_up_step [of P44 v "go 1 v"]) (simp_all add: number_branches)
    moreover have "exp_len (c # s) = 0"
      using none assms(1) by (cases s) (simp_all add: exp_len_def)
    ultimately show ?thesis using assms(3,4) lands_gives_up by simp
  qed
qed

text \<open>The optional exponent, from the label a digit loop leaves to.\<close>

lemma exponent_part:
  assumes "v_mark v = length (v_tok v)" "v_acc v \<noteq> 0"
  shows "lands (if one_of ''eE'' (v_char v) then P44 else P14) v (exp_len (v_rest v)) value_number"
proof (cases "v_rest v")
  case (Cons c s)
  with exponent_scan [OF Cons _ assms] lands_P14 show ?thesis by (auto simp: exp_len_def)
qed (use lands_P14 in \<open>simp add: exp_len_def\<close>)

definition marked_next :: "vlex \<Rightarrow> vlex" where
  "marked_next v = v_set_marker (v_advance (v\<lparr>v_acc := 1\<rparr>))"

lemma vstep_marked:
  "vstep P13 v = v_read basic_json_parser_13 (marked_next v)"
  "vstep P15 v = v_read basic_json_parser_15 (marked_next v)"
  "vstep P49 v = v_read basic_json_parser_49 (marked_next v)"
  by (simp_all add: vstep.simps marked_next_def)

lemma marked_next_simps:
  "v_rest v = c # s \<Longrightarrow> v_tok (marked_next v) = v_tok v @ [c]"
  "v_rest v = c # s \<Longrightarrow> v_rest (marked_next v) = s"
  "v_rest v = c # s \<Longrightarrow> v_mark (marked_next v) = length (v_tok (marked_next v))"
  by (simp_all add: marked_next_def v_set_marker_def v_advance_def)

lemma marked_next_acc [simp]: "v_acc (marked_next v) = 1"
  by (simp add: marked_next_def v_set_marker_def v_advance_def)

lemma fraction_digits:
  "v_rest v = d # s \<Longrightarrow> lands P49 v (1 + (digits s + exp_len (drop (digits s) s))) value_number"
proof (induction s arbitrary: v d)
  case Nil
  have "vstep P49 v = (marked_next v, Goto P14)"
    using Nil by (simp add: vstep_marked v_read_def number_branches marked_next_simps)
  from lands_step [OF this, of 1 0] lands_P14 Nil show ?case
    by (simp add: marked_next_simps exp_len_def)
next
  case (Cons c s)
  note mn = marked_next_simps [OF Cons.prems]
  have step: "vstep P49 v = (marked_next v, basic_json_parser_49 c)"
    using Cons.prems by (simp add: vstep_marked v_read_def mn)
  show ?case
  proof (cases "decimal c")
    case True
    with step mn Cons.prems Cons.IH [of "marked_next v" c] show ?thesis
      by (intro lands_step [of P49 v "marked_next v" P49 1]) (simp_all add: number_branches)
  next
    case False
    have "lands (if one_of ''eE'' c then P44 else P14) (marked_next v) (exp_len (c # s)) value_number"
      using exponent_part [of "marked_next v"] mn by simp
    with False step mn Cons.prems show ?thesis
      by (intro lands_step [of P49 v "marked_next v" "if one_of ''eE'' c then P44 else P14" 1])
        (simp_all add: number_branches)
  qed
qed

definition after_int :: "bytes \<Rightarrow> nat" where
  "after_int s = frac_len s + exp_len (drop (frac_len s) s)"

text \<open>The optional fraction and exponent, from the label the integer part leaves to.\<close>

lemma fraction_part:
  assumes "v_mark v = length (v_tok v)" "v_acc v \<noteq> 0"
  shows "lands (if one_of ''.'' (v_char v) then P43 else if one_of ''eE'' (v_char v) then P44 else P14) v
    (after_int (v_rest v)) value_number"
proof (cases "one_of ''.'' (v_char v)")
  case False
  then have "frac_len (v_rest v) = 0" by (cases "v_rest v") (simp_all add: frac_len_def)
  with False exponent_part [OF assms] show ?thesis by (simp add: after_int_def)
next
  case True
  then obtain s where s: "v_rest v = CHR ''.'' # s"
    by (cases "v_rest v") (auto simp: one_of_def)
  have step: "vstep P43 v = (go 1 v, basic_json_parser_43 (v_char (go 1 v)))"
    using s by (simp add: vstep.simps v_read_def v_advance_go)
  show ?thesis
  proof (cases "matches [decimal] s")
    case True
    then obtain d r where r: "s = d # r" "decimal d" by (cases s) auto
    have "lands P49 (go 1 v) (1 + (digits r + exp_len (drop (digits r) r))) value_number"
      using s r by (intro fraction_digits [of _ d]) simp
    with step s r lands_step [of P43 v "go 1 v" P49 1 "1 + (digits r + exp_len (drop (digits r) r))"]
    show ?thesis by (simp add: number_branches frac_len_def one_of_def after_int_def)
  next
    case False
    then have "\<not> decimal (v_char (go 1 v))" using s by (cases s) simp_all
    with step s assms(1) have "gives_up P43 v"
      by (intro gives_up_step [of P43 v "go 1 v"]) (simp_all add: number_branches)
    moreover have "frac_len (v_rest v) = 0" "exp_len (v_rest v) = 0"
      using False s by (cases s; simp add: frac_len_def exp_len_def one_of_def)+
    ultimately show ?thesis using assms lands_gives_up s by (simp add: one_of_def after_int_def)
  qed
qed

lemma zero_scan:
  assumes "v_rest v = c # s"
  shows "lands P13 v (1 + after_int s) value_number"
proof -
  note mn = marked_next_simps [OF assms]
  have "vstep P13 v = (marked_next v, if one_of ''.'' (v_char (marked_next v)) then Goto P43
      else if one_of ''eE'' (v_char (marked_next v)) then Goto P44 else Goto P14)"
    by (simp add: vstep_marked v_read_def number_branches)
  then have "vstep P13 v = (marked_next v, Goto (if one_of ''.'' (v_char (marked_next v)) then P43
      else if one_of ''eE'' (v_char (marked_next v)) then P44 else P14))"
    by simp
  with fraction_part [of "marked_next v"] mn assms show ?thesis
    by (intro lands_step [of P13 v "marked_next v"]) simp_all
qed

lemma integer_scan:
  "v_rest v = d # s \<Longrightarrow> lands P15 v (1 + (digits s + after_int (drop (digits s) s))) value_number"
proof (induction s arbitrary: v d)
  case Nil
  then have "vstep P15 v = (marked_next v, Goto P14)"
    by (simp add: vstep_marked v_read_def number_branches marked_next_simps)
  from lands_step [OF this, of 1 0] lands_P14 Nil show ?case
    by (simp add: marked_next_simps exp_len_def frac_len_def after_int_def)
next
  case (Cons c s)
  note mn = marked_next_simps [OF Cons.prems]
  have step: "vstep P15 v = (marked_next v, basic_json_parser_15 c)"
    using Cons.prems by (simp add: vstep_marked v_read_def mn)
  show ?case
  proof (cases "decimal c")
    case True
    with step mn Cons.prems Cons.IH [of "marked_next v" c] show ?thesis
      by (intro lands_step [of P15 v "marked_next v" P15 1]) (simp_all add: number_branches)
  next
    case False
    let ?q = "if one_of ''.'' c then P43 else if one_of ''eE'' c then P44 else P14"
    have vc: "v_char (marked_next v) = c" using mn by simp
    have "lands ?q (marked_next v) (after_int (c # s)) value_number"
      using fraction_part [of "marked_next v", unfolded vc mn(2)] mn(3) by simp
    with False step mn Cons.prems show ?thesis
      by (intro lands_step [of P15 v "marked_next v" ?q 1]) (simp_all add: number_branches)
  qed
qed

definition unsigned_len :: "bytes \<Rightarrow> nat option" where
  "unsigned_len s = map_option (\<lambda>i. i + after_int (drop i s)) (int_len s)"

lemma num_len_Cons:
  "num_len (c # s) = (if c = CHR ''-'' then map_option Suc (unsigned_len s) else unsigned_len (c # s))"
  by (auto simp: num_len_def unsigned_len_def after_int_def Let_def add.assoc add.commute one_of_def
      split: option.splits)

lemma unsigned_scan:
  assumes "v_rest v = c # s"
  shows "one_of ''0'' c \<Longrightarrow> \<exists>n. unsigned_len (c # s) = Some n \<and> lands P13 v n value_number"
    "within 49 57 c \<Longrightarrow> \<exists>n. unsigned_len (c # s) = Some n \<and> lands P15 v n value_number"
    "\<not> decimal c \<Longrightarrow> unsigned_len (c # s) = None"
proof -
  show "\<exists>n. unsigned_len (c # s) = Some n \<and> lands P13 v n value_number" if "one_of ''0'' c"
    using zero_scan [OF assms] that by (auto simp: unsigned_len_def int_len_def one_of_def)
  show "\<exists>n. unsigned_len (c # s) = Some n \<and> lands P15 v n value_number" if "within 49 57 c"
  proof -
    have "decimal c" "\<not> one_of ''0'' c" using that by (auto simp: within_def one_of_def)
    with integer_scan [OF assms] that show ?thesis by (simp add: unsigned_len_def int_len_def add.assoc)
  qed
  show "unsigned_len (c # s) = None" if "\<not> decimal c"
    using that by (auto simp: unsigned_len_def int_len_def within_def one_of_def)
qed

lemma decimal_iff: "decimal c \<longleftrightarrow> one_of ''0'' c \<or> within 49 57 c"
  by (auto simp: within_def one_of_def char_code_eq simp del: of_char_eq_iff)

lemma minus_scan:
  assumes "v_rest v = CHR ''-'' # s"
  shows "case unsigned_len s of Some n \<Rightarrow> lands P12 v (1 + n) value_number | None \<Rightarrow> lands P12 v 1 parse_error"
proof -
  have step: "vstep P12 v = (go 1 v, basic_json_parser_12 (v_char (go 1 v)))"
    using assms by (simp add: vstep.simps v_read_def v_advance_go)
  have via: "lands P12 v (1 + m) t" if "basic_json_parser_12 (v_char (go 1 v)) = Goto q" "lands q (go 1 v) m t" for q m t
    using lands_step [OF step [unfolded that(1)] _ _ that(2), of 1] by simp
  show ?thesis
  proof (cases s)
    case Nil
    with via [of P5 0] lands_P5 assms show ?thesis
      by (simp add: number_branches unsigned_len_def int_len_def one_of_def)
  next
    case (Cons c r)
    with assms have r: "v_rest (go 1 v) = c # r" by simp
    consider "one_of ''0'' c" | "within 49 57 c" "\<not> one_of ''0'' c" | "\<not> decimal c" "\<not> one_of ''0'' c" "\<not> within 49 57 c"
      using decimal_iff by blast
    then show ?thesis
      using unsigned_scan [OF r] via [of P13 _ value_number] via [of P15 _ value_number] via [of P5 0 parse_error] lands_P5 r Cons
      by cases (fastforce simp: number_branches)+
  qed
qed

section \<open>Tokens\<close>

definition begun :: "vlex \<Rightarrow> vlex" where
  "begun v = v_set_marker (v_advance (v\<lparr>v_acc := 0\<rparr>))"

lemma begun_simps:
  "v_rest v = c # s \<Longrightarrow> v_tok (begun v) = v_tok v @ [c]"
  "v_rest v = c # s \<Longrightarrow> v_rest (begun v) = s"
  "v_rest v = c # s \<Longrightarrow> v_mark (begun v) = length (v_tok (begun v))"
  by (simp_all add: begun_def v_set_marker_def v_advance_def)

lemma begun_acc [simp]: "v_acc (begun v) = 0"
  by (simp add: begun_def v_set_marker_def v_advance_def)

lemma lands_error: "gives_up q v \<Longrightarrow> v_mark v = length (v_tok v) \<Longrightarrow> v_acc v = 0 \<Longrightarrow> lands q v 0 parse_error"
  by (auto simp: lands_def gives_up_def back_here)

text \<open>A keyword: its first character is read, the others lie along a path of labels.\<close>

lemma keyword_scan:
  assumes "v_rest v = c # s" "vstep q v = v_read branch (begun v)"
    "\<And>c. branch c = (if p c then Goto q1 else Goto P5)" "\<not> p NUL" "leads q1 ps q2"
    "\<And>v. vstep q2 v = (v_advance v, Break t)" "n = 2 + length ps"
  shows "if matches (p # ps) s then lands q v n t else lands q v 1 parse_error"
proof -
  note b = begun_simps [OF assms(1)]
  have step: "vstep q v = (begun v, Goto (if p (v_char (begun v)) then q1 else P5))"
    by (simp add: assms(2,3) v_read_def)
  have lands_q: "lands q v (1 + m) t'" if "lands (if p (v_char (begun v)) then q1 else P5) (begun v) m t'" for m t'
    using lands_step [OF step _ _ that, of 1] b assms(1) by simp
  show ?thesis
  proof (cases "p (v_char (begun v))")
    case False
    then have "\<not> matches (p # ps) s" using b(2) by (cases s) simp_all
    with lands_q [of 0 parse_error] lands_P5 False show ?thesis by simp
  next
    case True
    with assms(4) b(2) obtain d r where s: "s = d # r" "p d" by (cases s) simp_all
    have *: "if matches ps r then \<forall>v' t. vscan q2 (go (length ps) (begun v)) v' t \<longrightarrow> vscan q1 (begun v) v' t
        else gives_up q1 (begun v)"
      using assms(5) b s unfolding leads_def by (metis list.distinct(1) list.sel(3) order_refl)
    show ?thesis
    proof (cases "matches ps r")
      case match: True
      have "vscan q2 (go (length ps) (begun v)) (go (1 + length ps) (begun v)) t"
        using matches_length [OF match] b(2) s
        by (intro vscan_break) (simp add: assms(6) v_advance_go go_go)
      with * match have "lands q1 (begun v) (1 + length ps) t"
        unfolding lands_def by (metis go_simps(1,2))
      with lands_q [of "1 + length ps" t] True match s assms(7) show ?thesis by simp
    next
      case False
      with * b lands_error [of q1 "begun v"] have "lands q1 (begun v) 0 parse_error" by simp
      with lands_q [of 0 parse_error] True False s show ?thesis by simp
    qed
  qed
qed

lemma branch_keywords:
  "basic_json_parser_23 c = (if one_of ''a'' c then Goto P45 else Goto P5)"
  "basic_json_parser_24 c = (if one_of ''u'' c then Goto P46 else Goto P5)"
  "basic_json_parser_25 c = (if one_of ''r'' c then Goto P47 else Goto P5)"
  "basic_json_parser_45 c = (if one_of ''l'' c then Goto P54 else Goto P32)"
  "basic_json_parser_46 c = (if one_of ''l'' c then Goto P55 else Goto P32)"
  "basic_json_parser_47 c = (if one_of ''u'' c then Goto P56 else Goto P32)"
  "basic_json_parser_54 c = (if one_of ''s'' c then Goto P58 else Goto P32)"
  "basic_json_parser_55 c = (if one_of ''l'' c then Goto P59 else Goto P32)"
  "basic_json_parser_56 c = (if one_of ''e'' c then Goto P61 else Goto P32)"
  "basic_json_parser_58 c = (if one_of ''e'' c then Goto P64 else Goto P32)"
  by (simp_all add: one_of_def basic_json_parser_23_def basic_json_parser_24_def basic_json_parser_25_def
      basic_json_parser_45_def basic_json_parser_46_def basic_json_parser_47_def basic_json_parser_54_def
      basic_json_parser_55_def basic_json_parser_56_def basic_json_parser_58_def)

lemma one_of_NUL [simp]: "one_of [c] NUL = (c = NUL)"
  by (auto simp: one_of_def)

lemma leads_keywords:
  "leads P45 [one_of ''l'', one_of ''s'', one_of ''e''] P64"
  "leads P46 [one_of ''l'', one_of ''l''] P59"
  "leads P47 [one_of ''u'', one_of ''e''] P61"
proof -
  have "leads P58 [one_of ''e''] P64"
    by (rule leads_step [OF _ branch_keywords(10) _ leads_refl]) (simp_all add: vstep.simps)
  then have "leads P54 [one_of ''s'', one_of ''e''] P64"
    by (rule leads_step [OF _ branch_keywords(7), rotated 2]) (simp_all add: vstep.simps)
  then show "leads P45 [one_of ''l'', one_of ''s'', one_of ''e''] P64"
    by (rule leads_step [OF _ branch_keywords(4), rotated 2]) (simp_all add: vstep.simps)
  have "leads P55 [one_of ''l''] P59"
    by (rule leads_step [OF _ branch_keywords(8) _ leads_refl]) (simp_all add: vstep.simps)
  then show "leads P46 [one_of ''l'', one_of ''l''] P59"
    by (rule leads_step [OF _ branch_keywords(5), rotated 2]) (simp_all add: vstep.simps)
  have "leads P56 [one_of ''e''] P61"
    by (rule leads_step [OF _ branch_keywords(9) _ leads_refl]) (simp_all add: vstep.simps)
  then show "leads P47 [one_of ''u'', one_of ''e''] P61"
    by (rule leads_step [OF _ branch_keywords(6), rotated 2]) (simp_all add: vstep.simps)
qed

lemma keyword_scans:
  assumes "v_rest v = c # s"
  shows "if prefix_of ''alse'' s then lands P23 v 5 literal_false else lands P23 v 1 parse_error"
    "if prefix_of ''ull'' s then lands P24 v 4 literal_null else lands P24 v 1 parse_error"
    "if prefix_of ''rue'' s then lands P25 v 4 literal_true else lands P25 v 1 parse_error"
  using keyword_scan [where t = literal_false and q = P23 and n = 5 and branch = basic_json_parser_23 and
      p = "one_of ''a''", OF assms _ branch_keywords(1) _ leads_keywords(1)]
    keyword_scan [where t = literal_null and q = P24 and n = 4 and branch = basic_json_parser_24 and
      p = "one_of ''u''", OF assms _ branch_keywords(2) _ leads_keywords(2)]
    keyword_scan [where t = literal_true and q = P25 and n = 4 and branch = basic_json_parser_25 and
      p = "one_of ''r''", OF assms _ branch_keywords(3) _ leads_keywords(3)]
  by (simp_all add: vstep.simps begun_def prefix_of_def)

lemma branch_9: "basic_json_parser_9 c = (if within 0x20 0x7F c \<or> within 0xC2 0xF4 c then Goto P31 else Goto P5)"
  by (auto simp: basic_json_parser_9_def within_def char_le_code)

lemma quote_scan:
  assumes "v_rest v = CHR 0x22 # s"
  shows "case str_len s of Some n \<Rightarrow> lands P9 v (1 + n) value_string | None \<Rightarrow> lands P9 v 1 parse_error"
proof -
  note b = begun_simps [OF assms]
  have step: "vstep P9 v = (begun v, basic_json_parser_9 (v_char (begun v)))"
    by (simp add: vstep.simps v_read_def begun_def)
  show ?thesis
  proof (cases "within 0x20 0x7F (v_char (begun v)) \<or> within 0xC2 0xF4 (v_char (begun v))")
    case True
    then have s31: "vstep P9 v = (begun v, Goto P31)" using step by (simp add: branch_9)
    have "case str_len s of Some n \<Rightarrow> lands P31 (begun v) n value_string
        | None \<Rightarrow> lands P31 (begun v) 0 parse_error"
      using string_scan [of "begun v"] lands_error [of P31 "begun v"] b
      by (cases "str_len s") (auto simp: lands_def)
    then show ?thesis
      using lands_step [OF s31, of 1] b assms by (cases "str_len s") fastforce+
  next
    case False
    then have "vstep P9 v = (begun v, Goto P5)" using step by (simp add: branch_9)
    from lands_step [OF this _ _ lands_P5, of 1] b assms have "lands P9 v 1 parse_error" by simp
    moreover have "str_len s = None"
    proof (cases s)
      case (Cons c r)
      with False b have "\<not> within 0x20 0x7F c" "\<not> within 0xC2 0xF4 c" by simp_all
      then have "char_len (c # r) = None"
        by (intro char_len_other) (auto simp: within_def)
      moreover have "c \<noteq> CHR 0x22"
        using \<open>\<not> within 0x20 0x7F c\<close> by (auto simp: within_def)
      ultimately show ?thesis using Cons by (simp add: str_len.simps one_of_def)
    qed (simp add: str_len.simps char_len_def char_forms_def)
    ultimately show ?thesis by simp
  qed
qed

lemma branch_0:
  "basic_json_parser_0 c =
     (if white_space c then Goto P6 else if c = NUL then Goto P2 else if c = CHR 0x22 then Goto P9
      else if c = CHR '','' then Goto P10 else if c = CHR ''-'' then Goto P12
      else if one_of ''0'' c then Goto P13 else if within 49 57 c then Goto P15
      else if c = CHR '':'' then Goto P17 else if c = CHR ''['' then Goto P19
      else if c = CHR '']'' then Goto P21 else if c = CHR ''f'' then Goto P23
      else if c = CHR ''n'' then Goto P24 else if c = CHR ''t'' then Goto P25
      else if c = CHR ''{'' then Goto P26 else if c = CHR ''}'' then Goto P28 else Goto P4)"
  by (auto simp: basic_json_parser_0_def white_space_def one_of_def within_def yybm_bits char_le_code
      char_code_eq simp del: of_char_eq_iff)

lemma branch_6: "basic_json_parser_6 c = (if white_space c then Goto P6 else Again)"
  by (auto simp: basic_json_parser_6_def white_space_def one_of_def yybm_bits
      char_code_eq simp del: of_char_eq_iff)

lemma token_at_Cons:
  "token_at (c # s) =
     (if c = CHR 0x22 then (case str_len s of Some n \<Rightarrow> (value_string, 1 + n) | None \<Rightarrow> (parse_error, 1))
      else if c = CHR '','' then (value_separator, 1)
      else if c = CHR ''-'' then (case unsigned_len s of Some n \<Rightarrow> (value_number, 1 + n) | None \<Rightarrow> (parse_error, 1))
      else if decimal c then (case unsigned_len (c # s) of Some n \<Rightarrow> (value_number, n) | None \<Rightarrow> (parse_error, 1))
      else if c = CHR '':'' then (name_separator, 1)
      else if c = CHR ''['' then (begin_array, 1)
      else if c = CHR '']'' then (end_array, 1)
      else if c = CHR ''f'' then (if prefix_of ''alse'' s then (literal_false, 5) else (parse_error, 1))
      else if c = CHR ''n'' then (if prefix_of ''ull'' s then (literal_null, 4) else (parse_error, 1))
      else if c = CHR ''t'' then (if prefix_of ''rue'' s then (literal_true, 4) else (parse_error, 1))
      else if c = CHR ''{'' then (begin_object, 1)
      else if c = CHR ''}'' then (end_object, 1)
      else (parse_error, 1))"
proof -
  consider (word) "c = CHR ''t'' \<or> c = CHR ''f'' \<or> c = CHR ''n''"
    | (punct) "c = CHR ''['' \<or> c = CHR '']'' \<or> c = CHR ''{'' \<or> c = CHR ''}'' \<or> c = CHR '':'' \<or> c = CHR '',''"
    | (other) "c \<notin> set ''tfn[]{}:,''"
    by auto
  then show ?thesis
  proof cases
    case word
    then show ?thesis
      by (elim disjE) (simp_all add: token_at_def keywords_of_def prefix_of_def one_of_def within_def num_len_Cons
          unsigned_len_def int_len_def)
  next
    case punct
    then show ?thesis
      by (elim disjE) (simp_all add: token_at_def keywords_of_def prefix_of_def one_of_def within_def)
  next
    case other
    then have find: "List.find (\<lambda>(w, t). prefix_of w (c # s)) keywords_of = None"
      by (simp add: keywords_of_def prefix_of_def one_of_def)
    have num: "num_len (c # s) = None" if "\<not> decimal c" "c \<noteq> CHR ''-''"
      using that by (simp add: num_len_Cons unsigned_len_def int_len_def decimal_iff one_of_def)
    show ?thesis
    proof (cases "c = CHR 0x22")
      case True
      with find show ?thesis by (simp add: token_at_def one_of_def)
    next
      case False
      then have "token_at (c # s) =
          (case num_len (c # s) of Some n \<Rightarrow> (value_number, n) | None \<Rightarrow> (parse_error, 1))"
        using find by (simp add: token_at_def one_of_def)
      with False other num show ?thesis
        by (cases "c = CHR ''-''"; cases "decimal c") (simp_all add: num_len_Cons split: option.split)
    qed
  qed
qed

lemma lands_from_P0:
  assumes "v_rest v = c # s" "basic_json_parser_0 c = Goto q" "lands q v n t"
  shows "lands P0 v n t"
  using lands_step [of P0 v v q 0 n t] assms by (simp add: vstep.simps v_read_def)

lemma single_scan:
  assumes "v_rest v = c # s" "vstep q v = (v_advance v, Break t)"
  shows "lands q v 1 t"
  using assms(1) by (intro lands_break [OF assms(2)]) (simp_all add: v_advance_go)

lemma token_scan_start:
  assumes "v_rest v = c # s" "\<not> white_space c" "c \<noteq> NUL"
  shows "lands P0 v (snd (token_at (c # s))) (fst (token_at (c # s)))"
proof -
  note p0 = lands_from_P0 [OF assms(1)]
  have P4: "lands P4 v 1 parse_error"
    using lands_step [of P4 v "v_advance v" P5 1 0] lands_P5 assms(1) by (simp add: vstep.simps v_advance_go)
  consider "c = CHR 0x22" | "c = CHR '',''" | "c = CHR ''-''" | (zero) "one_of ''0'' c"
    | (int) "within 49 57 c" | "c = CHR '':''" | "c = CHR ''[''" | "c = CHR '']''" | (f) "c = CHR ''f''"
    | (n) "c = CHR ''n''" | (t) "c = CHR ''t''" | "c = CHR ''{''" | "c = CHR ''}''"
    | (other) "c \<notin> set [CHR 0x22, CHR '','', CHR ''-'', CHR '':'', CHR ''['', CHR '']'', CHR ''f'', CHR ''n'', CHR ''t'', CHR ''{'', CHR ''}'']" "\<not> one_of ''0'' c" "\<not> within 49 57 c"
    by auto
  then show ?thesis
  proof cases
    case 1
    have "basic_json_parser_0 c = Goto P9" using 1 by (simp add: branch_0 white_space_def one_of_def)
    from p0 [OF this] quote_scan [of v s] assms(1) 1 show ?thesis
      by (cases "str_len s") (simp_all add: token_at_Cons)
  next
    case 3
    have "basic_json_parser_0 c = Goto P12" using 3 by (simp add: branch_0 white_space_def one_of_def)
    from p0 [OF this] minus_scan [of v s] assms(1) 3 show ?thesis
      by (cases "unsigned_len s") (simp_all add: token_at_Cons)
  next
    case zero
    then have "basic_json_parser_0 c = Goto P13" by (simp add: branch_0 white_space_def one_of_def)
    moreover have "c = CHR ''0''" using zero by (simp add: one_of_def)
    ultimately show ?thesis using p0 unsigned_scan(1) [OF assms(1) zero]
      by (auto simp: token_at_Cons decimal_iff one_of_def)
  next
    case int
    then have c: "\<not> white_space c" "c \<notin> set [NUL, CHR 0x22, CHR '','', CHR ''-'']" "\<not> one_of ''0'' c"
      by (auto simp: within_def white_space_def one_of_def)
    then have "basic_json_parser_0 c = Goto P15" using int by (simp add: branch_0)
    with p0 unsigned_scan(2) [OF assms(1) int] int c show ?thesis
      by (auto simp: token_at_Cons decimal_iff)
  next
    case f
    have "basic_json_parser_0 c = Goto P23" using f by (simp add: branch_0 white_space_def one_of_def within_def)
    from p0 [OF this] keyword_scans(1) [OF assms(1)] f show ?thesis
      by (auto simp: token_at_Cons within_def split: if_splits)
  next
    case n
    have "basic_json_parser_0 c = Goto P24" using n by (simp add: branch_0 white_space_def one_of_def within_def)
    from p0 [OF this] keyword_scans(2) [OF assms(1)] n show ?thesis
      by (auto simp: token_at_Cons within_def split: if_splits)
  next
    case t
    have "basic_json_parser_0 c = Goto P25" using t by (simp add: branch_0 white_space_def one_of_def within_def)
    from p0 [OF this] keyword_scans(3) [OF assms(1)] t show ?thesis
      by (auto simp: token_at_Cons within_def split: if_splits)
  next
    case other
    then have "basic_json_parser_0 c = Goto P4" using assms(2,3) by (simp add: branch_0)
    with p0 P4 other show ?thesis by (simp add: token_at_Cons decimal_iff)
  qed (use single_scan [OF assms(1)] p0 in \<open>auto simp: branch_0 white_space_def one_of_def within_def vstep.simps token_at_Cons\<close>)
qed

lemma white_scan:
  "v_rest v = c # s \<Longrightarrow> vscan P0 (v_start (dropWhile white_space s)) v' t \<Longrightarrow> vscan P6 v v' t"
proof (induction s arbitrary: v c)
  case Nil
  then have "vstep P6 v = (go 1 v, Again)" "v_head (go 1 v) = v_start []"
    by (simp_all add: vstep.simps v_read_def v_advance_go branch_6 white_space_def one_of_def v_head_def v_start_def go_def)
  with Nil show ?case by (auto intro: vscan_again)
next
  case (Cons d s)
  then have step: "vstep P6 v = (go 1 v, if white_space d then Goto P6 else Again)"
    by (simp add: vstep.simps v_read_def v_advance_go branch_6)
  show ?case
  proof (cases "white_space d")
    case True
    with step Cons show ?thesis by (intro vscan_goto [of P6 v "go 1 v" P6]) simp_all
  next
    case False
    with Cons.prems have "v_head (go 1 v) = v_start (dropWhile white_space (d # s))"
      by (simp add: v_head_def v_start_def go_def)
    with step False Cons.prems(2) show ?thesis by (intro vscan_again [of P6 v "go 1 v"]) simp_all
  qed
qed

text \<open>The automaton finds the token behind the white space.\<close>

lemma vscan_token:
  assumes "NUL \<notin> set s" "s' = dropWhile white_space s"
  obtains v' where "vscan P0 (v_start s) v' (fst (token_at s'))"
    "s' \<noteq> [] \<Longrightarrow> v_tok v' = take (snd (token_at s')) s' \<and> v_rest v' = drop (snd (token_at s')) s'"
proof -
  have front: "\<exists>v'. vscan P0 (v_start s') v' (fst (token_at s')) \<and>
      (s' \<noteq> [] \<longrightarrow> v_tok v' = take (snd (token_at s')) s' \<and> v_rest v' = drop (snd (token_at s')) s')"
  proof (cases s')
    case Nil
    have "vscan P2 (v_start []) (v_advance (v_start [])) end_of_input"
      by (rule vscan_break) (simp add: vstep.simps)
    then have "vscan P0 (v_start []) (v_advance (v_start [])) end_of_input"
      by (rule vscan_goto [rotated])
        (simp add: vstep.simps v_read_def branch_0 white_space_def one_of_def v_start_def)
    with Nil show ?thesis by (auto simp: token_at_def)
  next
    case (Cons c r)
    have "\<not> white_space c" using Cons assms(2) hd_dropWhile [of white_space s] by simp
    moreover have "c \<noteq> NUL" using Cons assms set_dropWhileD [of c white_space s] by auto
    ultimately show ?thesis
      using token_scan_start [of "v_start s'" c r] Cons by (auto simp: lands_def v_start_def)
  qed
  show thesis
  proof (cases s)
    case (Cons c r)
    show thesis
    proof (cases "white_space c")
      case True
      then have "vstep P0 (v_start s) = (v_start s, Goto P6)" "s' = dropWhile white_space r"
        using Cons assms(2) by (simp_all add: vstep.simps v_read_def branch_0 v_start_def)
      with front white_scan [of "v_start s" c r] Cons that show thesis
        by (auto simp: v_start_def intro: vscan_goto)
    next
      case False
      with Cons assms(2) front that show thesis by auto
    qed
  qed (use assms front that in auto)
qed

lemma str_len_bounds: "str_len s = Some n \<Longrightarrow> 0 < n \<and> n \<le> length s"
proof (induction s arbitrary: n rule: str_len.induct)
  case (1 s)
  show ?case
  proof (cases "matches [one_of [CHR 0x22]] s")
    case True
    with 1(2) show ?thesis by (cases s) (simp_all add: str_len.simps)
  next
    case False
    with 1(2) obtain k m where k: "char_len s = Some k" "str_len (drop k s) = Some m" "n = k + m"
      by (subst (asm) str_len.simps) (auto split: option.splits)
    with 1(1) [OF False k(1) k(2)] show ?thesis by auto
  qed
qed

lemma token_at_bounds:
  assumes "s \<noteq> []"
  shows "0 < snd (token_at s)" "snd (token_at s) \<le> length s" "fst (token_at s) \<noteq> end_of_input"
proof -
  obtain c r where s: "s = c # r" using assms by (cases s) auto
  have exp: "exp_len t \<le> length t" for t
    using length_takeWhile_le [of decimal "drop 2 t"] length_takeWhile_le [of decimal "tl t"]
    by (cases t; cases "tl t") (auto simp: exp_len_def)
  have frac: "frac_len t \<le> length t" for t
    using length_takeWhile_le [of decimal "tl t"] by (cases t) (auto simp: frac_len_def)
  have after: "after_int t \<le> length t" for t
    using frac [of t] exp [of "drop (frac_len t) t"] by (simp add: after_int_def)
  have "i \<le> length t \<and> 0 < i" if "int_len t = Some i" for i t
    using that length_takeWhile_le [of decimal t]
    by (cases t) (auto simp: int_len_def decimal_iff split: if_splits)
  note int = this
  have num: "n \<le> length t \<and> 0 < n" if un: "unsigned_len t = Some n" for n t
  proof -
    obtain i where "int_len t = Some i" "n = i + after_int (drop i t)"
      using un by (auto simp: unsigned_len_def)
    with int [of t i] after [of "drop i t"] show ?thesis by (simp add: le_diff_conv2 add.commute)
  qed
  have kw: "length w \<le> length t" if "prefix_of w t" for w t
    using matches_length that by (fastforce simp: prefix_of_def)
  define P where "P r \<longleftrightarrow> 0 < snd r \<and> snd r \<le> length s \<and> fst r \<noteq> end_of_input" for r
  have branch: "P (if b then x else y)" if "b \<Longrightarrow> P x" "\<not> b \<Longrightarrow> P y" for b x y
    using that by simp
  have single: "P (t, 1)" if "t \<noteq> end_of_input" for t
    using that by (simp add: P_def s)
  have "P (token_at s)"
    unfolding s token_at_Cons
  proof (intro branch single)
    show "P (case str_len r of Some n \<Rightarrow> (value_string, 1 + n) | None \<Rightarrow> (parse_error, 1))"
      using str_len_bounds [of r] single by (auto simp: P_def s split: option.split)
    show "P (case unsigned_len r of Some n \<Rightarrow> (value_number, 1 + n) | None \<Rightarrow> (parse_error, 1))"
      using num [of r] single by (auto simp: P_def s split: option.split)
    show "P (case unsigned_len (c # r) of Some n \<Rightarrow> (value_number, n) | None \<Rightarrow> (parse_error, 1))"
      using num [of "c # r"] single by (auto simp: P_def s split: option.split)
    show "P (literal_false, 5)" if "prefix_of ''alse'' r"
      using kw [OF that] by (simp add: P_def s)
    show "P (literal_null, 4)" if "prefix_of ''ull'' r"
      using kw [OF that] by (simp add: P_def s)
    show "P (literal_true, 4)" if "prefix_of ''rue'' r"
      using kw [OF that] by (simp add: P_def s)
  qed simp_all
  then show "0 < snd (token_at s)" "snd (token_at s) \<le> length s" "fst (token_at s) \<noteq> end_of_input"
    by (simp_all add: P_def)
qed

text \<open>\<open>lexer::scan\<close> returns the token at the front of the text behind the white space.\<close>

lemma scan_token:
  assumes "lex_ok l" "s = dropWhile white_space (text_of l)"
  obtains l' where "scan l = Some l'"
    "scanned l' (fst (token_at s)) (take (snd (token_at s)) s) (drop (snd (token_at s)) s)"
proof -
  have "NUL \<notin> set (text_of l)"
    by (auto simp: text_of_def dest: set_takeWhileD)
  then obtain v' where v': "vscan P0 (v_start (text_of l)) v' (fst (token_at s))"
    "s \<noteq> [] \<Longrightarrow> v_tok v' = take (snd (token_at s)) s \<and> v_rest v' = drop (snd (token_at s)) s"
    using vscan_token [OF _ assms(2)] by blast
  obtain l' where "scan l = Some l'" "scanned l' (fst (token_at s)) (v_tok v') (v_rest v')"
    using scan_ok [OF assms(1) v'(1)] by blast
  with v'(2) that show thesis by (cases "s = []") (auto simp: scanned_def token_at_def)
qed

text \<open>
  C22.  The re2c automaton over the refilled line buffer recognises the token grammar: a scan of a
  well-formed lexer always returns, with the class and exactly the characters of the token that
  the grammar finds behind the white space of the remaining text, and leaves the lexer well formed
  in front of the rest of the text.
\<close>

theorem scan_recognises_grammar:
  assumes "lex_ok l"
  shows "\<exists>l'. scan l = Some l' \<and>
    (let s = dropWhile white_space (text_of l); (t, n) = token_at s
     in last_token_type l' = t \<and>
        (if s = [] then t = end_of_input
         else 0 < n \<and> t \<noteq> end_of_input \<and> lex_ok l' \<and> token_text l' = take n s \<and> text_of l' = drop n s))"
proof -
  define s where "s = dropWhile white_space (text_of l)"
  obtain l' where "scan l = Some l'"
    "scanned l' (fst (token_at s)) (take (snd (token_at s)) s) (drop (snd (token_at s)) s)"
    using scan_token [OF assms s_def] .
  moreover have "token_at [] = (end_of_input, 0)" by (simp add: token_at_def)
  ultimately show ?thesis
    using token_at_bounds [of s] unfolding s_def [symmetric] Let_def
    by (cases "token_at s"; cases "s = []") (simp_all add: scanned_def)
qed

theorem scan_recognises_grammar_witness:
  "\<exists>l'. scan (lexer_of_buffer ''  -12.5e3]'') = Some l' \<and> last_token_type l' = value_number \<and>
     token_text l' = ''-12.5e3'' \<and> text_of l' = '']''"
proof -
  let ?l = "lexer_of_buffer ''  -12.5e3]''"
  have "lex_ok ?l" "dropWhile white_space (text_of ?l) = ''-12.5e3]''"
    by (simp_all add: lex_ok_def lexer_of_buffer_def text_of_def token_text_def white_space_def one_of_def)
  moreover have "token_at ''-12.5e3]'' = (value_number, 7)"
    by (simp add: token_at_def keywords_of_def prefix_of_def one_of_def num_len_def int_len_def frac_len_def
        exp_len_def within_def Let_def)
  ultimately show ?thesis
    using scan_recognises_grammar [of ?l] by auto
qed

end
