(* ===== verification/Config_Load.thy ===== *)
theory Config_Load
  imports Prelude
begin

text \<open>
  Model of src/ssdb/src/util/config.h and config.cpp: the configuration record, its defaults,
  and \<open>Config::load\<close> from the JSON value of the file.  Of the JSON library
  (src/ssdb/src/util/json.hpp) the model has the value type and the operations that \<open>load\<close>
  uses: \<open>operator[]\<close> with its \<open>domain_error\<close>, the type tests, and the conversions to
  string and \<open>int\<close>.  \<open>Config_load\<close> takes the value of the file; reading its text into that
  value is the subject of the theories Json\_Lexer to Json\_Roundtrip, and Config\_File puts them together.

  \<open>operator[]\<close> of a mutable object inserts null for a missing key; every later access to
  that key then reads the null, which is also what the model returns, so the insertion is not
  represented.
\<close>

section \<open>JSON values\<close>

text \<open>A finite floating-point number is its mantissa and its binary exponent.\<close>

datatype json =
    JNull
  | JObject "(bytes \<times> json) list"
  | JArray "json list"
  | JString bytes
  | JBool bool
  | JInt int
  | JUnsigned nat
  | JFloat int int

datatype json_exn =
    domain_error
  | undefined_cast

fun is_object :: "json \<Rightarrow> bool" where
  "is_object (JObject _) = True"
| "is_object _ = False"

fun is_string :: "json \<Rightarrow> bool" where
  "is_string (JString _) = True"
| "is_string _ = False"

fun is_number :: "json \<Rightarrow> bool" where
  "is_number (JInt _) = True"
| "is_number (JUnsigned _) = True"
| "is_number (JFloat _ _) = True"
| "is_number _ = False"

fun json_at :: "json \<Rightarrow> bytes \<Rightarrow> json_exn + json" where
  "json_at JNull k = Inr JNull"
| "json_at (JObject obj) k = Inr (case map_of obj k of None \<Rightarrow> JNull | Some v \<Rightarrow> v)"
| "json_at _ k = Inl domain_error"

fun get_string :: "json \<Rightarrow> json_exn + bytes" where
  "get_string (JString s) = Inr s"
| "get_string _ = Inl domain_error"

definition trunc_float :: "int \<Rightarrow> int \<Rightarrow> int" where
  "trunc_float m e =
     (if 0 \<le> e then m * 2 ^ nat e else sgn m * (\<bar>m\<bar> div 2 ^ nat (- e)))"

text \<open>The conversion to \<open>int\<close>: integers are truncated to 32 bits, a float out of range is undefined.\<close>

fun get_int :: "json \<Rightarrow> json_exn + int" where
  "get_int (JInt i) = Inr (i32 i)"
| "get_int (JUnsigned n) = Inr (i32 (int n))"
| "get_int (JFloat m e) =
     (if fits32 (trunc_float m e) then Inr (trunc_float m e) else Inl undefined_cast)"
| "get_int _ = Inl domain_error"

section \<open>Config\<close>

record Config =
  data_dir :: bytes
  meta_dir :: bytes
  ip :: bytes
  port :: int
  cache_size :: int
  block_size :: int
  write_buffer_size :: int
  compression :: bytes
  master_port :: int
  master_ip :: bytes

definition Config_new :: Config where
  "Config_new =
     \<lparr>data_dir = ''ssdb/data'', meta_dir = ''ssdb/meta'', ip = ''127.0.0.1'', port = 8888,
      cache_size = 500, block_size = 32, write_buffer_size = 64, compression = ''yes'',
      master_port = - 1, master_ip = []\<rparr>"

text \<open>The two statement forms of \<open>load\<close>: a guarded assignment, and a guarded section.\<close>

definition if_string :: "json \<Rightarrow> bytes \<Rightarrow> (bytes \<Rightarrow> Config \<Rightarrow> Config) \<Rightarrow> Config \<Rightarrow> json_exn + Config" where
  "if_string js k upd root =
     bind_res (json_at js k) (\<lambda>v.
       if is_string v then bind_res (get_string v) (\<lambda>s. Inr (upd s root)) else Inr root)"

definition if_number :: "json \<Rightarrow> bytes \<Rightarrow> (int \<Rightarrow> Config \<Rightarrow> Config) \<Rightarrow> Config \<Rightarrow> json_exn + Config" where
  "if_number js k upd root =
     bind_res (json_at js k) (\<lambda>v.
       if is_number v then bind_res (get_int v) (\<lambda>i. Inr (upd i root)) else Inr root)"

definition if_object ::
  "json \<Rightarrow> bytes \<Rightarrow> (json \<Rightarrow> Config \<Rightarrow> json_exn + Config) \<Rightarrow> Config \<Rightarrow> json_exn + Config" where
  "if_object js k body root =
     bind_res (json_at js k) (\<lambda>v. if is_object v then body v root else Inr root)"

definition load_server :: "json \<Rightarrow> Config \<Rightarrow> json_exn + Config" where
  "load_server sv root =
     bind_res (if_string sv ''ip'' (\<lambda>s c. c\<lparr>ip := s\<rparr>) root) (\<lambda>root.
     if_number sv ''port'' (\<lambda>i c. c\<lparr>port := i\<rparr>) root)"

definition load_leveldb :: "json \<Rightarrow> Config \<Rightarrow> json_exn + Config" where
  "load_leveldb lv root =
     bind_res (if_number lv ''cache_size'' (\<lambda>i c. c\<lparr>cache_size := i\<rparr>) root) (\<lambda>root.
     bind_res (if_number lv ''block_size'' (\<lambda>i c. c\<lparr>block_size := i\<rparr>) root) (\<lambda>root.
     bind_res (if_number lv ''write_buffer_size'' (\<lambda>i c. c\<lparr>write_buffer_size := i\<rparr>) root) (\<lambda>root.
     if_string lv ''compression'' (\<lambda>s c. c\<lparr>compression := s\<rparr>) root)))"

definition load_slaveof :: "json \<Rightarrow> Config \<Rightarrow> json_exn + Config" where
  "load_slaveof sl root =
     bind_res (if_number sl ''port'' (\<lambda>i c. c\<lparr>master_port := i\<rparr>) root) (\<lambda>root.
     if_string sl ''ip'' (\<lambda>s c. c\<lparr>master_ip := s\<rparr>) root)"

definition Config_load :: "json \<Rightarrow> json_exn + Config" where
  "Config_load js =
     bind_res (if_string js ''data_dir'' (\<lambda>s c. c\<lparr>data_dir := s\<rparr>) Config_new) (\<lambda>root.
     bind_res (if_string js ''meta_dir'' (\<lambda>s c. c\<lparr>meta_dir := s\<rparr>) root) (\<lambda>root.
     bind_res (if_object js ''server'' load_server root) (\<lambda>root.
     bind_res (if_object js ''leveldb'' load_leveldb root) (\<lambda>root.
     if_object js ''replication'' (\<lambda>rp. if_object rp ''slaveof'' load_slaveof) root))))"

section \<open>A reference reading\<close>

text \<open>
  A path of keys names a value, null when a step is missing or not an object.  A setting is
  the value at its path when that has the right type, and the default otherwise.
\<close>

fun json_path :: "json \<Rightarrow> bytes list \<Rightarrow> json" where
  "json_path js [] = js"
| "json_path (JObject obj) (k # ks) = (case map_of obj k of None \<Rightarrow> JNull | Some v \<Rightarrow> json_path v ks)"
| "json_path _ (k # ks) = JNull"

fun str_or :: "bytes \<Rightarrow> json \<Rightarrow> bytes" where
  "str_or d (JString s) = s"
| "str_or d _ = d"

fun int_or :: "int \<Rightarrow> json \<Rightarrow> int" where
  "int_or d (JInt i) = i32 i"
| "int_or d (JUnsigned n) = i32 (int n)"
| "int_or d (JFloat m e) = trunc_float m e"
| "int_or d _ = d"

text \<open>The floats of a document that are converted fit an \<open>int\<close>.\<close>

fun float_ok :: "json \<Rightarrow> bool" where
  "float_ok (JFloat m e) = fits32 (trunc_float m e)"
| "float_ok _ = True"

definition number_paths :: "bytes list list" where
  "number_paths = [[''server'', ''port''], [''leveldb'', ''cache_size''], [''leveldb'', ''block_size''],
     [''leveldb'', ''write_buffer_size''], [''replication'', ''slaveof'', ''port'']]"

definition settings :: "json \<Rightarrow> Config" where
  "settings js =
     \<lparr>data_dir = str_or ''ssdb/data'' (json_path js [''data_dir'']),
      meta_dir = str_or ''ssdb/meta'' (json_path js [''meta_dir'']),
      ip = str_or ''127.0.0.1'' (json_path js [''server'', ''ip'']),
      port = int_or 8888 (json_path js [''server'', ''port'']),
      cache_size = int_or 500 (json_path js [''leveldb'', ''cache_size'']),
      block_size = int_or 32 (json_path js [''leveldb'', ''block_size'']),
      write_buffer_size = int_or 64 (json_path js [''leveldb'', ''write_buffer_size'']),
      compression = str_or ''yes'' (json_path js [''leveldb'', ''compression'']),
      master_port = int_or (- 1) (json_path js [''replication'', ''slaveof'', ''port'']),
      master_ip = str_or [] (json_path js [''replication'', ''slaveof'', ''ip''])\<rparr>"

lemma json_path_nonobject [simp]: "\<not> is_object js \<Longrightarrow> json_path js (k # ks) = JNull"
  by (cases js) auto

lemma json_path_Cons: "is_object js \<Longrightarrow> json_path js (k # ks) = json_path (json_path js [k]) ks"
  by (cases js) (auto split: option.splits, cases ks, auto)

lemma json_at_object: "is_object js \<Longrightarrow> json_at js k = Inr (json_path js [k])"
  by (cases js) (auto split: option.splits)

lemma if_string_object:
  "is_object js \<Longrightarrow> if_string js k upd root =
     Inr (if is_string (json_path js [k]) then upd (str_or [] (json_path js [k])) root else root)"
  by (cases "json_path js [k]") (simp_all add: if_string_def json_at_object)

lemma if_number_object:
  "is_object js \<Longrightarrow> float_ok (json_path js [k]) \<Longrightarrow> if_number js k upd root =
     Inr (if is_number (json_path js [k]) then upd (int_or 0 (json_path js [k])) root else root)"
  by (cases "json_path js [k]") (simp_all add: if_number_def json_at_object)

lemma str_or_default: "\<not> is_string v \<Longrightarrow> str_or d v = d"
  by (cases v) auto

lemma str_or_string: "is_string v \<Longrightarrow> str_or d v = str_or [] v"
  by (cases v) auto

lemma int_or_default: "\<not> is_number v \<Longrightarrow> int_or d v = d"
  by (cases v) auto

lemma int_or_number: "is_number v \<Longrightarrow> int_or d v = int_or 0 v"
  by (cases v) auto

text \<open>One section at a time: each assignment reads as "the value or what was there".\<close>

lemma load_server_object:
  assumes "is_object sv" "float_ok (json_path sv [''port''])"
  shows "load_server sv root =
     Inr (root\<lparr>ip := str_or (ip root) (json_path sv [''ip'']),
               port := int_or (port root) (json_path sv [''port''])\<rparr>)"
  using str_or_string [of _ "ip root"] int_or_number [of _ "port root"]
  by (simp add: load_server_def if_string_object if_number_object assms str_or_default int_or_default)

lemma load_leveldb_object:
  assumes "is_object lv" "float_ok (json_path lv [''cache_size''])"
    "float_ok (json_path lv [''block_size''])" "float_ok (json_path lv [''write_buffer_size''])"
  shows "load_leveldb lv root =
     Inr (root\<lparr>cache_size := int_or (cache_size root) (json_path lv [''cache_size'']),
               block_size := int_or (block_size root) (json_path lv [''block_size'']),
               write_buffer_size := int_or (write_buffer_size root) (json_path lv [''write_buffer_size'']),
               compression := str_or (compression root) (json_path lv [''compression''])\<rparr>)"
  using str_or_string [of _ "compression root"] int_or_number [of _ "cache_size root"]
    int_or_number [of _ "block_size root"] int_or_number [of _ "write_buffer_size root"]
  by (simp add: load_leveldb_def if_string_object if_number_object assms str_or_default int_or_default)

lemma load_slaveof_object:
  assumes "is_object sl" "float_ok (json_path sl [''port''])"
  shows "load_slaveof sl root =
     Inr (root\<lparr>master_port := int_or (master_port root) (json_path sl [''port'']),
               master_ip := str_or (master_ip root) (json_path sl [''ip''])\<rparr>)"
  using str_or_string [of _ "master_ip root"] int_or_number [of _ "master_port root"]
  by (simp add: load_slaveof_def if_string_object if_number_object assms str_or_default int_or_default)

lemma if_object_object:
  "is_object js \<Longrightarrow> if_object js k body root =
     (if is_object (json_path js [k]) then body (json_path js [k]) root else Inr root)"
  by (simp add: if_object_def json_at_object)

text \<open>A floating-point setting outside the range of \<open>int\<close> makes its conversion undefined, and nothing else fails.\<close>

lemma if_number_bad:
  "is_object js \<Longrightarrow> \<not> float_ok (json_path js [k]) \<Longrightarrow> if_number js k upd root = Inl undefined_cast"
  by (cases "json_path js [k]") (simp_all add: if_number_def json_at_object)

lemma load_server_bad:
  "is_object sv \<Longrightarrow> \<not> float_ok (json_path sv [''port'']) \<Longrightarrow> load_server sv root = Inl undefined_cast"
  by (simp add: load_server_def if_string_object if_number_bad)

lemma load_leveldb_bad:
  assumes "is_object lv" "\<not> (float_ok (json_path lv [''cache_size'']) \<and> float_ok (json_path lv [''block_size'']) \<and>
    float_ok (json_path lv [''write_buffer_size'']))"
  shows "load_leveldb lv root = Inl undefined_cast"
  using assms
  by (cases "float_ok (json_path lv [''cache_size''])"; cases "float_ok (json_path lv [''block_size''])")
    (simp_all add: load_leveldb_def if_number_object if_number_bad)

lemma load_slaveof_bad:
  "is_object sl \<Longrightarrow> \<not> float_ok (json_path sl [''port'']) \<Longrightarrow> load_slaveof sl root = Inl undefined_cast"
  by (simp add: load_slaveof_def if_number_bad)

lemma if_object_bad:
  assumes "is_object js" "is_object (json_path js [k])" "\<And>root. body (json_path js [k]) root = Inl undefined_cast"
  shows "if_object js k body root = Inl undefined_cast"
  using assms by (simp add: if_object_object)

lemma if_object_cases:
  assumes "is_object js" "\<And>v root. is_object v \<Longrightarrow> (\<exists>c. body v root = Inr c) \<or> body v root = Inl undefined_cast"
  shows "(\<exists>c. if_object js k body root = Inr c) \<or> if_object js k body root = Inl undefined_cast"
  using assms by (simp add: if_object_object)

lemma load_sections_cases:
  "is_object v \<Longrightarrow> (\<exists>c. load_server v root = Inr c) \<or> load_server v root = Inl undefined_cast"
  "is_object v \<Longrightarrow> (\<exists>c. load_leveldb v root = Inr c) \<or> load_leveldb v root = Inl undefined_cast"
  using load_server_object load_server_bad load_leveldb_object load_leveldb_bad by blast+

lemma bind_res_bad:
  "(\<exists>c. r = Inr c) \<or> r = Inl e \<Longrightarrow> (\<And>c. f c = Inl e) \<Longrightarrow> bind_res r f = Inl e"
  by auto

lemma bad_object: "\<not> float_ok (json_path js (k # ks)) \<Longrightarrow> is_object js"
  using json_path_nonobject [of js k ks] by fastforce

lemma config_load_bad:
  assumes "p \<in> set number_paths" "\<not> float_ok (json_path (JObject obj) p)"
  shows "Config_load (JObject obj) = Inl undefined_cast"
proof -
  define js where "js = JObject obj"
  have o: "is_object js" by (simp add: js_def)
  note path = json_path_Cons [OF o]
  have bad: "\<not> float_ok (json_path js p)" using assms(2) by (simp add: js_def)
  have "p = [''server'', ''port''] \<or> (\<exists>q \<in> {''cache_size'', ''block_size'', ''write_buffer_size''}. p = [''leveldb'', q]) \<or>
      p = [''replication'', ''slaveof'', ''port'']"
    using assms(1) unfolding number_paths_def by (simp only: list.set insert_iff empty_iff bex_simps simp_thms) meson
  then consider (server) "p = [''server'', ''port'']"
    | (leveldb) q where "p = [''leveldb'', q]" "q \<in> {''cache_size'', ''block_size'', ''write_buffer_size''}"
    | (slaveof) "p = [''replication'', ''slaveof'', ''port'']"
    by metis
  then have "(\<forall>root. if_object js ''server'' load_server root = Inl undefined_cast) \<or>
    (\<forall>root. if_object js ''leveldb'' load_leveldb root = Inl undefined_cast) \<or>
    (\<forall>root. if_object js ''replication'' (\<lambda>rp. if_object rp ''slaveof'' load_slaveof) root = Inl undefined_cast)"
  proof cases
    case server
    then have b: "\<not> float_ok (json_path (json_path js [''server'']) [''port''])"
      using bad path [of "''server''" "[''port'']"] by simp
    have "if_object js ''server'' load_server root = Inl undefined_cast" for root
      by (rule if_object_bad [OF o bad_object [OF b]]) (rule load_server_bad [OF bad_object [OF b] b])
    then show ?thesis by simp
  next
    case leveldb
    then have b: "\<not> float_ok (json_path (json_path js [''leveldb'']) [q])"
      using bad path [of "''leveldb''" "[q]"] by simp
    have "load_leveldb (json_path js [''leveldb'']) root = Inl undefined_cast" for root
      by (rule load_leveldb_bad [OF bad_object [OF b]]) (use b leveldb(2) in auto)
    then have "if_object js ''leveldb'' load_leveldb root = Inl undefined_cast" for root
      by (rule if_object_bad [OF o bad_object [OF b]])
    then show ?thesis by simp
  next
    case slaveof
    let ?r = "json_path js [''replication'']"
    have b: "\<not> float_ok (json_path ?r [''slaveof'', ''port''])"
      using bad slaveof path [of "''replication''" "[''slaveof'', ''port'']"] by (simp only:) simp
    note r = bad_object [OF b]
    have b': "\<not> float_ok (json_path (json_path ?r [''slaveof'']) [''port''])"
      using b json_path_Cons [OF r, of "''slaveof''" "[''port'']"] by simp
    have "if_object ?r ''slaveof'' load_slaveof root = Inl undefined_cast" for root
      by (rule if_object_bad [OF r bad_object [OF b']]) (rule load_slaveof_bad [OF bad_object [OF b'] b'])
    then have "if_object js ''replication'' (\<lambda>rp. if_object rp ''slaveof'' load_slaveof) root = Inl undefined_cast" for root
      by (rule if_object_bad [OF o r])
    then show ?thesis by simp
  qed
  then have "bind_res (if_object js ''server'' load_server root) (\<lambda>root.
      bind_res (if_object js ''leveldb'' load_leveldb root) (\<lambda>root.
      if_object js ''replication'' (\<lambda>rp. if_object rp ''slaveof'' load_slaveof) root)) = Inl undefined_cast" for root
  proof (elim disjE)
    assume *: "\<forall>root. if_object js ''leveldb'' load_leveldb root = Inl undefined_cast"
    show ?thesis
    proof (rule bind_res_bad [OF if_object_cases [OF o load_sections_cases(1)]])
      fix c
      have "if_object js ''leveldb'' load_leveldb c = Inl undefined_cast" by (rule * [rule_format])
      then show "bind_res (if_object js ''leveldb'' load_leveldb c) (\<lambda>root.
          if_object js ''replication'' (\<lambda>rp. if_object rp ''slaveof'' load_slaveof) root) = Inl undefined_cast"
        by (simp only: bind_res.simps)
    qed
  next
    assume *: "\<forall>root. if_object js ''replication'' (\<lambda>rp. if_object rp ''slaveof'' load_slaveof) root = Inl undefined_cast"
    have "bind_res (if_object js ''leveldb'' load_leveldb root) (\<lambda>root.
        if_object js ''replication'' (\<lambda>rp. if_object rp ''slaveof'' load_slaveof) root) = Inl undefined_cast" for root
    proof (rule bind_res_bad [OF if_object_cases [OF o load_sections_cases(2)]])
      show "if_object js ''replication'' (\<lambda>rp. if_object rp ''slaveof'' load_slaveof) c = Inl undefined_cast" for c
        by (rule * [rule_format])
    qed
    note rest = this
    show ?thesis
    proof (rule bind_res_bad [OF if_object_cases [OF o load_sections_cases(1)]])
      show "bind_res (if_object js ''leveldb'' load_leveldb c) (\<lambda>root.
        if_object js ''replication'' (\<lambda>rp. if_object rp ''slaveof'' load_slaveof) root) = Inl undefined_cast" for c
        by (rule rest)
    qed
  qed (simp only: bind_res.simps)
  then show ?thesis
    unfolding js_def [symmetric] Config_load_def if_string_object [OF o] bind_res.simps .
qed

section \<open>Properties\<close>

text \<open>
  Loading a configuration object yields, for every setting, the value at its path when
  it has the expected type (numbers converted to 32 bits) and the documented default
  otherwise; sections of another type are ignored and no exception is raised.  The only
  condition is that floating-point settings fit an \<open>int\<close>.
\<close>

theorem config_load_settings:
  assumes "\<forall>p \<in> set number_paths. float_ok (json_path (JObject obj) p)"
  shows "Config_load (JObject obj) = Inr (settings (JObject obj))"
proof -
  define js where "js = JObject obj"
  have o: "is_object js" by (simp add: js_def)
  note path = json_path_Cons [OF o]
  have "if_object js ''server'' load_server root =
      Inr (root\<lparr>ip := str_or (ip root) (json_path js [''server'', ''ip'']),
                port := int_or (port root) (json_path js [''server'', ''port''])\<rparr>)" for root
    using assms
    by (cases "is_object (json_path js [''server''])")
      (simp_all add: if_object_object o load_server_object path [of "''server''" "_ # _"]
        number_paths_def flip: js_def)
  moreover have "if_object js ''leveldb'' load_leveldb root =
      Inr (root\<lparr>cache_size := int_or (cache_size root) (json_path js [''leveldb'', ''cache_size'']),
                block_size := int_or (block_size root) (json_path js [''leveldb'', ''block_size'']),
                write_buffer_size :=
                  int_or (write_buffer_size root) (json_path js [''leveldb'', ''write_buffer_size'']),
                compression := str_or (compression root) (json_path js [''leveldb'', ''compression''])\<rparr>)"
    for root
    using assms
    by (cases "is_object (json_path js [''leveldb''])")
      (simp_all add: if_object_object o load_leveldb_object path [of "''leveldb''" "_ # _"]
        number_paths_def flip: js_def)
  moreover have "if_object js ''replication'' (\<lambda>rp. if_object rp ''slaveof'' load_slaveof) root =
      Inr (root\<lparr>master_port := int_or (master_port root) (json_path js [''replication'', ''slaveof'', ''port'']),
                master_ip := str_or (master_ip root) (json_path js [''replication'', ''slaveof'', ''ip''])\<rparr>)"
    for root
    using assms
    by (cases "is_object (json_path js [''replication''])";
        cases "is_object (json_path (json_path js [''replication'']) [''slaveof''])")
      (simp_all add: if_object_object o load_slaveof_object path [of "''replication''" "_ # _"]
        json_path_Cons [of "json_path js [''replication'']" "''slaveof''" "_ # _"]
        number_paths_def flip: js_def)
  ultimately show ?thesis
    unfolding js_def [symmetric]
    by (simp add: Config_load_def if_string_object o settings_def Config_new_def
        str_or_default str_or_string [of _ "''ssdb/data''"] str_or_string [of _ "''ssdb/meta''"])
qed

theorem config_load_settings_witness:
  "Config_load (JObject [(''server'', JObject [(''port'', JFloat 5 (- 1))])]) =
     Inr (Config_new\<lparr>port := 2\<rparr>)"
  by (subst config_load_settings)
    (simp_all add: number_paths_def settings_def Config_new_def trunc_float_def fits32_def)

text \<open>
  A document that is neither an object nor null makes \<open>load\<close> raise \<open>domain_error\<close>
  before any setting is read, and the null document gives the defaults.
\<close>

theorem config_load_top_level:
  "Config_load (JArray xs) = Inl domain_error \<and> Config_load (JString s) = Inl domain_error \<and>
   Config_load (JBool b) = Inl domain_error \<and> Config_load (JInt i) = Inl domain_error \<and>
   Config_load (JUnsigned n) = Inl domain_error \<and> Config_load (JFloat m e) = Inl domain_error \<and>
   Config_load JNull = Inr Config_new"
  by (simp add: Config_load_def if_string_def if_object_def)

end
