(* ===== verification/Json_Token.thy ===== *)
theory Json_Token
  imports Json_Grammar Config_Load
begin

text \<open>
  Model of the token values of src/ssdb/src/util/json.hpp (\<open>get_string\<close>, \<open>to_unicode\<close> and
  \<open>get_number\<close> of class \<open>lexer\<close>).  An exception is \<^term>\<open>Inl\<close> with its text, a read outside
  the buffer is \<^term>\<open>None\<close>.  The conversion of a number text to a double (\<open>strtod\<close>) is a
  parameter: a finite result is its mantissa and binary exponent, an infinite one is
  \<^term>\<open>None\<close>.

  The theory proves that \<open>get_string\<close> decodes the body of a string token character by
  character, that the result is well-formed UTF-8, and that integers are in range.
\<close>

section \<open>Token values\<close>

datatype parse_exn = invalid_argument bytes | out_of_range bytes

abbreviation surrogate_high :: "nat \<Rightarrow> bool" where
  "surrogate_high cp \<equiv> 0xD800 \<le> cp \<and> cp \<le> 0xDBFF"

abbreviation surrogate_low :: "nat \<Rightarrow> bool" where
  "surrogate_low cp \<equiv> 0xDC00 \<le> cp \<and> cp \<le> 0xDFFF"

definition encode_utf8 :: "nat \<Rightarrow> parse_exn + bytes" where
  "encode_utf8 codepoint =
     (if codepoint < 0x80 then Inr [char_of codepoint]
      else if codepoint \<le> 0x7ff
      then Inr [char_of (0xC0 OR (drop_bit 6 codepoint AND 0x1F)), char_of (0x80 OR (codepoint AND 0x3F))]
      else if codepoint \<le> 0xffff
      then Inr [char_of (0xE0 OR (drop_bit 12 codepoint AND 0x0F)),
                char_of (0x80 OR (drop_bit 6 codepoint AND 0x3F)), char_of (0x80 OR (codepoint AND 0x3F))]
      else if codepoint \<le> 0x10ffff
      then Inr [char_of (0xF0 OR (drop_bit 18 codepoint AND 0x07)),
                char_of (0x80 OR (drop_bit 12 codepoint AND 0x3F)),
                char_of (0x80 OR (drop_bit 6 codepoint AND 0x3F)), char_of (0x80 OR (codepoint AND 0x3F))]
      else Inl (out_of_range ''code points above 0x10FFFF are invalid''))"

definition to_unicode :: "nat \<Rightarrow> nat \<Rightarrow> parse_exn + bytes" where
  "to_unicode codepoint1 codepoint2 =
     (if surrogate_high codepoint1
      then if surrogate_low codepoint2
           then encode_utf8 (push_bit 10 codepoint1 + codepoint2 - 0x35FDC00)
           else Inl (invalid_argument ''missing or wrong low surrogate'')
      else encode_utf8 codepoint1)"

text \<open>\<open>strtoul\<close> with base 16 of four characters, on hexadecimal digits.\<close>

definition hex_value :: "char \<Rightarrow> nat" where
  "hex_value c = (if within 48 57 c then of_char c - 48
                  else if within 65 70 c then of_char c - 55 else of_char c - 87)"

definition strtoul_hex4 :: "bytes \<Rightarrow> nat option" where
  "strtoul_hex4 s =
     (if length s = 4 \<and> list_all hexadecimal s
      then Some (foldl (\<lambda>n c. 16 * n + hex_value c) 0 s) else None)"

definition char_at :: "lexer \<Rightarrow> nat \<Rightarrow> char option" where
  "char_at l i = (if i < length (m_content l) then Some (m_content l ! i) else None)"

definition hex_at :: "lexer \<Rightarrow> nat \<Rightarrow> nat option" where
  "hex_at l i = strtoul_hex4 (take 4 (drop i (m_content l)))"

definition simple_escapes :: "(char \<times> char) list" where
  "simple_escapes =
    [(CHR ''t'', CHR 0x09), (CHR ''b'', CHR 0x08), (CHR ''f'', CHR 0x0C), (CHR ''n'', LF),
     (CHR ''r'', CR), (CHR 0x5C, CHR 0x5C), (CHR ''/'', CHR ''/''), (CHR 0x22, CHR 0x22)]"

text \<open>
  The loop of \<open>lexer::get_string\<close> at position \<open>i\<close>: the run up to the next backslash is copied;
  at a backslash, \<open>j\<close> is the position of the character behind it.
\<close>

function get_string_from :: "lexer \<Rightarrow> nat \<Rightarrow> bytes \<Rightarrow> (parse_exn + bytes) option" where
  "get_string_from l i result =
     (if \<not> i < m_cursor l - 1 then Some (Inr result)
      else
        let e = i + length (takeWhile (\<lambda>c. c \<noteq> CHR 0x5C) (take (m_cursor l - 1 - i) (drop i (m_content l))))
        in if e \<noteq> i then get_string_from l e (result @ take (e - i) (drop i (m_content l)))
           else
             let j = Suc i
             in case char_at l j of
                  None \<Rightarrow> None
                | Some c \<Rightarrow>
                    (case map_of simple_escapes c of
                       Some d \<Rightarrow> get_string_from l (Suc j) (result @ [d])
                     | None \<Rightarrow>
                         if c \<noteq> CHR ''u'' then get_string_from l (Suc j) result
                         else
                           (case hex_at l (j + 1) of
                              None \<Rightarrow> None
                            | Some codepoint \<Rightarrow>
                                if surrogate_high codepoint
                                then
                                  if m_limit l \<le> j + 6 \<or> char_at l (j + 5) \<noteq> Some (CHR 0x5C) \<or>
                                     char_at l (j + 6) \<noteq> Some (CHR ''u'')
                                  then Some (Inl (invalid_argument ''missing low surrogate''))
                                  else
                                    (case hex_at l (j + 7) of
                                       None \<Rightarrow> None
                                     | Some codepoint2 \<Rightarrow>
                                         (case to_unicode codepoint codepoint2 of
                                            Inl x \<Rightarrow> Some (Inl x)
                                          | Inr u \<Rightarrow> get_string_from l (j + 11) (result @ u)))
                                else if surrogate_low codepoint
                                then Some (Inl (invalid_argument ''missing high surrogate''))
                                else
                                  (case to_unicode codepoint 0 of
                                     Inl x \<Rightarrow> Some (Inl x)
                                   | Inr u \<Rightarrow> get_string_from l (j + 5) (result @ u)))))"
  by pat_completeness auto
termination
  by (relation "measure (\<lambda>(l, i, r). m_cursor l - i)") (auto intro!: diff_less_mono2)

declare get_string_from.simps [simp del]

text \<open>\<open>get_string\<close>, with its assertion that the token has at least its two quotes.\<close>

definition token_get_string :: "lexer \<Rightarrow> (parse_exn + bytes) option" where
  "token_get_string l = (if m_cursor l < m_start l + 2 then None else get_string_from l (m_start l + 1) [])"

text \<open>
  \<open>get_number\<close>: the loop over the characters of the token, and the result.  Its assertions are that
  \<open>m_start\<close> is not null and that a negative value is not above the maximum; that the value is not
  negative holds for every unsigned number.
\<close>

datatype number_type = number_integer | number_unsigned | number_float

fun number_loop :: "nat \<Rightarrow> bytes \<Rightarrow> number_type \<Rightarrow> nat \<Rightarrow> number_type \<times> nat" where
  "number_loop mx [] ty v = (ty, v)"
| "number_loop mx (c # cs) ty v =
     (if c < CHR ''0'' \<or> CHR ''9'' < c
      then if c = CHR ''.'' then number_loop mx cs number_float v else (number_float, v)
      else if ty \<noteq> number_float
      then let digit = of_char c - of_char (CHR ''0'')
           in if (mx - digit) div 10 < v then number_loop mx cs number_float v
              else number_loop mx cs ty (v * 10 + digit)
      else number_loop mx cs ty v)"

definition get_number :: "(bytes \<Rightarrow> (int \<times> int) option) \<Rightarrow> lexer \<Rightarrow> json option" where
  "get_number strtod l =
     (if m_null l then None
      else
        let token = token_text l;
            negative = (take 1 token = ''-'');
            mx = (if negative then 2 ^ 63 else 2 ^ 64 - 1);
            (ty, value) = (if negative then number_loop mx (drop 1 token) number_integer 0
                           else number_loop mx token number_unsigned 0)
        in case ty of
             number_unsigned \<Rightarrow> Some (JUnsigned value)
           | number_integer \<Rightarrow>
               if mx < value then None
               else Some (JInt (if value = mx then - (2 ^ 63) else - int value))
           | number_float \<Rightarrow>
               Some (case strtod (drop (m_start l) (m_content l)) of Some (m, e) \<Rightarrow> JFloat m e | None \<Rightarrow> JNull))"

section \<open>Strings decode\<close>

text \<open>
  The value of a string body, by its characters: escapes are replaced, everything else is
  copied; the closing quote ends it.
\<close>

lemma char_len_Some_pos [simp]: "char_len s = Some n \<Longrightarrow> 0 < n"
  using char_len_pos by blast

function decode :: "bytes \<Rightarrow> bytes \<Rightarrow> parse_exn + bytes" where
  "decode acc s =
     (case char_len s of
        None \<Rightarrow> Inr acc
      | Some n \<Rightarrow>
          if hd s \<noteq> CHR 0x5C then decode (acc @ take n s) (drop n s)
          else case map_of simple_escapes (s ! 1) of
            Some d \<Rightarrow> decode (acc @ [d]) (drop 2 s)
          | None \<Rightarrow>
              let cp = the (strtoul_hex4 (take 4 (drop 2 s)))
              in if surrogate_high cp
                 then if prefix_of [CHR 0x5C, CHR ''u''] (drop 6 s)
                      then case to_unicode cp (the (strtoul_hex4 (take 4 (drop 8 s)))) of
                          Inl x \<Rightarrow> Inl x | Inr u \<Rightarrow> decode (acc @ u) (drop 12 s)
                      else Inl (invalid_argument ''missing low surrogate'')
                 else if surrogate_low cp then Inl (invalid_argument ''missing high surrogate'')
                 else case to_unicode cp 0 of Inl x \<Rightarrow> Inl x | Inr u \<Rightarrow> decode (acc @ u) (drop 6 s))"
  by pat_completeness auto
termination
  by (relation "measure (length \<circ> snd)") (auto dest: char_len_pos)

declare decode.simps [simp del]

lemma simple_escapes_iff: "(\<exists>d. map_of simple_escapes c = Some d) \<longleftrightarrow> simple_escape c"
proof -
  have "set [CHR 0x22, CHR 0x5C, CHR ''/'', CHR ''b'', CHR ''f'', CHR ''n'', CHR ''r'', CHR ''t''] =
      fst ` set simple_escapes"
    unfolding simple_escapes_def by auto
  then have "simple_escape c \<longleftrightarrow> c \<in> fst ` set simple_escapes" by (simp only: one_of_def)
  also have "\<dots> \<longleftrightarrow> map_of simple_escapes c \<noteq> None" by (simp only: map_of_eq_None_iff not_not)
  also have "\<dots> \<longleftrightarrow> (\<exists>d. map_of simple_escapes c = Some d)" by (rule not_None_eq)
  finally show ?thesis ..
qed

lemma str_len_char:
  assumes "str_len s = Some k" "\<not> matches [one_of [CHR 0x22]] s"
  obtains n where "char_len s = Some n" "str_len (drop n s) = Some (k - n)" "n < k"
proof -
  have "(case char_len s of None \<Rightarrow> None | Some n \<Rightarrow> map_option ((+) n) (str_len (drop n s))) = Some k"
    using assms str_len.simps [of s] by (simp del: matches.simps)
  then obtain n m where nm: "char_len s = Some n" "str_len (drop n s) = Some m" "k = n + m"
    by (auto split: option.splits)
  have "m = k - n" "n < k" using str_len_bounds [OF nm(2)] nm(3) by auto
  then show thesis using nm(1,2) by (intro that) simp_all
qed

lemma char_len_plain:
  assumes "char_len s = Some n" "hd s \<noteq> CHR 0x5C"
  shows "CHR 0x5C \<notin> set (take n s)" "n \<le> length s"
proof -
  obtain c r where s: "s = c # r" using assms char_len_pos by (cases s) auto
  obtain f where f: "f \<in> set char_forms" "matches f s" "n = length f"
    using assms(1) unfolding char_len_def find_Some_iff map_option_eq_Some by (metis nth_mem)
  show "n \<le> length s" using matches_length [OF f(2)] f(3) by simp
  have "list_all (\<lambda>f. (\<exists>ps. f = one_of [CHR 0x5C] # ps) \<or> list_all (\<lambda>p. \<not> p (CHR 0x5C)) f) char_forms"
    by (simp add: char_forms_def one_of_def within_def)
  then consider ps where "f = one_of [CHR 0x5C] # ps" | "list_all (\<lambda>p. \<not> p (CHR 0x5C)) f"
    using f(1) unfolding list_all_iff by blast
  then show "CHR 0x5C \<notin> set (take n s)"
  proof cases
    case 1
    with f(2) assms(2) s show ?thesis by (simp add: one_of_def)
  next
    case 2
    with f(2) show ?thesis unfolding f(3) by (induction f s rule: matches.induct) auto
  qed
qed

lemma takeWhile_take_append:
  "x \<notin> set (take n s) \<Longrightarrow> n \<le> m \<Longrightarrow>
     takeWhile (\<lambda>c. c \<noteq> x) (take m s) = take n s @ takeWhile (\<lambda>c. c \<noteq> x) (take (m - n) (drop n s))"
proof -
  assume *: "x \<notin> set (take n s)" "n \<le> m"
  have "take m s = take n s @ take (m - n) (drop n s)"
    using take_add [of n "m - n" s] *(2) by simp
  moreover have "takeWhile (\<lambda>c. c \<noteq> x) (take n s @ ys) = take n s @ takeWhile (\<lambda>c. c \<noteq> x) ys" for ys
    using *(1) by (intro takeWhile_append2) auto
  ultimately show ?thesis by simp
qed

text \<open>The run of characters up to a backslash or the closing quote.\<close>

lemma decode_run:
  assumes "str_len s = Some k" "j = length (takeWhile (\<lambda>c. c \<noteq> CHR 0x5C) (take (k - 1) s))"
  shows "str_len (drop j s) = Some (k - j) \<and> j < k \<and> decode acc s = decode (acc @ take j s) (drop j s)"
  using assms
proof (induction k arbitrary: s j acc rule: less_induct)
  case (less k)
  show ?case
  proof (cases "matches [one_of [CHR 0x22]] s \<or> hd s = CHR 0x5C")
    case True
    have "0 < k" "s \<noteq> []" using str_len_bounds [OF less(2)] by auto
    moreover have "j = 0"
      using True less(2,3) \<open>s \<noteq> []\<close> by (cases s; cases "k - 1") (auto simp: str_len.simps one_of_def)
    ultimately show ?thesis using less(2) by simp
  next
    case False
    then obtain n where n: "char_len s = Some n" "str_len (drop n s) = Some (k - n)" "n < k"
      using str_len_char less(2) by metis
    note plain = char_len_plain [OF n(1)]
    let ?j = "length (takeWhile (\<lambda>c. c \<noteq> CHR 0x5C) (take (k - n - 1) (drop n s)))"
    have j: "j = n + ?j"
      using takeWhile_take_append [of "CHR 0x5C" n s "k - 1"] plain False n(3) less(3) by simp
    have IH: "str_len (drop ?j (drop n s)) = Some (k - n - ?j) \<and> ?j < k - n \<and>
        decode (acc @ take n s) (drop n s) = decode ((acc @ take n s) @ take ?j (drop n s)) (drop ?j (drop n s))"
      using n char_len_Some_pos [OF n(1)] by (intro less(1)) simp_all
    have "decode acc s = decode (acc @ take n s) (drop n s)"
      using n(1) False by (subst decode.simps) simp
    with IH n(3) show ?thesis by (auto simp: j take_add add.commute)
  qed
qed

lemma hex4_value:
  "matches [hexadecimal, hexadecimal, hexadecimal, hexadecimal] r \<Longrightarrow>
     strtoul_hex4 (take 4 r) = Some (the (strtoul_hex4 (take 4 r)))"
  by (cases r; cases "tl r"; cases "tl (tl r)"; cases "tl (tl (tl r))") (auto simp: strtoul_hex4_def)

lemma escape_cases:
  assumes "char_len s = Some n" "hd s = CHR 0x5C"
  obtains (simple) e r where "s = CHR 0x5C # e # r" "n = 2" "simple_escape e"
    | (hex) r where "s = CHR 0x5C # CHR ''u'' # r" "n = 6"
        "matches [hexadecimal, hexadecimal, hexadecimal, hexadecimal] r"
proof -
  obtain t where s: "s = CHR 0x5C # t" using assms char_len_pos by (cases s) auto
  then have len: "(if matches [simple_escape] t then Some 2
      else if matches [one_of ''u'', hexadecimal, hexadecimal, hexadecimal, hexadecimal] t then Some 6
      else None) = Some n"
    using assms(1) char_len_escape [of t] by simp
  show thesis
  proof (cases "matches [simple_escape] t")
    case True
    then obtain e r where "t = e # r" "simple_escape e" by (cases t) simp_all
    with s len that(1) show thesis by simp
  next
    case False
    with len have "n = 6" "matches [one_of ''u'', hexadecimal, hexadecimal, hexadecimal, hexadecimal] t"
      by (simp_all split: if_splits)
    then obtain r where "t = CHR ''u'' # r" "matches [hexadecimal, hexadecimal, hexadecimal, hexadecimal] r"
      by (cases t) (simp_all add: one_of_def)
    with s \<open>n = 6\<close> that(2) show thesis by simp
  qed
qed

lemma decode_simple:
  "simple_escape e \<Longrightarrow> map_of simple_escapes e = Some d \<Longrightarrow> decode acc (CHR 0x5C # e # r) = decode (acc @ [d]) r"
  by (subst decode.simps) (simp add: char_len_escape)

lemma not_simple_u [simp]: "map_of simple_escapes (CHR ''u'') = None"
  by (simp add: simple_escapes_def)

lemma decode_hex:
  assumes "matches [hexadecimal, hexadecimal, hexadecimal, hexadecimal] r" "cp = the (strtoul_hex4 (take 4 r))"
  shows "decode acc (CHR 0x5C # CHR ''u'' # r) =
    (if surrogate_high cp
     then if prefix_of [CHR 0x5C, CHR ''u''] (drop 4 r)
          then case to_unicode cp (the (strtoul_hex4 (take 4 (drop 6 r)))) of
              Inl x \<Rightarrow> Inl x | Inr u \<Rightarrow> decode (acc @ u) (drop 10 r)
          else Inl (invalid_argument ''missing low surrogate'')
     else if surrogate_low cp then Inl (invalid_argument ''missing high surrogate'')
     else case to_unicode cp 0 of Inl x \<Rightarrow> Inl x | Inr u \<Rightarrow> decode (acc @ u) (drop 4 r))"
proof -
  have "char_len (CHR 0x5C # CHR ''u'' # r) = Some 6"
    using assms(1) by (simp add: char_len_escape one_of_def)
  then show ?thesis
    using assms(2) by (subst decode.simps) (simp add: Let_def cong: sum.case_cong if_cong)
qed

lemma decode_quote: "matches [one_of [CHR 0x22]] s \<Longrightarrow> decode acc s = Inr acc"
proof -
  assume "matches [one_of [CHR 0x22]] s"
  then obtain r where "s = CHR 0x22 # r" by (cases s) (auto simp: one_of_def)
  moreover have "char_len (CHR 0x22 # r) = None" by (intro char_len_other) (simp_all add: within_def)
  ultimately show ?thesis by (subst decode.simps) simp
qed

lemma char_at_drop: "drop i (m_content l) = s \<Longrightarrow> char_at l (i + m) = (if m < length s then Some (s ! m) else None)"
  by (auto simp: char_at_def)

lemma hex_at_drop: "drop i (m_content l) = s \<Longrightarrow> hex_at l (i + m) = strtoul_hex4 (take 4 (drop m s))"
  by (auto simp: hex_at_def add.commute)

lemma get_string_from_run:
  assumes "i < m_cursor l - 1"
    "j = length (takeWhile (\<lambda>c. c \<noteq> CHR 0x5C) (take (m_cursor l - 1 - i) (drop i (m_content l))))" "0 < j"
  shows "get_string_from l i acc = get_string_from l (i + j) (acc @ take j (drop i (m_content l)))"
proof -
  have "i + j \<noteq> i" using assms(3) by simp
  then show ?thesis
    using assms(1)
    by (subst get_string_from.simps)
      (simp only: Let_def assms(2) [symmetric] not_not if_True if_False add_diff_cancel_left' not_True_eq_False not_False_eq_True)
qed

lemma get_string_from_simple:
  assumes "i < m_cursor l - 1"
    "takeWhile (\<lambda>c. c \<noteq> CHR 0x5C) (take (m_cursor l - 1 - i) (drop i (m_content l))) = []"
    "char_at l (Suc i) = Some c" "map_of simple_escapes c = Some d"
  shows "get_string_from l i acc = get_string_from l (i + 2) (acc @ [d])"
  by (subst get_string_from.simps) (simp add: assms(1,2) [simplified] assms(3,4) Let_def)

lemma get_string_from_hex:
  assumes "i < m_cursor l - 1"
    "takeWhile (\<lambda>c. c \<noteq> CHR 0x5C) (take (m_cursor l - 1 - i) (drop i (m_content l))) = []"
    "char_at l (Suc i) = Some (CHR ''u'')" "hex_at l (i + 2) = Some cp"
  shows "get_string_from l i acc =
    (if surrogate_high cp
     then if m_limit l \<le> i + 7 \<or> char_at l (i + 6) \<noteq> Some (CHR 0x5C) \<or> char_at l (i + 7) \<noteq> Some (CHR ''u'')
          then Some (Inl (invalid_argument ''missing low surrogate''))
          else (case hex_at l (i + 8) of None \<Rightarrow> None
            | Some cp2 \<Rightarrow> (case to_unicode cp cp2 of
                Inl x \<Rightarrow> Some (Inl x) | Inr u \<Rightarrow> get_string_from l (i + 12) (acc @ u)))
     else if surrogate_low cp then Some (Inl (invalid_argument ''missing high surrogate''))
     else (case to_unicode cp 0 of Inl x \<Rightarrow> Some (Inl x) | Inr u \<Rightarrow> get_string_from l (i + 6) (acc @ u)))"
  using assms(4)
  by (subst get_string_from.simps) (simp add: assms(1,2) [simplified] assms(3) Let_def add.commute cong: sum.case_cong if_cong option.case_cong)

lemma prefix_of_two: "prefix_of [a, b] t \<longleftrightarrow> 1 < length t \<and> t ! 0 = a \<and> t ! 1 = b"
  by (cases t; cases "tl t") (auto simp: prefix_of_def one_of_def)

text \<open>\<open>get_string\<close> decodes a body that the scanner accepted, and reads only inside the buffer.\<close>

lemma get_string_from_decode:
  assumes "str_len (drop i (m_content l)) = Some k" "i + k = m_cursor l"
    "m_cursor l \<le> length (m_content l)" "m_limit l = length (m_content l)"
  shows "get_string_from l i acc = Some (decode acc (drop i (m_content l)))"
  using assms(1,2)
proof (induction k arbitrary: i acc rule: less_induct)
  case (less k)
  define s where "s = drop i (m_content l)"
  have len: "str_len s = Some k" using less(2) by (simp add: s_def)
  have k: "0 < k" "k \<le> length s" using str_len_bounds [OF len] by auto
  show ?case
  proof (cases "matches [one_of [CHR 0x22]] s")
    case True
    then have "k = 1" using len str_len.simps [of s] by (simp del: matches.simps)
    then have "\<not> i < m_cursor l - 1" using less(3) by simp
    then have "get_string_from l i acc = Some (Inr acc)"
      by (subst get_string_from.simps) (simp only: simp_thms if_True)
    with decode_quote [OF True, of acc] show ?thesis by (simp only: s_def)
  next
    case False
    then obtain n where n: "char_len s = Some n" "str_len (drop n s) = Some (k - n)" "n < k"
      using str_len_char [OF len] by metis
    have lt: "i < m_cursor l - 1" using n(3) char_len_Some_pos [OF n(1)] less(3) by simp
    have body: "take (m_cursor l - 1 - i) (drop i (m_content l)) = take (k - 1) s"
      by (simp add: s_def flip: less(3))
    define j where "j = length (takeWhile (\<lambda>c. c \<noteq> CHR 0x5C) (take (k - 1) s))"
    note run = decode_run [OF len j_def]
    show ?thesis
    proof (cases "hd s = CHR 0x5C")
      case False
      have "takeWhile (\<lambda>c. c \<noteq> CHR 0x5C) (take (k - 1) s) \<noteq> []"
        using takeWhile_take_append [of "CHR 0x5C" n s "k - 1"] char_len_plain [OF n(1) False] n(3)
          char_len_Some_pos [OF n(1)] k by auto
      then have j: "0 < j" by (simp add: j_def)
      have step: "get_string_from l i acc = get_string_from l (i + j) (acc @ take j s)"
        using get_string_from_run [OF lt _ j, of acc] by (simp only: body j_def s_def simp_thms)
      have "drop (i + j) (m_content l) = drop j s" by (simp add: s_def add.commute)
      moreover have "get_string_from l (i + j) (acc @ take j s) = Some (decode (acc @ take j s) (drop (i + j) (m_content l)))"
        using run [of acc] j less(3) calculation by (intro less(1) [of "k - j"]) simp_all
      ultimately show ?thesis using step run [of acc] by (simp add: s_def)
    next
      case True
      have "s \<noteq> []" using k by auto
      have j0: "takeWhile (\<lambda>c. c \<noteq> CHR 0x5C) (take (k - 1) s) = []"
        using True \<open>s \<noteq> []\<close> by (cases s; cases "k - 1") simp_all
      have tw: "takeWhile (\<lambda>c. c \<noteq> CHR 0x5C) (take (m_cursor l - 1 - i) (drop i (m_content l))) = []"
        unfolding body by (rule j0)
      note at = char_at_drop [OF s_def [symmetric]] and hex = hex_at_drop [OF s_def [symmetric]]
      have dr: "drop (i + m) (m_content l) = drop m s" for m by (simp add: s_def add.commute)
      show ?thesis
        using n(1) True
      proof (cases rule: escape_cases)
        case (simple e r)
        obtain d where d: "map_of simple_escapes e = Some d" using simple(3) simple_escapes_iff by blast
        have "get_string_from l i acc = get_string_from l (i + 2) (acc @ [d])"
          using at [of 1] simple(1) by (intro get_string_from_simple [OF lt tw _ d]) simp
        also have "\<dots> = Some (decode (acc @ [d]) r)"
          using less(1) [of "k - 2" "i + 2" "acc @ [d]"] n simple less(3) dr [of 2] by simp
        finally show ?thesis
          using decode_simple [OF simple(3) d, of acc r] simple(1) by (simp add: s_def)
      next
        case (hex r)
        define cp where "cp = the (strtoul_hex4 (take 4 r))"
        have cp: "hex_at l (i + 2) = Some cp"
          using hex_at_drop [OF s_def [symmetric], of 2] hex4_value [OF hex(3)] hex(1) by (simp add: cp_def)
        have u: "char_at l (Suc i) = Some (CHR ''u'')" using at [of 1] hex(1) by simp
        have dec: "decode acc (drop i (m_content l)) = decode acc (CHR 0x5C # CHR ''u'' # r)"
          using hex(1) by (simp add: s_def)
        have rest: "str_len (drop 4 r) = Some (k - 6)" using n(2) hex by simp
        have IH6: "get_string_from l (i + 6) acc' = Some (decode acc' (drop 4 r))" for acc'
          using less(1) [of "k - 6" "i + 6" acc'] n hex less(3) dr [of 6] by simp
        have second: "m_limit l \<le> i + 7 \<or> char_at l (i + 6) \<noteq> Some (CHR 0x5C) \<or> char_at l (i + 7) \<noteq> Some (CHR ''u'')
            \<longleftrightarrow> \<not> prefix_of [CHR 0x5C, CHR ''u''] (drop 4 r)"
          using at [of 6] at [of 7] hex(1) assms(4) arg_cong [OF s_def, of length]
          by (auto simp: prefix_of_two)
        show ?thesis
        proof (cases "prefix_of [CHR 0x5C, CHR ''u''] (drop 4 r)")
          case False
          then show ?thesis
            unfolding get_string_from_hex [OF lt tw u cp] second dec decode_hex [OF hex(3) cp_def]
            using IH6 by (simp split: sum.split)
        next
          case True
          then obtain r2 where r2: "drop 4 r = CHR 0x5C # CHR ''u'' # r2"
            by (cases "drop 4 r"; cases "tl (drop 4 r)") (auto simp: prefix_of_def one_of_def)
          obtain n2 where n2: "char_len (drop 4 r) = Some n2" "str_len (drop n2 (drop 4 r)) = Some (k - 6 - n2)" "n2 < k - 6"
            using str_len_char [OF rest] r2 by (auto simp: one_of_def)
          have "hd (drop 4 r) = CHR 0x5C" using r2 by simp
          with n2(1) have "n2 = 6 \<and> matches [hexadecimal, hexadecimal, hexadecimal, hexadecimal] r2"
            by (cases rule: escape_cases) (use r2 in \<open>auto simp: one_of_def\<close>)
          then have r2': "n2 = 6" "matches [hexadecimal, hexadecimal, hexadecimal, hexadecimal] r2" by simp_all
          have "drop 6 r = r2" using drop_drop [of 2 4 r] r2 by simp
          then have hex2: "hex_at l (i + 8) = Some (the (strtoul_hex4 (take 4 (drop 6 r))))"
            using hex_at_drop [OF s_def [symmetric], of 8] hex4_value [OF r2'(2)] hex(1) by simp
          have IH12: "get_string_from l (i + 12) acc' = Some (decode acc' (drop 10 r))" for acc'
            using less(1) [of "k - 12" "i + 12" acc'] n2 r2'(1) less(3) dr [of 12] hex(1) drop_drop [of 6 4 r] by simp
          show ?thesis
            unfolding get_string_from_hex [OF lt tw u cp] second dec decode_hex [OF hex(3) cp_def]
            using True IH6 IH12 by (simp add: hex2 split: sum.split)
        qed
      qed
    qed
  qed
qed

text \<open>Lengths and values of strings depend on the characters of the string only.\<close>

lemma matches_agree: "take (length ps) s = take (length ps) s' \<Longrightarrow> matches ps s = matches ps s'"
proof (induction ps arbitrary: s s')
  case (Cons p ps)
  show ?case
  proof (cases s)
    case Nil
    with Cons.prems show ?thesis by (cases s') simp_all
  next
    case s: (Cons c r)
    with Cons.prems obtain r' where s': "s' = c # r'" "take (length ps) r = take (length ps) r'"
      by (cases s') auto
    with Cons.IH [OF s'(2)] s show ?thesis by simp
  qed
qed simp

lemma char_len_agree:
  assumes "char_len s = Some n" "take n s' = take n s"
  shows "char_len s' = Some n"
proof -
  obtain c r where s: "s = c # r" using assms(1) char_len_pos by (cases s) auto
  obtain m where m: "n = Suc m" using char_len_Some_pos [OF assms(1)] by (cases n) simp_all
  obtain r' where s': "s' = c # r'" and r': "take m r' = take m r"
    using assms(2) s m by (cases s') auto
  have agree: "matches ps r' = matches ps r" if "length ps \<le> m" for ps
    using matches_agree [of ps r' r] r' that take_take [of "length ps" m r] take_take [of "length ps" m r'] by simp
  consider "c = CHR 0x5C" | "within 0x20 0x21 c" | "within 0x23 0x5B c" | "within 0x5D 0x7F c"
    | "within 0xC2 0xDF c" | "within 0xE0 0xE0 c" | "within 0xE1 0xEC c"
    | "within 0xED 0xED c" | "within 0xEE 0xEF c" | "within 0xF0 0xF0 c" | "within 0xF1 0xF3 c"
    | "within 0xF4 0xF4 c"
    using char_len_other [of c r] assms(1) s by auto
  then show ?thesis
  proof cases
    case 1
    then have len: "(if matches [simple_escape] r then Some 2
        else if matches [one_of ''u'', hexadecimal, hexadecimal, hexadecimal, hexadecimal] r then Some 6
        else None) = Some n"
      using assms(1) char_len_escape [of r] s by simp
    have first: "matches [simple_escape] r' = matches [simple_escape] r"
      using agree len m by (cases n) (auto split: if_splits simp del: matches.simps)
    show ?thesis
    proof (cases "matches [simple_escape] r")
      case True
      with len first show ?thesis unfolding s' 1 char_len_escape by simp
    next
      case False
      with len have "n = 6" "matches [one_of ''u'', hexadecimal, hexadecimal, hexadecimal, hexadecimal] r"
        by (simp_all split: if_splits del: matches.simps)
      with agree [of "[one_of ''u'', hexadecimal, hexadecimal, hexadecimal, hexadecimal]"] False first m
      show ?thesis unfolding s' 1 char_len_escape by (simp del: matches.simps)
    qed
  qed (use assms(1) agree m in \<open>simp_all add: s s' char_len_classes split: if_splits del: matches.simps\<close>)
qed

lemma str_len_agree:
  "str_len s = Some n \<Longrightarrow> take n s' = take n s \<Longrightarrow> str_len s' = Some n"
proof (induction n arbitrary: s s' rule: less_induct)
  case (less n)
  have n: "0 < n" "n \<le> length s" using str_len_bounds [OF less(2)] by auto
  show ?case
  proof (cases "matches [one_of [CHR 0x22]] s")
    case True
    then have "n = 1" using less(2) str_len.simps [of s] by (simp del: matches.simps)
    moreover have "matches [one_of [CHR 0x22]] s'"
      using True matches_agree [of "[one_of [CHR 0x22]]" s' s] less(3) calculation by simp
    ultimately show ?thesis using str_len.simps [of s'] by (simp del: matches.simps)
  next
    case False
    obtain k where k: "char_len s = Some k" "str_len (drop k s) = Some (n - k)" "k < n"
      using str_len_char [OF less(2) False] by metis
    have "take k s' = take k s" using less(3) k(3) by (metis min.absorb3 take_take)
    then have "char_len s' = Some k" using char_len_agree [OF k(1)] by simp
    moreover have "str_len (drop k s') = Some (n - k)"
      using less(1) [OF _ k(2)] char_len_Some_pos [OF k(1)] k(3) less(3) by (simp add: take_drop)
    moreover have "\<not> matches [one_of [CHR 0x22]] s'"
      using False matches_agree [of "[one_of [CHR 0x22]]" s' s] less(3) n
      by (metis One_nat_def Suc_le_eq length_Cons list.size(3) min.absorb_iff2 min.commute take_take)
    ultimately show ?thesis
      using str_len.simps [of s'] k(3) by (simp del: matches.simps)
  qed
qed

text \<open>A string token as the scanner leaves it: its value is the decoded body.\<close>

lemma token_get_string_body:
  assumes "lex_ok l" "token_text l = CHR 0x22 # take k r" "str_len r = Some k"
  shows "token_get_string l = Some (decode [] (take k r @ drop (m_cursor l) (m_content l)))"
proof -
  let ?s = "drop (m_start l + 1) (m_content l)"
  have k: "k \<le> length r" using str_len_bounds [OF assms(3)] by simp
  have bounds: "m_start l \<le> m_cursor l" "m_cursor l \<le> length (m_content l)" "m_limit l = length (m_content l)"
    using assms(1) by (auto simp: lex_ok_def)
  have len: "m_cursor l - m_start l = Suc k"
    using arg_cong [OF assms(2), of length] k bounds by (simp add: token_text_def)
  have "drop (m_start l) (m_content l) = token_text l @ drop (m_cursor l) (m_content l)"
    using bounds append_take_drop_id [of "m_cursor l - m_start l" "drop (m_start l) (m_content l)"]
    by (simp add: token_text_def)
  moreover have "?s = tl (drop (m_start l) (m_content l))" by (simp add: drop_Suc tl_drop)
  ultimately have s: "?s = take k r @ drop (m_cursor l) (m_content l)"
    by (simp only: assms(2)) simp
  have "str_len ?s = Some k" unfolding s using k by (intro str_len_agree [OF assms(3)]) simp
  then have "get_string_from l (m_start l + 1) [] = Some (decode [] ?s)"
    using bounds len le_add_diff_inverse [OF bounds(1)] by (intro get_string_from_decode) simp_all
  moreover have "\<not> m_cursor l < m_start l + 2" using len str_len_bounds [OF assms(3)] by arith
  ultimately show ?thesis unfolding s token_get_string_def by simp
qed

section \<open>Decoded strings are UTF-8\<close>

text \<open>Well-formed UTF-8.  A control character is a character of its own here.\<close>

function utf8_ok :: "bytes \<Rightarrow> bool" where
  "utf8_ok s =
     (if s = [] then True
      else if of_char (hd s) < (128 :: nat) then utf8_ok (tl s)
      else case char_len s of None \<Rightarrow> False | Some n \<Rightarrow> utf8_ok (drop n s))"
  by pat_completeness auto
termination
  by (relation "measure length") (auto dest: char_len_pos)

declare utf8_ok.simps [simp del]

lemma char_len_high:
  assumes "char_len s = Some n" "\<not> of_char (hd s) < (128 :: nat)"
  shows "\<forall>c \<in> set (take n s). \<not> of_char c < (128 :: nat)" "n \<le> length s"
proof -
  obtain c r where s: "s = c # r" using assms char_len_pos by (cases s) auto
  obtain f where f: "f \<in> set char_forms" "matches f s" "n = length f"
    using assms(1) unfolding char_len_def find_Some_iff map_option_eq_Some by (metis nth_mem)
  show "n \<le> length s" using matches_length [OF f(2)] f(3) by simp
  have low: "\<forall>f \<in> set (take 5 char_forms). \<forall>c. hd f c \<longrightarrow> of_char c < (128 :: nat)"
    by (simp add: char_forms_def one_of_def within_def)
  have high: "\<forall>f \<in> set (drop 5 char_forms). \<forall>p \<in> set f. \<forall>c. p c \<longrightarrow> \<not> of_char c < (128 :: nat)"
    by (simp add: char_forms_def within_def)
  have "f \<in> set (take 5 char_forms) \<union> set (drop 5 char_forms)"
    using f(1) by (simp flip: set_append)
  moreover have "hd f c" using f(2,3) s char_len_Some_pos [OF assms(1)] by (cases f) simp_all
  ultimately have "\<forall>p \<in> set f. \<forall>c. p c \<longrightarrow> \<not> of_char c < (128 :: nat)"
    using low high assms(2) s by auto
  with f(2) show "\<forall>c \<in> set (take n s). \<not> of_char c < (128 :: nat)"
    unfolding f(3) by (induction f s rule: matches.induct) auto
qed

lemma utf8_ok_append: "utf8_ok s \<Longrightarrow> utf8_ok t \<Longrightarrow> utf8_ok (s @ t)"
proof (induction s rule: utf8_ok.induct)
  case (1 s)
  show ?case
  proof (cases "s = []")
    case s: False
    show ?thesis
    proof (cases "of_char (hd s) < (128 :: nat)")
      case True
      then show ?thesis using 1 s by (simp add: utf8_ok.simps [of s] utf8_ok.simps [of "s @ t"])
    next
      case False
      with 1(3) s obtain n where n: "char_len s = Some n" "utf8_ok (drop n s)"
        by (auto simp: utf8_ok.simps [of s] split: option.splits)
      have len: "n \<le> length s" using char_len_high(2) [OF n(1) False] .
      then have "char_len (s @ t) = Some n" by (intro char_len_agree [OF n(1)]) simp
      then show ?thesis
        using 1(2) [OF s False n 1(4)] len s False by (simp add: utf8_ok.simps [of "s @ t"])
    qed
  qed (use 1 in simp)
qed

lemma utf8_ok_Nil [simp]: "utf8_ok []"
  by (simp add: utf8_ok.simps)

lemma utf8_ok_ascii: "of_char c < (128 :: nat) \<Longrightarrow> utf8_ok [c]"
  by (simp add: utf8_ok.simps)

lemma utf8_ok_char:
  assumes "char_len s = Some n" "hd s \<noteq> CHR 0x5C"
  shows "utf8_ok (take n s)"
proof (cases "of_char (hd s) < (128 :: nat)")
  case True
  obtain c r where s: "s = c # r" using char_len_pos [OF assms(1)] by (cases s) auto
  have "plain c"
    using char_len_other [of c r] assms True s by (fastforce simp: within_def)
  then have "n = 1" using assms(1) s char_len_classes(1-3) [of c r] by auto
  with True s show ?thesis by (simp add: utf8_ok_ascii)
next
  case False
  have "char_len (take n s) = Some n" by (rule char_len_agree [OF assms(1)]) simp
  moreover have "take n s \<noteq> []" "hd (take n s) = hd s"
    using char_len_pos [OF assms(1)] by (cases n; cases s; simp)+
  ultimately show ?thesis using False by (simp add: utf8_ok.simps [of "take n s"])
qed

text \<open>The bytes of \<open>encode_utf8\<close> as numbers.\<close>

lemma and_mask_mod:
  "n AND 0x3F = n mod (64 :: nat)" "n AND 0x1F = n mod (32 :: nat)" "n AND 0x0F = n mod (16 :: nat)"
  "n AND 0x07 = n mod (8 :: nat)"
proof -
  have "n AND mask k = n mod 2 ^ k" for k by (simp add: take_bit_eq_mod flip: take_bit_eq_mask)
  from this [of 6] this [of 5] this [of 4] this [of 3] show
    "n AND 0x3F = n mod (64 :: nat)" "n AND 0x1F = n mod (32 :: nat)" "n AND 0x0F = n mod (16 :: nat)"
    "n AND 0x07 = n mod (8 :: nat)"
    by (simp_all add: mask_eq_exp_minus_1)
qed

lemma or_prefix_table:
  "list_all (\<lambda>n. 0x80 OR n = 0x80 + n) [0 ..< 64]" "list_all (\<lambda>n. 0xC0 OR n = 0xC0 + n) [0 ..< 32]"
  "list_all (\<lambda>n. 0xE0 OR n = 0xE0 + n) [0 ..< 16]" "list_all (\<lambda>n. 0xF0 OR n = 0xF0 + n) [0 ..< 8]"
  by code_simp+

lemma or_prefix:
  "0x80 OR (n mod 64) = 0x80 + n mod (64 :: nat)" "0xC0 OR (n mod 32) = 0xC0 + n mod (32 :: nat)"
  "0xE0 OR (n mod 16) = 0xE0 + n mod (16 :: nat)" "0xF0 OR (n mod 8) = 0xF0 + n mod (8 :: nat)"
  using or_prefix_table by (simp_all add: list_all_iff)

lemma of_char_byte: "n < 256 \<Longrightarrow> of_char (char_of n :: char) = (n :: nat)"
  by simp

lemma mod_block: "k * m \<le> n \<Longrightarrow> n < k * m + m \<Longrightarrow> n mod m = n - k * (m :: nat)"
  using mod_mult_self3 [of k m "n - k * m"] by simp

lemma three_byte_cases:
  assumes "0x800 \<le> cp" "cp \<le> 0xffff" "\<not> surrogate_high cp" "\<not> surrogate_low cp"
  obtains "cp div 4096 = 0" "32 \<le> cp div 64 mod 64" | "1 \<le> cp div 4096" "cp div 4096 \<le> 12"
    | "cp div 4096 = 13" "cp div 64 mod 64 \<le> 31" | "14 \<le> cp div 4096" "cp div 4096 \<le> 15"
proof -
  have "cp div 4096 \<le> 15" using assms(2) by linarith
  then consider "cp div 4096 = 0" | "1 \<le> cp div 4096" "cp div 4096 \<le> 12" | "cp div 4096 = 13"
    | "14 \<le> cp div 4096" "cp div 4096 \<le> 15"
    by linarith
  then show thesis
  proof cases
    case 1
    then have "32 \<le> cp div 64" "cp div 64 < 64" using assms(1) by linarith+
    with 1 that(1) show thesis by simp
  next
    case 3
    then have "53248 \<le> cp" "cp < 57344" by simp_all
    then have "53248 \<le> cp" "cp < 55296" using assms(3,4) by simp_all
    then have "832 \<le> cp div 64" "cp div 64 < 864" by (simp_all add: less_eq_div_iff_mult_less_eq div_less_iff_less_mult)
    with 3 that(3) mod_block [of 13 64 "cp div 64"] show thesis by simp
  qed (use that in simp_all)
qed

lemma four_byte_cases:
  fixes cp :: nat
  assumes "0x10000 \<le> cp" "cp \<le> 0x10ffff"
  obtains "cp div 262144 = 0" "16 \<le> cp div 4096 mod 64" | "1 \<le> cp div 262144" "cp div 262144 \<le> 3"
    | "cp div 262144 = 4" "cp div 4096 mod 64 \<le> 15"
proof -
  have "16 \<le> cp div 4096" "cp div 4096 < 272"
    using assms by (simp_all add: less_eq_div_iff_mult_less_eq div_less_iff_less_mult)
  moreover have "cp div 262144 \<le> 4" using assms(2) by linarith
  moreover have "cp div 262144 = cp div 4096 div 64" by (simp add: div_mult2_eq [symmetric])
  ultimately consider "cp div 262144 = 0" "16 \<le> cp div 4096" "cp div 4096 < 64" | "1 \<le> cp div 262144" "cp div 262144 \<le> 3"
    | "cp div 262144 = 4" "256 \<le> cp div 4096" "cp div 4096 < 272"
    by linarith
  then show thesis using that mod_block [of 4 64 "cp div 4096"] by cases simp_all
qed

lemma encode_utf8_char:
  assumes "encode_utf8 cp = Inr u" "\<not> surrogate_high cp" "\<not> surrogate_low cp" "0x80 \<le> cp"
  shows "char_len u = Some (length u) \<and> u \<noteq> [] \<and> \<not> of_char (hd u) < (128 :: nat)"
proof -
  have tail: "tail (char_of (0x80 + n mod 64))" for n :: nat
    using mod_less_divisor [of 64 n] by (simp add: within_def of_char_byte)
  consider "cp \<le> 0x7ff" | "0x800 \<le> cp" "cp \<le> 0xffff" | "0x10000 \<le> cp" "cp \<le> 0x10ffff"
    using assms(1) by (fastforce simp: encode_utf8_def split: if_splits)
  then show ?thesis
  proof cases
    case 1
    let ?c = "char_of (0xC0 + cp div 64 mod 32) :: char"
    have "u = [?c, char_of (0x80 + cp mod 64)]"
      using 1 assms(1,4) or_prefix(2) [of "cp div 64"]
      by (simp add: encode_utf8_def and_mask_mod or_prefix drop_bit_eq_div)
    moreover have "(of_char ?c :: nat) = 0xC0 + cp div 64 mod 32" by (rule of_char_byte) linarith
    then have "within 0xC2 0xDF ?c" "\<not> of_char ?c < (128 :: nat)" using 1 assms(4) by (auto simp: within_def)
    ultimately show ?thesis using tail by (simp add: char_len_classes)
  next
    case 2
    let ?c = "char_of (0xE0 + cp div 4096 mod 16) :: char" and ?d = "char_of (0x80 + cp div 64 mod 64) :: char"
    have u: "u = [?c, ?d, char_of (0x80 + cp mod 64)]"
      using 2 assms(1) or_prefix(3) [of "cp div 4096"]
      by (simp add: encode_utf8_def and_mask_mod or_prefix drop_bit_eq_div)
    have c: "(of_char ?c :: nat) = 0xE0 + cp div 4096 mod 16" by (rule of_char_byte) linarith
    have d: "(of_char ?d :: nat) = 0x80 + cp div 64 mod 64" by (rule of_char_byte) linarith
    have first: "\<not> of_char ?c < (128 :: nat)" unfolding c by simp
    consider "within 0xE0 0xE0 ?c" "within 0xA0 0xBF ?d" | "within 0xE1 0xEC ?c"
      | "within 0xED 0xED ?c" "within 0x80 0x9F ?d" | "within 0xEE 0xEF ?c"
      by (rule three_byte_cases [OF 2 assms(2,3)]) (simp_all only: within_def c d, simp_all)
    then show ?thesis using first tail unfolding u by cases (simp_all add: char_len_classes)
  next
    case 3
    let ?c = "char_of (0xF0 + cp div 262144 mod 8) :: char" and ?d = "char_of (0x80 + cp div 4096 mod 64) :: char"
    have u: "u = [?c, ?d, char_of (0x80 + cp div 64 mod 64), char_of (0x80 + cp mod 64)]"
      using 3 assms(1) or_prefix(4) [of "cp div 262144"]
      by (simp add: encode_utf8_def and_mask_mod or_prefix drop_bit_eq_div)
    have c: "(of_char ?c :: nat) = 0xF0 + cp div 262144 mod 8" by (rule of_char_byte) linarith
    have d: "(of_char ?d :: nat) = 0x80 + cp div 4096 mod 64" by (rule of_char_byte) linarith
    have first: "\<not> of_char ?c < (128 :: nat)" unfolding c by simp
    consider "within 0xF0 0xF0 ?c" "within 0x90 0xBF ?d" | "within 0xF1 0xF3 ?c" | "within 0xF4 0xF4 ?c" "within 0x80 0x8F ?d"
      by (rule four_byte_cases [OF 3]) (simp_all only: within_def c d, simp_all)
    then show ?thesis using first tail unfolding u by cases (simp_all add: char_len_classes)
  qed
qed

lemma encode_utf8_ok:
  assumes "encode_utf8 cp = Inr u" "\<not> surrogate_high cp" "\<not> surrogate_low cp"
  shows "utf8_ok u"
proof (cases "cp < 0x80")
  case True
  then show ?thesis using assms(1) by (auto simp: encode_utf8_def utf8_ok_ascii)
next
  case False
  then show ?thesis using encode_utf8_char [OF assms] by (simp add: utf8_ok.simps [of u])
qed

lemma to_unicode_ok: "to_unicode cp1 cp2 = Inr u \<Longrightarrow> \<not> surrogate_low cp1 \<Longrightarrow> utf8_ok u"
proof -
  assume *: "to_unicode cp1 cp2 = Inr u" "\<not> surrogate_low cp1"
  show "utf8_ok u"
  proof (cases "surrogate_high cp1")
    case True
    let ?cp = "push_bit 10 cp1 + cp2 - 0x35FDC00"
    have "0xDC00 \<le> cp2" "encode_utf8 ?cp = Inr u"
      using * True by (auto simp: to_unicode_def split: if_splits)
    moreover have "0x3600000 \<le> push_bit 10 cp1" using True by (simp add: push_bit_eq_mult)
    ultimately have cp: "encode_utf8 ?cp = Inr u" "0x10000 \<le> ?cp" by linarith+
    have "\<not> surrogate_high n \<and> \<not> surrogate_low n" if "0x10000 \<le> n" for n using that by linarith
    from this [OF cp(2)] cp(1) show ?thesis by (intro encode_utf8_ok) blast+
  next
    case False
    then show ?thesis using * by (intro encode_utf8_ok [of cp1]) (auto simp: to_unicode_def)
  qed
qed

lemma simple_escapes_ascii: "map_of simple_escapes c = Some d \<Longrightarrow> of_char d < (128 :: nat)"
proof -
  have "list_all (\<lambda>(c, d). of_char d < (128 :: nat)) simple_escapes" by (simp add: simple_escapes_def)
  then show "map_of simple_escapes c = Some d \<Longrightarrow> of_char d < (128 :: nat)"
    by (auto simp: list_all_iff dest: map_of_SomeD)
qed

lemma decode_utf8_ok: "decode acc s = Inr r \<Longrightarrow> utf8_ok acc \<Longrightarrow> utf8_ok r"
proof (induction acc s rule: decode.induct)
  case (1 acc s)
  note prems = 1(5) [unfolded decode.simps [of acc s]] and acc = 1(6)
  show ?case
  proof (cases "char_len s")
    case None
    then show ?thesis using prems acc by simp
  next
    case n: (Some n)
    show ?thesis
    proof (cases "hd s = CHR 0x5C")
      case False
      then show ?thesis using 1(1) [OF n False] prems n utf8_ok_append [OF acc utf8_ok_char [OF n False]] by simp
    next
      case hd: True
      show ?thesis
      proof (cases "map_of simple_escapes (s ! 1)")
        case (Some d)
        then show ?thesis
          using 1(4) [OF n _ Some] hd prems n utf8_ok_append [OF acc utf8_ok_ascii [OF simple_escapes_ascii [OF Some]]] by simp
      next
        case None
        let ?cp = "the (strtoul_hex4 (take 4 (drop 2 s)))"
        show ?thesis
        proof (cases "surrogate_high ?cp")
          case True
          then have "\<not> surrogate_low ?cp" by simp
          then show ?thesis
            using 1(2) [OF n _ None refl True] hd prems n None True
            by (auto simp: Let_def split: if_splits sum.splits dest!: to_unicode_ok intro: utf8_ok_append [OF acc])
        next
          case False
          then show ?thesis
            using 1(3) [OF n _ None refl False] hd prems n None
            by (auto simp: Let_def split: if_splits sum.splits dest!: to_unicode_ok intro: utf8_ok_append [OF acc])
        qed
      qed
    qed
  qed
qed

section \<open>Integers are in range\<close>

lemma number_loop_bound: "v \<le> mx \<Longrightarrow> 9 \<le> mx \<Longrightarrow> snd (number_loop mx cs ty v) \<le> mx"
proof (induction mx cs ty v rule: number_loop.induct)
  case (2 mx c cs ty v)
  have "v * 10 + (of_char c - of_char (CHR ''0'')) \<le> mx"
    if "\<not> (c < CHR ''0'' \<or> CHR ''9'' < c)" "\<not> (mx - (of_char c - of_char (CHR ''0''))) div 10 < v"
  proof -
    have "(of_char c :: nat) \<le> 57" using that(1) by (simp add: less_char_def)
    then have "(of_char c :: nat) - of_char (CHR ''0'') \<le> 9" by simp
    with that(2) 2(6) show ?thesis by linarith
  qed
  with 2 show ?case by (simp add: Let_def)
qed simp

lemma number_loop_type: "fst (number_loop mx cs ty v) \<in> {ty, number_float}"
proof (induction mx cs ty v rule: number_loop.induct)
  case (2 mx c cs ty v)
  then show ?case by (auto simp: Let_def)
qed simp

text \<open>The assertions hold, and integers are in range.\<close>

lemma get_number_ok:
  assumes "\<not> m_null l"
  shows "\<exists>js. get_number strtod l = Some js \<and> (\<forall>n. js = JUnsigned n \<longrightarrow> n < 2 ^ 64) \<and>
    (\<forall>i. js = JInt i \<longrightarrow> - (2 ^ 63) \<le> i \<and> i \<le> 0) \<and> js \<notin> range JString \<union> range JArray \<union> range JObject"
proof -
  define neg where "neg \<longleftrightarrow> take 1 (token_text l) = ''-''"
  define mx :: nat where "mx = (if neg then 2 ^ 63 else 2 ^ 64 - 1)"
  obtain ty v where loop: "(if neg then number_loop mx (drop 1 (token_text l)) number_integer 0
      else number_loop mx (token_text l) number_unsigned 0) = (ty, v)"
    by (metis surj_pair)
  have "9 \<le> mx" by (simp add: mx_def)
  then have "v \<le> mx" "ty = number_integer \<Longrightarrow> neg" "ty = number_unsigned \<Longrightarrow> \<not> neg"
    using loop number_loop_bound [of 0 mx "drop 1 (token_text l)" number_integer] number_loop_bound [of 0 mx "token_text l" number_unsigned]
      number_loop_type [of mx "drop 1 (token_text l)" number_integer 0] number_loop_type [of mx "token_text l" number_unsigned 0]
    by (auto split: if_splits)
  moreover have "get_number strtod l = (case ty of
       number_unsigned \<Rightarrow> Some (JUnsigned v)
     | number_integer \<Rightarrow> if mx < v then None else Some (JInt (if v = mx then - (2 ^ 63) else - int v))
     | number_float \<Rightarrow>
         Some (case strtod (drop (m_start l) (m_content l)) of Some (m, e) \<Rightarrow> JFloat m e | None \<Rightarrow> JNull))"
    using loop assms by (simp only: get_number_def Let_def prod.case if_False neg_def [symmetric] mx_def [symmetric])
  ultimately show ?thesis
    by (cases ty) (auto simp: mx_def split: option.splits)
qed

end
