(* ===== verification/Json_Parser.thy ===== *)
theory Json_Parser
  imports Json_Token
begin

text \<open>
  Model of the recursive descent of class \<open>parser\<close> of src/ssdb/src/util/json.hpp, without the
  callback, which no caller of the program passes, and of \<open>operator>>\<close>.  An exception is
  \<^term>\<open>Inl\<close> with its text; a read outside the buffer, and the end of the fuel, are
  \<^term>\<open>None\<close>.

  The loops over the members of an object and the elements of an array are two instances of the
  locale \<open>item_loop\<close>, the brackets around them of the locale \<open>container\<close>.  The theory proves
  that the parser returns for every text, a value or an exception, that fuel bounded by the
  length of the text is enough, and that a value it returns is well formed.
\<close>

section \<open>The parser\<close>

record parser =
  last_token :: token_type
  m_lexer :: lexer

type_synonym 'a parsing = "(parse_exn + 'a) option"

definition and_then :: "'a parsing \<Rightarrow> ('a \<Rightarrow> 'b parsing) \<Rightarrow> 'b parsing" where
  "and_then x f = (case x of None \<Rightarrow> None | Some (Inl e) \<Rightarrow> Some (Inl e) | Some (Inr a) \<Rightarrow> f a)"

fun token_type_name :: "token_type \<Rightarrow> bytes" where
  "token_type_name uninitialized = ''<uninitialized>''"
| "token_type_name literal_true = ''true literal''"
| "token_type_name literal_false = ''false literal''"
| "token_type_name literal_null = ''null literal''"
| "token_type_name value_string = ''string literal''"
| "token_type_name value_number = ''number literal''"
| "token_type_name begin_array = [CHR 0x27, CHR ''['', CHR 0x27]"
| "token_type_name begin_object = [CHR 0x27, CHR ''{'', CHR 0x27]"
| "token_type_name end_array = [CHR 0x27, CHR '']'', CHR 0x27]"
| "token_type_name end_object = [CHR 0x27, CHR ''}'', CHR 0x27]"
| "token_type_name name_separator = [CHR 0x27, CHR '':'', CHR 0x27]"
| "token_type_name value_separator = [CHR 0x27, CHR '','', CHR 0x27]"
| "token_type_name parse_error = ''<parse error>''"
| "token_type_name end_of_input = ''end of input''"

definition get_token :: "parser \<Rightarrow> parser parsing" where
  "get_token p = map_option (\<lambda>l. Inr (p\<lparr>last_token := last_token_type l, m_lexer := l\<rparr>)) (scan (m_lexer p))"

definition unexpected :: "parser \<Rightarrow> bytes option" where
  "unexpected p =
     map_option (\<lambda>name. ''parse error - unexpected '' @ name)
       (if last_token p = parse_error
        then map_option (\<lambda>s. [CHR 0x27] @ s @ [CHR 0x27]) (get_token_string (m_lexer p))
        else Some (token_type_name (last_token p)))"

definition expect :: "token_type \<Rightarrow> parser \<Rightarrow> unit parsing" where
  "expect t p =
     (if t \<noteq> last_token p
      then map_option (\<lambda>msg. Inl (invalid_argument (msg @ ''; expected '' @ token_type_name t))) (unexpected p)
      else Some (Inr ()))"

definition unexpect :: "token_type \<Rightarrow> parser \<Rightarrow> unit parsing" where
  "unexpect t p =
     (if t = last_token p then map_option (\<lambda>msg. Inl (invalid_argument msg)) (unexpected p) else Some (Inr ()))"

text \<open>\<open>result[key] = value\<close> on the object, a \<open>std::map\<close>: the keys stay in their byte order.\<close>

fun map_assign :: "bytes \<Rightarrow> 'v \<Rightarrow> (bytes \<times> 'v) list \<Rightarrow> (bytes \<times> 'v) list" where
  "map_assign k v [] = [(k, v)]"
| "map_assign k v ((k', v') # xs) =
     (if k < k' then (k, v) # (k', v') # xs
      else if k = k' then (k, v) # xs
      else (k', v') # map_assign k v xs)"

text \<open>The comma before a further member or element (the first statement of both loops).\<close>

definition skip_separator :: "parser \<Rightarrow> parser parsing" where
  "skip_separator p = (if last_token p = value_separator then get_token p else Some (Inr p))"

text \<open>
  \<open>parse_internal\<close> and its two loops \<open>do ... while (last_token == value_separator)\<close>; every call
  and every iteration costs one unit of fuel.
\<close>

fun parse_internal :: "(bytes \<Rightarrow> (int \<times> int) option) \<Rightarrow> nat \<Rightarrow> parser \<Rightarrow> (json \<times> parser) parsing"
and parse_members ::
  "(bytes \<Rightarrow> (int \<times> int) option) \<Rightarrow> nat \<Rightarrow> (bytes \<times> json) list \<Rightarrow> parser \<Rightarrow> (json \<times> parser) parsing"
and parse_elements ::
  "(bytes \<Rightarrow> (int \<times> int) option) \<Rightarrow> nat \<Rightarrow> json list \<Rightarrow> parser \<Rightarrow> (json \<times> parser) parsing" where
  "parse_internal strtod 0 p = None"
| "parse_internal strtod (Suc n) p =
     (case last_token p of
        begin_object \<Rightarrow>
          and_then (get_token p) (\<lambda>p.
          if last_token p = end_object then and_then (get_token p) (\<lambda>p. Some (Inr (JObject [], p)))
          else and_then (unexpect value_separator p) (\<lambda>_. parse_members strtod n [] p))
      | begin_array \<Rightarrow>
          and_then (get_token p) (\<lambda>p.
          if last_token p = end_array then and_then (get_token p) (\<lambda>p. Some (Inr (JArray [], p)))
          else and_then (unexpect value_separator p) (\<lambda>_. parse_elements strtod n [] p))
      | literal_null \<Rightarrow> and_then (get_token p) (\<lambda>p. Some (Inr (JNull, p)))
      | value_string \<Rightarrow>
          and_then (token_get_string (m_lexer p)) (\<lambda>s.
          and_then (get_token p) (\<lambda>p. Some (Inr (JString s, p))))
      | literal_true \<Rightarrow> and_then (get_token p) (\<lambda>p. Some (Inr (JBool True, p)))
      | literal_false \<Rightarrow> and_then (get_token p) (\<lambda>p. Some (Inr (JBool False, p)))
      | value_number \<Rightarrow>
          Option.bind (get_number strtod (m_lexer p)) (\<lambda>result.
          and_then (get_token p) (\<lambda>p. Some (Inr (result, p))))
      | t \<Rightarrow> and_then (unexpect t p) (\<lambda>_. Some (Inr (JNull, p))))"
| "parse_members strtod 0 result p = None"
| "parse_members strtod (Suc n) result p =
     and_then (skip_separator p) (\<lambda>p.
     and_then (expect value_string p) (\<lambda>_.
     and_then (token_get_string (m_lexer p)) (\<lambda>key.
     and_then (get_token p) (\<lambda>p.
     and_then (expect name_separator p) (\<lambda>_.
     and_then (get_token p) (\<lambda>p.
     and_then (parse_internal strtod n p) (\<lambda>(value, p).
     let result = map_assign key value result
     in if last_token p = value_separator then parse_members strtod n result p
        else and_then (expect end_object p) (\<lambda>_.
             and_then (get_token p) (\<lambda>p. Some (Inr (JObject result, p)))))))))))"
| "parse_elements strtod 0 result p = None"
| "parse_elements strtod (Suc n) result p =
     and_then (skip_separator p) (\<lambda>p.
     and_then (parse_internal strtod n p) (\<lambda>(value, p).
     let result = result @ [value]
     in if last_token p = value_separator then parse_elements strtod n result p
        else and_then (expect end_array p) (\<lambda>_.
             and_then (get_token p) (\<lambda>p. Some (Inr (JArray result, p))))))"

definition parse_with :: "(bytes \<Rightarrow> (int \<times> int) option) \<Rightarrow> nat \<Rightarrow> parser \<Rightarrow> json parsing" where
  "parse_with strtod fuel p =
     and_then (get_token p) (\<lambda>p.
     and_then (parse_internal strtod fuel p) (\<lambda>(result, p).
     and_then (expect end_of_input p) (\<lambda>_. Some (Inr result))))"

text \<open>
  \<open>operator>>\<close>: the parser on the stream.  The fuel is twice the length of the text, with some
  to spare for an empty text.
\<close>

definition parse_stream :: "(bytes \<Rightarrow> (int \<times> int) option) \<Rightarrow> bool \<Rightarrow> istream \<Rightarrow> json parsing" where
  "parse_stream strtod fail s =
     (case lexer_of_stream fail s of
        None \<Rightarrow> Some (Inl (invalid_argument ''stream error''))
      | Some None \<Rightarrow> None
      | Some (Some l) \<Rightarrow>
          parse_with strtod (2 * length (s_rest s) + 5) \<lparr>last_token = uninitialized, m_lexer = l\<rparr>)"

section \<open>Positions of the parser\<close>

definition front :: "bytes \<Rightarrow> bytes" where
  "front s = dropWhile white_space s"

definition tok :: "bytes \<Rightarrow> token_type" where
  "tok s = fst (token_at (front s))"

definition lexeme :: "bytes \<Rightarrow> bytes" where
  "lexeme s = take (snd (token_at (front s))) (front s)"

definition behind :: "bytes \<Rightarrow> bytes" where
  "behind s = drop (snd (token_at (front s))) (front s)"

text \<open>The parser has read the first token of the text \<open>s\<close>.\<close>

definition at_text :: "parser \<Rightarrow> bytes \<Rightarrow> bool" where
  "at_text p s \<longleftrightarrow> last_token p = tok s \<and> scanned (m_lexer p) (tok s) (lexeme s) (behind s)"

lemma tok_end: "tok s = end_of_input \<longleftrightarrow> front s = []"
  using token_at_bounds(3) [of "front s"] by (auto simp: tok_def token_at_def)

lemma behind_shorter: "tok s \<noteq> end_of_input \<Longrightarrow> length (front (behind s)) < length (front s)"
  using token_at_bounds(1,2) [of "front s"] length_dropWhile_le [of white_space "behind s"]
  unfolding tok_end front_def [of "behind s"] unfolding behind_def by fastforce

lemma get_token_start:
  assumes "lex_ok (m_lexer p)" "text_of (m_lexer p) = s"
  obtains p' where "get_token p = Some (Inr p')" "at_text p' s"
proof -
  obtain l where "scan (m_lexer p) = Some l" "scanned l (tok s) (lexeme s) (behind s)"
    using scan_token [OF assms(1) refl] assms(2) unfolding tok_def lexeme_def behind_def front_def by metis
  then show thesis
    by (intro that [of "p\<lparr>last_token := last_token_type l, m_lexer := l\<rparr>"])
      (simp_all add: get_token_def at_text_def scanned_def)
qed

lemma get_token_next:
  assumes "at_text p s" "tok s \<noteq> end_of_input"
  obtains p' where "get_token p = Some (Inr p')" "at_text p' (behind s)"
  using assms get_token_start [of p "behind s"] by (auto simp: at_text_def scanned_def)

lemma at_string:
  assumes "at_text p s" "tok s = value_string"
  obtains r k z where "front s = CHR 0x22 # r" "str_len r = Some k" "behind s = drop k r"
    "token_get_string (m_lexer p) = Some (decode [] (take k r @ z))"
proof -
  obtain c r where s: "front s = c # r" using assms(2) tok_end [of s] by (cases "front s") auto
  with assms(2) have *: "c = CHR 0x22" "fst (case str_len r of Some n \<Rightarrow> (value_string, 1 + n) | None \<Rightarrow> (parse_error, 1)) = value_string"
    by (simp_all add: tok_def token_at_Cons split: if_splits option.splits)
  then obtain k where k: "str_len r = Some k" by (cases "str_len r") simp_all
  with s * have snd: "snd (token_at (front s)) = Suc k" by (simp add: token_at_Cons)
  have "lex_ok (m_lexer p)" "token_text (m_lexer p) = CHR 0x22 # take k r"
    using assms snd s *(1) by (auto simp: at_text_def scanned_def lexeme_def)
  from token_get_string_body [OF this k] s *(1) k snd that show thesis
    by (simp add: behind_def)
qed

section \<open>The parser returns\<close>

abbreviation left :: "bytes \<Rightarrow> nat" where
  "left s \<equiv> length (front s)"

text \<open>
  A result; a value has the given property, and behind it the parser has fewer than \<open>m\<close>
  characters in front of it.
\<close>

definition returns :: "('a \<Rightarrow> bool) \<Rightarrow> ('a \<times> parser) parsing \<Rightarrow> nat \<Rightarrow> bool" where
  "returns P r m \<longleftrightarrow>
     (\<exists>x. r = Some x \<and> (\<forall>v p. x = Inr (v, p) \<longrightarrow> P v \<and> (\<exists>s. at_text p s \<and> left s < m)))"

lemma returns_error [simp]: "returns P (Some (Inl e)) m"
  by (simp add: returns_def)

lemma returns_mono: "returns P r m \<Longrightarrow> m \<le> m' \<Longrightarrow> returns P r m'"
  by (fastforce simp: returns_def)

lemma returns_value: "at_text p s \<Longrightarrow> left s < m \<Longrightarrow> P v \<Longrightarrow> returns P (Some (Inr (v, p))) m"
  by (auto simp: returns_def)

lemma and_then_simps [simp]:
  "and_then (Some (Inr a)) f = f a" "and_then (Some (Inl e)) f = Some (Inl e)" "and_then None f = None"
  by (simp_all add: and_then_def)

lemma and_then_assoc: "and_then (and_then x f) g = and_then x (\<lambda>a. and_then (f a) g)"
  by (simp add: and_then_def split: option.split sum.split)

lemma and_then_pair: "and_then (case vp of (v, p) \<Rightarrow> Some (Inr (g v p))) f = (case vp of (v, p) \<Rightarrow> f (g v p))"
  by (cases vp) simp

lemma returns_get_token:
  assumes "at_text p s" "tok s \<noteq> end_of_input" "\<And>p'. at_text p' (behind s) \<Longrightarrow> returns P (f p') m"
  shows "returns P (and_then (get_token p) f) m"
  using get_token_next [OF assms(1,2)] assms(3) by (metis and_then_simps(1))

lemma returns_leaf:
  assumes "at_text p s" "tok s \<noteq> end_of_input" "P v"
  shows "returns P (and_then (get_token p) (\<lambda>p. Some (Inr (v, p)))) (left s)"
  using assms behind_shorter [OF assms(2)] by (auto intro: returns_get_token returns_value)

lemma unexpected_at: "at_text p s \<Longrightarrow> \<exists>msg. unexpected p = Some msg"
  by (auto simp: unexpected_def get_token_string_def at_text_def scanned_def lex_ok_def)

lemma returns_expect:
  "at_text p s \<Longrightarrow> (last_token p = t \<Longrightarrow> returns P (f ()) m) \<Longrightarrow> returns P (and_then (expect t p) f) m"
  using unexpected_at [of p s] by (auto simp: expect_def)

lemma returns_unexpect:
  "at_text p s \<Longrightarrow> (last_token p \<noteq> t \<Longrightarrow> returns P (f ()) m) \<Longrightarrow> returns P (and_then (unexpect t p) f) m"
  using unexpected_at [of p s] by (auto simp: unexpect_def)

lemma returns_get_string:
  assumes "at_text p s" "tok s = value_string" "\<And>x. utf8_ok x \<Longrightarrow> returns P (f x) m"
  shows "returns P (and_then (token_get_string (m_lexer p)) f) m"
proof -
  obtain t where t: "token_get_string (m_lexer p) = Some (decode [] t)" using at_string [OF assms(1,2)] by metis
  show ?thesis
  proof (cases "decode [] t")
    case (Inr x)
    then have "utf8_ok x" using decode_utf8_ok by fastforce
    with t Inr assms(3) show ?thesis by simp
  qed (simp add: t)
qed

lemma returns_then:
  assumes "returns P r m" "\<And>v p s. at_text p s \<Longrightarrow> left s < m \<Longrightarrow> P v \<Longrightarrow> returns Q (f (v, p)) m'"
  shows "returns Q (and_then r f) m'"
proof -
  obtain x where x: "r = Some x" "\<And>v p. x = Inr (v, p) \<Longrightarrow> P v \<and> (\<exists>s. at_text p s \<and> left s < m)"
    using assms(1) by (auto simp: returns_def)
  show ?thesis
  proof (cases x)
    case (Inr vp)
    with x assms(2) show ?thesis by (cases vp) fastforce
  qed (simp add: x)
qed

lemma at_tok: "at_text p s \<Longrightarrow> last_token p = tok s"
  by (simp add: at_text_def)

lemma returns_skip_separator:
  assumes "at_text p s" "\<And>p' s'. at_text p' s' \<Longrightarrow> left s' \<le> left s \<Longrightarrow> returns P (f p') m"
  shows "returns P (and_then (skip_separator p) f) m"
proof (cases "tok s = value_separator")
  case True
  then have *: "tok s \<noteq> end_of_input" by simp
  have "returns P (and_then (get_token p) f) m"
    using assms behind_shorter [OF *] by (intro returns_get_token [OF assms(1) *]) (simp add: less_imp_le)
  with True show ?thesis by (simp add: skip_separator_def at_tok [OF assms(1)])
next
  case False
  with assms show ?thesis by (simp add: skip_separator_def at_tok [OF assms(1)])
qed

section \<open>Loops and containers\<close>

lemma front_not_space: "\<not> white_space c \<Longrightarrow> front (c # s) = c # s"
  by (simp add: front_def)

text \<open>A text behind a number must not continue it.\<close>

definition delimits :: "bytes \<Rightarrow> bool" where
  "delimits z \<longleftrightarrow> (case z of [] \<Rightarrow> True | c # _ \<Rightarrow> \<not> decimal c \<and> \<not> one_of ''.eE'' c)"

lemma delimits_simps [simp]:
  "delimits []" "delimits (CHR '','' # z)" "delimits (CHR '']'' # z)" "delimits (CHR ''}'' # z)" "delimits (LF # z)"
  by (simp_all add: delimits_def within_def one_of_def)

lemma front_punct [simp]:
  "c \<in> set [CHR ''{'', CHR ''}'', CHR ''['', CHR '']'', CHR '':'', CHR '','', CHR 0x22, CHR ''t'', CHR ''f'', CHR ''n''] \<Longrightarrow>
     front (c # s) = c # s"
  by (rule front_not_space) (auto simp: white_space_def one_of_def)

lemma tok_punct [simp]:
  "tok (CHR ''{'' # s) = begin_object" "tok (CHR ''}'' # s) = end_object"
  "tok (CHR ''['' # s) = begin_array" "tok (CHR '']'' # s) = end_array"
  "tok (CHR '':'' # s) = name_separator" "tok (CHR '','' # s) = value_separator"
  by (simp_all add: tok_def token_at_Cons within_def)

lemma behind_punct [simp]:
  "behind (CHR ''{'' # s) = s" "behind (CHR ''}'' # s) = s" "behind (CHR ''['' # s) = s" "behind (CHR '']'' # s) = s"
  "behind (CHR '':'' # s) = s" "behind (CHR '','' # s) = s"
  by (simp_all add: behind_def token_at_Cons within_def)

text \<open>
  The loops over the members and the elements have one shape: an item behind an optional comma,
  then the next one or the closing bracket.
\<close>

locale item_loop =
  fixes loop :: "nat \<Rightarrow> 'acc \<Rightarrow> parser \<Rightarrow> (json \<times> parser) parsing"
    and item :: "nat \<Rightarrow> parser \<Rightarrow> ('a \<times> parser) parsing"
    and add :: "'a \<Rightarrow> 'acc \<Rightarrow> 'acc"
    and finish :: "'acc \<Rightarrow> json"
    and close_token :: token_type
    and close_char :: char
  assumes loop_Suc: "loop (Suc n) acc p =
      and_then (skip_separator p) (\<lambda>p. and_then (item n p) (\<lambda>(v, p).
        if last_token p = value_separator then loop n (add v acc) p
        else and_then (expect close_token p) (\<lambda>_.
             and_then (get_token p) (\<lambda>p. Some (Inr (finish (add v acc), p))))))"
    and close_token: "tok (close_char # s) = close_token" "behind (close_char # s) = s" "delimits (close_char # s)"
    and close_other: "close_token \<noteq> value_separator" "close_token \<noteq> end_of_input"
begin

lemma loop_step_returns:
  assumes "at_text p s" "I acc"
    "\<And>p s'. at_text p s' \<Longrightarrow> left s' \<le> left s \<Longrightarrow> returns P (item n p) (left s')"
    "\<And>p s' acc. at_text p s' \<Longrightarrow> left s' < left s \<Longrightarrow> I acc \<Longrightarrow> returns Q (loop n acc p) (left s')"
    "\<And>v acc. I acc \<Longrightarrow> P v \<Longrightarrow> I (add v acc)" "\<And>acc. I acc \<Longrightarrow> Q (finish acc)"
  shows "returns Q (loop (Suc n) acc p) (left s)"
  unfolding loop_Suc
proof (rule returns_skip_separator [OF assms(1)], rule returns_then [OF assms(3)])
  fix p1 s1 v p2 s2
  assume "left s1 \<le> left s" and p2: "at_text p2 s2" "left s2 < left s1" "P v"
  then have lt: "left s2 < left s" and I: "I (add v acc)" using assms(2,5) by auto
  then show "returns Q (case (v, p2) of (v, p) \<Rightarrow>
      if last_token p = value_separator then loop n (add v acc) p
      else and_then (expect close_token p) (\<lambda>_.
           and_then (get_token p) (\<lambda>p. Some (Inr (finish (add v acc), p))))) (left s)"
    using returns_mono [OF assms(4) [OF p2(1) lt I]] returns_leaf [of p2 s2 Q "finish (add v acc)"] p2(1) assms(6) [OF I] close_other(2)
    by (auto simp: at_tok [OF p2(1)] intro!: returns_expect [OF p2(1)] intro: returns_mono)
qed

lemma loop_returns:
  assumes "\<And>v acc. I acc \<Longrightarrow> P v \<Longrightarrow> I (add v acc)" "\<And>acc. I acc \<Longrightarrow> Q (finish acc)"
    "\<And>k p s. k < n \<Longrightarrow> at_text p s \<Longrightarrow> 2 * left s + 1 \<le> k \<Longrightarrow> returns P (item k p) (left s)"
    "at_text p s" "I acc" "2 * left s + 2 \<le> n"
  shows "returns Q (loop n acc p) (left s)"
  using assms(3-)
proof (induction n arbitrary: p s acc)
  case (Suc n)
  show ?case
  proof (rule loop_step_returns [where I = I and P = P and Q = Q, OF Suc.prems(2,3)])
    show "returns P (item n p) (left s')" if "at_text p s'" "left s' \<le> left s" for p s'
      using that Suc.prems(4) by (intro Suc.prems(1)) simp_all
    show "returns Q (loop n acc p) (left s')" if "at_text p s'" "left s' < left s" "I acc" for p s' acc
    proof (rule Suc.IH [OF _ that(1,3)])
      show "returns P (item k p) (left s)" if "k < n" "at_text p s" "2 * left s + 1 \<le> k" for k p s
        using that by (intro Suc.prems(1)) simp_all
    qed (use that(2) Suc.prems(4) in simp)
  qed (use assms(1,2) in simp_all)
qed simp

end

text \<open>The brackets around the loop: an empty container, or no comma in front of the first item.\<close>

locale container = item_loop +
  fixes internal :: "nat \<Rightarrow> parser \<Rightarrow> (json \<times> parser) parsing"
    and init
    and open_token :: token_type
    and open_char :: char
  assumes internal_Suc: "last_token p = open_token \<Longrightarrow> internal (Suc n) p =
      and_then (get_token p) (\<lambda>p.
        if last_token p = close_token then and_then (get_token p) (\<lambda>p. Some (Inr (finish init, p)))
        else and_then (unexpect value_separator p) (\<lambda>_. loop n init p))"
    and open_token: "tok (open_char # s) = open_token" "behind (open_char # s) = s" "open_token \<noteq> end_of_input"
begin

lemma container_returns:
  assumes "\<And>v acc. I acc \<Longrightarrow> P v \<Longrightarrow> I (add v acc)" "\<And>acc. I acc \<Longrightarrow> Q (finish acc)" "I init"
    "\<And>k p s. k < n \<Longrightarrow> at_text p s \<Longrightarrow> 2 * left s + 1 \<le> k \<Longrightarrow> returns P (item k p) (left s)"
    "at_text p s" "tok s = open_token" "2 * left s + 1 \<le> Suc n"
  shows "returns Q (internal (Suc n) p) (left s)"
proof -
  have t: "tok s \<noteq> end_of_input" using assms(6) open_token(3) by simp
  have fuel: "2 * left (behind s) + 2 \<le> n" "left (behind s) \<le> left s"
    using behind_shorter [OF t] assms(7) by simp_all
  have token: "last_token p = open_token" using at_tok [OF assms(5)] assms(6) by simp
  show ?thesis unfolding internal_Suc [OF token]
  proof (rule returns_get_token [OF assms(5) t])
    fix p' assume p': "at_text p' (behind s)"
    have "returns Q (loop n init p') (left (behind s))"
      by (rule loop_returns [where I = I and P = P and Q = Q, OF assms(1,2,4) p' assms(3) fuel(1)])
    then show "returns Q (if last_token p' = close_token then and_then (get_token p') (\<lambda>p. Some (Inr (finish init, p)))
        else and_then (unexpect value_separator p') (\<lambda>_. loop n init p')) (left s)"
      using returns_leaf [of p' "behind s" Q "finish init"] p' assms(2) [OF assms(3)] close_other(2) at_tok [OF p']
      by (auto intro: returns_unexpect [OF p'] returns_mono [OF _ fuel(2)])
  qed
qed

end

text \<open>One member: its key, the colon and its value.\<close>

definition parse_member :: "(bytes \<Rightarrow> (int \<times> int) option) \<Rightarrow> nat \<Rightarrow> parser \<Rightarrow> ((bytes \<times> json) \<times> parser) parsing" where
  "parse_member strtod n p =
     and_then (expect value_string p) (\<lambda>_.
     and_then (token_get_string (m_lexer p)) (\<lambda>key.
     and_then (get_token p) (\<lambda>p.
     and_then (expect name_separator p) (\<lambda>_.
     and_then (get_token p) (\<lambda>p.
     and_then (parse_internal strtod n p) (\<lambda>(value, p). Some (Inr ((key, value), p))))))))"

interpretation arrays: container
  "parse_elements strtod" "parse_internal strtod" "\<lambda>x arr. arr @ [x]" JArray end_array "CHR '']''"
  "parse_internal strtod" "[]" begin_array "CHR ''[''" for strtod
  by unfold_locales (simp_all add: Let_def)

interpretation objects: container
  "parse_members strtod" "parse_member strtod" "\<lambda>kv obj. map_assign (fst kv) (snd kv) obj" JObject
  end_object "CHR ''}''" "parse_internal strtod" "[]" begin_object "CHR ''{''" for strtod
  by unfold_locales
    (simp_all add: parse_member_def and_then_assoc and_then_pair Let_def cong: prod.case_cong if_cong)

section \<open>Parsed values\<close>

text \<open>
  The values the parser builds: integers of 64 bits (only negative ones, and \<open>-0\<close>, are signed),
  strings of well-formed UTF-8, object keys in ascending order without repetition.
\<close>

fun json_typed :: "json \<Rightarrow> bool" where
  "json_typed JNull = True"
| "json_typed (JBool b) = True"
| "json_typed (JString s) = utf8_ok s"
| "json_typed (JInt i) = (- (2 ^ 63) \<le> i \<and> i \<le> 0)"
| "json_typed (JUnsigned n) = (n < 2 ^ 64)"
| "json_typed (JFloat m e) = True"
| "json_typed (JArray arr) = (\<forall>js \<in> set arr. json_typed js)"
| "json_typed (JObject obj) =
     (sorted_wrt (<) (map fst obj) \<and> (\<forall>kv \<in> set obj. utf8_ok (fst kv) \<and> json_typed (snd kv)))"

lemma get_number_typed: "\<not> m_null l \<Longrightarrow> \<exists>js. get_number strtod l = Some js \<and> json_typed js"
proof -
  assume "\<not> m_null l"
  from get_number_ok [OF this, of strtod] obtain js where "get_number strtod l = Some js" "\<forall>n. js = JUnsigned n \<longrightarrow> n < 2 ^ 64"
    "\<forall>i. js = JInt i \<longrightarrow> - (2 ^ 63) \<le> i \<and> i \<le> 0" "js \<notin> range JString \<union> range JArray \<union> range JObject" by blast
  then show ?thesis by (cases js) auto
qed

lemma set_map_assign: "set (map_assign k v obj) \<subseteq> insert (k, v) (set obj)"
  by (induction k v obj rule: map_assign.induct) auto

lemma sorted_map_assign: "sorted_wrt (<) (map fst obj) \<Longrightarrow> sorted_wrt (<) (map fst (map_assign k v obj))"
proof (induction k v obj rule: map_assign.induct)
  case (2 k v k' v' xs)
  show ?case
  proof (cases "k < k' \<or> k = k'")
    case True
    then show ?thesis using 2(2) by (auto dest: less_trans)
  next
    case False
    then have "k' < k" by (auto simp: not_less_iff_gr_or_eq)
    moreover have "\<forall>y \<in> set xs. k' < fst y" "sorted_wrt (<) (map fst xs)" using 2(2) by auto
    moreover have "sorted_wrt (<) (map fst (map_assign k v xs))" using 2(1) False \<open>sorted_wrt (<) (map fst xs)\<close> by simp
    ultimately show ?thesis using False set_map_assign [of k v xs] by auto
  qed
qed simp

lemma member_returns:
  assumes "at_text p s" "\<And>p s'. at_text p s' \<Longrightarrow> left s' < left s \<Longrightarrow> returns json_typed (parse_internal strtod n p) (left s')"
  shows "returns (\<lambda>kv. utf8_ok (fst kv) \<and> json_typed (snd kv)) (parse_member strtod n p) (left s)"
  unfolding parse_member_def
proof (rule returns_expect [OF assms(1)])
  assume "last_token p = value_string"
  then have t: "tok s = value_string" using at_tok [OF assms(1)] by simp
  show "returns (\<lambda>kv. utf8_ok (fst kv) \<and> json_typed (snd kv))
    (and_then (token_get_string (m_lexer p)) (\<lambda>key.
     and_then (get_token p) (\<lambda>p.
     and_then (expect name_separator p) (\<lambda>_.
     and_then (get_token p) (\<lambda>p.
     and_then (parse_internal strtod n p) (\<lambda>(value, p). Some (Inr ((key, value), p)))))))) (left s)"
  proof (rule returns_get_string [OF assms(1) t], rule returns_get_token [OF assms(1)], goal_cases)
    case (2 key p1)
    show ?case
    proof (rule returns_expect [OF 2(2)])
      assume "last_token p1 = name_separator"
      then have t1: "tok (behind s) = name_separator" using at_tok [OF 2(2)] by simp
      show "returns (\<lambda>kv. utf8_ok (fst kv) \<and> json_typed (snd kv)) (and_then (get_token p1) (\<lambda>p.
          and_then (parse_internal strtod n p) (\<lambda>(value, p). Some (Inr ((key, value), p))))) (left s)"
      proof (rule returns_get_token [OF 2(2)])
        fix p2 assume p2: "at_text p2 (behind (behind s))"
        have lt: "left (behind (behind s)) < left s"
          using behind_shorter [of s] behind_shorter [of "behind s"] t t1 by simp
        show "returns (\<lambda>kv. utf8_ok (fst kv) \<and> json_typed (snd kv))
            (and_then (parse_internal strtod n p2) (\<lambda>(value, p). Some (Inr ((key, value), p)))) (left s)"
          using lt 2(1) by (intro returns_then [OF assms(2) [OF p2 lt]]) (simp add: returns_value)
      qed (simp add: t1)
    qed
  qed (simp add: t)
qed

lemma parser_returns:
  "at_text p s \<Longrightarrow> 2 * left s + 1 \<le> n \<Longrightarrow> returns json_typed (parse_internal strtod n p) (left s)"
proof (induction n arbitrary: p s rule: less_induct)
  case (less n)
  note p = less.prems(1)
  obtain m where n: "n = Suc m" using less.prems(2) by (cases n) auto
  show ?case
  proof (cases "tok s")
    case begin_array
    show ?thesis unfolding n
    proof (rule arrays.container_returns [OF _ _ _ _ p begin_array])
      show "returns json_typed (parse_internal strtod k p) (left s)"
        if "k < m" "at_text p s" "2 * left s + 1 \<le> k" for k p s
        using that n by (intro less.IH) simp_all
      show "\<forall>x \<in> set arr. json_typed x \<Longrightarrow> json_typed v \<Longrightarrow> \<forall>x \<in> set (arr @ [v]). json_typed x" for v arr by auto
    qed (use less.prems(2) n in simp_all)
  next
    case begin_object
    let ?I = "\<lambda>obj. sorted_wrt (<) (map fst obj) \<and> (\<forall>kv \<in> set obj. utf8_ok (fst kv) \<and> json_typed (snd kv))"
    show ?thesis unfolding n
    proof (rule objects.container_returns [OF _ _ _ _ p begin_object])
      show "returns (\<lambda>kv. utf8_ok (fst kv) \<and> json_typed (snd kv)) (parse_member strtod k p) (left s)"
        if "k < m" "at_text p s" "2 * left s + 1 \<le> k" for k p s
        using that n by (intro member_returns [OF that(2)] less.IH) simp_all
      show "?I obj \<Longrightarrow> utf8_ok (fst kv) \<and> json_typed (snd kv) \<Longrightarrow> ?I (map_assign (fst kv) (snd kv) obj)" for kv obj
        using sorted_map_assign [of obj "fst kv" "snd kv"] set_map_assign [of "fst kv" "snd kv" obj] by fastforce
    qed (use less.prems(2) n in simp_all)
  next
    case value_string
    have "returns json_typed (and_then (token_get_string (m_lexer p))
        (\<lambda>v. and_then (get_token p) (\<lambda>p. Some (Inr (JString v, p))))) (left s)"
      using value_string by (intro returns_get_string [OF p] returns_leaf [where P = json_typed, OF p]) simp_all
    with value_string n show ?thesis by (simp add: at_tok [OF p])
  next
    case value_number
    then have "\<not> m_null (m_lexer p)" using p by (simp add: at_text_def scanned_def lex_ok_def)
    then obtain js where "get_number strtod (m_lexer p) = Some js" "json_typed js" using get_number_typed by blast
    with value_number n show ?thesis using returns_leaf [where P = json_typed, OF p] by (simp add: at_tok [OF p])
  qed (use n returns_leaf [where P = json_typed, OF p] unexpected_at [OF p] in \<open>auto simp: at_tok [OF p] unexpect_def\<close>)
qed

text \<open>Reading a whole text: a value or an exception, for every content of the stream.\<close>

lemma length_stream_start: "length (stream_start s) \<le> Suc (length s)"
proof -
  have "length (skip_bom b) = length b" for b by (simp add: skip_bom_def)
  then show ?thesis
    using length_takeWhile_le [of "\<lambda>c. c \<noteq> NUL" "s @ [LF]"] by (simp add: stream_start_def)
qed

lemma parse_stream_good:
  assumes "\<not> s_eof s"
  obtains p where "at_text p (stream_start (s_rest s))"
    "parse_stream strtod False s =
       and_then (parse_internal strtod (2 * length (s_rest s) + 5) p) (\<lambda>(result, p).
       and_then (expect end_of_input p) (\<lambda>_. Some (Inr result)))"
proof -
  obtain l where l: "lexer_of_stream False s = Some (Some l)" "lex_ok l" "text_of l = stream_start (s_rest s)"
    using assms by (rule lexer_of_stream_ok)
  obtain p where "get_token \<lparr>last_token = uninitialized, m_lexer = l\<rparr> = Some (Inr p)" "at_text p (stream_start (s_rest s))"
    using get_token_start [of "\<lparr>last_token = uninitialized, m_lexer = l\<rparr>"] l(2,3) by auto
  with l(1) that show thesis by (simp add: parse_stream_def parse_with_def)
qed

lemma parse_stream_returns:
  "\<exists>r. parse_stream strtod fail \<lparr>s_rest = b, s_eof = False\<rparr> = Some r \<and> (\<forall>js. r = Inr js \<longrightarrow> json_typed js)"
proof (cases fail)
  case False
  let ?s = "\<lparr>s_rest = b, s_eof = False\<rparr>"
  have "\<not> s_eof ?s" by simp
  then obtain p where p: "at_text p (stream_start b)"
    "parse_stream strtod False ?s =
       and_then (parse_internal strtod (2 * length b + 5) p) (\<lambda>(result, p).
       and_then (expect end_of_input p) (\<lambda>_. Some (Inr result)))"
    by (rule parse_stream_good [where strtod = strtod]) simp
  have "left (stream_start b) \<le> Suc (length b)"
    using length_dropWhile_le [of white_space "stream_start b"] length_stream_start [of b]
    unfolding front_def by linarith
  then have "returns json_typed (parse_internal strtod (2 * length b + 5) p) (left (stream_start b))"
    using p(1) by (intro parser_returns) simp_all
  then obtain x where x: "parse_internal strtod (2 * length b + 5) p = Some x"
    "\<And>v p. x = Inr (v, p) \<Longrightarrow> json_typed v \<and> (\<exists>s. at_text p s)"
    by (auto simp: returns_def)
  show ?thesis
  proof (cases x)
    case (Inr vp)
    then obtain v q s where vq: "x = Inr (v, q)" "json_typed v" "at_text q s" using x(2) by (cases vp) auto
    with p(2) False x(1) unexpected_at [OF vq(3)] show ?thesis by (auto simp: expect_def)
  qed (use p(2) False x(1) in simp)
qed (simp add: parse_stream_def lexer_of_stream_def)

text \<open>
  C20.  Reading JSON from a stream always ends with a value or with an exception, whatever the
  bytes of the stream are: the scanner never reads past its line buffer, never jumps back
  without a marker, its assertions hold, and neither the scanner nor the parser loops.
\<close>

theorem json_parser_total:
  "\<exists>r. parse_stream strtod fail \<lparr>s_rest = b, s_eof = False\<rparr> = Some r"
  using parse_stream_returns [of strtod fail b] by blast

end
