(* ===== verification/Strings.thy ===== *)
theory Strings
  imports Prelude
begin

text \<open>
  Model of src/ssdb/src/util/strings.h: trimming, case conversion, escaping, number
  formatting and parsing, substrings, bit counting and byte order.

  A C string is the list of its bytes before the terminating NUL.  The parsing functions
  \<open>strtol\<close>, \<open>strtoll\<close>, \<open>strtoull\<close> and \<open>atoi\<close> of the C library read memory from a
  pointer to the end of its block; running off the block is \<^term>\<open>None\<close>.  \<open>errno\<close> is an
  explicit argument and result.  The locale is "C", as the server never calls setlocale.
\<close>

section \<open>Characters\<close>

definition isspace :: "char \<Rightarrow> bool" where
  "isspace c \<longleftrightarrow> c \<in> set [CHR '' '', CHR 0x09, CHR 0x0A, CHR 0x0B, CHR 0x0C, CHR 0x0D]"

definition isdigit :: "char \<Rightarrow> bool" where
  "isdigit c \<longleftrightarrow> schar (CHR ''0'') \<le> schar c \<and> schar c \<le> schar (CHR ''9'')"

definition tolower :: "char \<Rightarrow> char" where
  "tolower c = (if 65 \<le> (of_char c :: nat) \<and> (of_char c :: nat) \<le> 90
                then char_of ((of_char c :: nat) + 32) else c)"

definition toupper :: "char \<Rightarrow> char" where
  "toupper c = (if 97 \<le> (of_char c :: nat) \<and> (of_char c :: nat) \<le> 122
                then char_of ((of_char c :: nat) - 32) else c)"

section \<open>Trimming and case\<close>

primrec is_empty_str :: "bytes \<Rightarrow> bool" where
  "is_empty_str [] = True"
| "is_empty_str (c # cs) = (if isspace c then is_empty_str cs else False)"

primrec ltrim :: "bytes \<Rightarrow> bytes" where
  "ltrim [] = []"
| "ltrim (c # cs) = (if isspace c then ltrim cs else c # cs)"

definition rtrim :: "bytes \<Rightarrow> bytes" where
  "rtrim s = rev (ltrim (rev s))"

definition trim :: "bytes \<Rightarrow> bytes" where
  "trim s = rtrim (ltrim s)"

definition strtolower :: "bytes \<Rightarrow> bytes" where
  "strtolower s = map tolower s"

definition strtoupper :: "bytes \<Rightarrow> bytes" where
  "strtoupper s = map toupper s"

text \<open>\<open>real_dirname\<close>: the result of \<open>getcwd\<close> (None for NULL) is an argument.\<close>

fun before_last_slash :: "bytes \<Rightarrow> bytes option" where
  "before_last_slash s =
     (if CHR ''/'' \<in> set s
      then Some (rev (tl (dropWhile (\<lambda>c. c \<noteq> CHR ''/'') (rev s)))) else None)"

definition real_dirname :: "bytes option \<Rightarrow> bytes \<Rightarrow> bytes" where
  "real_dirname cwd filepath =
     (let dir = (if take 1 filepath \<noteq> ''/''
                 then (case cwd of Some p \<Rightarrow> p | None \<Rightarrow> []) @ ''/'' else [])
      in case before_last_slash filepath of Some p \<Rightarrow> dir @ p | None \<Rightarrow> dir)"

section \<open>Escaping\<close>

abbreviation BSL :: char where "BSL \<equiv> CHR 0x5C"

definition hex_digit :: "nat \<Rightarrow> char" where
  "hex_digit n = ''0123456789abcdef'' ! n"

definition escape_char :: "char \<Rightarrow> bytes" where
  "escape_char c =
     (if c = CR then [BSL, CHR ''r'']
      else if c = LF then [BSL, CHR ''n'']
      else if c = CHR 0x09 then [BSL, CHR ''t'']
      else if c = BSL then [BSL, BSL]
      else if c = CHR '' '' then [c]
      else if schar c \<ge> schar (CHR ''!'') \<and> schar c \<le> schar (CHR ''~'') then [c]
      else [BSL, CHR ''x'', hex_digit (of_char c div 16), hex_digit (of_char c mod 16)])"

primrec str_escape :: "bytes \<Rightarrow> bytes" where
  "str_escape [] = []"
| "str_escape (c # cs) = escape_char c @ str_escape cs"

definition hexmem :: "bytes \<Rightarrow> bytes" where
  "hexmem s = str_escape s"

definition hex_int :: "char \<Rightarrow> int" where
  "hex_int c = (if schar c \<ge> schar (CHR ''0'') \<and> schar c \<le> schar (CHR ''9'')
                then schar c - schar (CHR ''0'') else schar c - schar (CHR ''a'') + 10)"

fun str_unescape :: "bytes \<Rightarrow> bytes" where
  "str_unescape [] = []"
| "str_unescape (c # cs) =
     (if c \<noteq> BSL then c # str_unescape cs
      else case cs of
        [] \<Rightarrow> []
      | c2 # cs2 \<Rightarrow>
          (if c2 = CHR ''a'' then CHR 0x07 # str_unescape cs2
           else if c2 = CHR ''b'' then CHR 0x08 # str_unescape cs2
           else if c2 = CHR ''f'' then CHR 0x0C # str_unescape cs2
           else if c2 = CHR ''v'' then CHR 0x0B # str_unescape cs2
           else if c2 = CHR ''r'' then CR # str_unescape cs2
           else if c2 = CHR ''n'' then LF # str_unescape cs2
           else if c2 = CHR ''t'' then CHR 0x09 # str_unescape cs2
           else if c2 = BSL then BSL # str_unescape cs2
           else if c2 = CHR ''x'' then
             (case cs2 of
                c3 # c4 # cs4 \<Rightarrow> char_of ((hex_int c3 * 16 + hex_int c4) mod 256) # str_unescape cs4
              | _ \<Rightarrow> str_unescape cs2)
           else c2 # str_unescape cs2))"

section \<open>Decimal numbers\<close>

fun dec_nat :: "nat \<Rightarrow> bytes" where
  "dec_nat n = (if n < 10 then [char_of (48 + n)] else dec_nat (n div 10) @ [char_of (48 + n mod 10)])"

declare dec_nat.simps [simp del]

definition dec_int :: "int \<Rightarrow> bytes" where
  "dec_int v = (if v < 0 then CHR ''-'' # dec_nat (nat (- v)) else dec_nat (nat v))"

definition snprintf :: "nat \<Rightarrow> bytes \<Rightarrow> bytes" where
  "snprintf n s = take (n - 1) s"

definition str_int :: "int \<Rightarrow> bytes" where
  "str_int v = snprintf 21 (dec_int v)"

definition str_uint64 :: "64 word \<Rightarrow> bytes" where
  "str_uint64 v = snprintf 21 (dec_nat (unat v))"

primrec dec_val :: "nat \<Rightarrow> bytes \<Rightarrow> nat" where
  "dec_val acc [] = acc"
| "dec_val acc (c # cs) = dec_val (10 * acc + (of_char c - 48)) cs"

text \<open>
  The common scan of the \<open>strtoxx\<close> family on the memory from the start pointer to the end
  of its block: the sign and magnitude, and the offset of the end pointer.
\<close>

definition strto_scan :: "bytes \<Rightarrow> (bool \<times> nat \<times> nat) option" where
  "strto_scan m =
     (let ws = takeWhile isspace m; r = dropWhile isspace m
      in case r of
        [] \<Rightarrow> None
      | c # cs \<Rightarrow>
          (let signed = (c = CHR ''-'' \<or> c = CHR ''+'');
               body = (if signed then cs else r);
               ds = takeWhile isdigit body
           in if ds = body then None
              else if ds = [] then Some (False, 0, 0)
              else Some (c = CHR ''-'', dec_val 0 ds,
                         length ws + (if signed then 1 else 0) + length ds)))"

definition ERANGE :: int where "ERANGE = 34"
definition EINVAL :: int where "EINVAL = 22"

definition strtol :: "int \<Rightarrow> bytes \<Rightarrow> (int \<times> nat \<times> int) option" where
  "strtol errno m =
     (case strto_scan m of
        None \<Rightarrow> None
      | Some (neg, n, e) \<Rightarrow>
          (let v = (if neg then - int n else int n)
           in if v \<ge> 2 ^ 63 then Some (2 ^ 63 - 1, e, ERANGE)
              else if v < - (2 ^ 63) then Some (- (2 ^ 63), e, ERANGE)
              else Some (v, e, errno)))"

definition strtoull :: "int \<Rightarrow> bytes \<Rightarrow> (64 word \<times> nat \<times> int) option" where
  "strtoull errno m =
     (case strto_scan m of
        None \<Rightarrow> None
      | Some (neg, n, e) \<Rightarrow>
          (if n \<ge> 2 ^ 64 then Some (- 1, e, ERANGE)
           else Some (if neg then - word_of_nat n else word_of_nat n, e, errno)))"

definition atoi :: "bytes \<Rightarrow> int option" where
  "atoi m = map_option (\<lambda>(v, _, _). i32 v) (strtol 0 m)"

text \<open>
  The whole-string test shared by the \<open>str_to_xx\<close> functions: \<open>*end\<close> is NUL and the
  distance to \<open>end\<close> is the size of the string; errno is cleared or, if still 0, set to EINVAL.
\<close>

definition whole_errno :: "bytes \<Rightarrow> nat \<Rightarrow> int \<Rightarrow> int" where
  "whole_errno s e errno =
     (if (s @ [NUL]) ! e = NUL \<and> e = length s then 0 else if errno = 0 then EINVAL else errno)"

definition str_to_int :: "int \<Rightarrow> bytes \<Rightarrow> (int \<times> int) option" where
  "str_to_int errno s =
     map_option (\<lambda>(v, e, en). (i32 v, whole_errno s e en)) (strtol errno (s @ [NUL]))"

definition str_to_int64 :: "int \<Rightarrow> bytes \<Rightarrow> (int \<times> int) option" where
  "str_to_int64 errno s =
     map_option (\<lambda>(v, e, en). (v, whole_errno s e en)) (strtol errno (s @ [NUL]))"

definition str_to_uint64 :: "int \<Rightarrow> bytes \<Rightarrow> (64 word \<times> int) option" where
  "str_to_uint64 errno s =
     map_option (\<lambda>(v, e, en). (v, whole_errno s e en)) (strtoull errno (s @ [NUL]))"

section \<open>Substrings and bits\<close>

definition std_substr :: "bytes \<Rightarrow> int \<Rightarrow> int \<Rightarrow> bytes" where
  "std_substr s start sz = take (nat sz) (drop (nat start) s)"

definition substr :: "bytes \<Rightarrow> int \<Rightarrow> int \<Rightarrow> bytes option" where
  "substr s start sz =
     do { let n = i32 (int (length s));
          let start = (if start < 0 then n + start else start);
          sz \<leftarrow> (if sz < 0 then ck32 ((n + sz) - start) else Some sz);
          Some (if start < 0 \<or> nat start \<ge> length s \<or> sz < 0 then []
                else std_substr s start sz) }"

definition str_slice :: "bytes \<Rightarrow> int \<Rightarrow> int \<Rightarrow> bytes option" where
  "str_slice s start end =
     do { let n = i32 (int (length s));
          let start = (if start < 0 then n + start else start);
          sz \<leftarrow> (if end < 0 then ck32 ((n + end + 1) - start)
                  else do { d \<leftarrow> ck32 (end - start); ck32 (d + 1) });
          Some (if start < 0 \<or> nat start \<ge> length s \<or> sz < 0 then []
                else std_substr s start sz) }"

fun bitcount_byte :: "nat \<Rightarrow> nat" where
  "bitcount_byte c = (if c = 0 then 0 else c mod 2 + bitcount_byte (c div 2))"

declare bitcount_byte.simps [simp del]

definition bitcount :: "bytes \<Rightarrow> nat" where
  "bitcount s = sum_list (map (\<lambda>c. bitcount_byte (of_char c)) s)"

unbundle bit_operations_syntax

definition big_endian16 :: "16 word \<Rightarrow> 16 word" where
  "big_endian16 v = drop_bit 8 v OR push_bit 8 v"

definition big_endian32 :: "32 word \<Rightarrow> 32 word" where
  "big_endian32 v =
     drop_bit 24 v OR (drop_bit 8 v AND 0xff00) OR (push_bit 8 v AND 0xff0000) OR push_bit 24 v"

definition big_endian64 :: "64 word \<Rightarrow> 64 word" where
  "big_endian64 v =
     (let h = ucast (drop_bit 32 v) :: 32 word; l = ucast (v AND 0xffffffff) :: 32 word
      in ucast (big_endian32 h) OR push_bit 32 (ucast (big_endian32 l)))"

section \<open>Characters: lemmas\<close>

lemma schar_negative: "128 \<le> (of_char c :: nat) \<Longrightarrow> schar c < 0"
proof -
  assume a: "128 \<le> (of_char c :: nat)"
  have u: "(of_char c :: int) = int (of_char c)" by (rule of_char_int)
  have "int (of_char c) div 128 = 1"
    using a of_char_less_256 [of c] by linarith
  then have "bit (of_char c :: int) 7" by (simp add: u bit_iff_odd)
  then show ?thesis by (simp add: schar_def)
qed

lemma schar_range:
  "0 \<le> lo \<Longrightarrow> 0 \<le> hi \<Longrightarrow> hi < 128 \<Longrightarrow>
   lo \<le> schar c \<and> schar c \<le> hi \<longleftrightarrow> nat lo \<le> of_char c \<and> (of_char c :: nat) \<le> nat hi"
proof (cases "(of_char c :: nat) < 128")
  case True
  assume "0 \<le> lo" "0 \<le> hi" "hi < 128"
  have "schar c = int (of_char c)" using schar_ascii [OF True] by (simp only: of_char_int)
  with \<open>0 \<le> lo\<close> \<open>0 \<le> hi\<close> show ?thesis by (auto simp: nat_le_iff le_nat_iff)
next
  case False
  assume "0 \<le> lo" "0 \<le> hi" "hi < 128"
  with False schar_negative [of c] show ?thesis by auto
qed

lemma schar_literals [simp]:
  "schar (CHR ''0'') = 48" "schar (CHR ''9'') = 57" "schar (CHR ''a'') = 97"
  "schar (CHR ''!'') = 33" "schar (CHR ''~'') = 126"
  by (simp_all add: schar_ascii)

lemma isdigit_iff: "isdigit c \<longleftrightarrow> 48 \<le> (of_char c :: nat) \<and> (of_char c :: nat) \<le> 57"
  using schar_range [of 48 57 c] by (simp add: isdigit_def)

lemma isdigit_not_special [simp]:
  "isdigit c \<Longrightarrow> \<not> isspace c" "\<not> isdigit (CHR ''-'')" "\<not> isdigit (CHR ''+'')"
  "\<not> isdigit LF" "\<not> isdigit CR" "\<not> isdigit NUL"
  by (auto simp: isdigit_iff isspace_def)

lemma isdigit_not_sign: "isdigit c \<Longrightarrow> c \<noteq> CHR ''-'' \<and> c \<noteq> CHR ''+''"
  by (auto simp: isdigit_iff)

section \<open>Trimming: lemmas\<close>

lemma ltrim_eq_dropWhile: "ltrim s = dropWhile isspace s"
  by (induction s) auto

lemma is_empty_str_iff: "is_empty_str s \<longleftrightarrow> (\<forall>c \<in> set s. isspace c)"
  by (induction s) auto

lemma ltrim_split: "\<exists>ws. s = ws @ ltrim s \<and> (\<forall>c \<in> set ws. isspace c)"
  by (rule exI [of _ "takeWhile isspace s"]) (auto simp: ltrim_eq_dropWhile dest: set_takeWhileD)

lemma ltrim_head: "ltrim s \<noteq> [] \<Longrightarrow> \<not> isspace (hd (ltrim s))"
  by (simp add: ltrim_eq_dropWhile hd_dropWhile)

lemma rtrim_split: "\<exists>ws. s = rtrim s @ ws \<and> (\<forall>c \<in> set ws. isspace c)"
proof -
  obtain ws where "rev s = ws @ ltrim (rev s)" and ws: "\<forall>c \<in> set ws. isspace c"
    using ltrim_split by blast
  then have "s = rtrim s @ rev ws" by (metis rev_append rev_rev_ident rtrim_def)
  with ws show ?thesis by (metis set_rev)
qed

lemma rtrim_last: "rtrim s \<noteq> [] \<Longrightarrow> \<not> isspace (last (rtrim s))"
  using ltrim_head [of "rev s"] by (simp add: rtrim_def last_rev)

lemma rtrim_head:
  assumes "rtrim s \<noteq> []"
  shows "hd (rtrim s) = hd s"
  using rtrim_split [of s] assms by (metis hd_append2)

section \<open>Escaping: lemmas\<close>

lemma hex_int_hex_digit: "n < 16 \<Longrightarrow> hex_int (hex_digit n) = int n"
proof -
  assume "n < 16"
  then have "n \<in> set [0..<16]" by simp
  then show ?thesis
    by (auto simp: upt_rec hex_int_def hex_digit_def schar_def)
qed

lemma unescape_escape_char: "str_unescape (escape_char c @ s) = c # str_unescape s"
proof -
  have d: "(of_char c :: nat) div 16 < 16" "(of_char c :: nat) mod 16 < 16"
    using of_char_less_256 [of c] by (simp_all add: less_mult_imp_div_less)
  have "hex_int (hex_digit (of_char c div 16)) * 16 + hex_int (hex_digit (of_char c mod 16))
        = int (of_char c div 16 * 16 + of_char c mod 16)"
    by (simp only: hex_int_hex_digit [OF d(1)] hex_int_hex_digit [OF d(2)] of_nat_add of_nat_mult
        of_nat_numeral)
  also have "\<dots> = int (of_char c)" by (simp only: div_mult_mod_eq)
  finally have e: "hex_int (hex_digit (of_char c div 16)) * 16
      + hex_int (hex_digit (of_char c mod 16)) = int (of_char c)" .
  have h: "char_of ((hex_int (hex_digit (of_char c div 16)) * 16
        + hex_int (hex_digit (of_char c mod 16))) mod 256) = c"
    by (simp only: e of_char_int [symmetric] char_of_mod_256 char_of_char)
  show ?thesis
    using h by (simp add: escape_char_def)
qed

interpretation escape: codec str_escape "\<lambda>s. Some (str_unescape s)" "\<lambda>_. True"
proof
  fix s :: bytes
  show "Some (str_unescape (str_escape s)) = Some s"
    by (induction s) (simp_all add: unescape_escape_char)
qed

section \<open>Decimal numbers: lemmas\<close>

lemma dec_val_snoc: "dec_val acc (xs @ [c]) = 10 * dec_val acc xs + (of_char c - 48)"
  by (induction xs arbitrary: acc) auto

lemma dec_nat_not_Nil [simp]: "dec_nat n \<noteq> []"
  by (subst dec_nat.simps) simp

lemma dec_nat_digits: "c \<in> set (dec_nat n) \<Longrightarrow> isdigit c"
proof (induction n rule: dec_nat.induct)
  case (1 n)
  show ?case
  proof (cases "n < 10")
    case True
    with "1.prems" show ?thesis by (subst (asm) dec_nat.simps) (simp add: isdigit_iff)
  next
    case False
    with "1.prems" consider "c \<in> set (dec_nat (n div 10))" | "c = char_of (48 + n mod 10)"
      by (subst (asm) dec_nat.simps) auto
    then show ?thesis
    proof cases
      case 1
      then show ?thesis using "1.IH" False by simp
    next
      case 2
      moreover have "n mod 10 < 10" by simp
      ultimately show ?thesis by (simp add: isdigit_iff)
    qed
  qed
qed

lemma dec_val_dec_nat [simp]: "dec_val 0 (dec_nat n) = n"
proof (induction n rule: dec_nat.induct)
  case (1 n)
  have m: "n mod 10 < 10" by simp
  show ?case
  proof (cases "n < 10")
    case True
    then show ?thesis by (subst dec_nat.simps) simp
  next
    case False
    with 1 m show ?thesis by (subst dec_nat.simps) (simp add: dec_val_snoc)
  qed
qed

lemma length_dec_nat: "n < 10 ^ k \<Longrightarrow> 0 < k \<Longrightarrow> length (dec_nat n) \<le> k"
proof (induction n arbitrary: k rule: dec_nat.induct)
  case (1 n)
  show ?case
  proof (cases "n < 10")
    case True
    then show ?thesis using "1.prems" by (subst dec_nat.simps) simp
  next
    case False
    then obtain j where k: "k = Suc j" "0 < j"
      using "1.prems" by (cases k; cases "k - 1") auto
    have "n div 10 < 10 ^ j" using "1.prems" k by (simp add: less_mult_imp_div_less mult.commute)
    then have "length (dec_nat (n div 10)) \<le> j" using "1.IH" False k by blast
    then show ?thesis using False k by (subst dec_nat.simps) simp
  qed
qed

lemma dec_nat_takeWhile:
  "\<not> isdigit c \<Longrightarrow> takeWhile isdigit (dec_nat n @ c # rest) = dec_nat n"
  by (rule takeWhile_all) (auto dest: dec_nat_digits)

lemma dec_nat_head: "\<exists>d ds. dec_nat n = d # ds \<and> isdigit d"
  by (metis dec_nat_digits dec_nat_not_Nil list.set_intros(1) neq_Nil_conv)

lemma strto_scan_dec [wire_simps]:
  assumes "\<not> isdigit c"
  shows "strto_scan (dec_nat n @ c # rest) = Some (False, n, length (dec_nat n))"
proof -
  obtain d ds where d: "dec_nat n = d # ds" "isdigit d" using dec_nat_head by blast
  have "takeWhile isdigit (d # ds @ c # rest) = d # ds"
    using dec_nat_takeWhile [OF assms, of n rest] d by simp
  moreover have "dec_val 0 (d # ds) = n" using d by (metis dec_val_dec_nat)
  ultimately show ?thesis
    using d isdigit_not_sign [OF d(2)] assms
    by (simp add: strto_scan_def Let_def del: dec_val.simps)
qed

lemma strto_scan_neg [wire_simps]:
  assumes "\<not> isdigit c"
  shows "strto_scan (CHR ''-'' # dec_nat n @ c # rest) = Some (True, n, Suc (length (dec_nat n)))"
proof -
  have "takeWhile isdigit (dec_nat n @ c # rest) = dec_nat n"
    by (rule dec_nat_takeWhile [OF assms])
  then show ?thesis using assms by (simp add: strto_scan_def isspace_def Let_def)
qed

lemma strto_scan_terminated: "\<exists>r. strto_scan (s @ [NUL]) = Some r"
proof -
  have "\<not> isspace NUL" by (simp add: isspace_def)
  then obtain c cs where r: "dropWhile isspace (s @ [NUL]) = c # cs"
    by (metis append_is_Nil_conv dropWhile_eq_Nil_conv in_set_conv_decomp neq_Nil_conv)
  have last: "last (c # cs) = NUL"
    by (metis append_is_Nil_conv dropWhile_eq_Nil_conv last_appendR last_snoc list.distinct(1) r
        takeWhile_dropWhile_id)
  have tail: "takeWhile isdigit b \<noteq> b" if "b \<noteq> []" "last b = NUL" for b
    using that by (metis isdigit_not_special(6) last_in_set set_takeWhileD takeWhile_eq_all_conv)
  have "takeWhile isdigit cs \<noteq> cs" if "c = CHR ''-'' \<or> c = CHR ''+''"
    using that last by (intro tail) (auto split: if_splits)
  moreover have "takeWhile isdigit (c # cs) \<noteq> c # cs"
    using last by (intro tail) auto
  ultimately show ?thesis by (auto simp: strto_scan_def Let_def r simp del: takeWhile.simps)
qed

section \<open>Byte order: lemmas\<close>

lemma le_bytes_map: "le_bytes n v = map (\<lambda>i. char_of (v div 256 ^ i)) [0..<n]"
proof (induction n arbitrary: v)
  case (Suc n)
  have "[0..<Suc n] = 0 # map Suc [0..<n]" by (simp add: map_Suc_upt upt_conv_Cons del: upt_Suc)
  then show ?case using Suc by (simp add: div_mult2_eq comp_def del: upt_Suc)
qed simp

lemma bit_big_endian32:
  assumes "i < 4" "j < 8"
  shows "bit (big_endian32 v) (8 * i + j) \<longleftrightarrow> bit v (8 * (3 - i) + j)"
proof -
  have m: "(0xff00 :: 32 word) = push_bit 8 (mask 8)" "(0xff0000 :: 32 word) = push_bit 16 (mask 8)"
    by (simp_all add: mask_eq_exp_minus_1)
  have hi: "\<not> bit v (j + k)" if "32 \<le> k" for k
    using that bit_imp_le_length [of v "j + k"] by auto
  consider "i = 0" | "i = 1" | "i = 2" | "i = 3" using assms(1) by linarith
  then show ?thesis
    by cases (use assms(2) in \<open>simp_all add: big_endian32_def m bit_simps hi add.commute\<close>)
qed

lemma bit_big_endian64:
  assumes "i < 8" "j < 8"
  shows "bit (big_endian64 v) (8 * i + j) \<longleftrightarrow> bit v (8 * (7 - i) + j)"
proof (cases "i < 4")
  case True
  have k: "8 * i + j < 32" using True assms by simp
  have "bit (big_endian64 v) (8 * i + j)
        = bit (big_endian32 (ucast (drop_bit 32 v))) (8 * i + j)"
    using k by (simp add: big_endian64_def bit_simps)
  also have "\<dots> = bit v (32 + (8 * (3 - i) + j))"
    using assms True by (simp add: bit_big_endian32 bit_simps) (use assms True in linarith)
  also have "32 + (8 * (3 - i) + j) = 8 * (7 - i) + j" using True by simp
  finally show ?thesis .
next
  case False
  define m where "m = 8 * (i - 4) + j"
  have k: "m < 32" "8 * i + j = 32 + m" using False assms by (simp_all add: m_def)
  have idx: "3 - (i - 4) = 7 - i" "8 * (7 - i) + j < 32" "i - 4 < 4"
    using False assms by simp_all
  have hi: "\<not> bit (w :: 32 word) (32 + m)" for w
    using bit_imp_le_length [of w "32 + m"] by auto
  have "bit (big_endian64 v) (8 * i + j)
        = bit (big_endian32 (ucast (v AND 0xffffffff))) m"
    using k by (simp add: big_endian64_def bit_simps hi)
  also have "\<dots> = bit (v AND 0xffffffff) (8 * (7 - i) + j)"
    using idx(2) by (simp add: m_def bit_big_endian32 [OF idx(3) assms(2)] idx(1) bit_simps
        del: bit_and_iff)
  also have "\<dots> = bit v (8 * (7 - i) + j)"
  proof -
    have m: "(0xffffffff :: 64 word) = mask 32" by (simp add: mask_eq_exp_minus_1)
    show ?thesis unfolding m using idx(2) by (simp add: bit_simps)
  qed
  finally show ?thesis .
qed

lemma char_of_bits_eq:
  "(\<And>j. j < 8 \<Longrightarrow> bit m j = bit n j) \<Longrightarrow> char_of (m::nat) = char_of n"
  by (simp add: char_of_def flip: bit_0)

lemma mem64_big_endian64 [key_simps]: "mem64 (big_endian64 v) = rev (mem64 v)"
proof (rule nth_equalityI)
  fix i assume "i < length (mem64 (big_endian64 v))"
  then have i: "i < 8" by simp
  have d: "unat (w :: 64 word) div 256 ^ k = drop_bit (8 * k) (unat w)" for w k
    by (simp add: drop_bit_eq_div power_mult)
  have "char_of (unat (big_endian64 v) div 256 ^ i) = char_of (unat v div 256 ^ (7 - i))"
    by (rule char_of_bits_eq) (simp add: d bit_simps bit_big_endian64 [OF i])
  moreover have "[0..<8] ! (7 - i) = 7 - i" "[0..<8] ! i = i"
    using i nth_upt [of 0 "7 - i" 8] nth_upt [of 0 i 8] by simp_all
  ultimately show "mem64 (big_endian64 v) ! i = rev (mem64 v) ! i"
    using i by (simp add: mem64_def le_bytes_map rev_nth del: upt_rec_numeral)
qed simp

lemma big_endian64_involution [key_simps]: "big_endian64 (big_endian64 v) = v"
  by (metis mem64_big_endian64 mem64_inject rev_rev_ident)

section \<open>Properties\<close>
lemma str_to_uint64_total: "\<exists>v e. str_to_uint64 errno s = Some (v, e)"
proof -
  obtain r where "strto_scan (s @ [NUL]) = Some r" using strto_scan_terminated by blast
  then show ?thesis
    by (cases r) (auto simp: str_to_uint64_def strtoull_def Let_def split: if_splits)
qed

lemma uint64_parse_str: "str_to_uint64 errno (str_uint64 v) = Some (v, 0)"
proof -
  have "length (dec_nat (unat v)) \<le> 20"
    using unat64_less [of v] by (intro length_dec_nat) simp_all
  then have "str_uint64 v = dec_nat (unat v)" by (simp add: str_uint64_def snprintf_def)
  moreover have "strto_scan (dec_nat (unat v) @ [NUL])
      = Some (False, unat v, length (dec_nat (unat v)))"
    by (rule strto_scan_dec) simp
  ultimately show ?thesis
    using unat64_less [of v]
    by (simp add: str_to_uint64_def strtoull_def whole_errno_def not_le)
qed


text \<open>Escaping is lossless: unescaping the escaped form of any byte string gives it back.\<close>

lemma unescape_escape: "str_unescape (str_escape s) = s"
  using escape.decode_encode [of s] by simp

text \<open>Every unsigned 64-bit number survives printing and parsing, with errno cleared.\<close>

lemma uint64_print_parse: "str_to_uint64 errno (str_uint64 v) = Some (v, 0)"
  by (rule uint64_parse_str)

text \<open>Signed 64-bit numbers survive printing and parsing, with errno cleared.\<close>

lemma int64_print_parse:
  assumes "fits64 v"
  shows "str_to_int64 errno (str_int v) = Some (v, 0)"
proof -
  have b: "nat (- v) < 10 ^ 19" "nat v < 10 ^ 19"
    using assms unfolding fits64_def by (simp, arith)+
  have "length (dec_int v) \<le> 20"
    using length_dec_nat [OF b(1)] length_dec_nat [OF b(2)] by (simp add: dec_int_def)
  then have s: "str_int v = dec_int v" by (simp add: str_int_def snprintf_def)
  have "strto_scan (dec_int v @ [NUL]) = Some (v < 0, nat \<bar>v\<bar>, length (dec_int v))"
    by (auto simp: dec_int_def strto_scan_neg strto_scan_dec)
  then show ?thesis
    using assms s by (simp add: str_to_int64_def strtol_def whole_errno_def fits64_def)
qed

text \<open>
  The header comment of the parsing functions says that they set errno on error, but a
  decimal number that is out of the 64-bit range is accepted: errno is cleared and the
  clamped value returned, because the whole-string test runs after strtoll set ERANGE.
\<close>

lemma int64_overflow_unreported:
  assumes "n \<ge> 2 ^ 63"
  shows "str_to_int64 errno (dec_nat n) = Some (2 ^ 63 - 1, 0)"
proof -
  have "strto_scan (dec_nat n @ [NUL]) = Some (False, n, length (dec_nat n))"
    by (rule strto_scan_dec) simp
  moreover have "int n \<ge> 2 ^ 63" using assms by (metis of_nat_le_iff of_nat_numeral of_nat_power)
  ultimately show ?thesis
    by (simp add: str_to_int64_def strtol_def whole_errno_def)
qed

text \<open>
  Trimming removes exactly the surrounding white space: the string is the trimmed string
  between two runs of white space, and the trimmed string neither starts nor ends with one.
\<close>

lemma trim_spec:
  "\<exists>l r. s = l @ trim s @ r \<and> is_empty_str l \<and> is_empty_str r \<and>
     \<not> (trim s \<noteq> [] \<and> isspace (hd (trim s))) \<and> \<not> (trim s \<noteq> [] \<and> isspace (last (trim s)))"
proof -
  obtain l where l: "s = l @ ltrim s" "\<forall>c \<in> set l. isspace c" using ltrim_split by blast
  obtain r where r: "ltrim s = trim s @ r" "\<forall>c \<in> set r. isspace c"
    using rtrim_split [of "ltrim s"] by (auto simp: trim_def)
  have "\<not> isspace (hd (trim s))" if ne: "trim s \<noteq> []"
  proof -
    have "ltrim s \<noteq> []" using r(1) ne by (metis append_is_Nil_conv)
    moreover have "hd (trim s) = hd (ltrim s)"
      using ne unfolding trim_def by (rule rtrim_head)
    ultimately show ?thesis by (simp add: ltrim_head)
  qed
  moreover have "\<not> isspace (last (trim s))" if "trim s \<noteq> []"
    using that rtrim_last [of "ltrim s"] by (simp add: trim_def)
  ultimately show ?thesis
    using l r by (metis is_empty_str_iff append_assoc)
qed

end
