(* ===== verification/Json_Roundtrip.thy ===== *)
theory Json_Roundtrip
  imports Json_Dump
begin

text \<open>
  Reading back what \<open>dump\<close> writes (src/ssdb/src/util/json.hpp): the parser of theory
  Json\_Parser returns the value that theory Json\_Dump has serialized, compact or indented.
  Doubles are excluded, their text being a parameter of the model.
\<close>

section \<open>Tokens of the serialized text\<close>

lemma front_space: "list_all white_space w \<Longrightarrow> front (w @ s) = front s"
  by (auto simp: front_def list_all_iff intro: dropWhile_append2)

lemma at_text_space:
  assumes "list_all white_space w"
  shows "at_text p (w @ s) = at_text p s" "tok (w @ s) = tok s" "behind (w @ s) = behind s"
  using front_space [OF assms, of s] by (simp_all add: at_text_def tok_def lexeme_def behind_def)

lemma white_space_spaces [simp]: "list_all white_space (spaces n)"
  by (simp add: spaces_def list_all_iff white_space_def one_of_def)

lemma white_space_LF [simp]: "white_space LF" "white_space (CHR 0x20)"
  by (simp_all add: white_space_def one_of_def)

lemma delimits_space: "list_all white_space w \<Longrightarrow> delimits z \<Longrightarrow> delimits (w @ z)"
  by (cases w) (auto simp: delimits_def white_space_def one_of_def within_def)

lemma tok_literal:
  "tok (''true'' @ s) = literal_true" "tok (''false'' @ s) = literal_false" "tok (''null'' @ s) = literal_null"
  "behind (''true'' @ s) = s" "behind (''false'' @ s) = s" "behind (''null'' @ s) = s"
  by (simp_all add: tok_def behind_def token_at_Cons within_def prefix_of_def one_of_def)

lemma tok_string:
  assumes "utf8_ok s"
  shows "tok ([CHR 0x22] @ escaped_text s @ CHR 0x22 # z) = value_string"
    "behind ([CHR 0x22] @ escaped_text s @ CHR 0x22 # z) = z"
  using escaped_text_reads [OF assms, of z "[]"] by (simp_all add: tok_def behind_def token_at_Cons)

lemma read_string:
  assumes "utf8_ok s" "at_text p ([CHR 0x22] @ escaped_text s @ CHR 0x22 # z)"
  shows "token_get_string (m_lexer p) = Some (Inr s)"
proof -
  let ?t = "[CHR 0x22] @ escaped_text s @ CHR 0x22 # z"
  obtain r k z' where *: "front ?t = CHR 0x22 # r" "str_len r = Some k"
    "token_get_string (m_lexer p) = Some (decode [] (take k r @ z'))"
    using at_string [OF assms(2) tok_string(1) [OF assms(1)]] by metis
  have "r = escaped_text s @ CHR 0x22 # z" using *(1) by simp
  moreover then have "k = Suc (length (escaped_text s))"
    using *(2) escaped_text_reads [OF assms(1), of z "[]"] by simp
  ultimately show ?thesis
    using *(3) escaped_text_reads [OF assms(1), of z' "[]"] by simp
qed

section \<open>Numbers\<close>

lemma decimal_dec_nat: "c \<in> set (dec_nat n) \<Longrightarrow> decimal c"
  using dec_nat_digits [of c n] by (simp add: isdigit_iff within_def)

lemma dec_nat_zero: "dec_nat 0 = ''0''"
  by (subst dec_nat.simps) (simp add: char_code_eq del: of_char_eq_iff)

lemma dec_nat_hd: "0 < n \<Longrightarrow> within 49 57 (hd (dec_nat n))"
proof (induction n rule: dec_nat.induct)
  case (1 n)
  show ?case
  proof (cases "n < 10")
    case True
    then show ?thesis using 1(2) by (subst dec_nat.simps) (simp add: within_def)
  next
    case False
    then show ?thesis using 1(1) by (subst dec_nat.simps) simp
  qed
qed

lemma after_int_delimits: "delimits z \<Longrightarrow> after_int z = 0"
  by (cases z) (simp_all add: delimits_def after_int_def frac_len_def exp_len_def one_of_def)

lemma int_len_dec_nat:
  assumes "delimits z"
  shows "int_len (dec_nat n @ z) = Some (length (dec_nat n))"
proof (cases "n = 0")
  case False
  have "takeWhile decimal (dec_nat n @ z) = dec_nat n"
    using assms decimal_dec_nat [of _ n] by (cases z) (simp_all add: delimits_def takeWhile_append)
  moreover obtain d ds where "dec_nat n = d # ds" by (cases "dec_nat n") auto
  moreover then have "within 49 57 d" using dec_nat_hd [of n] False by simp
  moreover then have "\<not> one_of ''0'' d" by (auto simp: within_def one_of_def)
  ultimately show ?thesis by (simp add: int_len_def)
qed (simp add: dec_nat_zero int_len_def one_of_def)

lemma unsigned_len_dec_nat: "delimits z \<Longrightarrow> unsigned_len (dec_nat n @ z) = Some (length (dec_nat n))"
  by (simp add: unsigned_len_def int_len_dec_nat after_int_delimits)

lemma token_dec_nat:
  assumes "delimits z"
  shows "front (dec_nat n @ z) = dec_nat n @ z" "token_at (dec_nat n @ z) = (value_number, length (dec_nat n))"
    "token_at (CHR ''-'' # dec_nat n @ z) = (value_number, Suc (length (dec_nat n)))"
proof -
  obtain d ds where d: "dec_nat n = d # ds" "decimal d"
    using decimal_dec_nat [of _ n] by (cases "dec_nat n") auto
  then have "\<not> white_space d" "d \<noteq> CHR 0x22" "d \<noteq> CHR '',''" "d \<noteq> CHR ''-''"
    by (auto simp: within_def white_space_def one_of_def)
  with d unsigned_len_dec_nat [OF assms, of n]
  show "front (dec_nat n @ z) = dec_nat n @ z" "token_at (dec_nat n @ z) = (value_number, length (dec_nat n))"
    "token_at (CHR ''-'' # dec_nat n @ z) = (value_number, Suc (length (dec_nat n)))"
    by (simp_all add: front_def token_at_Cons)
qed

lemma tok_number:
  assumes "delimits z"
  shows "tok (dec_nat n @ z) = value_number" "behind (dec_nat n @ z) = z" "lexeme (dec_nat n @ z) = dec_nat n"
    "tok (CHR ''-'' # dec_nat n @ z) = value_number" "behind (CHR ''-'' # dec_nat n @ z) = z"
    "lexeme (CHR ''-'' # dec_nat n @ z) = CHR ''-'' # dec_nat n"
proof -
  have "front (CHR ''-'' # s) = CHR ''-'' # s" for s
    by (rule front_not_space) (simp add: white_space_def one_of_def)
  then show "tok (dec_nat n @ z) = value_number" "behind (dec_nat n @ z) = z" "lexeme (dec_nat n @ z) = dec_nat n"
    "tok (CHR ''-'' # dec_nat n @ z) = value_number" "behind (CHR ''-'' # dec_nat n @ z) = z"
    "lexeme (CHR ''-'' # dec_nat n @ z) = CHR ''-'' # dec_nat n"
    using token_dec_nat [OF assms] by (simp_all add: tok_def behind_def lexeme_def)
qed


text \<open>\<open>get_number\<close> computes the value of the digits as long as it stays within the maximum.\<close>

lemma number_loop_digit:
  assumes "d < 10" "10 * v + d \<le> mx" "ty \<noteq> number_float"
  shows "number_loop mx (char_of (48 + d) # cs) ty v = number_loop mx cs ty (10 * v + d)"
proof -
  have of_char: "(of_char (char_of (48 + d) :: char) :: nat) = 48 + d" using assms(1) by simp
  then have "\<not> char_of (48 + d) < CHR ''0''" "\<not> CHR ''9'' < (char_of (48 + d) :: char)"
    using assms(1) by (simp_all add: less_char_def)
  moreover have "\<not> (mx - d) div 10 < v" using assms(2) by linarith
  ultimately show ?thesis
    using assms(3) of_char by (simp add: Let_def mult.commute)
qed

lemma number_loop_dec_nat:
  "n \<le> mx \<Longrightarrow> ty \<noteq> number_float \<Longrightarrow> number_loop mx (dec_nat n @ cs) ty 0 = number_loop mx cs ty n"
proof (induction n arbitrary: cs rule: dec_nat.induct)
  case (1 n)
  have m: "n mod 10 < 10" "10 * (n div 10) + n mod 10 \<le> mx" using 1(2) by simp_all
  show ?case
  proof (cases "n < 10")
    case True
    have "dec_nat n = [char_of (48 + n)]" using True by (subst dec_nat.simps) simp
    then show ?thesis using number_loop_digit [of n 0 mx ty cs] True 1(2,3) by (simp del: number_loop.simps)
  next
    case False
    have "dec_nat n = dec_nat (n div 10) @ [char_of (48 + n mod 10)]" using False by (subst dec_nat.simps) simp
    then have "number_loop mx (dec_nat n @ cs) ty 0 = number_loop mx (char_of (48 + n mod 10) # cs) ty (n div 10)"
      using 1(1) [OF False _ 1(3)] 1(2) by simp
    also have "\<dots> = number_loop mx cs ty n" using number_loop_digit [OF m 1(3)] by simp
    finally show ?thesis .
  qed
qed

lemma number_loop_token: "n \<le> mx \<Longrightarrow> ty \<noteq> number_float \<Longrightarrow> number_loop mx (dec_nat n) ty 0 = (ty, n)"
  using number_loop_dec_nat [of n mx ty "[]"] by simp

lemma get_number_unsigned:
  assumes "\<not> m_null l" "token_text l = dec_nat n" "n < 2 ^ 64"
  shows "get_number strtod l = Some (JUnsigned n)"
proof -
  have "take 1 (dec_nat n) \<noteq> ''-''"
    using decimal_dec_nat [of "CHR ''-''" n] by (cases "dec_nat n") (auto simp: within_def)
  moreover have "number_loop (2 ^ 64 - 1) (dec_nat n) number_unsigned 0 = (number_unsigned, n)"
    by (rule number_loop_token) (use assms(3) in simp_all)
  ultimately show ?thesis
    by (simp only: get_number_def Let_def assms(1,2) if_False simp_thms split prod.case number_type.case)
qed

lemma get_number_negative:
  assumes "\<not> m_null l" "token_text l = CHR ''-'' # dec_nat n" "n \<le> 2 ^ 63"
  shows "get_number strtod l = Some (JInt (- int n))"
proof -
  have "number_loop (2 ^ 63) (dec_nat n) number_integer 0 = (number_integer, n)"
    by (rule number_loop_token) (use assms(3) in simp_all)
  moreover have "\<not> (2 ^ 63 < n)" "(if n = 2 ^ 63 then - (2 ^ 63) else - int n) = - int n" using assms(3) by simp_all
  moreover have "take 1 (CHR ''-'' # dec_nat n) = ''-''" "drop 1 (CHR ''-'' # dec_nat n) = dec_nat n" by simp_all
  ultimately show ?thesis
    by (simp only: get_number_def Let_def assms(1,2) if_True if_False simp_thms split prod.case number_type.case)
qed

lemma read_number:
  assumes "at_text p (t @ z)" "tok (t @ z) = value_number" "lexeme (t @ z) = t"
  shows "\<not> m_null (m_lexer p)" "token_text (m_lexer p) = t"
  using assms by (simp_all add: at_text_def scanned_def lex_ok_def)

section \<open>Values\<close>

text \<open>The parser has returned a value and has the first token of the text behind it.\<close>

definition reads :: "('a \<times> parser) parsing \<Rightarrow> 'a \<Rightarrow> bytes \<Rightarrow> bool" where
  "reads r v z \<longleftrightarrow> (\<exists>p. r = Some (Inr (v, p)) \<and> at_text p z)"

lemma reads_token:
  assumes "at_text p s" "tok s \<noteq> end_of_input" "\<And>p'. at_text p' (behind s) \<Longrightarrow> reads (f p') js z"
  shows "reads (and_then (get_token p) f) js z"
proof -
  obtain p' where "get_token p = Some (Inr p')" "at_text p' (behind s)"
    using assms(1,2) by (rule get_token_next)
  with assms(3) [of p'] show ?thesis by simp
qed

lemma reads_value: "at_text p z \<Longrightarrow> reads (Some (Inr (js, p))) js z"
  by (simp add: reads_def)

lemma reads_leaf:
  assumes "at_text p s" "tok s \<noteq> end_of_input" "behind s = z"
  shows "reads (and_then (get_token p) (\<lambda>p. Some (Inr (js, p)))) js z"
  using assms(3) by (intro reads_token [OF assms(1,2)] reads_value) simp

lemma reads_then:
  assumes "reads r js z" "\<And>p. at_text p z \<Longrightarrow> reads (f (js, p)) js' z'"
  shows "reads (and_then r f) js' z'"
  using assms by (auto simp: reads_def)

lemma expect_at: "at_text p s \<Longrightarrow> expect (tok s) p = Some (Inr ())"
  by (simp add: expect_def at_tok)

lemma unexpect_at: "at_text p s \<Longrightarrow> tok s \<noteq> t \<Longrightarrow> unexpect t p = Some (Inr ())"
  by (auto simp: unexpect_def at_tok)

lemma map_assign_last: "\<forall>k' \<in> fst ` set obj. k' < k \<Longrightarrow> map_assign k v obj = obj @ [(k, v)]"
proof (induction obj)
  case (Cons kv obj)
  then have "fst kv < k" by simp
  then have "\<not> k < fst kv" "k \<noteq> fst kv" by (auto dest: less_not_sym)
  with Cons show ?case by (cases kv) simp
qed simp


text \<open>
  A piece of text is read as a value: whatever follows it, as long as that cannot continue a
  number, with fuel for the length of the text.
\<close>

definition text_reads :: "(nat \<Rightarrow> parser \<Rightarrow> ('a \<times> parser) parsing) \<Rightarrow> bytes \<Rightarrow> 'a \<Rightarrow> bool" where
  "text_reads f t v \<longleftrightarrow>
     (\<forall>p n z. delimits z \<longrightarrow> at_text p (t @ z) \<longrightarrow> length t \<le> n \<longrightarrow> reads (f n p) v z)"

lemma text_readsD:
  "text_reads f t v \<Longrightarrow> delimits z \<Longrightarrow> at_text p (t @ z) \<Longrightarrow> length t \<le> n \<Longrightarrow> reads (f n p) v z"
  by (simp add: text_reads_def)

lemma text_readsI:
  assumes "\<And>p n z. delimits z \<Longrightarrow> at_text p (t @ z) \<Longrightarrow> length t \<le> Suc n \<Longrightarrow> reads (f (Suc n) p) v z" "t \<noteq> []"
  shows "text_reads f t v"
  unfolding text_reads_def
proof (intro allI impI)
  fix p n z assume *: "delimits z" "at_text p (t @ z)" "length t \<le> n"
  then obtain m where "n = Suc m" using assms(2) by (cases n) auto
  with * assms(1) show "reads (f n p) v z" by simp
qed

lemma skip_comma:
  assumes "at_text p (CHR '','' # w @ s)" "list_all white_space w"
  obtains p' where "skip_separator p = Some (Inr p')" "at_text p' s"
  using get_token_next [OF assms(1)] at_tok [OF assms(1)] that assms(2)
  by (simp add: skip_separator_def at_text_space(1)) blast

lemma skip_none:
  assumes "at_text p s" "tok s \<noteq> value_separator"
  shows "skip_separator p = Some (Inr p)"
  using assms by (simp add: skip_separator_def at_tok)

lemma separated_Cons:
  "xs \<noteq> [] \<Longrightarrow> separated sep (x # xs) = x @ sep @ separated sep xs"
  by (cases xs) simp_all

text \<open>
  The loops of the parser, read from the text of the items, indented and separated by a comma with
  white space behind it, collect the items in order.
\<close>

context item_loop begin

lemma last_item:
  assumes "text_reads item t v" "list_all white_space close" "skip_separator p = Some (Inr p1)"
    "at_text p1 (t @ close @ close_char # z)" "length t \<le> n"
  shows "reads (loop (Suc n) acc p) (finish (add v acc)) z"
proof -
  have "delimits (close @ close_char # z)" using assms(2) close_token(3) by (rule delimits_space)
  then have "reads (item n p1) v (close @ close_char # z)"
    using assms(1,4,5) by (intro text_readsD [where t = t])
  then show ?thesis unfolding loop_Suc assms(3) and_then_simps
  proof (rule reads_then)
    fix p assume "at_text p (close @ close_char # z)"
    then have p: "at_text p (close_char # z)" using assms(2) by (simp add: at_text_space)
    have "reads (and_then (get_token p) (\<lambda>p. Some (Inr (finish (add v acc), p)))) (finish (add v acc)) z"
      using close_other by (intro reads_leaf [OF p]) (simp_all add: close_token)
    then show "reads (case (v, p) of (v, p) \<Rightarrow>
        if last_token p = value_separator then loop n (add v acc) p
        else and_then (expect close_token p) (\<lambda>_.
             and_then (get_token p) (\<lambda>p. Some (Inr (finish (add v acc), p))))) (finish (add v acc)) z"
      using at_tok [OF p] expect_at [OF p] close_other by (simp add: close_token)
  qed
qed

lemma further_item:
  assumes "text_reads item t v" "list_all white_space w" "skip_separator p = Some (Inr p1)"
    "at_text p1 (t @ CHR '','' # w @ s)" "length t \<le> n"
    "\<And>p p1. skip_separator p = Some (Inr p1) \<Longrightarrow> at_text p1 s \<Longrightarrow> reads (loop n (add v acc) p) js z"
  shows "reads (loop (Suc n) acc p) js z"
proof -
  have "reads (item n p1) v (CHR '','' # w @ s)"
    using assms(1,4,5) by (intro text_readsD [where t = t]) simp_all
  then show ?thesis unfolding loop_Suc assms(3) and_then_simps
  proof (rule reads_then)
    fix p assume p: "at_text p (CHR '','' # w @ s)"
    obtain p1 where "skip_separator p = Some (Inr p1)" "at_text p1 s" using skip_comma [OF p assms(2)] .
    then have "reads (loop n (add v acc) p) js z" by (rule assms(6))
    then show "reads (case (v, p) of (v, p) \<Rightarrow>
        if last_token p = value_separator then loop n (add v acc) p
        else and_then (expect close_token p) (\<lambda>_.
             and_then (get_token p) (\<lambda>p. Some (Inr (finish (add v acc), p))))) js z"
      using at_tok [OF p] by simp
  qed
qed

lemma first_item:
  assumes "xs \<noteq> []" "list_all white_space close"
  shows "\<exists>y. separated (CHR '','' # w) (map (\<lambda>x. ind @ t x) xs) @ close @ close_char # z = ind @ t (hd xs) @ y \<and> delimits y"
proof -
  obtain x ys where xs: "xs = x # ys" using assms(1) by (cases xs) auto
  have "delimits (close @ close_char # z)" using assms(2) close_token(3) by (rule delimits_space)
  then show ?thesis unfolding xs by (cases ys) auto
qed

lemma loop_reads:
  assumes "list_all white_space w" "list_all white_space ind" "list_all white_space close" "xs \<noteq> []"
    "\<And>x. x \<in> set xs \<Longrightarrow> text_reads item (t x) x"
    "skip_separator p = Some (Inr p1)"
    "at_text p1 (separated (CHR '','' # w) (map (\<lambda>x. ind @ t x) xs) @ close @ close_char # z)"
    "length (separated (CHR '','' # w) (map (\<lambda>x. ind @ t x) xs)) < n"
  shows "reads (loop n acc p) (finish (fold add xs acc)) z"
  using assms(4-)
proof (induction xs arbitrary: acc p p1 n)
  case (Cons x xs)
  obtain k where n: "n = Suc k" using Cons.prems(5) by (cases n) auto
  have x: "text_reads item (t x) x" using Cons.prems(2) by simp
  show ?case
  proof (cases "xs = []")
    case True
    then show ?thesis
      using last_item [OF x assms(3) Cons.prems(3)] Cons.prems(4,5) assms(2) n by (simp add: at_text_space)
  next
    case False
    let ?s = "separated (CHR '','' # w) (map (\<lambda>x. ind @ t x) xs)"
    have sep: "separated (CHR '','' # w) (map (\<lambda>x. ind @ t x) (x # xs)) = ind @ t x @ CHR '','' # w @ ?s"
      using False separated_Cons [of "map (\<lambda>x. ind @ t x) xs"] by simp
    have "reads (loop k (add x acc) p) (finish (fold add xs (add x acc))) z"
      if "skip_separator p = Some (Inr p1)" "at_text p1 (?s @ close @ close_char # z)" for p p1
      using Cons.IH [OF False _ that] Cons.prems(2,5) n unfolding sep by simp
    then have "reads (loop (Suc k) acc p) (finish (fold add xs (add x acc))) z"
      using Cons.prems(4,5) n assms(2) unfolding sep
      by (intro further_item [OF x assms(1) Cons.prems(3)]) (simp_all add: at_text_space)
    then show ?thesis using n by simp
  qed
qed simp

end


context container begin

lemma empty_reads: "text_reads internal [open_char, close_char] (finish init)"
proof (rule text_readsI)
  fix p n z assume "at_text p ([open_char, close_char] @ z)"
  then have p: "at_text p (open_char # close_char # z)" by simp
  show "reads (internal (Suc n) p) (finish init) z"
    unfolding internal_Suc [OF at_tok [OF p, unfolded open_token]]
  proof (rule reads_token [OF p])
    fix p' assume "at_text p' (behind (open_char # close_char # z))"
    then have p': "at_text p' (close_char # z)" by (simp add: open_token)
    then show "reads (if last_token p' = close_token then and_then (get_token p') (\<lambda>p. Some (Inr (finish init, p)))
        else and_then (unexpect value_separator p') (\<lambda>_. loop n init p')) (finish init) z"
      using at_tok [OF p'] close_other by (simp add: close_token reads_leaf [OF p'])
  qed (simp add: open_token)
qed simp

lemma items_read:
  assumes "list_all white_space w" "list_all white_space ind" "list_all white_space close" "xs \<noteq> []"
    "\<And>x. x \<in> set xs \<Longrightarrow> text_reads item (t x) x"
    "\<And>z. delimits z \<Longrightarrow> tok (t (hd xs) @ z) \<notin> {close_token, value_separator}"
  shows "text_reads internal
    (open_char # w @ separated (CHR '','' # w) (map (\<lambda>x. ind @ t x) xs) @ close @ [close_char]) (finish (fold add xs init))"
proof (rule text_readsI)
  let ?items = "separated (CHR '','' # w) (map (\<lambda>x. ind @ t x) xs)"
  fix p n z
  let ?s = "?items @ close @ close_char # z"
  assume "at_text p ((open_char # w @ ?items @ close @ [close_char]) @ z)"
    and n: "length (open_char # w @ ?items @ close @ [close_char]) \<le> Suc n"
  then have p: "at_text p (open_char # w @ ?s)" by simp
  show "reads (internal (Suc n) p) (finish (fold add xs init)) z"
    unfolding internal_Suc [OF at_tok [OF p, unfolded open_token]]
  proof (rule reads_token [OF p])
    fix p' assume "at_text p' (behind (open_char # w @ ?s))"
    then have p': "at_text p' ?s" using assms(1) by (simp add: open_token at_text_space)
    obtain y where "?s = ind @ t (hd xs) @ y" "delimits y" using first_item [OF assms(4,3)] by blast
    then have first: "tok ?s \<notin> {close_token, value_separator}" using assms(2,6) by (simp add: at_text_space)
    have "reads (loop n init p') (finish (fold add xs init)) z"
      by (rule loop_reads [OF assms(1-5) skip_none [OF p'] p']) (use first n in simp_all)
    then show "reads (if last_token p' = close_token then and_then (get_token p') (\<lambda>p. Some (Inr (finish init, p)))
        else and_then (unexpect value_separator p') (\<lambda>_. loop n init p')) (finish (fold add xs init)) z"
      using at_tok [OF p'] first unexpect_at [OF p'] by simp
  qed (simp add: open_token)
qed simp

end

section \<open>Members and elements\<close>

lemma fold_append: "fold (\<lambda>x arr. arr @ [x]) xs arr = arr @ xs"
  by (induction xs arbitrary: arr) simp_all

lemma fold_map_assign:
  "sorted_wrt (<) (map fst (obj @ kvs)) \<Longrightarrow> fold (\<lambda>kv obj. map_assign (fst kv) (snd kv) obj) kvs obj = obj @ kvs"
proof (induction kvs arbitrary: obj)
  case (Cons kv kvs)
  then have "map_assign (fst kv) (snd kv) obj = obj @ [kv]"
    using map_assign_last [of obj "fst kv" "snd kv"] by (simp add: sorted_wrt_append)
  with Cons show ?case by simp
qed simp

lemma member_reads:
  assumes "utf8_ok k" "text_reads (parse_internal strtod) t v" "list_all white_space sp"
  shows "text_reads (parse_member strtod) ([CHR 0x22] @ escaped_text k @ CHR 0x22 # CHR '':'' # sp @ t) (k, v)"
  unfolding text_reads_def
proof (intro allI impI)
  fix p n z
  let ?colon = "CHR '':'' # sp @ t @ z" and ?text = "[CHR 0x22] @ escaped_text k @ CHR 0x22 # CHR '':'' # sp @ t"
  assume z: "delimits z" and p: "at_text p (?text @ z)" and n: "length ?text \<le> n"
  have p: "at_text p ([CHR 0x22] @ escaped_text k @ CHR 0x22 # ?colon)" using p by simp
  note key = tok_string [OF assms(1), of ?colon]
  have "reads (and_then (get_token p) (\<lambda>p. and_then (expect name_separator p) (\<lambda>_. and_then (get_token p) (\<lambda>p.
      and_then (parse_internal strtod n p) (\<lambda>(value, p). Some (Inr ((k, value), p))))))) (k, v) z"
  proof (rule reads_token [OF p])
    fix p' assume "at_text p' (behind ([CHR 0x22] @ escaped_text k @ CHR 0x22 # ?colon))"
    then have p': "at_text p' ?colon" unfolding key .
    have "reads (and_then (get_token p') (\<lambda>p.
        and_then (parse_internal strtod n p) (\<lambda>(value, p). Some (Inr ((k, value), p))))) (k, v) z"
    proof (rule reads_token [OF p'])
      fix p'' assume "at_text p'' (behind ?colon)"
      then have "at_text p'' (t @ z)" using assms(3) by (simp add: at_text_space)
      then have "reads (parse_internal strtod n p'') v z" using text_readsD [OF assms(2) z] n by simp
      then show "reads (and_then (parse_internal strtod n p'') (\<lambda>(value, p). Some (Inr ((k, value), p)))) (k, v) z"
        by (rule reads_then) (simp add: reads_value)
    qed simp
    then show "reads (and_then (expect name_separator p') (\<lambda>_. and_then (get_token p') (\<lambda>p.
        and_then (parse_internal strtod n p) (\<lambda>(value, p). Some (Inr ((k, value), p)))))) (k, v) z"
      using expect_at [OF p'] by simp
  qed (simp add: key(1) del: append.simps)
  then show "reads (parse_member strtod n p) (k, v) z"
    using expect_at [OF p] read_string [OF assms(1) p] unfolding key by (simp add: parse_member_def)
qed


section \<open>Every value without doubles\<close>

text \<open>
  The values that survive: no doubles, and negative integers apart from \<open>-0\<close>, which is read back
  as the unsigned zero it is written as.
\<close>

fun exact_numbers :: "json \<Rightarrow> bool" where
  "exact_numbers (JFloat m e) = False"
| "exact_numbers (JInt i) = (i \<noteq> 0)"
| "exact_numbers (JArray arr) = (\<forall>js \<in> set arr. exact_numbers js)"
| "exact_numbers (JObject obj) = (\<forall>kv \<in> set obj. exact_numbers (snd kv))"
| "exact_numbers _ = True"

definition json_ok :: "json \<Rightarrow> bool" where
  "json_ok js \<longleftrightarrow> json_typed js \<and> exact_numbers js"

lemma json_ok_simps [simp]:
  "json_ok JNull" "json_ok (JBool b)" "json_ok (JString s) = utf8_ok s"
  "json_ok (JInt i) = (- (2 ^ 63) \<le> i \<and> i < 0)" "json_ok (JUnsigned n) = (n < 2 ^ 64)"
  "\<not> json_ok (JFloat m e)" "json_ok (JArray arr) = (\<forall>js \<in> set arr. json_ok js)"
  "json_ok (JObject obj) =
     (sorted_wrt (<) (map fst obj) \<and> (\<forall>kv \<in> set obj. utf8_ok (fst kv) \<and> json_ok (snd kv)))"
  by (auto simp: json_ok_def)

lemma number_reads: "n < 2 ^ 64 \<Longrightarrow> text_reads (parse_internal strtod) (dec_nat n) (JUnsigned n)"
  "m \<le> 2 ^ 63 \<Longrightarrow> text_reads (parse_internal strtod) (CHR ''-'' # dec_nat m) (JInt (- int m))"
proof -
  assume n: "n < 2 ^ 64"
  show "text_reads (parse_internal strtod) (dec_nat n) (JUnsigned n)"
  proof (rule text_readsI)
    fix p k z assume z: "delimits z" and p: "at_text p (dec_nat n @ z)"
    note t = tok_number [OF z, of n]
    have "get_number strtod (m_lexer p) = Some (JUnsigned n)"
      using get_number_unsigned [OF read_number [OF p t(1,3)] n] .
    then show "reads (parse_internal strtod (Suc k) p) (JUnsigned n) z"
      using at_tok [OF p] t(1) reads_leaf [OF p _ t(2)] by simp
  qed simp
next
  assume m: "m \<le> 2 ^ 63"
  show "text_reads (parse_internal strtod) (CHR ''-'' # dec_nat m) (JInt (- int m))"
  proof (rule text_readsI)
    fix p k z assume z: "delimits z" and "at_text p ((CHR ''-'' # dec_nat m) @ z)"
    then have p: "at_text p (CHR ''-'' # dec_nat m @ z)" by simp
    note t = tok_number(4-6) [OF z, of m]
    have "get_number strtod (m_lexer p) = Some (JInt (- int m))"
      using get_number_negative [OF read_number [of p "CHR ''-'' # dec_nat m" z] m] p t by simp
    then show "reads (parse_internal strtod (Suc k) p) (JInt (- int m)) z"
      using at_tok [OF p] t(1) reads_leaf [OF p _ t(2)] by simp
  qed simp
qed

lemma string_reads: "utf8_ok s \<Longrightarrow> text_reads (parse_internal strtod) ([CHR 0x22] @ escaped_text s @ [CHR 0x22]) (JString s)"
proof (rule text_readsI)
  fix p k z assume s: "utf8_ok s" and "at_text p (([CHR 0x22] @ escaped_text s @ [CHR 0x22]) @ z)"
  then have p: "at_text p ([CHR 0x22] @ escaped_text s @ CHR 0x22 # z)" by simp
  note t = tok_string [OF s, of z]
  show "reads (parse_internal strtod (Suc k) p) (JString s) z"
    using at_tok [OF p] read_string [OF s p] t(1) reads_leaf [OF p _ t(2)] by simp
qed simp

lemma literal_reads:
  "text_reads (parse_internal strtod) ''true'' (JBool True)"
  "text_reads (parse_internal strtod) ''false'' (JBool False)"
  "text_reads (parse_internal strtod) ''null'' JNull"
proof -
  have leaf: "text_reads (parse_internal strtod) t v"
    if "\<And>z. tok (t @ z) = k" "\<And>z. behind (t @ z) = z" "t \<noteq> []" "k \<noteq> end_of_input"
      "\<And>p n. last_token p = k \<Longrightarrow> parse_internal strtod (Suc n) p = and_then (get_token p) (\<lambda>p. Some (Inr (v, p)))"
    for t v k
  proof (rule text_readsI [OF _ that(3)])
    fix p n z assume p: "at_text p (t @ z)"
    have "tok (t @ z) = k" by (rule that(1))
    then show "reads (parse_internal strtod (Suc n) p) v z"
      using at_tok [OF p] that(4) by (simp only: that(5)) (rule reads_leaf [OF p _ that(2)], simp)
  qed
  show "text_reads (parse_internal strtod) ''true'' (JBool True)"
    by (rule leaf [OF tok_literal(1,4)]) simp_all
  show "text_reads (parse_internal strtod) ''false'' (JBool False)"
    by (rule leaf [OF tok_literal(2,5)]) simp_all
  show "text_reads (parse_internal strtod) ''null'' JNull"
    by (rule leaf [OF tok_literal(3,6)]) simp_all
qed


lemma dump_start:
  assumes "json_ok js" "delimits z"
  shows "tok (dump_value ft pretty step cur js @ z) \<notin> {end_array, end_object, value_separator, end_of_input}"
proof (cases js)
  case (JString s)
  then show ?thesis using assms(1) tok_string(1) [of s z] by simp
next
  case (JBool b)
  then show ?thesis using tok_literal(1,2) [of z] by simp
next
  case (JInt i)
  then show ?thesis using assms tok_number(4) by (simp add: dec_int_def)
next
  case (JUnsigned n)
  then show ?thesis using assms tok_number(1) by simp
next
  case JNull
  then show ?thesis using tok_literal(3) [of z] by simp
qed (use assms in \<open>simp_all add: Let_def\<close>)


lemma dump_array:
  assumes "arr \<noteq> []"
  obtains w ind close where "list_all white_space w" "list_all white_space ind" "list_all white_space close"
    "dump_value ft pretty step cur (JArray arr) =
      CHR ''['' # w @ separated (CHR '','' # w)
        (map (\<lambda>x. ind @ dump_value ft pretty step (if pretty then cur + step else cur) x) arr) @ close @ [CHR '']'']"
proof -
  let ?w = "if pretty then [LF] else []"
  show thesis
    by (rule that [of ?w "spaces (if pretty then cur + step else cur)" "?w @ spaces cur"])
      (use assms in \<open>simp_all add: Let_def\<close>)
qed

lemma dump_object:
  assumes "obj \<noteq> []"
  obtains w ind sp close where "list_all white_space w" "list_all white_space ind" "list_all white_space sp"
    "list_all white_space close"
    "dump_value ft pretty step cur (JObject obj) =
      CHR ''{'' # w @ separated (CHR '','' # w)
        (map (\<lambda>kv. ind @ [CHR 0x22] @ escaped_text (fst kv) @ CHR 0x22 # CHR '':'' # sp @
           dump_value ft pretty step (if pretty then cur + step else cur) (snd kv)) obj) @ close @ [CHR ''}'']"
proof -
  let ?w = "if pretty then [LF] else []"
  show thesis
    by (rule that [of ?w "spaces (if pretty then cur + step else cur)" "if pretty then [CHR 0x20] else []" "?w @ spaces cur"])
      (use assms in \<open>simp_all add: Let_def\<close>)
qed

lemma dump_reads:
  "json_ok js \<Longrightarrow> text_reads (parse_internal strtod) (dump_value ft pretty step cur js) js"
proof (induction js arbitrary: cur)
  case JNull
  then show ?case by (simp add: literal_reads)
next
  case (JObject obj)
  show ?case
  proof (cases "obj = []")
    case True
    then show ?thesis using objects.empty_reads [of strtod] by simp
  next
    case False
    define cur' where "cur' = (if pretty then cur + step else cur)"
    obtain w ind sp close where white: "list_all white_space w" "list_all white_space ind" "list_all white_space sp"
      "list_all white_space close" and dump: "dump_value ft pretty step cur (JObject obj) =
      CHR ''{'' # w @ separated (CHR '','' # w)
        (map (\<lambda>kv. ind @ [CHR 0x22] @ escaped_text (fst kv) @ CHR 0x22 # CHR '':'' # sp @
           dump_value ft pretty step cur' (snd kv)) obj) @ close @ [CHR ''}'']"
      using dump_object [OF False] unfolding cur'_def .
    have member: "text_reads (parse_member strtod) ([CHR 0x22] @ escaped_text (fst kv) @ CHR 0x22 # CHR '':'' # sp @
        dump_value ft pretty step cur' (snd kv)) kv" if "kv \<in> set obj" for kv
    proof -
      have "snd kv \<in> Basic_BNFs.snds kv" by (cases kv) simp
      then show ?thesis
        using JObject.IH [OF that] JObject.prems that member_reads [of "fst kv" strtod _ "snd kv" sp] white(3) by simp
    qed
    have first: "tok (([CHR 0x22] @ escaped_text (fst (hd obj)) @ CHR 0x22 # CHR '':'' # sp @
        dump_value ft pretty step cur' (snd (hd obj))) @ z) \<notin> {end_object, value_separator}" for z
    proof -
      have "utf8_ok (fst (hd obj))" using JObject.prems False by simp
      from tok_string(1) [OF this, of "CHR '':'' # sp @ dump_value ft pretty step cur' (snd (hd obj)) @ z"]
      show ?thesis by simp
    qed
    have "fold (\<lambda>kv obj. map_assign (fst kv) (snd kv) obj) obj [] = obj"
      using fold_map_assign [of "[]" obj] JObject.prems by simp
    then show ?thesis
      unfolding dump using objects.items_read [OF white(1,2,4) False member first] by simp
  qed
next
  case (JArray arr)
  show ?case
  proof (cases "arr = []")
    case True
    then show ?thesis using arrays.empty_reads [of strtod] by simp
  next
    case False
    define cur' where "cur' = (if pretty then cur + step else cur)"
    obtain w ind close where white: "list_all white_space w" "list_all white_space ind" "list_all white_space close"
      and dump: "dump_value ft pretty step cur (JArray arr) =
      CHR ''['' # w @ separated (CHR '','' # w)
        (map (\<lambda>x. ind @ dump_value ft pretty step cur' x) arr) @ close @ [CHR '']'']"
      using dump_array [OF False] unfolding cur'_def .
    have element: "text_reads (parse_internal strtod) (dump_value ft pretty step cur' x) x" if "x \<in> set arr" for x
      using JArray that by simp
    have first: "tok (dump_value ft pretty step cur' (hd arr) @ z) \<notin> {end_array, value_separator}"
      if "delimits z" for z
      using dump_start [OF _ that, of "hd arr"] JArray.prems False by simp
    show ?thesis
      unfolding dump using arrays.items_read [OF white False element first] by (simp add: fold_append)
  qed
next
  case (JString s)
  then show ?case using string_reads [of s] by simp
next
  case (JBool b)
  then show ?case by (cases b) (simp_all add: literal_reads)
next
  case (JInt i)
  then have "nat (- i) \<le> 2 ^ 63" by (simp add: nat_le_iff)
  from number_reads(2) [OF this, of strtod] JInt show ?case by (simp add: dec_int_def)
next
  case (JUnsigned n)
  then show ?case using number_reads(1) [of n] by simp
next
  case (JFloat m e)
  then show ?case by simp
qed


section \<open>The round trip\<close>

text \<open>The text has no null, and does not start with a byte-order mark.\<close>

lemma set_separated: "set (separated sep xs) \<subseteq> set sep \<union> (\<Union>x \<in> set xs. set x)"
  by (induction sep xs rule: separated.induct) auto

lemma escaped_no_NUL: "NUL \<notin> set (escaped c)"
proof -
  have "\<not> hexadecimal NUL" by (simp add: hexadecimal_def within_def)
  then have "NUL \<noteq> hex_digit n" if "n < 16" for n
    using hex_digit_value(1) [OF that] by metis
  then show ?thesis by (auto simp: escaped_def)
qed

lemma escaped_text_no_NUL: "NUL \<notin> set (escaped_text s)"
  using escaped_no_NUL by (auto simp: escaped_text_def)

lemma dec_nat_no_NUL: "NUL \<notin> set (dec_nat n)"
  using decimal_dec_nat [of NUL n] by (auto simp: within_def)

lemma dump_no_NUL: "json_ok js \<Longrightarrow> NUL \<notin> set (dump_value ft pretty step cur js)"
proof (induction js arbitrary: cur)
  case (JObject obj)
  let ?item = "\<lambda>kv. spaces (if pretty then cur + step else cur) @ [CHR 0x22] @ escaped_text (fst kv) @ [CHR 0x22, CHR '':''] @
    (if pretty then [CHR 0x20] else []) @ dump_value ft pretty step (if pretty then cur + step else cur) (snd kv)"
  have "NUL \<notin> set (dump_value ft pretty step cur' (snd kv))" if "kv \<in> set obj" for kv cur'
    using JObject.IH [OF that] JObject.prems that by (cases kv) auto
  then have "\<forall>kv \<in> set obj. NUL \<notin> set (?item kv)" by (auto simp: escaped_text_no_NUL spaces_def)
  then show ?case
    using set_separated [of "if pretty then [CHR '','', LF] else [CHR '','']" "map ?item obj"]
    by (auto simp: Let_def spaces_def)
next
  case (JArray arr)
  let ?item = "\<lambda>x. spaces (if pretty then cur + step else cur) @ dump_value ft pretty step (if pretty then cur + step else cur) x"
  have "\<forall>x \<in> set arr. NUL \<notin> set (?item x)" using JArray by (auto simp: spaces_def)
  then show ?case
    using set_separated [of "if pretty then [CHR '','', LF] else [CHR '','']" "map ?item arr"]
    by (auto simp: Let_def spaces_def)
qed (auto simp: escaped_text_no_NUL dec_nat_no_NUL dec_int_def)

lemma dump_hd: "json_ok js \<Longrightarrow> of_char (hd (dump_value ft pretty step cur js @ z)) < (128 :: nat)"
proof (cases js)
  case (JUnsigned n)
  have "decimal (hd (dec_nat n))" by (rule decimal_dec_nat [of _ n]) (simp add: hd_in_set)
  then show ?thesis using JUnsigned by (simp add: within_def)
qed (auto simp: dec_int_def Let_def)

lemma stream_start_dump:
  assumes "json_ok js"
  shows "stream_start (dump_value ft pretty step cur js) = dump_value ft pretty step cur js @ [LF]"
proof -
  let ?t = "dump_value ft pretty step cur js @ [LF]"
  have "NUL \<notin> set ?t" using dump_no_NUL [OF assms] by simp
  then have "takeWhile (\<lambda>c. c \<noteq> NUL) ?t = ?t" by (auto simp: takeWhile_eq_all_conv)
  moreover have "take 3 ?t \<noteq> BOM"
  proof
    assume "take 3 ?t = BOM"
    then have "hd ?t = CHR 0xEF" unfolding take_3_BOM by (auto simp: BOM_def)
    then show False using dump_hd [OF assms, of ft pretty step cur "[LF]"] by simp
  qed
  ultimately show ?thesis by (simp add: stream_start_def skip_bom_other)
qed

lemma parse_dump:
  assumes "json_ok js"
  shows "parse_stream strtod False \<lparr>s_rest = dump_value ft pretty step cur js, s_eof = False\<rparr> = Some (Inr js)"
proof -
  let ?t = "dump_value ft pretty step cur js" and ?s = "\<lparr>s_rest = dump_value ft pretty step cur js, s_eof = False\<rparr>"
  have "\<not> s_eof ?s" by simp
  then obtain p where p: "at_text p (?t @ [LF])"
    "parse_stream strtod False ?s =
       and_then (parse_internal strtod (2 * length ?t + 5) p) (\<lambda>(result, p).
       and_then (expect end_of_input p) (\<lambda>_. Some (Inr result)))"
    by (rule parse_stream_good [where strtod = strtod]) (simp add: stream_start_dump [OF assms])
  have "reads (parse_internal strtod (2 * length ?t + 5) p) js [LF]"
    by (rule text_readsD [OF dump_reads [OF assms] _ p(1)]) simp_all
  then obtain p' where p': "parse_internal strtod (2 * length ?t + 5) p = Some (Inr (js, p'))" "at_text p' [LF]"
    by (auto simp: reads_def)
  have "tok [LF] = end_of_input" by (simp add: tok_end front_def)
  then have "expect end_of_input p' = Some (Inr ())" using expect_at [OF p'(2)] by simp
  then show ?thesis using p(2) p'(1) by simp
qed

text \<open>
  C1.  What \<open>dump\<close> writes, compact or pretty with any indentation, \<open>operator>>\<close> reads back as
  the same value: for every value without doubles, with integers in their range, UTF-8 strings and
  the keys of its objects in the order of the map.
\<close>

theorem json_roundtrip:
  assumes "json_ok js"
  shows "parse_stream strtod False \<lparr>s_rest = json_dump float_text indent js, s_eof = False\<rparr> = Some (Inr js)"
  using parse_dump [OF assms] by (simp add: json_dump_def)

definition sample_json :: json where
  "sample_json =
     JObject [(''a'', JArray [JInt (- 5), JNull, JString [LF, CHR 0x22, CHR 0xC3, CHR 0xA9]]), (''b'', JUnsigned 7)]"

lemma sample_json_ok: "json_ok sample_json"
proof -
  have "utf8_ok [LF, CHR 0x22, CHR 0xC3, CHR 0xA9]" "utf8_ok ''a''" "utf8_ok ''b''"
    by (simp_all add: utf8_ok.simps char_len_def char_forms_def within_def one_of_def)
  then show ?thesis by (simp add: sample_json_def less_char_def)
qed

theorem json_roundtrip_witness:
  "parse_stream (\<lambda>_. None) False \<lparr>s_rest = json_dump (\<lambda>_ _. []) 2 sample_json, s_eof = False\<rparr> = Some (Inr sample_json)"
  by (rule json_roundtrip) (rule sample_json_ok)

text \<open>
  C1.  Whatever the text, a value that the parser returns is well formed: its integers fit their 64
  bits, its strings are well-formed UTF-8 also where they were written with escapes and surrogate
  pairs, and the keys of its objects ascend without repetition.  Apart from doubles and \<open>-0\<close>, it
  survives being written and read again.
\<close>

theorem parsed_values_typed:
  assumes "parse_stream strtod fail \<lparr>s_rest = b, s_eof = False\<rparr> = Some (Inr js)"
  shows "json_typed js \<and>
    (exact_numbers js \<longrightarrow>
      parse_stream strtod False \<lparr>s_rest = json_dump float_text indent js, s_eof = False\<rparr> = Some (Inr js))"
  using parse_stream_returns [of strtod fail b] assms parse_dump [of js strtod] by (auto simp: json_ok_def json_dump_def)

theorem parsed_values_typed_witness:
  "json_typed sample_json \<and>
     parse_stream (\<lambda>_. None) False \<lparr>s_rest = json_dump (\<lambda>_ _. []) 4 sample_json, s_eof = False\<rparr> = Some (Inr sample_json)"
proof -
  have "exact_numbers sample_json" by (simp add: sample_json_def)
  with parsed_values_typed [OF parse_dump [OF sample_json_ok, of "\<lambda>_. None"]]
  show ?thesis by blast
qed

text \<open>The dump and the reader as a codec.\<close>

definition json_read :: "bytes \<Rightarrow> json option" where
  "json_read b = (case parse_stream (\<lambda>_. None) False \<lparr>s_rest = b, s_eof = False\<rparr> of Some (Inr js) \<Rightarrow> Some js | _ \<Rightarrow> None)"

interpretation json_text: codec "json_dump float_text indent" json_read json_ok for float_text indent
  by unfold_locales (simp add: json_read_def json_dump_def parse_dump)

end
