(* ===== verification/Config_File.thy ===== *)
theory Config_File
  imports Json_Roundtrip
begin

text \<open>
  \<open>Config::load\<close> of src/ssdb/src/util/config.cpp from the bytes of the file: the file is read with
  \<open>operator>>\<close> of the JSON library (theory Json\_Parser) and the value is turned into a
  configuration (theory Config\_Load).  The stream is what \<open>std::ifstream\<close> makes of the file name:
  its failure flag and its contents.
\<close>

section \<open>Loading a file\<close>

datatype load_exn = from_json parse_exn | from_config json_exn

definition Config_load_file :: "(bytes \<Rightarrow> (int \<times> int) option) \<Rightarrow> bool \<Rightarrow> istream \<Rightarrow> (load_exn + Config) option" where
  "Config_load_file strtod fail fp =
     (case parse_stream strtod fail fp of
        None \<Rightarrow> None
      | Some (Inl e) \<Rightarrow> Some (Inl (from_json e))
      | Some (Inr js) \<Rightarrow>
          (case Config_load js of Inl e \<Rightarrow> Some (Inl (from_config e)) | Inr root \<Rightarrow> Some (Inr root)))"

section \<open>Lemmas\<close>

lemma exact_float_ok: "exact_numbers js \<Longrightarrow> float_ok js"
  by (cases js) auto

lemma exact_path: "exact_numbers js \<Longrightarrow> exact_numbers (json_path js ks)"
proof (induction js ks rule: json_path.induct)
  case (2 obj k ks)
  show ?case
  proof (cases "map_of obj k")
    case (Some v)
    then have "(k, v) \<in> set obj" by (rule map_of_SomeD)
    then have "exact_numbers v" using 2(2) by force
    with 2(1) [OF Some] Some show ?thesis by simp
  qed simp
qed auto

text \<open>A file of white space only.\<close>

lemma stream_start_space:
  assumes "list_all white_space b"
  shows "stream_start b = b @ [LF]" "tok (stream_start b) = end_of_input"
proof -
  have white: "\<forall>c \<in> set (b @ [LF]). white_space c" using assms by (simp add: list_all_iff)
  have other: "\<not> white_space NUL" "\<not> white_space (CHR 0xEF)" by (simp_all add: white_space_def one_of_def)
  then have "\<forall>c \<in> set (b @ [LF]). c \<noteq> NUL" using white by metis
  then have whole: "takeWhile (\<lambda>c. c \<noteq> NUL) (b @ [LF]) = b @ [LF]" by (simp only: takeWhile_eq_all_conv)
  have "take 3 (b @ [LF]) \<noteq> BOM"
  proof
    assume "take 3 (b @ [LF]) = BOM"
    then obtain r where "b @ [LF] = BOM @ r" unfolding take_3_BOM by blast
    then have "CHR 0xEF \<in> set (b @ [LF])" by (simp only: BOM_def) simp
    with white other(2) show False by blast
  qed
  then show start: "stream_start b = b @ [LF]" using whole by (simp add: stream_start_def skip_bom_other)
  have "front (b @ [LF]) = []" using white by (simp add: front_def)
  then show "tok (stream_start b) = end_of_input" using start by (simp add: tok_end)
qed

lemma parse_space:
  assumes "list_all white_space b"
  shows "parse_stream strtod False \<lparr>s_rest = b, s_eof = False\<rparr> =
    Some (Inl (invalid_argument ''parse error - unexpected end of input''))"
proof -
  let ?s = "\<lparr>s_rest = b, s_eof = False\<rparr>"
  have "\<not> s_eof ?s" by simp
  then obtain p where p: "at_text p (stream_start b)"
    "parse_stream strtod False ?s =
       and_then (parse_internal strtod (2 * length b + 5) p) (\<lambda>(result, p).
       and_then (expect end_of_input p) (\<lambda>_. Some (Inr result)))"
    by (rule parse_stream_good [where strtod = strtod]) simp
  have "last_token p = end_of_input" using at_tok [OF p(1)] stream_start_space(2) [OF assms] by simp
  moreover have "2 * length b + 5 = Suc (2 * length b + 4)" by simp
  ultimately have "parse_internal strtod (2 * length b + 5) p = Some (Inl (invalid_argument ''parse error - unexpected end of input''))"
    by (simp only: parse_internal.simps token_type.case unexpect_def and_then_simps if_True unexpected_def option.map
        token_type_name.simps token_type.simps if_False) simp
  then show ?thesis using p(2) by simp
qed

lemma load_dumped:
  assumes "json_ok (JObject obj)"
  shows "Config_load_file strtod False \<lparr>s_rest = json_dump float_text indent (JObject obj), s_eof = False\<rparr> =
    Some (Inr (settings (JObject obj)))"
proof -
  have "exact_numbers (JObject obj)" using assms by (simp only: json_ok_def)
  then have "\<forall>p \<in> set number_paths. float_ok (json_path (JObject obj) p)"
    using exact_float_ok exact_path by blast
  then have "Config_load (JObject obj) = Inr (settings (JObject obj))" by (rule config_load_settings)
  moreover have "parse_stream strtod False \<lparr>s_rest = json_dump float_text indent (JObject obj), s_eof = False\<rparr> =
      Some (Inr (JObject obj))"
    using parse_dump [OF assms] by (simp add: json_dump_def)
  ultimately show ?thesis by (simp add: Config_load_file_def)
qed

section \<open>Properties\<close>

text \<open>
  C1.  A configuration that \<open>dump\<close> has written, with any indentation, is loaded as it was: reading
  the file and converting its value yields for every setting the value at its path when it has the
  right type and the default otherwise.
\<close>

theorem config_file_settings:
  assumes "json_ok (JObject obj)"
  shows "Config_load_file strtod False \<lparr>s_rest = json_dump float_text indent (JObject obj), s_eof = False\<rparr> =
    Some (Inr (settings (JObject obj)))"
  using assms by (rule load_dumped)

definition sample_config :: "(bytes \<times> json) list" where
  "sample_config = [(''server'', JObject [(''ip'', JString ''10.0.0.1''), (''port'', JUnsigned 7777)])]"

lemma sample_config_ok: "json_ok (JObject sample_config)"
proof -
  have "utf8_ok ''server''" "utf8_ok ''ip''" "utf8_ok ''port''" "utf8_ok ''10.0.0.1''"
    by (simp_all add: utf8_ok.simps)
  then show ?thesis by (simp add: sample_config_def less_char_def)
qed

lemma sample_settings: "settings (JObject sample_config) = Config_new\<lparr>ip := ''10.0.0.1'', port := 7777\<rparr>"
  by (simp add: settings_def sample_config_def Config_new_def fits32_def)

theorem config_file_settings_witness:
  "Config_load_file (\<lambda>_. None) False
     \<lparr>s_rest = json_dump (\<lambda>_ _. []) 4 (JObject sample_config), s_eof = False\<rparr> =
   Some (Inr (Config_new\<lparr>ip := ''10.0.0.1'', port := 7777\<rparr>))"
  using config_file_settings [OF sample_config_ok] by (simp add: sample_settings)

text \<open>
  C24. What loading a file ends in, whatever its bytes are.  Reading the file gives an exception,
  which \<open>load\<close> passes on, or a value: null leaves the defaults; an object gives its settings, unless
  a floating-point number at the path of a numeric setting is outside the range of \<open>int\<close>, when
  the conversion is undefined; a value of any other type raises \<open>domain_error\<close>.  A file that cannot
  be opened is a stream error, one without anything but white space a parse error.
\<close>

theorem config_file_outcomes:
  "(\<exists>r. parse_stream strtod fail \<lparr>s_rest = b, s_eof = False\<rparr> = Some r \<and>
     Config_load_file strtod fail \<lparr>s_rest = b, s_eof = False\<rparr> = Some (case r of
         Inl e \<Rightarrow> Inl (from_json e)
       | Inr JNull \<Rightarrow> Inr Config_new
       | Inr (JObject obj) \<Rightarrow>
           if \<forall>p \<in> set number_paths. float_ok (json_path (JObject obj) p) then Inr (settings (JObject obj))
           else Inl (from_config undefined_cast)
       | _ \<Rightarrow> Inl (from_config domain_error))) \<and>
   Config_load_file strtod True fp = Some (Inl (from_json (invalid_argument ''stream error''))) \<and>
   (list_all white_space b \<longrightarrow> Config_load_file strtod False \<lparr>s_rest = b, s_eof = False\<rparr> =
      Some (Inl (from_json (invalid_argument ''parse error - unexpected end of input''))))"
proof (intro conjI impI)
  obtain r where r: "parse_stream strtod fail \<lparr>s_rest = b, s_eof = False\<rparr> = Some r"
    using parse_stream_returns by blast
  have "Config_load (JObject obj) = (if \<forall>p \<in> set number_paths. float_ok (json_path (JObject obj) p)
      then Inr (settings (JObject obj)) else Inl undefined_cast)" for obj
    using config_load_settings config_load_bad by auto
  with r show "\<exists>r. parse_stream strtod fail \<lparr>s_rest = b, s_eof = False\<rparr> = Some r \<and>
     Config_load_file strtod fail \<lparr>s_rest = b, s_eof = False\<rparr> = Some (case r of
         Inl e \<Rightarrow> Inl (from_json e)
       | Inr JNull \<Rightarrow> Inr Config_new
       | Inr (JObject obj) \<Rightarrow>
           if \<forall>p \<in> set number_paths. float_ok (json_path (JObject obj) p) then Inr (settings (JObject obj))
           else Inl (from_config undefined_cast)
       | _ \<Rightarrow> Inl (from_config domain_error))"
    by (simp add: Config_load_file_def config_load_top_level split: sum.split json.split)
  show "Config_load_file strtod True fp = Some (Inl (from_json (invalid_argument ''stream error'')))"
    by (simp add: Config_load_file_def parse_stream_def lexer_of_stream_def)
qed (simp add: Config_load_file_def parse_space)

theorem config_file_outcomes_witness:
  "Config_load_file (\<lambda>_. None) False \<lparr>s_rest = [LF, CHR 0x20], s_eof = False\<rparr> =
     Some (Inl (from_json (invalid_argument ''parse error - unexpected end of input''))) \<and>
   Config_load_file (\<lambda>_. None) False \<lparr>s_rest = json_dump (\<lambda>_ _. []) 0 (JArray []), s_eof = False\<rparr> =
     Some (Inl (from_config domain_error))"
  using config_file_outcomes [where b = "[LF, CHR 0x20]" and fail = False and strtod = "\<lambda>_. None"]
    config_file_outcomes [where b = "json_dump (\<lambda>_ _. []) 0 (JArray [])" and fail = False and strtod = "\<lambda>_. None"]
    parse_dump [of "JArray []" "\<lambda>_. None" "\<lambda>_ _. []"]
  by (auto simp: json_dump_def white_space_def one_of_def)

end
