(* ===== verification/Leveldb.thy ===== *)
theory Leveldb
  imports Prelude
begin

text \<open>
  The storage engine.  LevelDB is a library outside the repository, so its operations are a
  parameter of every definition that uses them: a record of functions over an abstract
  database type \<open>'db\<close> and an abstract iterator type \<open>'it\<close>.  The locale \<open>leveldb_api\<close>
  states the documented behaviour the server relies on (leveldb/db.h, iterator.h,
  write\_batch.h): reads see the latest writes, a write batch is applied atomically, an
  iterator is a snapshot ordered by the bytewise comparator.  The locale \<open>leveldb_reliable\<close>
  adds that no operation reports an I/O error.

  An in-memory association list satisfies both locales, so the laws are consistent and the
  witnesses of the development can run.
\<close>

section \<open>The interface\<close>

datatype leveldb_status = StOk | StNotFound | StError bytes

fun st_ok :: "leveldb_status \<Rightarrow> bool" where
  "st_ok StOk = True"
| "st_ok _ = False"

fun st_IsNotFound :: "leveldb_status \<Rightarrow> bool" where
  "st_IsNotFound StNotFound = True"
| "st_IsNotFound _ = False"

datatype batch_op = BPut bytes bytes | BDelete bytes

type_synonym store = "bytes \<rightharpoonup> bytes"

record ('db, 'it) leveldb =
  ldb_Get :: "'db \<Rightarrow> bytes \<Rightarrow> leveldb_status \<times> bytes"
  ldb_Put :: "'db \<Rightarrow> bytes \<Rightarrow> bytes \<Rightarrow> leveldb_status \<times> 'db"
  ldb_Delete :: "'db \<Rightarrow> bytes \<Rightarrow> leveldb_status \<times> 'db"
  ldb_Write :: "'db \<Rightarrow> batch_op list \<Rightarrow> leveldb_status \<times> 'db"
  ldb_NewIterator :: "'db \<Rightarrow> 'it"
  it_Valid :: "'it \<Rightarrow> bool"
  it_Seek :: "'it \<Rightarrow> bytes \<Rightarrow> 'it"
  it_SeekToLast :: "'it \<Rightarrow> 'it"
  it_Next :: "'it \<Rightarrow> 'it"
  it_Prev :: "'it \<Rightarrow> 'it"
  it_key :: "'it \<Rightarrow> bytes"
  it_value :: "'it \<Rightarrow> bytes"

fun apply_op :: "batch_op \<Rightarrow> store \<Rightarrow> store" where
  "apply_op (BPut k v) m = m(k \<mapsto> v)"
| "apply_op (BDelete k) m = m(k := None)"

definition apply_batch :: "batch_op list \<Rightarrow> store \<Rightarrow> store" where
  "apply_batch ops m = fold apply_op ops m"

definition first_in :: "bytes set \<Rightarrow> bytes option" where
  "first_in S = (if S = {} then None else Some (Min S))"

definition last_in :: "bytes set \<Rightarrow> bytes option" where
  "last_in S = (if S = {} then None else Some (Max S))"

lemma apply_batch_simps [simp]:
  "apply_batch [] m = m"
  "apply_batch (BPut k v # ops) m = apply_batch ops (m(k \<mapsto> v))"
  "apply_batch (BDelete k # ops) m = apply_batch ops (m(k := None))"
  "apply_batch (ops @ ops') m = apply_batch ops' (apply_batch ops m)"
  by (simp_all add: apply_batch_def)

lemma first_in_SomeD:
  "finite S \<Longrightarrow> first_in S = Some k \<Longrightarrow> k \<in> S \<and> (\<forall>k' \<in> S. k \<le> k')"
  by (auto simp: first_in_def intro: Min_in split: if_splits)

lemma last_in_SomeD:
  "finite S \<Longrightarrow> last_in S = Some k \<Longrightarrow> k \<in> S \<and> (\<forall>k' \<in> S. k' \<le> k)"
  by (auto simp: last_in_def intro: Max_in split: if_splits)

lemma first_in_None [simp]: "first_in S = None \<longleftrightarrow> S = {}"
  by (auto simp: first_in_def)

lemma last_in_None [simp]: "last_in S = None \<longleftrightarrow> S = {}"
  by (auto simp: last_in_def)

lemma first_in_eqI: "finite S \<Longrightarrow> k \<in> S \<Longrightarrow> (\<And>k'. k' \<in> S \<Longrightarrow> k \<le> k') \<Longrightarrow> first_in S = Some k"
  by (auto simp: first_in_def intro: Min_eqI)

lemma last_in_eqI: "finite S \<Longrightarrow> k \<in> S \<Longrightarrow> (\<And>k'. k' \<in> S \<Longrightarrow> k' \<le> k) \<Longrightarrow> last_in S = Some k"
  by (auto simp: last_in_def intro: Max_eqI)

locale leveldb_api =
  fixes L :: "('db, 'it) leveldb"
    and contents :: "'db \<Rightarrow> store"
    and snapshot :: "'it \<Rightarrow> store"
    and cursor :: "'it \<Rightarrow> bytes option"
  assumes get_ok: "ldb_Get L d k = (s, v) \<Longrightarrow> st_ok s \<Longrightarrow> contents d k = Some v"
    and get_missing: "ldb_Get L d k = (s, v) \<Longrightarrow> st_IsNotFound s \<Longrightarrow> contents d k = None"
    and write_ok: "ldb_Write L d ops = (s, d') \<Longrightarrow> st_ok s \<Longrightarrow>
          contents d' = apply_batch ops (contents d)"
    and write_atomic: "ldb_Write L d ops = (s, d') \<Longrightarrow>
          contents d' = contents d \<or> contents d' = apply_batch ops (contents d)"
    and put_ok: "ldb_Put L d k v = (s, d') \<Longrightarrow> st_ok s \<Longrightarrow> contents d' = (contents d)(k \<mapsto> v)"
    and delete_ok: "ldb_Delete L d k = (s, d') \<Longrightarrow> st_ok s \<Longrightarrow> contents d' = (contents d)(k := None)"
    and finite_contents: "finite (dom (contents d))"
    and finite_snapshot: "finite (dom (snapshot it))"
    and new_iterator: "snapshot (ldb_NewIterator L d) = contents d"
    and valid_cursor: "it_Valid L it = (cursor it \<noteq> None)"
    and cursor_key: "cursor it = Some k \<Longrightarrow> it_key L it = k \<and> snapshot it k = Some (it_value L it)"
    and seek: "snapshot (it_Seek L it t) = snapshot it \<and>
          cursor (it_Seek L it t) = first_in {k \<in> dom (snapshot it). t \<le> k}"
    and seek_to_last: "snapshot (it_SeekToLast L it) = snapshot it \<and>
          cursor (it_SeekToLast L it) = last_in (dom (snapshot it))"
    and it_next: "cursor it = Some k \<Longrightarrow> snapshot (it_Next L it) = snapshot it \<and>
          cursor (it_Next L it) = first_in {k' \<in> dom (snapshot it). k < k'}"
    and it_prev: "cursor it = Some k \<Longrightarrow> snapshot (it_Prev L it) = snapshot it \<and>
          cursor (it_Prev L it) = last_in {k' \<in> dom (snapshot it). k' < k}"

locale leveldb_reliable = leveldb_api +
  assumes get_total: "ldb_Get L d k = (s, v) \<Longrightarrow> st_ok s \<or> st_IsNotFound s"
    and write_total: "st_ok (fst (ldb_Write L d ops))"
    and put_total: "st_ok (fst (ldb_Put L d k v))"
    and delete_total: "st_ok (fst (ldb_Delete L d k))"
begin

lemma get_some: "contents d k = Some v \<Longrightarrow> ldb_Get L d k = (StOk, v)"
  by (metis get_missing get_ok get_total option.distinct(1) option.inject st_ok.elims(2) surj_pair)

lemma get_none: "contents d k = None \<Longrightarrow> fst (ldb_Get L d k) = StNotFound"
  by (metis get_ok get_total option.distinct(1) prod.collapse st_IsNotFound.elims(2))

end

section \<open>An in-memory instance\<close>

type_synonym mem_db = "(bytes \<times> bytes) list"

definition first_of :: "bytes list \<Rightarrow> bytes option" where
  "first_of ks = (case sort ks of [] \<Rightarrow> None | k # _ \<Rightarrow> Some k)"

definition last_of :: "bytes list \<Rightarrow> bytes option" where
  "last_of ks = (case rev (sort ks) of [] \<Rightarrow> None | k # _ \<Rightarrow> Some k)"

definition mem_contents :: "mem_db \<Rightarrow> store" where
  "mem_contents d = map_of d"

type_synonym mem_it = "mem_db \<times> bytes option"

definition mem_snapshot :: "mem_it \<Rightarrow> store" where
  "mem_snapshot it = map_of (fst it)"

definition mem_cursor :: "mem_it \<Rightarrow> bytes option" where
  "mem_cursor it =
     (case snd it of None \<Rightarrow> None | Some k \<Rightarrow> if map_of (fst it) k = None then None else Some k)"

fun mem_apply :: "batch_op \<Rightarrow> mem_db \<Rightarrow> mem_db" where
  "mem_apply (BPut k v) d = (k, v) # d"
| "mem_apply (BDelete k) d = filter (\<lambda>p. fst p \<noteq> k) d"

definition mem_ldb :: "(mem_db, mem_it) leveldb" where
  "mem_ldb =
     \<lparr>ldb_Get = (\<lambda>d k. case map_of d k of None \<Rightarrow> (StNotFound, []) | Some v \<Rightarrow> (StOk, v)),
      ldb_Put = (\<lambda>d k v. (StOk, mem_apply (BPut k v) d)),
      ldb_Delete = (\<lambda>d k. (StOk, mem_apply (BDelete k) d)),
      ldb_Write = (\<lambda>d ops. (StOk, fold mem_apply ops d)),
      ldb_NewIterator = (\<lambda>d. (d, None)),
      it_Valid = (\<lambda>it. mem_cursor it \<noteq> None),
      it_Seek = (\<lambda>(d, _) t. (d, first_of (filter (\<lambda>k. t \<le> k) (map fst d)))),
      it_SeekToLast = (\<lambda>(d, _). (d, last_of (map fst d))),
      it_Next = (\<lambda>(d, c). (d, case c of None \<Rightarrow> None
                              | Some k \<Rightarrow> first_of (filter (\<lambda>k'. k < k') (map fst d)))),
      it_Prev = (\<lambda>(d, c). (d, case c of None \<Rightarrow> None
                              | Some k \<Rightarrow> last_of (filter (\<lambda>k'. k' < k) (map fst d)))),
      it_key = (\<lambda>it. case mem_cursor it of None \<Rightarrow> [] | Some k \<Rightarrow> k),
      it_value = (\<lambda>it. case mem_cursor it of None \<Rightarrow> [] | Some k \<Rightarrow> the (map_of (fst it) k))\<rparr>"

lemma first_of_eq: "first_of ks = first_in (set ks)"
proof (cases "sort ks")
  case (Cons k rest)
  have "sorted (k # rest)" "set (k # rest) = set ks" using Cons by (metis sorted_sort, metis set_sort)
  then show ?thesis using Cons by (auto simp: first_of_def intro!: first_in_eqI [symmetric])
qed (auto simp: first_of_def first_in_def dest: arg_cong [of _ _ set])

lemma last_of_eq: "last_of ks = last_in (set ks)"
proof (cases "rev (sort ks)")
  case (Cons k rest)
  then have s: "sort ks = rev rest @ [k]" by (metis rev.simps(2) rev_rev_ident)
  have "sorted (rev rest @ [k])" "set (rev rest @ [k]) = set ks"
    using s by (metis sorted_sort, metis set_sort)
  then have "last_in (set ks) = Some k"
    by (intro last_in_eqI) (auto simp: sorted_append)
  then show ?thesis using Cons by (simp add: last_of_def)
qed (auto simp: last_of_def last_in_def dest: arg_cong [of _ _ set])

lemma map_of_mem_apply: "map_of (mem_apply op d) = apply_op op (map_of d)"
proof (cases op)
  case (BDelete k)
  have "map_of (filter (\<lambda>p. fst p \<noteq> k) d) = (map_of d)(k := None)"
    by (induction d) (auto simp: fun_eq_iff)
  then show ?thesis by (simp add: BDelete)
qed simp

lemma map_of_mem_batch: "map_of (fold mem_apply ops d) = apply_batch ops (map_of d)"
  by (induction ops arbitrary: d) (simp_all add: apply_batch_def map_of_mem_apply)

lemma mem_cursor_in: "mem_cursor (d, first_of (filter P (map fst d))) = first_in {k \<in> dom (map_of d). P k}"
proof -
  have s: "set (filter P (map fst d)) = {k \<in> dom (map_of d). P k}"
    by (auto simp: dom_map_of_conv_image_fst)
  have "finite {k \<in> dom (map_of d). P k}" by (simp add: finite_dom_map_of)
  then have "map_of d k \<noteq> None" if "first_in {k \<in> dom (map_of d). P k} = Some k" for k
    using first_in_SomeD [OF _ that] by auto
  then show ?thesis
    unfolding mem_cursor_def first_of_eq s
    by (cases "first_in {k \<in> dom (map_of d). P k}") (simp_all del: first_in_None)
qed

lemma mem_cursor_last: "mem_cursor (d, last_of (filter P (map fst d))) = last_in {k \<in> dom (map_of d). P k}"
proof -
  have s: "set (filter P (map fst d)) = {k \<in> dom (map_of d). P k}"
    by (auto simp: dom_map_of_conv_image_fst)
  have "finite {k \<in> dom (map_of d). P k}" by (simp add: finite_dom_map_of)
  then have "map_of d k \<noteq> None" if "last_in {k \<in> dom (map_of d). P k} = Some k" for k
    using last_in_SomeD [OF _ that] by auto
  then show ?thesis
    unfolding mem_cursor_def last_of_eq s
    by (cases "last_in {k \<in> dom (map_of d). P k}") (simp_all del: last_in_None)
qed

lemma mem_cursor_end: "mem_cursor (d, last_of (map fst d)) = last_in (dom (map_of d))"
  using mem_cursor_last [of d "\<lambda>_. True"] by simp

lemma mem_cursor_SomeD: "mem_cursor it = Some k \<Longrightarrow> snd it = Some k \<and> map_of (fst it) k \<noteq> None"
  by (auto simp: mem_cursor_def split: option.splits if_splits)

interpretation mem: leveldb_reliable mem_ldb mem_contents mem_snapshot mem_cursor
proof (unfold_locales, goal_cases)
  case (11 it k)
  then show ?case using mem_cursor_SomeD [of it k] by (auto simp: mem_ldb_def mem_snapshot_def)
next
  case (14 it k)
  then show ?case
    using mem_cursor_SomeD [of it k] mem_cursor_in
    by (cases it) (auto simp: mem_ldb_def mem_snapshot_def)
next
  case (15 it k)
  then show ?case
    using mem_cursor_SomeD [of it k] mem_cursor_last
    by (cases it) (auto simp: mem_ldb_def mem_snapshot_def)
qed (auto simp: mem_ldb_def mem_contents_def mem_snapshot_def finite_dom_map_of map_of_mem_batch
    map_of_mem_apply mem_cursor_in mem_cursor_end simp del: mem_apply.simps split: option.splits)

end
