(* ===== verification/Bytes_Buffer.thy ===== *)
theory Bytes_Buffer
  imports Strings
begin

text \<open>
  Model of src/ssdb/src/util/bytes.h and bytes.cpp: the comparison operators of \<open>Bytes\<close>,
  the growable input/output \<open>Buffer\<close> and the key \<open>Decoder\<close>.

  A \<open>Buffer\<close> is its malloc'ed block (\<open>b_buf\<close>, of \<open>b_total\<close> bytes), the offset of
  \<open>data_\<close> in it and \<open>size_\<close>.  Reads and writes outside the block are \<^term>\<open>None\<close>, as is
  the signed overflow of a capacity.  The heap is a parameter: the bytes of fresh memory and
  whether a \<open>malloc\<close> or \<open>realloc\<close> of a given size succeeds; a null block has no bytes.
\<close>

section \<open>Bytes\<close>

fun memcmp :: "bytes \<Rightarrow> bytes \<Rightarrow> int" where
  "memcmp (x # xs) (y # ys) =
     (if x = y then memcmp xs ys else if (of_char x :: nat) < of_char y then - 1 else 1)"
| "memcmp _ _ = 0"

definition bytes_compare :: "bytes \<Rightarrow> bytes \<Rightarrow> int" where
  "bytes_compare x y =
     (let min_len = (if length x < length y then length x else length y);
          r = memcmp (take min_len x) (take min_len y)
      in if r = 0
         then (if length x < length y then - 1 else if length x > length y then 1 else r)
         else r)"

definition bytes_eq :: "bytes \<Rightarrow> bytes \<Rightarrow> bool" where
  "bytes_eq x y \<longleftrightarrow> length x = length y \<and> memcmp x y = 0"

definition bytes_gt :: "bytes \<Rightarrow> bytes \<Rightarrow> bool" where
  "bytes_gt x y \<longleftrightarrow> bytes_compare x y > 0"

definition bytes_lt :: "bytes \<Rightarrow> bytes \<Rightarrow> bool" where
  "bytes_lt x y \<longleftrightarrow> bytes_compare x y < 0"

definition bytes_ge :: "bytes \<Rightarrow> bytes \<Rightarrow> bool" where
  "bytes_ge x y \<longleftrightarrow> bytes_compare x y \<ge> 0"

definition bytes_le :: "bytes \<Rightarrow> bytes \<Rightarrow> bool" where
  "bytes_le x y \<longleftrightarrow> bytes_compare x y \<le> 0"

section \<open>Memory blocks\<close>

record heap_env =
  fresh :: "nat \<Rightarrow> char"
  realloc_ok :: "int \<Rightarrow> bool"

definition mem_read :: "bytes \<Rightarrow> int \<Rightarrow> int \<Rightarrow> bytes option" where
  "mem_read m off n =
     (if 0 \<le> off \<and> 0 \<le> n \<and> off + n \<le> int (length m)
      then Some (take (nat n) (drop (nat off) m)) else None)"

definition mem_write :: "bytes \<Rightarrow> int \<Rightarrow> bytes \<Rightarrow> bytes option" where
  "mem_write m off xs =
     (if 0 \<le> off \<and> off + int (length xs) \<le> int (length m)
      then Some (take (nat off) m @ xs @ drop (nat off + length xs) m) else None)"

definition mem_at :: "bytes \<Rightarrow> int \<Rightarrow> char option" where
  "mem_at m i = (if 0 \<le> i \<and> i < int (length m) then Some (m ! nat i) else None)"

definition mem_realloc :: "heap_env \<Rightarrow> bytes \<Rightarrow> int \<Rightarrow> bytes" where
  "mem_realloc env m n = take (nat n) m @ map (fresh env) [length m..<nat n]"

section \<open>Buffer\<close>

record Buffer =
  b_buf :: bytes
  b_data :: int
  b_size :: int
  b_total :: int

definition Buffer_new :: "heap_env \<Rightarrow> int \<Rightarrow> Buffer" where
  "Buffer_new env tot =
     \<lparr>b_buf = (if realloc_ok env tot then map (fresh env) [0..<nat tot] else []),
      b_data = 0, b_size = 0, b_total = tot\<rparr>"

definition b_empty :: "Buffer \<Rightarrow> bool" where
  "b_empty b \<longleftrightarrow> b_size b = 0"

definition b_slot :: "Buffer \<Rightarrow> int" where
  "b_slot b = b_data b + b_size b"

definition b_space :: "Buffer \<Rightarrow> int" where
  "b_space b = b_total b - b_data b - b_size b"

definition b_incr :: "int \<Rightarrow> Buffer \<Rightarrow> Buffer" where
  "b_incr num b = b\<lparr>b_size := b_size b + num\<rparr>"

definition b_decr :: "int \<Rightarrow> Buffer \<Rightarrow> Buffer" where
  "b_decr num b = b\<lparr>b_size := b_size b - num, b_data := b_data b + num\<rparr>"

text \<open>\<open>nice\<close>: overlapping arguments of \<open>memcpy\<close> are undefined.\<close>

definition b_nice :: "Buffer \<Rightarrow> Buffer option" where
  "b_nice b =
     (if b_size b = 0 \<or> b_data b > b_total b div 2
      then if b_size b > 0
           then do { xs \<leftarrow> mem_read (b_buf b) (b_data b) (b_size b);
                     m \<leftarrow> (if b_data b < b_size b then None else mem_write (b_buf b) 0 xs);
                     Some (b\<lparr>b_buf := m, b_data := 0\<rparr>) }
           else Some (b\<lparr>b_data := 0\<rparr>)
      else Some b)"

definition b_shrink :: "heap_env \<Rightarrow> int \<Rightarrow> Buffer \<Rightarrow> Buffer option" where
  "b_shrink env tot b =
     (let tot = (if tot \<le> 0 then 8 * 1024 else tot); offset = b_data b
      in if offset + b_size b > tot then Some b
         else if realloc_ok env tot
         then Some (b\<lparr>b_buf := mem_realloc env (b_buf b) tot, b_total := tot\<rparr>)
         else None)"

definition b_grow :: "heap_env \<Rightarrow> Buffer \<Rightarrow> (int \<times> Buffer) option" where
  "b_grow env b =
     do { n \<leftarrow> (if b_total b < 8 * 1024 then Some (8 * 1024)
                else if b_total b < 512 * 1024 then ck32 (8 * b_total b)
                else ck32 (2 * b_total b));
          Some (if realloc_ok env n
                then (n, b\<lparr>b_buf := mem_realloc env (b_buf b) n, b_total := n\<rparr>)
                else (- 1, b)) }"

definition b_stats :: "Buffer \<Rightarrow> bytes" where
  "b_stats b =
     ''total: '' @ dec_int (b_total b) @ '', data: '' @ dec_int (b_data b) @
     '', size: '' @ dec_int (b_size b) @ '', slot: '' @ dec_int (b_slot b)"

text \<open>The loop at the head of every append: grow until \<open>sz\<close> bytes fit, or fail.\<close>

lemma b_grow_larger:
  "b_grow env b = Some (n, b') \<Longrightarrow> n \<noteq> - 1 \<Longrightarrow> b_total b < b_total b' \<and> b_total b' < 2 ^ 31"
  by (auto simp: b_grow_def ck32_def fits32_def bind_eq_Some_conv split: if_splits)

function b_reserve :: "heap_env \<Rightarrow> int \<Rightarrow> Buffer \<Rightarrow> (bool \<times> Buffer) option" where
  "b_reserve env sz b =
     (if sz > b_space b
      then case b_grow env b of
             None \<Rightarrow> None
           | Some (n, b') \<Rightarrow> if n = - 1 then Some (False, b') else b_reserve env sz b'
      else Some (True, b))"
  by pat_completeness auto
termination
  by (relation "measure (\<lambda>(env, sz, b). nat (2 ^ 31 - b_total b))")
     (auto dest: b_grow_larger)

declare b_reserve.simps [simp del]

definition b_put :: "bytes \<Rightarrow> Buffer \<Rightarrow> Buffer option" where
  "b_put p b = do { m \<leftarrow> mem_write (b_buf b) (b_slot b) p;
                    Some (b\<lparr>b_buf := m, b_size := b_size b + int (length p)\<rparr>) }"

definition b_append :: "heap_env \<Rightarrow> bytes \<Rightarrow> Buffer \<Rightarrow> (int \<times> Buffer) option" where
  "b_append env p b =
     do { (ok, b) \<leftarrow> b_reserve env (int (length p)) b;
          if \<not> ok then Some (- 1, b)
          else do { b \<leftarrow> b_put p b; Some (int (length p), b) } }"

definition b_append_char :: "heap_env \<Rightarrow> char \<Rightarrow> Buffer \<Rightarrow> (int \<times> Buffer) option" where
  "b_append_char env c b =
     do { (ok, b) \<leftarrow> b_reserve env 1 b;
          if \<not> ok then Some (- 1, b) else do { b \<leftarrow> b_put [c] b; Some (1, b) } }"

definition record_bytes :: "bytes \<Rightarrow> bytes" where
  "record_bytes s = dec_nat (length s) @ [LF] @ s @ [LF]"

definition b_append_record :: "heap_env \<Rightarrow> bytes \<Rightarrow> Buffer \<Rightarrow> (int \<times> Buffer) option" where
  "b_append_record env s b =
     do { sz \<leftarrow> ck32 (16 + int (length s) + 1);
          (ok, b) \<leftarrow> b_reserve env sz b;
          if \<not> ok then Some (- 1, b)
          else do { let len = dec_int (int (length s)) @ [LF];
                    b \<leftarrow> b_put (len @ s @ [LF]) b;
                    Some (int (length len) + int (length s) + 1, b) } }"

text \<open>\<open>memchr\<close>: the offset of the first occurrence.\<close>

definition memchr :: "char \<Rightarrow> bytes \<Rightarrow> nat option" where
  "memchr c xs = (if c \<in> set xs then Some (length (takeWhile (\<lambda>x. x \<noteq> c) xs)) else None)"

definition b_read_record :: "Buffer \<Rightarrow> (int \<times> bytes option \<times> Buffer) option" where
  "b_read_record b =
     do { d \<leftarrow> mem_read (b_buf b) (b_data b) (b_size b);
          case memchr LF d of
            None \<Rightarrow> Some (0, None, b)
          | Some i \<Rightarrow>
              (let head_len = int i + 1
               in if \<not> isdigit (d ! 0) then Some (- 1, None, b)
                  else if head_len + 1 > 20 then Some (- 1, None, b)
                  else do {
                    body_len \<leftarrow> atoi (take i d @ [NUL]);
                    if body_len < 0 then Some (- 1, None, b)
                    else do {
                      need \<leftarrow> ck32 (head_len + body_len + 1);
                      if b_size b \<ge> need
                      then if d ! nat (head_len + body_len) = LF
                           then Some (1, Some (take (nat body_len) (drop (nat head_len) d)), b_decr need b)
                           else if d ! nat (head_len + body_len) = CR
                           then if b_size b \<ge> need + 1
                                then if d ! nat (head_len + body_len + 1) = LF
                                     then Some (1, Some (take (nat body_len) (drop (nat head_len) d)),
                                                b_decr (need + 1) b)
                                     else Some (- 1, None, b)
                                else Some (0, None, b)
                           else Some (- 1, None, b)
                      else Some (0, None, b) } }) }"

section \<open>Decoder\<close>

text \<open>
  A decoder is the bytes from \<open>p\<close> on (its \<open>size\<close> is their number); a result of \<open>-1\<close>
  leaves what the source leaves: the state before the failing step.
\<close>

type_synonym Decoder = bytes

definition dec_skip :: "nat \<Rightarrow> Decoder \<Rightarrow> int \<times> Decoder" where
  "dec_skip n d = (if length d < n then (- 1, d) else (int n, drop n d))"

definition dec_read_uint64 :: "Decoder \<Rightarrow> int \<times> 64 word option \<times> Decoder" where
  "dec_read_uint64 d = (if length d < 8 then (- 1, None, d) else (8, Some (read64 d), drop 8 d))"

definition dec_read_int64 :: "Decoder \<Rightarrow> int \<times> int option \<times> Decoder" where
  "dec_read_int64 d =
     (if length d < 8 then (- 1, None, d) else (8, Some (sint (read64 d)), drop 8 d))"

definition dec_read_data :: "Decoder \<Rightarrow> int \<times> bytes \<times> Decoder" where
  "dec_read_data d = (int (length d), d, [])"

definition dec_read_8_data :: "Decoder \<Rightarrow> int \<times> bytes option \<times> Decoder" where
  "dec_read_8_data d =
     (case d of
        [] \<Rightarrow> (- 1, None, d)
      | c # r \<Rightarrow> (let len = (of_char c :: nat)
                 in if length r < len then (- 1, None, r)
                    else (1 + int len, Some (take len r), drop len r)))"

section \<open>Bytes: lemmas\<close>

lemma memcmp_less_iff: "length x = length y \<Longrightarrow> memcmp x y < 0 \<longleftrightarrow> x < y"
  by (induction x y rule: memcmp.induct) (auto simp: less_char_def)

lemma memcmp_eq_iff: "length x = length y \<Longrightarrow> memcmp x y = 0 \<longleftrightarrow> x = y"
  by (induction x y rule: memcmp.induct) auto

lemma memcmp_range: "memcmp x y \<in> {- 1, 0, 1}"
  by (induction x y rule: memcmp.induct) auto

lemma less_by_prefix:
  fixes x y :: bytes
  assumes "m \<le> length x" "m \<le> length y"
  shows "x < y \<longleftrightarrow> take m x < take m y \<or> take m x = take m y \<and> drop m x < drop m y"
  using assms
proof (induction m arbitrary: x y)
  case (Suc m)
  then obtain a xs b ys where "x = a # xs" "y = b # ys"
    by (metis Suc_le_length_iff)
  with Suc.IH [of xs ys] Suc.prems show ?case by simp blast
qed simp

lemma bytes_compare_less: "bytes_compare x y < 0 \<longleftrightarrow> x < y"
proof -
  define m where "m = (if length x < length y then length x else length y)"
  have m: "m \<le> length x" "m \<le> length y" "m = length x \<or> m = length y"
    by (auto simp: m_def)
  have l: "length (take m x) = length (take m y)" using m by simp
  have nil: "[] < z \<longleftrightarrow> z \<noteq> []" for z :: bytes by (cases z) auto
  have "drop m x < drop m y \<longleftrightarrow> length x < length y"
    using m by (cases "length x < length y") (auto simp: nil m_def)
  then show ?thesis
    using memcmp_less_iff [OF l] memcmp_eq_iff [OF l] less_by_prefix [OF m(1,2)]
    by (auto simp: bytes_compare_def Let_def m_def [symmetric])
qed

lemma bytes_compare_zero: "bytes_compare x y = 0 \<longleftrightarrow> x = y"
proof -
  have "memcmp x y = 0 \<longleftrightarrow> x = y" if "length x = length y"
    using memcmp_eq_iff that by blast
  then show ?thesis by (auto simp: bytes_compare_def Let_def)
qed

lemma bytes_gt_iff [simp]: "bytes_gt x y \<longleftrightarrow> y < x"
  using bytes_compare_less [of x y] bytes_compare_zero [of x y]
  by (auto simp: bytes_gt_def not_less le_less)

lemma bytes_eq_iff [simp]: "bytes_eq x y \<longleftrightarrow> x = y"
  using memcmp_eq_iff by (auto simp: bytes_eq_def)

section \<open>Memory blocks: lemmas\<close>

lemma mem_read_eq:
  "0 \<le> off \<Longrightarrow> 0 \<le> n \<Longrightarrow> off + n \<le> int (length m) \<Longrightarrow>
   mem_read m off n = Some (take (nat n) (drop (nat off) m))"
  by (simp add: mem_read_def)

lemma mem_write_eq:
  "0 \<le> off \<Longrightarrow> off + int (length xs) \<le> int (length m) \<Longrightarrow>
   mem_write m off xs = Some (take (nat off) m @ xs @ drop (nat off + length xs) m)"
  by (simp add: mem_write_def)

lemma length_mem_realloc [simp]: "length (mem_realloc env m n) = nat n"
  by (simp add: mem_realloc_def)

lemma take_mem_realloc: "k \<le> length m \<Longrightarrow> k \<le> nat n \<Longrightarrow> take k (mem_realloc env m n) = take k m"
  by (simp add: mem_realloc_def)

section \<open>Buffer: invariant and contents\<close>

definition buffer_wf :: "Buffer \<Rightarrow> bool" where
  "buffer_wf b \<longleftrightarrow> 0 \<le> b_data b \<and> 0 \<le> b_size b \<and> b_data b + b_size b \<le> b_total b \<and>
     b_total b < 2 ^ 31 \<and> length (b_buf b) = nat (b_total b)"

definition b_view :: "Buffer \<Rightarrow> bytes" where
  "b_view b = take (nat (b_size b)) (drop (nat (b_data b)) (b_buf b))"

lemma length_b_view [simp]: "buffer_wf b \<Longrightarrow> length (b_view b) = nat (b_size b)"
  by (simp add: buffer_wf_def b_view_def) arith

lemma b_view_read: "buffer_wf b \<Longrightarrow> mem_read (b_buf b) (b_data b) (b_size b) = Some (b_view b)"
  by (simp add: buffer_wf_def b_view_def mem_read_eq)

lemma b_view_cong:
  assumes "take (nat (b_data b + b_size b)) (b_buf b') = take (nat (b_data b + b_size b)) (b_buf b)"
    "b_data b' = b_data b" "b_size b' = b_size b" "0 \<le> b_data b" "0 \<le> b_size b"
  shows "b_view b' = b_view b"
proof -
  have n: "nat (b_data b + b_size b) = nat (b_data b) + nat (b_size b)"
    using assms by (simp add: nat_add_distrib)
  have "b_view c = drop (nat (b_data c)) (take (nat (b_data c) + nat (b_size c)) (b_buf c))" for c
    by (simp add: b_view_def take_drop add.commute)
  then show ?thesis using assms n by simp
qed

lemma buffer_new_wf: "0 \<le> n \<Longrightarrow> n < 2 ^ 31 \<Longrightarrow> realloc_ok env n \<Longrightarrow> buffer_wf (Buffer_new env n)"
  by (simp add: buffer_wf_def Buffer_new_def)

lemma b_view_new [simp]: "b_view (Buffer_new env n) = []"
  by (simp add: b_view_def Buffer_new_def)

lemma b_decr_spec:
  assumes "buffer_wf b" "0 \<le> n" "n \<le> b_size b"
  shows "buffer_wf (b_decr n b) \<and> b_view (b_decr n b) = drop (nat n) (b_view b)"
  using assms
  by (simp add: buffer_wf_def b_view_def b_decr_def drop_take nat_diff_distrib nat_add_distrib
      add.commute)

lemma b_nice_spec:
  assumes "buffer_wf b"
  obtains b' where "b_nice b = Some b'" "buffer_wf b'" "b_view b' = b_view b"
    "b_total b' = b_total b" "b_size b' = b_size b"
proof (cases "b_size b > 0 \<and> b_data b > b_total b div 2")
  case True
  define m where "m = b_view b @ drop (nat (b_size b)) (b_buf b)"
  have wf: "0 \<le> b_data b" "0 \<le> b_size b" "b_data b + b_size b \<le> b_total b"
    "length (b_buf b) = nat (b_total b)"
    using assms by (auto simp: buffer_wf_def)
  have "b_size b \<le> b_data b" using True wf(3) by linarith
  moreover have "int (length (b_view b)) = b_size b" using assms wf by simp
  moreover have "b_size b \<le> int (length (b_buf b))" using wf by simp
  ultimately have "mem_write (b_buf b) 0 (b_view b) = Some m"
    using assms by (simp add: mem_write_eq m_def)
  then have n: "b_nice b = Some (b\<lparr>b_buf := m, b_data := 0\<rparr>)"
    using True \<open>b_size b \<le> b_data b\<close> by (simp add: b_nice_def b_view_read [OF assms])
  have "b_view (b\<lparr>b_buf := m, b_data := 0\<rparr>) = take (nat (b_size b)) m"
    by (simp add: b_view_def)
  then have "b_view (b\<lparr>b_buf := m, b_data := 0\<rparr>) = b_view b"
    using assms by (simp add: m_def)
  moreover have "length m = nat (b_total b)" using assms wf by (simp add: m_def)
  then have "buffer_wf (b\<lparr>b_buf := m, b_data := 0\<rparr>)"
    using assms by (simp add: buffer_wf_def)
  ultimately show ?thesis using n that by simp
next
  case False
  show ?thesis
  proof (cases "b_size b = 0")
    case True
    then have "b_nice b = Some (b\<lparr>b_data := 0\<rparr>)" by (simp add: b_nice_def)
    moreover have "buffer_wf (b\<lparr>b_data := 0\<rparr>)" "b_view (b\<lparr>b_data := 0\<rparr>) = b_view b"
      using assms True by (simp_all add: buffer_wf_def b_view_def)
    ultimately show ?thesis using that by simp
  next
    case ne: False
    then have "b_nice b = Some b" using False assms by (simp add: b_nice_def buffer_wf_def)
    then show ?thesis using that assms by simp
  qed
qed

lemma b_realloc_spec:
  assumes "buffer_wf b" "b_data b + b_size b \<le> n" "n < 2 ^ 31"
  shows "buffer_wf (b\<lparr>b_buf := mem_realloc env (b_buf b) n, b_total := n\<rparr>) \<and>
    b_view (b\<lparr>b_buf := mem_realloc env (b_buf b) n, b_total := n\<rparr>) = b_view b"
proof -
  have "take (nat (b_data b + b_size b)) (mem_realloc env (b_buf b) n)
      = take (nat (b_data b + b_size b)) (b_buf b)"
    using assms by (intro take_mem_realloc) (auto simp: buffer_wf_def nat_le_eq_zle)
  then show ?thesis
    using assms by (auto intro!: b_view_cong simp: buffer_wf_def)
qed

lemma b_shrink_spec:
  assumes "buffer_wf b" "n < 2 ^ 31" "b_shrink env n b = Some b'"
  shows "buffer_wf b' \<and> b_view b' = b_view b"
proof -
  define t where "t = (if n \<le> 0 then 8 * 1024 else n)"
  have "t < 2 ^ 31" using assms(2) by (simp add: t_def)
  then show ?thesis
    using assms(1,3) b_realloc_spec [OF assms(1), of t env]
    by (auto simp: b_shrink_def Let_def t_def [symmetric] split: if_splits)
qed

lemma b_grow_spec:
  assumes "buffer_wf b" "b_grow env b = Some (n, b')"
  shows "buffer_wf b' \<and> b_view b' = b_view b \<and> b_data b' = b_data b \<and> b_size b' = b_size b"
proof -
  from assms(2) have "(b' = b) \<or> (b' = b\<lparr>b_buf := mem_realloc env (b_buf b) n, b_total := n\<rparr>
      \<and> b_total b < n \<and> n < 2 ^ 31)"
    by (auto simp: b_grow_def ck32_def fits32_def bind_eq_Some_conv split: if_splits)
  then show ?thesis
    using assms(1) b_realloc_spec [OF assms(1), of n env] by (auto simp: buffer_wf_def)
qed

lemma b_reserve_spec:
  "buffer_wf b \<Longrightarrow> b_reserve env sz b = Some (ok, b') \<Longrightarrow>
   buffer_wf b' \<and> b_view b' = b_view b \<and> b_data b' = b_data b \<and> b_size b' = b_size b \<and>
   (ok \<longrightarrow> sz \<le> b_space b')"
proof (induction env sz b rule: b_reserve.induct)
  case (1 env sz b)
  show ?case
  proof (cases "sz > b_space b")
    case True
    with "1.prems"(2) obtain n b1 where g: "b_grow env b = Some (n, b1)"
      by (auto simp: b_reserve.simps [of env sz b] split: option.splits)
    note wf = b_grow_spec [OF "1.prems"(1) g]
    have "b_reserve env sz b = (if n = - 1 then Some (False, b1) else b_reserve env sz b1)"
      using True g by (simp add: b_reserve.simps [of env sz b])
    then show ?thesis
      using "1.IH" [OF True g refl] "1.prems"(2) wf by (cases "n = - 1") auto
  next
    case False
    with "1.prems" show ?thesis by (auto simp: b_reserve.simps [of env sz b])
  qed
qed

lemma b_put_spec:
  assumes "buffer_wf b" "int (length p) \<le> b_space b"
  obtains b' where "b_put p b = Some b'" "buffer_wf b'" "b_view b' = b_view b @ p"
    "b_total b' = b_total b" "b_data b' = b_data b" "b_size b' = b_size b + int (length p)"
proof -
  define s where "s = nat (b_slot b)"
  define m where "m = take s (b_buf b) @ p @ drop (s + length p) (b_buf b)"
  have wf: "0 \<le> b_data b" "0 \<le> b_size b" "length (b_buf b) = nat (b_total b)"
    "b_slot b + int (length p) \<le> b_total b" "s = nat (b_data b) + nat (b_size b)"
    using assms by (auto simp: buffer_wf_def b_space_def b_slot_def s_def nat_add_distrib)
  have "mem_write (b_buf b) (b_slot b) p = Some m"
    using wf by (simp add: mem_write_eq m_def s_def b_slot_def)
  then have put: "b_put p b = Some (b\<lparr>b_buf := m, b_size := b_size b + int (length p)\<rparr>)"
    by (simp add: b_put_def)
  have s: "s + length p \<le> length (b_buf b)" using wf by (simp add: s_def b_slot_def)
  have sz: "nat (b_size b + int (length p)) = nat (b_size b) + length p"
    using wf by (simp add: nat_add_distrib)
  have "b_view (b\<lparr>b_buf := m, b_size := b_size b + int (length p)\<rparr>) = b_view b @ p"
    using s sz wf(5) by (simp add: b_view_def m_def take_drop add.commute)
  moreover have "buffer_wf (b\<lparr>b_buf := m, b_size := b_size b + int (length p)\<rparr>)"
    using assms s by (auto simp: buffer_wf_def m_def b_space_def)
  ultimately show ?thesis using put that by simp
qed

lemma b_append_spec:
  assumes "buffer_wf b" "b_append env p b = Some (r, b')"
  shows "buffer_wf b' \<and> b_view b' = (if r = - 1 then b_view b else b_view b @ p)"
proof -
  obtain ok b1 where r: "b_reserve env (int (length p)) b = Some (ok, b1)"
    using assms(2) by (auto simp: b_append_def bind_eq_Some_conv)
  note wf = b_reserve_spec [OF assms(1) r]
  show ?thesis
  proof (cases ok)
    case True
    then obtain b2 where "b_put p b1 = Some b2" "buffer_wf b2" "b_view b2 = b_view b @ p"
      using wf b_put_spec [of b1 p] by metis
    with True r assms(2) show ?thesis by (auto simp: b_append_def)
  next
    case False
    with r wf assms(2) show ?thesis by (simp add: b_append_def)
  qed
qed

lemma b_grow_total:
  assumes "buffer_wf b" "b_total b < 2 ^ 30"
  shows "\<exists>n b'. b_grow env b = Some (n, b') \<and> (n = - 1 \<longrightarrow> (\<exists>n > b_total b. \<not> realloc_ok env n))"
proof -
  define n where "n = (if b_total b < 8192 then 8192 else if b_total b < 524288 then 8 * b_total b else 2 * b_total b)"
  have n: "b_total b < n" "n < 2 ^ 31" "0 \<le> n" using assms by (auto simp: n_def buffer_wf_def)
  then have "b_grow env b = Some (if realloc_ok env n
      then (n, b\<lparr>b_buf := mem_realloc env (b_buf b) n, b_total := n\<rparr>) else (- 1, b))"
    using assms(2) by (cases "b_total b < 8192"; cases "b_total b < 524288") (simp_all add: b_grow_def n_def ck32_def fits32_def)
  then show ?thesis using n by auto
qed

text \<open>Below a gibibyte no capacity overflows: reserving fails only when the heap refuses a block.\<close>

lemma b_reserve_total:
  assumes "buffer_wf b" "b_data b + b_size b + sz \<le> 2 ^ 30"
  shows "\<exists>ok b'. b_reserve env sz b = Some (ok, b') \<and> (\<not> ok \<longrightarrow> (\<exists>n > b_total b. \<not> realloc_ok env n))"
  using assms
proof (induction env sz b rule: b_reserve.induct)
  case (1 env sz b)
  show ?case
  proof (cases "sz > b_space b")
    case True
    with "1.prems" have "b_total b < 2 ^ 30" by (simp add: b_space_def buffer_wf_def)
    then obtain n b1 where g: "b_grow env b = Some (n, b1)"
      "n = - 1 \<longrightarrow> (\<exists>n > b_total b. \<not> realloc_ok env n)"
      using b_grow_total "1.prems"(1) by blast
    show ?thesis
    proof (cases "n = - 1")
      case False
      then have "b_total b < b_total b1" using b_grow_larger g(1) by blast
      moreover from False have step: "b_reserve env sz b = b_reserve env sz b1"
        using True g(1) by (simp add: b_reserve.simps [of env sz b])
      obtain ok b' where r: "b_reserve env sz b1 = Some (ok, b')"
        "\<not> ok \<longrightarrow> (\<exists>n > b_total b1. \<not> realloc_ok env n)"
        using "1.IH" [OF True g(1) refl False] "1.prems" b_grow_spec [OF "1.prems"(1) g(1)] by auto
      ultimately show ?thesis
        unfolding step by (metis less_trans)
    qed (use True g in \<open>auto simp: b_reserve.simps [of env sz b]\<close>)
  qed (auto simp add: b_reserve.simps [of env sz b])
qed

lemma b_reserve_succeeds:
  assumes "buffer_wf b" "\<And>n. realloc_ok env n" "b_data b + b_size b + sz \<le> 2 ^ 30"
  shows "\<exists>b'. b_reserve env sz b = Some (True, b')"
  using b_reserve_total [OF assms(1,3), of env] assms(2) by auto

lemma b_append_data:
  assumes "buffer_wf b" "b_append env p b = Some (r, b')"
  shows "b_data b' = b_data b"
proof -
  obtain ok b1 where r: "b_reserve env (int (length p)) b = Some (ok, b1)"
    using assms(2) by (auto simp: b_append_def bind_eq_Some_conv)
  then show ?thesis
    using b_reserve_spec [OF assms(1) r] assms(2)
    by (auto simp: b_append_def b_put_def bind_eq_Some_conv split: if_splits)
qed

definition zero_env :: heap_env where
  "zero_env = \<lparr>fresh = (\<lambda>_. NUL), realloc_ok = (\<lambda>_. True)\<rparr>"

section \<open>The buffer as a byte queue\<close>

text \<open>
  The code that builds replies and sync messages calls the append operations one after the
  other and ignores their results; \<open>push_all\<close> is that sequence.
\<close>

primrec push_all :: "('p \<Rightarrow> 'q \<Rightarrow> (int \<times> 'q) option) \<Rightarrow> 'p list \<Rightarrow> 'q \<Rightarrow> 'q option" where
  "push_all push [] q = Some q"
| "push_all push (p # ps) q = do { (r, q) \<leftarrow> push p q; push_all push ps q }"

text \<open>
  The contract of an append operation: it keeps the invariant, adds \<open>enc p\<close> at the end or,
  with result \<open>-1\<close>, nothing; and it succeeds while its cost fits the room that is left.
\<close>

locale byte_queue =
  fixes inv :: "'q \<Rightarrow> bool"
    and view :: "'q \<Rightarrow> bytes"
    and push :: "'p \<Rightarrow> 'q \<Rightarrow> (int \<times> 'q) option"
    and enc :: "'p \<Rightarrow> bytes"
    and cost :: "'p \<Rightarrow> int"
    and room :: "'q \<Rightarrow> int"
  assumes push_spec:
      "inv q \<Longrightarrow> push p q = Some (r, q') \<Longrightarrow>
       inv q' \<and> view q' = (if r = - 1 then view q else view q @ enc p)"
    and push_room:
      "inv q \<Longrightarrow> cost p \<le> room q \<Longrightarrow>
       \<exists>r q'. push p q = Some (r, q') \<and> r \<noteq> - 1 \<and> room q' \<ge> room q - cost p"
    and cost_nonneg: "0 \<le> cost p"
begin

lemma push_all_inv: "inv q \<Longrightarrow> push_all push ps q = Some q' \<Longrightarrow> inv q'"
proof (induction ps arbitrary: q)
  case (Cons p ps)
  then obtain r q1 where "push p q = Some (r, q1)" "push_all push ps q1 = Some q'"
    by (auto simp: bind_eq_Some_conv)
  with Cons show ?case using push_spec by blast
qed simp

lemma push_all_succeeds:
  "inv q \<Longrightarrow> sum_list (map cost ps) \<le> room q \<Longrightarrow>
   \<exists>q'. push_all push ps q = Some q' \<and> inv q' \<and> view q' = view q @ concat (map enc ps) \<and>
        room q' \<ge> room q - sum_list (map cost ps)"
proof (induction ps arbitrary: q)
  case (Cons p ps)
  have nn: "0 \<le> sum_list (map cost ps)" by (intro sum_list_nonneg) (auto simp: cost_nonneg)
  with Cons.prems have "cost p \<le> room q" by simp
  then obtain r q1 where p: "push p q = Some (r, q1)" "r \<noteq> - 1" "room q1 \<ge> room q - cost p"
    using push_room [OF Cons.prems(1)] by blast
  have q1: "inv q1" "view q1 = view q @ enc p"
    using push_spec [OF Cons.prems(1) p(1)] p(2) by auto
  have "sum_list (map cost ps) \<le> room q1" using Cons.prems(2) p(3) by simp
  then obtain q' where "push_all push ps q1 = Some q'" "inv q'"
    "view q' = view q1 @ concat (map enc ps)" "room q' \<ge> room q1 - sum_list (map cost ps)"
    using Cons.IH [OF q1(1)] by blast
  then show ?case using p q1 by (intro exI [of _ q']) auto
qed simp

end

text \<open>With a heap that never refuses, a buffer can hold a gibibyte before capacities overflow.\<close>

definition b_room :: "heap_env \<Rightarrow> Buffer \<Rightarrow> int" where
  "b_room env b = (if \<forall>n. realloc_ok env n then 2 ^ 30 - b_data b - b_size b else - 1)"

lemma b_append_room:
  assumes "buffer_wf b" "int (length p) \<le> b_room env b"
  shows "\<exists>r b'. b_append env p b = Some (r, b') \<and> r \<noteq> - 1 \<and> b_room env b' \<ge> b_room env b - int (length p)"
proof -
  have env: "realloc_ok env n" for n using assms(2) by (auto simp: b_room_def split: if_splits)
  then obtain b1 where b1: "b_reserve env (int (length p)) b = Some (True, b1)"
    using b_reserve_succeeds [OF assms(1) env, of "int (length p)"] assms(2)
    by (auto simp: b_room_def)
  note wf = b_reserve_spec [OF assms(1) b1]
  then obtain b2 where "b_put p b1 = Some b2" "b_data b2 = b_data b1"
    "b_size b2 = b_size b1 + int (length p)"
    using b_put_spec [of b1 p] by metis
  with b1 wf env show ?thesis by (auto simp: b_append_def b_room_def)
qed

interpretation app: byte_queue buffer_wf b_view "b_append env" "\<lambda>p. p" "\<lambda>p. int (length p)" "b_room env"
  for env
  by unfold_locales (auto dest: b_append_spec b_append_room)

lemma record_cost:
  assumes "17 + int (length s) < 2 ^ 31"
  shows "int (length (record_bytes s)) \<le> 17 + int (length s)"
proof -
  have "length s < 10 ^ 10" using assms by simp
  then show ?thesis using length_dec_nat [of "length s" 10] by (simp add: record_bytes_def)
qed

lemma b_append_record_unfold:
  "17 + int (length s) < 2 ^ 31 \<Longrightarrow>
   b_append_record env s b =
     do { (ok, b) \<leftarrow> b_reserve env (17 + int (length s)) b;
          if \<not> ok then Some (- 1, b)
          else do { b \<leftarrow> b_put (record_bytes s) b; Some (int (length (record_bytes s)), b) } }"
  by (simp add: b_append_record_def ck32_def fits32_def record_bytes_def dec_int_def algebra_simps
      cong: if_cong)

lemma b_append_record_spec:
  assumes "buffer_wf b" "b_append_record env s b = Some (r, b')"
  shows "buffer_wf b' \<and> b_view b' = (if r = - 1 then b_view b else b_view b @ record_bytes s)"
proof -
  have l: "17 + int (length s) < 2 ^ 31"
    using assms(2) by (auto simp: b_append_record_def ck32_def fits32_def bind_eq_Some_conv split: if_splits)
  note u = b_append_record_unfold [OF l, of env b]
  obtain ok b1 where r: "b_reserve env (17 + int (length s)) b = Some (ok, b1)"
    using assms(2) u by (auto simp: bind_eq_Some_conv)
  note wf = b_reserve_spec [OF assms(1) r]
  show ?thesis
  proof (cases ok)
    case True
    then obtain b2 where "b_put (record_bytes s) b1 = Some b2" "buffer_wf b2"
      "b_view b2 = b_view b @ record_bytes s"
      using wf record_cost [OF l] b_put_spec [of b1 "record_bytes s"] by (metis order_trans)
    with True r u assms(2) show ?thesis by auto
  next
    case False
    with r u wf assms(2) show ?thesis by simp
  qed
qed

lemma b_append_record_room:
  assumes "buffer_wf b" "17 + int (length s) \<le> b_room env b"
  shows "\<exists>r b'. b_append_record env s b = Some (r, b') \<and> r \<noteq> - 1 \<and>
    b_room env b' \<ge> b_room env b - (17 + int (length s))"
proof -
  have env: "realloc_ok env n" for n using assms(2) by (auto simp: b_room_def split: if_splits)
  then have l: "17 + int (length s) < 2 ^ 31" and
    c: "b_data b + b_size b + (17 + int (length s)) \<le> 2 ^ 30"
    using assms by (auto simp: b_room_def buffer_wf_def)
  obtain b1 where b1: "b_reserve env (17 + int (length s)) b = Some (True, b1)"
    using b_reserve_succeeds [OF assms(1) env c] by blast
  note wf = b_reserve_spec [OF assms(1) b1]
  then obtain b2 where "b_put (record_bytes s) b1 = Some b2" "b_data b2 = b_data b1"
    "b_size b2 = b_size b1 + int (length (record_bytes s))"
    using b_put_spec [of b1 "record_bytes s"] record_cost [OF l] by (metis order_trans)
  with b1 wf env record_cost [OF l] show ?thesis
    by (auto simp: b_append_record_unfold [OF l] b_room_def)
qed

interpretation rec: byte_queue buffer_wf b_view "b_append_record env" record_bytes
  "\<lambda>s. 17 + int (length s)" "b_room env" for env
  by unfold_locales (auto dest: b_append_record_spec b_append_record_room)

text \<open>The outcomes of an append: the bytes \<open>p\<close> are there, or the heap has refused.\<close>

definition appended :: "heap_env \<Rightarrow> Buffer \<Rightarrow> bytes \<Rightarrow> int \<Rightarrow> Buffer \<Rightarrow> bool" where
  "appended env b p r b' \<longleftrightarrow> buffer_wf b' \<and>
     (r = int (length p) \<and> b_view b' = b_view b @ p \<or>
      r = - 1 \<and> b_view b' = b_view b \<and> (\<exists>n > b_total b. \<not> realloc_ok env n))"

lemma reserve_put_appended:
  assumes "buffer_wf b" "b_data b + b_size b + sz \<le> 2 ^ 30" "int (length p) \<le> sz"
  shows "\<exists>r b'. do { (ok, b) \<leftarrow> b_reserve env sz b;
       if \<not> ok then Some (- 1, b) else do { b \<leftarrow> b_put p b; Some (int (length p), b) } } = Some (r, b') \<and>
     appended env b p r b'"
proof -
  obtain ok b1 where r: "b_reserve env sz b = Some (ok, b1)" "\<not> ok \<longrightarrow> (\<exists>n > b_total b. \<not> realloc_ok env n)"
    using b_reserve_total [OF assms(1,2)] by blast
  note wf = b_reserve_spec [OF assms(1) r(1)]
  show ?thesis
  proof (cases ok)
    case True
    then obtain b2 where "b_put p b1 = Some b2" "buffer_wf b2" "b_view b2 = b_view b1 @ p"
      using wf b_put_spec [of b1 p] assms(3) by (metis order_trans)
    then show ?thesis using True r(1) wf by (simp add: appended_def)
  next
    case False
    then show ?thesis using r wf by (simp add: appended_def)
  qed
qed

lemma b_append_appended:
  assumes "buffer_wf b" "b_data b + b_size b + int (length p) \<le> 2 ^ 30"
  shows "\<exists>r b'. b_append env p b = Some (r, b') \<and> appended env b p r b'"
  using reserve_put_appended [OF assms order_refl, of env] unfolding b_append_def .

lemma b_append_char_eq: "b_append_char env c b = b_append env [c] b"
  by (simp add: b_append_char_def b_append_def cong: if_cong)

lemma b_append_record_appended:
  assumes "buffer_wf b" "b_data b + b_size b + 17 + int (length p) \<le> 2 ^ 30"
  shows "\<exists>r b'. b_append_record env p b = Some (r, b') \<and> appended env b (record_bytes p) r b'"
proof -
  have l: "17 + int (length p) < 2 ^ 31" using assms by (simp add: buffer_wf_def)
  have "b_data b + b_size b + (17 + int (length p)) \<le> 2 ^ 30" using assms(2) by simp
  from reserve_put_appended [OF assms(1) this record_cost [OF l], of env] show ?thesis
    unfolding b_append_record_unfold [OF l] .
qed

section \<open>Properties\<close>

text \<open>
  The comparison of \<open>Bytes\<close> is the unsigned lexicographic order, a total order with the
  expected operators.
\<close>

theorem bytes_compare_order:
  "(bytes_compare x y < 0) = (x < y) \<and> (bytes_compare x y = 0) = (x = y) \<and>
   (bytes_compare x y > 0) = (y < x) \<and> bytes_eq x y = (x = y)"
  using bytes_compare_less [of x y] bytes_compare_zero [of x y] bytes_gt_iff [unfolded bytes_gt_def, of x y]
  by (simp only: bytes_eq_iff simp_thms)

text \<open>
  C1.  Appending bytes, a character or a record to a well-formed buffer whose occupied part stays
  below a gibibyte never leaves the block and never overflows a capacity: it adds exactly the
  bytes, or the record with its length, at the end and returns how many they are, or it returns
  -1 with the contents as they were, and then the heap refused a block larger than the old one.
\<close>

theorem append_contents:
  assumes "buffer_wf b" "b_data b + b_size b + 17 + int (length p) \<le> 2 ^ 30"
  shows "(\<exists>r b'. b_append env p b = Some (r, b') \<and> appended env b p r b') \<and>
    (\<exists>r b'. b_append_char env c b = Some (r, b') \<and> appended env b [c] r b') \<and>
    (\<exists>r b'. b_append_record env p b = Some (r, b') \<and> appended env b (record_bytes p) r b')"
  using assms b_append_appended [of b p env] b_append_appended [of b "[c]" env]
    b_append_record_appended [of b p env]
  by (simp add: b_append_char_eq)

theorem append_contents_witness:
  "\<exists>b'. b_append zero_env ''ab'' (Buffer_new zero_env 4) = Some (2, b') \<and> b_view b' = ''ab''"
proof -
  have "buffer_wf (Buffer_new zero_env 4)" by (rule buffer_new_wf) (simp_all add: zero_env_def)
  moreover have "b_data (Buffer_new zero_env 4) + b_size (Buffer_new zero_env 4) + 17 + int (length ''ab'') \<le> 2 ^ 30"
    by (simp add: Buffer_new_def)
  ultimately show ?thesis
    using append_contents [of "Buffer_new zero_env 4" "''ab''" zero_env]
    by (fastforce simp: appended_def zero_env_def)
qed

text \<open>
  Appending always terminates, and it succeeds as long as the heap grants the memory and
  the occupied part of the block stays within 2^30 bytes.
\<close>

lemma append_succeeds:
  assumes "buffer_wf b" "\<And>n. realloc_ok env n"
    and "b_data b + b_size b + int (length p) \<le> 2 ^ 30"
  shows "\<exists>r b'. b_append env p b = Some (r, b') \<and> r \<noteq> - 1 \<and> b_view b' = b_view b @ p"
proof -
  have "int (length p) \<le> b_room env b" using assms by (simp add: b_room_def)
  then obtain r b' where "b_append env p b = Some (r, b')" "r \<noteq> - 1"
    using app.push_room [OF assms(1)] by blast
  with app.push_spec [OF assms(1)] show ?thesis by auto
qed

text \<open>
  Moving the data to the front of the block (\<open>nice\<close>) never copies between overlapping
  regions and keeps the contents; afterwards the data starts at the front or occupies no more
  than the second half of the block.
\<close>

theorem nice_keeps_contents:
  assumes "buffer_wf b"
  shows "\<exists>b'. b_nice b = Some b' \<and> buffer_wf b' \<and> b_view b' = b_view b \<and>
    b_data b' \<le> b_total b' div 2"
proof -
  obtain b' where b': "b_nice b = Some b'" "buffer_wf b'" "b_view b' = b_view b"
    "b_total b' = b_total b"
    using b_nice_spec [OF assms] by metis
  have "b_data b' = 0 \<or> b' = b \<and> b_data b \<le> b_total b div 2"
    using b'(1) by (auto simp: b_nice_def bind_eq_Some_conv split: if_splits)
  then have "b_data b' \<le> b_total b' div 2" using b' by (auto simp: buffer_wf_def)
  with b' show ?thesis by blast
qed

text \<open>
  A record written by \<open>append_record\<close> is read back by \<open>read_record\<close>, which consumes
  exactly its bytes and leaves what follows.
\<close>

theorem read_append_record:
  assumes "buffer_wf b" "b_view b = record_bytes s @ rest"
  shows "\<exists>b'. b_read_record b = Some (1, Some s, b') \<and> buffer_wf b' \<and> b_view b' = rest"
proof -
  define n where "n = length (dec_nat (length s))"
  define d where "d = dec_nat (length s) @ LF # s @ LF # rest"
  have view: "b_view b = d" using assms(2) by (simp add: record_bytes_def d_def)
  have sz: "b_size b = int (n + length s + 2 + length rest)"
    using length_b_view [OF assms(1)] view assms(1) by (simp add: n_def d_def buffer_wf_def)
  then have le: "int n + 1 + int (length s) + 1 \<le> b_size b" by simp
  have "length s < 10 ^ 10" using sz assms(1) by (simp add: buffer_wf_def)
  then have n: "n \<le> 10" unfolding n_def by (rule length_dec_nat) simp
  have "memchr LF d = Some n"
    unfolding memchr_def n_def d_def
    by (simp, rule arg_cong [of _ _ length], rule takeWhile_all)
       (use dec_nat_digits in fastforce)+
  moreover have "isdigit (d ! 0)"
    using dec_nat_head [of "length s"] by (auto simp: d_def)
  moreover have "atoi (take n d @ [NUL]) = Some (int (length s))"
    using sz assms(1)
    by (simp add: atoi_def strtol_def strto_scan_dec n_def d_def buffer_wf_def fits32_def)
  moreover have "ck32 (int n + 1 + int (length s) + 1) = Some (int n + 1 + int (length s) + 1)"
    using sz assms(1) by (simp add: ck32_def fits32_def buffer_wf_def)
  moreover have "d ! nat (int n + 1 + int (length s)) = LF"
    by (simp add: n_def d_def nth_append nat_add_distrib)
  moreover have "take (length s) (drop (nat (int n + 1)) d) = s"
    by (simp add: n_def d_def nat_add_distrib)
  ultimately have "b_read_record b = Some (1, Some s, b_decr (int n + 1 + int (length s) + 1) b)"
    using n le by (simp add: b_read_record_def b_view_read [OF assms(1)] view Let_def)
  moreover have "drop (n + length s + 2) d = rest" by (simp add: n_def d_def)
  ultimately show ?thesis
    using b_decr_spec [OF assms(1), of "int n + 1 + int (length s) + 1"] sz view
    by (simp add: nat_add_distrib algebra_simps)
qed

end
