(* ===== verification/Binlog.thy ===== *)
theory Binlog
  imports Leveldb Bytes_Buffer
begin

text \<open>
  Model of src/ssdb/src/ssdb/const.h, binlog.h and binlog.cpp: the log records, their keys in
  the database, and the queue that batches the writes of a transaction with their log
  records.

  A \<open>Binlog\<close> is its buffer.  The accessors read the buffer at fixed offsets and are
  undefined (\<^term>\<open>None\<close>) on a buffer that is too short.  The queue holds the one database
  handle that \<open>SSDBImpl\<close> shares with it.
\<close>

section \<open>Constants (const.h)\<close>

definition SSDB_KEY_LEN_MAX :: nat where "SSDB_KEY_LEN_MAX = 255"

abbreviation DT_SYNCLOG :: char where "DT_SYNCLOG \<equiv> CHR 0x01"
abbreviation DT_KV :: char where "DT_KV \<equiv> CHR ''k''"
abbreviation DT_HASH :: char where "DT_HASH \<equiv> CHR ''h''"
abbreviation DT_HSIZE :: char where "DT_HSIZE \<equiv> CHR ''H''"
abbreviation DT_MIN_PREFIX :: char where "DT_MIN_PREFIX \<equiv> DT_HASH"
abbreviation DT_MAX_PREFIX :: char where "DT_MAX_PREFIX \<equiv> CHR ''s''"

abbreviation BT_NOOP :: char where "BT_NOOP \<equiv> CHR 0x00"
abbreviation BT_SYNC :: char where "BT_SYNC \<equiv> CHR 0x01"
abbreviation BT_MIRROR :: char where "BT_MIRROR \<equiv> CHR 0x02"
abbreviation BT_COPY :: char where "BT_COPY \<equiv> CHR 0x03"
abbreviation BT_CTRL :: char where "BT_CTRL \<equiv> CHR 0x04"

abbreviation BC_NONE :: char where "BC_NONE \<equiv> CHR 0x00"
abbreviation BC_KSET :: char where "BC_KSET \<equiv> CHR 0x01"
abbreviation BC_KDEL :: char where "BC_KDEL \<equiv> CHR 0x02"
abbreviation BC_HSET :: char where "BC_HSET \<equiv> CHR 0x03"
abbreviation BC_HDEL :: char where "BC_HDEL \<equiv> CHR 0x04"
abbreviation BC_BEGIN :: char where "BC_BEGIN \<equiv> CHR 0x07"
abbreviation BC_END :: char where "BC_END \<equiv> CHR 0x08"

section \<open>Log records\<close>

definition HEADER_LEN :: nat where "HEADER_LEN = 8 + 2"

definition Binlog_new :: "64 word \<Rightarrow> char \<Rightarrow> char \<Rightarrow> bytes \<Rightarrow> bytes" where
  "Binlog_new sq typ cmd key = mem64 sq @ [typ] @ [cmd] @ key"

definition Binlog_seq :: "bytes \<Rightarrow> 64 word option" where
  "Binlog_seq buf = (if length buf < 8 then None else Some (read64 buf))"

text \<open>\<open>operator[]\<close> of a string: the terminating NUL at its size, undefined beyond.\<close>

definition str_at :: "bytes \<Rightarrow> nat \<Rightarrow> char option" where
  "str_at s i = (if i < length s then Some (s ! i) else if i = length s then Some NUL else None)"

definition Binlog_type :: "bytes \<Rightarrow> char option" where
  "Binlog_type buf = str_at buf 8"

definition Binlog_cmd :: "bytes \<Rightarrow> char option" where
  "Binlog_cmd buf = str_at buf (8 + 1)"

definition Binlog_key :: "bytes \<Rightarrow> bytes option" where
  "Binlog_key buf = (if length buf < HEADER_LEN then None else Some (drop HEADER_LEN buf))"

definition Binlog_load :: "bytes \<Rightarrow> bytes \<Rightarrow> int \<times> bytes" where
  "Binlog_load buf s = (if length s < HEADER_LEN then (- 1, buf) else (0, s))"

definition encode_seq_key :: "64 word \<Rightarrow> bytes" where
  "encode_seq_key sq = [DT_SYNCLOG] @ mem64 (big_endian64 sq)"

definition decode_seq_key :: "bytes \<Rightarrow> 64 word" where
  "decode_seq_key key =
     (if length key = 8 + 1 \<and> key ! 0 = DT_SYNCLOG then big_endian64 (read64 (drop 1 key)) else 0)"

section \<open>The queue\<close>

record 'db BinlogQueue =
  bq_db :: 'db
  bq_capacity :: int
  bq_last_seq :: "64 word"
  bq_tran_seq :: "64 word"
  bq_batch :: "batch_op list"
  bq_locked :: bool

definition bq_Put :: "bytes \<Rightarrow> bytes \<Rightarrow> 'db BinlogQueue \<Rightarrow> 'db BinlogQueue" where
  "bq_Put key val q = q\<lparr>bq_batch := bq_batch q @ [BPut key val]\<rparr>"

definition bq_Delete :: "bytes \<Rightarrow> 'db BinlogQueue \<Rightarrow> 'db BinlogQueue" where
  "bq_Delete key q = q\<lparr>bq_batch := bq_batch q @ [BDelete key]\<rparr>"

definition bq_begin :: "'db BinlogQueue \<Rightarrow> 'db BinlogQueue" where
  "bq_begin q = q\<lparr>bq_tran_seq := bq_last_seq q, bq_batch := []\<rparr>"

definition bq_commit ::
  "('db, 'it) leveldb \<Rightarrow> 'db BinlogQueue \<Rightarrow> leveldb_status \<times> 'db BinlogQueue" where
  "bq_commit L q =
     (let (s, db) = ldb_Write L (bq_db q) (bq_batch q); q = q\<lparr>bq_db := db\<rparr>
      in if st_ok s then (s, q\<lparr>bq_last_seq := bq_tran_seq q, bq_tran_seq := 0\<rparr>) else (s, q))"

definition bq_rollback :: "'db BinlogQueue \<Rightarrow> 'db BinlogQueue" where
  "bq_rollback q = q\<lparr>bq_tran_seq := 0\<rparr>"

definition bq_add_log :: "char \<Rightarrow> char \<Rightarrow> bytes \<Rightarrow> 'db BinlogQueue \<Rightarrow> 'db BinlogQueue" where
  "bq_add_log typ cmd key q =
     (let q = q\<lparr>bq_tran_seq := bq_tran_seq q + 1\<rparr>
      in q\<lparr>bq_batch := bq_batch q @
             [BPut (encode_seq_key (bq_tran_seq q)) (Binlog_new (bq_tran_seq q) typ cmd key)]\<rparr>)"

text \<open>The guard object: lock and begin on construction, rollback and unlock on destruction.\<close>

definition Transaction_enter :: "'db BinlogQueue \<Rightarrow> 'db BinlogQueue" where
  "Transaction_enter q = bq_begin (q\<lparr>bq_locked := True\<rparr>)"

definition Transaction_leave :: "'db BinlogQueue \<Rightarrow> 'db BinlogQueue" where
  "Transaction_leave q = (bq_rollback q)\<lparr>bq_locked := False\<rparr>"

text \<open>Loading the record under a valid iterator, shared by \<open>find_last\<close> and \<open>find_next\<close>.\<close>

definition load_current :: "('db, 'it) leveldb \<Rightarrow> 'it \<Rightarrow> bytes \<Rightarrow> int \<times> bytes" where
  "load_current L it log =
     (if it_Valid L it
      then if decode_seq_key (it_key L it) \<noteq> 0
           then let (r, log) = Binlog_load log (it_value L it) in (if r = - 1 then - 1 else 1, log)
           else (0, log)
      else (0, log))"

definition bq_find_last :: "('db, 'it) leveldb \<Rightarrow> 'db BinlogQueue \<Rightarrow> bytes \<Rightarrow> int \<times> bytes" where
  "bq_find_last L q log =
     (let it = it_Seek L (ldb_NewIterator L (bq_db q)) (encode_seq_key (- 1));
          it = (if \<not> it_Valid L it then it_SeekToLast L it else it_Prev L it)
      in load_current L it log)"

definition bq_get :: "('db, 'it) leveldb \<Rightarrow> 'db BinlogQueue \<Rightarrow> 64 word \<Rightarrow> bytes \<Rightarrow> int \<times> bytes" where
  "bq_get L q sq log =
     (let (s, val) = ldb_Get L (bq_db q) (encode_seq_key sq)
      in if st_ok s
         then let (r, log) = Binlog_load log val in (if r \<noteq> - 1 then 1 else 0, log)
         else (0, log))"

definition bq_find_next ::
  "('db, 'it) leveldb \<Rightarrow> 'db BinlogQueue \<Rightarrow> 64 word \<Rightarrow> bytes \<Rightarrow> int \<times> bytes" where
  "bq_find_next L q next_seq log =
     (let (r, log) = bq_get L q next_seq log
      in if r = 1 then (1, log)
         else load_current L (it_Seek L (ldb_NewIterator L (bq_db q)) (encode_seq_key next_seq)) log)"

text \<open>The constructor recovers \<open>last_seq\<close> from the database.\<close>

definition BinlogQueue_new :: "('db, 'it) leveldb \<Rightarrow> 'db \<Rightarrow> int \<Rightarrow> 'db BinlogQueue option" where
  "BinlogQueue_new L db capacity =
     (let q = \<lparr>bq_db = db, bq_capacity = capacity, bq_last_seq = 0, bq_tran_seq = 0,
               bq_batch = [], bq_locked = False\<rparr>;
          (r, log) = bq_find_last L q []
      in if r = 1 then map_option (\<lambda>sq. q\<lparr>bq_last_seq := sq\<rparr>) (Binlog_seq log) else Some q)"

section \<open>Records and keys: lemmas\<close>

lemma length_Binlog_new: "length (Binlog_new sq typ cmd key) = HEADER_LEN + length key"
  by (simp add: Binlog_new_def HEADER_LEN_def)

lemma Binlog_fields [simp]:
  "Binlog_seq (Binlog_new sq typ cmd key) = Some sq"
  "Binlog_type (Binlog_new sq typ cmd key) = Some typ"
  "Binlog_cmd (Binlog_new sq typ cmd key) = Some cmd"
  "Binlog_key (Binlog_new sq typ cmd key) = Some key"
  by (simp_all add: Binlog_new_def Binlog_seq_def Binlog_type_def Binlog_cmd_def Binlog_key_def
      str_at_def nth_append HEADER_LEN_def)

lemma Binlog_load_ok [simp]: "HEADER_LEN \<le> length s \<Longrightarrow> Binlog_load buf s = (0, s)"
  by (simp add: Binlog_load_def)

interpretation binlog: codec
  "\<lambda>(sq, typ, cmd, key). Binlog_new sq typ cmd key"
  "\<lambda>s. do { sq \<leftarrow> Binlog_seq s; typ \<leftarrow> Binlog_type s; cmd \<leftarrow> Binlog_cmd s; key \<leftarrow> Binlog_key s;
            Some (sq, typ, cmd, key) }" "\<lambda>_. True"
  by unfold_locales auto

lemma encode_seq_key_eq: "encode_seq_key sq = DT_SYNCLOG # rev (mem64 sq)"
  by (simp add: encode_seq_key_def mem64_big_endian64)

lemma decode_encode_seq: "decode_seq_key (encode_seq_key sq) = sq"
  by (simp add: decode_seq_key_def encode_seq_key_def big_endian64_involution)

interpretation seq_key: ordered_codec encode_seq_key "\<lambda>k. Some (decode_seq_key k)" "\<lambda>_. True"
  by unfold_locales (simp add: decode_encode_seq, simp add: encode_seq_key_eq rev_mem64_less)

lemma encode_seq_key_inject [simp]: "encode_seq_key s = encode_seq_key t \<longleftrightarrow> s = t"
  by (rule seq_key.encode_eq_iff) simp_all

lemma decode_seq_key_nonzero:
  assumes "decode_seq_key k \<noteq> 0"
  shows "k = encode_seq_key (decode_seq_key k)"
proof -
  have k: "length k = 9" "k ! 0 = DT_SYNCLOG"
    using assms by (auto simp: decode_seq_key_def split: if_splits)
  then have "length (drop 1 k) = 8" by simp
  then have "mem64 (read64 (drop 1 k)) = drop 1 k" by (rule mem64_read64)
  moreover have "k = [k ! 0] @ drop 1 k" using k by (cases k) auto
  ultimately show ?thesis
    using k by (simp add: encode_seq_key_def decode_seq_key_def big_endian64_involution)
qed

text \<open>A key of any other kind sorts after every log key.\<close>

lemma data_key_after_log [key_simps]: "DT_SYNCLOG < c \<Longrightarrow> encode_seq_key s < c # k"
  by (simp add: encode_seq_key_eq)

lemma data_key_not_log [key_simps]: "c \<noteq> DT_SYNCLOG \<Longrightarrow> encode_seq_key s \<noteq> c # k"
  by (simp add: encode_seq_key_eq)

section \<open>The log in the database\<close>

text \<open>
  The invariant of the log part of a database: the records present are exactly those numbered
  1 to \<open>n\<close>, each stores its own number, and every other key sorts after the log.  The number
  2^64 - 1 is never used.
\<close>

definition log_wf :: "store \<Rightarrow> 64 word \<Rightarrow> bool" where
  "log_wf m n \<longleftrightarrow> n < - 1 \<and>
     (\<forall>s. m (encode_seq_key s) \<noteq> None \<longleftrightarrow> 1 \<le> s \<and> s \<le> n) \<and>
     (\<forall>s v. m (encode_seq_key s) = Some v \<longrightarrow> HEADER_LEN \<le> length v \<and> read64 v = s) \<and>
     (\<forall>k \<in> dom m. (\<exists>s. k = encode_seq_key s) \<or> encode_seq_key (- 1) < k)"

lemma log_wf_empty: "log_wf Map.empty 0"
proof -
  have "(1 \<le> s \<and> s \<le> 0) = False" for s :: "64 word"
    by (metis word_zero_le zero_neq_one order_antisym)
  moreover have "(0 :: 64 word) < - 1" by (simp add: word_gt_0)
  ultimately show ?thesis by (simp add: log_wf_def)
qed

lemma log_wf_key: "log_wf m n \<Longrightarrow> k \<in> dom m \<Longrightarrow> (\<exists>s. k = encode_seq_key s) \<or> encode_seq_key (- 1) < k"
  by (simp add: log_wf_def)

lemma log_wf_present: "log_wf m n \<Longrightarrow> m (encode_seq_key s) \<noteq> None \<longleftrightarrow> 1 \<le> s \<and> s \<le> n"
  by (simp add: log_wf_def)

lemma log_wf_entry: "log_wf m n \<Longrightarrow> m (encode_seq_key s) = Some v \<Longrightarrow> HEADER_LEN \<le> length v \<and> read64 v = s"
  by (simp add: log_wf_def)

text \<open>Storing or removing a data key does not touch the log; one more record extends it.\<close>

lemma log_wf_data:
  assumes "log_wf m n" "encode_seq_key (- 1) < k"
  shows "log_wf (m(k := v)) n"
proof -
  have "k \<noteq> encode_seq_key s" for s
    using assms(2) seq_key.encode_le [of s "- 1"] by auto
  then show ?thesis using assms by (auto simp: log_wf_def)
qed

lemma word_Suc_le:
  fixes s n :: "64 word"
  assumes "n < - 1"
  shows "1 \<le> s \<and> s \<le> n + 1 \<longleftrightarrow> s = n + 1 \<or> 1 \<le> s \<and> s \<le> n"
proof -
  have "n \<noteq> - 1" using assms by simp
  then have "unat (n + 1) = unat n + 1"
    by (metis Suc_eq_plus1 add.commute add_eq_0_iff2 unatSuc)
  moreover have "(1 \<le> s) = (1 \<le> unat s)" by (simp add: word_le_nat_alt)
  ultimately show ?thesis
    unfolding word_le_nat_alt word_unat_eq_iff by auto
qed

lemma log_wf_append:
  assumes "log_wf m n" "n + 1 < - 1"
  shows "log_wf (m(encode_seq_key (n + 1) \<mapsto> Binlog_new (n + 1) typ cmd key)) (n + 1)"
proof -
  have "n < - 1" using assms(1) by (simp add: log_wf_def)
  note ext = word_Suc_le [OF this]
  have "read64 (Binlog_new (n + 1) typ cmd key) = n + 1" by (simp add: Binlog_new_def)
  then show ?thesis
    using assms ext by (auto simp: log_wf_def length_Binlog_new)
qed

lemma log_wf_bound: "log_wf m n \<Longrightarrow> n < - 1"
  by (simp add: log_wf_def)

text \<open>The record numbered \<open>s\<close>.\<close>

definition log_entry :: "store \<Rightarrow> 64 word \<Rightarrow> bytes" where
  "log_entry m s = the (m (encode_seq_key s))"

lemma log_wf_entryI:
  assumes "log_wf m n" "1 \<le> s" "s \<le> n"
  shows "m (encode_seq_key s) = Some (log_entry m s)" "HEADER_LEN \<le> length (log_entry m s)"
    "Binlog_seq (log_entry m s) = Some s"
proof -
  show e: "m (encode_seq_key s) = Some (log_entry m s)"
    using log_wf_present [OF assms(1), of s] assms(2,3) by (auto simp: log_entry_def)
  show "HEADER_LEN \<le> length (log_entry m s)" "Binlog_seq (log_entry m s) = Some s"
    using log_wf_entry [OF assms(1) e] by (auto simp: Binlog_seq_def HEADER_LEN_def)
qed

text \<open>The log keys below a bound are an interval.\<close>

lemma log_wf_last_key:
  assumes "log_wf m n"
  shows "last_in {k \<in> dom m. k < encode_seq_key (- 1)} =
           (if n = 0 then None else Some (encode_seq_key n))"
proof -
  have "m (encode_seq_key s) \<noteq> None \<and> s < - 1 \<longleftrightarrow> 1 \<le> s \<and> s \<le> n" for s
    using log_wf_present [OF assms, of s] log_wf_bound [OF assms] by auto
  moreover have "k \<in> dom m \<and> k < encode_seq_key (- 1) \<longleftrightarrow>
      (\<exists>s. k = encode_seq_key s \<and> m (encode_seq_key s) \<noteq> None \<and> s < - 1)" for k
    using log_wf_key [OF assms, of k] by (cases "m k") (auto simp: seq_key.encode_less domIff)
  ultimately have keys:
    "{k \<in> dom m. k < encode_seq_key (- 1)} = encode_seq_key ` {s. 1 \<le> s \<and> s \<le> n}"
    by (simp add: set_eq_iff image_iff conj_commute)
  have one: "1 \<le> n" if "n \<noteq> 0" using that by (simp add: one_le_word)
  have "s = 0" if "s \<le> 0" for s :: "64 word" using that by simp
  then have "{s :: 64 word. 1 \<le> s \<and> s \<le> 0} = {}" by force
  moreover have "last_in (encode_seq_key ` {s. 1 \<le> s \<and> s \<le> n}) = Some (encode_seq_key n)"
    if "n \<noteq> 0"
    using one [OF that] by (intro last_in_eqI) (auto simp: seq_key.encode_le)
  ultimately show ?thesis by (auto simp: keys)
qed

lemma log_wf_next_key:
  assumes "log_wf m n" "finite (dom m)"
  shows "1 \<le> s \<Longrightarrow> s \<le> n \<Longrightarrow> first_in {k \<in> dom m. encode_seq_key s \<le> k} = Some (encode_seq_key s)"
    and "n < s \<Longrightarrow> first_in {k \<in> dom m. encode_seq_key s \<le> k} = Some k \<Longrightarrow> decode_seq_key k = 0"
proof -
  assume "1 \<le> s" "s \<le> n"
  then show "first_in {k \<in> dom m. encode_seq_key s \<le> k} = Some (encode_seq_key s)"
    using log_wf_entryI(1) [OF assms(1)] assms(2) by (intro first_in_eqI) auto
next
  assume s: "n < s" "first_in {k \<in> dom m. encode_seq_key s \<le> k} = Some k"
  then have k: "k \<in> dom m" "encode_seq_key s \<le> k"
    using first_in_SomeD [OF _ s(2)] assms(2) by auto
  show "decode_seq_key k = 0"
  proof (rule ccontr)
    assume "decode_seq_key k \<noteq> 0"
    then obtain t where t: "k = encode_seq_key t" using decode_seq_key_nonzero by blast
    then have "t \<le> n" using k(1) log_wf_present [OF assms(1), of t] by auto
    then show False using k(2) s(1) t by (simp add: seq_key.encode_le)
  qed
qed

section \<open>The queue over LevelDB\<close>

text \<open>
  What the replication code relies on: the log is a sequence of records numbered from 1, and
  \<open>find_next\<close> returns the record with the given number exactly when there is one.
\<close>

locale seq_log =
  fixes inv :: "'q \<Rightarrow> 64 word \<Rightarrow> bool"
    and entry :: "'q \<Rightarrow> 64 word \<Rightarrow> bytes"
    and find_next :: "'q \<Rightarrow> 64 word \<Rightarrow> bytes \<Rightarrow> int \<times> bytes"
    and find_last :: "'q \<Rightarrow> bytes \<Rightarrow> int \<times> bytes"
  assumes next_found: "inv q n \<Longrightarrow> 1 \<le> s \<Longrightarrow> s \<le> n \<Longrightarrow> find_next q s log = (1, entry q s)"
    and next_none: "inv q n \<Longrightarrow> n < s \<Longrightarrow> find_next q s log = (0, log)"
    and last_found: "inv q n \<Longrightarrow> n \<noteq> 0 \<Longrightarrow> find_last q log = (1, entry q n)"
    and last_none: "inv q 0 \<Longrightarrow> find_last q log = (0, log)"
    and entry_seq: "inv q n \<Longrightarrow> 1 \<le> s \<Longrightarrow> s \<le> n \<Longrightarrow> Binlog_seq (entry q s) = Some s"
begin

text \<open>A reader that follows \<open>find_next\<close> from \<open>s\<close> sees the records in order without a gap.\<close>

lemma next_seq:
  assumes "inv q n" "find_next q s log = (1, log')" "1 \<le> s"
  shows "Binlog_seq log' = Some s \<and> s \<le> n"
  using next_found [OF assms(1,3)] next_none [OF assms(1)] entry_seq [OF assms(1,3)] assms(2)
  by (cases "s \<le> n") auto

lemma inv_unique: "inv q n \<Longrightarrow> inv q k \<Longrightarrow> n \<le> k"
proof (rule ccontr)
  assume i: "inv q n" "inv q k" and "\<not> n \<le> k"
  then have k: "k < n" by simp
  then have "1 \<le> n" by (auto simp: one_le_word)
  then show False using next_found [OF i(1), of n "[]"] next_none [OF i(2) k, of "[]"] by simp
qed

end

definition bq_inv :: "('db \<Rightarrow> store) \<Rightarrow> 'db BinlogQueue \<Rightarrow> 64 word \<Rightarrow> bool" where
  "bq_inv contents q n \<longleftrightarrow> log_wf (contents (bq_db q)) n"

context leveldb_api
begin

lemma load_current_None: "cursor it = None \<Longrightarrow> load_current L it log = (0, log)"
  by (simp add: load_current_def valid_cursor)

lemma load_current_data:
  "cursor it = Some k \<Longrightarrow> decode_seq_key k = 0 \<Longrightarrow> load_current L it log = (0, log)"
  using cursor_key [of it k] by (simp add: load_current_def)

lemma load_current_log:
  assumes "log_wf m n" "snapshot it = m" "cursor it = Some (encode_seq_key s)" "1 \<le> s" "s \<le> n"
  shows "load_current L it log = (1, log_entry m s)"
proof -
  have "s \<noteq> 0" using assms(4) by auto
  moreover have "it_value L it = log_entry m s" "it_key L it = encode_seq_key s"
    using cursor_key [OF assms(3)] assms(2) log_wf_entryI(1) [OF assms(1,4,5)] by auto
  ultimately show ?thesis
    using log_wf_entryI(2) [OF assms(1,4,5)] assms(3)
    by (simp add: load_current_def valid_cursor decode_encode_seq)
qed

lemma find_last_cursor:
  assumes "it1 = it_Seek L (ldb_NewIterator L d) t"
    and "it = (if \<not> it_Valid L it1 then it_SeekToLast L it1 else it_Prev L it1)"
  shows "snapshot it = contents d \<and> cursor it = last_in {k \<in> dom (contents d). k < t}"
proof (cases "cursor it1")
  case None
  have s1: "snapshot it1 = contents d" by (simp add: assms(1) seek new_iterator)
  have "first_in {k \<in> dom (contents d). t \<le> k} = None"
    using None by (simp add: assms(1) seek new_iterator)
  then have "{k \<in> dom (contents d). k < t} = dom (contents d)" by (auto simp: not_le)
  then show ?thesis using None s1 seek_to_last [of it1] by (simp add: assms(2) valid_cursor)
next
  case (Some k)
  have s1: "snapshot it1 = contents d" by (simp add: assms(1) seek new_iterator)
  have "first_in {k \<in> dom (contents d). t \<le> k} = Some k"
    using Some by (simp add: assms(1) seek new_iterator)
  then have "t \<le> k" "\<forall>k' \<in> dom (contents d). t \<le> k' \<longrightarrow> k \<le> k'"
    using first_in_SomeD [of "{k \<in> dom (contents d). t \<le> k}" k] finite_contents [of d] by auto
  then have "{k' \<in> dom (contents d). k' < k} = {k \<in> dom (contents d). k < t}"
    by (intro Collect_cong) (metis less_le_trans linorder_not_less)
  then show ?thesis using Some s1 it_prev [OF Some] by (simp add: assms(2) valid_cursor)
qed

lemma find_last_spec:
  assumes "log_wf (contents (bq_db q)) n"
  shows "bq_find_last L q log = (if n = 0 then (0, log) else (1, log_entry (contents (bq_db q)) n))"
proof -
  define it1 where "it1 = it_Seek L (ldb_NewIterator L (bq_db q)) (encode_seq_key (- 1))"
  define it where "it = (if \<not> it_Valid L it1 then it_SeekToLast L it1 else it_Prev L it1)"
  have f: "bq_find_last L q log = load_current L it log"
    by (simp add: bq_find_last_def it1_def [symmetric] it_def)
  have c: "snapshot it = contents (bq_db q)"
    "cursor it = (if n = 0 then None else Some (encode_seq_key n))"
    using find_last_cursor [OF it1_def it_def] log_wf_last_key [OF assms] by auto
  have "n = 0 \<or> 1 \<le> n" by (simp add: one_le_word)
  then show ?thesis
    using f c load_current_None [of it log] load_current_log [OF assms c(1), of n log] by auto
qed

lemma find_next_spec:
  assumes "log_wf (contents (bq_db q)) n"
  shows "1 \<le> s \<Longrightarrow> s \<le> n \<Longrightarrow> bq_find_next L q s log = (1, log_entry (contents (bq_db q)) s)"
    and "n < s \<Longrightarrow> bq_find_next L q s log = (0, log)"
proof -
  define m where "m = contents (bq_db q)"
  note wf = assms [folded m_def]
  define it where "it = it_Seek L (ldb_NewIterator L (bq_db q)) (encode_seq_key s)"
  have it: "snapshot it = m" "cursor it = first_in {k \<in> dom m. encode_seq_key s \<le> k}"
    by (simp_all add: it_def seek new_iterator m_def)
  obtain st v where g: "ldb_Get L (bq_db q) (encode_seq_key s) = (st, v)" by fastforce
  {
    assume s: "1 \<le> s" "s \<le> n"
    note e = log_wf_entryI [OF wf s]
    have "v = log_entry m s" if "st_ok st"
      using get_ok [OF g that] e(1) by (simp add: m_def)
    then show "bq_find_next L q s log = (1, log_entry (contents (bq_db q)) s)"
      using e load_current_log [OF wf it(1) _ s] it(2) log_wf_next_key(1) [OF wf _ s]
        finite_contents [of "bq_db q"]
      by (simp add: bq_find_next_def bq_get_def g it_def [symmetric] m_def [symmetric])
  next
    assume s: "n < s"
    then have "m (encode_seq_key s) = None" using log_wf_present [OF wf, of s] by auto
    then have "\<not> st_ok st" using get_ok [OF g] by (auto simp: m_def)
    then have "bq_find_next L q s log = load_current L it log"
      by (simp add: bq_find_next_def bq_get_def g it_def)
    moreover have "decode_seq_key k = 0" if "cursor it = Some k" for k
      using log_wf_next_key(2) [OF wf _ s] finite_contents [of "bq_db q"] it(2) that
      by (simp add: m_def)
    ultimately show "bq_find_next L q s log = (0, log)"
      using load_current_None [of it log] load_current_data [of it _ log]
      by (cases "cursor it") simp_all
  }
qed

end

sublocale leveldb_api \<subseteq> log: seq_log "bq_inv contents"
    "\<lambda>q. log_entry (contents (bq_db q))" "bq_find_next L" "bq_find_last L"
  by unfold_locales (auto simp: bq_inv_def find_next_spec find_last_spec log_wf_entryI)

section \<open>Transactions\<close>

text \<open>A committed batch is applied as a whole and its number of records becomes the last one.\<close>

context leveldb_api
begin

lemma commit_ok:
  assumes "bq_commit L q = (st, q')" "st_ok st"
  shows "contents (bq_db q') = apply_batch (bq_batch q) (contents (bq_db q))"
    "bq_last_seq q' = bq_tran_seq q"
  using assms write_ok [of "bq_db q" "bq_batch q"]
  by (auto simp: bq_commit_def Let_def split: prod.splits if_splits)

lemma commit_failed:
  assumes "bq_commit L q = (st, q')" "\<not> st_ok st"
  shows "contents (bq_db q') = contents (bq_db q) \<or>
         contents (bq_db q') = apply_batch (bq_batch q) (contents (bq_db q))"
    "bq_last_seq q' = bq_last_seq q"
  using assms write_atomic [of "bq_db q" "bq_batch q"]
  by (auto simp: bq_commit_def Let_def split: prod.splits if_splits)

lemma queue_recovers:
  assumes "log_wf (contents db) n"
  shows "BinlogQueue_new L db cap = Some
     \<lparr>bq_db = db, bq_capacity = cap, bq_last_seq = n, bq_tran_seq = 0, bq_batch = [], bq_locked = False\<rparr>"
proof (cases "n = 0")
  case False
  then have "Binlog_seq (log_entry (contents db) n) = Some n"
    using log_wf_entryI(3) [OF assms] by (simp add: one_le_word)
  then show ?thesis using False assms by (simp add: BinlogQueue_new_def find_last_spec)
qed (use assms in \<open>simp add: BinlogQueue_new_def find_last_spec\<close>)

end

section \<open>Properties\<close>

text \<open>
  The fields of a log record are read back from its buffer as they were written, whatever
  the sequence number, type, command and key.
\<close>

lemma binlog_roundtrip:
  "Binlog_seq (Binlog_new sq typ cmd key) = Some sq \<and>
   Binlog_type (Binlog_new sq typ cmd key) = Some typ \<and>
   Binlog_cmd (Binlog_new sq typ cmd key) = Some cmd \<and>
   Binlog_key (Binlog_new sq typ cmd key) = Some key \<and>
   Binlog_load buf (Binlog_new sq typ cmd key) = (0, Binlog_new sq typ cmd key)"
  by (simp add: length_Binlog_new)

text \<open>
  Log keys sort in the order of their sequence numbers under the bytewise comparator over
  all 64-bit values, decode to the number they encode, and precede every key that starts with
  a larger byte than the log prefix, so that a scan of the log meets the records in order.
\<close>

lemma seq_keys_ordered:
  "(encode_seq_key s < encode_seq_key t \<longleftrightarrow> s < t) \<and>
   decode_seq_key (encode_seq_key s) = s \<and>
   encode_seq_key s < DT_HSIZE # k \<and> encode_seq_key s < DT_HASH # k \<and> encode_seq_key s < DT_KV # k"
  by (simp add: seq_key.encode_less decode_encode_seq data_key_after_log)

text \<open>
  C7. Recovery: a queue opened on a database whose log holds the records 1 to n continues
  with sequence number n, whatever data keys the database holds and including the empty log.
\<close>

theorem last_seq_recovered:
  assumes "leveldb_api L contents snapshot cursor" "log_wf (contents db) n"
  shows "\<exists>q. BinlogQueue_new L db cap = Some q \<and> bq_last_seq q = n \<and> bq_db q = db \<and> bq_batch q = []"
  using leveldb_api.queue_recovers [OF assms] by simp

definition sample_log :: mem_db where
  "sample_log = [(encode_seq_key 2, Binlog_new 2 BT_SYNC BC_KDEL ''kb''),
                 (encode_seq_key 1, Binlog_new 1 BT_SYNC BC_KSET ''ka''), (''ka'', ''1'')]"

lemma sample_log_wf: "log_wf (mem_contents sample_log) 2"
proof -
  have "encode_seq_key (- 1) < ''ka''" by (simp add: encode_seq_key_eq)
  then have "log_wf (Map.empty(''ka'' \<mapsto> ''1'')) 0" by (rule log_wf_data [OF log_wf_empty])
  from log_wf_append [OF this, of BT_SYNC BC_KSET "''ka''"]
  have "log_wf (mem_contents (tl sample_log)) 1"
    by (simp add: mem_contents_def sample_log_def word_less_nat_alt)
  from log_wf_append [OF this, of BT_SYNC BC_KDEL "''kb''"]
  show ?thesis by (simp add: mem_contents_def sample_log_def word_less_nat_alt)
qed

theorem last_seq_recovered_witness:
  "\<exists>q. BinlogQueue_new mem_ldb sample_log 20 = Some q \<and> bq_last_seq q = 2 \<and>
       bq_db q = sample_log \<and> bq_batch q = []"
  by (rule last_seq_recovered [OF mem.leveldb_api_axioms sample_log_wf])

text \<open>
  C14. Reading the log: on a log of n records, \<open>find_next\<close> at s finds exactly the record
  numbered s when 1 <= s <= n, and reports the end of the log (leaving the caller's record
  alone) when s is past n, also when the point lookup itself fails and the iterator is used.
\<close>

theorem find_next_exact:
  assumes "leveldb_api L contents snapshot cursor" "log_wf (contents (bq_db q)) n" "s \<noteq> 0"
  shows "bq_find_next L q s log =
           (if s \<le> n then (1, log_entry (contents (bq_db q)) s) else (0, log))"
  using leveldb_api.find_next_spec [OF assms(1,2), of s log] assms(3)
  by (simp add: one_le_word)

theorem find_next_exact_witness:
  "bq_find_next mem_ldb
     \<lparr>bq_db = sample_log, bq_capacity = 20, bq_last_seq = 2, bq_tran_seq = 0, bq_batch = [], bq_locked = False\<rparr>
     2 [] = (1, Binlog_new 2 BT_SYNC BC_KDEL ''kb'')"
  by (subst find_next_exact [OF mem.leveldb_api_axioms, where n = 2])
    (simp_all add: sample_log_wf, simp add: log_entry_def mem_contents_def sample_log_def)

end
