(* ===== verification/Store_Iterator.thy ===== *)
theory Store_Iterator
  imports Leveldb Bytes_Buffer Binlog
begin

text \<open>
  Model of src/ssdb/src/ssdb/iterator.h and iterator.cpp: a bounded iterator over a LevelDB
  iterator, with an end key and a limit, and the iterator over key-value entries.  The bounded
  iterator is shown to walk exactly the list of keys between its position and its end.
\<close>

section \<open>Key-value keys\<close>

definition encode_kv_key :: "bytes \<Rightarrow> bytes" where
  "encode_kv_key key = [DT_KV] @ key"

definition decode_kv_key :: "bytes \<Rightarrow> bytes \<Rightarrow> int \<times> bytes" where
  "decode_kv_key sl key =
     (let (r, d) = dec_skip 1 sl
      in if r = - 1 then (- 1, key)
         else let (r, data, d) = dec_read_data d in if r = - 1 then (- 1, data) else (0, data))"

section \<open>Iterator\<close>

datatype Direction = FORWARD | BACKWARD

record 'it Iterator =
  si_it :: 'it
  si_end :: bytes
  si_limit :: "64 word"
  si_is_first :: bool
  si_direction :: Direction

definition Iterator_new :: "'it \<Rightarrow> bytes \<Rightarrow> 64 word \<Rightarrow> Direction \<Rightarrow> 'it Iterator" where
  "Iterator_new it end_key limit direction =
     \<lparr>si_it = it, si_end = end_key, si_limit = limit, si_is_first = True, si_direction = direction\<rparr>"

definition Iterator_key :: "('db, 'it) leveldb \<Rightarrow> 'it Iterator \<Rightarrow> bytes" where
  "Iterator_key L i = it_key L (si_it i)"

definition Iterator_val :: "('db, 'it) leveldb \<Rightarrow> 'it Iterator \<Rightarrow> bytes" where
  "Iterator_val L i = it_value L (si_it i)"

definition Iterator_next :: "('db, 'it) leveldb \<Rightarrow> 'it Iterator \<Rightarrow> bool \<times> 'it Iterator" where
  "Iterator_next L i =
     (if si_limit i = 0 then (False, i)
      else let i = (if si_is_first i then i\<lparr>si_is_first := False\<rparr>
                    else if si_direction i = FORWARD then i\<lparr>si_it := it_Next L (si_it i)\<rparr>
                    else i\<lparr>si_it := it_Prev L (si_it i)\<rparr>)
           in if \<not> it_Valid L (si_it i) then (False, i\<lparr>si_limit := 0\<rparr>)
              else if si_direction i = FORWARD \<and> si_end i \<noteq> [] \<and> si_end i < it_key L (si_it i)
              then (False, i\<lparr>si_limit := 0\<rparr>)
              else if si_direction i = BACKWARD \<and> si_end i \<noteq> [] \<and> it_key L (si_it i) < si_end i
              then (False, i\<lparr>si_limit := 0\<rparr>)
              else (True, i\<lparr>si_limit := si_limit i - 1\<rparr>))"

text \<open>\<open>skip\<close> calls \<open>next\<close> while the offset, decremented from its 64-bit value, is positive.\<close>

fun Iterator_skip_loop :: "('db, 'it) leveldb \<Rightarrow> nat \<Rightarrow> 'it Iterator \<Rightarrow> bool \<times> 'it Iterator" where
  "Iterator_skip_loop L 0 i = (True, i)"
| "Iterator_skip_loop L (Suc n) i =
     (let (r, i) = Iterator_next L i in if r = False then (False, i) else Iterator_skip_loop L n i)"

definition Iterator_skip :: "('db, 'it) leveldb \<Rightarrow> 64 word \<Rightarrow> 'it Iterator \<Rightarrow> bool \<times> 'it Iterator" where
  "Iterator_skip L offset i = Iterator_skip_loop L (unat offset) i"

section \<open>KIterator\<close>

record 'it KIterator =
  ki_it :: "'it Iterator"
  ki_return_val :: bool
  ki_key :: bytes
  ki_val :: bytes

definition KIterator_new :: "'it Iterator \<Rightarrow> 'it KIterator" where
  "KIterator_new it = \<lparr>ki_it = it, ki_return_val = True, ki_key = [], ki_val = []\<rparr>"

definition KIterator_return_val :: "bool \<Rightarrow> 'it KIterator \<Rightarrow> 'it KIterator" where
  "KIterator_return_val onoff ki = ki\<lparr>ki_return_val := onoff\<rparr>"

lemma Iterator_next_limit:
  "Iterator_next L i = (True, i') \<Longrightarrow> unat (si_limit i') < unat (si_limit i)"
  by (auto simp: Iterator_next_def Let_def intro: measure_unat split: if_splits)

text \<open>
  The loop ends because every successful \<open>next\<close> lowers the limit.  Reading the first byte of
  an empty key is undefined.
\<close>

function KIterator_next :: "('db, 'it) leveldb \<Rightarrow> 'it KIterator \<Rightarrow> (bool \<times> 'it KIterator) option" where
  "KIterator_next L ki =
     (case Iterator_next L (ki_it ki) of
        (False, i) \<Rightarrow> Some (False, ki\<lparr>ki_it := i\<rparr>)
      | (True, i) \<Rightarrow>
          (let ki = ki\<lparr>ki_it := i\<rparr>; ks = Iterator_key L i; vs = Iterator_val L i
           in if ks = [] then None
              else if ks ! 0 \<noteq> DT_KV then Some (False, ki)
              else let (r, key) = decode_kv_key ks (ki_key ki); ki = ki\<lparr>ki_key := key\<rparr>
                   in if r = - 1 then KIterator_next L ki
                      else if ki_return_val ki then Some (True, ki\<lparr>ki_val := vs\<rparr>)
                      else Some (True, ki)))"
  by pat_completeness auto
termination
  by (relation "measure (\<lambda>(L, ki). unat (si_limit (ki_it ki)))") (auto dest: Iterator_next_limit [OF sym])

declare KIterator_next.simps [simp del]

text \<open>What the loop \<open>while(it->next())\<close> of the callers sees in at most \<open>n\<close> turns: keys and values.\<close>

fun entries_visited :: "('db, 'it) leveldb \<Rightarrow> nat \<Rightarrow> 'it Iterator \<Rightarrow> (bytes \<times> bytes) list" where
  "entries_visited L 0 i = []"
| "entries_visited L (Suc n) i =
     (let (r, i) = Iterator_next L i
      in if r = False then [] else (Iterator_key L i, Iterator_val L i) # entries_visited L n i)"

section \<open>The keys still to be visited\<close>

text \<open>
  The abstract view of a forward iterator: the keys it has still to return, in order.  The key
  under the cursor counts only before the first call.
\<close>

definition ahead :: "store \<Rightarrow> bytes option \<Rightarrow> bool \<Rightarrow> bytes set" where
  "ahead m c first = {k \<in> dom m. case c of None \<Rightarrow> False | Some c \<Rightarrow> if first then c \<le> k else c < k}"

definition it_todo :: "('it \<Rightarrow> store) \<Rightarrow> ('it \<Rightarrow> bytes option) \<Rightarrow> 'it Iterator \<Rightarrow> bytes list" where
  "it_todo snapshot cursor i =
     take (unat (si_limit i))
       (sorted_list_of_set
          {k \<in> ahead (snapshot (si_it i)) (cursor (si_it i)) (si_is_first i). si_end i = [] \<or> k \<le> si_end i})"

text \<open>An iterator between calls: forward, and on an entry unless it is new or exhausted.\<close>

definition it_ok :: "('it \<Rightarrow> bytes option) \<Rightarrow> 'it Iterator \<Rightarrow> bool" where
  "it_ok cursor i \<longleftrightarrow> si_direction i = FORWARD \<and>
     (\<not> si_is_first i \<and> si_limit i \<noteq> 0 \<longrightarrow> cursor (si_it i) \<noteq> None)"

lemma sorted_list_first:
  assumes "finite S" "first_in S = Some c"
  shows "sorted_list_of_set S = c # sorted_list_of_set {k \<in> S. c < k}"
proof -
  have c: "c \<in> S" "\<forall>k \<in> S. c \<le> k" using first_in_SomeD [OF assms] by auto
  then have "Min S = c" using assms(1) by (auto intro: Min_eqI)
  moreover have "S - {c} = {k \<in> S. c < k}" using c(2) by auto
  ultimately show ?thesis
    using sorted_list_of_set_nonempty [of S] assms(1) c(1) by auto
qed

lemma first_in_filter:
  assumes "finite S" "first_in S = Some c"
  shows "first_in {k \<in> S. e = [] \<or> k \<le> e} = (if e \<noteq> [] \<and> e < c then None else Some c)"
proof -
  have c: "c \<in> S" "\<forall>k \<in> S. c \<le> k" using first_in_SomeD [OF assms] by auto
  show ?thesis
  proof (cases "e \<noteq> [] \<and> e < c")
    case True
    then show ?thesis using c(2) by (auto simp: not_le intro: less_le_trans)
  next
    case False
    then show ?thesis using c assms(1) by (auto simp: not_less intro!: first_in_eqI)
  qed
qed

context leveldb_api
begin

lemma finite_ahead [simp]: "finite (ahead (snapshot it) c b)"
  by (simp add: ahead_def finite_snapshot)

lemma ahead_first: "first_in (ahead (snapshot it) (cursor it) True) = cursor it"
proof (cases "cursor it")
  case (Some c)
  then have "c \<in> dom (snapshot it)" using cursor_key [OF Some] by auto
  then show ?thesis
    using finite_snapshot [of it] by (auto simp: Some ahead_def intro!: first_in_eqI)
qed (simp add: ahead_def)

text \<open>Moving the LevelDB iterator as \<open>next\<close> does puts the cursor on the first key ahead.\<close>

lemma step_cursor:
  assumes "si_is_first i \<or> cursor (si_it i) \<noteq> None"
    and "it' = (if si_is_first i then si_it i else it_Next L (si_it i))"
  shows "snapshot it' = snapshot (si_it i) \<and>
         cursor it' = first_in (ahead (snapshot (si_it i)) (cursor (si_it i)) (si_is_first i))"
proof (cases "si_is_first i")
  case True
  then show ?thesis using ahead_first [of "si_it i"] by (simp add: assms(2))
next
  case False
  then obtain c where "cursor (si_it i) = Some c" using assms(1) by auto
  then show ?thesis using it_next [of "si_it i" c] False by (simp add: assms(2) ahead_def)
qed

lemma ahead_rest:
  "first_in (ahead m c b) = Some k \<Longrightarrow> finite (ahead m c b) \<Longrightarrow>
   {k' \<in> ahead m c b. k < k'} = ahead m (Some k) False"
  using first_in_SomeD [of "ahead m c b" k]
  by (auto simp: ahead_def split: option.splits if_splits intro: less_trans le_less_trans)

lemma next_unfold:
  assumes "si_direction i = FORWARD" "si_limit i \<noteq> 0"
    and "it' = (if si_is_first i then si_it i else it_Next L (si_it i))"
  shows "Iterator_next L i =
     (case cursor it' of
        None \<Rightarrow> (False, i\<lparr>si_it := it', si_limit := 0, si_is_first := False\<rparr>)
      | Some k \<Rightarrow> if si_end i \<noteq> [] \<and> si_end i < k
                  then (False, i\<lparr>si_it := it', si_limit := 0, si_is_first := False\<rparr>)
                  else (True, i\<lparr>si_it := it', si_limit := si_limit i - 1, si_is_first := False\<rparr>))"
  using assms cursor_key [of it']
  by (cases i) (auto simp: Iterator_next_def Let_def valid_cursor split: option.splits)

lemma next_refines:
  assumes "it_ok cursor i"
  shows "(it_todo snapshot cursor i = [] \<and>
          (\<exists>i'. Iterator_next L i = (False, i') \<and> it_ok cursor i' \<and>
             it_todo snapshot cursor i' = [] \<and> snapshot (si_it i') = snapshot (si_it i))) \<or>
         (\<exists>k ks i'. it_todo snapshot cursor i = k # ks \<and> Iterator_next L i = (True, i') \<and>
             it_ok cursor i' \<and> it_todo snapshot cursor i' = ks \<and>
             cursor (si_it i') = Some k \<and> snapshot (si_it i') = snapshot (si_it i))"
proof (cases "si_limit i = 0")
  case True
  then show ?thesis using assms by (auto simp: Iterator_next_def it_todo_def)
next
  case False
  define it' where "it' = (if si_is_first i then si_it i else it_Next L (si_it i))"
  define S where "S = ahead (snapshot (si_it i)) (cursor (si_it i)) (si_is_first i)"
  have fwd: "si_direction i = FORWARD" and here: "si_is_first i \<or> cursor (si_it i) \<noteq> None"
    using assms False by (auto simp: it_ok_def)
  note nxt = next_unfold [OF fwd False it'_def]
  have snap: "snapshot it' = snapshot (si_it i)" and cur: "cursor it' = first_in S"
    using step_cursor [OF here it'_def] by (auto simp: S_def)
  have fin: "finite S" by (simp add: S_def)
  have todo: "it_todo snapshot cursor i =
      take (unat (si_limit i)) (sorted_list_of_set {k \<in> S. si_end i = [] \<or> k \<le> si_end i})"
    by (simp add: it_todo_def S_def)
  show ?thesis
  proof (cases "cursor it'")
    case None
    then have "S = {}" using cur by simp
    then show ?thesis
      using None fwd snap by (auto simp: nxt todo it_ok_def) (simp add: it_todo_def)
  next
    case (Some k)
    define S' where "S' = {k \<in> S. si_end i = [] \<or> k \<le> si_end i}"
    note todo' = todo [folded S'_def]
    have first: "first_in S' = (if si_end i \<noteq> [] \<and> si_end i < k then None else Some k)"
      using first_in_filter [OF fin, of k "si_end i"] cur Some by (simp add: S'_def)
    show ?thesis
    proof (cases "si_end i \<noteq> [] \<and> si_end i < k")
      case True
      then have "S' = {}" using first by simp
      then show ?thesis
        using True Some fwd snap
        by (auto simp: nxt todo' it_ok_def) (simp_all add: it_todo_def)
    next
      case False
      note more = False
      have "{k' \<in> S'. k < k'} = {k' \<in> ahead (snapshot it') (Some k) False. si_end i = [] \<or> k' \<le> si_end i}"
        using ahead_rest [of "snapshot (si_it i)" "cursor (si_it i)" "si_is_first i" k] cur Some fin
        by (auto simp: S'_def S_def snap)
      then have l: "sorted_list_of_set S' = k # sorted_list_of_set
          {k' \<in> ahead (snapshot it') (Some k) False. si_end i = [] \<or> k' \<le> si_end i}"
        using sorted_list_first [of S' k] first more fin by (simp add: S'_def)
      have "unat (si_limit i) = Suc (unat (si_limit i - 1))"
        using \<open>si_limit i \<noteq> 0\<close> by (simp add: unat_minus_one unat_gt_0)
      then show ?thesis
        using more Some fwd snap l
        by (auto simp: nxt todo' it_ok_def) (simp_all add: it_todo_def)
    qed
  qed
qed

end

text \<open>What a client of an iterator sees: a list of entries consumed from the front.\<close>

locale list_iterator =
  fixes ok :: "'i \<Rightarrow> bool"
    and todo :: "'i \<Rightarrow> bytes list"
    and nxt :: "'i \<Rightarrow> bool \<times> 'i"
    and at :: "'i \<Rightarrow> bytes"
  assumes next_nil: "ok i \<Longrightarrow> todo i = [] \<Longrightarrow> \<exists>i'. nxt i = (False, i') \<and> ok i' \<and> todo i' = []"
    and next_cons: "ok i \<Longrightarrow> todo i = k # ks \<Longrightarrow>
          \<exists>i'. nxt i = (True, i') \<and> ok i' \<and> todo i' = ks \<and> at i' = k"
begin

lemma next_step:
  assumes "ok i" "nxt i = (r, i')"
  shows "ok i'" "todo i' = tl (todo i)" "r \<longleftrightarrow> todo i \<noteq> []" "r \<Longrightarrow> at i' = hd (todo i)"
  using next_nil [OF assms(1)] next_cons [OF assms(1)] assms(2)
  by (cases "todo i"; force)+

end

sublocale leveldb_api \<subseteq> walk: list_iterator "it_ok cursor" "it_todo snapshot cursor"
    "Iterator_next L" "Iterator_key L"
proof (unfold_locales, goal_cases)
  case (1 i)
  then show ?case using next_refines [of i] by auto
next
  case (2 i k ks)
  then show ?case using next_refines [of i] cursor_key by (fastforce simp: Iterator_key_def)
qed

context leveldb_api
begin

lemmas next_step = walk.next_step

lemma next_value:
  assumes "it_ok cursor i" "Iterator_next L i = (True, i')"
  shows "snapshot (si_it i') (Iterator_key L i') = Some (Iterator_val L i')"
  using next_refines [OF assms(1)] assms(2) cursor_key
  by (auto simp: Iterator_key_def Iterator_val_def)

lemma next_snapshot:
  "it_ok cursor i \<Longrightarrow> Iterator_next L i = (r, i') \<Longrightarrow> snapshot (si_it i') = snapshot (si_it i)"
  using next_refines [of i] by auto

text \<open>Calling \<open>next\<close> again and again visits exactly the keys ahead, with the values of the snapshot.\<close>

lemma entries_visited_eq:
  "it_ok cursor i \<Longrightarrow> entries_visited L n i =
     map (\<lambda>k. (k, the (snapshot (si_it i) k))) (take n (it_todo snapshot cursor i))"
proof (induction n arbitrary: i)
  case (Suc n)
  obtain r j where j: "Iterator_next L i = (r, j)" by fastforce
  note st = walk.next_step [OF Suc.prems j]
  show ?case
  proof (cases "it_todo snapshot cursor i")
    case (Cons k ks)
    then have "r" using st(3) by simp
    then have "snapshot (si_it i) k = Some (Iterator_val L j)" "Iterator_key L j = k"
      using next_value [OF Suc.prems] next_snapshot [OF Suc.prems j] st(4) j Cons by auto
    then show ?thesis
      using Suc.IH [OF st(1)] st(2) j Cons \<open>r\<close> next_snapshot [OF Suc.prems j] by simp
  qed (use st(3) j in simp)
qed simp

lemma skip_spec:
  "it_ok cursor i \<Longrightarrow> \<exists>i'. Iterator_skip_loop L n i = (n \<le> length (it_todo snapshot cursor i), i') \<and>
     it_ok cursor i' \<and> it_todo snapshot cursor i' = drop n (it_todo snapshot cursor i)"
proof (induction n arbitrary: i)
  case (Suc n)
  obtain r j where j: "Iterator_next L i = (r, j)" by fastforce
  note st = walk.next_step [OF Suc.prems j]
  show ?case
    using Suc.IH [OF st(1)] st(1-3) j by (cases "it_todo snapshot cursor i") auto
qed simp

end

section \<open>Properties\<close>

text \<open>
  A forward iterator walks exactly the keys ahead of it up to its end key and its limit:
  each \<open>next\<close> succeeds exactly when such a key remains, stands then on the smallest one with
  the value stored under it, and leaves the rest to be visited; after a failure it keeps
  failing.
\<close>

theorem iterator_walks_range:
  assumes "leveldb_api L contents snapshot cursor" "it_ok cursor i" "Iterator_next L i = (r, i')"
  shows "(r \<longleftrightarrow> it_todo snapshot cursor i \<noteq> []) \<and>
         it_todo snapshot cursor i' = tl (it_todo snapshot cursor i) \<and> it_ok cursor i' \<and>
         (r \<longrightarrow> Iterator_key L i' = hd (it_todo snapshot cursor i) \<and>
               snapshot (si_it i) (Iterator_key L i') = Some (Iterator_val L i'))"
  using leveldb_api.next_value [OF assms(1,2)] leveldb_api.next_snapshot [OF assms]
    leveldb_api.next_step [OF assms] assms(3) by auto

end
