(* ===== verification/Ssdb_Impl.thy ===== *)
theory Ssdb_Impl
  imports Store_Iterator Config_Load
begin

text \<open>
  Model of src/ssdb/src/ssdb/ssdb\_impl.h and ssdb\_impl.cpp: the database operations over
  LevelDB and the binlog queue.  \<open>ldb\<close> and the handle of the queue are the same object, held
  in the queue; opening it (\<open>DB::Open\<close>) is a parameter.  Strings passed as out-parameters are
  passed in and returned.
\<close>

section \<open>Key encodings\<close>

definition encode_hsize_key :: "bytes \<Rightarrow> bytes" where
  "encode_hsize_key name = [DT_HSIZE] @ name"

definition decode_hsize_key :: "bytes \<Rightarrow> bytes \<Rightarrow> int \<times> bytes" where
  "decode_hsize_key sl name =
     (let (r, d) = dec_skip 1 sl
      in if r = - 1 then (- 1, name)
         else let (r, data, d) = dec_read_data d in if r = - 1 then (- 1, data) else (0, data))"

definition encode_hash_key :: "bytes \<Rightarrow> bytes \<Rightarrow> bytes" where
  "encode_hash_key name key =
     [DT_HASH] @ [char_of (length name mod 256)] @ name @ ''='' @ key"

definition decode_hash_key :: "bytes \<Rightarrow> (bytes \<times> bytes) option" where
  "decode_hash_key sl =
     (let (r, d) = dec_skip 1 sl
      in if r = - 1 then None
         else let (r, name, d) = dec_read_8_data d
              in if r = - 1 then None
                 else let (r, d) = dec_skip 1 d
                      in if r = - 1 then None
                         else let (r, key, d) = dec_read_data d
                              in if r = - 1 then None else Some (the name, key))"

section \<open>State and opening\<close>

record leveldb_options =
  opt_create_if_missing :: bool
  opt_block_size :: "64 word"
  opt_write_buffer_size :: "64 word"
  opt_snappy :: bool

record 'db SSDBImpl =
  ss_options :: leveldb_options
  ss_binlogs :: "'db BinlogQueue"

abbreviation ss_ldb :: "'db SSDBImpl \<Rightarrow> 'db" where
  "ss_ldb s \<equiv> bq_db (ss_binlogs s)"

text \<open>
  \<open>x * 1024 * 1024\<close> in \<open>int\<close>, then converted to \<open>size_t\<close>; the products are undefined when
  they overflow.  The compression default is that of LevelDB's \<open>Options\<close>, a parameter.
\<close>

definition mebibytes :: "int \<Rightarrow> 64 word option" where
  "mebibytes x = do { a \<leftarrow> ck32 (x * 1024); b \<leftarrow> ck32 (a * 1024); Some (word_of_int b) }"

definition open_options :: "bool \<Rightarrow> Config \<Rightarrow> leveldb_options option" where
  "open_options default_snappy cf = do {
     bs \<leftarrow> mebibytes (block_size cf);
     wb \<leftarrow> mebibytes (write_buffer_size cf);
     Some \<lparr>opt_create_if_missing = True, opt_block_size = bs, opt_write_buffer_size = wb,
           opt_snappy = (if compression cf = ''yes'' then True else default_snappy)\<rparr> }"

text \<open>
  \<open>SSDB::open\<close>: the outer option is undefined behaviour, the inner one the null pointer
  returned when the database cannot be opened.
\<close>

definition SSDB_open ::
  "('db, 'it) leveldb \<Rightarrow> (leveldb_options \<Rightarrow> bytes \<Rightarrow> leveldb_status \<times> 'db) \<Rightarrow> bool \<Rightarrow>
   Config \<Rightarrow> bytes \<Rightarrow> 'db SSDBImpl option option" where
  "SSDB_open L DB_Open default_snappy cf dir = do {
     opts \<leftarrow> open_options default_snappy cf;
     (case DB_Open opts dir of
        (status, ldb) \<Rightarrow>
          if \<not> st_ok status then Some None
          else do { q \<leftarrow> BinlogQueue_new L ldb 20000000;
                    Some (Some \<lparr>ss_options = opts, ss_binlogs = q\<rparr>) }) }"

section \<open>Key-value operations\<close>

definition ssdb_set ::
  "('db, 'it) leveldb \<Rightarrow> bytes \<Rightarrow> bytes \<Rightarrow> 'db SSDBImpl \<Rightarrow> int \<times> 'db SSDBImpl" where
  "ssdb_set L key val s =
     (if key = [] then (0, s)
      else let q = Transaction_enter (ss_binlogs s);
               buf = encode_kv_key key;
               q = bq_Put buf val q;
               q = bq_add_log BT_SYNC BC_KSET buf q;
               (st, q) = bq_commit L q;
               s = s\<lparr>ss_binlogs := Transaction_leave q\<rparr>
           in if \<not> st_ok st then (- 1, s) else (1, s))"

definition ssdb_del :: "('db, 'it) leveldb \<Rightarrow> bytes \<Rightarrow> 'db SSDBImpl \<Rightarrow> int \<times> 'db SSDBImpl" where
  "ssdb_del L key s =
     (let q = Transaction_enter (ss_binlogs s);
          buf = encode_kv_key key;
          q = bq_Delete buf q;
          q = bq_add_log BT_SYNC BC_KDEL buf q;
          (st, q) = bq_commit L q;
          s = s\<lparr>ss_binlogs := Transaction_leave q\<rparr>
      in if \<not> st_ok st then (- 1, s) else (1, s))"

text \<open>LevelDB assigns the out-parameter only when the key is found.\<close>

definition db_lookup :: "('db, 'it) leveldb \<Rightarrow> 'db \<Rightarrow> bytes \<Rightarrow> bytes \<Rightarrow> int \<times> bytes" where
  "db_lookup L ldb buf val =
     (let (st, v) = ldb_Get L ldb buf
      in if st_IsNotFound st then (0, val) else if \<not> st_ok st then (- 1, val) else (1, v))"

definition ssdb_get :: "('db, 'it) leveldb \<Rightarrow> bytes \<Rightarrow> bytes \<Rightarrow> 'db SSDBImpl \<Rightarrow> int \<times> bytes" where
  "ssdb_get L key val s = db_lookup L (ss_ldb s) (encode_kv_key key) val"

section \<open>Hash operations\<close>

definition ssdb_hget ::
  "('db, 'it) leveldb \<Rightarrow> bytes \<Rightarrow> bytes \<Rightarrow> bytes \<Rightarrow> 'db SSDBImpl \<Rightarrow> int \<times> bytes" where
  "ssdb_hget L name key val s = db_lookup L (ss_ldb s) (encode_hash_key name key) val"

definition ssdb_hsize :: "('db, 'it) leveldb \<Rightarrow> bytes \<Rightarrow> 'db SSDBImpl \<Rightarrow> int" where
  "ssdb_hsize L name s =
     (let (st, val) = ldb_Get L (ss_ldb s) (encode_hsize_key name)
      in if st_IsNotFound st then 0 else if \<not> st_ok st then - 1
         else if length val \<noteq> 8 then 0
         else let ret = sint (read64 val) in if ret < 0 then 0 else ret)"

text \<open>\<open>size += incr\<close> is undefined when it overflows \<open>int64_t\<close>.\<close>

definition incr_hsize ::
  "('db, 'it) leveldb \<Rightarrow> bytes \<Rightarrow> int \<Rightarrow> 'db SSDBImpl \<Rightarrow> (int \<times> 'db SSDBImpl) option" where
  "incr_hsize L name incr s =
     (let sz = ssdb_hsize L name s + incr
      in if \<not> fits64 sz then None
         else let size_key = encode_hsize_key name; q = ss_binlogs s
              in if sz = 0 then Some (0, s\<lparr>ss_binlogs := bq_Delete size_key q\<rparr>)
                 else Some (0, s\<lparr>ss_binlogs := bq_Put size_key (mem64 (word_of_int sz)) q\<rparr>))"

definition hset_one ::
  "('db, 'it) leveldb \<Rightarrow> bytes \<Rightarrow> bytes \<Rightarrow> bytes \<Rightarrow> char \<Rightarrow> 'db SSDBImpl \<Rightarrow> int \<times> 'db SSDBImpl" where
  "hset_one L name key val log_type s =
     (if name = [] \<or> key = [] then (- 1, s)
      else if length name > SSDB_KEY_LEN_MAX then (- 1, s)
      else if length key > SSDB_KEY_LEN_MAX then (- 1, s)
      else let (found, dbval) = ssdb_hget L name key [] s;
               hkey = encode_hash_key name key;
               put = s\<lparr>ss_binlogs := bq_add_log log_type BC_HSET hkey (bq_Put hkey val (ss_binlogs s))\<rparr>
           in if found = 0 then (1, put) else if dbval \<noteq> val then (0, put) else (0, s))"

definition hdel_one ::
  "('db, 'it) leveldb \<Rightarrow> bytes \<Rightarrow> bytes \<Rightarrow> char \<Rightarrow> 'db SSDBImpl \<Rightarrow> int \<times> 'db SSDBImpl" where
  "hdel_one L name key log_type s =
     (if length name > SSDB_KEY_LEN_MAX then (- 1, s)
      else if length key > SSDB_KEY_LEN_MAX then (- 1, s)
      else let (found, dbval) = ssdb_hget L name key [] s;
               hkey = encode_hash_key name key
           in if found = 0 then (0, s)
              else (1, s\<lparr>ss_binlogs := bq_add_log log_type BC_HDEL hkey (bq_Delete hkey (ss_binlogs s))\<rparr>))"

definition leave :: "'db SSDBImpl \<Rightarrow> 'db SSDBImpl" where
  "leave s = s\<lparr>ss_binlogs := Transaction_leave (ss_binlogs s)\<rparr>"

definition ssdb_hset ::
  "('db, 'it) leveldb \<Rightarrow> bytes \<Rightarrow> bytes \<Rightarrow> bytes \<Rightarrow> char \<Rightarrow> 'db SSDBImpl \<Rightarrow> (int \<times> 'db SSDBImpl) option" where
  "ssdb_hset L name key val log_type s =
     (let s = s\<lparr>ss_binlogs := Transaction_enter (ss_binlogs s)\<rparr>;
          (ret, s) = hset_one L name key val log_type s
      in if ret \<ge> 0 then do {
           (r, s) \<leftarrow> (if ret > 0 then incr_hsize L name ret s else Some (0, s));
           if r = - 1 then Some (- 1, leave s)
           else let (st, q) = bq_commit L (ss_binlogs s); s = leave (s\<lparr>ss_binlogs := q\<rparr>)
                in if \<not> st_ok st then Some (- 1, s) else Some (ret, s) }
         else Some (ret, leave s))"

section \<open>Raw operations and scans\<close>

definition ssdb_raw_set ::
  "('db, 'it) leveldb \<Rightarrow> bytes \<Rightarrow> bytes \<Rightarrow> 'db SSDBImpl \<Rightarrow> int \<times> 'db SSDBImpl" where
  "ssdb_raw_set L key val s =
     (let (st, db) = ldb_Put L (ss_ldb s) key val; s = s\<lparr>ss_binlogs := (ss_binlogs s)\<lparr>bq_db := db\<rparr>\<rparr>
      in if \<not> st_ok st then (- 1, s) else (1, s))"

definition ssdb_raw_del :: "('db, 'it) leveldb \<Rightarrow> bytes \<Rightarrow> 'db SSDBImpl \<Rightarrow> int \<times> 'db SSDBImpl" where
  "ssdb_raw_del L key s =
     (let (st, db) = ldb_Delete L (ss_ldb s) key; s = s\<lparr>ss_binlogs := (ss_binlogs s)\<lparr>bq_db := db\<rparr>\<rparr>
      in if \<not> st_ok st then (- 1, s) else (1, s))"

definition ssdb_raw_get :: "('db, 'it) leveldb \<Rightarrow> bytes \<Rightarrow> bytes \<Rightarrow> 'db SSDBImpl \<Rightarrow> int \<times> bytes" where
  "ssdb_raw_get L key val s = db_lookup L (ss_ldb s) key val"

definition ssdb_iterator ::
  "('db, 'it) leveldb \<Rightarrow> bytes \<Rightarrow> bytes \<Rightarrow> 64 word \<Rightarrow> 'db SSDBImpl \<Rightarrow> 'it Iterator" where
  "ssdb_iterator L start end_key limit s =
     (let it = it_Seek L (ldb_NewIterator L (ss_ldb s)) start;
          it = (if it_Valid L it \<and> it_key L it = start then it_Next L it else it)
      in Iterator_new it end_key limit FORWARD)"

section \<open>Key encodings: lemmas\<close>

lemma decode_encode_kv: "decode_kv_key (encode_kv_key key) k = (0, key)"
  by (simp add: encode_kv_key_def decode_kv_key_def dec_skip_def dec_read_data_def)

lemma decode_encode_hsize: "decode_hsize_key (encode_hsize_key name) k = (0, name)"
  by (simp add: encode_hsize_key_def decode_hsize_key_def dec_skip_def dec_read_data_def)

lemma decode_encode_hash:
  "length name \<le> SSDB_KEY_LEN_MAX \<Longrightarrow> decode_hash_key (encode_hash_key name key) = Some (name, key)"
  by (simp add: encode_hash_key_def decode_hash_key_def dec_skip_def dec_read_data_def
      dec_read_8_data_def SSDB_KEY_LEN_MAX_def Let_def)

interpretation kv_key: codec encode_kv_key
    "\<lambda>k. case decode_kv_key k [] of (r, key) \<Rightarrow> if r = - 1 then None else Some key" "\<lambda>_. True"
  by unfold_locales (simp add: decode_encode_kv)

interpretation hash_key: codec "\<lambda>(name, key). encode_hash_key name key" decode_hash_key
    "\<lambda>(name, key). length name \<le> SSDB_KEY_LEN_MAX"
  by unfold_locales (auto simp: decode_encode_hash)

text \<open>The four kinds of keys never coincide, and all data keys sort after the log.\<close>

lemma key_kinds [simp]:
  "encode_kv_key k \<noteq> encode_hsize_key n" "encode_hsize_key n \<noteq> encode_kv_key k"
  "encode_kv_key k \<noteq> encode_hash_key n j" "encode_hash_key n j \<noteq> encode_kv_key k"
  "encode_hsize_key n \<noteq> encode_hash_key m j" "encode_hash_key m j \<noteq> encode_hsize_key n"
  "encode_kv_key k \<noteq> encode_seq_key q" "encode_seq_key q \<noteq> encode_kv_key k"
  "encode_hash_key n j \<noteq> encode_seq_key q" "encode_seq_key q \<noteq> encode_hash_key n j"
  "encode_hsize_key n \<noteq> encode_seq_key q" "encode_seq_key q \<noteq> encode_hsize_key n"
  by (simp_all add: encode_kv_key_def encode_hsize_key_def encode_hash_key_def encode_seq_key_def)

lemma kv_key_inject [simp]: "encode_kv_key k = encode_kv_key k' \<longleftrightarrow> k = k'"
  by (simp add: encode_kv_key_def)

lemma hsize_key_inject [simp]: "encode_hsize_key k = encode_hsize_key k' \<longleftrightarrow> k = k'"
  by (simp add: encode_hsize_key_def)

lemma hash_key_inject [simp]:
  "length n \<le> SSDB_KEY_LEN_MAX \<Longrightarrow> length n' \<le> SSDB_KEY_LEN_MAX \<Longrightarrow>
   encode_hash_key n k = encode_hash_key n' k' \<longleftrightarrow> n = n' \<and> k = k'"
  using hash_key.encode_eq_iff [of "(n, k)" "(n', k')"] by auto

lemma data_keys_after_log [simp]:
  "encode_seq_key q < encode_kv_key k" "encode_seq_key q < encode_hsize_key n"
  "encode_seq_key q < encode_hash_key n k"
  by (simp_all add: encode_kv_key_def encode_hsize_key_def encode_hash_key_def encode_seq_key_eq)

section \<open>Abstract views of the store\<close>

text \<open>The key-value map and the hashes that a database contents represents.\<close>

definition kv_view :: "store \<Rightarrow> store" where
  "kv_view m = (\<lambda>k. m (encode_kv_key k))"

definition hash_view :: "store \<Rightarrow> bytes \<Rightarrow> store" where
  "hash_view m name = (\<lambda>k. m (encode_hash_key name k))"

definition hsize_rep :: "store \<Rightarrow> bytes \<Rightarrow> int" where
  "hsize_rep m name =
     (case m (encode_hsize_key name) of
        None \<Rightarrow> 0
      | Some v \<Rightarrow> if length v \<noteq> 8 then 0 else max 0 (sint (read64 v)))"

text \<open>
  The invariant of a database: its log is well formed up to \<open>last_seq\<close>, \<open>b\<close> more records
  can be numbered, and every size key counts the fields of its hash.
\<close>

definition hash_wf :: "store \<Rightarrow> bool" where
  "hash_wf m \<longleftrightarrow> (\<forall>name. length name \<le> SSDB_KEY_LEN_MAX \<longrightarrow>
     hsize_rep m name = int (card (dom (hash_view m name))))"

definition ssdb_inv :: "('db \<Rightarrow> store) \<Rightarrow> nat \<Rightarrow> 'db SSDBImpl \<Rightarrow> bool" where
  "ssdb_inv contents b s \<longleftrightarrow>
     log_wf (contents (ss_ldb s)) (bq_last_seq (ss_binlogs s)) \<and>
     unat (bq_last_seq (ss_binlogs s)) + b < 2 ^ 64 - 1 \<and>
     hash_wf (contents (ss_ldb s))"

text \<open>Keys outside the four kinds, which only the raw operations touch.\<close>

definition raw_key :: "bytes \<Rightarrow> bool" where
  "raw_key k \<longleftrightarrow> k \<noteq> [] \<and> hd k \<notin> {DT_KV, DT_HASH, DT_HSIZE, DT_SYNCLOG}"

lemma raw_key_upd:
  "raw_key k \<Longrightarrow> (m(encode_kv_key j := v)) k = m k"
  "raw_key k \<Longrightarrow> (m(encode_hash_key n j := v)) k = m k"
  "raw_key k \<Longrightarrow> (m(encode_hsize_key n := v)) k = m k"
  "raw_key k \<Longrightarrow> (m(encode_seq_key q := v)) k = m k"
  by (auto simp: raw_key_def encode_kv_key_def encode_hash_key_def encode_hsize_key_def encode_seq_key_def)

text \<open>What a logged write does to the contents.\<close>

definition logged :: "batch_op list \<Rightarrow> char \<Rightarrow> char \<Rightarrow> bytes \<Rightarrow> 64 word \<Rightarrow> store \<Rightarrow> store" where
  "logged ops typ cmd key n m =
     (apply_batch ops m)(encode_seq_key (n + 1) \<mapsto> Binlog_new (n + 1) typ cmd key)"

lemma kv_view_upd [simp]:
  "kv_view (m(encode_kv_key k := v)) = (kv_view m)(k := v)"
  "kv_view (m(encode_seq_key q := v)) = kv_view m"
  "kv_view (m(encode_hash_key n j := v)) = kv_view m"
  "kv_view (m(encode_hsize_key n := v)) = kv_view m"
  by (auto simp: kv_view_def fun_eq_iff)

lemma hash_view_upd [simp]:
  "hash_view (m(encode_kv_key k := v)) name = hash_view m name"
  "hash_view (m(encode_seq_key q := v)) name = hash_view m name"
  "hash_view (m(encode_hsize_key n := v)) name = hash_view m name"
  "length n \<le> SSDB_KEY_LEN_MAX \<Longrightarrow> length name \<le> SSDB_KEY_LEN_MAX \<Longrightarrow>
     hash_view (m(encode_hash_key n j := v)) name =
       (if n = name then (hash_view m name)(j := v) else hash_view m name)"
  by (auto simp: hash_view_def fun_eq_iff)

lemma hsize_rep_upd [simp]:
  "hsize_rep (m(encode_kv_key k := v)) name = hsize_rep m name"
  "hsize_rep (m(encode_seq_key q := v)) name = hsize_rep m name"
  "hsize_rep (m(encode_hash_key n j := v)) name = hsize_rep m name"
  "n \<noteq> name \<Longrightarrow> hsize_rep (m(encode_hsize_key n := v)) name = hsize_rep m name"
  by (auto simp: hsize_rep_def)

lemma hash_wf_kv [simp]: "hash_wf (m(encode_kv_key k := v)) = hash_wf m"
  by (simp add: hash_wf_def)

lemma hash_wf_log [simp]: "hash_wf (m(encode_seq_key q := v)) = hash_wf m"
  by (simp add: hash_wf_def)

lemma room_for_next:
  fixes n :: "64 word"
  assumes "unat n + Suc b < 2 ^ 64 - 1"
  shows "n + 1 < - 1" "unat (n + 1) = unat n + 1"
proof -
  have "n \<noteq> - 1" using assms by auto
  then show s: "unat (n + 1) = unat n + 1"
    by (metis Suc_eq_plus1 add.commute add_eq_0_iff2 unatSuc)
  show "n + 1 < - 1" unfolding word_less_nat_alt s unat_max_word64 using assms by simp
qed

lemma logged_inv:
  assumes "ssdb_inv contents (Suc b) s" "log_wf (apply_batch ops (contents (ss_ldb s))) n"
    "n = bq_last_seq (ss_binlogs s)" "hash_wf (apply_batch ops (contents (ss_ldb s)))"
    "contents (ss_ldb s') = logged ops typ cmd key n (contents (ss_ldb s))"
    "bq_last_seq (ss_binlogs s') = n + 1"
  shows "ssdb_inv contents b s'"
proof -
  have r: "unat n + Suc b < 2 ^ 64 - 1" using assms(1,3) by (simp add: ssdb_inv_def)
  show ?thesis
    using log_wf_append [OF assms(2) room_for_next(1) [OF r]] room_for_next(2) [OF r] r assms(4-6)
    by (simp add: ssdb_inv_def logged_def)
qed

section \<open>Effects of the operations\<close>

lemmas transaction_defs = Transaction_enter_def Transaction_leave_def bq_begin_def bq_rollback_def
  bq_Put_def bq_Delete_def bq_add_log_def

text \<open>
  The outcome of a logged write: success applies the whole batch and its record, failure
  leaves the sequence number alone and applies all of it or nothing.
\<close>

definition outcome ::
  "('db \<Rightarrow> store) \<Rightarrow> batch_op list \<Rightarrow> char \<Rightarrow> char \<Rightarrow> bytes \<Rightarrow> 'db SSDBImpl \<Rightarrow> bool \<Rightarrow>
   'db SSDBImpl \<Rightarrow> bool" where
  "outcome contents ops typ cmd key s ok s' \<longleftrightarrow>
     (let n = bq_last_seq (ss_binlogs s); m = contents (ss_ldb s);
          m' = logged ops typ cmd key n m
      in if ok then contents (ss_ldb s') = m' \<and> bq_last_seq (ss_binlogs s') = n + 1
         else contents (ss_ldb s') \<in> {m, m'} \<and> bq_last_seq (ss_binlogs s') = n)"

context leveldb_api
begin

lemma commit_outcome:
  assumes "bq_commit L q = (st, q')" "bq_db q = ss_ldb s"
    "\<And>m. apply_batch (bq_batch q) m = logged ops typ cmd key n m"
    "bq_tran_seq q = n + 1" "bq_last_seq q = n" "n = bq_last_seq (ss_binlogs s)"
    "ss_binlogs s' = Transaction_leave q'"
  shows "outcome contents ops typ cmd key s (st_ok st) s'"
  using commit_ok [OF assms(1)] commit_failed [OF assms(1)] assms(2-7)
  by (auto simp: outcome_def Let_def transaction_defs)

lemma set_outcome:
  assumes "ssdb_set L key val s = (r, s')" "key \<noteq> []"
  shows "r = 1 \<or> r = - 1"
    "outcome contents [BPut (encode_kv_key key) val] BT_SYNC BC_KSET (encode_kv_key key) s (r = 1) s'"
proof -
  define q where "q = bq_add_log BT_SYNC BC_KSET (encode_kv_key key)
    (bq_Put (encode_kv_key key) val (Transaction_enter (ss_binlogs s)))"
  obtain st q' where c: "bq_commit L q = (st, q')" by fastforce
  have r: "r = (if st_ok st then 1 else - 1)" "s' = s\<lparr>ss_binlogs := Transaction_leave q'\<rparr>"
    using assms c by (auto simp: ssdb_set_def Let_def q_def split: if_splits)
  then show "r = 1 \<or> r = - 1" by auto
  have "outcome contents [BPut (encode_kv_key key) val] BT_SYNC BC_KSET (encode_kv_key key) s (st_ok st) s'"
    by (rule commit_outcome [OF c, where n = "bq_last_seq (ss_binlogs s)"])
      (simp_all add: q_def r(2) transaction_defs Let_def logged_def)
  then show "outcome contents [BPut (encode_kv_key key) val] BT_SYNC BC_KSET (encode_kv_key key) s (r = 1) s'"
    using r(1) by (cases "st_ok st") simp_all
qed

lemma del_outcome:
  assumes "ssdb_del L key s = (r, s')"
  shows "r = 1 \<or> r = - 1"
    "outcome contents [BDelete (encode_kv_key key)] BT_SYNC BC_KDEL (encode_kv_key key) s (r = 1) s'"
proof -
  define q where "q = bq_add_log BT_SYNC BC_KDEL (encode_kv_key key)
    (bq_Delete (encode_kv_key key) (Transaction_enter (ss_binlogs s)))"
  obtain st q' where c: "bq_commit L q = (st, q')" by fastforce
  have r: "r = (if st_ok st then 1 else - 1)" "s' = s\<lparr>ss_binlogs := Transaction_leave q'\<rparr>"
    using assms c by (auto simp: ssdb_del_def Let_def q_def split: if_splits)
  then show "r = 1 \<or> r = - 1" by auto
  have "outcome contents [BDelete (encode_kv_key key)] BT_SYNC BC_KDEL (encode_kv_key key) s (st_ok st) s'"
    by (rule commit_outcome [OF c, where n = "bq_last_seq (ss_binlogs s)"])
      (simp_all add: q_def r(2) transaction_defs Let_def logged_def)
  then show "outcome contents [BDelete (encode_kv_key key)] BT_SYNC BC_KDEL (encode_kv_key key) s (r = 1) s'"
    using r(1) by (cases "st_ok st") simp_all
qed

end

section \<open>Refinement of the key-value map\<close>

lemma ssdb_inv_mono: "ssdb_inv contents (Suc b) s \<Longrightarrow> ssdb_inv contents b s"
  by (simp add: ssdb_inv_def)

lemma kv_write_inv:
  assumes "ssdb_inv contents (Suc b) s" "outcome contents ops BT_SYNC cmd key s True s'"
    "ops = [BPut (encode_kv_key k) v] \<or> ops = [BDelete (encode_kv_key k)]"
  shows "ssdb_inv contents b s'"
proof (rule logged_inv [OF assms(1)])
  show "log_wf (apply_batch ops (contents (ss_ldb s))) (bq_last_seq (ss_binlogs s))"
    using assms(1,3) log_wf_data by (auto simp: ssdb_inv_def)
  show "hash_wf (apply_batch ops (contents (ss_ldb s)))"
    using assms(1,3) by (auto simp: ssdb_inv_def)
qed (use assms(2) in \<open>auto simp: outcome_def Let_def\<close>)

text \<open>
  The contract of a key-value store: a state that represents a map, writes that report 1 and
  update the map, a read that returns the mapping.  The invariant carries the number of writes
  that are still possible.
\<close>

locale kv_store =
  fixes inv :: "nat \<Rightarrow> 's \<Rightarrow> bool"
    and view :: "'s \<Rightarrow> store"
    and put :: "bytes \<Rightarrow> bytes \<Rightarrow> 's \<Rightarrow> int \<times> 's"
    and remove :: "bytes \<Rightarrow> 's \<Rightarrow> int \<times> 's"
    and fetch :: "bytes \<Rightarrow> bytes \<Rightarrow> 's \<Rightarrow> int \<times> bytes"
  assumes put_spec: "inv (Suc b) s \<Longrightarrow> k \<noteq> [] \<Longrightarrow>
        \<exists>s'. put k v s = (1, s') \<and> inv b s' \<and> view s' = (view s)(k \<mapsto> v)"
    and put_empty: "put [] v s = (0, s)"
    and remove_spec: "inv (Suc b) s \<Longrightarrow>
        \<exists>s'. remove k s = (1, s') \<and> inv b s' \<and> view s' = (view s)(k := None)"
    and fetch_spec: "fetch k d s = (case view s k of None \<Rightarrow> (0, d) | Some v \<Rightarrow> (1, v))"
    and inv_mono: "inv (Suc b) s \<Longrightarrow> inv b s"
begin

lemma fetch_put:
  "inv (Suc b) s \<Longrightarrow> k \<noteq> [] \<Longrightarrow>
   fetch k' d (snd (put k v s)) = (if k' = k then (1, v) else fetch k' d s)"
  using put_spec [of b s k v] by (auto simp: fetch_spec)

lemma fetch_remove:
  "inv (Suc b) s \<Longrightarrow> fetch k' d (snd (remove k s)) = (if k' = k then (0, d) else fetch k' d s)"
  using remove_spec [of b s k] by (auto simp: fetch_spec)

text \<open>A write of any kind, as the replication code applies them.\<close>

lemma put_ret: "inv (Suc b) s \<Longrightarrow> fst (put k v s) \<noteq> - 1"
  using put_spec [of b s k v] put_empty [of v s] by (cases "k = []") auto

lemma put_view: "inv (Suc b) s \<Longrightarrow>
    inv b (snd (put k v s)) \<and> view (snd (put k v s)) = (if k = [] then view s else (view s)(k \<mapsto> v))"
  using put_spec [of b s k v] put_empty [of v s] inv_mono [of b s] by (cases "k = []") auto

end

context leveldb_reliable
begin

lemma commit_total: "st_ok (fst (bq_commit L q))"
  using write_total [of "bq_db q" "bq_batch q"] by (auto simp: bq_commit_def Let_def split: prod.splits)

lemma lookup_spec: "db_lookup L d k val = (case contents d k of None \<Rightarrow> (0, val) | Some v \<Rightarrow> (1, v))"
  using get_some [of d k] get_none [of d k]
  by (cases "contents d k"; cases "ldb_Get L d k") (auto simp: db_lookup_def)

lemma set_total: "key \<noteq> [] \<Longrightarrow> fst (ssdb_set L key val s) = 1"
  using commit_total by (auto simp: ssdb_set_def Let_def split: prod.splits) (metis fst_conv)

lemma del_total: "fst (ssdb_del L key s) = 1"
  using commit_total by (auto simp: ssdb_del_def Let_def split: prod.splits) (metis fst_conv)

end

sublocale leveldb_reliable \<subseteq> kv: kv_store "ssdb_inv contents" "\<lambda>s. kv_view (contents (ss_ldb s))"
    "ssdb_set L" "ssdb_del L" "ssdb_get L"
proof (unfold_locales, goal_cases)
  case (1 b s k v)
  obtain s' where s': "ssdb_set L k v s = (1, s')" using set_total [OF 1(2)] by (metis prod.collapse)
  note o = set_outcome(2) [OF s' 1(2)]
  then show ?case
    using s' kv_write_inv [OF 1(1), of "[BPut (encode_kv_key k) v]"]
    by (auto simp: outcome_def Let_def logged_def)
next
  case (3 b s k)
  obtain s' where s': "ssdb_del L k s = (1, s')" using del_total by (metis prod.collapse)
  note o = del_outcome(2) [OF s']
  then show ?case
    using s' kv_write_inv [OF 3(1), of "[BDelete (encode_kv_key k)]"]
    by (auto simp: outcome_def Let_def logged_def)
qed (auto simp: ssdb_set_def ssdb_get_def lookup_spec kv_view_def intro: ssdb_inv_mono)

context leveldb_reliable
begin

lemmas kv_laws = kv.put_spec kv.put_empty kv.remove_spec kv.fetch_spec

end

section \<open>Hashes\<close>

lemma finite_hash_view:
  assumes "finite (dom m)" "length name \<le> SSDB_KEY_LEN_MAX"
  shows "finite (dom (hash_view m name))"
proof (rule inj_on_finite)
  show "inj_on (encode_hash_key name) (dom (hash_view m name))"
    using assms(2) by (auto simp: inj_on_def)
  show "encode_hash_key name ` dom (hash_view m name) \<subseteq> dom m"
    by (auto simp: hash_view_def)
qed (rule assms(1))

lemma sint_word_of_int64: "fits64 x \<Longrightarrow> sint (word_of_int x :: 64 word) = x"
  using i64_fits [of x] by (simp add: i64_def sint_sbintrunc')

text \<open>Adding a field and counting it keeps every size key right.\<close>

lemma hash_wf_add:
  assumes "hash_wf m" "finite (dom m)" "length name \<le> SSDB_KEY_LEN_MAX"
    "hash_view m name key = None" "sz = hsize_rep m name + 1" "fits64 sz"
  shows "hash_wf (m(encode_hash_key name key \<mapsto> v, encode_hsize_key name \<mapsto> mem64 (word_of_int sz)))"
proof -
  have sz: "sz = int (card (dom (hash_view m name))) + 1"
    using assms(1,3,5) by (simp add: hash_wf_def)
  have "hsize_rep (m(encode_hash_key name key \<mapsto> v, encode_hsize_key name \<mapsto> mem64 (word_of_int sz))) name
      = sz"
    using sint_word_of_int64 [OF assms(6)] sz by (simp add: hsize_rep_def del: of_int_of_nat_eq)
  moreover have "card (insert key (dom (hash_view m name))) = card (dom (hash_view m name)) + 1"
    using finite_hash_view [OF assms(2,3)] assms(4) by (simp add: domIff)
  ultimately show ?thesis
    using assms(1,3) sz unfolding hash_wf_def by (auto simp: dom_fun_upd)
qed

lemma hash_wf_replace:
  assumes "hash_wf m" "length name \<le> SSDB_KEY_LEN_MAX" "hash_view m name key \<noteq> None"
  shows "hash_wf (m(encode_hash_key name key \<mapsto> v))"
  using assms by (auto simp: hash_wf_def insert_absorb domIff)

lemma hset_arguments:
  assumes "name = [] \<or> key = [] \<or> SSDB_KEY_LEN_MAX < length name \<or> SSDB_KEY_LEN_MAX < length key"
  shows "\<exists>s'. ssdb_hset L name key val t s = Some (- 1, s') \<and> ss_ldb s' = ss_ldb s \<and>
           bq_last_seq (ss_binlogs s') = bq_last_seq (ss_binlogs s)"
proof -
  have "hset_one L name key val t x = (- 1, x)" for x using assms by (auto simp: hset_one_def)
  then show ?thesis by (simp add: ssdb_hset_def Let_def leave_def transaction_defs)
qed

context leveldb_reliable
begin

lemma hsize_spec: "ssdb_hsize L name s = hsize_rep (contents (ss_ldb s)) name"
  using get_some [of "ss_ldb s" "encode_hsize_key name"] get_none [of "ss_ldb s" "encode_hsize_key name"]
  by (cases "contents (ss_ldb s) (encode_hsize_key name)";
      cases "ldb_Get L (ss_ldb s) (encode_hsize_key name)")
    (auto simp: ssdb_hsize_def hsize_rep_def Let_def)

lemma commit_logged:
  assumes "bq_db q = ss_ldb s" "\<And>m. apply_batch (bq_batch q) m = logged ops typ cmd key n m"
    "bq_tran_seq q = n + 1" "bq_last_seq q = n" "n = bq_last_seq (ss_binlogs s)"
  shows "\<exists>st q'. bq_commit L q = (st, q') \<and> st_ok st \<and>
           outcome contents ops typ cmd key s True (s\<lparr>ss_binlogs := Transaction_leave q'\<rparr>)"
proof -
  obtain st q' where c: "bq_commit L q = (st, q')" by fastforce
  then have "st_ok st" using commit_total [of q] by simp
  then show ?thesis using commit_outcome [OF c assms(1-5)] c by force
qed

lemma hset_new:
  assumes "ssdb_inv contents (Suc b) s" "name \<noteq> []" "key \<noteq> []"
    "length name \<le> SSDB_KEY_LEN_MAX" "length key \<le> SSDB_KEY_LEN_MAX"
    "hash_view (contents (ss_ldb s)) name key = None"
    "sz = hsize_rep (contents (ss_ldb s)) name + 1" "fits64 sz"
    "ops = [BPut (encode_hash_key name key) val, BPut (encode_hsize_key name) (mem64 (word_of_int sz))]"
  shows "\<exists>s'. ssdb_hset L name key val t s = Some (1, s') \<and> ssdb_inv contents b s' \<and>
           outcome contents ops t BC_HSET (encode_hash_key name key) s True s'"
proof -
  define q where "q = bq_add_log t BC_HSET (encode_hash_key name key)
    (bq_Put (encode_hash_key name key) val (Transaction_enter (ss_binlogs s)))"
  define q2 where "q2 = bq_Put (encode_hsize_key name) (mem64 (word_of_int sz)) q"
  have "hset_one L name key val t (s\<lparr>ss_binlogs := Transaction_enter (ss_binlogs s)\<rparr>) =
      (1, s\<lparr>ss_binlogs := q\<rparr>)"
    using assms(2-6)
    by (simp add: hset_one_def ssdb_hget_def lookup_spec hash_view_def q_def)
      (simp add: transaction_defs Let_def)
  moreover have "0 < sz" using assms(1,4,7) by (simp add: ssdb_inv_def hash_wf_def)
  then have "incr_hsize L name 1 (s\<lparr>ss_binlogs := q\<rparr>) = Some (0, s\<lparr>ss_binlogs := q2\<rparr>)"
    using assms(7,8)
    by (simp add: incr_hsize_def hsize_spec q2_def Let_def) (simp add: q_def transaction_defs Let_def)
  moreover have "apply_batch (bq_batch q2) m =
      logged ops t BC_HSET (encode_hash_key name key) (bq_last_seq (ss_binlogs s)) m" for m
    by (simp add: q2_def q_def transaction_defs Let_def logged_def assms(9) fun_upd_twist)
  then obtain st q' where c: "bq_commit L q2 = (st, q')" "st_ok st"
    "outcome contents ops t BC_HSET (encode_hash_key name key) s True (s\<lparr>ss_binlogs := Transaction_leave q'\<rparr>)"
    using commit_logged [of q2 s ops t BC_HSET "encode_hash_key name key" "bq_last_seq (ss_binlogs s)"]
    by (auto simp: q2_def q_def transaction_defs Let_def)
  moreover have "ssdb_inv contents b (s\<lparr>ss_binlogs := Transaction_leave q'\<rparr>)"
  proof (rule logged_inv [OF assms(1)])
    show "log_wf (apply_batch ops (contents (ss_ldb s))) (bq_last_seq (ss_binlogs s))"
      using assms(1) by (auto simp: ssdb_inv_def assms(9) intro!: log_wf_data)
    show "hash_wf (apply_batch ops (contents (ss_ldb s)))"
      using hash_wf_add [OF _ finite_contents assms(4,6,7,8)] assms(1) by (simp add: ssdb_inv_def assms(9))
  qed (use c(3) in \<open>auto simp: outcome_def Let_def\<close>)
  ultimately show ?thesis by (simp add: ssdb_hset_def Let_def leave_def)
qed

lemma hset_old:
  assumes "ssdb_inv contents (Suc b) s" "name \<noteq> []" "key \<noteq> []"
    "length name \<le> SSDB_KEY_LEN_MAX" "length key \<le> SSDB_KEY_LEN_MAX"
    "hash_view (contents (ss_ldb s)) name key = Some old" "old \<noteq> val"
  shows "\<exists>s'. ssdb_hset L name key val t s = Some (0, s') \<and> ssdb_inv contents b s' \<and>
     outcome contents [BPut (encode_hash_key name key) val] t BC_HSET (encode_hash_key name key) s True s'"
proof -
  define q where "q = bq_add_log t BC_HSET (encode_hash_key name key)
    (bq_Put (encode_hash_key name key) val (Transaction_enter (ss_binlogs s)))"
  have "hset_one L name key val t (s\<lparr>ss_binlogs := Transaction_enter (ss_binlogs s)\<rparr>) =
      (0, s\<lparr>ss_binlogs := q\<rparr>)"
    using assms(2-7)
    by (simp add: hset_one_def ssdb_hget_def lookup_spec hash_view_def q_def)
      (simp add: transaction_defs Let_def)
  moreover obtain st q' where c: "bq_commit L q = (st, q')" "st_ok st"
    "outcome contents [BPut (encode_hash_key name key) val] t BC_HSET (encode_hash_key name key) s True
       (s\<lparr>ss_binlogs := Transaction_leave q'\<rparr>)"
    using commit_logged [of q s "[BPut (encode_hash_key name key) val]" t BC_HSET
        "encode_hash_key name key" "bq_last_seq (ss_binlogs s)"]
    by (auto simp: q_def transaction_defs Let_def logged_def)
  moreover have "ssdb_inv contents b (s\<lparr>ss_binlogs := Transaction_leave q'\<rparr>)"
  proof (rule logged_inv [OF assms(1)])
    show "log_wf (apply_batch [BPut (encode_hash_key name key) val] (contents (ss_ldb s)))
        (bq_last_seq (ss_binlogs s))"
      using assms(1) by (auto simp: ssdb_inv_def intro!: log_wf_data)
    show "hash_wf (apply_batch [BPut (encode_hash_key name key) val] (contents (ss_ldb s)))"
      using hash_wf_replace [OF _ assms(4)] assms(1,6) by (simp add: ssdb_inv_def)
  qed (use c(3) in \<open>auto simp: outcome_def Let_def\<close>)
  ultimately show ?thesis by (simp add: ssdb_hset_def Let_def leave_def)
qed

lemma hset_same:
  assumes "ssdb_inv contents b s" "name \<noteq> []" "key \<noteq> []"
    "length name \<le> SSDB_KEY_LEN_MAX" "length key \<le> SSDB_KEY_LEN_MAX"
    "hash_view (contents (ss_ldb s)) name key = Some val"
  shows "\<exists>s'. ssdb_hset L name key val t s = Some (0, s') \<and> ssdb_inv contents b s' \<and>
     contents (ss_ldb s') = contents (ss_ldb s) \<and>
     bq_last_seq (ss_binlogs s') = bq_last_seq (ss_binlogs s)"
proof -
  define s1 where "s1 = s\<lparr>ss_binlogs := Transaction_enter (ss_binlogs s)\<rparr>"
  have "contents (ss_ldb s1) = contents (ss_ldb s)" by (simp add: s1_def transaction_defs)
  then have "hset_one L name key val t s1 = (0, s1)"
    using assms(2-6) by (simp add: hset_one_def ssdb_hget_def lookup_spec hash_view_def)
  moreover obtain st q' where c: "bq_commit L (ss_binlogs s1) = (st, q')" by fastforce
  then have st: "st_ok st" using commit_total by (metis fst_conv)
  moreover note commit_ok [OF c st]
  ultimately show ?thesis
    using assms(1) c
    by (simp add: ssdb_hset_def Let_def leave_def s1_def [symmetric])
      (simp add: s1_def transaction_defs ssdb_inv_def)
qed

end

section \<open>Scans\<close>

context leveldb_api
begin

lemma scan_cursor:
  assumes "it = it_Seek L (ldb_NewIterator L d) start"
    "it' = (if it_Valid L it \<and> it_key L it = start then it_Next L it else it)"
  shows "snapshot it' = contents d \<and> cursor it' = first_in {k \<in> dom (contents d). start < k}"
proof -
  have s: "snapshot it = contents d" "cursor it = first_in {k \<in> dom (contents d). start \<le> k}"
    by (simp_all add: assms(1) seek new_iterator)
  show ?thesis
  proof (cases "cursor it = Some start")
    case True
    then show ?thesis
      using cursor_key [OF True] it_next [OF True] s(1) by (simp add: assms(2) valid_cursor)
  next
    case False
    have "finite {k \<in> dom (contents d). start \<le> k}" using finite_contents [of d] by simp
    then have "first_in {k \<in> dom (contents d). start \<le> k} = Some start" if "start \<in> dom (contents d)"
      using that by (intro first_in_eqI) auto
    then have "start \<notin> dom (contents d)" using False s(2) by metis
    then have "{k \<in> dom (contents d). start \<le> k} = {k \<in> dom (contents d). start < k}"
      by (intro Collect_cong) (metis order.strict_iff_order)
    moreover have "\<not> (it_Valid L it \<and> it_key L it = start)"
      using False cursor_key [of it] by (auto simp: valid_cursor)
    ultimately show ?thesis using s by (auto simp: assms(2))
  qed
qed

lemma iterator_todo:
  "it_ok cursor (ssdb_iterator L start e limit s) \<and>
   it_todo snapshot cursor (ssdb_iterator L start e limit s) =
     take (unat limit) (sorted_list_of_set {k \<in> dom (contents (ss_ldb s)). start < k \<and> (e = [] \<or> k \<le> e)})"
proof -
  define it where "it = it_Seek L (ldb_NewIterator L (ss_ldb s)) start"
  define it' where "it' = (if it_Valid L it \<and> it_key L it = start then it_Next L it else it)"
  define A where "A = {k \<in> dom (contents (ss_ldb s)). start < k}"
  have i: "ssdb_iterator L start e limit s = Iterator_new it' e limit FORWARD"
    by (simp add: ssdb_iterator_def it'_def it_def Let_def)
  note c = scan_cursor [OF it_def it'_def, folded A_def]
  have "ahead (contents (ss_ldb s)) (first_in A) True = A"
  proof (cases "first_in A")
    case (Some k)
    have "finite A" using finite_contents [of "ss_ldb s"] by (simp add: A_def)
    from first_in_SomeD [OF this Some] have k: "start < k" "\<And>k'. k' \<in> A \<Longrightarrow> k \<le> k'"
      by (auto simp: A_def)
    have "ahead (contents (ss_ldb s)) (Some k) True = A"
      using k by (auto simp: ahead_def) (auto simp: A_def)
    then show ?thesis by (simp add: Some)
  next
    case None
    then have "A = {}" by simp
    then show ?thesis unfolding None by (simp add: ahead_def)
  qed
  then show ?thesis
    using c by (simp add: i it_ok_def it_todo_def Iterator_new_def) (simp add: A_def conj_assoc)
qed

lemma iterator_snapshot: "snapshot (si_it (ssdb_iterator L start e limit s)) = contents (ss_ldb s)"
  using scan_cursor [OF refl refl, of "ss_ldb s" start] by (simp add: ssdb_iterator_def Let_def Iterator_new_def)

lemma iterator_entries:
  "entries_visited L n (ssdb_iterator L start e limit s) =
     map (\<lambda>k. (k, the (contents (ss_ldb s) k)))
       (take n (take (unat limit)
         (sorted_list_of_set {k \<in> dom (contents (ss_ldb s)). start < k \<and> (e = [] \<or> k \<le> e)})))"
  using iterator_todo [of start e limit s]
  by (simp only: entries_visited_eq [OF conjunct1 [OF iterator_todo]] conjunct2 [OF iterator_todo] iterator_snapshot)

end

text \<open>All cases of \<open>hset\<close>, over the views of the contents.\<close>

lemma hset_spec:
  assumes "leveldb_reliable L contents snapshot cursor" "ssdb_inv contents (Suc b) s"
    "m = contents (ss_ldb s)" "fits64 (hsize_rep m name + 1)"
    "valid \<longleftrightarrow> 1 \<le> length name \<and> length name \<le> 255 \<and> 1 \<le> length key \<and> length key \<le> 255"
  shows "\<exists>r s' m'. ssdb_hset L name key val t s = Some (r, s') \<and> m' = contents (ss_ldb s') \<and>
     ssdb_inv contents b s' \<and> kv_view m' = kv_view m \<and> (\<forall>k. raw_key k \<longrightarrow> m' k = m k) \<and>
     r = (if \<not> valid then - 1 else if hash_view m name key = None then 1 else 0) \<and>
     (\<forall>nm. length nm \<le> 255 \<longrightarrow>
        hash_view m' nm = (if valid \<and> nm = name then (hash_view m nm)(key \<mapsto> val) else hash_view m nm) \<and>
        ssdb_hsize L nm s' = int (card (dom (hash_view m' nm))))"
proof -
  note hs = leveldb_reliable.hsize_spec [OF assms(1)]
  have count: "ssdb_hsize L nm s' = int (card (dom (hash_view (contents (ss_ldb s')) nm)))"
    if "ssdb_inv contents b s'" "length nm \<le> 255" for nm s'
    using that by (simp add: hs ssdb_inv_def hash_wf_def SSDB_KEY_LEN_MAX_def)
  show ?thesis
  proof (cases "valid")
    case False
    then obtain s' where s': "ssdb_hset L name key val t s = Some (- 1, s')" "ss_ldb s' = ss_ldb s"
      "bq_last_seq (ss_binlogs s') = bq_last_seq (ss_binlogs s)"
      using hset_arguments [of name key L val t s] assms(5)
      by (auto simp: SSDB_KEY_LEN_MAX_def not_le Suc_le_eq)
    then have "ssdb_inv contents b s'" using ssdb_inv_mono [OF assms(2)] by (simp add: ssdb_inv_def)
    then show ?thesis using False s' count assms(3) by auto
  next
    case True
    then have v: "name \<noteq> []" "key \<noteq> []" "length name \<le> SSDB_KEY_LEN_MAX" "length key \<le> SSDB_KEY_LEN_MAX"
      using assms(5) by (auto simp: SSDB_KEY_LEN_MAX_def)
    have upd: "hash_view ((contents (ss_ldb s))(encode_hash_key name key \<mapsto> val)) nm =
        (if nm = name then (hash_view m nm)(key \<mapsto> val) else hash_view m nm)" if "length nm \<le> 255" for nm
      using that v(3) assms(3) by (auto simp: SSDB_KEY_LEN_MAX_def)
    consider "hash_view m name key = None" | old where "hash_view m name key = Some old" "old \<noteq> val"
      | "hash_view m name key = Some val" by fastforce
    then show ?thesis
    proof cases
      case 1
      from leveldb_reliable.hset_new [OF assms(1,2) v 1 [unfolded assms(3)] refl assms(4) [unfolded assms(3)] refl]
      obtain s' where "ssdb_hset L name key val t s = Some (1, s')" "ssdb_inv contents b s'"
        "contents (ss_ldb s') = (contents (ss_ldb s))(encode_hash_key name key \<mapsto> val,
           encode_hsize_key name \<mapsto> mem64 (word_of_int (hsize_rep (contents (ss_ldb s)) name + 1)),
           encode_seq_key (bq_last_seq (ss_binlogs s) + 1) \<mapsto>
             Binlog_new (bq_last_seq (ss_binlogs s) + 1) t BC_HSET (encode_hash_key name key))"
        by (auto simp: outcome_def logged_def Let_def)
      then show ?thesis using 1 True count upd assms(3) by (auto simp: raw_key_upd simp del: fun_upd_apply)
    next
      case (2 old)
      from leveldb_reliable.hset_old [OF assms(1,2) v 2(1) [unfolded assms(3)] 2(2)]
      obtain s' where "ssdb_hset L name key val t s = Some (0, s')" "ssdb_inv contents b s'"
        "contents (ss_ldb s') = (contents (ss_ldb s))(encode_hash_key name key \<mapsto> val,
           encode_seq_key (bq_last_seq (ss_binlogs s) + 1) \<mapsto>
             Binlog_new (bq_last_seq (ss_binlogs s) + 1) t BC_HSET (encode_hash_key name key))"
        by (auto simp: outcome_def logged_def Let_def)
      then show ?thesis using 2 True count upd assms(3) by (auto simp: raw_key_upd simp del: fun_upd_apply)
    next
      case 3
      from leveldb_reliable.hset_same [OF assms(1) ssdb_inv_mono [OF assms(2)] v 3 [unfolded assms(3)]]
      obtain s' where "ssdb_hset L name key val t s = Some (0, s')" "ssdb_inv contents b s'"
        "contents (ss_ldb s') = contents (ss_ldb s)" by auto
      then show ?thesis using 3 True count assms(3) by (auto simp: map_upd_triv)
    qed
  qed
qed

section \<open>Properties\<close>

text \<open>
  C18. Over a LevelDB that reports no I/O error, the key-value operations implement a map:
  \<open>set\<close> of a non-empty key returns 1 and updates it, \<open>set\<close> of the empty key returns 0 and
  changes nothing, \<open>del\<close> returns 1 and removes the key, \<open>get\<close> returns 1 and the value, or 0
  and leaves the caller's string; every operation keeps the invariant of log and hashes, as
  long as sequence numbers remain.
\<close>

theorem kv_operations_refine_map:
  assumes "leveldb_reliable L contents snapshot cursor" "ssdb_inv contents (Suc b) s"
  shows "(key \<noteq> [] \<longrightarrow> (\<exists>s'. ssdb_set L key val s = (1, s') \<and> ssdb_inv contents b s' \<and>
            kv_view (contents (ss_ldb s')) = (kv_view (contents (ss_ldb s)))(key \<mapsto> val))) \<and>
         ssdb_set L [] val s = (0, s) \<and>
         (\<exists>s'. ssdb_del L key s = (1, s') \<and> ssdb_inv contents b s' \<and>
            kv_view (contents (ss_ldb s')) = (kv_view (contents (ss_ldb s)))(key := None)) \<and>
         ssdb_get L key d s =
           (case kv_view (contents (ss_ldb s)) key of None \<Rightarrow> (0, d) | Some v \<Rightarrow> (1, v))"
  using leveldb_reliable.kv_laws [OF assms(1)] assms(2) by blast

definition sample_db :: "mem_db SSDBImpl" where
  "sample_db =
     \<lparr>ss_options = \<lparr>opt_create_if_missing = True, opt_block_size = 0, opt_write_buffer_size = 0,
                    opt_snappy = True\<rparr>,
      ss_binlogs = \<lparr>bq_db = [], bq_capacity = 20000000, bq_last_seq = 0, bq_tran_seq = 0,
                    bq_batch = [], bq_locked = False\<rparr>\<rparr>"

lemma sample_db_inv: "b < 2 ^ 64 - 1 \<Longrightarrow> ssdb_inv mem_contents b sample_db"
  using log_wf_empty
  by (simp add: ssdb_inv_def sample_db_def mem_contents_def hash_wf_def hsize_rep_def hash_view_def)

theorem kv_operations_refine_map_witness:
  "\<exists>s'. ssdb_set mem_ldb ''a'' ''1'' sample_db = (1, s') \<and>
        kv_view (mem_contents (ss_ldb s')) = [''a'' \<mapsto> ''1'']"
  using kv_operations_refine_map [OF mem.leveldb_reliable_axioms sample_db_inv, of 0 "''a''" "''1''"]
  by (auto simp: sample_db_def mem_contents_def kv_view_def)

text \<open>
  C19. Failure atomicity, for any LevelDB: \<open>set\<close> of a non-empty key and \<open>del\<close> return 1 or
  -1.  After -1 the in-memory sequence number is unchanged and the stored data and its log
  record were either both written or both not written; never one without the other.
\<close>

theorem failed_write_is_atomic:
  assumes "leveldb_api L contents snapshot cursor" "key \<noteq> []" "ssdb_set L key val s = (r, s')"
    "n = bq_last_seq (ss_binlogs s)" "m = contents (ss_ldb s)"
  shows "(r = 1 \<or> r = - 1) \<and>
         (r = - 1 \<longrightarrow> bq_last_seq (ss_binlogs s') = n \<and>
            contents (ss_ldb s') \<in>
              {m, m(encode_kv_key key \<mapsto> val,
                    encode_seq_key (n + 1) \<mapsto> Binlog_new (n + 1) BT_SYNC BC_KSET (encode_kv_key key))}) \<and>
         \<not> bq_locked (ss_binlogs s')"
proof -
  have "\<not> bq_locked (ss_binlogs s')"
    using assms(2,3) by (auto simp: ssdb_set_def Let_def Transaction_leave_def split: prod.splits if_splits)
  then show ?thesis
    using leveldb_api.set_outcome [OF assms(1,3,2)] assms(4,5)
    by (auto simp: outcome_def Let_def logged_def)
qed

definition broken_ldb :: "(mem_db, mem_it) leveldb" where
  "broken_ldb = mem_ldb\<lparr>ldb_Write := (\<lambda>d ops. (StError ''io'', d))\<rparr>"

lemma broken_ldb_api: "leveldb_api broken_ldb mem_contents mem_snapshot mem_cursor"
  using mem.leveldb_api_axioms unfolding leveldb_api_def broken_ldb_def by simp

theorem failed_write_is_atomic_witness:
  "fst (ssdb_set broken_ldb ''a'' ''1'' sample_db) = - 1 \<and>
   mem_contents (ss_ldb (snd (ssdb_set broken_ldb ''a'' ''1'' sample_db))) = Map.empty"
proof -
  have "fst (ssdb_set broken_ldb ''a'' ''1'' sample_db) = - 1"
    "ss_ldb (snd (ssdb_set broken_ldb ''a'' ''1'' sample_db)) = []"
    by (simp_all add: ssdb_set_def broken_ldb_def bq_commit_def transaction_defs sample_db_def Let_def)
  then show ?thesis
    using failed_write_is_atomic [OF broken_ldb_api _ prod.collapse [symmetric] refl refl,
        of "''a''" "''1''" sample_db]
    by (simp add: mem_contents_def)
qed

text \<open>
  C20. Hashes over a LevelDB that reports no I/O error: \<open>hset\<close> with a name and a field of 1
  to 255 bytes returns 1 exactly when the field is new and 0 otherwise, sets the field and
  nothing else of any hash or key-value entry, and \<open>hsize\<close> afterwards is the number of
  fields of the hash.  Names or fields that are empty or too long are refused with -1 and
  leave the database as it was.
\<close>

theorem hset_counts_fields:
  assumes "leveldb_reliable L contents snapshot cursor" "ssdb_inv contents (Suc b) s"
    "m = contents (ss_ldb s)" "fits64 (hsize_rep m name + 1)"
    "valid \<longleftrightarrow> 1 \<le> length name \<and> length name \<le> 255 \<and> 1 \<le> length key \<and> length key \<le> 255"
  shows "\<exists>r s' m'. ssdb_hset L name key val t s = Some (r, s') \<and> m' = contents (ss_ldb s') \<and>
     ssdb_inv contents b s' \<and> kv_view m' = kv_view m \<and>
     r = (if \<not> valid then - 1 else if hash_view m name key = None then 1 else 0) \<and>
     (\<forall>nm. length nm \<le> 255 \<longrightarrow>
        hash_view m' nm = (if valid \<and> nm = name then (hash_view m nm)(key \<mapsto> val) else hash_view m nm) \<and>
        ssdb_hsize L nm s' = int (card (dom (hash_view m' nm))))"
  using hset_spec [OF assms, of val t] by blast

theorem hset_counts_fields_witness:
  "\<exists>s'. ssdb_hset mem_ldb ''h'' ''f'' ''v'' BT_SYNC sample_db = Some (1, s') \<and>
        ssdb_hsize mem_ldb ''h'' s' = 1"
proof -
  have "fits64 (hsize_rep (mem_contents (ss_ldb sample_db)) ''h'' + 1)"
    by (simp add: sample_db_def mem_contents_def hsize_rep_def fits64_def)
  from hset_counts_fields [OF mem.leveldb_reliable_axioms sample_db_inv refl this refl, of 0 "''f''" "''v''" BT_SYNC]
  show ?thesis by (auto simp: sample_db_def mem_contents_def hash_view_def)
qed

text \<open>
  The database keys are uniquely decodable: key-value, hash-size and (for names of at
  most 255 bytes) hash keys decode to what was encoded, and keys of different kinds differ.
\<close>

lemma data_keys_roundtrip:
  "decode_kv_key (encode_kv_key key) k = (0, key) \<and>
   decode_hsize_key (encode_hsize_key name) k = (0, name) \<and>
   (length name \<le> 255 \<longrightarrow> decode_hash_key (encode_hash_key name key) = Some (name, key)) \<and>
   encode_kv_key key \<noteq> encode_hsize_key name \<and> encode_kv_key key \<noteq> encode_hash_key name k \<and>
   encode_hsize_key key \<noteq> encode_hash_key name k"
  using decode_encode_hash [of name key]
  by (simp add: decode_encode_kv decode_encode_hsize SSDB_KEY_LEN_MAX_def)

theorem data_keys_roundtrip_witness:
  "decode_hash_key (encode_hash_key ''user'' ''age'') = Some (''user'', ''age'')"
  using data_keys_roundtrip [of "''age''" "[]" "''user''"] by simp

definition two_keys_db :: "mem_db SSDBImpl" where
  "two_keys_db = sample_db\<lparr>ss_binlogs := (ss_binlogs sample_db)\<lparr>bq_db := [(''kb'', ''2''), (''ka'', ''1'')]\<rparr>\<rparr>"

text \<open>
  C1.  Calling \<open>next\<close> on \<open>iterator(start, end, limit)\<close> until it fails visits, in bytewise order and
  with their values, the first \<open>limit\<close> keys of the database strictly greater than \<open>start\<close> and,
  unless \<open>end\<close> is empty, not greater than \<open>end\<close>, whether or not \<open>start\<close> itself is a key; stopping
  after \<open>n\<close> calls gives the first \<open>n\<close> of them.
\<close>

theorem iterator_visits_open_range:
  assumes "leveldb_api L contents snapshot cursor"
  shows "entries_visited L n (ssdb_iterator L start e limit s) =
    map (\<lambda>k. (k, the (contents (ss_ldb s) k)))
      (take n (take (unat limit)
        (sorted_list_of_set {k \<in> dom (contents (ss_ldb s)). start < k \<and> (e = [] \<or> k \<le> e)})))"
  using leveldb_api.iterator_entries [OF assms] .

theorem iterator_visits_open_range_witness:
  "entries_visited mem_ldb 5 (ssdb_iterator mem_ldb ''ka'' [] 10 two_keys_db) = [(''kb'', ''2'')]"
proof -
  have "{k \<in> dom (mem_contents (ss_ldb two_keys_db)). ''ka'' < k} = {''kb''}"
    by (auto simp: mem_contents_def two_keys_db_def)
  then show ?thesis
    using iterator_visits_open_range [OF mem.leveldb_api_axioms, of 5 "''ka''" "[]" 10 two_keys_db]
    by (simp add: two_keys_db_def mem_contents_def)
qed

text \<open>
  The sizes of the configuration are multiplied in \<open>int\<close>: opening a database computes
  its options without overflow exactly when both sizes are between -2048 and 2047 mebibytes.
\<close>

theorem open_options_bounds:
  "open_options d cf \<noteq> None \<longleftrightarrow>
     - 2048 \<le> block_size cf \<and> block_size cf < 2048 \<and>
     - 2048 \<le> write_buffer_size cf \<and> write_buffer_size cf < 2048"
proof -
  have m: "mebibytes x \<noteq> None \<longleftrightarrow> - 2048 \<le> x \<and> x < 2048" for x
    by (auto simp: mebibytes_def ck32_def fits32_def split: bind_splits if_splits)
  show ?thesis
    using m [of "block_size cf"] m [of "write_buffer_size cf"]
    by (cases "mebibytes (block_size cf)"; cases "mebibytes (write_buffer_size cf)")
      (auto simp: open_options_def)
qed

end
