(* ===== verification/Response.thy ===== *)
theory Response
  imports Strings
begin

text \<open>
  Model of src/ssdb/src/net/resp.h and resp.cpp: the list of strings a command handler fills,
  and the reply helpers.  Null \<open>errmsg\<close> and \<open>val\<close> pointers are \<^term>\<open>None\<close>.  The integer
  forms of \<open>add\<close> format into a stack array of 20 bytes with \<open>sprintf\<close>; writing past it is
  undefined.
\<close>

section \<open>Operations\<close>

type_synonym response = "bytes list"

definition resp_size :: "response \<Rightarrow> int" where
  "resp_size r = i32 (int (length r))"

definition resp_push_back :: "bytes \<Rightarrow> response \<Rightarrow> response" where
  "resp_push_back s r = r @ [s]"

definition sprintf_buf :: "nat \<Rightarrow> bytes \<Rightarrow> bytes option" where
  "sprintf_buf n s = (if length s + 1 \<le> n then Some s else None)"

definition resp_add_int64 :: "int \<Rightarrow> response \<Rightarrow> response option" where
  "resp_add_int64 s r = do { buf \<leftarrow> sprintf_buf 20 (dec_int s); Some (resp_push_back buf r) }"

definition resp_add_int :: "int \<Rightarrow> response \<Rightarrow> response option" where
  "resp_add_int s r = resp_add_int64 s r"

definition resp_add_uint64 :: "64 word \<Rightarrow> response \<Rightarrow> response option" where
  "resp_add_uint64 s r = do { buf \<leftarrow> sprintf_buf 20 (dec_nat (unat s)); Some (resp_push_back buf r) }"

text \<open>The text of the number under \<open>%f\<close> is an argument; it is cut to the array of 30 bytes.\<close>

definition resp_add_double :: "bytes \<Rightarrow> response \<Rightarrow> response" where
  "resp_add_double text r = resp_push_back (snprintf 30 text) r"

definition resp_add_string :: "bytes \<Rightarrow> response \<Rightarrow> response" where
  "resp_add_string s r = resp_push_back s r"

definition push_opt :: "bytes option \<Rightarrow> response \<Rightarrow> response" where
  "push_opt msg r = (case msg of None \<Rightarrow> r | Some m \<Rightarrow> resp_push_back m r)"

definition reply_status :: "int \<Rightarrow> bytes option \<Rightarrow> response \<Rightarrow> response" where
  "reply_status status errmsg r =
     (if status = - 1 then push_opt errmsg (resp_push_back ''error'' r) else resp_push_back ''ok'' r)"

definition reply_bool :: "int \<Rightarrow> bytes option \<Rightarrow> response \<Rightarrow> response" where
  "reply_bool status errmsg r =
     (if status = - 1 then push_opt errmsg (resp_push_back ''error'' r)
      else if status = 0 then resp_push_back ''0'' (resp_push_back ''ok'' r)
      else resp_push_back ''1'' (resp_push_back ''ok'' r))"

definition reply_int :: "int \<Rightarrow> int \<Rightarrow> response \<Rightarrow> response option" where
  "reply_int status val r =
     (if status = - 1 then Some (resp_push_back ''error'' r)
      else resp_add_int64 val (resp_push_back ''ok'' r))"

definition reply_get :: "int \<Rightarrow> bytes option \<Rightarrow> bytes option \<Rightarrow> response \<Rightarrow> response" where
  "reply_get status val errmsg r =
     (if status = - 1 then push_opt errmsg (resp_push_back ''error'' r)
      else if status = 0 then push_opt errmsg (resp_push_back ''not_found'' r)
      else push_opt val (resp_push_back ''ok'' r))"

definition reply_list :: "int \<Rightarrow> bytes list \<Rightarrow> response \<Rightarrow> response" where
  "reply_list status xs r =
     (if status = - 1 then resp_push_back ''error'' r
      else fold resp_push_back xs (resp_push_back ''ok'' r))"

section \<open>Lengths of decimal numbers\<close>

lemma dec_nat_longer: "10 ^ k \<le> n \<Longrightarrow> k < length (dec_nat n)"
proof (induction n arbitrary: k rule: dec_nat.induct)
  case (1 n)
  show ?case
  proof (cases "n < 10")
    case True
    have "k = 0"
    proof (rule ccontr)
      assume "k \<noteq> 0"
      then have "(10 :: nat) ^ 1 \<le> 10 ^ k" by (intro power_increasing) auto
      then show False using True "1.prems" by simp
    qed
    then show ?thesis using True by (subst dec_nat.simps) simp
  next
    case False
    show ?thesis
    proof (cases k)
      case (Suc j)
      then have "10 ^ j \<le> n div 10" using "1.prems" by simp
      then show ?thesis using "1.IH" [OF False, of j] False Suc by (subst dec_nat.simps) simp
    qed (use False in \<open>subst dec_nat.simps, simp\<close>)
  qed
qed

lemma length_dec_nat_le: "0 < k \<Longrightarrow> length (dec_nat n) \<le> k \<longleftrightarrow> n < 10 ^ k"
  using length_dec_nat [of n k] dec_nat_longer [of k n] by (metis not_le)

lemma fold_push: "fold resp_push_back xs r = r @ xs"
  by (induction xs arbitrary: r) (simp_all add: resp_push_back_def)

section \<open>Properties\<close>

text \<open>
  The integer replies are formatted into 20 bytes.  The signed form stays inside the
  array exactly for values above -10^18, the unsigned form exactly for values below 10^19;
  outside that range \<open>sprintf\<close> writes past the array.
\<close>

theorem response_number_bounds:
  assumes "fits64 i"
  shows "(resp_add_int64 i r = Some (r @ [dec_int i]) \<longleftrightarrow> - (10 ^ 18) < i) \<and>
         (resp_add_uint64 w r = Some (r @ [dec_nat (unat w)]) \<longleftrightarrow> unat w < 10 ^ 19)"
proof -
  have "length (dec_int i) \<le> 19 \<longleftrightarrow> - (10 ^ 18) < i"
  proof (cases "i < 0")
    case True
    then have "length (dec_int i) \<le> 19 \<longleftrightarrow> nat (- i) < 10 ^ 18"
      using length_dec_nat_le [of 18 "nat (- i)"] by (simp add: dec_int_def)
    then show ?thesis using True by auto
  next
    case False
    have "nat i < 10 ^ 19" using assms by (simp add: fits64_def) arith
    then show ?thesis using False length_dec_nat_le [of 19 "nat i"] by (simp add: dec_int_def)
  qed
  moreover have "length (dec_nat (unat w)) \<le> 19 \<longleftrightarrow> unat w < 10 ^ 19"
    by (rule length_dec_nat_le) simp
  ultimately show ?thesis
    by (simp add: resp_add_int64_def resp_add_uint64_def sprintf_buf_def resp_push_back_def)
qed

theorem response_number_bounds_witness:
  "resp_add_int64 (- (10 ^ 18)) [] \<noteq> Some [dec_int (- (10 ^ 18))]"
  using response_number_bounds [of "- (10 ^ 18)" "[]" 0] by (simp add: fits64_def)

text \<open>
  The reply of each helper on every status: an error status replies "error" (and the
  message, where one is given), status 0 of a lookup "not\_found", and success "ok" followed by
  the value, the flag or the elements of the list in order.
\<close>

lemma reply_helpers_spec:
  "reply_get st val msg r =
     r @ (if st = - 1 then ''error'' # map the (filter (\<lambda>m. m \<noteq> None) [msg])
          else if st = 0 then ''not_found'' # map the (filter (\<lambda>m. m \<noteq> None) [msg])
          else ''ok'' # map the (filter (\<lambda>m. m \<noteq> None) [val])) \<and>
   reply_bool st msg r =
     r @ (if st = - 1 then ''error'' # map the (filter (\<lambda>m. m \<noteq> None) [msg])
          else [''ok'', if st = 0 then ''0'' else ''1'']) \<and>
   reply_list st xs r = r @ (if st = - 1 then [''error''] else ''ok'' # xs)"
  by (cases val; cases msg)
    (simp_all add: reply_get_def reply_bool_def reply_list_def push_opt_def fold_push resp_push_back_def)

end
