(* ===== verification/Redis_Link.thy ===== *)
theory Redis_Link
  imports Bytes_Buffer Response
begin

text \<open>
  Model of src/ssdb/src/net/link\_redis.h and link\_redis.cpp: the table of Redis commands, the
  conversion of a Redis request to an ssdb request, the parser of the Redis wire format over
  the input buffer, and the writer of replies.

  The parser reads the memory block of the buffer from \<open>data\<close> on, so that the reads of the
  source that are not covered by \<open>size\<close> (the byte at the pointer when nothing is left, the
  text scanned by \<open>strtol\<close>) are reads of whatever the block holds there, and undefined at
  its end.  The truncated floating-point value of a score, \<open>(int64_t)Bytes::Double()\<close>, is a
  parameter of the conversion (\<^term>\<open>None\<close> for values whose cast is undefined).
\<close>

section \<open>The command table\<close>

datatype REPLY = REPLY_BULK | REPLY_MULTI_BULK | REPLY_INT | REPLY_STATUS

datatype STRATEGY =
    STRATEGY_AUTO | STRATEGY_PING | STRATEGY_MGET | STRATEGY_HMGET | STRATEGY_HGETALL
  | STRATEGY_HKEYS | STRATEGY_HVALS | STRATEGY_SETEX | STRATEGY_ZRANGE | STRATEGY_ZREVRANGE
  | STRATEGY_ZRANGEBYSCORE | STRATEGY_ZREVRANGEBYSCORE | STRATEGY_ZADD | STRATEGY_ZINCRBY
  | STRATEGY_REMRANGEBYRANK | STRATEGY_REMRANGEBYSCORE | STRATEGY_NULL

record RedisRequestDesc =
  strategy :: STRATEGY
  redis_cmd :: bytes
  ssdb_cmd :: bytes
  reply_type :: REPLY

definition raw :: "STRATEGY \<Rightarrow> bytes \<Rightarrow> bytes \<Rightarrow> REPLY \<Rightarrow> RedisRequestDesc" where
  "raw st rc sc rt = \<lparr>strategy = st, redis_cmd = rc, ssdb_cmd = sc, reply_type = rt\<rparr>"

definition cmds_raw :: "RedisRequestDesc list" where
  "cmds_raw =
     [raw STRATEGY_PING ''ping'' ''ping'' REPLY_STATUS,
      raw STRATEGY_AUTO ''get'' ''get'' REPLY_BULK,
      raw STRATEGY_AUTO ''getset'' ''getset'' REPLY_BULK,
      raw STRATEGY_AUTO ''set'' ''set'' REPLY_STATUS,
      raw STRATEGY_AUTO ''setnx'' ''setnx'' REPLY_INT,
      raw STRATEGY_AUTO ''exists'' ''exists'' REPLY_INT,
      raw STRATEGY_AUTO ''incr'' ''incr'' REPLY_INT,
      raw STRATEGY_AUTO ''decr'' ''decr'' REPLY_INT,
      raw STRATEGY_AUTO ''ttl'' ''ttl'' REPLY_INT,
      raw STRATEGY_AUTO ''expire'' ''expire'' REPLY_INT,
      raw STRATEGY_AUTO ''getbit'' ''getbit'' REPLY_INT,
      raw STRATEGY_AUTO ''setbit'' ''setbit'' REPLY_INT,
      raw STRATEGY_AUTO ''strlen'' ''strlen'' REPLY_INT,
      raw STRATEGY_AUTO ''bitcount'' ''bitcount'' REPLY_INT,
      raw STRATEGY_AUTO ''substr'' ''getrange'' REPLY_BULK,
      raw STRATEGY_AUTO ''getrange'' ''getrange'' REPLY_BULK,
      raw STRATEGY_AUTO ''keys'' ''keys'' REPLY_MULTI_BULK,
      raw STRATEGY_AUTO ''hset'' ''hset'' REPLY_INT,
      raw STRATEGY_AUTO ''hget'' ''hget'' REPLY_BULK,
      raw STRATEGY_AUTO ''hexists'' ''hexists'' REPLY_INT,
      raw STRATEGY_AUTO ''del'' ''del'' REPLY_INT,
      raw STRATEGY_AUTO ''mset'' ''multi_set'' REPLY_STATUS,
      raw STRATEGY_AUTO ''incrby'' ''incr'' REPLY_INT,
      raw STRATEGY_AUTO ''decrby'' ''decr'' REPLY_INT,
      raw STRATEGY_AUTO ''hmset'' ''multi_hset'' REPLY_STATUS,
      raw STRATEGY_AUTO ''hdel'' ''multi_hdel'' REPLY_INT,
      raw STRATEGY_AUTO ''hmdel'' ''multi_hdel'' REPLY_INT,
      raw STRATEGY_AUTO ''hlen'' ''hsize'' REPLY_INT,
      raw STRATEGY_AUTO ''hincrby'' ''hincr'' REPLY_INT,
      raw STRATEGY_AUTO ''zcard'' ''zsize'' REPLY_INT,
      raw STRATEGY_AUTO ''zscore'' ''zget'' REPLY_BULK,
      raw STRATEGY_AUTO ''zrem'' ''multi_zdel'' REPLY_INT,
      raw STRATEGY_AUTO ''zrank'' ''zrank'' REPLY_INT,
      raw STRATEGY_AUTO ''zrevrank'' ''zrrank'' REPLY_INT,
      raw STRATEGY_AUTO ''zcount'' ''zcount'' REPLY_INT,
      raw STRATEGY_REMRANGEBYRANK ''zremrangebyrank'' ''zremrangebyrank'' REPLY_INT,
      raw STRATEGY_REMRANGEBYSCORE ''zremrangebyscore'' ''zremrangebyscore'' REPLY_INT,
      raw STRATEGY_MGET ''mget'' ''multi_get'' REPLY_MULTI_BULK,
      raw STRATEGY_HMGET ''hmget'' ''multi_hget'' REPLY_MULTI_BULK,
      raw STRATEGY_HGETALL ''hgetall'' ''hgetall'' REPLY_MULTI_BULK,
      raw STRATEGY_HKEYS ''hkeys'' ''hkeys'' REPLY_MULTI_BULK,
      raw STRATEGY_HVALS ''hvals'' ''hvals'' REPLY_MULTI_BULK,
      raw STRATEGY_SETEX ''setex'' ''setx'' REPLY_STATUS,
      raw STRATEGY_ZRANGE ''zrange'' ''zrange'' REPLY_MULTI_BULK,
      raw STRATEGY_ZREVRANGE ''zrevrange'' ''zrrange'' REPLY_MULTI_BULK,
      raw STRATEGY_ZADD ''zadd'' ''multi_zset'' REPLY_INT,
      raw STRATEGY_ZINCRBY ''zincrby'' ''zincr'' REPLY_BULK,
      raw STRATEGY_ZRANGEBYSCORE ''zrangebyscore'' ''zscan'' REPLY_MULTI_BULK,
      raw STRATEGY_ZREVRANGEBYSCORE ''zrevrangebyscore'' ''zrscan'' REPLY_MULTI_BULK,
      raw STRATEGY_AUTO ''lpush'' ''qpush_front'' REPLY_INT,
      raw STRATEGY_AUTO ''rpush'' ''qpush_back'' REPLY_INT,
      raw STRATEGY_AUTO ''lpop'' ''qpop_front'' REPLY_BULK,
      raw STRATEGY_AUTO ''rpop'' ''qpop_back'' REPLY_BULK,
      raw STRATEGY_AUTO ''llen'' ''qsize'' REPLY_INT,
      raw STRATEGY_AUTO ''lsize'' ''qsize'' REPLY_INT,
      raw STRATEGY_AUTO ''lindex'' ''qget'' REPLY_BULK,
      raw STRATEGY_AUTO ''lset'' ''qset'' REPLY_STATUS,
      raw STRATEGY_AUTO ''lrange'' ''qslice'' REPLY_MULTI_BULK]"

text \<open>The table is filled in order on first use, a later entry replacing an earlier one.\<close>

definition cmd_table :: "bytes \<rightharpoonup> RedisRequestDesc" where
  "cmd_table = fold (\<lambda>d t. t(redis_cmd d \<mapsto> d)) cmds_raw Map.empty"

record RedisLink =
  rl_cmd :: bytes
  rl_req_desc :: "RedisRequestDesc option"
  rl_recv_bytes :: "bytes list"
  rl_recv_string :: "bytes list"

definition RedisLink_new :: RedisLink where
  "RedisLink_new = \<lparr>rl_cmd = [], rl_req_desc = None, rl_recv_bytes = [], rl_recv_string = []\<rparr>"

section \<open>Conversion of requests\<close>

text \<open>
  Each function gives the strings pushed after the ssdb command name for one strategy;
  \<open>rb\<close> is \<open>recv_bytes\<close>, with the Redis command at position 0.
\<close>

definition convert_hkeys :: "bytes list \<Rightarrow> bytes list" where
  "convert_hkeys rb = (if length rb = 2 then [rb ! 1, [], [], ''2000000000''] else [])"

definition convert_setex :: "bytes list \<Rightarrow> bytes list" where
  "convert_setex rb = (if length rb = 4 then [rb ! 1, rb ! 3, rb ! 2] else [])"

fun zadd_pairs :: "(bytes \<Rightarrow> int option) \<Rightarrow> bytes list \<Rightarrow> bytes list option" where
  "zadd_pairs to_int64 (score # member # rest) = do {
     sc \<leftarrow> to_int64 score;
     ps \<leftarrow> zadd_pairs to_int64 rest;
     Some (member # str_int sc # ps) }"
| "zadd_pairs to_int64 _ = Some []"

definition convert_zadd :: "(bytes \<Rightarrow> int option) \<Rightarrow> bytes list \<Rightarrow> bytes list option" where
  "convert_zadd to_int64 rb =
     (if length rb \<ge> 2 then do { ps \<leftarrow> zadd_pairs to_int64 (drop 2 rb); Some (rb ! 1 # ps) }
      else Some [])"

definition convert_zremrange :: "bytes list \<Rightarrow> bytes list" where
  "convert_zremrange rb = (if length rb \<ge> 4 then [rb ! 1, rb ! 2, rb ! 3] else [])"

definition ck64 :: "int \<Rightarrow> int option" where
  "ck64 x = (if fits64 x then Some x else None)"

definition convert_zrange :: "STRATEGY \<Rightarrow> bytes list \<Rightarrow> bytes list option" where
  "convert_zrange st rb = do {
     range \<leftarrow> (if length rb \<ge> 4 then do {
                 (start, _) \<leftarrow> str_to_int64 0 (rb ! 2);
                 (stop, _) \<leftarrow> str_to_int64 0 (rb ! 3);
                 if (start \<ge> 0 \<and> stop \<ge> 0) \<or> stop = - 1 then do {
                   sz \<leftarrow> (if stop = - 1 then Some (- 1)
                           else if st = STRATEGY_REMRANGEBYSCORE then Some stop
                           else do { d \<leftarrow> ck64 (stop - start); ck64 (d + 1) });
                   Some [rb ! 1, rb ! 2, str_int sz] }
                 else Some [] }
               else Some []);
     Some (range @ (if length rb > 4 then [strtolower (rb ! 4)] else [])) }"

text \<open>The options after the score range: the loop state is (after\_limit, offset, count, withscores).\<close>

type_synonym score_opts = "bool \<times> bytes \<times> bytes \<times> bytes"

definition score_option :: "bytes \<Rightarrow> score_opts \<Rightarrow> score_opts" where
  "score_option s = (\<lambda>(after_limit, offset, count, withscores).
     let (after_limit, offset, count) =
           (if after_limit then if offset = [] then (True, s, count) else (False, offset, s)
            else (after_limit, offset, count));
         s = strtolower s
     in if s = ''withscores'' then (after_limit, offset, count, s)
        else if s = ''limit'' then (True, offset, count, withscores)
        else (after_limit, offset, count, withscores))"

text \<open>A bound with a parenthesis excludes its score: one is added or subtracted in \<open>int\<close>.\<close>

definition score_bound :: "int \<Rightarrow> bytes \<Rightarrow> bytes option" where
  "score_bound delta b =
     (if b = ''-inf'' \<or> b = ''+inf'' then Some []
      else if b ! 0 = CHR ''('' then do {
        (v, _) \<leftarrow> str_to_int 0 (drop 1 b);
        w \<leftarrow> ck32 (v + delta);
        Some (snprintf 32 (dec_int w)) }
      else Some b)"

definition convert_zrangebyscore :: "STRATEGY \<Rightarrow> bytes list \<Rightarrow> bytes list option" where
  "convert_zrangebyscore st rb =
     (let name = (if length rb \<ge> 4 then rb ! 1 else []);
          smin = (if length rb \<ge> 4 then rb ! 2 else []);
          smax = (if length rb \<ge> 4 then rb ! 3 else []);
          (after_limit, offset, count, withscores) =
            (if length rb \<ge> 4 then fold score_option (drop 4 rb) (False, [], [], []) else (False, [], [], []));
          delta = (if st = STRATEGY_ZRANGEBYSCORE then 1 else - 1)
      in if smin = [] \<or> smax = [] then Some []
         else do {
           lo \<leftarrow> score_bound delta smin;
           hi \<leftarrow> score_bound (- delta) smax;
           Some [name, [], lo, hi, if offset = [] then ''0'' else offset,
                 if count = [] then ''2000000000'' else count, withscores] })"

definition convert_args ::
  "(bytes \<Rightarrow> int option) \<Rightarrow> STRATEGY \<Rightarrow> bytes list \<Rightarrow> bytes list option" where
  "convert_args to_int64 st rb =
     (if st = STRATEGY_HKEYS \<or> st = STRATEGY_HVALS then Some (convert_hkeys rb)
      else if st = STRATEGY_SETEX then Some (convert_setex rb)
      else if st = STRATEGY_ZADD then convert_zadd to_int64 rb
      else if st = STRATEGY_ZINCRBY then Some (convert_setex rb)
      else if st = STRATEGY_REMRANGEBYRANK \<or> st = STRATEGY_REMRANGEBYSCORE then Some (convert_zremrange rb)
      else if st = STRATEGY_ZRANGE \<or> st = STRATEGY_ZREVRANGE then convert_zrange st rb
      else if st = STRATEGY_ZRANGEBYSCORE \<or> st = STRATEGY_ZREVRANGEBYSCORE
      then convert_zrangebyscore st rb
      else Some (drop 1 rb))"

definition convert_req :: "(bytes \<Rightarrow> int option) \<Rightarrow> RedisLink \<Rightarrow> RedisLink option" where
  "convert_req to_int64 rl =
     (case cmd_table (rl_cmd rl) of
        None \<Rightarrow> Some (rl\<lparr>rl_req_desc := None,
                        rl_recv_string := rl_recv_string rl @ rl_cmd rl # drop 1 (rl_recv_bytes rl)\<rparr>)
      | Some d \<Rightarrow> do {
          args \<leftarrow> convert_args to_int64 (strategy d) (rl_recv_bytes rl);
          Some (rl\<lparr>rl_req_desc := Some d,
                   rl_recv_string := rl_recv_string rl @ ssdb_cmd d # args\<rparr>) })"

section \<open>The parser\<close>

datatype parse_result = PError | PMore | PDone "bytes list" int

text \<open>The loop over the lines: \<open>m\<close> is the memory from \<open>ptr\<close>, \<open>sz\<close> what is left of the data.\<close>

lemma memchr_bound: "memchr c xs = Some i \<Longrightarrow> i < length xs"
proof -
  assume m: "memchr c xs = Some i"
  then have "c \<in> set xs" by (simp add: memchr_def split: if_splits)
  then obtain ys zs where xs: "xs = ys @ c # zs" "c \<notin> set ys" using split_list_first by metis
  then have "takeWhile (\<lambda>x. x \<noteq> c) xs = ys" by (auto intro: takeWhile_all)
  then show ?thesis using m xs(1) by (auto simp: memchr_def)
qed

function parse_lines :: "bytes \<Rightarrow> int \<Rightarrow> int \<Rightarrow> int \<Rightarrow> bytes list \<Rightarrow> parse_result option" where
  "parse_lines m sz parsed num_args acc =
     (if sz \<le> 0 then Some PMore
      else case memchr LF (take (nat sz) m) of
        None \<Rightarrow> Some PMore
      | Some i \<Rightarrow>
          (let adv = int i + 1; sz = sz - adv; parsed = parsed + adv
           in case strtol 0 (drop 1 m) of
                None \<Rightarrow> None
              | Some (v, _, _) \<Rightarrow>
                  (let len = i32 v; m = drop (nat adv) m
                   in if len < 0 then Some PError
                      else if num_args = 0
                      then if len \<le> 0 then Some PError else parse_lines m sz parsed len acc
                      else if len > sz - 1 then Some PMore
                      else let acc = acc @ [take (nat len) m];
                               m = drop (nat len + 1) m;
                               sz = sz - (len + 1);
                               parsed = parsed + (len + 1);
                               lf = sz > 0 \<and> m ! 0 = LF;
                               m = (if lf then drop 1 m else m);
                               sz = (if lf then sz - 1 else sz);
                               parsed = (if lf then parsed + 1 else parsed);
                               num_args = num_args - 1
                           in if num_args = 0 then Some (PDone acc parsed)
                              else parse_lines m sz parsed num_args acc)))"
  by pat_completeness auto
termination
  by (relation "measure (\<lambda>(m, sz, p, n, acc). nat sz)") (auto simp: Let_def)

declare parse_lines.simps [simp del]

text \<open>\<open>skip_newlines\<close>: the loop that both parsers run over leading empty lines.\<close>

definition skip_newlines :: "bytes \<Rightarrow> int \<Rightarrow> bytes \<times> int \<times> int" where
  "skip_newlines m sz =
     (let n = length (takeWhile (\<lambda>c. c = LF \<or> c = CR) (take (nat sz) m))
      in (drop n m, sz - int n, int n))"

definition b_mem :: "Buffer \<Rightarrow> bytes" where
  "b_mem b = drop (nat (b_data b)) (b_buf b)"

definition parse_req :: "RedisLink \<Rightarrow> Buffer \<Rightarrow> (int \<times> RedisLink \<times> Buffer) option" where
  "parse_req rl input =
     (let rl = rl\<lparr>rl_recv_bytes := []\<rparr>; (m, sz, parsed) = skip_newlines (b_mem input) (b_size input)
      in case m of
           [] \<Rightarrow> None
         | c # _ \<Rightarrow>
             if c \<noteq> CHR ''*'' then Some (- 1, rl, input)
             else do {
               r \<leftarrow> parse_lines m sz parsed 0 [];
               Some (case r of
                       PError \<Rightarrow> (- 1, rl, input)
                     | PMore \<Rightarrow> (0, rl, input)
                     | PDone args parsed \<Rightarrow> (1, rl\<lparr>rl_recv_bytes := args\<rparr>, b_decr parsed input)) })"

text \<open>
  Making room when a request is incomplete and the block is full, as both receivers do;
  \<^term>\<open>False\<close> when the block cannot grow.
\<close>

definition make_room :: "heap_env \<Rightarrow> Buffer \<Rightarrow> (bool \<times> Buffer) option" where
  "make_room env input =
     (if b_space input = 0
      then do { input \<leftarrow> b_nice input;
                if b_space input = 0
                then do { (r, input) \<leftarrow> b_grow env input; Some (r \<noteq> - 1, input) }
                else Some (True, input) }
      else Some (True, input))"

text \<open>\<open>recv_req\<close>: the request, no request yet (the empty list), or the null pointer.\<close>

definition redis_recv_req ::
  "heap_env \<Rightarrow> (bytes \<Rightarrow> int option) \<Rightarrow> RedisLink \<Rightarrow> Buffer \<Rightarrow>
   (bytes list option \<times> RedisLink \<times> Buffer) option" where
  "redis_recv_req env to_int64 rl input = do {
     (ret, rl, input) \<leftarrow> parse_req rl input;
     if ret = - 1 then Some (None, rl, input)
     else if rl_recv_bytes rl = [] then do {
       (ok, input) \<leftarrow> make_room env input;
       Some (if ok then Some [] else None, rl, input) }
     else do {
       rl \<leftarrow> convert_req to_int64
              (rl\<lparr>rl_cmd := strtolower (rl_recv_bytes rl ! 0), rl_recv_string := []\<rparr>);
       Some (Some (rl_recv_string rl), rl\<lparr>rl_recv_bytes := rl_recv_string rl\<rparr>, input) } }"

section \<open>Replies\<close>

abbreviation CRLF :: bytes where "CRLF \<equiv> [CR, LF]"

definition count_line :: "char \<Rightarrow> int \<Rightarrow> bytes" where
  "count_line c n = snprintf 32 ([c] @ dec_int n @ CRLF)"

definition bulk_pieces :: "bytes \<Rightarrow> bytes list" where
  "bulk_pieces val = [count_line CHR ''$'' (i32 (int (length val))), val, CRLF]"

definition nil_bulk :: bytes where
  "nil_bulk = ''$-1'' @ CRLF"

text \<open>
  The loop of multi\_get replies: the response lists key and value for the keys found, in the
  order of the request.  Reading a value past the end of the response is undefined.
\<close>

fun mget_loop :: "bytes list \<Rightarrow> bytes list \<Rightarrow> bytes list option" where
  "mget_loop [] resp = Some []"
| "mget_loop (k # ks) [] = do { ps \<leftarrow> mget_loop ks []; Some (nil_bulk # ps) }"
| "mget_loop (k # ks) (rk # resp) =
     (if k \<noteq> rk then do { ps \<leftarrow> mget_loop ks (rk # resp); Some (nil_bulk # ps) }
      else case resp of
             [] \<Rightarrow> None
           | val # resp' \<Rightarrow> do { ps \<leftarrow> mget_loop ks resp'; Some (bulk_pieces val @ ps) })"

fun multi_elements :: "bool \<Rightarrow> bytes list \<Rightarrow> bytes list" where
  "multi_elements withscores [] = []"
| "multi_elements withscores [val] = bulk_pieces val"
| "multi_elements withscores (val # val' # vals) =
     bulk_pieces val @ multi_elements withscores (if withscores then val' # vals else vals)"

text \<open>The pieces appended to the output, in order.\<close>

definition error_pieces :: "bytes list \<Rightarrow> bytes list" where
  "error_pieces resp =
     (if resp ! 0 = ''error'' \<or> resp ! 0 = ''fail'' \<or> resp ! 0 = ''client_error''
      then [''-ERR ''] @ (if length resp \<ge> 2 then [resp ! 1] else []) @ [CRLF]
      else if resp ! 0 = ''not_found'' then [nil_bulk]
      else if resp ! 0 = ''noauth''
      then [''-NOAUTH ''] @ (if length resp \<ge> 2 then [resp ! 1] else []) @ [CRLF]
      else [''-ERR server error'' @ CRLF])"

definition mget_pieces :: "STRATEGY \<Rightarrow> bytes list \<Rightarrow> bytes list \<Rightarrow> bytes list option" where
  "mget_pieces st recv_string resp =
     (if length resp mod 2 \<noteq> 1 then Some [''*0'']
      else let skip = (if st = STRATEGY_MGET then 1 else 2)
           in if length recv_string < skip then None
              else do { ps \<leftarrow> mget_loop (drop skip recv_string) (drop 1 resp);
                        Some (count_line CHR ''*'' (i32 (int (length recv_string)) - int skip) # ps) })"

definition multi_pieces :: "STRATEGY \<Rightarrow> bytes list \<Rightarrow> bytes list \<Rightarrow> bytes list option" where
  "multi_pieces st recv_string resp =
     (let n = i32 (int (length resp)) - 1 in
      if st = STRATEGY_ZRANGE \<or> st = STRATEGY_ZREVRANGE
      then let withscores = \<not> (length recv_string < 5 \<or> recv_string ! 4 \<noteq> ''withscores'')
           in Some (count_line CHR ''*'' (if withscores then n else n div 2) #
                    multi_elements withscores (drop 1 resp))
      else if st = STRATEGY_ZRANGEBYSCORE \<or> st = STRATEGY_ZREVRANGEBYSCORE
      then if recv_string = [] then None
           else let withscores = (last recv_string = ''withscores'')
                in Some (count_line CHR ''*'' (if withscores then n else n div 2) #
                         multi_elements withscores (drop 1 resp))
      else Some (count_line CHR ''*'' n # multi_elements True (drop 1 resp)))"

definition resp_pieces :: "RedisLink \<Rightarrow> bytes list \<Rightarrow> bytes list option" where
  "resp_pieces rl resp =
     (if resp = [] then Some []
      else if resp ! 0 \<noteq> ''ok'' then Some (error_pieces resp)
      else case rl_req_desc rl of
             None \<Rightarrow> Some (count_line CHR ''*'' (i32 (int (length resp)) - 1) #
                           concat (map bulk_pieces (drop 1 resp)))
           | Some d \<Rightarrow>
               if strategy d = STRATEGY_PING then Some [''+PONG'' @ CRLF]
               else if reply_type d = REPLY_STATUS then Some [''+OK'' @ CRLF]
               else if reply_type d = REPLY_BULK
               then Some (if length resp \<ge> 2 then bulk_pieces (resp ! 1) else [''$0'' @ CRLF])
               else if reply_type d = REPLY_INT
               then Some (if length resp \<ge> 2 then ['':'', resp ! 1, CRLF] else [''$0'' @ CRLF])
               else if strategy d = STRATEGY_MGET \<or> strategy d = STRATEGY_HMGET
               then mget_pieces (strategy d) (rl_recv_string rl) resp
               else if reply_type d = REPLY_MULTI_BULK
               then multi_pieces (strategy d) (rl_recv_string rl) resp
               else Some [''-ERR server error'' @ CRLF])"

definition send_resp :: "heap_env \<Rightarrow> RedisLink \<Rightarrow> bytes list \<Rightarrow> Buffer \<Rightarrow> Buffer option" where
  "send_resp env rl resp output = do {
     ps \<leftarrow> resp_pieces rl resp;
     push_all (b_append env) ps output }"

section \<open>Wire format of requests\<close>

definition bulk :: "bytes \<Rightarrow> bytes" where
  "bulk a = CHR ''$'' # dec_nat (length a) @ CRLF @ a @ CRLF"

definition resp_command :: "bytes list \<Rightarrow> bytes" where
  "resp_command args = CHR ''*'' # dec_nat (length args) @ CRLF @ concat (map bulk args)"

lemma memchr_append: "c \<notin> set ys \<Longrightarrow> memchr c (ys @ c # zs) = Some (length ys)"
proof -
  assume "c \<notin> set ys"
  then have "takeWhile (\<lambda>x. x \<noteq> c) (ys @ c # zs) = ys" by (intro takeWhile_all) auto
  then show ?thesis by (simp add: memchr_def)
qed

lemma dec_nat_no_newline: "LF \<notin> set (dec_nat n)" "CR \<notin> set (dec_nat n)"
  using dec_nat_digits [of LF n] dec_nat_digits [of CR n] by auto

text \<open>A length line in memory: its end, and the number \<open>strtol\<close> reads after the first byte.\<close>

lemma memchr_length_line:
  "c \<noteq> LF \<Longrightarrow> memchr LF (c # dec_nat n @ CR # LF # rest) = Some (length (dec_nat n) + 2)"
  using memchr_append [of LF "c # dec_nat n @ [CR]" rest] dec_nat_no_newline [of n] by simp

lemma strtol_length_line: "n < 2 ^ 31 \<Longrightarrow> strtol 0 (dec_nat n @ CR # rest) = Some (int n, length (dec_nat n), 0)"
  using strto_scan_dec [of CR n rest] by (simp add: strtol_def)

lemma memchr_take: "memchr c xs = Some i \<Longrightarrow> i < n \<Longrightarrow> memchr c (take n xs) = Some i"
proof -
  assume m: "memchr c xs = Some i" "i < n"
  then have "c \<in> set xs" by (simp add: memchr_def split: if_splits)
  then obtain ys zs where xs: "xs = ys @ c # zs" "c \<notin> set ys" using split_list_first by metis
  then have i: "i = length ys" using m memchr_append [of c ys zs] by simp
  then obtain k where "n = length ys + Suc k" using m(2) by (metis add_Suc_right less_iff_Suc_add)
  then have "take n xs = ys @ c # take k zs" using xs(1) by simp
  then show ?thesis using memchr_append [OF xs(2)] i by simp
qed

text \<open>One argument: its length line is complete, what follows it is \<open>t\<close>.\<close>

lemma parse_argument:
  assumes "n < 2 ^ 31" "num \<noteq> 0" "h = int (length (dec_nat n)) + 3" "h \<le> sz"
  shows "parse_lines (CHR ''$'' # dec_nat n @ CR # LF # t) sz parsed num acc =
    (if int n > sz - h - 1 then Some PMore
     else let t' = drop (n + 1) t; sz' = sz - h - int n - 1; parsed' = parsed + h + int n + 1;
              lf = (sz' > 0 \<and> t' ! 0 = LF)
          in if num = 1 then Some (PDone (acc @ [take n t]) (if lf then parsed' + 1 else parsed'))
             else parse_lines (if lf then drop 1 t' else t') (if lf then sz' - 1 else sz')
                    (if lf then parsed' + 1 else parsed') (num - 1) (acc @ [take n t]))"
proof -
  define m where "m = CHR ''$'' # dec_nat n @ CR # LF # t"
  define d where "d = length (dec_nat n)"
  have h: "h = int d + 3" by (simp add: d_def assms(3))
  have "memchr LF m = Some (d + 2)" by (simp add: m_def d_def memchr_length_line)
  then have lf: "memchr LF (take (nat sz) m) = Some (d + 2)"
    using assms(4) h by (intro memchr_take) auto
  have st: "strtol 0 (drop 1 m) = Some (int n, d, 0)"
    using assms(1) by (simp add: m_def d_def strtol_length_line)
  have body: "drop (d + 3) m = t" by (simp add: m_def d_def numeral_3_eq_3)
  have i: "i32 (int n) = int n" using assms(1) by (simp add: fits32_def)
  have "sz > 0" using assms(4) h by simp
  then show ?thesis
    unfolding m_def [symmetric] using assms(2) lf st
    by (subst parse_lines.simps) (simp add: Let_def i body h nat_add_distrib algebra_simps)
qed

lemma parse_bulk:
  assumes "length a < 2 ^ 31" "num \<noteq> 0" "int (length (bulk a)) \<le> sz"
  shows "parse_lines (bulk a @ rest) sz parsed num acc =
    (if num = 1 then Some (PDone (acc @ [a]) (parsed + int (length (bulk a))))
     else parse_lines rest (sz - int (length (bulk a))) (parsed + int (length (bulk a))) (num - 1) (acc @ [a]))"
proof -
  have "bulk a @ rest = CHR ''$'' # dec_nat (length a) @ CR # LF # a @ CR # LF # rest"
    by (simp add: bulk_def)
  then show ?thesis
    using parse_argument [OF assms(1,2) refl, of sz "a @ CR # LF # rest" parsed acc] assms(3)
    by (simp add: bulk_def Let_def algebra_simps)
qed

lemma parse_bulks:
  "args \<noteq> [] \<Longrightarrow> (\<And>a. a \<in> set args \<Longrightarrow> length a < 2 ^ 31) \<Longrightarrow>
   int (length (concat (map bulk args))) \<le> sz \<Longrightarrow>
   parse_lines (concat (map bulk args) @ rest) sz parsed (int (length args)) acc =
     Some (PDone (acc @ args) (parsed + int (length (concat (map bulk args)))))"
proof (induction args arbitrary: sz parsed acc)
  case (Cons a as)
  have "parse_lines (concat (map bulk (a # as)) @ rest) sz parsed (int (length (a # as))) acc =
      (if int (length (a # as)) = 1 then Some (PDone (acc @ [a]) (parsed + int (length (bulk a))))
       else parse_lines (concat (map bulk as) @ rest) (sz - int (length (bulk a)))
              (parsed + int (length (bulk a))) (int (length (a # as)) - 1) (acc @ [a]))"
    using parse_bulk [of a "int (length (a # as))" sz "concat (map bulk as) @ rest" parsed acc] Cons.prems
    by simp
  then show ?case using Cons.IH [of "sz - int (length (bulk a))"] Cons.prems by (cases "as = []") auto
qed simp

text \<open>A request cut anywhere before its last two bytes is recognised as incomplete.\<close>

lemma parse_cut_header:
  assumes "n < d + 3" "d = length (dec_nat (length a))" "m = take n (bulk a @ y) @ junk" "n \<le> length (bulk a @ y)"
  shows "parse_lines m (int n) parsed num acc = Some PMore"
proof -
  define h where "h = CHR ''$'' # dec_nat (length a) @ [CR]"
  have n: "n \<le> length h" using assms(1,2) by (simp add: h_def)
  have "take n (bulk a @ y) = take n (h @ LF # a @ CRLF @ y)" by (simp add: h_def bulk_def)
  also have "\<dots> = take n h" using n by simp
  finally have "take (nat (int n)) m = take n h"
    using n assms(4) unfolding assms(3) by (simp del: take_append) (simp add: min_def)
  moreover have "LF \<notin> set (take n h)"
    using dec_nat_no_newline by (auto simp: h_def dest: in_set_takeD)
  ultimately have "memchr LF (take (nat (int n)) m) = None" by (simp add: memchr_def)
  then show ?thesis by (subst parse_lines.simps) simp
qed

lemma parse_cut:
  "(\<And>a. a \<in> set args \<Longrightarrow> length a < 2 ^ 31) \<Longrightarrow> n + 1 < length (concat (map bulk args)) \<Longrightarrow>
   parse_lines (take n (concat (map bulk args)) @ junk) (int n) parsed (int (length args)) acc = Some PMore"
proof (induction args arbitrary: n parsed acc)
  case (Cons a as)
  define d where "d = length (dec_nat (length a))"
  define y where "y = concat (map bulk as)"
  have x: "concat (map bulk (a # as)) = bulk a @ y" by (simp add: y_def)
  show ?case
  proof (cases "n < d + 3")
    case True
    then show ?thesis using Cons.prems(2) unfolding x by (intro parse_cut_header [OF _ d_def refl]) auto
  next
    case False
    then obtain k where n: "n = (d + 3) + k" using le_Suc_ex not_less by metis
    define t where "t = take k (a @ CR # LF # y) @ junk"
    have "bulk a @ y = (CHR ''$'' # dec_nat (length a) @ CRLF) @ a @ CR # LF # y"
      by (simp add: bulk_def)
    moreover have "length (CHR ''$'' # dec_nat (length a) @ CRLF) = d + 3" by (simp add: d_def)
    ultimately have "take n (bulk a @ y) =
        (CHR ''$'' # dec_nat (length a) @ CRLF) @ take k (a @ CR # LF # y)"
      unfolding n by (metis take_past)
    then have m: "take n (concat (map bulk (a # as))) @ junk = CHR ''$'' # dec_nat (length a) @ CR # LF # t"
      by (simp only: x t_def append_assoc append_Cons append_Nil)
    have h: "int d + 3 = int (length (dec_nat (length a))) + 3" "int d + 3 \<le> int n"
      by (simp_all add: d_def n)
    note step = parse_argument [OF Cons.prems(1) [of a] _ h, of "int (length (a # as))" t parsed acc]
    show ?thesis
    proof (cases "k \<le> length a")
      case True
      then show ?thesis unfolding m using step by (simp add: n)
    next
      case long: False
      then obtain j where k: "k = length a + 1 + j" using le_Suc_ex [of "length a + 1" k] by auto
      have t: "drop (length a + 1) t = take j (LF # y) @ junk" by (simp add: t_def k)
      have "n + 1 < length (bulk a) + length y" using Cons.prems(2) unfolding x by simp
      then have j: "j < length y" by (simp add: n k bulk_def d_def)
      then have "as \<noteq> []" by (auto simp: y_def)
      moreover have "parse_lines z 0 p q acc' = Some PMore" for z p q acc'
        by (subst parse_lines.simps) simp
      ultimately show ?thesis
        unfolding m using step t Cons.IH [of "j - 1"] Cons.prems(1) j
        by (cases j) (simp_all add: n k Let_def y_def)
    qed
  qed
qed simp

lemma parse_count:
  assumes "0 < n" "n < 2 ^ 31" "h = int (length (dec_nat n)) + 3" "h \<le> sz"
  shows "parse_lines (CHR ''*'' # dec_nat n @ CR # LF # t) sz parsed 0 acc =
         parse_lines t (sz - h) (parsed + h) (int n) acc"
proof -
  define m where "m = CHR ''*'' # dec_nat n @ CR # LF # t"
  define d where "d = length (dec_nat n)"
  have h: "h = int d + 3" by (simp add: d_def assms(3))
  have "memchr LF m = Some (d + 2)" by (simp add: m_def d_def memchr_length_line)
  then have lf: "memchr LF (take (nat sz) m) = Some (d + 2)"
    using assms(4) h by (intro memchr_take) auto
  have st: "strtol 0 (drop 1 m) = Some (int n, d, 0)"
    using assms(2) by (simp add: m_def d_def strtol_length_line)
  have body: "drop (d + 3) m = t" by (simp add: m_def d_def numeral_3_eq_3)
  have i: "i32 (int n) = int n" using assms(2) by (simp add: fits32_def)
  have "sz > 0" using assms(4) h by simp
  then show ?thesis
    unfolding m_def [symmetric] using assms(1) lf st
    by (subst parse_lines.simps) (simp add: Let_def i body h nat_add_distrib algebra_simps)
qed

lemma parse_command:
  assumes "args \<noteq> []" "length args < 2 ^ 31" "\<And>a. a \<in> set args \<Longrightarrow> length a < 2 ^ 31"
    "int (length (resp_command args)) \<le> sz"
  shows "parse_lines (resp_command args @ rest) sz parsed 0 [] =
    Some (PDone args (parsed + int (length (resp_command args))))"
proof -
  define h where "h = int (length (dec_nat (length args))) + 3"
  have l: "int (length (resp_command args)) = h + int (length (concat (map bulk args)))"
    by (simp add: resp_command_def h_def)
  have "parse_lines (resp_command args @ rest) sz parsed 0 [] =
      parse_lines (concat (map bulk args) @ rest) (sz - h) (parsed + h) (int (length args)) []"
    using parse_count [of "length args" h sz "concat (map bulk args) @ rest" parsed "[]"] assms(1,2,4) l
    by (simp add: resp_command_def h_def)
  then show ?thesis using parse_bulks [OF assms(1,3), of "sz - h" rest "parsed + h" "[]"] assms(4) l by simp
qed

lemma parse_command_cut:
  assumes "args \<noteq> []" "length args < 2 ^ 31" "\<And>a. a \<in> set args \<Longrightarrow> length a < 2 ^ 31"
    "n + 1 < length (resp_command args)"
  shows "parse_lines (take n (resp_command args) @ junk) (int n) parsed 0 [] = Some PMore"
proof -
  define d where "d = length (dec_nat (length args))"
  define y where "y = concat (map bulk args)"
  define h where "h = CHR ''*'' # dec_nat (length args) @ [CR]"
  have c: "resp_command args = h @ LF # y" "length h = d + 2"
    by (simp_all add: resp_command_def y_def h_def d_def)
  show ?thesis
  proof (cases "n < d + 3")
    case True
    then have "take (nat (int n)) (take n (resp_command args) @ junk) = take n h"
      using c by (simp add: min_def)
    moreover have "LF \<notin> set (take n h)"
      using dec_nat_no_newline by (auto simp: h_def dest: in_set_takeD)
    ultimately have "memchr LF (take (nat (int n)) (take n (resp_command args) @ junk)) = None"
      by (simp add: memchr_def)
    then show ?thesis by (subst parse_lines.simps) simp
  next
    case False
    then obtain k where n: "n = (d + 3) + k" using le_Suc_ex not_less by metis
    have "take n (resp_command args) = (h @ [LF]) @ take k y"
      unfolding n by (rule trans [OF _ take_past]) (simp_all add: c)
    then have m: "take n (resp_command args) @ junk =
        CHR ''*'' # dec_nat (length args) @ CR # LF # take k y @ junk"
      by (simp add: h_def)
    have "k + 1 < length y" using assms(4) by (simp add: n c)
    then show ?thesis
      unfolding m
      using parse_count [of "length args" "int d + 3" "int n" "take k y @ junk" parsed "[]"]
        parse_cut [of args k junk, OF assms(3)] assms(1,2)
      by (simp add: n d_def y_def)
  qed
qed

lemma resp_command_small:
  assumes "length (resp_command args) < N"
  shows "length args < N" "a \<in> set args \<Longrightarrow> length a < N"
proof -
  have "length args \<le> length (concat (map bulk args))"
    by (induction args) (auto simp: bulk_def)
  then show "length args < N" using assms by (simp add: resp_command_def)
  show "length a < N" if "a \<in> set args"
  proof -
    have "length (bulk a) \<le> sum_list (map (length \<circ> bulk) args)"
      using that by (intro member_le_sum_list) auto
    then show ?thesis using assms by (simp add: resp_command_def bulk_def length_concat comp_def)
  qed
qed

lemma b_mem_view: "buffer_wf b \<Longrightarrow> \<exists>junk. b_mem b = b_view b @ junk"
  unfolding b_mem_def b_view_def by (metis append_take_drop_id)

lemma skip_newlines_none:
  "c \<noteq> LF \<Longrightarrow> c \<noteq> CR \<Longrightarrow> skip_newlines (c # m) sz = (c # m, sz, 0)"
  by (cases "nat sz") (simp_all add: skip_newlines_def)

lemma make_room_spec:
  assumes "buffer_wf b" "make_room env b = Some (ok, b')"
  shows "buffer_wf b' \<and> b_view b' = b_view b"
proof -
  obtain b1 where b1: "b_nice b = Some b1" "buffer_wf b1" "b_view b1 = b_view b"
    using b_nice_spec [OF assms(1)] by metis
  then show ?thesis
    using assms b_grow_spec [OF b1(2)]
    by (auto simp: make_room_def bind_eq_Some_conv split: if_splits)
qed

lemma table_other:
  "k \<notin> redis_cmd ` set ds \<Longrightarrow> fold (\<lambda>d t. t(redis_cmd d \<mapsto> d)) ds t k = t k"
  by (induction ds arbitrary: t) auto

lemma table_lookup:
  "distinct (map redis_cmd ds) \<Longrightarrow> d \<in> set ds \<Longrightarrow>
   fold (\<lambda>d t. t(redis_cmd d \<mapsto> d)) ds t (redis_cmd d) = Some d"
  by (induction ds arbitrary: t) (auto simp: table_other)

section \<open>Properties\<close>

text \<open>
  C13. A complete Redis request in the input buffer is parsed into exactly its arguments,
  whatever bytes they contain and whatever follows; the request is consumed and what follows
  is left.
\<close>

theorem redis_request_parsed:
  assumes "buffer_wf b" "b_view b = resp_command args @ rest" "args \<noteq> []"
  shows "\<exists>b'. parse_req rl b = Some (1, rl\<lparr>rl_recv_bytes := args\<rparr>, b') \<and> buffer_wf b' \<and> b_view b' = rest"
proof -
  have sz: "b_size b = int (length (resp_command args) + length rest)"
    using length_b_view [OF assms(1)] assms(1,2) by (simp add: buffer_wf_def)
  have small: "length (resp_command args) < 2 ^ 31" using sz assms(1) by (simp add: buffer_wf_def)
  note n = resp_command_small(1) [OF small] and al = resp_command_small(2) [OF small]
  obtain junk where m: "b_mem b = resp_command args @ rest @ junk"
    using b_mem_view [OF assms(1)] assms(2) by auto
  have "skip_newlines (b_mem b) (b_size b) = (b_mem b, b_size b, 0)"
    unfolding m by (simp add: resp_command_def skip_newlines_none)
  moreover obtain c where "b_mem b = CHR ''*'' # c" by (simp add: m resp_command_def)
  moreover have "parse_lines (b_mem b) (b_size b) 0 0 [] = Some (PDone args (int (length (resp_command args))))"
    using parse_command [OF assms(3) n al, of "b_size b" "rest @ junk" 0] sz by (simp add: m)
  ultimately have "parse_req rl b = Some (1, rl\<lparr>rl_recv_bytes := args\<rparr>, b_decr (int (length (resp_command args))) b)"
    by (simp add: parse_req_def)
  then show ?thesis
    using b_decr_spec [OF assms(1), of "int (length (resp_command args))"] sz assms(2) by simp
qed

theorem redis_request_parsed_witness:
  "\<exists>b'. parse_req RedisLink_new
      \<lparr>b_buf = resp_command [''get'', ''a''], b_data = 0, b_size = 20, b_total = 20\<rparr>
      = Some (1, RedisLink_new\<lparr>rl_recv_bytes := [''get'', ''a'']\<rparr>, b') \<and> b_view b' = []"
  using redis_request_parsed
    [of "\<lparr>b_buf = resp_command [''get'', ''a''], b_data = 0, b_size = 20, b_total = 20\<rparr>" "[''get'', ''a'']" "[]"
      RedisLink_new]
  by (simp add: buffer_wf_def b_view_def resp_command_def bulk_def dec_nat.simps) blast

text \<open>
  C14. A request of which any part short of its last two bytes has arrived is reported as
  incomplete: the parser returns 0, does not consume anything and keeps no partial arguments,
  whatever stale bytes the block holds after the data.
\<close>

theorem redis_partial_request_waits:
  assumes "buffer_wf b" "b_view b = take n (resp_command args)" "args \<noteq> []"
    "1 \<le> n" "n + 1 < length (resp_command args)" "length (resp_command args) < 2 ^ 31"
  shows "parse_req rl b = Some (0, rl\<lparr>rl_recv_bytes := []\<rparr>, b)"
proof -
  have sz: "b_size b = int n"
    using length_b_view [OF assms(1)] assms(1,2,5) by (simp add: buffer_wf_def)
  note l = resp_command_small(1) [OF assms(6)] and al = resp_command_small(2) [OF assms(6)]
  obtain junk where m: "b_mem b = take n (resp_command args) @ junk"
    using b_mem_view [OF assms(1)] assms(2) by auto
  obtain k where "n = Suc k" using assms(4) by (cases n) auto
  then obtain c where c: "b_mem b = CHR ''*'' # c" by (simp add: m resp_command_def)
  then have "skip_newlines (b_mem b) (b_size b) = (b_mem b, b_size b, 0)"
    by (simp add: skip_newlines_none)
  then show ?thesis
    using c parse_command_cut [OF assms(3) l al assms(5), of junk 0] sz
    by (simp add: parse_req_def m [symmetric])
qed

theorem redis_partial_request_waits_witness:
  "parse_req RedisLink_new \<lparr>b_buf = take 9 (resp_command [''get'', ''a'']), b_data = 0, b_size = 9, b_total = 9\<rparr>
     = Some (0, RedisLink_new\<lparr>rl_recv_bytes := []\<rparr>,
             \<lparr>b_buf = take 9 (resp_command [''get'', ''a'']), b_data = 0, b_size = 9, b_total = 9\<rparr>)"
  by (rule redis_partial_request_waits [where n = 9 and args = "[''get'', ''a'']"])
    (simp_all add: buffer_wf_def b_view_def resp_command_def bulk_def dec_nat.simps)

text \<open>
  The command table has one entry per Redis command: looking up the name of any entry of
  the list gives that entry.
\<close>

lemma command_table_complete:
  "list_all (\<lambda>d. cmd_table (redis_cmd d) = Some d) cmds_raw"
proof -
  have "distinct (map redis_cmd cmds_raw)" by code_simp
  then show ?thesis by (simp add: list_all_iff cmd_table_def table_lookup)
qed

text \<open>
  A request is converted by its command name: an unknown command is passed on with its
  arguments unchanged, a command without a special strategy gets its ssdb name and keeps its
  arguments, \<open>setex\<close> swaps time and value, and the result is what the receiver returns.
\<close>

theorem convert_request_spec:
  assumes "rl_recv_string rl = []"
  shows "(cmd_table (rl_cmd rl) = None \<longrightarrow>
            convert_req f rl = Some (rl\<lparr>rl_req_desc := None,
              rl_recv_string := rl_cmd rl # tl (rl_recv_bytes rl)\<rparr>)) \<and>
         (\<forall>d. cmd_table (rl_cmd rl) = Some d \<and> strategy d = STRATEGY_AUTO \<longrightarrow>
            convert_req f rl = Some (rl\<lparr>rl_req_desc := Some d,
              rl_recv_string := ssdb_cmd d # tl (rl_recv_bytes rl)\<rparr>)) \<and>
         (rl_cmd rl = ''setex'' \<and> rl_recv_bytes rl = [c, k, t, v] \<longrightarrow>
            map_option rl_recv_string (convert_req f rl) = Some [''setx'', k, v, t])"
proof -
  have "cmd_table ''setex'' = Some (raw STRATEGY_SETEX ''setex'' ''setx'' REPLY_STATUS)"
    by (simp add: cmd_table_def cmds_raw_def raw_def)
  then show ?thesis
    using assms by (auto simp: convert_req_def convert_args_def convert_setex_def raw_def drop_Suc
        numeral_2_eq_2 numeral_3_eq_3)
qed

end
