(* ===== verification/Proc_Map.thy ===== *)
theory Proc_Map
  imports Bytes_Buffer Response
begin

text \<open>
  Model of src/ssdb/src/net/proc.h and proc.cpp: commands, their flags, and the table from
  command names to handlers.  The hash table is keyed by \<open>Bytes\<close> with the equality
  \<open>BytesEqual\<close>; the model is the map it represents, and the hash is shown to respect that
  equality.  A handler is a function of the server state, the request and the response so far.
\<close>

section \<open>Commands\<close>

type_synonym 'srv proc_t = "'srv \<Rightarrow> bytes list \<Rightarrow> response \<Rightarrow> (int \<times> 'srv \<times> response) option"

definition PROC_OK :: int where "PROC_OK = 0"
definition PROC_ERROR :: int where "PROC_ERROR = - 1"
definition PROC_THREAD :: int where "PROC_THREAD = 1"
definition PROC_BACKEND :: int where "PROC_BACKEND = 100"

definition FLAG_READ :: "32 word" where "FLAG_READ = push_bit 0 1"
definition FLAG_WRITE :: "32 word" where "FLAG_WRITE = push_bit 1 1"
definition FLAG_BACKEND :: "32 word" where "FLAG_BACKEND = push_bit 2 1"
definition FLAG_THREAD :: "32 word" where "FLAG_THREAD = push_bit 3 1"

record 'srv Command =
  c_name :: bytes
  c_flags :: "32 word"
  c_proc :: "'srv proc_t option"
  c_calls :: "64 word"

definition Command_new :: "'srv Command" where
  "Command_new = \<lparr>c_name = [], c_flags = 0, c_proc = None, c_calls = 0\<rparr>"

section \<open>Hash and equality of keys\<close>

definition BytesEqual :: "bytes \<Rightarrow> bytes \<Rightarrow> bool" where
  "BytesEqual s1 s2 \<longleftrightarrow> bytes_compare s1 s2 = 0"

definition BytesHash :: "bytes \<Rightarrow> 64 word" where
  "BytesHash s1 = fold (\<lambda>c h. 5 * h + word_of_int (schar c)) s1 0"

section \<open>The table\<close>

type_synonym 'srv ProcMap = "bytes \<rightharpoonup> 'srv Command"

definition get_proc :: "'srv ProcMap \<Rightarrow> bytes \<Rightarrow> 'srv Command option" where
  "get_proc pm str = pm str"

unbundle bit_operations_syntax

definition add_flag :: "char \<Rightarrow> 32 word \<Rightarrow> 32 word" where
  "add_flag p flags =
     (if p = CHR ''r'' then flags OR FLAG_READ
      else if p = CHR ''w'' then (flags OR FLAG_WRITE) OR FLAG_THREAD
      else if p = CHR ''b'' then flags OR FLAG_BACKEND
      else if p = CHR ''t'' then flags OR FLAG_THREAD
      else flags)"

definition set_proc :: "bytes \<Rightarrow> bytes \<Rightarrow> 'srv proc_t \<Rightarrow> 'srv ProcMap \<Rightarrow> 'srv ProcMap" where
  "set_proc c sflags p pm =
     (let cmd = (case get_proc pm c of None \<Rightarrow> Command_new\<lparr>c_name := c\<rparr> | Some cmd \<Rightarrow> cmd);
          cmd = cmd\<lparr>c_proc := Some p, c_flags := fold add_flag sflags 0\<rparr>
      in pm(c \<mapsto> cmd))"

definition set_proc_default :: "bytes \<Rightarrow> 'srv proc_t \<Rightarrow> 'srv ProcMap \<Rightarrow> 'srv ProcMap" where
  "set_proc_default c p pm = set_proc c ''t'' p pm"

section \<open>Lemmas\<close>

lemma BytesEqual_iff: "BytesEqual x y \<longleftrightarrow> x = y"
  by (simp add: BytesEqual_def bytes_compare_zero)

lemma get_set_proc:
  "get_proc (set_proc c f p pm) k =
     (if k = c then Some ((case pm c of None \<Rightarrow> Command_new\<lparr>c_name := c\<rparr> | Some cmd \<Rightarrow> cmd)
                          \<lparr>c_proc := Some p, c_flags := fold add_flag f 0\<rparr>)
      else get_proc pm k)"
  by (simp add: set_proc_def get_proc_def Let_def)

text \<open>Flags only accumulate, so a flag given by a letter is never lost.\<close>

definition has_flag :: "32 word \<Rightarrow> 32 word \<Rightarrow> bool" where
  "has_flag fl flags \<longleftrightarrow> flags AND fl = fl"

lemma has_flag_or: "has_flag fl flags \<Longrightarrow> has_flag fl (flags OR x)"
  by (simp add: has_flag_def bit_eq_iff bit_and_iff bit_or_iff) blast

lemma has_flag_or_self: "has_flag fl (flags OR fl)"
  by (simp add: has_flag_def bit_eq_iff bit_and_iff bit_or_iff)

lemma has_flag_add: "has_flag fl flags \<Longrightarrow> has_flag fl (add_flag p flags)"
  by (simp add: add_flag_def has_flag_or)

lemma has_flag_fold: "has_flag fl flags \<Longrightarrow> has_flag fl (fold add_flag ps flags)"
  by (induction ps arbitrary: flags) (simp_all add: has_flag_add)

lemma has_flag_letter:
  assumes "p \<in> set ps" "\<And>flags. has_flag fl (add_flag p flags)"
  shows "has_flag fl (fold add_flag ps flags)"
  using assms by (induction ps arbitrary: flags) (auto intro: has_flag_fold)

section \<open>Properties\<close>

text \<open>
  The command table: after registering a handler under a name, looking the name up gives
  that handler, and every other name gives what it gave before; names are compared as byte
  strings, and equal names have equal hashes.
\<close>

lemma proc_map_lookup:
  "map_option c_proc (get_proc (set_proc c f p pm) k) =
     (if BytesEqual k c then Some (Some p) else map_option c_proc (get_proc pm k)) \<and>
   (BytesEqual k c \<longrightarrow> BytesHash k = BytesHash c)"
  by (simp add: get_set_proc BytesEqual_iff)

text \<open>
  A command registered as writing is always a single-thread command: the letter \<open>w\<close> sets
  both the write and the thread flag, whatever other letters the flags contain.
\<close>

theorem write_implies_thread:
  assumes "CHR ''w'' \<in> set f" "get_proc (set_proc c f p pm) c = Some cmd"
  shows "has_flag FLAG_WRITE (c_flags cmd) \<and> has_flag FLAG_THREAD (c_flags cmd)"
proof -
  have "has_flag FLAG_THREAD (add_flag CHR ''w'' fl)" "has_flag FLAG_WRITE (add_flag CHR ''w'' fl)" for fl
    by (simp_all add: add_flag_def has_flag_or_self has_flag_or)
  then show ?thesis
    using assms has_flag_letter [OF assms(1)] by (auto simp: get_set_proc)
qed

end
