(* ===== verification/Net_Link.thy ===== *)
theory Net_Link
  imports Redis_Link Proc_Map
begin

text \<open>
  Model of src/ssdb/src/net/link.h and link.cpp and of src/ssdb/src/net/server.h and
  server.cpp: a connection with its input buffer, the parser of ssdb packets, the dispatch of
  requests to handlers, and the senders.  Bytes handed to \<open>uv_write\<close> are appended to the
  list \<open>lk_out\<close>; the event loop calls \<open>onRead\<close> with each block received.  Of libuv the
  results of the calls that can fail are parameters.
\<close>

section \<open>Links\<close>

definition INIT_BUFFER_SIZE :: int where "INIT_BUFFER_SIZE = 1024"
definition MAX_PACKET_SIZE :: int where "MAX_PACKET_SIZE = 128 * 1024 * 1024"

record Link =
  lk_input :: Buffer
  lk_redis :: RedisLink
  lk_recv_data :: "bytes list"
  lk_out :: "bytes list"

definition Link_new :: "heap_env \<Rightarrow> Link" where
  "Link_new env =
     \<lparr>lk_input = Buffer_new env INIT_BUFFER_SIZE, lk_redis = RedisLink_new, lk_recv_data = [], lk_out = []\<rparr>"

definition copy2Buffer :: "heap_env \<Rightarrow> bytes \<Rightarrow> Link \<Rightarrow> Link option" where
  "copy2Buffer env data link = do {
     (r, input) \<leftarrow> b_append env data (lk_input link);
     Some (link\<lparr>lk_input := input\<rparr>) }"

section \<open>The packet parser\<close>

datatype packet_result = LNull | LPacket "bytes list" int | LMore

text \<open>
  The loop over the blocks of a packet: \<open>m\<close> is the memory from \<open>head\<close>, \<open>sz\<close> what is left of
  the data.  \<open>head_len + body_len\<close> is computed in \<open>int\<close>.
\<close>

function recv_blocks :: "bytes \<Rightarrow> int \<Rightarrow> int \<Rightarrow> bytes list \<Rightarrow> packet_result option" where
  "recv_blocks m sz parsed acc =
     (if sz \<le> 0 then Some LMore
      else case memchr LF (take (nat sz) m) of
        None \<Rightarrow> Some LMore
      | Some i \<Rightarrow>
          (let head_len = int i + 1
           in if head_len = 1 \<or> (head_len = 2 \<and> m ! 0 = CR) then Some (LPacket acc (parsed + head_len))
              else if \<not> isdigit (m ! 0) then Some LNull
              else if head_len > 20 - 1 then Some LNull
              else case atoi (take i m @ [NUL]) of
                None \<Rightarrow> None
              | Some body_len \<Rightarrow>
                  if body_len < 0 then Some LNull
                  else case ck32 (head_len + body_len) of
                    None \<Rightarrow> None
                  | Some n \<Rightarrow>
                      (let sz = sz - n
                       in if sz < 0 then Some LMore
                          else let acc = acc @ [take (nat body_len) (drop (nat head_len) m)];
                                   m = drop (nat n) m;
                                   parsed = parsed + n;
                                   k = (if sz \<ge> 1 \<and> m ! 0 = LF then 1
                                        else if sz \<ge> 2 \<and> m ! 0 = CR \<and> m ! 1 = LF then 2 else 0 :: nat)
                               in if k = 0 then Some (if sz \<ge> 2 then LNull else LMore)
                                  else if parsed + int k > MAX_PACKET_SIZE then Some LNull
                                  else recv_blocks (drop k m) (sz - int k) (parsed + int k) acc)))"
  by pat_completeness auto
termination
  by (relation "measure (\<lambda>(m, sz, p, acc). nat sz)")
    (auto simp: Let_def ck32_def split: if_splits)

declare recv_blocks.simps [simp del]

text \<open>
  \<open>recv_req\<close>: \<^term>\<open>None\<close> inside the result is the null pointer (a protocol error), the empty
  list means that more data is needed.
\<close>

definition link_recv_req ::
  "heap_env \<Rightarrow> (bytes \<Rightarrow> int option) \<Rightarrow> Link \<Rightarrow> (bytes list option \<times> Link) option" where
  "link_recv_req env to_int64 link =
     (let link = link\<lparr>lk_recv_data := []\<rparr>; input = lk_input link
      in if b_empty input then Some (Some [], link)
         else let (m, sz, parsed) = skip_newlines (b_mem input) (b_size input)
              in case m of
                   [] \<Rightarrow> None
                 | c # _ \<Rightarrow>
                     if c = CHR ''*'' then do {
                       (ret, rl, input) \<leftarrow> redis_recv_req env to_int64 (lk_redis link) input;
                       let link = link\<lparr>lk_redis := rl, lk_input := input\<rparr>;
                       Some (case ret of
                               None \<Rightarrow> (None, link)
                             | Some req \<Rightarrow> (Some req, link\<lparr>lk_recv_data := req\<rparr>)) }
                     else do {
                       r \<leftarrow> recv_blocks m sz parsed [];
                       case r of
                         LNull \<Rightarrow> Some (None, link)
                       | LPacket req parsed \<Rightarrow>
                           Some (Some req, link\<lparr>lk_recv_data := req, lk_input := b_decr parsed input\<rparr>)
                       | LMore \<Rightarrow> do {
                           (ok, input) \<leftarrow> make_room env input;
                           Some (if ok then Some [] else None, link\<lparr>lk_input := input\<rparr>) } })"

section \<open>Senders\<close>

text \<open>Each sender fills a new buffer and hands its contents to \<open>uv_write\<close>.\<close>

definition write_out :: "Buffer \<Rightarrow> Link \<Rightarrow> Link" where
  "write_out output link = link\<lparr>lk_out := lk_out link @ [b_view output]\<rparr>"

definition send_response :: "heap_env \<Rightarrow> response \<Rightarrow> Link \<Rightarrow> Link option" where
  "send_response env res link = do {
     output \<leftarrow> send_resp env (lk_redis link) res (Buffer_new env 10);
     Some (write_out output link) }"

text \<open>The three senders of records differ in their number; the size is summed in \<open>int\<close>.\<close>

definition send_records :: "heap_env \<Rightarrow> bytes list \<Rightarrow> Link \<Rightarrow> Link option" where
  "send_records env ss link = do {
     n \<leftarrow> ck32 (sum_list (map (\<lambda>s. int (length s)) ss) + 1);
     output \<leftarrow> push_all (b_append_record env) ss (Buffer_new env n);
     (r, output) \<leftarrow> b_append_char env LF output;
     Some (write_out output link) }"

definition send1 :: "heap_env \<Rightarrow> bytes \<Rightarrow> Link \<Rightarrow> Link option" where
  "send1 env s1 link = send_records env [s1] link"

definition send2 :: "heap_env \<Rightarrow> bytes \<Rightarrow> bytes \<Rightarrow> Link \<Rightarrow> Link option" where
  "send2 env s1 s2 link = send_records env [s1, s2] link"

definition send4 :: "heap_env \<Rightarrow> bytes \<Rightarrow> bytes \<Rightarrow> bytes \<Rightarrow> bytes \<Rightarrow> Link \<Rightarrow> Link option" where
  "send4 env s1 s2 s3 s4 link = send_records env [s1, s2, s3, s4] link"

section \<open>Network server and dispatch\<close>

record 'srv NetworkServer =
  ns_data :: 'srv
  ns_link_count :: int
  ns_proc_map :: "'srv ProcMap"

definition NetworkServer_new :: "'srv \<Rightarrow> 'srv NetworkServer" where
  "NetworkServer_new srv = \<lparr>ns_data = srv, ns_link_count = 0, ns_proc_map = Map.empty\<rparr>"

text \<open>
  \<open>init\<close>: the results of the four libuv calls, in order; the first failure frees the server.
\<close>

definition NetworkServer_init :: "int \<Rightarrow> int \<Rightarrow> int \<Rightarrow> int \<Rightarrow> 'srv \<Rightarrow> 'srv NetworkServer option" where
  "NetworkServer_init r_addr r_tcp r_bind r_listen srv =
     (if r_addr \<noteq> 0 then None else if r_tcp \<noteq> 0 then None
      else if r_bind \<noteq> 0 then None else if r_listen \<noteq> 0 then None
      else Some (NetworkServer_new srv))"

definition acceptLink ::
  "heap_env \<Rightarrow> int \<Rightarrow> int \<Rightarrow> 'srv NetworkServer \<Rightarrow> Link option \<times> 'srv NetworkServer" where
  "acceptLink env status r_accept serv =
     (if status \<noteq> 0 then (None, serv)
      else let link = Link_new env
           in if r_accept = 0 then (Some link, serv\<lparr>ns_link_count := ns_link_count serv + 1\<rparr>)
              else (None, serv))"

text \<open>
  \<open>Link::proc\<close>: look up the command, run its handler or report it unknown, send the reply.
  A request without a command name, or a command whose handler was never set, is undefined.
\<close>

definition link_proc ::
  "heap_env \<Rightarrow> bytes list \<Rightarrow> 'srv NetworkServer \<Rightarrow> Link \<Rightarrow> (int \<times> 'srv NetworkServer \<times> Link) option" where
  "link_proc env req net link =
     (case req of
        [] \<Rightarrow> None
      | name # _ \<Rightarrow>
          (case get_proc (ns_proc_map net) name of
             None \<Rightarrow> do {
               link \<leftarrow> send_response env [''client_error'', ''Unknown Command: '' @ name] link;
               Some (PROC_OK, net, link) }
           | Some cmd \<Rightarrow>
               (case c_proc cmd of
                  None \<Rightarrow> None
                | Some p \<Rightarrow> do {
                    (result, srv, resp) \<leftarrow> p (ns_data net) req [];
                    link \<leftarrow> send_response env resp link;
                    Some (result, net\<lparr>ns_data := srv\<rparr>, link) })))"

section \<open>Reading from the network\<close>

text \<open>Every request returned has consumed input, so the loop of \<open>onRead\<close> ends.\<close>

lemma parse_lines_done:
  "parse_lines m sz p n acc = Some (PDone args q) \<Longrightarrow> p < q \<and> 0 < sz"
proof (induction "nat sz" arbitrary: m sz p n acc rule: less_induct)
  case less
  have pos: "0 < sz" using less.prems by (subst (asm) parse_lines.simps) (auto split: if_splits)
  obtain i where i: "memchr LF (take (nat sz) m) = Some i"
    using less.prems pos by (subst (asm) parse_lines.simps) (auto split: option.splits)
  obtain v e en where st: "strtol 0 (drop 1 m) = Some (v, e, en)"
    using less.prems pos i by (subst (asm) parse_lines.simps) (auto simp: Let_def split: option.splits)
  have len: "0 \<le> i32 v"
    using less.prems pos i st by (subst (asm) parse_lines.simps) (auto simp: Let_def split: if_splits)
  have smaller: "nat (sz - k) < nat sz" if "0 < k" for k using pos that by simp
  note unfolded = less.prems [unfolded parse_lines.simps [of m sz p n acc]]
  show ?case
  proof (cases "n = 0")
    case True
    then have "parse_lines (drop (i + 1) m) (sz - (int i + 1)) (p + (int i + 1)) (i32 v) acc = Some (PDone args q)"
      using unfolded pos i st len by (auto simp: Let_def nat_add_distrib split: if_splits)
    from less.hyps [OF smaller this] show ?thesis using pos by simp
  next
    case False
    define t where "t = drop (nat (i32 v) + 1) (drop (i + 1) m)"
    define k where "k = int i + 1 + (i32 v + 1)"
    define b where "b = (if 0 < sz - k \<and> t ! 0 = LF then 1 else 0 :: nat)"
    have "n = 1 \<and> q = p + k + int b \<or>
        parse_lines (drop b t) (sz - (k + int b)) (p + (k + int b)) (n - 1)
          (acc @ [take (nat (i32 v)) (drop (i + 1) m)]) = Some (PDone args q)"
      using unfolded pos i st len False
      by (auto simp: Let_def nat_add_distrib t_def k_def b_def algebra_simps split: if_splits)
    moreover have "0 < k + int b" using len by (simp add: k_def)
    ultimately show ?thesis using pos less.hyps [OF smaller] by fastforce
  qed
qed

lemma recv_blocks_packet:
  "recv_blocks m sz p acc = Some (LPacket req q) \<Longrightarrow> p < q \<and> 0 < sz"
proof (induction "nat sz" arbitrary: m sz p acc rule: less_induct)
  case less
  have pos: "0 < sz" using less.prems by (subst (asm) recv_blocks.simps) (auto split: if_splits)
  obtain i where i: "memchr LF (take (nat sz) m) = Some i"
    using less.prems pos by (subst (asm) recv_blocks.simps) (auto split: option.splits)
  note unfolded = less.prems [unfolded recv_blocks.simps [of m sz p acc]]
  show ?case
  proof (cases "i = 0 \<or> (i = 1 \<and> m ! 0 = CR)")
    case True
    then have "q = p + int i + 1" using unfolded pos i by (auto simp: Let_def split: if_splits)
    then show ?thesis using pos by simp
  next
    case False
    obtain body where body: "atoi (take i m @ [NUL]) = Some body" "0 \<le> body"
      using unfolded pos i False by (auto simp: Let_def split: if_splits option.splits)
    define n where "n = int i + 1 + body"
    define t where "t = drop (nat n) m"
    define k where "k = (if sz - n \<ge> 1 \<and> t ! 0 = LF then 1
                         else if sz - n \<ge> 2 \<and> t ! 0 = CR \<and> t ! 1 = LF then 2 else 0 :: nat)"
    have "recv_blocks (drop k t) (sz - (n + int k)) (p + (n + int k))
        (acc @ [take (nat body) (drop (i + 1) m)]) = Some (LPacket req q)"
      using unfolded pos i body False
      by (auto simp: Let_def nat_add_distrib ck32_def n_def t_def k_def algebra_simps split: if_splits)
    moreover have "0 < n + int k" using body by (simp add: n_def)
    then have "nat (sz - (n + int k)) < nat sz" using pos by simp
    ultimately show ?thesis using less.hyps pos \<open>0 < n + int k\<close> by fastforce
  qed
qed

lemma skip_newlines_le:
  "skip_newlines m sz = (m', sz', p) \<Longrightarrow> 0 \<le> p \<and> sz' = sz - p"
  by (auto simp: skip_newlines_def Let_def)

lemma make_room_size:
  assumes "make_room env b = Some (ok, b')"
  shows "b_size b' = b_size b"
  using assms
  by (auto simp: make_room_def b_nice_def b_grow_def bind_eq_Some_conv split: if_splits)

lemma redis_recv_consumes:
  assumes "redis_recv_req env f rl b = Some (Some req, rl', b')" "req \<noteq> []"
  shows "b_size b' < b_size b \<and> 0 < b_size b"
proof -
  obtain ret rl1 b1 where p: "parse_req rl b = Some (ret, rl1, b1)"
    using assms(1) by (auto simp: redis_recv_req_def bind_eq_Some_conv)
  show ?thesis
  proof (cases "rl_recv_bytes rl1 = []")
    case True
    then show ?thesis
      using assms p by (auto simp: redis_recv_req_def bind_eq_Some_conv split: if_splits)
  next
    case False
    obtain m sz pd where sk: "skip_newlines (b_mem b) (b_size b) = (m, sz, pd)" by (metis prod_cases3)
    obtain c cs where m: "m = c # cs" using p sk by (cases m) (auto simp: parse_req_def)
    obtain r where r: "parse_lines m sz pd 0 [] = Some r"
      using p False sk m by (auto simp: parse_req_def Let_def bind_eq_Some_conv split: if_splits)
    then obtain args q where "parse_lines m sz pd 0 [] = Some (PDone args q)" "b1 = b_decr q b"
      using p False sk m by (cases r) (auto simp: parse_req_def Let_def split: if_splits)
    moreover have "b' = b1"
      using assms p False by (auto simp: redis_recv_req_def bind_eq_Some_conv split: if_splits)
    ultimately show ?thesis
      using parse_lines_done [of m sz pd 0 "[]" args q] skip_newlines_le [OF sk] by (simp add: b_decr_def)
  qed
qed

lemma recv_req_consumes:
  assumes "link_recv_req env f link = Some (Some req, link')" "req \<noteq> []"
  shows "b_size (lk_input link') < b_size (lk_input link) \<and> 0 < b_size (lk_input link)"
proof -
  define b where "b = lk_input link"
  obtain m sz pd where sk: "skip_newlines (b_mem b) (b_size b) = (m, sz, pd)" by (metis prod_cases3)
  obtain c cs where m: "m = c # cs"
    using assms sk by (cases m) (auto simp: link_recv_req_def Let_def b_def split: if_splits)
  show ?thesis
  proof (cases "c = CHR ''*''")
    case True
    then show ?thesis
      using assms sk m redis_recv_consumes [of env f "lk_redis link" b]
      by (auto simp: link_recv_req_def Let_def b_def bind_eq_Some_conv split: if_splits option.splits)
  next
    case False
    obtain r where r: "recv_blocks m sz pd [] = Some r"
      using assms sk m False
      by (auto simp: link_recv_req_def Let_def b_def bind_eq_Some_conv split: if_splits)
    then obtain q where "r = LPacket req q" "lk_input link' = b_decr q b"
      using assms sk m False
      by (cases r) (auto simp: link_recv_req_def Let_def b_def bind_eq_Some_conv split: if_splits)
    with r have "recv_blocks m sz pd [] = Some (LPacket req q)" "lk_input link' = b_decr q b" by auto
    then show ?thesis
      using recv_blocks_packet [of m sz pd "[]" req q] skip_newlines_le [OF sk]
      by (simp add: b_decr_def b_def)
  qed
qed

lemma link_proc_input:
  "link_proc env req net link = Some (r, net', link') \<Longrightarrow> lk_input link' = lk_input link"
  by (auto simp: link_proc_def send_response_def write_out_def bind_eq_Some_conv
      split: list.splits option.splits)

text \<open>
  The request loop of \<open>onRead\<close>.  The result is the server and, unless a protocol error
  closed it, the link.
\<close>

function read_loop ::
  "heap_env \<Rightarrow> (bytes \<Rightarrow> int option) \<Rightarrow> 'srv NetworkServer \<Rightarrow> Link \<Rightarrow>
   ('srv NetworkServer \<times> Link option) option" where
  "read_loop env f net link =
     (case link_recv_req env f link of
        None \<Rightarrow> None
      | Some (None, link) \<Rightarrow> Some (net\<lparr>ns_link_count := ns_link_count net - 1\<rparr>, None)
      | Some (Some [], link) \<Rightarrow> Some (net, Some link)
      | Some (Some (a # as), link) \<Rightarrow>
          (case link_proc env (a # as) net link of
             None \<Rightarrow> None
           | Some (_, net, link) \<Rightarrow> read_loop env f net link))"
  by pat_completeness auto
termination
proof (relation "measure (\<lambda>(env, f, net, link). nat (b_size (lk_input link)))", goal_cases)
  case 2
  then show ?case by (fastforce dest: recv_req_consumes link_proc_input)
qed simp

declare read_loop.simps [simp del]

definition onRead ::
  "heap_env \<Rightarrow> (bytes \<Rightarrow> int option) \<Rightarrow> int \<Rightarrow> bytes \<Rightarrow> 'srv NetworkServer \<Rightarrow> Link \<Rightarrow>
   ('srv NetworkServer \<times> Link option) option" where
  "onRead env f nread data net link =
     (if nread \<le> 0 then Some (net, Some link)
      else do { link \<leftarrow> copy2Buffer env (take (nat nread) data) link; read_loop env f net link })"

section \<open>Packets\<close>

definition packet :: "bytes list \<Rightarrow> bytes" where
  "packet ps = concat (map record_bytes ps) @ [LF]"

lemma recv_block_record:
  assumes "length s < 2 ^ 30" "n = int (length (record_bytes s))" "n \<le> sz" "parsed + n \<le> MAX_PACKET_SIZE"
  shows "recv_blocks (record_bytes s @ rest) sz parsed acc =
         recv_blocks rest (sz - n) (parsed + n) (acc @ [s])"
proof -
  define m where "m = record_bytes s @ rest"
  define d where "d = length (dec_nat (length s))"
  have m: "m = dec_nat (length s) @ LF # s @ LF # rest" by (simp add: m_def record_bytes_def)
  have n: "n = int d + 1 + int (length s) + 1" by (simp add: assms(2) record_bytes_def d_def)
  have d: "0 < d" "d \<le> 10"
    using dec_nat_head [of "length s"] length_dec_nat [of "length s" 10] assms(1)
    by (auto simp: d_def)
  have "memchr LF m = Some d"
    using memchr_append [OF dec_nat_no_newline(1), of "length s"] by (simp add: m d_def)
  then have lf: "memchr LF (take (nat sz) m) = Some d" using assms(3) n by (intro memchr_take) auto
  obtain c cs where c: "dec_nat (length s) = c # cs" "isdigit c" using dec_nat_head by blast
  then have head: "isdigit (m ! 0)" "m ! 0 \<noteq> CR" by (auto simp: m)
  have a: "atoi (take d m @ [NUL]) = Some (int (length s))"
    using assms(1) by (simp add: atoi_def strtol_def strto_scan_dec d_def m fits32_def)
  have ck: "ck32 (int d + 1 + int (length s)) = Some (int d + 1 + int (length s))"
    using assms(1) d by (simp add: ck32_def fits32_def)
  have body: "drop (d + 1) m = s @ LF # rest" by (simp add: m d_def)
  have nxt: "drop (nat (int d + 1 + int (length s))) m = LF # rest"
    by (simp add: m d_def nat_add_distrib)
  have "sz > 0" using assms(3) n by simp
  then show ?thesis
    unfolding m_def [symmetric] using lf a ck head d assms(3,4) n body nxt
    by (subst recv_blocks.simps) (simp add: Let_def nat_add_distrib algebra_simps)
qed

lemma recv_blocks_packet_end: "1 \<le> sz \<Longrightarrow> recv_blocks (LF # rest) sz parsed acc = Some (LPacket acc (parsed + 1))"
proof -
  assume "1 \<le> sz"
  then have "memchr LF (take (nat sz) (LF # rest)) = Some 0"
    by (intro memchr_take) (simp_all add: memchr_def)
  then show ?thesis using \<open>1 \<le> sz\<close> by (subst recv_blocks.simps) (simp add: Let_def)
qed

lemma recv_blocks_records:
  "(\<And>s. s \<in> set ps \<Longrightarrow> length s < 2 ^ 30) \<Longrightarrow> int (length (packet ps)) \<le> sz \<Longrightarrow>
   parsed + int (length (packet ps)) \<le> MAX_PACKET_SIZE \<Longrightarrow>
   recv_blocks (packet ps @ rest) sz parsed acc =
     Some (LPacket (acc @ ps) (parsed + int (length (packet ps))))"
proof (induction ps arbitrary: sz parsed acc)
  case Nil
  then show ?case using recv_blocks_packet_end [of sz rest parsed acc] by (simp add: packet_def)
next
  case (Cons s ps)
  define n where "n = int (length (record_bytes s))"
  have l: "int (length (packet (s # ps))) = n + int (length (packet ps))" by (simp add: packet_def n_def)
  have "recv_blocks (packet (s # ps) @ rest) sz parsed acc =
      recv_blocks (packet ps @ rest) (sz - n) (parsed + n) (acc @ [s])"
    using recv_block_record [of s n sz parsed "packet ps @ rest" acc] Cons.prems l
    by (simp add: packet_def n_def)
  also have "\<dots> = Some (LPacket (acc @ [s] @ ps) (parsed + n + int (length (packet ps))))"
    using Cons.IH [of "sz - n" "parsed + n" "acc @ [s]"] Cons.prems l by simp
  finally show ?case using l by simp
qed

lemma append_char_append: "b_append_char env c b = b_append env [c] b"
  by (simp add: b_append_char_def b_append_def cong: if_cong)

lemma send_records_out:
  assumes "\<And>n. realloc_ok env n" "sum_list (map (\<lambda>s. 17 + int (length s)) ss) + 1 \<le> 2 ^ 30"
  shows "send_records env ss link = Some (link\<lparr>lk_out := lk_out link @ [packet ss]\<rparr>)"
proof -
  define n where "n = sum_list (map (\<lambda>s. int (length s)) ss) + 1"
  have le: "sum_list (map (\<lambda>s. int (length s)) ss) \<le> sum_list (map (\<lambda>s. 17 + int (length s)) ss)"
    by (intro sum_list_mono) simp
  have nn: "0 \<le> sum_list (map (\<lambda>s. int (length s)) ss)" by (intro sum_list_nonneg) auto
  have n: "0 \<le> n" "n < 2 ^ 31" using le nn assms(2) by (simp_all add: n_def)
  have room: "b_room env (Buffer_new env n) = 2 ^ 30" using assms(1) by (simp add: b_room_def Buffer_new_def)
  have "\<exists>b1. push_all (b_append_record env) ss (Buffer_new env n) = Some b1 \<and> buffer_wf b1 \<and>
      b_view b1 = b_view (Buffer_new env n) @ concat (map record_bytes ss) \<and>
      b_room env b1 \<ge> b_room env (Buffer_new env n) - sum_list (map (\<lambda>s. 17 + int (length s)) ss)"
    using assms(2) room by (intro rec.push_all_succeeds buffer_new_wf n assms(1)) simp
  then obtain b1 where b1: "push_all (b_append_record env) ss (Buffer_new env n) = Some b1" "buffer_wf b1"
    "b_view b1 = concat (map record_bytes ss)" "b_room env b1 \<ge> 1"
    using assms(2) room by auto
  obtain r b2 where b2: "b_append env [LF] b1 = Some (r, b2)" "r \<noteq> - 1"
    using b_append_room [OF b1(2), of "[LF]" env] b1(4) by auto
  have "b_view b2 = packet ss" using app.push_spec [OF b1(2) b2(1)] b2(2) b1(3) by (simp add: packet_def)
  then show ?thesis
    using b1(1) b2(1) n
    by (simp add: send_records_def n_def [symmetric] ck32_def fits32_def append_char_append write_out_def)
qed

lemma send_response_out:
  assumes "\<And>n. realloc_ok env n" "resp_pieces (lk_redis link) res = Some ps"
    "sum_list (map (\<lambda>p. int (length p)) ps) \<le> 2 ^ 30"
  shows "send_response env res link = Some (link\<lparr>lk_out := lk_out link @ [concat ps]\<rparr>)"
proof -
  have wf: "buffer_wf (Buffer_new env 10)" by (rule buffer_new_wf) (simp_all add: assms(1))
  have "b_room env (Buffer_new env 10) = 2 ^ 30" using assms(1) by (simp add: b_room_def Buffer_new_def)
  then obtain b where "push_all (b_append env) ps (Buffer_new env 10) = Some b" "b_view b = concat ps"
    using app.push_all_succeeds [OF wf, of ps env] assms(3) by auto
  then show ?thesis using assms(2) by (simp add: send_response_def send_resp_def write_out_def)
qed

lemma packet_received_lemma:
  assumes "buffer_wf (lk_input link)" "b_view (lk_input link) = packet ps @ rest" "ps \<noteq> []"
    "int (length (packet ps)) \<le> MAX_PACKET_SIZE"
  shows "\<exists>link'. link_recv_req env f link = Some (Some ps, link') \<and> lk_recv_data link' = ps \<and>
     buffer_wf (lk_input link') \<and> b_view (lk_input link') = rest \<and>
     lk_input link' = b_decr (int (length (packet ps))) (lk_input link)"
proof -
  define b where "b = lk_input link"
  have wf: "buffer_wf b" and v: "b_view b = packet ps @ rest" using assms(1,2) by (simp_all add: b_def)
  have sz: "b_size b = int (length (packet ps) + length rest)"
    using length_b_view [OF wf] wf v by (simp add: buffer_wf_def)
  obtain junk where m: "b_mem b = packet ps @ rest @ junk" using b_mem_view [OF wf] v by auto
  obtain s ss where ps: "ps = s # ss" using assms(3) by (cases ps) auto
  obtain c cs where c: "dec_nat (length s) = c # cs" "isdigit c" using dec_nat_head by blast
  then obtain t where t: "b_mem b = c # t" by (simp add: m ps packet_def record_bytes_def)
  have nc: "c \<noteq> LF" "c \<noteq> CR" "c \<noteq> CHR ''*''" using c(2) by (auto simp: isdigit_iff)
  have len: "length s < 2 ^ 30" if "s \<in> set ps" for s
  proof -
    have "length (record_bytes s) \<le> sum_list (map (length \<circ> record_bytes) ps)"
      using that by (intro member_le_sum_list) auto
    then show ?thesis
      using assms(4) by (simp add: packet_def length_concat comp_def record_bytes_def MAX_PACKET_SIZE_def)
  qed
  have "recv_blocks (b_mem b) (b_size b) 0 [] = Some (LPacket ps (int (length (packet ps))))"
    using recv_blocks_records [OF len, of ps "b_size b" 0 "rest @ junk" "[]"] sz assms(4) by (simp add: m)
  moreover have "skip_newlines (b_mem b) (b_size b) = (b_mem b, b_size b, 0)"
    using nc t by (simp add: skip_newlines_none)
  moreover have "\<not> b_empty b" using sz by (simp add: b_empty_def packet_def)
  ultimately have "link_recv_req env f link =
      Some (Some ps, link\<lparr>lk_recv_data := ps, lk_input := b_decr (int (length (packet ps))) b\<rparr>)"
    using t nc by (simp add: link_recv_req_def b_def Let_def)
  then show ?thesis
    using b_decr_spec [OF wf, of "int (length (packet ps))"] sz v by (simp add: b_def)
qed

text \<open>The length of a packet, from the sizes the senders reserve.\<close>

lemma packet_cost:
  assumes "sum_list (map (\<lambda>s. 17 + int (length s)) ss) < 2 ^ 31"
  shows "int (length (packet ss)) \<le> sum_list (map (\<lambda>s. 17 + int (length s)) ss) + 1"
proof -
  have "int (length (record_bytes s)) \<le> 17 + int (length s)" if "s \<in> set ss" for s
  proof (rule record_cost)
    have "17 + int (length s) \<le> sum_list (map (\<lambda>s. 17 + int (length s)) ss)"
      using that by (intro member_le_sum_list) auto
    then show "17 + int (length s) < 2 ^ 31" using assms by simp
  qed
  then have "sum_list (map (\<lambda>s. int (length (record_bytes s))) ss) \<le>
      sum_list (map (\<lambda>s. 17 + int (length s)) ss)" by (rule sum_list_mono)
  moreover have "int (length (concat (map record_bytes xs))) =
      sum_list (map (\<lambda>s. int (length (record_bytes s))) xs)" for xs by (induction xs) auto
  ultimately show ?thesis by (simp add: packet_def)
qed

section \<open>Properties\<close>

text \<open>
  A complete packet in the input buffer is received as exactly its blocks, whatever bytes
  they contain; it is consumed and what follows it is left in the buffer.
\<close>

lemma packet_received:
  assumes "buffer_wf (lk_input link)" "b_view (lk_input link) = packet ps @ rest" "ps \<noteq> []"
    "int (length (packet ps)) \<le> MAX_PACKET_SIZE"
  shows "\<exists>link'. link_recv_req env f link = Some (Some ps, link') \<and> lk_recv_data link' = ps \<and>
     buffer_wf (lk_input link') \<and> b_view (lk_input link') = rest"
  using packet_received_lemma [OF assms, of env f] by blast

text \<open>
  C15. What one side sends the other side receives: the bytes written by the senders of one,
  two or four blocks, read into the buffer of a new link at the peer, are received as the same
  blocks, and the buffer is empty afterwards.
\<close>

theorem sent_packet_is_received:
  assumes "\<And>n. realloc_ok env n" "ss \<noteq> []"
    "sum_list (map (\<lambda>s. 17 + int (length s)) ss) + 1 \<le> MAX_PACKET_SIZE"
  shows "\<exists>out peer peer'. send_records env ss link = Some (link\<lparr>lk_out := lk_out link @ [out]\<rparr>) \<and>
     copy2Buffer env out (Link_new env) = Some peer \<and>
     link_recv_req env f peer = Some (Some ss, peer') \<and> b_view (lk_input peer') = []"
proof -
  have cost: "int (length (packet ss)) \<le> sum_list (map (\<lambda>s. 17 + int (length s)) ss) + 1"
    using assms(3) by (intro packet_cost) (simp add: MAX_PACKET_SIZE_def)
  have send: "send_records env ss link = Some (link\<lparr>lk_out := lk_out link @ [packet ss]\<rparr>)"
    using assms(1,3) by (intro send_records_out) (auto simp: MAX_PACKET_SIZE_def)
  have wf: "buffer_wf (Buffer_new env 1024)" by (rule buffer_new_wf) (simp_all add: assms(1))
  have "int (length (packet ss)) \<le> b_room env (Buffer_new env 1024)"
    using cost assms(1,3) by (simp add: b_room_def Buffer_new_def MAX_PACKET_SIZE_def)
  then obtain r b where b: "b_append env (packet ss) (Buffer_new env 1024) = Some (r, b)" "r \<noteq> - 1"
    using b_append_room [OF wf] by blast
  have bw: "buffer_wf b" "b_view b = packet ss" using app.push_spec [OF wf b(1)] b(2) by auto
  define peer where "peer = (Link_new env)\<lparr>lk_input := b\<rparr>"
  have "copy2Buffer env (packet ss) (Link_new env) = Some peer"
    using b(1) by (simp add: copy2Buffer_def Link_new_def INIT_BUFFER_SIZE_def peer_def)
  moreover obtain peer' where "link_recv_req env f peer = Some (Some ss, peer')" "b_view (lk_input peer') = []"
    using packet_received_lemma [of peer ss "[]" env f] bw assms(2,3) cost by (auto simp: peer_def)
  ultimately show ?thesis using send by blast
qed

theorem sent_packet_is_received_witness:
  "\<exists>out peer peer'. send_records zero_env [''sync140'', ''7''] (Link_new zero_env) =
       Some ((Link_new zero_env)\<lparr>lk_out := [out]\<rparr>) \<and>
     copy2Buffer zero_env out (Link_new zero_env) = Some peer \<and>
     link_recv_req zero_env (\<lambda>_. None) peer = Some (Some [''sync140'', ''7''], peer')"
  using sent_packet_is_received [of zero_env "[''sync140'', ''7'']" "Link_new zero_env" "\<lambda>_. None"]
  by (force simp: zero_env_def MAX_PACKET_SIZE_def Link_new_def)

text \<open>
  The byte after the data is read without a bound: when the input consists of newlines
  only and fills its block to the end, \<open>recv_req\<close> reads past the block.
\<close>

theorem newline_block_overread:
  assumes "buffer_wf b" "b_view b \<noteq> []" "list_all (\<lambda>c. c = LF \<or> c = CR) (b_view b)" "b_space b = 0"
  shows "link_recv_req env f (link\<lparr>lk_input := b\<rparr>) = None"
proof -
  have sz: "0 < b_size b" using assms(1,2) by (auto simp: b_view_def buffer_wf_def)
  have mem: "b_mem b = b_view b" "length (b_view b) = nat (b_size b)"
    using assms(1,4) by (auto simp: b_mem_def b_view_def buffer_wf_def b_space_def)
  have tw: "takeWhile (\<lambda>c. c = LF \<or> c = CR) (b_view b) = b_view b"
    using assms(3) by (simp add: list_all_iff)
  have "skip_newlines (b_mem b) (b_size b) = ([], 0, b_size b)"
    using mem(2) sz by (simp add: skip_newlines_def mem(1) tw)
  then show ?thesis using sz by (simp add: link_recv_req_def b_empty_def)
qed

text \<open>
  Consumed input is never reclaimed while requests arrive whole: receiving a packet moves
  the start of the data forward by its length and leaves it there, so after any sequence of
  complete packets the block is at least as large as all the bytes ever received, and capacity
  arithmetic overflows after a gibibyte.
\<close>

lemma consumed_input_not_reclaimed:
  assumes "buffer_wf (lk_input link)" "b_view (lk_input link) = []" "ss \<noteq> []"
    "int (length (packet ss)) \<le> MAX_PACKET_SIZE"
    "copy2Buffer env (packet ss) link = Some link1" "link_recv_req env f link1 = Some (Some ss, link2)"
  shows "b_view (lk_input link2) = [] \<and>
    b_data (lk_input link2) = b_data (lk_input link) + int (length (packet ss)) \<and>
    b_total (lk_input link2) \<ge> b_data (lk_input link) + int (length (packet ss))"
proof -
  obtain r b where b: "b_append env (packet ss) (lk_input link) = Some (r, b)" "link1 = link\<lparr>lk_input := b\<rparr>"
    using assms(5) by (auto simp: copy2Buffer_def bind_eq_Some_conv)
  have spec: "buffer_wf b" "b_view b = (if r = - 1 then [] else packet ss)"
    "b_data b = b_data (lk_input link)"
    using app.push_spec [OF assms(1) b(1)] assms(2) b_append_data [OF assms(1) b(1)] by auto
  have "r \<noteq> - 1"
  proof
    assume "r = - 1"
    then have "b_size b = 0" using spec(1,2) length_b_view [of b] by (auto simp: buffer_wf_def)
    then show False using assms(3,6) b(2) by (simp add: link_recv_req_def b_empty_def)
  qed
  then have v: "b_view (lk_input link1) = packet ss @ []" using spec(2) b(2) by simp
  have "buffer_wf (lk_input link1)" using spec(1) b(2) by simp
  from packet_received_lemma [OF this v assms(3,4), of env f] assms(6)
  have "lk_input link2 = b_decr (int (length (packet ss))) b" "buffer_wf (lk_input link2)"
    "b_view (lk_input link2) = []" using b(2) by auto
  then show ?thesis using spec(3) by (auto simp: b_decr_def buffer_wf_def)
qed

end
