(* ===== verification/Server_Procs.thy ===== *)
theory Server_Procs
  imports Ssdb_Impl Net_Link
begin

text \<open>
  Model of src/ssdb/src/proc\_kv.cpp and of the handlers and registrations in
  src/ssdb/src/serv.cpp and serv.h.  The server state holds the two databases; the meta
  database may be the null pointer.  Requests to replicate are handed to the backend, which
  starts a thread per request; the model keeps the list of those requests.
\<close>

section \<open>State and handlers\<close>

record 'db SSDBServer =
  sv_ssdb :: "'db SSDBImpl"
  sv_meta :: "'db SSDBImpl option"
  sv_sync :: "bytes list list"

text \<open>\<open>CHECK_NUM_PARAMS\<close>: too few parameters are answered before the handler runs.\<close>

definition check_num_params :: "nat \<Rightarrow> 'db SSDBServer proc_t \<Rightarrow> 'db SSDBServer proc_t" where
  "check_num_params n body srv req resp =
     (if length req < n
      then Some (0, srv, resp_push_back ''wrong number of arguments'' (resp_push_back ''client_error'' resp))
      else body srv req resp)"

definition proc_get :: "('db, 'it) leveldb \<Rightarrow> 'db SSDBServer proc_t" where
  "proc_get L = check_num_params 2 (\<lambda>srv req resp.
     let (ret, val) = ssdb_get L (req ! 1) [] (sv_ssdb srv)
     in Some (0, srv, reply_get ret (Some val) None resp))"

definition reply_write :: "int \<Rightarrow> response \<Rightarrow> response" where
  "reply_write ret resp =
     (if ret = - 1 then resp_push_back ''error'' resp
      else resp_push_back ''1'' (resp_push_back ''ok'' resp))"

definition proc_set :: "('db, 'it) leveldb \<Rightarrow> 'db SSDBServer proc_t" where
  "proc_set L = check_num_params 3 (\<lambda>srv req resp.
     let (ret, db) = ssdb_set L (req ! 1) (req ! 2) (sv_ssdb srv)
     in Some (0, srv\<lparr>sv_ssdb := db\<rparr>, reply_write ret resp))"

definition proc_del :: "('db, 'it) leveldb \<Rightarrow> 'db SSDBServer proc_t" where
  "proc_del L = check_num_params 2 (\<lambda>srv req resp.
     let (ret, db) = ssdb_del L (req ! 1) (sv_ssdb srv)
     in Some (0, srv\<lparr>sv_ssdb := db\<rparr>, reply_write ret resp))"

definition proc_hset :: "('db, 'it) leveldb \<Rightarrow> 'db SSDBServer proc_t" where
  "proc_hset L = check_num_params 4 (\<lambda>srv req resp. do {
     (ret, db) \<leftarrow> ssdb_hset L (req ! 1) (req ! 2) (req ! 3) BT_SYNC (sv_ssdb srv);
     Some (0, srv\<lparr>sv_ssdb := db\<rparr>, reply_bool ret None resp) })"

definition proc_hget :: "('db, 'it) leveldb \<Rightarrow> 'db SSDBServer proc_t" where
  "proc_hget L = check_num_params 3 (\<lambda>srv req resp.
     let (ret, val) = ssdb_hget L (req ! 1) (req ! 2) [] (sv_ssdb srv)
     in Some (0, srv, reply_get ret (Some val) None resp))"

definition proc_sync140 :: "'db SSDBServer proc_t" where
  "proc_sync140 srv req resp = Some (0, srv\<lparr>sv_sync := sv_sync srv @ [req]\<rparr>, resp)"

definition reg_procs ::
  "('db, 'it) leveldb \<Rightarrow> 'db SSDBServer NetworkServer \<Rightarrow> 'db SSDBServer NetworkServer" where
  "reg_procs L net = net\<lparr>ns_proc_map :=
     (set_proc ''sync140'' ''wt'' proc_sync140 \<circ>
      set_proc ''hget'' ''wt'' (proc_hget L) \<circ>
      set_proc ''hset'' ''wt'' (proc_hset L) \<circ>
      set_proc ''del'' ''wt'' (proc_del L) \<circ>
      set_proc ''set'' ''wt'' (proc_set L) \<circ>
      set_proc ''get'' ''rt'' (proc_get L)) (ns_proc_map net)\<rparr>"

section \<open>Lemmas\<close>

text \<open>The handlers of a server that has registered its procedures.\<close>

definition registered :: "('db, 'it) leveldb \<Rightarrow> 'db SSDBServer NetworkServer \<Rightarrow> bool" where
  "registered L net \<longleftrightarrow>
     (\<forall>name p. (name, p) \<in> set [(''get'', proc_get L), (''set'', proc_set L), (''del'', proc_del L),
        (''hset'', proc_hset L), (''hget'', proc_hget L), (''sync140'', proc_sync140)] \<longrightarrow>
        (\<exists>cmd. get_proc (ns_proc_map net) name = Some cmd \<and> c_proc cmd = Some p))"

lemma reg_procs_registered: "registered L (reg_procs L net)"
  by (auto simp: registered_def reg_procs_def get_set_proc)

lemma dispatch:
  assumes "get_proc (ns_proc_map net) name = Some cmd" "c_proc cmd = Some p"
    "p (ns_data net) (name # args) [] = Some (r, srv, resp)" "send_response env resp link = Some link'"
  shows "link_proc env (name # args) net link = Some (r, net\<lparr>ns_data := srv\<rparr>, link')"
  using assms by (simp add: link_proc_def)

lemma registered_dispatch:
  assumes "registered L net"
    "(name, p) \<in> set [(''get'', proc_get L), (''set'', proc_set L), (''del'', proc_del L),
        (''hset'', proc_hset L), (''hget'', proc_hget L), (''sync140'', proc_sync140)]"
    "p (ns_data net) (name # args) [] = Some (r, srv, resp)" "send_response env resp link = Some link'"
  shows "link_proc env (name # args) net link = Some (r, net\<lparr>ns_data := srv\<rparr>, link')"
proof -
  obtain cmd where "get_proc (ns_proc_map net) name = Some cmd" "c_proc cmd = Some p"
    using assms(1,2) unfolding registered_def by blast
  then show ?thesis using assms(3,4) by (rule dispatch)
qed

lemma count_line_eq:
  assumes "n < 2 ^ 31"
  shows "count_line c (i32 (int n)) = c # dec_nat n @ CRLF"
proof -
  have "n < 10 ^ 10" using assms by simp
  then have "length (dec_nat n) \<le> 10" by (rule length_dec_nat) simp
  then show ?thesis using assms by (simp add: count_line_def snprintf_def fits32_def dec_int_def)
qed

lemma bulk_pieces_eq: "length v < 2 ^ 31 \<Longrightarrow> concat (bulk_pieces v) = bulk v"
  by (simp add: bulk_pieces_def count_line_eq bulk_def)

lemma bulk_pieces_cost:
  assumes "int (length v) + 20 \<le> 2 ^ 30"
  shows "sum_list (map (\<lambda>p. int (length p)) (bulk_pieces v)) \<le> 2 ^ 30"
proof -
  have "length v < 10 ^ 10" using assms by simp
  then have "length (dec_nat (length v)) \<le> 10" by (rule length_dec_nat) simp
  then show ?thesis using assms by (simp add: bulk_pieces_def count_line_eq)
qed

lemma get_on_wire:
  assumes "leveldb_reliable L contents snapshot cursor" "registered L net" "\<And>n. realloc_ok env n"
    "rl_req_desc (lk_redis link) = cmd_table ''get''"
    "\<And>v. kv_view (contents (ss_ldb (sv_ssdb (ns_data net)))) k = Some v \<Longrightarrow> int (length v) + 20 \<le> 2 ^ 30"
  shows "link_proc env [''get'', k] net link =
    Some (PROC_OK, net,
      link\<lparr>lk_out := lk_out link @
        [case kv_view (contents (ss_ldb (sv_ssdb (ns_data net)))) k of
           None \<Rightarrow> ''$-1'' @ CRLF | Some v \<Rightarrow> bulk v]\<rparr>)"
proof -
  define m where "m = kv_view (contents (ss_ldb (sv_ssdb (ns_data net))))"
  have g: "ssdb_get L k [] (sv_ssdb (ns_data net)) = (case m k of None \<Rightarrow> (0, []) | Some v \<Rightarrow> (1, v))"
    using leveldb_reliable.kv_laws(4) [OF assms(1), of k "[]" "sv_ssdb (ns_data net)"] by (simp add: m_def)
  have d: "rl_req_desc (lk_redis link) = Some (raw STRATEGY_AUTO ''get'' ''get'' REPLY_BULK)"
    using assms(4) by (simp add: cmd_table_def cmds_raw_def raw_def)
  define resp where "resp = (case m k of None \<Rightarrow> [''not_found''] | Some v \<Rightarrow> [''ok'', v])"
  define ps where "ps = (case m k of None \<Rightarrow> [nil_bulk] | Some v \<Rightarrow> bulk_pieces v)"
  have p: "proc_get L (ns_data net) [''get'', k] [] = Some (PROC_OK, ns_data net, resp)"
    by (cases "m k")
      (simp_all add: proc_get_def check_num_params_def g reply_get_def push_opt_def resp_push_back_def
        resp_def PROC_OK_def)
  have "resp_pieces (lk_redis link) resp = Some ps"
    by (cases "m k") (simp_all add: resp_pieces_def resp_def ps_def d raw_def error_pieces_def)
  moreover have "sum_list (map (\<lambda>p. int (length p)) ps) \<le> 2 ^ 30"
  proof (cases "m k")
    case (Some v)
    then show ?thesis using bulk_pieces_cost [OF assms(5)] by (simp add: ps_def m_def)
  qed (simp add: ps_def nil_bulk_def)
  ultimately have "send_response env resp link = Some (link\<lparr>lk_out := lk_out link @ [concat ps]\<rparr>)"
    using assms(3) by (intro send_response_out)
  moreover have "concat ps = (case m k of None \<Rightarrow> ''$-1'' @ CRLF | Some v \<Rightarrow> bulk v)"
    using assms(5) by (cases "m k") (auto simp: ps_def nil_bulk_def bulk_pieces_eq m_def)
  moreover have "net\<lparr>ns_data := ns_data net\<rparr> = net" by simp
  ultimately show ?thesis
    using registered_dispatch [OF assms(2), of "''get''" "proc_get L" "[k]"] p by (simp add: m_def)
qed

section \<open>Properties\<close>

text \<open>
  C35. A \<open>get\<close> request in a Redis session is answered on the wire with the bulk string of the
  stored value, or the nil bulk when the key is absent; the server state does not change.
\<close>

theorem get_request_answered:
  assumes "leveldb_reliable L contents snapshot cursor" "registered L net" "\<And>n. realloc_ok env n"
    "rl_req_desc (lk_redis link) = cmd_table ''get''"
    "\<And>v. kv_view (contents (ss_ldb (sv_ssdb (ns_data net)))) k = Some v \<Longrightarrow> int (length v) + 20 \<le> 2 ^ 30"
  shows "link_proc env [''get'', k] net link =
    Some (PROC_OK, net,
      link\<lparr>lk_out := lk_out link @
        [case kv_view (contents (ss_ldb (sv_ssdb (ns_data net)))) k of
           None \<Rightarrow> ''$-1'' @ CRLF | Some v \<Rightarrow> bulk v]\<rparr>)"
  by (rule get_on_wire [OF assms])

definition sample_net :: "mem_db SSDBServer NetworkServer" where
  "sample_net = reg_procs mem_ldb (NetworkServer_new \<lparr>sv_ssdb = sample_db, sv_meta = None, sv_sync = []\<rparr>)"

theorem get_request_answered_witness:
  "\<exists>link'. link_proc zero_env [''get'', ''a''] sample_net
     ((Link_new zero_env)\<lparr>lk_redis := RedisLink_new\<lparr>rl_req_desc := cmd_table ''get''\<rparr>\<rparr>) =
       Some (PROC_OK, sample_net, link') \<and> lk_out link' = [''$-1'' @ CRLF]"
proof -
  have "kv_view (mem_contents (ss_ldb (sv_ssdb (ns_data sample_net)))) ''a'' = None"
    by (simp add: sample_net_def reg_procs_def NetworkServer_new_def sample_db_def mem_contents_def kv_view_def)
  moreover have "registered mem_ldb sample_net" unfolding sample_net_def by (rule reg_procs_registered)
  moreover have "realloc_ok zero_env n" for n by (simp add: zero_env_def)
  ultimately show ?thesis
    using get_request_answered [OF mem.leveldb_reliable_axioms, of sample_net zero_env
        "(Link_new zero_env)\<lparr>lk_redis := RedisLink_new\<lparr>rl_req_desc := cmd_table ''get''\<rparr>\<rparr>" "''a''"]
    by (simp add: Link_new_def)
qed

text \<open>
  The handlers of writes report success whenever the database does not report an error.
  In particular \<open>set\<close> of the empty key is answered "ok 1" although nothing is stored, and a
  request with too few arguments is answered "client\_error" without touching the database.
\<close>

theorem write_replies:
  assumes "leveldb_reliable L contents snapshot cursor"
  shows "proc_set L srv [c, k, v] [] =
           Some (0, srv\<lparr>sv_ssdb := snd (ssdb_set L k v (sv_ssdb srv))\<rparr>, [''ok'', ''1'']) \<and>
         proc_set L srv [c, [], v] [] = Some (0, srv, [''ok'', ''1'']) \<and>
         proc_del L srv [c, k] [] =
           Some (0, srv\<lparr>sv_ssdb := snd (ssdb_del L k (sv_ssdb srv))\<rparr>, [''ok'', ''1'']) \<and>
         proc_set L srv [c, k] [] = Some (0, srv, [''client_error'', ''wrong number of arguments'']) \<and>
         proc_del L srv [c] [] = Some (0, srv, [''client_error'', ''wrong number of arguments''])"
proof -
  have "fst (ssdb_set L k v s) \<noteq> - 1" for k v s
    using leveldb_reliable.set_total [OF assms, of k v s] by (cases "k = []") (auto simp: ssdb_set_def)
  moreover have "fst (ssdb_del L k s) \<noteq> - 1" for k s
    using leveldb_reliable.del_total [OF assms, of k s] by simp
  moreover have "ssdb_set L [] v s = (0, s)" for v s by (simp add: ssdb_set_def)
  ultimately show ?thesis
    by (simp add: proc_set_def proc_del_def check_num_params_def reply_write_def resp_push_back_def
        numeral_2_eq_2 split_beta)
qed

theorem write_replies_witness:
  "proc_set mem_ldb \<lparr>sv_ssdb = sample_db, sv_meta = None, sv_sync = []\<rparr> [''set'', [], ''v''] [] =
     Some (0, \<lparr>sv_ssdb = sample_db, sv_meta = None, sv_sync = []\<rparr>, [''ok'', ''1''])"
  using write_replies [OF mem.leveldb_reliable_axioms] by blast

end
