(* ===== verification/Slave_Node.thy ===== *)
theory Slave_Node
  imports Ssdb_Impl Net_Link
begin

text \<open>
  Model of src/ssdb/src/slave.h and slave.cpp: the slave side of replication.  It applies the
  messages of the master to its database and keeps its position, the last record and the last
  copied key, in the meta database.  What libuv reports of the connection is an argument;
  \<open>onRead\<close> works over the link model.
\<close>

section \<open>State\<close>

datatype slave_status = SL_DISCONNECTED | SL_INIT | SL_COPY | SL_SYNC | SL_OUT_OF_SYNC

text \<open>\<open>sl_status\<close> is \<^term>\<open>None\<close> until it is first assigned: the constructor does not set it.\<close>

record 'db Slave =
  sl_status :: "slave_status option"
  sl_copy_count :: "64 word"
  sl_sync_count :: "64 word"
  sl_last_seq :: "64 word"
  sl_last_key :: bytes
  sl_id :: bytes
  sl_thread_quit :: bool
  sl_ssdb :: "'db SSDBImpl"
  sl_meta :: "'db SSDBImpl"
  sl_master_ip :: bytes
  sl_master_port :: int

definition c_str :: "bytes \<Rightarrow> bytes" where
  "c_str s = takeWhile (\<lambda>c. c \<noteq> NUL) s"

definition Slave_new :: "'db SSDBImpl \<Rightarrow> 'db SSDBImpl \<Rightarrow> bytes \<Rightarrow> int \<Rightarrow> 'db Slave" where
  "Slave_new ssdb meta ip_addr port_no =
     \<lparr>sl_status = None, sl_copy_count = 0, sl_sync_count = 0, sl_last_seq = 0, sl_last_key = [],
      sl_id = snprintf 128 (c_str ip_addr @ ''|'' @ dec_int port_no), sl_thread_quit = False,
      sl_ssdb = ssdb, sl_meta = meta, sl_master_ip = ip_addr, sl_master_port = port_no\<rparr>"

definition set_id :: "bytes \<Rightarrow> 'db Slave \<Rightarrow> 'db Slave" where
  "set_id i sl = sl\<lparr>sl_id := i\<rparr>"

definition slave_stop :: "'db Slave \<Rightarrow> 'db Slave" where
  "slave_stop sl =
     (if sl_master_ip sl = [] then sl else if sl_master_port sl \<le> 0 then sl else sl\<lparr>sl_thread_quit := True\<rparr>)"

section \<open>The saved position\<close>

definition status_key :: "'db Slave \<Rightarrow> bytes" where
  "status_key sl = ''slave.status.'' @ sl_id sl"

definition save_status :: "('db, 'it) leveldb \<Rightarrow> 'db Slave \<Rightarrow> 'db Slave option" where
  "save_status L sl = do {
     let sq = str_uint64 (sl_last_seq sl);
     (_, meta) \<leftarrow> ssdb_hset L (status_key sl) ''last_key'' (sl_last_key sl) BT_SYNC (sl_meta sl);
     (_, meta) \<leftarrow> ssdb_hset L (status_key sl) ''last_seq'' sq BT_SYNC meta;
     Some (sl\<lparr>sl_meta := meta\<rparr>) }"

definition load_status :: "('db, 'it) leveldb \<Rightarrow> 'db Slave \<Rightarrow> 'db Slave option" where
  "load_status L sl = do {
     let (_, key) = ssdb_hget L (status_key sl) ''last_key'' [] (sl_meta sl);
     let (_, sq) = ssdb_hget L (status_key sl) ''last_seq'' [] (sl_meta sl);
     let sl = (if key \<noteq> [] then sl\<lparr>sl_last_key := key\<rparr> else sl);
     if sq \<noteq> [] then do { (v, _) \<leftarrow> str_to_uint64 0 sq; Some (sl\<lparr>sl_last_seq := v\<rparr>) } else Some sl }"

text \<open>\<open>migrate_old_status\<close>: the flag is the \<open>exit(1)\<close> when the old entry cannot be removed.\<close>

definition migrate_old_status :: "('db, 'it) leveldb \<Rightarrow> 'db Slave \<Rightarrow> (bool \<times> 'db Slave) option" where
  "migrate_old_status L sl =
     (let old_key = ''new.slave.status|'' @ sl_id sl;
          (old_found, val) = ssdb_raw_get L old_key [] (sl_meta sl)
      in if old_found = 0 then Some (False, sl)
         else if length val < 8 then Some (False, sl)
         else do {
           sl \<leftarrow> save_status L (sl\<lparr>sl_last_seq := read64 val, sl_last_key := drop 8 val\<rparr>);
           let (r, meta) = ssdb_raw_del L old_key (sl_meta sl);
           Some (r = - 1, sl\<lparr>sl_meta := meta\<rparr>) })"

text \<open>\<open>start\<close>: whether the connection thread is created, and whether the process exits.\<close>

datatype start_result = NotSlave | Exited | Connecting

definition slave_start :: "('db, 'it) leveldb \<Rightarrow> 'db Slave \<Rightarrow> (start_result \<times> 'db Slave) option" where
  "slave_start L sl =
     (if sl_master_ip sl = [] then Some (NotSlave, sl)
      else if sl_master_port sl \<le> 0 then Some (NotSlave, sl)
      else do {
        (quit, sl) \<leftarrow> migrate_old_status L sl;
        if quit then Some (Exited, sl)
        else do { sl \<leftarrow> load_status L sl; Some (Connecting, sl) } })"

text \<open>The request sent when the connection is up.\<close>

definition on_connect :: "heap_env \<Rightarrow> int \<Rightarrow> 'db Slave \<Rightarrow> Link \<Rightarrow> Link option" where
  "on_connect env st sl link =
     (if st = - 1 then Some link
      else send4 env ''sync140'' (str_uint64 (sl_last_seq sl)) (sl_last_key sl) ''sync'' link)"

section \<open>Applying messages\<close>

definition proc_sync :: "('db, 'it) leveldb \<Rightarrow> bytes \<Rightarrow> bytes list \<Rightarrow> 'db Slave \<Rightarrow> (int \<times> 'db Slave) option" where
  "proc_sync L log req sl = do {
     cmd \<leftarrow> Binlog_cmd log;
     logkey \<leftarrow> Binlog_key log;
     sq \<leftarrow> Binlog_seq log;
     ty \<leftarrow> Binlog_type log;
     let (failed, sl) =
       (if cmd = BC_KSET
        then if length req \<noteq> 2 then (False, sl)
             else let (r, key) = decode_kv_key logkey []
                  in if r = - 1 then (False, sl)
                     else let (r, db) = ssdb_set L key (req ! 1) (sl_ssdb sl)
                          in (r = - 1, sl\<lparr>sl_ssdb := db\<rparr>)
        else if cmd = BC_KDEL
        then let (r, key) = decode_kv_key logkey []
             in if r = - 1 then (False, sl)
                else let (r, db) = ssdb_del L key (sl_ssdb sl) in (r = - 1, sl\<lparr>sl_ssdb := db\<rparr>)
        else (False, sl));
     if failed then Some (- 1, sl)
     else do {
       let sl = sl\<lparr>sl_last_seq := sq\<rparr>;
       let sl = (if ty = BT_COPY then sl\<lparr>sl_last_key := logkey\<rparr> else sl);
       sl \<leftarrow> save_status L sl;
       Some (0, sl) } }"

definition proc_copy :: "('db, 'it) leveldb \<Rightarrow> bytes \<Rightarrow> bytes list \<Rightarrow> 'db Slave \<Rightarrow> (int \<times> 'db Slave) option" where
  "proc_copy L log req sl = do {
     cmd \<leftarrow> Binlog_cmd log;
     if cmd = BC_BEGIN then Some (0, sl)
     else if cmd = BC_END
     then do { sl \<leftarrow> save_status L (sl\<lparr>sl_status := Some SL_SYNC, sl_last_key := []\<rparr>); Some (0, sl) }
     else proc_sync L log req (sl\<lparr>sl_copy_count := sl_copy_count sl + 1\<rparr>) }"

definition slave_proc :: "('db, 'it) leveldb \<Rightarrow> bytes list \<Rightarrow> 'db Slave \<Rightarrow> (int \<times> 'db Slave) option" where
  "slave_proc L req sl =
     (case req of
        [] \<Rightarrow> None
      | r0 # _ \<Rightarrow>
          (let (ok, log) = Binlog_load [] r0
           in if ok = - 1 then Some (0, sl)
              else do {
                ty \<leftarrow> Binlog_type log;
                if ty = BT_NOOP then Some (0, sl)
                else if ty = BT_CTRL
                then do { key \<leftarrow> Binlog_key log;
                          Some (0, if key = ''OUT_OF_SYNC'' then sl\<lparr>sl_status := Some SL_OUT_OF_SYNC\<rparr> else sl) }
                else if ty = BT_COPY
                then do { (_, sl) \<leftarrow> proc_copy L log req (sl\<lparr>sl_status := Some SL_COPY\<rparr>); Some (0, sl) }
                else if ty = BT_SYNC \<or> ty = BT_MIRROR
                then do { (_, sl) \<leftarrow> proc_sync L log req
                            (sl\<lparr>sl_status := Some SL_SYNC, sl_sync_count := sl_sync_count sl + 1\<rparr>);
                          Some (0, sl) }
                else Some (0, sl) }))"

section \<open>Reading from the master\<close>

text \<open>
  The loop of \<open>onRead\<close>: every complete message is applied; a protocol error deletes the link.
\<close>

function slave_read_loop ::
  "heap_env \<Rightarrow> (bytes \<Rightarrow> int option) \<Rightarrow> ('db, 'it) leveldb \<Rightarrow> 'db Slave \<Rightarrow> Link \<Rightarrow>
   ('db Slave \<times> Link option) option" where
  "slave_read_loop env f L sl link =
     (case link_recv_req env f link of
        None \<Rightarrow> None
      | Some (None, link) \<Rightarrow> Some (sl, None)
      | Some (Some [], link) \<Rightarrow> Some (sl, Some link)
      | Some (Some (a # as), link) \<Rightarrow>
          (case slave_proc L (a # as) sl of
             None \<Rightarrow> None
           | Some (_, sl) \<Rightarrow> slave_read_loop env f L sl link))"
  by pat_completeness auto
termination
proof (relation "measure (\<lambda>(env, f, L, sl, link). nat (b_size (lk_input link)))", goal_cases)
  case 2
  then show ?case by (fastforce dest: recv_req_consumes)
qed simp

declare slave_read_loop.simps [simp del]

definition slave_onRead ::
  "heap_env \<Rightarrow> (bytes \<Rightarrow> int option) \<Rightarrow> ('db, 'it) leveldb \<Rightarrow> int \<Rightarrow> bytes \<Rightarrow> 'db Slave \<Rightarrow> Link \<Rightarrow>
   ('db Slave \<times> Link option) option" where
  "slave_onRead env f L nread data sl link =
     (if nread \<le> 0 then Some (sl, Some link)
      else do { link \<leftarrow> copy2Buffer env (take (nat nread) data) link; slave_read_loop env f L sl link })"

text \<open>
  \<open>_run_thread\<close>: \<open>ret\<close> is the result of \<open>uv_ip4_addr\<close>, \<open>st\<close> the status of the connection and \<open>reads\<close>
  what the event loop delivers; after the link is deleted nothing more is read.
\<close>

primrec slave_events ::
  "heap_env \<Rightarrow> (bytes \<Rightarrow> int option) \<Rightarrow> ('db, 'it) leveldb \<Rightarrow> (int \<times> bytes) list \<Rightarrow> 'db Slave \<Rightarrow> Link \<Rightarrow>
   ('db Slave \<times> Link option) option" where
  "slave_events env f L [] sl link = Some (sl, Some link)"
| "slave_events env f L (r # rs) sl link = do {
     (sl, l) \<leftarrow> slave_onRead env f L (fst r) (snd r) sl link;
     case l of None \<Rightarrow> Some (sl, None) | Some link \<Rightarrow> slave_events env f L rs sl link }"

definition slave_run_thread ::
  "heap_env \<Rightarrow> (bytes \<Rightarrow> int option) \<Rightarrow> ('db, 'it) leveldb \<Rightarrow> int \<Rightarrow> int \<Rightarrow> (int \<times> bytes) list \<Rightarrow> 'db Slave \<Rightarrow>
   ('db Slave \<times> Link option) option" where
  "slave_run_thread env f L ret st reads sl =
     (let link = Link_new env
      in if ret \<noteq> 0 then Some (sl, Some link)
         else do {
           link \<leftarrow> on_connect env st sl link;
           if st = - 1 then Some (sl, Some link) else slave_events env f L reads sl link })"

section \<open>Running the messages of a read\<close>

primrec slave_procs :: "('db, 'it) leveldb \<Rightarrow> bytes list list \<Rightarrow> 'db Slave \<Rightarrow> 'db Slave option" where
  "slave_procs L [] sl = Some sl"
| "slave_procs L (msg # msgs) sl = do { (_, sl) \<leftarrow> slave_proc L msg sl; slave_procs L msgs sl }"

lemma slave_procs_append: "slave_procs L (as @ bs) sl = Option.bind (slave_procs L as sl) (slave_procs L bs)"
  by (induction as arbitrary: sl) (auto simp: bind_split split: option.splits)

definition packets_ok :: "bytes list list \<Rightarrow> bool" where
  "packets_ok msgs \<longleftrightarrow> (\<forall>msg \<in> set msgs. msg \<noteq> [] \<and> int (length (packet msg)) \<le> MAX_PACKET_SIZE)"

lemma packets_ok_simps [simp]:
  "packets_ok []"
  "packets_ok (msg # msgs) \<longleftrightarrow> msg \<noteq> [] \<and> int (length (packet msg)) \<le> MAX_PACKET_SIZE \<and> packets_ok msgs"
  by (auto simp: packets_ok_def)

text \<open>Messages in the input buffer are handled in order, and the buffer is emptied.\<close>

lemma read_loop_runs:
  "slave_procs L msgs sl = Some sl' \<Longrightarrow> packets_ok msgs \<Longrightarrow> buffer_wf (lk_input link) \<Longrightarrow>
    b_view (lk_input link) = concat (map packet msgs) \<Longrightarrow>
    \<exists>link'. slave_read_loop env f L sl link = Some (sl', Some link') \<and>
      buffer_wf (lk_input link') \<and> b_view (lk_input link') = [] \<and>
      b_room env (lk_input link') = b_room env (lk_input link)"
proof (induction msgs arbitrary: sl link)
  case Nil
  have "b_size (lk_input link) = 0"
    using Nil.prems(3,4) length_b_view [of "lk_input link"] by (auto simp: buffer_wf_def)
  then have "link_recv_req env f link = Some (Some [], link\<lparr>lk_recv_data := []\<rparr>)"
    by (simp add: link_recv_req_def b_empty_def)
  then show ?case using Nil.prems by (subst slave_read_loop.simps) simp
next
  case (Cons msg msgs)
  have msg: "msg \<noteq> []" "int (length (packet msg)) \<le> MAX_PACKET_SIZE" using Cons.prems(2) by simp_all
  have "b_view (lk_input link) = packet msg @ concat (map packet msgs)" using Cons.prems(4) by simp
  from packet_received_lemma [OF Cons.prems(3) this msg, of env f]
  obtain link1 where l1: "link_recv_req env f link = Some (Some msg, link1)" "buffer_wf (lk_input link1)"
    "b_view (lk_input link1) = concat (map packet msgs)"
    "lk_input link1 = b_decr (int (length (packet msg))) (lk_input link)" by blast
  then have room: "b_room env (lk_input link1) = b_room env (lk_input link)"
    by (simp add: b_room_def b_decr_def)
  obtain r sl1 where sl1: "slave_proc L msg sl = Some (r, sl1)" "slave_procs L msgs sl1 = Some sl'"
    using Cons.prems(1) by (auto simp: bind_eq_Some_conv)
  have step: "slave_read_loop env f L sl link = slave_read_loop env f L sl1 link1"
    using l1(1) sl1(1) msg(1) by (subst slave_read_loop.simps) (auto split: list.splits)
  show ?case using Cons.IH [OF sl1(2) _ l1(2,3)] Cons.prems(2) room by (simp add: step)
qed

lemma on_read_runs:
  assumes "slave_procs L msgs sl = Some sl'" "packets_ok msgs" "msgs \<noteq> []"
    "buffer_wf (lk_input link)" "b_view (lk_input link) = []"
    "data = concat (map packet msgs)" "int (length data) \<le> b_room env (lk_input link)"
  shows "\<exists>link'. slave_onRead env f L (int (length data)) data sl link = Some (sl', Some link') \<and>
    buffer_wf (lk_input link') \<and> b_view (lk_input link') = [] \<and>
    b_room env (lk_input link') \<ge> b_room env (lk_input link) - int (length data)"
proof -
  obtain r b' where a: "b_append env data (lk_input link) = Some (r, b')" "r \<noteq> - 1"
    "b_room env b' \<ge> b_room env (lk_input link) - int (length data)"
    using b_append_room [OF assms(4,7)] by blast
  have v: "buffer_wf b'" "b_view b' = concat (map packet msgs)"
    using app.push_spec [OF assms(4) a(1)] a(2) assms(5,6) by auto
  have "packet (hd msgs) \<noteq> []" by (simp add: packet_def)
  then have pos: "0 < length data" using assms(3,6) by (cases msgs) auto
  have c: "copy2Buffer env data link = Some (link\<lparr>lk_input := b'\<rparr>)" using a(1) by (simp add: copy2Buffer_def)
  show ?thesis
    using read_loop_runs [OF assms(1,2), of "link\<lparr>lk_input := b'\<rparr>" env f] v pos c a(3)
    by (auto simp: slave_onRead_def)
qed

section \<open>The saved position: lemmas\<close>

text \<open>
  The invariant of a slave: its databases are well formed with room for \<open>b\<close> more messages
  (each writes the data once and the status twice), and the status hash holds the two fields
  of the position only.
\<close>

definition status_wf :: "store \<Rightarrow> bytes \<Rightarrow> bool" where
  "status_wf m key \<longleftrightarrow> length key \<le> 255 \<and> dom (hash_view m key) \<subseteq> {''last_key'', ''last_seq''}"

definition slave_inv :: "('db \<Rightarrow> store) \<Rightarrow> nat \<Rightarrow> 'db Slave \<Rightarrow> bool" where
  "slave_inv contents b sl \<longleftrightarrow>
     ssdb_inv contents b (sl_ssdb sl) \<and> ssdb_inv contents (2 * b) (sl_meta sl) \<and>
     status_wf (contents (ss_ldb (sl_meta sl))) (status_key sl)"

lemma status_size:
  assumes "ssdb_inv contents b s" "status_wf (contents (ss_ldb s)) key"
  shows "fits64 (hsize_rep (contents (ss_ldb s)) key + 1)"
proof -
  have "card (dom (hash_view (contents (ss_ldb s)) key)) \<le> card {''last_key'', ''last_seq''}"
    using assms(2) by (intro card_mono) (auto simp: status_wf_def)
  moreover have "hsize_rep (contents (ss_ldb s)) key = int (card (dom (hash_view (contents (ss_ldb s)) key)))"
    using assms by (simp add: ssdb_inv_def hash_wf_def status_wf_def SSDB_KEY_LEN_MAX_def)
  ultimately show ?thesis by (simp add: fits64_def)
qed

context leveldb_reliable
begin

text \<open>Writing one field of the position.\<close>

lemma hset_status:
  assumes "ssdb_inv contents (Suc b) s" "status_wf (contents (ss_ldb s)) name" "name \<noteq> []"
    "key = ''last_key'' \<or> key = ''last_seq''"
  shows "\<exists>r s'. ssdb_hset L name key val t s = Some (r, s') \<and> ssdb_inv contents b s' \<and>
    status_wf (contents (ss_ldb s')) name \<and>
    hash_view (contents (ss_ldb s')) name = (hash_view (contents (ss_ldb s)) name)(key \<mapsto> val) \<and>
    (\<forall>k. raw_key k \<longrightarrow> contents (ss_ldb s') k = contents (ss_ldb s) k)"
proof -
  have len: "length name \<le> 255" using assms(2) by (simp add: status_wf_def)
  have valid: "True \<longleftrightarrow> 1 \<le> length name \<and> length name \<le> 255 \<and> 1 \<le> length key \<and> length key \<le> 255"
    using assms(3,4) len by (auto simp: Suc_le_eq)
  from hset_spec [OF leveldb_reliable_axioms assms(1) refl status_size [OF assms(1,2)] valid, of val t]
  obtain r s' where s': "ssdb_hset L name key val t s = Some (r, s')" "ssdb_inv contents b s'"
    "hash_view (contents (ss_ldb s')) name = (hash_view (contents (ss_ldb s)) name)(key \<mapsto> val)"
    "\<forall>k. raw_key k \<longrightarrow> contents (ss_ldb s') k = contents (ss_ldb s) k"
    using len by auto
  moreover have "status_wf (contents (ss_ldb s')) name"
    using assms(2,4) s'(3) by (auto simp: status_wf_def)
  ultimately show ?thesis by blast
qed

lemma save_status_spec:
  assumes "ssdb_inv contents (Suc (Suc b)) (sl_meta sl)" "status_wf (contents (ss_ldb (sl_meta sl))) (status_key sl)"
  shows "\<exists>meta. save_status L sl = Some (sl\<lparr>sl_meta := meta\<rparr>) \<and> ssdb_inv contents b meta \<and>
    status_wf (contents (ss_ldb meta)) (status_key sl) \<and>
    hash_view (contents (ss_ldb meta)) (status_key sl) =
      [''last_key'' \<mapsto> sl_last_key sl, ''last_seq'' \<mapsto> str_uint64 (sl_last_seq sl)] \<and>
    (\<forall>k. raw_key k \<longrightarrow> contents (ss_ldb meta) k = contents (ss_ldb (sl_meta sl)) k)"
proof -
  have ne: "status_key sl \<noteq> []" by (simp add: status_key_def)
  from hset_status [OF assms ne, of "''last_key''" "sl_last_key sl" BT_SYNC]
  obtain r1 m1 where m1: "ssdb_hset L (status_key sl) ''last_key'' (sl_last_key sl) BT_SYNC (sl_meta sl) = Some (r1, m1)"
    "ssdb_inv contents (Suc b) m1" "status_wf (contents (ss_ldb m1)) (status_key sl)"
    "hash_view (contents (ss_ldb m1)) (status_key sl) =
      (hash_view (contents (ss_ldb (sl_meta sl))) (status_key sl))(''last_key'' \<mapsto> sl_last_key sl)"
    "\<forall>k. raw_key k \<longrightarrow> contents (ss_ldb m1) k = contents (ss_ldb (sl_meta sl)) k" by auto
  from hset_status [OF m1(2,3) ne, of "''last_seq''" "str_uint64 (sl_last_seq sl)" BT_SYNC]
  obtain r2 m2 where m2: "ssdb_hset L (status_key sl) ''last_seq'' (str_uint64 (sl_last_seq sl)) BT_SYNC m1 = Some (r2, m2)"
    "ssdb_inv contents b m2" "status_wf (contents (ss_ldb m2)) (status_key sl)"
    "hash_view (contents (ss_ldb m2)) (status_key sl) =
      (hash_view (contents (ss_ldb m1)) (status_key sl))(''last_seq'' \<mapsto> str_uint64 (sl_last_seq sl))"
    "\<forall>k. raw_key k \<longrightarrow> contents (ss_ldb m2) k = contents (ss_ldb m1) k" by auto
  have "hash_view (contents (ss_ldb (sl_meta sl))) (status_key sl) k = None"
    if "k \<noteq> ''last_key''" "k \<noteq> ''last_seq''" for k
    using assms(2) that by (auto simp: status_wf_def subset_iff domIff)
  then have "hash_view (contents (ss_ldb m2)) (status_key sl) =
      [''last_key'' \<mapsto> sl_last_key sl, ''last_seq'' \<mapsto> str_uint64 (sl_last_seq sl)]"
    using m1(4) m2(4) by (auto simp: fun_eq_iff)
  then show ?thesis using m1(1,5) m2(1-3,5) by (auto simp: save_status_def Let_def)
qed

lemma load_status_spec:
  assumes "hash_view (contents (ss_ldb (sl_meta sl))) (status_key sl) =
      [''last_key'' \<mapsto> key, ''last_seq'' \<mapsto> str_uint64 sq]"
  shows "load_status L sl =
    Some (sl\<lparr>sl_last_key := (if key = [] then sl_last_key sl else key), sl_last_seq := sq\<rparr>)"
proof -
  have "ssdb_hget L (status_key sl) ''last_key'' [] (sl_meta sl) = (1, key)"
    "ssdb_hget L (status_key sl) ''last_seq'' [] (sl_meta sl) = (1, str_uint64 sq)"
    using fun_cong [OF assms, of "''last_key''"] fun_cong [OF assms, of "''last_seq''"]
    by (simp_all add: ssdb_hget_def lookup_spec hash_view_def)
  moreover have "str_uint64 sq \<noteq> []" by (simp add: str_uint64_def snprintf_def)
  ultimately show ?thesis by (simp add: load_status_def uint64_parse_str)
qed

end

section \<open>Applying changes: lemmas\<close>

text \<open>What a message of the master means for the key-value map.\<close>

definition apply_change :: "bytes list \<Rightarrow> store \<Rightarrow> store" where
  "apply_change msg m =
     (case Binlog_key (msg ! 0) of
        Some (_ # k) \<Rightarrow>
          if Binlog_cmd (msg ! 0) = Some BC_KSET \<and> length msg = 2 \<and> k \<noteq> [] then m(k \<mapsto> msg ! 1)
          else if Binlog_cmd (msg ! 0) = Some BC_KDEL then m(k := None) else m
      | _ \<Rightarrow> m)"

text \<open>A message that carries a log record of the master.\<close>

definition sync_message :: "bytes list \<Rightarrow> bool" where
  "sync_message msg \<longleftrightarrow> msg \<noteq> [] \<and> HEADER_LEN \<le> length (msg ! 0) \<and>
     (Binlog_type (msg ! 0) = Some BT_SYNC \<or> Binlog_type (msg ! 0) = Some BT_MIRROR)"

lemma record_fields:
  assumes "HEADER_LEN \<le> length log"
  shows "\<exists>cmd ty. Binlog_cmd log = Some cmd \<and> Binlog_type log = Some ty \<and>
    Binlog_key log = Some (drop HEADER_LEN log) \<and> Binlog_seq log = Some (read64 log)"
  using assms
  by (auto simp: Binlog_key_def Binlog_type_def Binlog_cmd_def Binlog_seq_def str_at_def HEADER_LEN_def)

lemma decode_kv_Nil: "decode_kv_key [] k = (- 1, k)"
  by (simp add: decode_kv_key_def dec_skip_def)

lemma decode_kv_Cons: "decode_kv_key (c # k) k' = (0, k)"
  by (simp add: decode_kv_key_def dec_skip_def dec_read_data_def)

context leveldb_reliable
begin

text \<open>The part of \<open>proc_sync\<close> that writes the data.\<close>

lemma proc_sync_spec:
  assumes "slave_inv contents (Suc b) sl" "msg \<noteq> []" "HEADER_LEN \<le> length (msg ! 0)"
  shows "\<exists>sl'. proc_sync L (msg ! 0) msg sl = Some (0, sl') \<and> slave_inv contents b sl' \<and>
    kv_view (contents (ss_ldb (sl_ssdb sl'))) = apply_change msg (kv_view (contents (ss_ldb (sl_ssdb sl)))) \<and>
    sl_last_seq sl' = read64 (msg ! 0) \<and> sl_status sl' = sl_status sl \<and> sl_id sl' = sl_id sl \<and>
    sl_last_key sl' = (if Binlog_type (msg ! 0) = Some BT_COPY then drop HEADER_LEN (msg ! 0) else sl_last_key sl) \<and>
    hash_view (contents (ss_ldb (sl_meta sl'))) (status_key sl) =
      [''last_key'' \<mapsto> sl_last_key sl', ''last_seq'' \<mapsto> str_uint64 (sl_last_seq sl')] \<and>
    (\<forall>k. raw_key k \<longrightarrow> contents (ss_ldb (sl_meta sl')) k = contents (ss_ldb (sl_meta sl)) k)"
proof -
  define log where "log = msg ! 0"
  obtain cmd ty where f: "Binlog_cmd log = Some cmd" "Binlog_type log = Some ty"
    "Binlog_key log = Some (drop HEADER_LEN log)" "Binlog_seq log = Some (read64 log)"
    using record_fields [OF assms(3), folded log_def] by blast
  have inv: "ssdb_inv contents (Suc b) (sl_ssdb sl)" "ssdb_inv contents (Suc (Suc (2 * b))) (sl_meta sl)"
    "status_wf (contents (ss_ldb (sl_meta sl))) (status_key sl)"
    using assms(1) by (simp_all add: slave_inv_def)
  define db where "db = (case drop HEADER_LEN log of [] \<Rightarrow> sl_ssdb sl
      | _ # k \<Rightarrow> if cmd = BC_KSET \<and> length msg = 2 then snd (ssdb_set L k (msg ! 1) (sl_ssdb sl))
               else if cmd = BC_KDEL then snd (ssdb_del L k (sl_ssdb sl)) else sl_ssdb sl)"
  have db: "ssdb_inv contents b db"
    "kv_view (contents (ss_ldb db)) = apply_change msg (kv_view (contents (ss_ldb (sl_ssdb sl))))"
    using kv.put_view [OF inv(1)] kv.remove_spec [OF inv(1)] ssdb_inv_mono [OF inv(1)] f
    by (auto simp: db_def apply_change_def log_def [symmetric] split: list.splits) (metis snd_conv)+
  define sl1 where "sl1 = sl\<lparr>sl_ssdb := db, sl_last_seq := read64 log,
      sl_last_key := (if ty = BT_COPY then drop HEADER_LEN log else sl_last_key sl)\<rparr>"
  have key: "status_key sl1 = status_key sl" by (simp add: sl1_def status_key_def)
  from save_status_spec [of "2 * b" sl1] inv(2,3)
  obtain meta where m: "save_status L sl1 = Some (sl1\<lparr>sl_meta := meta\<rparr>)" "ssdb_inv contents (2 * b) meta"
    "status_wf (contents (ss_ldb meta)) (status_key sl)"
    "hash_view (contents (ss_ldb meta)) (status_key sl) =
      [''last_key'' \<mapsto> sl_last_key sl1, ''last_seq'' \<mapsto> str_uint64 (sl_last_seq sl1)]"
    "\<forall>k. raw_key k \<longrightarrow> contents (ss_ldb meta) k = contents (ss_ldb (sl_meta sl)) k"
    by (auto simp: key) (auto simp: sl1_def)
  have put: "fst (ssdb_set L k v (sl_ssdb sl)) \<noteq> - 1" for k v by (rule kv.put_ret [OF inv(1)])
  have rem: "fst (ssdb_del L k (sl_ssdb sl)) \<noteq> - 1" for k using del_total [of k "sl_ssdb sl"] by simp
  have "proc_sync L log msg sl = Some (0, sl1\<lparr>sl_meta := meta\<rparr>)"
    using m(1) put rem
    by (cases "drop HEADER_LEN log")
      (auto simp: proc_sync_def f Let_def decode_kv_Nil decode_kv_Cons db_def sl1_def case_prod_unfold)
  then show ?thesis
    using db m f by (auto simp: slave_inv_def log_def [symmetric] sl1_def status_key_def)
qed

text \<open>A record of the master, as the dispatcher of messages handles it.\<close>

lemma slave_proc_sync:
  assumes "slave_inv contents (Suc b) sl" "sync_message msg"
  shows "\<exists>sl'. slave_proc L msg sl = Some (0, sl') \<and> slave_inv contents b sl' \<and>
    kv_view (contents (ss_ldb (sl_ssdb sl'))) = apply_change msg (kv_view (contents (ss_ldb (sl_ssdb sl)))) \<and>
    sl_last_seq sl' = read64 (msg ! 0) \<and> sl_status sl' = Some SL_SYNC \<and> sl_id sl' = sl_id sl \<and>
    sl_last_key sl' = sl_last_key sl \<and>
    hash_view (contents (ss_ldb (sl_meta sl'))) (status_key sl) =
      [''last_key'' \<mapsto> sl_last_key sl', ''last_seq'' \<mapsto> str_uint64 (sl_last_seq sl')] \<and>
    (\<forall>k. raw_key k \<longrightarrow> contents (ss_ldb (sl_meta sl')) k = contents (ss_ldb (sl_meta sl)) k)"
proof -
  have m: "msg \<noteq> []" "HEADER_LEN \<le> length (msg ! 0)"
    "Binlog_type (msg ! 0) = Some BT_SYNC \<or> Binlog_type (msg ! 0) = Some BT_MIRROR"
    using assms(2) by (simp_all add: sync_message_def)
  define sl0 where "sl0 = sl\<lparr>sl_status := Some SL_SYNC, sl_sync_count := sl_sync_count sl + 1\<rparr>"
  have "slave_inv contents (Suc b) sl0" using assms(1) by (simp add: slave_inv_def sl0_def status_key_def)
  from proc_sync_spec [OF this m(1,2)] obtain sl' where
    sl': "proc_sync L (msg ! 0) msg sl0 = Some (0, sl')" "slave_inv contents b sl'"
      "kv_view (contents (ss_ldb (sl_ssdb sl'))) = apply_change msg (kv_view (contents (ss_ldb (sl_ssdb sl0))))"
      "sl_last_seq sl' = read64 (msg ! 0)" "sl_status sl' = sl_status sl0" "sl_id sl' = sl_id sl0"
      "sl_last_key sl' = (if Binlog_type (msg ! 0) = Some BT_COPY then drop HEADER_LEN (msg ! 0) else sl_last_key sl0)"
      "hash_view (contents (ss_ldb (sl_meta sl'))) (status_key sl0) =
        [''last_key'' \<mapsto> sl_last_key sl', ''last_seq'' \<mapsto> str_uint64 (sl_last_seq sl')]"
      "\<forall>k. raw_key k \<longrightarrow> contents (ss_ldb (sl_meta sl')) k = contents (ss_ldb (sl_meta sl0)) k" by blast
  obtain r0 rest where msg: "msg = r0 # rest" using m(1) by (cases msg) auto
  have "slave_proc L msg sl = Some (0, sl')"
    using m(2,3) sl'(1) by (auto simp: slave_proc_def msg sl0_def)
  moreover have "Binlog_type (msg ! 0) \<noteq> Some BT_COPY" using m(3) by auto
  ultimately show ?thesis using sl' by (simp add: sl0_def status_key_def)
qed

text \<open>A stream of records is applied in order.\<close>

lemma procs_apply:
  "\<forall>msg \<in> set msgs. sync_message msg \<Longrightarrow> slave_inv contents (length msgs + b) sl \<Longrightarrow>
    \<exists>sl'. slave_procs L msgs sl = Some sl' \<and> slave_inv contents b sl' \<and>
      kv_view (contents (ss_ldb (sl_ssdb sl'))) =
        fold apply_change msgs (kv_view (contents (ss_ldb (sl_ssdb sl)))) \<and>
      sl_id sl' = sl_id sl \<and> sl_last_key sl' = sl_last_key sl \<and>
      sl_last_seq sl' = (if msgs = [] then sl_last_seq sl else read64 (last msgs ! 0))"
proof (induction msgs arbitrary: sl)
  case (Cons msg msgs)
  have "sync_message msg" "slave_inv contents (Suc (length msgs + b)) sl" using Cons.prems by simp_all
  from slave_proc_sync [OF this(2,1)] obtain sl1 where
    sl1: "slave_proc L msg sl = Some (0, sl1)" "slave_inv contents (length msgs + b) sl1"
      "kv_view (contents (ss_ldb (sl_ssdb sl1))) = apply_change msg (kv_view (contents (ss_ldb (sl_ssdb sl))))"
      "sl_last_seq sl1 = read64 (msg ! 0)" "sl_id sl1 = sl_id sl" "sl_last_key sl1 = sl_last_key sl" by blast
  have "\<forall>msg \<in> set msgs. sync_message msg" using Cons.prems(1) by simp
  from Cons.IH [OF this sl1(2)] show ?case using sl1 by auto
qed simp

lemma on_read_applies:
  assumes "slave_inv contents (length msgs + b) sl"
    "\<And>msg. msg \<in> set msgs \<Longrightarrow> sync_message msg \<and> int (length (packet msg)) \<le> MAX_PACKET_SIZE"
    "msgs \<noteq> []" "buffer_wf (lk_input link)" "b_view (lk_input link) = []"
    "data = concat (map packet msgs)" "int (length data) \<le> b_room env (lk_input link)"
  shows "\<exists>sl' link'. slave_onRead env f L (int (length data)) data sl link = Some (sl', Some link') \<and>
    slave_inv contents b sl' \<and>
    kv_view (contents (ss_ldb (sl_ssdb sl'))) =
      fold apply_change msgs (kv_view (contents (ss_ldb (sl_ssdb sl)))) \<and>
    sl_last_seq sl' = read64 (last msgs ! 0) \<and> b_view (lk_input link') = []"
proof -
  have "packets_ok msgs" using assms(2) by (auto simp: packets_ok_def sync_message_def)
  with procs_apply [OF _ assms(1)] on_read_runs [OF _ _ assms(3-7)] assms(2,3) show ?thesis
    by (metis (no_types, lifting))
qed

text \<open>The position survives a restart.\<close>

lemma restart_position:
  assumes "hash_view (contents (ss_ldb meta)) (status_key sl) =
      [''last_key'' \<mapsto> key, ''last_seq'' \<mapsto> str_uint64 sq]"
    "contents (ss_ldb meta) (''new.slave.status|'' @ sl_id sl) = None"
    "sl = Slave_new db meta ip_addr port_no" "ip_addr \<noteq> []" "0 < port_no"
  shows "slave_start L sl = Some (Connecting, sl\<lparr>sl_last_key := key, sl_last_seq := sq\<rparr>)"
proof -
  have meta: "sl_meta sl = meta" "sl_last_key sl = []" "sl_master_ip sl = ip_addr" "sl_master_port sl = port_no"
    using assms(3) by (simp_all add: Slave_new_def)
  have "migrate_old_status L sl = Some (False, sl)"
    using assms(2) by (simp add: migrate_old_status_def ssdb_raw_get_def lookup_spec meta(1))
  moreover have "load_status L sl = Some (sl\<lparr>sl_last_key := key, sl_last_seq := sq\<rparr>)"
    using load_status_spec [of sl key sq] assms(1) meta(1,2) by (auto simp: status_key_def)
  ultimately show ?thesis using assms(4,5) meta by (simp add: slave_start_def)
qed

end

section \<open>Properties\<close>

text \<open>
  C11. Applying a record: over databases that report no I/O error, a record of the master is
  applied to the slave's key-value map (a set with its value, a deletion, anything else leaves
  it alone), the slave's position becomes the record's number, and a slave process started
  later on the same databases for the same master resumes exactly at that position.
\<close>

theorem record_applied_and_position_survives:
  assumes "leveldb_reliable L contents snapshot cursor" "slave_inv contents (Suc b) sl" "sync_message msg"
    "sl_id sl = sl_id (Slave_new db meta ip_addr port_no :: 'db Slave)" "ip_addr \<noteq> []" "0 < port_no"
    "contents (ss_ldb (sl_meta sl)) (''new.slave.status|'' @ sl_id sl) = None"
  shows "\<exists>sl' sl2. slave_proc L msg sl = Some (0, sl') \<and> slave_inv contents b sl' \<and>
    kv_view (contents (ss_ldb (sl_ssdb sl'))) = apply_change msg (kv_view (contents (ss_ldb (sl_ssdb sl)))) \<and>
    sl2 = Slave_new (sl_ssdb sl') (sl_meta sl') ip_addr port_no \<and>
    slave_start L sl2 =
      Some (Connecting, sl2\<lparr>sl_last_key := sl_last_key sl, sl_last_seq := read64 (msg ! 0)\<rparr>)"
proof -
  from leveldb_reliable.slave_proc_sync [OF assms(1-3)] obtain sl' where
    sl': "slave_proc L msg sl = Some (0, sl')" "slave_inv contents b sl'"
      "kv_view (contents (ss_ldb (sl_ssdb sl'))) = apply_change msg (kv_view (contents (ss_ldb (sl_ssdb sl))))"
      "hash_view (contents (ss_ldb (sl_meta sl'))) (status_key sl) =
        [''last_key'' \<mapsto> sl_last_key sl, ''last_seq'' \<mapsto> str_uint64 (read64 (msg ! 0))]"
      "\<forall>k. raw_key k \<longrightarrow> contents (ss_ldb (sl_meta sl')) k = contents (ss_ldb (sl_meta sl)) k" by auto
  define sl2 where "sl2 = Slave_new (sl_ssdb sl') (sl_meta sl') ip_addr port_no"
  have id: "sl_id sl2 = sl_id sl" using assms(4) by (simp add: sl2_def Slave_new_def)
  have "raw_key (''new.slave.status|'' @ sl_id sl)" by (simp add: raw_key_def)
  then have old: "contents (ss_ldb (sl_meta sl')) (''new.slave.status|'' @ sl_id sl2) = None"
    using sl'(5) assms(7) by (simp add: id)
  have "slave_start L sl2 =
      Some (Connecting, sl2\<lparr>sl_last_key := sl_last_key sl, sl_last_seq := read64 (msg ! 0)\<rparr>)"
    using leveldb_reliable.restart_position [OF assms(1) _ old sl2_def assms(5,6)] sl'(4)
    by (simp add: status_key_def id)
  then show ?thesis using sl'(1-3) sl2_def by blast
qed

definition sample_slave :: "mem_db Slave" where
  "sample_slave = Slave_new sample_db sample_db ''127.0.0.1'' 8888"

lemma sample_slave_inv: "b < 1000 \<Longrightarrow> slave_inv mem_contents b sample_slave"
  using sample_db_inv [of b] sample_db_inv [of "2 * b"]
  by (simp add: slave_inv_def sample_slave_def Slave_new_def status_wf_def status_key_def
      snprintf_def sample_db_def mem_contents_def hash_view_def)

theorem record_applied_and_position_survives_witness:
  "\<exists>sl'. slave_proc mem_ldb [Binlog_new 7 BT_SYNC BC_KSET ''ka'', ''1''] sample_slave = Some (0, sl') \<and>
     kv_view (mem_contents (ss_ldb (sl_ssdb sl'))) = [''a'' \<mapsto> ''1'']"
proof -
  have "sync_message [Binlog_new 7 BT_SYNC BC_KSET ''ka'', ''1'']"
    by (simp add: sync_message_def length_Binlog_new)
  from record_applied_and_position_survives [OF mem.leveldb_reliable_axioms sample_slave_inv this,
      of 0 sample_db sample_db "''127.0.0.1''" 8888]
  show ?thesis
    by (force simp: sample_slave_def Slave_new_def sample_db_def mem_contents_def apply_change_def kv_view_def)
qed

text \<open>
  The stream of the master: when a read delivers any number of complete records to a
  link with an empty buffer, every one is applied, in the order sent, the last record's number
  is the new position, and the buffer is empty again.
\<close>

lemma slave_applies_stream:
  assumes "leveldb_reliable L contents snapshot cursor" "slave_inv contents (length msgs + b) sl"
    "\<And>msg. msg \<in> set msgs \<Longrightarrow> sync_message msg \<and> int (length (packet msg)) \<le> MAX_PACKET_SIZE"
    "msgs \<noteq> []" "buffer_wf (lk_input link)" "b_view (lk_input link) = []"
    "data = concat (map packet msgs)" "int (length data) \<le> b_room env (lk_input link)"
  shows "\<exists>sl' link'. slave_onRead env f L (int (length data)) data sl link = Some (sl', Some link') \<and>
    slave_inv contents b sl' \<and>
    kv_view (contents (ss_ldb (sl_ssdb sl'))) =
      fold apply_change msgs (kv_view (contents (ss_ldb (sl_ssdb sl)))) \<and>
    sl_last_seq sl' = read64 (last msgs ! 0) \<and> b_view (lk_input link') = []"
  using leveldb_reliable.on_read_applies [OF assms, of f] by blast

theorem slave_applies_stream_witness:
  "\<exists>sl' link'. slave_onRead zero_env (\<lambda>_. None) mem_ldb
       (int (length (packet [Binlog_new 8 BT_SYNC BC_KDEL ''ka''])))
       (packet [Binlog_new 8 BT_SYNC BC_KDEL ''ka'']) sample_slave (Link_new zero_env) = Some (sl', Some link') \<and>
     sl_last_seq sl' = 8"
proof -
  define msg where "msg = [Binlog_new 8 BT_SYNC BC_KDEL ''ka'']"
  have len: "int (length (packet msg)) \<le> 31"
    using packet_cost [of msg] by (simp add: msg_def length_Binlog_new HEADER_LEN_def)
  have msg: "sync_message msg" "read64 (msg ! 0) = 8"
    by (simp_all add: sync_message_def msg_def length_Binlog_new) (simp add: Binlog_new_def)
  have "\<exists>sl' link'. slave_onRead zero_env (\<lambda>_. None) mem_ldb (int (length (packet msg))) (packet msg)
      sample_slave (Link_new zero_env) = Some (sl', Some link') \<and> slave_inv mem_contents 0 sl' \<and>
    kv_view (mem_contents (ss_ldb (sl_ssdb sl'))) =
      fold apply_change [msg] (kv_view (mem_contents (ss_ldb (sl_ssdb sample_slave)))) \<and>
    sl_last_seq sl' = read64 (last [msg] ! 0) \<and> b_view (lk_input link') = []"
    by (rule slave_applies_stream [OF mem.leveldb_reliable_axioms])
      (use len msg in \<open>auto simp: sample_slave_inv MAX_PACKET_SIZE_def Link_new_def INIT_BUFFER_SIZE_def
          b_view_def b_room_def Buffer_new_def zero_env_def buffer_wf_def\<close>)
  then show ?thesis using msg(2) by (auto simp: msg_def)
qed

end
