(* ===== verification/Server_Main.thy ===== *)
theory Server_Main
  imports Config_File Server_Procs Slave_Node
begin

text \<open>
  Start-up of the server: \<open>run\<close> of src/ssdb/src/ssdb\_server.cpp and the constructor of
  \<open>SSDBServer\<close> in serv.cpp, composed from the modelled parts, from the bytes of the
  configuration file on.  Opening a LevelDB database and the four libuv calls that set up the
  listening socket are arguments.  \<^term>\<open>None\<close> is undefined behaviour, here the use of a null
  database or network server.
\<close>

section \<open>The code\<close>

text \<open>
  The constructor registers the handlers, makes the master side and the slave, and starts the
  slave.  The meta database may be null: it is not touched unless the configuration names a
  master.
\<close>

definition SSDBServer_new ::
  "('db, 'it) leveldb \<Rightarrow> 'db SSDBImpl \<Rightarrow> 'db SSDBImpl option \<Rightarrow> 'db SSDBServer NetworkServer option \<Rightarrow> Config \<Rightarrow>
   (start_result \<times> 'db SSDBServer NetworkServer \<times> 'db Slave option) option" where
  "SSDBServer_new L ssdb meta net cf = do {
     net \<leftarrow> net;
     let net = reg_procs L (net\<lparr>ns_data := \<lparr>sv_ssdb = ssdb, sv_meta = meta, sv_sync = []\<rparr>\<rparr>);
     (case meta of
        None \<Rightarrow> if master_ip cf = [] \<or> master_port cf \<le> 0 then Some (NotSlave, net, None) else None
      | Some meta \<Rightarrow> do {
          (started, slave) \<leftarrow> slave_start L (Slave_new ssdb meta (master_ip cf) (master_port cf));
          Some (started, net, Some slave) }) }"

datatype ('net, 'slave) run_result =
  Returned int | ExitedWith int | Uncaught load_exn | Serving 'net 'slave

definition server_run ::
  "('db, 'it) leveldb \<Rightarrow> (leveldb_options \<Rightarrow> bytes \<Rightarrow> leveldb_status \<times> 'db) \<Rightarrow> bool \<Rightarrow>
   int \<times> int \<times> int \<times> int \<Rightarrow> 'db SSDBServer \<Rightarrow> int \<Rightarrow>
   (bytes \<Rightarrow> (int \<times> int) option) \<Rightarrow> bool \<Rightarrow> istream \<Rightarrow>
   ('db SSDBServer NetworkServer, 'db Slave option) run_result option" where
  "server_run L DB_Open default_snappy uv garbage argc strtod fail fp =
     (if argc \<le> 1 then Some (Returned 0)
      else case Config_load_file strtod fail fp of
        None \<Rightarrow> None
      | Some (Inl e) \<Rightarrow> Some (Uncaught e)
      | Some (Inr cf) \<Rightarrow> do {
          data_db \<leftarrow> SSDB_open L DB_Open default_snappy cf (data_dir cf);
          (case data_db of
             None \<Rightarrow> Some (ExitedWith 1)
           | Some ssdb \<Rightarrow> do {
               meta_db \<leftarrow> SSDB_open L DB_Open default_snappy cf (meta_dir cf);
               (started, net, slave) \<leftarrow> SSDBServer_new L ssdb meta_db
                 (case uv of (r1, r2, r3, r4) \<Rightarrow> NetworkServer_init r1 r2 r3 r4 garbage) cf;
               if started = Exited then Some (ExitedWith 1) else Some (Serving net slave) }) })"

section \<open>Lemmas\<close>

lemma SSDB_open_opened:
  assumes "open_options d cf = Some opts" "DB_Open opts dir = (status, ldb)" "st_ok status"
    "BinlogQueue_new L ldb 20000000 = Some q"
  shows "SSDB_open L DB_Open d cf dir = Some (Some \<lparr>ss_options = opts, ss_binlogs = q\<rparr>)"
  using assms by (simp add: SSDB_open_def)

lemma SSDB_open_refused:
  assumes "open_options d cf = Some opts" "DB_Open opts dir = (status, ldb)" "\<not> st_ok status"
  shows "SSDB_open L DB_Open d cf dir = Some None"
  using assms by (simp add: SSDB_open_def)

lemma slave_start_not_slave:
  "ip_addr = [] \<or> port_no \<le> 0 \<Longrightarrow> slave_start L (Slave_new s m ip_addr port_no) = Some (NotSlave, Slave_new s m ip_addr port_no)"
  by (auto simp: slave_start_def Slave_new_def)

lemma reg_procs_fields [simp]:
  "ns_data (reg_procs L net) = ns_data net" "ns_link_count (reg_procs L net) = ns_link_count net"
  by (simp_all add: reg_procs_def)

section \<open>Properties\<close>

text \<open>
  C1. A server that is not a slave starts: when the configuration can be read, both databases
  open with well-formed logs and the socket calls succeed, \<open>run\<close> ends up serving with all six
  commands registered, with the data of the database on disk and the sequence number recovered
  from its log; and a \<open>get\<close> request of a Redis client is answered with the value on disk.
\<close>

theorem server_starts:
  assumes "leveldb_reliable L contents snapshot cursor" "1 < argc" "Config_load_file strtod fail fp = Some (Inr cf)"
    "open_options d cf = Some opts" "master_ip cf = [] \<or> master_port cf \<le> 0"
    "DB_Open opts (data_dir cf) = (st1, db1)" "st_ok st1" "log_wf (contents db1) n1"
    "DB_Open opts (meta_dir cf) = (st2, db2)" "st_ok st2" "log_wf (contents db2) n2"
  shows "\<exists>net slave. server_run L DB_Open d (0, 0, 0, 0) g argc strtod fail fp = Some (Serving net slave) \<and> registered L net \<and>
    ss_ldb (sv_ssdb (ns_data net)) = db1 \<and> bq_last_seq (ss_binlogs (sv_ssdb (ns_data net))) = n1 \<and> ns_link_count net = 0 \<and>
    (\<forall>env k link. (\<forall>n. realloc_ok env n) \<longrightarrow> rl_req_desc (lk_redis link) = cmd_table ''get'' \<longrightarrow>
       (\<forall>v. kv_view (contents db1) k = Some v \<longrightarrow> int (length v) + 20 \<le> 2 ^ 30) \<longrightarrow>
       link_proc env [''get'', k] net link = Some (PROC_OK, net, link\<lparr>lk_out := lk_out link @
         [case kv_view (contents db1) k of None \<Rightarrow> ''$-1'' @ CRLF | Some v \<Rightarrow> bulk v]\<rparr>))"
proof -
  have api: "leveldb_api L contents snapshot cursor" using assms(1) by (rule leveldb_reliable.axioms(1))
  obtain q1 q2 where q: "BinlogQueue_new L db1 20000000 = Some q1" "bq_last_seq q1 = n1" "bq_db q1 = db1"
    "BinlogQueue_new L db2 20000000 = Some q2"
    using leveldb_api.queue_recovers [OF api assms(8)] leveldb_api.queue_recovers [OF api assms(11)] by auto
  note opened = SSDB_open_opened [of d cf opts DB_Open "data_dir cf", OF assms(4,6,7) q(1)]
    SSDB_open_opened [of d cf opts DB_Open "meta_dir cf", OF assms(4,9,10) q(4)]
  obtain net slave where run: "server_run L DB_Open d (0, 0, 0, 0) g argc strtod fail fp = Some (Serving net slave)"
    and net: "registered L net" "ss_ldb (sv_ssdb (ns_data net)) = db1"
    "bq_last_seq (ss_binlogs (sv_ssdb (ns_data net))) = n1" "ns_link_count net = 0"
    using assms(2,3) opened q(2,3) reg_procs_registered
    by (auto simp: server_run_def SSDBServer_new_def NetworkServer_init_def NetworkServer_new_def Let_def
        slave_start_not_slave [OF assms(5)])
  have "link_proc env [''get'', k] net link = Some (PROC_OK, net, link\<lparr>lk_out := lk_out link @
      [case kv_view (contents db1) k of None \<Rightarrow> ''$-1'' @ CRLF | Some v \<Rightarrow> bulk v]\<rparr>)"
    if "\<forall>n. realloc_ok env n" "rl_req_desc (lk_redis link) = cmd_table ''get''"
      "\<forall>v. kv_view (contents db1) k = Some v \<longrightarrow> int (length v) + 20 \<le> 2 ^ 30" for env k link
    using get_on_wire [OF assms(1) net(1), of env link k] that net(2) by simp
  then show ?thesis using run net by blast
qed

definition fresh_disk :: "leveldb_options \<Rightarrow> bytes \<Rightarrow> leveldb_status \<times> mem_db" where
  "fresh_disk opts dir = (StOk, [])"

lemma default_options: "open_options True Config_new =
    Some \<lparr>opt_create_if_missing = True, opt_block_size = 32 * 1024 * 1024, opt_write_buffer_size = 64 * 1024 * 1024, opt_snappy = True\<rparr>"
  by (simp add: open_options_def mebibytes_def Config_new_def ck32_def fits32_def)

lemma fresh_log: "log_wf (mem_contents []) 0"
  using log_wf_empty by (simp add: mem_contents_def)

text \<open>A configuration file that names a port; the other settings keep their defaults.\<close>

definition sample_file :: istream where
  "sample_file = \<lparr>s_rest = json_dump (\<lambda>_ _. []) 4 (JObject sample_config), s_eof = False\<rparr>"

lemma sample_file_loaded:
  "Config_load_file (\<lambda>_. None) False sample_file = Some (Inr (Config_new\<lparr>ip := ''10.0.0.1'', port := 7777\<rparr>))"
  using load_dumped [OF sample_config_ok] by (simp add: sample_file_def sample_settings)

definition no_server :: "mem_db SSDBServer" where
  "no_server = \<lparr>sv_ssdb = sample_db, sv_meta = None, sv_sync = []\<rparr>"

theorem server_starts_witness:
  "\<exists>net slave. server_run mem_ldb fresh_disk True (0, 0, 0, 0) no_server 2 (\<lambda>_. None) False sample_file =
       Some (Serving net slave) \<and> registered mem_ldb net"
proof -
  let ?cf = "Config_new\<lparr>ip := ''10.0.0.1'', port := 7777\<rparr>"
  have not_slave: "master_ip ?cf = [] \<or> master_port ?cf \<le> 0" by (simp add: Config_new_def)
  have opts: "open_options True ?cf = open_options True Config_new"
    by (simp add: open_options_def mebibytes_def Config_new_def)
  from server_starts [OF mem.leveldb_reliable_axioms _ sample_file_loaded opts [unfolded default_options] not_slave,
      of 2 fresh_disk StOk "[]" 0 StOk "[]" 0 no_server]
  show ?thesis using fresh_log by (force simp: fresh_disk_def)
qed

text \<open>
  What \<open>run\<close> does when something cannot be opened.  Without an argument it returns 0 and a
  configuration that cannot be parsed ends in an exception; a data database that cannot be
  opened ends in \<open>exit(1)\<close>.  The check after opening the meta database tests the data database
  again, so a meta database that cannot be opened is not reported: the server runs without
  it, and is undefined when it is configured as a slave.  A network server that could not be set
  up is used all the same, which is undefined.
\<close>

theorem server_start_failures:
  assumes "1 < argc" "Config_load_file strtod fail fp = Some (Inr cf)" "open_options d cf = Some opts"
    "DB_Open opts (data_dir cf) = (st1, db1)" "DB_Open opts (meta_dir cf) = (st2, db2)"
    "BinlogQueue_new L db1 20000000 = Some q1" "BinlogQueue_new L db2 20000000 = Some q2"
  shows "(\<not> st_ok st1 \<longrightarrow> server_run L DB_Open d uv g argc strtod fail fp = Some (ExitedWith 1)) \<and>
    (st_ok st1 \<and> \<not> st_ok st2 \<longrightarrow>
      (if master_ip cf = [] \<or> master_port cf \<le> 0
       then \<exists>net. server_run L DB_Open d (0, 0, 0, 0) g argc strtod fail fp = Some (Serving net None) \<and> registered L net
       else server_run L DB_Open d (0, 0, 0, 0) g argc strtod fail fp = None)) \<and>
    (st_ok st1 \<and> r \<noteq> 0 \<longrightarrow> server_run L DB_Open d (0, 0, r, s) g argc strtod fail fp = None)"
proof (intro conjI impI)
  assume "\<not> st_ok st1"
  then show "server_run L DB_Open d uv g argc strtod fail fp = Some (ExitedWith 1)"
    using assms(1,2) SSDB_open_refused [of d cf opts DB_Open "data_dir cf" st1 db1 L, OF assms(3,4)] by (simp add: server_run_def)
next
  assume "st_ok st1 \<and> \<not> st_ok st2"
  then have o: "SSDB_open L DB_Open d cf (data_dir cf) = Some (Some \<lparr>ss_options = opts, ss_binlogs = q1\<rparr>)"
    "SSDB_open L DB_Open d cf (meta_dir cf) = Some None"
    using SSDB_open_opened [of d cf opts DB_Open "data_dir cf", OF assms(3,4) _ assms(6)]
      SSDB_open_refused [of d cf opts DB_Open "meta_dir cf" st2 db2 L, OF assms(3,5)] by auto
  show "if master_ip cf = [] \<or> master_port cf \<le> 0
      then \<exists>net. server_run L DB_Open d (0, 0, 0, 0) g argc strtod fail fp = Some (Serving net None) \<and> registered L net
      else server_run L DB_Open d (0, 0, 0, 0) g argc strtod fail fp = None"
    using assms(1,2) o reg_procs_registered [of L]
    by (auto simp: server_run_def SSDBServer_new_def NetworkServer_init_def Let_def)
next
  assume "st_ok st1 \<and> r \<noteq> 0"
  moreover have "SSDB_open L DB_Open d cf (meta_dir cf) \<noteq> None"
    using assms(3,5,7) by (simp add: SSDB_open_def)
  ultimately show "server_run L DB_Open d (0, 0, r, s) g argc strtod fail fp = None"
    using assms(1,2) SSDB_open_opened [of d cf opts DB_Open "data_dir cf", OF assms(3,4) _ assms(6)]
    by (auto simp: server_run_def SSDBServer_new_def NetworkServer_init_def)
qed

end
