(* ===== verification/Backend_Sync.thy ===== *)
theory Backend_Sync
  imports Ssdb_Impl Net_Link
begin

text \<open>
  Model of src/ssdb/src/backend\_sync.h and backend\_sync.cpp: the master side of replication.
  A client follows the log of the database and sends every change to the slave behind its
  link, after a first copy of the data when the slave starts from nothing.

  The iterator pointer of a client is never initialised by its constructor; the model has
  that state, and reading it is undefined.  The search loop of \<open>sync\<close> takes fuel; that a
  fuel linear in the distance to the end of the log is always enough is proved below.
\<close>

section \<open>Clients\<close>

datatype client_status = CL_INIT | CL_OUT_OF_SYNC | CL_COPY | CL_SYNC

datatype 'it iter_ptr = IterUninit | IterNull | IterAt "'it Iterator"

record 'it Client =
  cl_status :: client_status
  cl_link :: Link
  cl_last_seq :: "64 word"
  cl_last_noop_seq :: "64 word"
  cl_last_key :: bytes
  cl_is_mirror :: bool
  cl_iter :: "'it iter_ptr"

definition Client_new :: "Link \<Rightarrow> 'it Client" where
  "Client_new link =
     \<lparr>cl_status = CL_INIT, cl_link = link, cl_last_seq = 0, cl_last_noop_seq = 0, cl_last_key = [],
      cl_is_mirror = False, cl_iter = IterUninit\<rparr>"

definition cl_send :: "heap_env \<Rightarrow> bytes list \<Rightarrow> 'it Client \<Rightarrow> 'it Client option" where
  "cl_send env ss c = do { link \<leftarrow> send_records env ss (cl_link c); Some (c\<lparr>cl_link := link\<rparr>) }"

definition client_reset :: "heap_env \<Rightarrow> 'it Client \<Rightarrow> 'it Client option" where
  "client_reset env c =
     (let c = c\<lparr>cl_status := CL_COPY, cl_last_seq := 0, cl_last_key := []\<rparr>
      in cl_send env [Binlog_new (cl_last_seq c) BT_COPY BC_BEGIN [], ''copy_begin''] c)"

definition client_init :: "heap_env \<Rightarrow> bytes list \<Rightarrow> 'it Client \<Rightarrow> 'it Client option" where
  "client_init env req c = do {
     let c = c\<lparr>cl_last_seq := 0\<rparr>;
     c \<leftarrow> (if length req > 1
            then do { (v, _) \<leftarrow> str_to_uint64 0 (req ! 1); Some (c\<lparr>cl_last_seq := v\<rparr>) }
            else Some c);
     let c = (if length req > 2 then c\<lparr>cl_last_key := req ! 2\<rparr> else c);
     let c = (if length req > 3 \<and> req ! 3 = ''mirror'' then c\<lparr>cl_is_mirror := True\<rparr> else c);
     if cl_last_key c = [] \<and> cl_last_seq c = 0 then client_reset env c else Some c }"

definition client_noop :: "heap_env \<Rightarrow> 'it Client \<Rightarrow> 'it Client option" where
  "client_noop env c =
     (let (sq, c) = (if cl_status c = CL_COPY \<and> cl_last_key c = [] then (0, c)
                     else (cl_last_seq c, c\<lparr>cl_last_noop_seq := cl_last_seq c\<rparr>))
      in cl_send env [Binlog_new sq BT_NOOP BC_NONE [], ''noop''] c)"

definition client_out_of_sync :: "heap_env \<Rightarrow> 'it Client \<Rightarrow> 'it Client option" where
  "client_out_of_sync env c =
     (let c = c\<lparr>cl_status := CL_OUT_OF_SYNC\<rparr>
      in cl_send env [Binlog_new (cl_last_seq c) BT_CTRL BC_NONE ''OUT_OF_SYNC''] c)"

section \<open>Copying\<close>

definition copy_end :: "heap_env \<Rightarrow> 'it Client \<Rightarrow> (int \<times> 'it Client) option" where
  "copy_end env c = do {
     let c = c\<lparr>cl_status := CL_SYNC, cl_iter := IterNull\<rparr>;
     c \<leftarrow> cl_send env [Binlog_new (cl_last_seq c) BT_COPY BC_END [], ''copy_end''] c;
     Some (1, c) }"

text \<open>The loop of \<open>copy\<close> over at most \<open>n\<close> entries; \<open>it\<close> is the iterator the client holds.\<close>

fun copy_loop ::
  "heap_env \<Rightarrow> ('db, 'it) leveldb \<Rightarrow> nat \<Rightarrow> 'it Iterator \<Rightarrow> int \<Rightarrow> 'it Client \<Rightarrow> (int \<times> 'it Client) option" where
  "copy_loop env L 0 it ret c = Some (ret, c\<lparr>cl_iter := IterAt it\<rparr>)"
| "copy_loop env L (Suc n) it ret c =
     (case Iterator_next L it of
        (False, it) \<Rightarrow> copy_end env (c\<lparr>cl_iter := IterAt it\<rparr>)
      | (True, it) \<Rightarrow>
          (let key = Iterator_key L it
           in if key = [] then copy_loop env L n it ret c
              else if schar (key ! 0) > schar DT_MAX_PREFIX then copy_end env (c\<lparr>cl_iter := IterAt it\<rparr>)
              else let val = Iterator_val L it; c = c\<lparr>cl_last_key := key\<rparr>
                   in if key ! 0 \<noteq> DT_KV then copy_loop env L n it ret c
                      else do { c \<leftarrow> cl_send env [Binlog_new (cl_last_seq c) BT_COPY BC_KSET key, val] c;
                                copy_loop env L n it (ret + 1) c }))"

definition client_copy ::
  "heap_env \<Rightarrow> ('db, 'it) leveldb \<Rightarrow> 'db SSDBImpl \<Rightarrow> 'it Client \<Rightarrow> (int \<times> 'it Client) option" where
  "client_copy env L ssdb c =
     (case cl_iter c of
        IterUninit \<Rightarrow> None
      | IterNull \<Rightarrow>
          (let key = (if cl_last_key c = [] then cl_last_key c @ [DT_MIN_PREFIX] else cl_last_key c)
           in copy_loop env L 1000 (ssdb_iterator L key [] (- 1) ssdb) 0 c)
      | IterAt it \<Rightarrow> copy_loop env L 1000 it 0 c)"

section \<open>Following the log\<close>

datatype 'it search_result =
    SearchReturn int "'it Client"
  | SearchFound bytes "'it Client"
  | SearchNoFuel

definition sync_lookup ::
  "('db, 'it) leveldb \<Rightarrow> 'db BinlogQueue \<Rightarrow> bytes \<Rightarrow> 'it Client \<Rightarrow> int \<times> bytes" where
  "sync_lookup L logs log c =
     (if cl_status c = CL_COPY \<and> cl_last_seq c = 0 then bq_find_last L logs log
      else bq_find_next L logs (cl_last_seq c + 1) log)"

fun sync_search ::
  "heap_env \<Rightarrow> ('db, 'it) leveldb \<Rightarrow> 'db BinlogQueue \<Rightarrow> nat \<Rightarrow> bytes \<Rightarrow> 'it Client \<Rightarrow>
   'it search_result option" where
  "sync_search env L logs 0 log c = Some SearchNoFuel"
| "sync_search env L logs (Suc fuel) log c =
     (let expect_seq = cl_last_seq c + 1;
          (ret, log) = sync_lookup L logs log c
      in if ret = 0 then Some (SearchReturn 0 c)
         else do {
           key \<leftarrow> Binlog_key log;
           sq \<leftarrow> Binlog_seq log;
           if cl_status c = CL_COPY \<and> bytes_gt key (cl_last_key c)
           then (case cl_iter c of
                   IterUninit \<Rightarrow> None
                 | _ \<Rightarrow> sync_search env L logs fuel log (c\<lparr>cl_last_seq := sq, cl_iter := IterNull\<rparr>))
           else if cl_last_seq c \<noteq> 0 \<and> sq \<noteq> expect_seq
           then do { c \<leftarrow> client_out_of_sync env c; Some (SearchReturn 1 c) }
           else do {
             let c = c\<lparr>cl_last_seq := sq\<rparr>;
             typ \<leftarrow> Binlog_type log;
             if typ = BT_MIRROR \<and> cl_is_mirror c
             then if cl_last_seq c - cl_last_noop_seq c \<ge> 1000
                  then do { c \<leftarrow> client_noop env c; Some (SearchReturn 1 c) }
                  else sync_search env L logs fuel log c
             else Some (SearchFound log c) } })"

definition sync_send ::
  "heap_env \<Rightarrow> ('db, 'it) leveldb \<Rightarrow> 'db SSDBImpl \<Rightarrow> bytes \<Rightarrow> 'it Client \<Rightarrow> 'it Client option" where
  "sync_send env L ssdb log c = do {
     cmd \<leftarrow> Binlog_cmd log;
     if cmd = BC_KSET
     then do { key \<leftarrow> Binlog_key log;
               let (ret, val) = ssdb_raw_get L key [] ssdb;
               if ret = - 1 then Some c else if ret = 0 then Some c else cl_send env [log, val] c }
     else if cmd = BC_KDEL then cl_send env [log] c
     else Some c }"

text \<open>\<open>sync\<close>: the inner option is \<^term>\<open>None\<close> when the fuel did not suffice.\<close>

definition client_sync ::
  "heap_env \<Rightarrow> ('db, 'it) leveldb \<Rightarrow> 'db SSDBImpl \<Rightarrow> nat \<Rightarrow> 'it Client \<Rightarrow> (int \<times> 'it Client) option option" where
  "client_sync env L ssdb fuel c = do {
     r \<leftarrow> sync_search env L (ss_binlogs ssdb) fuel [] c;
     case r of
       SearchNoFuel \<Rightarrow> Some None
     | SearchReturn ret c \<Rightarrow> Some (Some (ret, c))
     | SearchFound log c \<Rightarrow> do { c \<leftarrow> sync_send env L ssdb log c; Some (Some (0, c)) } }"

text \<open>
  One turn of the loop of \<open>_run_thread\<close>: the flag tells whether the thread sleeps.
\<close>

definition sync_round ::
  "heap_env \<Rightarrow> ('db, 'it) leveldb \<Rightarrow> 'db SSDBImpl \<Rightarrow> nat \<Rightarrow> 'it Client \<Rightarrow> (bool \<times> 'it Client) option option" where
  "sync_round env L ssdb fuel c =
     (if cl_status c = CL_OUT_OF_SYNC then Some (Some (False, c))
      else do {
        r \<leftarrow> client_sync env L ssdb fuel c;
        case r of
          None \<Rightarrow> Some None
        | Some (ret, c) \<Rightarrow> do {
            (ret', c) \<leftarrow> (if cl_status c = CL_COPY then client_copy env L ssdb c else Some (0, c));
            Some (Some (ret = 0 \<and> ret' = 0, c)) } })"

text \<open>
  Starting the thread for a request: \<open>r\<close> is the result of \<open>uv_thread_create\<close>, the result the argument
  of the thread, or \<^term>\<open>None\<close> when the link is deleted.  The thread makes its client and enters it
  in the table of workers, from which nothing removes it; then it loops over \<open>sync_round\<close>.
\<close>

record 'it BackendSync =
  bs_workers :: "nat \<rightharpoonup> 'it Client"

record run_arg =
  ra_link :: Link
  ra_req :: "bytes list"

definition BackendSync_new :: "'it BackendSync" where
  "BackendSync_new = \<lparr>bs_workers = Map.empty\<rparr>"

definition BackendSync_proc :: "int \<Rightarrow> Link \<Rightarrow> bytes list \<Rightarrow> run_arg option" where
  "BackendSync_proc r link req = (if r \<noteq> 0 then None else Some \<lparr>ra_link = link, ra_req = req\<rparr>)"

definition run_thread_start :: "heap_env \<Rightarrow> nat \<Rightarrow> run_arg \<Rightarrow> 'it BackendSync \<Rightarrow> ('it Client \<times> 'it BackendSync) option" where
  "run_thread_start env tid arg bs = do {
     c \<leftarrow> client_init env (ra_req arg) (Client_new (ra_link arg));
     Some (c, bs\<lparr>bs_workers := (bs_workers bs)(tid \<mapsto> c)\<rparr>) }"

section \<open>Sending\<close>

abbreviation cl_out :: "'it Client \<Rightarrow> bytes list" where
  "cl_out c \<equiv> lk_out (cl_link c)"

definition cl_sent :: "bytes list list \<Rightarrow> 'it Client \<Rightarrow> 'it Client" where
  "cl_sent msgs c = c\<lparr>cl_link := (cl_link c)\<lparr>lk_out := cl_out c @ map packet msgs\<rparr>\<rparr>"

lemma cl_sent_simps [simp]:
  "cl_sent [] c = c" "cl_sent ms (cl_sent ms' c) = cl_sent (ms' @ ms) c"
  "cl_status (cl_sent ms c) = cl_status c" "cl_last_seq (cl_sent ms c) = cl_last_seq c"
  "cl_is_mirror (cl_sent ms c) = cl_is_mirror c" "cl_out (cl_sent ms c) = cl_out c @ map packet ms"
  "cl_iter (cl_sent ms c) = cl_iter c"
  by (simp_all add: cl_sent_def)

definition sendable :: "bytes list \<Rightarrow> bool" where
  "sendable ss \<longleftrightarrow> sum_list (map (\<lambda>s. 17 + int (length s)) ss) + 1 \<le> 2 ^ 30"

lemma cl_send_ok:
  assumes "\<And>n. realloc_ok env n" "sendable ss"
  shows "cl_send env ss c = Some (cl_sent [ss] c)"
  using send_records_out [OF assms(1) assms(2) [unfolded sendable_def], of "cl_link c"]
  by (simp add: cl_send_def cl_sent_def)

text \<open>Entries small enough to be sent with their log record.\<close>

definition small_store :: "store \<Rightarrow> bool" where
  "small_store m \<longleftrightarrow> (\<forall>k v. m k = Some v \<longrightarrow> length k + length v \<le> 2 ^ 28)"

lemma small_sendable: "small_store m \<Longrightarrow> m k = Some v \<Longrightarrow> sendable [Binlog_new sq typ cmd k, v]"
proof -
  assume "small_store m" "m k = Some v"
  then have "length k + length v \<le> 2 ^ 28" unfolding small_store_def by blast
  then show ?thesis by (simp add: sendable_def length_Binlog_new HEADER_LEN_def)
qed

lemma client_out_of_sync_ok:
  assumes "\<And>n. realloc_ok env n"
  shows "client_out_of_sync env c =
    Some (cl_sent [[Binlog_new (cl_last_seq c) BT_CTRL BC_NONE ''OUT_OF_SYNC'']] (c\<lparr>cl_status := CL_OUT_OF_SYNC\<rparr>))"
proof -
  have "sendable [Binlog_new sq BT_CTRL BC_NONE ''OUT_OF_SYNC'']" for sq
    by (simp add: sendable_def length_Binlog_new HEADER_LEN_def)
  then show ?thesis by (simp add: client_out_of_sync_def cl_send_ok [OF assms])
qed

lemma client_noop_ok:
  assumes "\<And>n. realloc_ok env n"
  shows "client_noop env c =
    (if cl_status c = CL_COPY \<and> cl_last_key c = [] then Some (cl_sent [[Binlog_new 0 BT_NOOP BC_NONE [], ''noop'']] c)
     else Some (cl_sent [[Binlog_new (cl_last_seq c) BT_NOOP BC_NONE [], ''noop'']]
                 (c\<lparr>cl_last_noop_seq := cl_last_seq c\<rparr>)))"
proof -
  have "sendable [Binlog_new sq BT_NOOP BC_NONE [], ''noop'']" for sq
    by (simp add: sendable_def length_Binlog_new HEADER_LEN_def)
  then show ?thesis by (simp add: client_noop_def cl_send_ok [OF assms])
qed

section \<open>The search always ends\<close>

lemma word_next_bounds:
  fixes s n :: "64 word"
  assumes "s < n"
  shows "1 \<le> s + 1" "s + 1 \<le> n" "unat (s + 1) = unat s + 1" "s < s + 1"
proof -
  have "s \<noteq> - 1" using assms by (metis word_n1_ge leD)
  then show u: "unat (s + 1) = unat s + 1"
    by (metis Suc_eq_plus1 add.commute add_eq_0_iff2 unatSuc)
  show "1 \<le> s + 1" "s + 1 \<le> n" "s < s + 1"
    using assms u by (simp_all add: word_le_nat_alt word_less_nat_alt)
qed

lemma log_fields:
  assumes "log_wf m n" "1 \<le> s" "s \<le> n"
  shows "\<exists>key ty cmd. Binlog_key (log_entry m s) = Some key \<and> Binlog_type (log_entry m s) = Some ty \<and>
    Binlog_cmd (log_entry m s) = Some cmd"
  using log_wf_entryI(2) [OF assms]
  by (auto simp: Binlog_key_def Binlog_type_def Binlog_cmd_def str_at_def HEADER_LEN_def)

context leveldb_api
begin

lemma sync_find:
  assumes "log_wf (contents (bq_db q)) n" "cl_last_seq c \<le> n"
  shows "sync_lookup L q log c =
         (if cl_last_seq c = n then (0, log)
          else (1, log_entry (contents (bq_db q))
                 (if cl_status c = CL_COPY \<and> cl_last_seq c = 0 then n else cl_last_seq c + 1)))"
proof (cases "cl_last_seq c = n")
  case True
  have "n < n + 1"
    using word_next_bounds(3) [OF log_wf_bound [OF assms(1)]] by (simp add: word_less_nat_alt)
  then show ?thesis
    using True find_last_spec [OF assms(1), of log] find_next_spec(2) [OF assms(1), of "n + 1" log]
    by (auto simp: sync_lookup_def)
next
  case False
  then have "cl_last_seq c < n" using assms(2) by simp
  note b = word_next_bounds [OF this]
  show ?thesis
    using False find_last_spec [OF assms(1), of log] find_next_spec(1) [OF assms(1) b(1,2)]
    by (auto simp: sync_lookup_def)
qed

lemma sync_search_ends:
  assumes "\<And>k. realloc_ok env k" "log_wf (contents (bq_db q)) n"
  shows "cl_last_seq c \<le> n \<Longrightarrow> cl_iter c \<noteq> IterUninit \<Longrightarrow> unat n - unat (cl_last_seq c) < fuel \<Longrightarrow>
     \<exists>r. sync_search env L q fuel log c = Some r \<and> r \<noteq> SearchNoFuel"
proof (induction fuel arbitrary: c log)
  case (Suc fuel)
  define m where "m = contents (bq_db q)"
  note wf = assms(2) [folded m_def]
  note find = sync_find [OF assms(2) Suc.prems(1), of log, folded m_def]
  show ?case
  proof (cases "cl_last_seq c = n")
    case True
    then show ?thesis using find by simp
  next
    case False
    define t where "t = (if cl_status c = CL_COPY \<and> cl_last_seq c = 0 then n else cl_last_seq c + 1)"
    have less: "cl_last_seq c < n" using False Suc.prems(1) by simp
    have t: "1 \<le> t" "t \<le> n" "unat (cl_last_seq c) < unat t"
      using word_next_bounds [OF less] less by (auto simp: t_def one_le_word word_less_nat_alt [symmetric])
    then have fuel: "unat n - unat t < fuel" using Suc.prems(3) less by (simp add: word_less_nat_alt)
    obtain key ty cmd where e: "Binlog_key (log_entry m t) = Some key"
      "Binlog_type (log_entry m t) = Some ty" "Binlog_cmd (log_entry m t) = Some cmd"
      using log_fields [OF wf t(1,2)] by blast
    note sq = log_wf_entryI(3) [OF wf t(1,2)]
    have find': "sync_lookup L q log c = (1, log_entry m t)"
      using find False by (simp add: t_def)
    have rec: "\<exists>r. sync_search env L q fuel l x = Some r \<and> r \<noteq> SearchNoFuel"
      if "cl_last_seq x = t" "cl_iter x \<noteq> IterUninit" for l x
      using Suc.IH [of x l] that t(2) fuel by simp
    show ?thesis
      using rec Suc.prems(2)
      by (cases "cl_iter c")
        (auto simp: find' e sq Let_def client_out_of_sync_ok [OF assms(1)] client_noop_ok [OF assms(1)])
  qed
qed simp

text \<open>A client that only follows the log takes its records one after the other.\<close>

lemma sync_search_follow:
  assumes "log_wf (contents (bq_db q)) n" "cl_last_seq c < n" "cl_status c \<noteq> CL_COPY" "\<not> cl_is_mirror c"
  shows "sync_search env L q (Suc fuel) log c =
    Some (SearchFound (log_entry (contents (bq_db q)) (cl_last_seq c + 1)) (c\<lparr>cl_last_seq := cl_last_seq c + 1\<rparr>))"
proof -
  define t where "t = cl_last_seq c + 1"
  have t: "1 \<le> t" "t \<le> n" using word_next_bounds [OF assms(2)] by (simp_all add: t_def)
  obtain key ty cmd where e: "Binlog_key (log_entry (contents (bq_db q)) t) = Some key"
    "Binlog_type (log_entry (contents (bq_db q)) t) = Some ty"
    using log_fields [OF assms(1) t] by blast
  note sq = log_wf_entryI(3) [OF assms(1) t]
  have "sync_lookup L q log c = (1, log_entry (contents (bq_db q)) t)"
    using sync_find [OF assms(1), of c log] assms(2,3) by (simp add: t_def)
  then show ?thesis using e sq assms(3,4) by (simp add: t_def [symmetric] Let_def)
qed

lemma sync_search_at_end:
  assumes "log_wf (contents (bq_db q)) (cl_last_seq c)"
  shows "sync_search env L q (Suc fuel) log c = Some (SearchReturn 0 c)"
  using sync_find [OF assms order.refl, of log] by simp

end

section \<open>The stream of changes\<close>

text \<open>The message sent for the record numbered \<open>s\<close>, as a list of at most one packet.\<close>

definition sync_msg :: "store \<Rightarrow> 64 word \<Rightarrow> bytes list list" where
  "sync_msg m s =
     (let e = log_entry m s
      in if Binlog_cmd e = Some BC_KSET
         then (case m (the (Binlog_key e)) of None \<Rightarrow> [] | Some v \<Rightarrow> [[e, v]])
         else if Binlog_cmd e = Some BC_KDEL then [[e]] else [])"

primrec sync_msgs :: "store \<Rightarrow> 64 word \<Rightarrow> nat \<Rightarrow> bytes list list" where
  "sync_msgs m s 0 = []"
| "sync_msgs m s (Suc k) = sync_msg m (s + 1) @ sync_msgs m (s + 1) k"

text \<open>Several turns of the thread, with fuel for each.\<close>

primrec sync_rounds ::
  "heap_env \<Rightarrow> ('db, 'it) leveldb \<Rightarrow> 'db SSDBImpl \<Rightarrow> nat \<Rightarrow> nat \<Rightarrow> 'it Client \<Rightarrow> 'it Client option option" where
  "sync_rounds env L ssdb fuel 0 c = Some (Some c)"
| "sync_rounds env L ssdb fuel (Suc k) c = do {
     r \<leftarrow> sync_round env L ssdb fuel c;
     case r of None \<Rightarrow> Some None | Some (_, c) \<Rightarrow> sync_rounds env L ssdb fuel k c }"

lemma sync_msg_sendable:
  assumes "small_store m" "log_wf m n" "1 \<le> s" "s \<le> n" "msg \<in> set (sync_msg m s)"
  shows "sendable msg"
proof -
  have small: "length v \<le> 2 ^ 28" if "m k = Some v" for k v
    using assms(1) that unfolding small_store_def by (meson add_leE)
  have "length (log_entry m s) \<le> 2 ^ 28"
    using small [OF log_wf_entryI(1) [OF assms(2-4)]] .
  moreover have "msg = [log_entry m s] \<or> (\<exists>k v. m k = Some v \<and> msg = [log_entry m s, v])"
    using assms(5) by (auto simp: sync_msg_def Let_def split: if_splits option.splits)
  ultimately show ?thesis using small by (fastforce simp: sendable_def)
qed

context leveldb_reliable
begin

lemma sync_send_ok:
  assumes "\<And>k. realloc_ok env k" "log_wf m n" "m = contents (ss_ldb s)" "1 \<le> t" "t \<le> n" "small_store m"
  shows "sync_send env L s (log_entry m t) c = Some (cl_sent (sync_msg m t) c)"
proof -
  obtain key ty cmd where e: "Binlog_key (log_entry m t) = Some key" "Binlog_cmd (log_entry m t) = Some cmd"
    using log_fields [OF assms(2,4,5)] by blast
  have ok: "cl_send env ss c = Some (cl_sent [ss] c)" if "ss \<in> set (sync_msg m t)" for ss
    using cl_send_ok [OF assms(1)] sync_msg_sendable [OF assms(6,2,4,5) that] by blast
  show ?thesis
    using e ok
    by (auto simp: sync_send_def sync_msg_def ssdb_raw_get_def lookup_spec assms(3) Let_def split: option.splits)
qed

lemma sync_round_follow:
  assumes "\<And>k. realloc_ok env k" "log_wf m n" "m = contents (ss_ldb s)" "small_store m"
    "cl_last_seq c < n" "cl_status c = CL_INIT \<or> cl_status c = CL_SYNC" "\<not> cl_is_mirror c"
  shows "sync_round env L s (Suc fuel) c =
    Some (Some (True, cl_sent (sync_msg m (cl_last_seq c + 1)) (c\<lparr>cl_last_seq := cl_last_seq c + 1\<rparr>)))"
proof -
  note b = word_next_bounds [OF assms(5)]
  have "sync_search env L (ss_binlogs s) (Suc fuel) [] c =
      Some (SearchFound (log_entry m (cl_last_seq c + 1)) (c\<lparr>cl_last_seq := cl_last_seq c + 1\<rparr>))"
    using sync_search_follow [of "ss_binlogs s" n c env fuel "[]"] assms(2,3,5,6,7) by auto
  then show ?thesis
    using sync_send_ok [OF assms(1-3) b(1,2) assms(4)] assms(6)
    by (auto simp: sync_round_def client_sync_def)
qed

lemma sync_rounds_follow:
  assumes "\<And>k. realloc_ok env k" "log_wf m n" "m = contents (ss_ldb s)" "small_store m"
  shows "unat (cl_last_seq c) + k \<le> unat n \<Longrightarrow> cl_status c = CL_INIT \<or> cl_status c = CL_SYNC \<Longrightarrow>
     \<not> cl_is_mirror c \<Longrightarrow>
     sync_rounds env L s (Suc fuel) k c =
       Some (Some (cl_sent (sync_msgs m (cl_last_seq c) k) (c\<lparr>cl_last_seq := cl_last_seq c + word_of_nat k\<rparr>)))"
proof (induction k arbitrary: c)
  case (Suc k)
  have less: "cl_last_seq c < n" using Suc.prems(1) by (simp add: word_less_nat_alt)
  define c' where "c' = cl_sent (sync_msg m (cl_last_seq c + 1)) (c\<lparr>cl_last_seq := cl_last_seq c + 1\<rparr>)"
  have r: "sync_round env L s (Suc fuel) c = Some (Some (True, c'))"
    using sync_round_follow [OF assms less Suc.prems(2,3)] by (simp add: c'_def)
  have "sync_rounds env L s (Suc fuel) k c' =
      Some (Some (cl_sent (sync_msgs m (cl_last_seq c') k) (c'\<lparr>cl_last_seq := cl_last_seq c' + word_of_nat k\<rparr>)))"
    using Suc.IH [of c'] Suc.prems word_next_bounds(3) [OF less] by (simp add: c'_def)
  then show ?case by (simp add: r) (simp add: c'_def cl_sent_def add.assoc)
qed (simp add: cl_sent_def)

end

section \<open>The first copy\<close>

definition copy_stops :: "bytes \<Rightarrow> bool" where
  "copy_stops k \<longleftrightarrow> k \<noteq> [] \<and> schar (k ! 0) > schar DT_MAX_PREFIX"

definition copy_msgs :: "store \<Rightarrow> 64 word \<Rightarrow> bytes list \<Rightarrow> bytes list list" where
  "copy_msgs m sq ks =
     map (\<lambda>k. [Binlog_new sq BT_COPY BC_KSET k, the (m k)])
       (filter (\<lambda>k. k \<noteq> [] \<and> k ! 0 = DT_KV) (takeWhile (\<lambda>k. \<not> copy_stops k) ks))"

text \<open>Key-value entries come before every key that ends the copy.\<close>

lemma filter_before_stop:
  "sorted ks \<Longrightarrow> (\<And>x y. Q x \<Longrightarrow> y \<le> x \<Longrightarrow> \<not> stop y) \<Longrightarrow>
   filter Q (takeWhile (\<lambda>k. \<not> stop k) ks) = filter Q ks"
proof (induction ks)
  case (Cons k ks)
  show ?case
  proof (cases "stop k")
    case True
    then have "\<not> Q x" if "x \<in> set (k # ks)" for x using Cons.prems that by fastforce
    then have "filter Q (k # ks) = []" by (auto simp: filter_empty_conv)
    then show ?thesis using True by (simp del: filter.simps)
  qed (use Cons in auto)
qed simp

lemma kv_before_stop: "x \<noteq> [] \<and> x ! 0 = DT_KV \<Longrightarrow> y \<le> x \<Longrightarrow> \<not> copy_stops y"
proof -
  assume a: "x \<noteq> [] \<and> x ! 0 = DT_KV" "y \<le> x"
  show ?thesis
  proof (cases y)
    case (Cons c cs)
    then have "c \<le> DT_KV" using a by (cases x) auto
    then have "(of_char c :: nat) \<le> 107" by (simp add: less_eq_char_def)
    then have "schar c \<le> 107" by (simp add: schar_ascii of_char_int)
    then show ?thesis using Cons by (simp add: copy_stops_def schar_ascii)
  qed (simp add: copy_stops_def)
qed

definition copy_end_msg :: "64 word \<Rightarrow> bytes list" where
  "copy_end_msg sq = [Binlog_new sq BT_COPY BC_END [], ''copy_end'']"

lemma copy_end_ok:
  assumes "\<And>n. realloc_ok env n"
  shows "copy_end env c = Some (1, cl_sent [copy_end_msg (cl_last_seq c)] (c\<lparr>cl_status := CL_SYNC, cl_iter := IterNull\<rparr>))"
proof -
  have "sendable (copy_end_msg sq)" for sq
    by (simp add: sendable_def copy_end_msg_def length_Binlog_new HEADER_LEN_def)
  then show ?thesis
    using cl_send_ok [OF assms, of "copy_end_msg (cl_last_seq c)" "c\<lparr>cl_status := CL_SYNC, cl_iter := IterNull\<rparr>"]
    by (simp add: copy_end_def copy_end_msg_def)
qed

context leveldb_api
begin

lemma copy_loop_all:
  assumes "\<And>k. realloc_ok env k" "small_store m"
  shows "it_ok cursor it \<Longrightarrow> snapshot (si_it it) = m \<Longrightarrow> length (it_todo snapshot cursor it) < n \<Longrightarrow>
     \<exists>c'. copy_loop env L n it ret c = Some (1, c') \<and> cl_status c' = CL_SYNC \<and> cl_iter c' = IterNull \<and>
       cl_last_seq c' = cl_last_seq c \<and> cl_is_mirror c' = cl_is_mirror c \<and>
       cl_out c' = cl_out c @ map packet (copy_msgs m (cl_last_seq c) (it_todo snapshot cursor it) @
                                          [copy_end_msg (cl_last_seq c)])"
proof (induction n arbitrary: it ret c)
  case (Suc n)
  obtain r j where j: "Iterator_next L it = (r, j)" by fastforce
  note st = next_step [OF Suc.prems(1) j]
  show ?case
  proof (cases "it_todo snapshot cursor it")
    case Nil
    then show ?thesis using st(3) j by (simp add: copy_end_ok [OF assms(1)] copy_msgs_def)
  next
    case (Cons k ks)
    then have r: "r" and key: "Iterator_key L j = k" and todo: "it_todo snapshot cursor j = ks"
      using st by auto
    have snap: "snapshot (si_it j) = m" using next_snapshot [OF Suc.prems(1) j] Suc.prems(2) by simp
    have val: "m k = Some (Iterator_val L j)"
      using next_value [OF Suc.prems(1)] j r key snap by simp
    note ih = Suc.IH [OF st(1) snap]
    have len: "length (it_todo snapshot cursor j) < n" using Suc.prems(3) Cons todo by simp
    show ?thesis
    proof (cases "copy_stops k")
      case True
      then show ?thesis
        using j r key Cons by (simp add: copy_stops_def copy_end_ok [OF assms(1)] copy_msgs_def)
    next
      case False
      show ?thesis
      proof (cases "k \<noteq> [] \<and> k ! 0 = DT_KV")
        case True
        define c1 where "c1 = cl_sent [[Binlog_new (cl_last_seq c) BT_COPY BC_KSET k, Iterator_val L j]]
          (c\<lparr>cl_last_key := k\<rparr>)"
        have "copy_loop env L (Suc n) it ret c = copy_loop env L n j (ret + 1) c1"
          using True False j r key
          by (simp add: copy_stops_def c1_def cl_send_ok [OF assms(1) small_sendable [OF assms(2) val]])
        moreover have "cl_out c1 = cl_out c @ [packet [Binlog_new (cl_last_seq c) BT_COPY BC_KSET k, Iterator_val L j]]"
          "cl_last_seq c1 = cl_last_seq c" "cl_is_mirror c1 = cl_is_mirror c" by (simp_all add: c1_def)
        ultimately show ?thesis
          using ih [OF len, of "ret + 1" c1] True False Cons todo val by (simp add: copy_msgs_def)
      next
        case other: False
        define c1 where "c1 = (if k = [] then c else c\<lparr>cl_last_key := k\<rparr>)"
        have "copy_loop env L (Suc n) it ret c = copy_loop env L n j ret c1"
          using other False j r key by (auto simp: copy_stops_def c1_def)
        moreover have "cl_out c1 = cl_out c" "cl_last_seq c1 = cl_last_seq c" "cl_is_mirror c1 = cl_is_mirror c"
          by (simp_all add: c1_def)
        ultimately show ?thesis
          using ih [OF len, of ret c1] other False Cons todo by (auto simp: copy_msgs_def)
      qed
    qed
  qed
qed simp

text \<open>With an initialised iterator and few keys one call copies everything.\<close>

lemma client_copy_all:
  assumes "\<And>k. realloc_ok env k"
    "m = contents (ss_ldb s)" "small_store m" "cl_iter c = IterNull" "cl_last_key c = []"
    "ks = sorted_list_of_set {k \<in> dom m. [DT_HASH] < k}" "length ks < 1000"
  shows "\<exists>c'. client_copy env L s c = Some (1, c') \<and> cl_status c' = CL_SYNC \<and> cl_iter c' = IterNull \<and>
     cl_last_seq c' = cl_last_seq c \<and> cl_is_mirror c' = cl_is_mirror c \<and>
     cl_out c' = cl_out c @
       map packet (map (\<lambda>k. [Binlog_new (cl_last_seq c) BT_COPY BC_KSET k, the (m k)])
                       (filter (\<lambda>k. k ! 0 = DT_KV) ks) @ [copy_end_msg (cl_last_seq c)])"
proof -
  define it where "it = ssdb_iterator L [DT_MIN_PREFIX] [] (- 1) s"
  have it: "it_ok cursor it" "it_todo snapshot cursor it = take (2 ^ 64 - 1) ks"
    using iterator_todo [of "[DT_MIN_PREFIX]" "[]" "- 1" s]
    by (simp_all add: it_def assms(2,6))
  have "length ks < 2 ^ 64 - 1" using assms(7) by simp
  then have todo: "it_todo snapshot cursor it = ks" using it(2) by simp
  have snap: "snapshot (si_it it) = m"
    using scan_cursor [OF refl refl]
    by (simp add: it_def ssdb_iterator_def Iterator_new_def Let_def assms(2))
  have fin: "finite {k \<in> dom m. [DT_HASH] < k}"
    using finite_contents [of "ss_ldb s"] by (simp add: assms(2))
  have ks: "sorted ks" "set ks = {k \<in> dom m. [DT_HASH] < k}" using fin by (simp_all add: assms(6))
  have "filter (\<lambda>k. k \<noteq> [] \<and> k ! 0 = DT_KV) (takeWhile (\<lambda>k. \<not> copy_stops k) ks) =
      filter (\<lambda>k. k \<noteq> [] \<and> k ! 0 = DT_KV) ks"
    using ks(1) kv_before_stop by (intro filter_before_stop) blast+
  moreover have "filter (\<lambda>k. k \<noteq> [] \<and> k ! 0 = DT_KV) ks = filter (\<lambda>k. k ! 0 = DT_KV) ks"
    using ks(2) by (intro filter_cong) auto
  ultimately have "copy_msgs m (cl_last_seq c) ks = map (\<lambda>k. [Binlog_new (cl_last_seq c) BT_COPY BC_KSET k, the (m k)])
      (filter (\<lambda>k. k ! 0 = DT_KV) ks)" by (simp add: copy_msgs_def)
  then show ?thesis
    using copy_loop_all [OF assms(1,3) it(1) snap, of 1000 0 c] assms(4,5,7)
    by (auto simp: client_copy_def it_def [symmetric] todo)
qed

end

section \<open>Statuses\<close>

lemma cl_send_status: "cl_send env ss c = Some c' \<Longrightarrow> cl_status c' = cl_status c"
  by (auto simp: cl_send_def bind_eq_Some_conv)

lemma search_status:
  "sync_search env L q fuel log c = Some r \<Longrightarrow> cl_status c \<noteq> CL_COPY \<Longrightarrow>
   case r of SearchReturn _ c' \<Rightarrow> cl_status c' \<noteq> CL_COPY | SearchFound _ c' \<Rightarrow> cl_status c' \<noteq> CL_COPY
     | SearchNoFuel \<Rightarrow> True"
proof (induction fuel arbitrary: log c)
  case (Suc fuel)
  obtain ret l where l: "sync_lookup L q log c = (ret, l)" by fastforce
  show ?case
    using Suc.prems Suc.IH
    by (auto simp: l Let_def bind_eq_Some_conv client_out_of_sync_def client_noop_def
        dest: cl_send_status split: if_splits prod.splits)
qed simp

lemma sync_send_status: "sync_send env L s log c = Some c' \<Longrightarrow> cl_status c' = cl_status c"
  by (auto simp: sync_send_def bind_eq_Some_conv split_beta Let_def dest: cl_send_status split: if_splits)

lemma sync_no_copy:
  assumes "client_sync env L s fuel c = Some (Some (ret, c'))" "cl_status c \<noteq> CL_COPY"
  shows "cl_status c' \<noteq> CL_COPY"
proof -
  obtain r where r: "sync_search env L (ss_binlogs s) fuel [] c = Some r"
    using assms(1) by (auto simp: client_sync_def bind_eq_Some_conv)
  show ?thesis
    using assms(1) r search_status [OF r assms(2)]
    by (cases r) (auto simp: client_sync_def bind_eq_Some_conv dest: sync_send_status)
qed

lemma rounds_no_copy:
  "sync_rounds env L s fuel k c = Some (Some c') \<Longrightarrow> cl_status c \<noteq> CL_COPY \<Longrightarrow> cl_status c' \<noteq> CL_COPY"
proof (induction k arbitrary: c)
  case (Suc k)
  obtain b c1 where r: "sync_round env L s fuel c = Some (Some (b, c1))"
    "sync_rounds env L s fuel k c1 = Some (Some c')"
    using Suc.prems(1) by (auto simp: bind_eq_Some_conv split: option.splits)
  have "cl_status c1 \<noteq> CL_COPY"
  proof (cases "cl_status c = CL_OUT_OF_SYNC")
    case True
    then show ?thesis using r(1) by (simp add: sync_round_def)
  next
    case False
    then obtain ret c2 where c2: "client_sync env L s fuel c = Some (Some (ret, c2))"
      using r(1) by (auto simp: sync_round_def bind_eq_Some_conv split: option.splits)
    then show ?thesis
      using r(1) False sync_no_copy [OF c2 Suc.prems(2)] by (simp add: sync_round_def)
  qed
  then show ?case using Suc.IH r(2) by blast
qed simp

section \<open>Properties\<close>

text \<open>
  C10. The search for the next record to send always comes to an answer: on a well-formed log
  of n records, a client at record s needs at most n - s + 1 turns, also while records are
  skipped during a copy or for a mirror.
\<close>

theorem sync_search_terminates:
  assumes "leveldb_api L contents snapshot cursor" "\<And>k. realloc_ok env k"
    "log_wf (contents (bq_db q)) n" "cl_last_seq c \<le> n" "cl_iter c \<noteq> IterUninit"
    "unat n - unat (cl_last_seq c) < fuel"
  shows "\<exists>r. sync_search env L q fuel log c = Some r \<and> r \<noteq> SearchNoFuel"
  using leveldb_api.sync_search_ends [OF assms(1,2,3)] assms(4-6) by blast

definition sample_client :: "mem_it Client" where
  "sample_client = (Client_new (Link_new zero_env))\<lparr>cl_iter := IterNull\<rparr>"

definition sample_queue :: "mem_db BinlogQueue" where
  "sample_queue = \<lparr>bq_db = sample_log, bq_capacity = 20, bq_last_seq = 2, bq_tran_seq = 0, bq_batch = [],
                   bq_locked = False\<rparr>"

theorem sync_search_terminates_witness:
  "\<exists>r. sync_search zero_env mem_ldb sample_queue 3 [] sample_client = Some r \<and> r \<noteq> SearchNoFuel"
proof (rule sync_search_terminates [OF mem.leveldb_api_axioms])
  show "log_wf (mem_contents (bq_db sample_queue)) 2" by (simp add: sample_queue_def sample_log_wf)
qed (simp_all add: zero_env_def sample_client_def Client_new_def)

text \<open>
  C9. Following the log: a client that is not copying and not a mirror, at record s, has after
  k turns of its thread sent exactly the messages of the records s+1 to s+k, in order and each
  once, and stands at s+k: for a set the record and the current value (nothing when the key has
  since been removed), for a removal the record alone, for other commands nothing.
\<close>

theorem sync_streams_log:
  assumes "leveldb_reliable L contents snapshot cursor" "\<And>k. realloc_ok env k"
    "log_wf m n" "m = contents (ss_ldb s)" "small_store m"
    "unat (cl_last_seq c) + k \<le> unat n" "cl_status c = CL_INIT \<or> cl_status c = CL_SYNC" "\<not> cl_is_mirror c"
  shows "\<exists>c'. sync_rounds env L s (Suc fuel) k c = Some (Some c') \<and>
     cl_out c' = cl_out c @ map packet (sync_msgs m (cl_last_seq c) k) \<and>
     cl_last_seq c' = cl_last_seq c + word_of_nat k \<and> cl_status c' = cl_status c"
  using leveldb_reliable.sync_rounds_follow [OF assms] by simp

definition sample_master :: "mem_db SSDBImpl" where
  "sample_master = sample_db\<lparr>ss_binlogs := sample_queue\<rparr>"

lemma sample_master_small: "small_store (mem_contents (ss_ldb sample_master))"
  by (auto simp: small_store_def sample_master_def sample_queue_def sample_log_def mem_contents_def
      length_Binlog_new HEADER_LEN_def encode_seq_key_eq split: if_splits)

theorem sync_streams_log_witness:
  "\<exists>c'. sync_rounds zero_env mem_ldb sample_master 1 2 sample_client = Some (Some c') \<and>
     cl_out c' = map packet (sync_msgs (mem_contents sample_log) 0 2) \<and> cl_last_seq c' = 2"
proof -
  have "log_wf (mem_contents (ss_ldb sample_master)) 2"
    by (simp add: sample_master_def sample_queue_def sample_log_wf)
  moreover have "realloc_ok zero_env k" for k by (simp add: zero_env_def)
  ultimately show ?thesis
    using sync_streams_log [OF mem.leveldb_reliable_axioms _ _ refl sample_master_small, of zero_env 2
        sample_client 2 0]
    by (auto simp: sample_client_def Client_new_def Link_new_def sample_master_def sample_queue_def)
qed

text \<open>
  The first copy: with an initialised iterator and fewer than 1000 keys to visit, one call
  of \<open>copy\<close> sends every key-value entry of the database exactly once, in key order and with its
  value, then the end marker, and switches the client to following the log.
\<close>

theorem copy_sends_all_entries:
  assumes "leveldb_api L contents snapshot cursor" "\<And>k. realloc_ok env k"
    "m = contents (ss_ldb s)" "small_store m" "cl_iter c = IterNull" "cl_last_key c = []"
    "ks = sorted_list_of_set {k \<in> dom m. [DT_HASH] < k}" "length ks < 1000"
  shows "\<exists>c'. client_copy env L s c = Some (1, c') \<and> cl_status c' = CL_SYNC \<and>
     cl_out c' = cl_out c @
       map packet (map (\<lambda>k. [Binlog_new (cl_last_seq c) BT_COPY BC_KSET k, the (m k)])
                       (filter (\<lambda>k. k ! 0 = DT_KV) ks) @ [copy_end_msg (cl_last_seq c)])"
  using leveldb_api.client_copy_all [OF assms] by blast

theorem copy_sends_all_entries_witness:
  "\<exists>c'. client_copy zero_env mem_ldb sample_master sample_client = Some (1, c') \<and>
     cl_out c' = map packet [[Binlog_new 0 BT_COPY BC_KSET ''ka'', ''1''], copy_end_msg 0]"
proof -
  define m where "m = mem_contents (ss_ldb sample_master)"
  have m: "m = [''ka'' \<mapsto> ''1'', encode_seq_key 1 \<mapsto> Binlog_new 1 BT_SYNC BC_KSET ''ka'',
      encode_seq_key 2 \<mapsto> Binlog_new 2 BT_SYNC BC_KDEL ''kb'']"
    by (simp add: m_def sample_master_def sample_queue_def sample_log_def mem_contents_def)
  have "\<not> [DT_HASH] < encode_seq_key s" for s by (simp add: encode_seq_key_eq)
  then have d: "{k \<in> dom m. [DT_HASH] < k} = {''ka''}" by (auto simp: m)
  have "m ''ka'' = Some ''1''" by (simp add: m encode_seq_key_eq)
  moreover have "realloc_ok zero_env k" for k by (simp add: zero_env_def)
  moreover have "cl_iter sample_client = IterNull" "cl_last_key sample_client = []" "cl_out sample_client = []"
    "cl_last_seq sample_client = 0"
    by (simp_all add: sample_client_def Client_new_def Link_new_def)
  ultimately show ?thesis
    using copy_sends_all_entries [OF mem.leveldb_api_axioms _ m_def sample_master_small [folded m_def] _ _ refl,
        of zero_env sample_client]
    by (auto simp: d)
qed

text \<open>
  A client that asks to continue an interrupted copy (a key but no record number, or both)
  starts in the initial state, and from there no turn of its thread ever enters the copy state:
  the rest of the data is not copied.
\<close>

lemma interrupted_copy_not_resumed:
  assumes "cl_status c = CL_INIT" "req = [cmd, sq, key]" "key \<noteq> []"
    "client_init env req c = Some c0" "sync_rounds env L s fuel k c0 = Some (Some c')"
  shows "cl_status c0 = CL_INIT \<and> cl_status c' \<noteq> CL_COPY"
proof -
  have c0: "cl_status c0 = CL_INIT"
    using assms(1-4) by (auto simp: client_init_def bind_eq_Some_conv)
  then have "cl_status c0 \<noteq> CL_COPY" by simp
  then have "cl_status c' \<noteq> CL_COPY" using rounds_no_copy assms(5) by blast
  then show ?thesis using c0 by simp
qed

text \<open>
  The iterator pointer is read before it is set: the first \<open>copy\<close> of a client made by
  the constructor and \<open>init\<close> is undefined, whatever the slave asked for.
\<close>

theorem first_copy_reads_uninitialised_iterator:
  assumes "client_init env req (Client_new link) = Some c"
  shows "client_copy env L s c = None"
proof -
  have "cl_iter c = IterUninit"
    using assms
    by (auto simp: client_init_def client_reset_def cl_send_def Client_new_def bind_eq_Some_conv Let_def
        split: if_splits)
  then show ?thesis by (simp add: client_copy_def)
qed

end
