(* ===== verification/Replication.thy ===== *)
theory Replication
  imports Backend_Sync Slave_Node
begin

text \<open>
  Replication from end to end: the database of the master as a state machine over its write
  operations, the invariant that ties its log to its data, and the convergence of a slave that
  follows the log.  The theory joins the models of ssdb\_impl.cpp, backend\_sync.cpp, link.cpp
  and slave.cpp and adds no model of its own.
\<close>

section \<open>The log and the data\<close>

text \<open>The key-value operation that a log record stands for: the key and whether it is set.\<close>

definition kv_op :: "bytes \<Rightarrow> (bytes \<times> bool) option" where
  "kv_op e =
     (case Binlog_key e of
        Some (c # k) \<Rightarrow>
          if Binlog_cmd e = Some BC_KSET then Some (k, True)
          else if Binlog_cmd e = Some BC_KDEL then Some (k, False) else None
      | _ \<Rightarrow> None)"

text \<open>The last operation on \<open>k\<close> among the \<open>j\<close> records after record \<open>s\<close>.\<close>

primrec last_op :: "store \<Rightarrow> bytes \<Rightarrow> 64 word \<Rightarrow> nat \<Rightarrow> bool option" where
  "last_op m k s 0 = None"
| "last_op m k s (Suc j) =
     (case kv_op (log_entry m (s + word_of_nat (Suc j))) of
        Some (k', b) \<Rightarrow> if k' = k then Some b else last_op m k s j
      | None \<Rightarrow> last_op m k s j)"

text \<open>
  A log agrees with its data: the records of key-value operations are as the operations write
  them, and a key has a value exactly when the last record about it is a set.
\<close>

definition log_ops_ok :: "store \<Rightarrow> 64 word \<Rightarrow> bool" where
  "log_ops_ok m n \<longleftrightarrow> (\<forall>s. 1 \<le> s \<longrightarrow> s \<le> n \<longrightarrow>
     (Binlog_cmd (log_entry m s) = Some BC_KSET \<longrightarrow>
        (\<exists>k. k \<noteq> [] \<and> log_entry m s = Binlog_new s BT_SYNC BC_KSET (encode_kv_key k))) \<and>
     (Binlog_cmd (log_entry m s) = Some BC_KDEL \<longrightarrow>
        (\<exists>k. log_entry m s = Binlog_new s BT_SYNC BC_KDEL (encode_kv_key k))))"

definition log_agrees :: "store \<Rightarrow> 64 word \<Rightarrow> bool" where
  "log_agrees m n \<longleftrightarrow> log_ops_ok m n \<and>
     (\<forall>k. kv_view m k \<noteq> None \<longleftrightarrow> last_op m k 0 (unat n) = Some True)"

text \<open>
  A copy \<open>v\<close> of the key-value map that is current up to record \<open>s\<close>: it can differ from the
  map only at keys with a later record.
\<close>

definition current_to :: "store \<Rightarrow> store \<Rightarrow> 64 word \<Rightarrow> 64 word \<Rightarrow> bool" where
  "current_to v m s n \<longleftrightarrow> s \<le> n \<and>
     (\<forall>k. last_op m k s (unat n - unat s) = None \<longrightarrow> v k = kv_view m k)"

lemma kv_op_new [simp]:
  "kv_op (Binlog_new s t BC_KSET (encode_kv_key k)) = Some (k, True)"
  "kv_op (Binlog_new s t BC_KDEL (encode_kv_key k)) = Some (k, False)"
  "kv_op (Binlog_new s t BC_HSET h) = None"
  by (auto simp: kv_op_def encode_kv_key_def split: list.splits)

lemma last_op_split:
  "last_op m k 0 (unat s + j) =
     (case last_op m k s j of Some b \<Rightarrow> Some b | None \<Rightarrow> last_op m k 0 (unat s))"
proof (induction j)
  case (Suc j)
  have "word_of_nat (unat s + Suc j) = s + word_of_nat (Suc j)" by simp
  then show ?case using Suc.IH by (auto split: option.splits simp del: of_nat_Suc)
qed simp

text \<open>Appending one record.\<close>

lemma log_entry_upd:
  "log_entry (m(encode_seq_key q \<mapsto> e)) t = (if t = q then e else log_entry m t)"
  by (simp add: log_entry_def)

lemma last_op_append:
  assumes "unat s + j \<le> unat n" "\<And>t. t \<le> n \<Longrightarrow> log_entry m' t = log_entry m t"
  shows "last_op m' k s j = last_op m k s j"
  using assms(1)
proof (induction j)
  case (Suc j)
  have "unat (s + word_of_nat (Suc j)) = unat s + Suc j"
    using Suc.prems unat64_less [of n] by (simp add: unat_word_ariths unat_of_nat del: of_nat_Suc)
  then have "s + word_of_nat (Suc j) \<le> n" using Suc.prems by (simp add: word_le_nat_alt del: of_nat_Suc)
  then show ?case using Suc assms(2) by (simp del: of_nat_Suc split: option.splits)
qed simp

text \<open>
  One more record keeps the agreement, when the data changes as the record says, and extends
  the distance of a copy by that record.
\<close>

definition follows :: "store \<Rightarrow> store \<Rightarrow> 64 word \<Rightarrow> bytes \<Rightarrow> bool" where
  "follows m m' n e \<longleftrightarrow>
     log_entry m' (n + 1) = e \<and> (\<forall>t. t \<le> n \<longrightarrow> log_entry m' t = log_entry m t) \<and>
     (case kv_op e of
        None \<Rightarrow> kv_view m' = kv_view m
      | Some (k, b) \<Rightarrow> (kv_view m' k \<noteq> None \<longleftrightarrow> b) \<and> (\<forall>k'. k' \<noteq> k \<longrightarrow> kv_view m' k' = kv_view m k'))"

definition record_ok :: "64 word \<Rightarrow> bytes \<Rightarrow> bool" where
  "record_ok s e \<longleftrightarrow>
     (Binlog_cmd e = Some BC_KSET \<longrightarrow> (\<exists>k. k \<noteq> [] \<and> e = Binlog_new s BT_SYNC BC_KSET (encode_kv_key k))) \<and>
     (Binlog_cmd e = Some BC_KDEL \<longrightarrow> (\<exists>k. e = Binlog_new s BT_SYNC BC_KDEL (encode_kv_key k)))"

lemma log_ops_ok_iff: "log_ops_ok m n \<longleftrightarrow> (\<forall>s. 1 \<le> s \<longrightarrow> s \<le> n \<longrightarrow> record_ok s (log_entry m s))"
  by (simp add: log_ops_ok_def record_ok_def)

lemma follows_last_op:
  assumes "follows m m' n e" "n < - 1" "s \<le> n"
  shows "last_op m' k s (unat (n + 1) - unat s) =
    (case kv_op e of Some (k', b) \<Rightarrow> if k' = k then Some b else last_op m k s (unat n - unat s)
     | None \<Rightarrow> last_op m k s (unat n - unat s))"
proof -
  have u: "unat (n + 1) = unat n + 1" by (rule word_next_bounds(3) [OF assms(2)])
  have le: "unat s \<le> unat n" using assms(3) by (simp add: word_le_nat_alt)
  then have j: "unat (n + 1) - unat s = Suc (unat n - unat s)" using u by simp
  have "s + word_of_nat (Suc (unat n - unat s)) = word_of_nat (unat s + Suc (unat n - unat s))" by simp
  also have "unat s + Suc (unat n - unat s) = Suc (unat n)" using le by simp
  finally have i: "s + word_of_nat (Suc (unat n - unat s)) = n + 1" by simp
  have "last_op m' k s (unat n - unat s) = last_op m k s (unat n - unat s)"
    using assms(1) le by (intro last_op_append [of _ _ n]) (auto simp: follows_def)
  then show ?thesis using assms(1) by (simp add: j i follows_def del: of_nat_Suc split: option.split)
qed

lemma follows_agrees:
  assumes "follows m m' n e" "n < - 1" "log_agrees m n" "record_ok (n + 1) e"
  shows "log_agrees m' (n + 1)"
proof -
  have "record_ok s (log_entry m' s)" if "1 \<le> s" "s \<le> n + 1" for s
    using word_Suc_le [OF assms(2), of s] that assms(1,3,4) by (auto simp: log_agrees_def log_ops_ok_iff follows_def)
  moreover have "kv_view m' k \<noteq> None \<longleftrightarrow> last_op m' k 0 (unat (n + 1)) = Some True" for k
    using follows_last_op [OF assms(1,2), of 0 k] assms(1,3)
    by (cases "kv_op e") (auto simp: follows_def log_agrees_def split: if_splits)
  ultimately show ?thesis by (simp add: log_agrees_def log_ops_ok_iff)
qed

lemma follows_current:
  assumes "follows m m' n e" "n < - 1" "current_to v m s n"
  shows "current_to v m' s (n + 1)"
proof -
  have s: "s \<le> n" using assms(3) by (simp add: current_to_def)
  then have "s \<le> n + 1" using word_next_bounds(4) [OF assms(2)] by simp
  then show ?thesis
    using follows_last_op [OF assms(1,2) s] assms(1,3)
    by (cases "kv_op e") (auto simp: current_to_def follows_def split: if_splits)
qed

section \<open>The master as a state machine\<close>

text \<open>
  The steps of the data database of a master: its write operations, as long as a record number
  and the count of the hash remain in range, and a restart, which recovers the queue.
\<close>

inductive master_step :: "('db, 'it) leveldb \<Rightarrow> 'db SSDBImpl \<Rightarrow> 'db SSDBImpl \<Rightarrow> bool" for L where
  step_set: "unat (bq_last_seq (ss_binlogs s)) + 2 < 2 ^ 64 \<Longrightarrow> ssdb_set L key val s = (r, s') \<Longrightarrow>
    master_step L s s'"
| step_del: "unat (bq_last_seq (ss_binlogs s)) + 2 < 2 ^ 64 \<Longrightarrow> ssdb_del L key s = (r, s') \<Longrightarrow>
    master_step L s s'"
| step_hset: "unat (bq_last_seq (ss_binlogs s)) + 2 < 2 ^ 64 \<Longrightarrow> fits64 (ssdb_hsize L name s + 1) \<Longrightarrow>
    ssdb_hset L name key val t s = Some (r, s') \<Longrightarrow> master_step L s s'"
| step_restart: "BinlogQueue_new L (ss_ldb s) cap = Some q \<Longrightarrow> master_step L s (s\<lparr>ss_binlogs := q\<rparr>)"

definition master_inv :: "('db \<Rightarrow> store) \<Rightarrow> 'db SSDBImpl \<Rightarrow> bool" where
  "master_inv contents s \<longleftrightarrow> ssdb_inv contents 0 s \<and> log_agrees (contents (ss_ldb s)) (bq_last_seq (ss_binlogs s))"

text \<open>What a step is to its followers: nothing, or one more record.\<close>

definition extends :: "('db \<Rightarrow> store) \<Rightarrow> 'db SSDBImpl \<Rightarrow> 'db SSDBImpl \<Rightarrow> bool" where
  "extends contents s s' \<longleftrightarrow>
     (let n = bq_last_seq (ss_binlogs s); n' = bq_last_seq (ss_binlogs s')
      in n' = n \<and> contents (ss_ldb s') = contents (ss_ldb s) \<or>
         n' = n + 1 \<and> (\<exists>e. follows (contents (ss_ldb s)) (contents (ss_ldb s')) n e \<and> record_ok n' e))"

lemma word_neq_next: "(t :: 64 word) \<le> n \<Longrightarrow> n < - 1 \<Longrightarrow> t \<noteq> n + 1"
  using word_next_bounds(4) [of n "- 1"] by auto

lemma follows_logged:
  assumes "n < - 1" "\<And>t. apply_batch ops m (encode_seq_key t) = m (encode_seq_key t)"
    "case kv_op (Binlog_new (n + 1) ty cmd key) of
       None \<Rightarrow> kv_view (apply_batch ops m) = kv_view m
     | Some (k, b) \<Rightarrow> (kv_view (apply_batch ops m) k \<noteq> None \<longleftrightarrow> b) \<and>
         (\<forall>k'. k' \<noteq> k \<longrightarrow> kv_view (apply_batch ops m) k' = kv_view m k')"
  shows "follows m (logged ops ty cmd key n m) n (Binlog_new (n + 1) ty cmd key)"
proof -
  have "log_entry (apply_batch ops m) t = log_entry m t" for t using assms(2) by (simp add: log_entry_def)
  then show ?thesis
    using assms(1,3) word_neq_next [of _ n] by (auto simp: follows_def logged_def log_entry_upd split: option.splits)
qed

context leveldb_reliable
begin

lemma set_extends:
  assumes "ssdb_set L key val s = (r, s')" "bq_last_seq (ss_binlogs s) < - 1"
  shows "extends contents s s'"
proof (cases "key = []")
  case True
  then show ?thesis using assms(1) by (simp add: ssdb_set_def extends_def)
next
  case False
  have "r = 1" using set_total [OF False, of val s] assms(1) by simp
  then have "outcome contents [BPut (encode_kv_key key) val] BT_SYNC BC_KSET (encode_kv_key key) s True s'"
    using set_outcome(2) [OF assms(1) False] by simp
  then show ?thesis
    using follows_logged [OF assms(2), of "[BPut (encode_kv_key key) val]" "contents (ss_ldb s)" BT_SYNC
        BC_KSET "encode_kv_key key"] False
    by (auto simp: outcome_def extends_def Let_def record_ok_def)
qed

lemma del_extends:
  assumes "ssdb_del L key s = (r, s')" "bq_last_seq (ss_binlogs s) < - 1"
  shows "extends contents s s'"
proof -
  have "r = 1" using del_total [of key s] assms(1) by simp
  then have "outcome contents [BDelete (encode_kv_key key)] BT_SYNC BC_KDEL (encode_kv_key key) s True s'"
    using del_outcome(2) [OF assms(1)] by simp
  then show ?thesis
    using follows_logged [OF assms(2), of "[BDelete (encode_kv_key key)]" "contents (ss_ldb s)" BT_SYNC
        BC_KDEL "encode_kv_key key"]
    by (auto simp: outcome_def extends_def Let_def record_ok_def)
qed

lemma hset_extends:
  assumes "ssdb_hset L name key val t s = Some (r, s')" "ssdb_inv contents (Suc b) s"
    "fits64 (hsize_rep (contents (ss_ldb s)) name + 1)"
  shows "extends contents s s' \<and> ssdb_inv contents b s'"
proof -
  let ?m = "contents (ss_ldb s)" and ?hkey = "encode_hash_key name key"
  have inv: "ssdb_inv contents b s'" using hset_spec [OF leveldb_reliable_axioms assms(2) refl assms(3) refl, of key val t] assms(1) by auto
  have n: "bq_last_seq (ss_binlogs s) < - 1" using assms(2) by (auto simp: ssdb_inv_def dest: log_wf_bound)
  have rec: "record_ok q (Binlog_new q t BC_HSET ?hkey)" for q by (simp add: record_ok_def)
  have ext: "extends contents s s'"
    if "outcome contents ops t BC_HSET ?hkey s True s'"
      "\<And>q. apply_batch ops ?m (encode_seq_key q) = ?m (encode_seq_key q)"
      "kv_view (apply_batch ops ?m) = kv_view ?m" for ops
    using that follows_logged [OF n, of ops ?m t BC_HSET ?hkey] rec
    by (auto simp: outcome_def extends_def Let_def)
  show ?thesis
  proof (cases "name = [] \<or> key = [] \<or> SSDB_KEY_LEN_MAX < length name \<or> SSDB_KEY_LEN_MAX < length key")
    case True
    then show ?thesis
      using hset_arguments [OF True, of L val t s] assms(1) inv by (auto simp: extends_def)
  next
    case False
    then have v: "name \<noteq> []" "key \<noteq> []" "length name \<le> SSDB_KEY_LEN_MAX" "length key \<le> SSDB_KEY_LEN_MAX"
      by auto
    consider "hash_view ?m name key = None" | old where "hash_view ?m name key = Some old" "old \<noteq> val"
      | "hash_view ?m name key = Some val" by fastforce
    then show ?thesis
    proof cases
      case 1
      from hset_new [OF assms(2) v 1 refl assms(3) refl, of val t] assms(1)
      show ?thesis using inv by (auto intro!: ext)
    next
      case (2 old)
      from hset_old [OF assms(2) v 2(1), of val t] 2(2) assms(1)
      show ?thesis using inv by (auto intro!: ext)
    next
      case 3
      from hset_same [OF ssdb_inv_mono [OF assms(2)] v 3, of t] assms(1)
      show ?thesis using inv by (auto simp: extends_def Let_def)
    qed
  qed
qed

text \<open>Every step keeps the invariant of the master and only extends the log.\<close>

lemma extends_inv:
  assumes "extends contents s s'" "master_inv contents s" "ssdb_inv contents 0 s'"
  shows "master_inv contents s'"
proof -
  have "bq_last_seq (ss_binlogs s) < - 1" using assms(2) by (auto simp: master_inv_def ssdb_inv_def dest: log_wf_bound)
  then show ?thesis
    using assms follows_agrees by (auto simp: extends_def master_inv_def Let_def)
qed

lemma extends_current:
  assumes "extends contents s s'" "master_inv contents s"
    "current_to v (contents (ss_ldb s)) q (bq_last_seq (ss_binlogs s))"
  shows "current_to v (contents (ss_ldb s')) q (bq_last_seq (ss_binlogs s'))"
proof -
  have "bq_last_seq (ss_binlogs s) < - 1" using assms(2) by (auto simp: master_inv_def ssdb_inv_def dest: log_wf_bound)
  then show ?thesis
    using assms follows_current by (auto simp: extends_def Let_def)
qed

lemma step_extends:
  assumes "master_step L s s'" "master_inv contents s"
  shows "extends contents s s' \<and> ssdb_inv contents 0 s'"
  using assms(1)
proof cases
  case (step_set key val r)
  have inv: "ssdb_inv contents (Suc 0) s" using assms(2) step_set(1) by (simp add: master_inv_def ssdb_inv_def)
  show ?thesis
    using set_extends [OF step_set(2)] kv.put_view [OF inv, of key val] step_set(2) inv
    by (auto simp: ssdb_inv_def dest: log_wf_bound)
next
  case (step_del key r)
  have inv: "ssdb_inv contents (Suc 0) s" using assms(2) step_del(1) by (simp add: master_inv_def ssdb_inv_def)
  show ?thesis
    using del_extends [OF step_del(2)] kv.remove_spec [OF inv, of key] step_del(2) inv
    by (auto simp: ssdb_inv_def dest: log_wf_bound)
next
  case (step_hset name key val t r)
  have inv: "ssdb_inv contents (Suc 0) s" using assms(2) step_hset(1) by (simp add: master_inv_def ssdb_inv_def)
  show ?thesis using hset_extends [OF step_hset(3) inv] step_hset(2) by (simp add: hsize_spec)
next
  case (step_restart cap q)
  have "log_wf (contents (ss_ldb s)) (bq_last_seq (ss_binlogs s))"
    using assms(2) by (simp add: master_inv_def ssdb_inv_def)
  from queue_recovers [OF this, of cap] step_restart(2)
  show ?thesis using assms(2) by (auto simp: step_restart(1) extends_def master_inv_def ssdb_inv_def Let_def)
qed

lemma steps_current:
  assumes "(master_step L)\<^sup>*\<^sup>* s s'" "master_inv contents s"
    "current_to v (contents (ss_ldb s)) q (bq_last_seq (ss_binlogs s))"
  shows "master_inv contents s' \<and> current_to v (contents (ss_ldb s')) q (bq_last_seq (ss_binlogs s'))"
  using assms
proof (induction rule: rtranclp_induct)
  case (step y z)
  then have y: "master_inv contents y" "current_to v (contents (ss_ldb y)) q (bq_last_seq (ss_binlogs y))" by auto
  note e = step_extends [OF step.hyps(2) y(1)]
  show ?case using e extends_inv extends_current y by blast
qed auto

end

lemma current_refl: "current_to (kv_view m) m n n"
  by (simp add: current_to_def)

section \<open>Convergence\<close>

lemma sync_msgs_snoc: "sync_msgs m s (Suc j) = sync_msgs m s j @ sync_msg m (s + word_of_nat (Suc j))"
proof (induction j arbitrary: s)
  case (Suc j)
  have "sync_msgs m s (Suc (Suc j)) = sync_msg m (s + 1) @ sync_msgs m (s + 1) (Suc j)"
    by (rule sync_msgs.simps(2))
  also have "\<dots> = sync_msgs m s (Suc j) @ sync_msg m (s + word_of_nat (Suc (Suc j)))"
    unfolding Suc.IH [of "s + 1"] by (simp add: add.assoc)
  finally show ?case .
qed simp

text \<open>The messages of one record, for a log whose records are as the operations write them.\<close>

lemma sync_msg_cases:
  assumes "record_ok s (log_entry m s)"
  obtains (set) k v where "k \<noteq> []" "kv_op (log_entry m s) = Some (k, True)" "kv_view m k = Some v"
      "sync_msg m s = [[log_entry m s, v]]" "log_entry m s = Binlog_new s BT_SYNC BC_KSET (encode_kv_key k)"
    | (gone) k where "kv_op (log_entry m s) = Some (k, True)" "kv_view m k = None" "sync_msg m s = []"
    | (del) k where "kv_op (log_entry m s) = Some (k, False)" "sync_msg m s = [[log_entry m s]]"
      "log_entry m s = Binlog_new s BT_SYNC BC_KDEL (encode_kv_key k)"
    | (other) "kv_op (log_entry m s) = None" "sync_msg m s = []"
proof -
  define e where "e = log_entry m s"
  show thesis
  proof (cases "Binlog_cmd e = Some BC_KSET")
    case True
    then obtain k where k: "k \<noteq> []" "e = Binlog_new s BT_SYNC BC_KSET (encode_kv_key k)"
      using assms by (auto simp: record_ok_def e_def)
    show thesis
    proof (cases "kv_view m k")
      case None
      then show thesis using k gone [of k] by (simp add: sync_msg_def e_def kv_view_def Let_def)
    next
      case (Some v)
      then show thesis using k set [of k v] by (simp add: sync_msg_def e_def kv_view_def Let_def)
    qed
  next
    case nset: False
    show thesis
    proof (cases "Binlog_cmd e = Some BC_KDEL")
      case True
      then obtain k where k: "e = Binlog_new s BT_SYNC BC_KDEL (encode_kv_key k)"
        using assms by (auto simp: record_ok_def e_def)
      then show thesis using del [of k] by (simp add: sync_msg_def e_def Let_def)
    next
      case False
      then show thesis
        using nset other by (simp add: sync_msg_def e_def kv_op_def Let_def split: option.splits list.splits)
    qed
  qed
qed

text \<open>
  What a copy holds after the messages of \<open>j\<close> records: for a key last set it holds the
  current value, unless that was deleted since; for a key last deleted nothing; for others
  what it held.
\<close>

lemma messages_applied:
  assumes "log_ops_ok m n" "unat s + j \<le> unat n"
  shows "case last_op m k s j of
      None \<Rightarrow> fold apply_change (sync_msgs m s j) v k = v k
    | Some True \<Rightarrow> kv_view m k \<noteq> None \<longrightarrow> fold apply_change (sync_msgs m s j) v k = kv_view m k
    | Some False \<Rightarrow> fold apply_change (sync_msgs m s j) v k = None"
  using assms(2)
proof (induction j)
  case (Suc j)
  define t where "t = s + word_of_nat (Suc j)"
  have "unat t = unat s + Suc j"
    using Suc.prems unat64_less [of n] by (simp add: t_def unat_word_ariths unat_of_nat del: of_nat_Suc)
  then have "1 \<le> t" "t \<le> n" using Suc.prems by (simp_all add: word_le_nat_alt)
  then have ok: "record_ok t (log_entry m t)" using assms(1) by (simp add: log_ops_ok_iff)
  have IH: "case last_op m k s j of
      None \<Rightarrow> fold apply_change (sync_msgs m s j) v k = v k
    | Some True \<Rightarrow> kv_view m k \<noteq> None \<longrightarrow> fold apply_change (sync_msgs m s j) v k = kv_view m k
    | Some False \<Rightarrow> fold apply_change (sync_msgs m s j) v k = None"
    using Suc by simp
  have F: "fold apply_change (sync_msgs m s (Suc j)) v =
      fold apply_change (sync_msg m t) (fold apply_change (sync_msgs m s j) v)"
    by (simp add: sync_msgs_snoc t_def del: sync_msgs.simps of_nat_Suc)
  show ?case
    using ok
  proof (cases rule: sync_msg_cases)
    case (set k' v')
    then have "apply_change [log_entry m t, v'] u = u(k' \<mapsto> v')" for u
      by (simp add: apply_change_def encode_kv_key_def)
    then show ?thesis
      unfolding F last_op.simps t_def [symmetric] using set IH by (cases "k' = k") (simp_all split: option.splits bool.splits)
  next
    case (gone k')
    then show ?thesis
      unfolding F last_op.simps t_def [symmetric] using IH by (auto split: option.splits bool.splits)
  next
    case (del k')
    then have "apply_change [log_entry m t] u = u(k' := None)" for u
      by (simp add: apply_change_def encode_kv_key_def)
    then show ?thesis
      unfolding F last_op.simps t_def [symmetric] using del IH by (cases "k' = k") (simp_all split: option.splits bool.splits)
  next
    case other
    then show ?thesis
      unfolding F last_op.simps t_def [symmetric] using IH by (auto split: option.splits bool.splits)
  qed
qed simp

lemma converges:
  assumes "log_agrees m n" "current_to v m s n" "j = unat n - unat s"
  shows "fold apply_change (sync_msgs m s j) v = kv_view m"
proof
  fix k
  have le: "unat s \<le> unat n" using assms(2) by (simp add: current_to_def word_le_nat_alt)
  have agree: "kv_view m k \<noteq> None \<longleftrightarrow> last_op m k 0 (unat s + j) = Some True"
    using assms(1,3) le by (simp add: log_agrees_def)
  have "case last_op m k s j of
      None \<Rightarrow> fold apply_change (sync_msgs m s j) v k = v k
    | Some True \<Rightarrow> kv_view m k \<noteq> None \<longrightarrow> fold apply_change (sync_msgs m s j) v k = kv_view m k
    | Some False \<Rightarrow> fold apply_change (sync_msgs m s j) v k = None"
    using assms(1,3) le by (intro messages_applied [of m n]) (simp_all add: log_agrees_def)
  then show "fold apply_change (sync_msgs m s j) v k = kv_view m k"
    using agree assms(2,3)
    by (cases "last_op m k s j") (auto simp: last_op_split current_to_def split: bool.splits if_splits)
qed

lemma sync_msgs_messages:
  assumes "log_agrees m n" "unat s + j \<le> unat n" "msg \<in> set (sync_msgs m s j)"
  shows "sync_message msg"
  using assms(2,3)
proof (induction j)
  case (Suc j)
  define t where "t = s + word_of_nat (Suc j)"
  have "unat t = unat s + Suc j"
    using Suc.prems unat64_less [of n] by (simp add: t_def unat_word_ariths unat_of_nat del: of_nat_Suc)
  then have "1 \<le> t" "t \<le> n" using Suc.prems by (simp_all add: word_le_nat_alt)
  then have ok: "record_ok t (log_entry m t)" using assms(1) by (simp add: log_agrees_def log_ops_ok_iff)
  have "msg \<in> set (sync_msgs m s j) \<or> msg \<in> set (sync_msg m t)"
    using Suc.prems(2) by (simp add: sync_msgs_snoc t_def del: sync_msgs.simps of_nat_Suc)
  then show ?case
  proof
    assume msg: "msg \<in> set (sync_msg m t)"
    from ok msg show ?case
      by (cases rule: sync_msg_cases) (auto simp: sync_message_def length_Binlog_new)
  qed (use Suc in auto)
qed simp

section \<open>Delivery\<close>

text \<open>A sequence of reads at the slave; it ends early if the link is deleted.\<close>

primrec slave_reads ::
  "heap_env \<Rightarrow> (bytes \<Rightarrow> int option) \<Rightarrow> ('db, 'it) leveldb \<Rightarrow> bytes list \<Rightarrow> 'db Slave \<Rightarrow> Link \<Rightarrow>
   ('db Slave \<times> Link) option" where
  "slave_reads env f L [] sl link = Some (sl, link)"
| "slave_reads env f L (data # ds) sl link = do {
     (sl, l) \<leftarrow> slave_onRead env f L (int (length data)) data sl link;
     link \<leftarrow> l;
     slave_reads env f L ds sl link }"

lemma slave_reads_append:
  "slave_reads env f L as sl link = Some (sl1, link1) \<Longrightarrow>
   slave_reads env f L (as @ bs) sl link = slave_reads env f L bs sl1 link1"
  by (induction as arbitrary: sl link) (auto simp: bind_eq_Some_conv)

text \<open>What the event loop delivers to the thread of the slave.\<close>

abbreviation delivered :: "bytes list \<Rightarrow> (int \<times> bytes) list" where
  "delivered ds \<equiv> map (\<lambda>d. (int (length d), d)) ds"

lemma events_reads:
  "slave_reads env f L ds sl link = Some (sl', link') \<Longrightarrow>
   slave_events env f L (delivered ds) sl link = Some (sl', Some link')"
  by (induction ds arbitrary: sl link) (auto simp: bind_eq_Some_conv split: option.splits)

lemma reads_run:
  "slave_procs L msgs sl = Some sl' \<Longrightarrow> packets_ok msgs \<Longrightarrow> buffer_wf (lk_input link) \<Longrightarrow>
    b_view (lk_input link) = [] \<Longrightarrow> int (length (concat (map packet msgs))) \<le> b_room env (lk_input link) \<Longrightarrow>
    \<exists>link'. slave_reads env f L (map packet msgs) sl link = Some (sl', link') \<and> buffer_wf (lk_input link') \<and>
      b_view (lk_input link') = [] \<and>
      b_room env (lk_input link') \<ge> b_room env (lk_input link) - int (length (concat (map packet msgs)))"
proof (induction msgs arbitrary: sl link)
  case (Cons msg msgs)
  obtain r sl1 where sl1: "slave_proc L msg sl = Some (r, sl1)" "slave_procs L msgs sl1 = Some sl'"
    using Cons.prems(1) by (auto simp: bind_eq_Some_conv)
  have one: "slave_procs L [msg] sl = Some sl1" "packets_ok [msg]" using sl1(1) Cons.prems(2) by simp_all
  have data: "packet msg = concat (map packet [msg])" by simp
  have room: "int (length (packet msg)) \<le> b_room env (lk_input link)" using Cons.prems(5) by simp
  from on_read_runs [OF one _ Cons.prems(3,4) data room, of f] obtain link1 where
    r: "slave_onRead env f L (int (length (packet msg))) (packet msg) sl link = Some (sl1, Some link1)"
      "buffer_wf (lk_input link1)" "b_view (lk_input link1) = []"
      "b_room env (lk_input link1) \<ge> b_room env (lk_input link) - int (length (packet msg))" by blast
  have "packets_ok msgs" "int (length (concat (map packet msgs))) \<le> b_room env (lk_input link1)"
    using r(4) Cons.prems(2,5) by simp_all
  from Cons.IH [OF sl1(2) this(1) r(2,3) this(2)] show ?case using r(1,4) by fastforce
qed simp

context leveldb_reliable
begin

lemma reads_apply:
  assumes "\<And>msg. msg \<in> set msgs \<Longrightarrow> sync_message msg \<and> int (length (packet msg)) \<le> MAX_PACKET_SIZE"
    "slave_inv contents (length msgs) sl" "buffer_wf (lk_input link)" "b_view (lk_input link) = []"
    "int (length (concat (map packet msgs))) \<le> b_room env (lk_input link)"
  shows "\<exists>sl' link'. slave_reads env f L (map packet msgs) sl link = Some (sl', link') \<and>
      kv_view (contents (ss_ldb (sl_ssdb sl'))) =
        fold apply_change msgs (kv_view (contents (ss_ldb (sl_ssdb sl))))"
proof -
  have "packets_ok msgs" using assms(1) by (auto simp: packets_ok_def sync_message_def)
  with procs_apply [of msgs 0 sl] reads_run [OF _ _ assms(3-5)] assms(1,2) show ?thesis by fastforce
qed

end

text \<open>The request of a slave that resumes, and the client that the master makes of it.\<close>

lemma connect_request:
  assumes "\<And>k. realloc_ok env k" "sl_last_key sl = []"
  shows "on_connect env 0 sl link =
    Some (link\<lparr>lk_out := lk_out link @ [packet [''sync140'', str_uint64 (sl_last_seq sl), [], ''sync'']]\<rparr>)"
proof -
  have "length (str_uint64 (sl_last_seq sl)) \<le> 20" by (simp add: str_uint64_def snprintf_def)
  then show ?thesis
    using send_records_out [OF assms(1), of "[''sync140'', str_uint64 (sl_last_seq sl), [], ''sync'']" link] assms(2)
    by (simp add: on_connect_def send4_def)
qed

lemma resuming_client:
  assumes "q \<noteq> 0"
  shows "client_init env [''sync140'', str_uint64 q, [], ''sync''] (Client_new link) =
    Some ((Client_new link)\<lparr>cl_last_seq := q\<rparr>)"
  using assms by (simp add: client_init_def uint64_parse_str Client_new_def)

end
