(* ===== verification/First_Copy.thy ===== *)
theory First_Copy
  imports Replication
begin

text \<open>
  The first copy of replication from end to end: a slave without a position gets the whole
  key-value map of the master and then follows its log.  The theory joins the models of
  backend\_sync.cpp, link.cpp and slave.cpp and adds no model of its own.

  The constructor of the master's client leaves the iterator pointer uninitialised, which
  \<open>first_copy_reads_uninitialised_iterator\<close> shows to be undefined; here it starts as the null
  pointer, as the code assumes.
\<close>

section \<open>The messages of the copy\<close>

definition copy_begin_msg :: "bytes list" where
  "copy_begin_msg = [Binlog_new 0 BT_COPY BC_BEGIN [], ''copy_begin'']"

definition copy_entry :: "64 word \<Rightarrow> store \<Rightarrow> bytes \<Rightarrow> bytes list" where
  "copy_entry n v k = [Binlog_new n BT_COPY BC_KSET (encode_kv_key k), the (v k)]"

definition copy_stream :: "64 word \<Rightarrow> store \<Rightarrow> bytes list list" where
  "copy_stream n v = copy_begin_msg # map (copy_entry n v) (sorted_list_of_set (dom v)) @ [copy_end_msg n]"

lemma kv_finite: "finite (dom m) \<Longrightarrow> finite (dom (kv_view m))"
proof -
  assume "finite (dom m)"
  moreover have "dom (kv_view m) = encode_kv_key -` dom m" by (auto simp: kv_view_def)
  ultimately show ?thesis by (simp add: finite_vimageI inj_def encode_kv_key_def)
qed

lemma kv_keys:
  assumes "finite (dom m)"
  shows "filter (\<lambda>k. k ! 0 = DT_KV) (sorted_list_of_set {k \<in> dom m. [DT_HASH] < k}) =
    map encode_kv_key (sorted_list_of_set (dom (kv_view m)))"
proof -
  note fin = kv_finite [OF assms]
  let ?as = "filter (\<lambda>k. k ! 0 = DT_KV) (sorted_list_of_set {k \<in> dom m. [DT_HASH] < k})"
  let ?bs = "map encode_kv_key (sorted_list_of_set (dom (kv_view m)))"
  have "set ?as = set ?bs"
  proof -
    have "k \<in> encode_kv_key ` dom (kv_view m)" if "k \<in> dom m" "[DT_HASH] < k" "k ! 0 = DT_KV" for k
    proof -
      from that obtain k' where "k = encode_kv_key k'" by (cases k) (auto simp: encode_kv_key_def)
      then show ?thesis using that(1) by (auto simp: kv_view_def)
    qed
    then show ?thesis using assms fin by (auto simp: kv_view_def encode_kv_key_def)
  qed
  moreover have "sorted ?as" "distinct ?as" by (simp_all add: sorted_wrt_filter)
  moreover have "sorted ?bs"
    by (simp add: sorted_wrt_map encode_kv_key_def)
  moreover have "distinct ?bs" by (simp add: distinct_map inj_on_def encode_kv_key_def)
  ultimately show ?thesis by (intro sorted_distinct_set_unique)
qed

section \<open>The master\<close>

context leveldb_reliable
begin

lemma finite_store: "finite (dom (contents d))"
  by (rule finite_contents)

text \<open>The search before the copy takes the client to the end of the log.\<close>

lemma first_sync:
  assumes "log_wf m n" "m = contents (ss_ldb s)" "log_ops_ok m n" "cl_status c = CL_COPY" "cl_last_seq c = 0"
    "cl_last_key c = []" "\<not> cl_is_mirror c" "cl_iter c = IterNull"
  shows "client_sync env L s (Suc (Suc fuel)) c = Some (Some (0, c\<lparr>cl_last_seq := n\<rparr>))"
proof (cases "n = 0")
  case True
  then show ?thesis
    using sync_search_at_end [of "ss_binlogs s" c env "Suc fuel" "[]"] assms(1,2,5) by (simp add: client_sync_def)
next
  case False
  then have n: "1 \<le> n" "n \<le> n" by (simp_all add: one_le_word)
  obtain key ty cmd where e: "Binlog_key (log_entry m n) = Some key" "Binlog_type (log_entry m n) = Some ty"
    "Binlog_cmd (log_entry m n) = Some cmd" using log_fields [OF assms(1) n] by blast
  note sq = log_wf_entryI(3) [OF assms(1) n]
  have look: "sync_lookup L (ss_binlogs s) [] c = (1, log_entry m n)"
    using sync_find [of "ss_binlogs s" n c "[]"] assms(1,2,4,5) False by simp
  let ?c = "c\<lparr>cl_last_seq := n, cl_iter := IterNull\<rparr>"
  have c: "c\<lparr>cl_last_seq := n\<rparr> = ?c" using assms(8) by simp
  have ok: "record_ok n (log_entry m n)" using assms(3) n(1) by (simp add: log_ops_ok_iff)
  show ?thesis
  proof (cases "key = []")
    case True
    then have "cmd \<noteq> BC_KSET" "cmd \<noteq> BC_KDEL"
      using ok e by (auto simp: record_ok_def encode_kv_key_def)
    then show ?thesis
      using look e sq True assms(4-7) by (simp add: client_sync_def Let_def sync_send_def)
  next
    case key: False
    have "sync_search env L (ss_binlogs s) (Suc fuel) (log_entry m n) ?c = Some (SearchReturn 0 ?c)"
      using assms(1,2) by (intro sync_search_at_end) simp
    then have "sync_search env L (ss_binlogs s) (Suc (Suc fuel)) [] c = Some (SearchReturn 0 ?c)"
      using look e sq key assms(4,6,8) by (cases key) (simp_all add: Let_def)
    then show ?thesis by (simp add: client_sync_def c [symmetric])
  qed
qed

lemma first_round:
  assumes "\<And>k. realloc_ok env k" "log_wf m n" "m = contents (ss_ldb s)" "log_ops_ok m n" "small_store m"
    "card {k \<in> dom m. [DT_HASH] < k} < 1000"
    "cl_status c = CL_COPY" "cl_last_seq c = 0" "cl_last_key c = []" "\<not> cl_is_mirror c" "cl_iter c = IterNull"
  shows "\<exists>c'. sync_round env L s (Suc (Suc fuel)) c = Some (Some (False, c')) \<and> cl_status c' = CL_SYNC \<and>
    cl_last_seq c' = n \<and> \<not> cl_is_mirror c' \<and> cl_iter c' = IterNull \<and>
    cl_out c' = cl_out c @ map packet (tl (copy_stream n (kv_view m)))"
proof -
  have fin: "finite (dom m)" using finite_contents assms(3) by blast
  let ?ks = "sorted_list_of_set {k \<in> dom m. [DT_HASH] < k}" and ?c = "c\<lparr>cl_last_seq := n\<rparr>"
  have sync: "client_sync env L s (Suc (Suc fuel)) c = Some (Some (0, ?c))"
    by (rule first_sync [OF assms(2-4,7-11)])
  have "length ?ks < 1000" using assms(6) by simp
  from client_copy_all [OF assms(1,3,5) _ _ refl this, of ?c] assms(9,11)
  obtain c' where c': "client_copy env L s ?c = Some (1, c')" "cl_status c' = CL_SYNC" "cl_iter c' = IterNull"
    "cl_last_seq c' = n" "cl_is_mirror c' = cl_is_mirror c"
    "cl_out c' = cl_out c @ map packet (map (\<lambda>k. [Binlog_new n BT_COPY BC_KSET k, the (m k)])
        (filter (\<lambda>k. k ! 0 = DT_KV) ?ks) @ [copy_end_msg n])" by auto
  have "map (\<lambda>k. [Binlog_new n BT_COPY BC_KSET k, the (m k)]) (filter (\<lambda>k. k ! 0 = DT_KV) ?ks) @ [copy_end_msg n] =
      tl (copy_stream n (kv_view m))"
    by (simp add: kv_keys [OF fin] copy_stream_def copy_entry_def kv_view_def)
  then show ?thesis using c' sync assms(7,10) by (simp add: sync_round_def)
qed

end

text \<open>The client made of the request of a slave without a position.\<close>

lemma fresh_client:
  assumes "\<And>k. realloc_ok env k"
  shows "client_init env [''sync140'', str_uint64 0, [], ''sync''] (Client_new link) =
    Some (cl_sent [copy_begin_msg] ((Client_new link)\<lparr>cl_status := CL_COPY\<rparr>))"
proof -
  have "sendable copy_begin_msg"
    by (simp add: sendable_def copy_begin_msg_def length_Binlog_new HEADER_LEN_def)
  then show ?thesis
    using cl_send_ok [OF assms, of copy_begin_msg "(Client_new link)\<lparr>cl_status := CL_COPY\<rparr>"]
    by (simp add: client_init_def uint64_parse_str client_reset_def Client_new_def copy_begin_msg_def)
qed

section \<open>The slave\<close>

lemma proc_copy_begin: "slave_proc L copy_begin_msg sl = Some (0, sl\<lparr>sl_status := Some SL_COPY\<rparr>)"
  by (simp add: slave_proc_def copy_begin_msg_def length_Binlog_new proc_copy_def)

context leveldb_reliable
begin

lemma proc_copy_end:
  assumes "slave_inv contents (Suc b) sl"
  shows "\<exists>sl'. slave_proc L (copy_end_msg n) sl = Some (0, sl') \<and> slave_inv contents b sl' \<and>
    sl_ssdb sl' = sl_ssdb sl \<and> sl_last_seq sl' = sl_last_seq sl \<and> sl_last_key sl' = [] \<and>
    sl_status sl' = Some SL_SYNC"
proof -
  let ?sl = "sl\<lparr>sl_status := Some SL_SYNC, sl_last_key := []\<rparr>"
  have inv: "ssdb_inv contents (Suc (Suc (2 * b))) (sl_meta ?sl)"
    "status_wf (contents (ss_ldb (sl_meta ?sl))) (status_key ?sl)" "ssdb_inv contents (Suc b) (sl_ssdb sl)"
    using assms by (simp_all add: slave_inv_def status_key_def)
  from save_status_spec [OF inv(1,2)] obtain meta where
    m: "save_status L ?sl = Some (?sl\<lparr>sl_meta := meta\<rparr>)" "ssdb_inv contents (2 * b) meta"
      "status_wf (contents (ss_ldb meta)) (status_key ?sl)" by blast
  have "slave_proc L (copy_end_msg n) sl = Some (0, ?sl\<lparr>sl_meta := meta\<rparr>)"
    using m(1) by (simp add: slave_proc_def copy_end_msg_def length_Binlog_new proc_copy_def)
  then show ?thesis using m(2,3) ssdb_inv_mono [OF inv(3)] by (auto simp: slave_inv_def status_key_def)
qed

lemma proc_copy_entry:
  assumes "slave_inv contents (Suc b) sl" "k \<noteq> []"
  shows "\<exists>sl'. slave_proc L (copy_entry n v k) sl = Some (0, sl') \<and> slave_inv contents b sl' \<and>
    kv_view (contents (ss_ldb (sl_ssdb sl'))) = (kv_view (contents (ss_ldb (sl_ssdb sl))))(k \<mapsto> the (v k)) \<and>
    sl_last_seq sl' = n"
proof -
  let ?msg = "copy_entry n v k" and ?sl = "sl\<lparr>sl_status := Some SL_COPY, sl_copy_count := sl_copy_count sl + 1\<rparr>"
  have inv: "slave_inv contents (Suc b) ?sl" using assms(1) by (simp add: slave_inv_def status_key_def)
  have len: "?msg \<noteq> []" "HEADER_LEN \<le> length (?msg ! 0)" by (simp_all add: copy_entry_def length_Binlog_new)
  from proc_sync_spec [OF inv len] obtain sl' where
    sl': "proc_sync L (?msg ! 0) ?msg ?sl = Some (0, sl')" "slave_inv contents b sl'"
      "kv_view (contents (ss_ldb (sl_ssdb sl'))) = apply_change ?msg (kv_view (contents (ss_ldb (sl_ssdb ?sl))))"
      "sl_last_seq sl' = read64 (?msg ! 0)" by blast
  have "read64 (?msg ! 0) = n" by (simp add: copy_entry_def Binlog_new_def)
  moreover have "apply_change ?msg u = u(k \<mapsto> the (v k))" for u
    using assms(2) by (simp add: apply_change_def copy_entry_def encode_kv_key_def)
  moreover have "slave_proc L ?msg sl = Some (0, sl')"
    using sl'(1) by (simp add: slave_proc_def copy_entry_def length_Binlog_new proc_copy_def)
  ultimately show ?thesis using sl'(2-4) by auto
qed

lemma proc_copy_entries:
  "[] \<notin> set ks \<Longrightarrow> slave_inv contents (length ks + b) sl \<Longrightarrow>
    \<exists>sl'. slave_procs L (map (copy_entry n v) ks) sl = Some sl' \<and> slave_inv contents b sl' \<and>
    kv_view (contents (ss_ldb (sl_ssdb sl'))) =
      (\<lambda>k. if k \<in> set ks then Some (the (v k)) else kv_view (contents (ss_ldb (sl_ssdb sl))) k) \<and>
    sl_last_seq sl' = (if ks = [] then sl_last_seq sl else n)"
proof (induction ks arbitrary: sl)
  case (Cons k ks)
  have "slave_inv contents (Suc (length ks + b)) sl" "k \<noteq> []" using Cons.prems by auto
  from proc_copy_entry [OF this, of n v] obtain sl1 where
    sl1: "slave_proc L (copy_entry n v k) sl = Some (0, sl1)" "slave_inv contents (length ks + b) sl1"
      "kv_view (contents (ss_ldb (sl_ssdb sl1))) = (kv_view (contents (ss_ldb (sl_ssdb sl))))(k \<mapsto> the (v k))"
      "sl_last_seq sl1 = n" by blast
  show ?case using Cons.IH [OF _ sl1(2)] Cons.prems(1) sl1 by (auto simp: fun_eq_iff)
qed simp

text \<open>The whole copy leaves the slave with the master's map.\<close>

lemma proc_copy_stream:
  assumes "slave_inv contents (card (dom v) + Suc b) sl" "kv_view (contents (ss_ldb (sl_ssdb sl))) = Map.empty"
    "finite (dom v)" "v [] = None"
  shows "\<exists>sl'. slave_procs L (copy_stream n v) sl = Some sl' \<and> slave_inv contents b sl' \<and>
    kv_view (contents (ss_ldb (sl_ssdb sl'))) = v \<and> sl_last_key sl' = [] \<and> sl_status sl' = Some SL_SYNC \<and>
    sl_last_seq sl' = (if dom v = {} then sl_last_seq sl else n)"
proof -
  let ?ks = "sorted_list_of_set (dom v)" and ?sl = "sl\<lparr>sl_status := Some SL_COPY\<rparr>"
  have "slave_inv contents (length ?ks + Suc b) ?sl" "[] \<notin> set ?ks"
    using assms by (auto simp: slave_inv_def status_key_def)
  from proc_copy_entries [OF this(2,1), of n v] obtain sl1 where
    sl1: "slave_procs L (map (copy_entry n v) ?ks) ?sl = Some sl1" "slave_inv contents (Suc b) sl1"
      "kv_view (contents (ss_ldb (sl_ssdb sl1))) =
        (\<lambda>k. if k \<in> set ?ks then Some (the (v k)) else kv_view (contents (ss_ldb (sl_ssdb ?sl))) k)"
      "sl_last_seq sl1 = (if ?ks = [] then sl_last_seq ?sl else n)" by blast
  have "kv_view (contents (ss_ldb (sl_ssdb sl1))) = v"
    using sl1(3) assms(2,3) by (auto simp: fun_eq_iff domIff)
  moreover from proc_copy_end [OF sl1(2), of n] obtain sl2 where
    "slave_proc L (copy_end_msg n) sl1 = Some (0, sl2)" "slave_inv contents b sl2"
      "sl_ssdb sl2 = sl_ssdb sl1" "sl_last_seq sl2 = sl_last_seq sl1" "sl_last_key sl2 = []"
      "sl_status sl2 = Some SL_SYNC" by blast
  ultimately show ?thesis
    using sl1(1,4) assms(3) by (simp add: copy_stream_def proc_copy_begin slave_procs_append)
qed

end

section \<open>Copy and stream together\<close>

lemma no_empty_key: "log_agrees m n \<Longrightarrow> kv_view m [] = None"
proof -
  assume a: "log_agrees m n"
  have "last_op m [] 0 j \<noteq> Some True" if "j \<le> unat n" for j
    using that
  proof (induction j)
    case (Suc j)
    define t where "t = (word_of_nat (Suc j) :: 64 word)"
    have "unat t = Suc j" using Suc.prems unat64_less [of n] by (simp add: t_def unat_of_nat del: of_nat_Suc)
    then have "1 \<le> t" "t \<le> n" using Suc.prems by (simp_all add: word_le_nat_alt)
    then have "record_ok t (log_entry m t)" using a by (simp add: log_agrees_def log_ops_ok_iff)
    then have "kv_op (log_entry m t) \<noteq> Some ([], True)"
      by (auto simp: record_ok_def kv_op_def encode_kv_key_def split: option.splits list.splits if_splits)
    then show ?case
      using Suc by (auto simp: t_def [symmetric] simp del: of_nat_Suc split: option.splits if_splits)
  qed simp
  then have "last_op m [] 0 (unat n) \<noteq> Some True" by blast
  then show ?thesis using a unfolding log_agrees_def by blast
qed

context leveldb_reliable
begin

lemma master_copies:
  assumes "\<And>k. realloc_ok env k" "log_wf (contents (ss_ldb s0)) n" "log_agrees (contents (ss_ldb s0)) n"
    "small_store (contents (ss_ldb s0))" "card {k \<in> dom (contents (ss_ldb s0)). [DT_HASH] < k} < 1000"
    "log_wf (contents (ss_ldb s)) n'" "small_store (contents (ss_ldb s))" "unat n + j \<le> unat n'"
  shows "\<exists>c c1 c2. client_init env [''sync140'', str_uint64 0, [], ''sync''] (Client_new link) = Some c \<and>
    sync_round env L s0 (Suc (Suc fuel)) (c\<lparr>cl_iter := IterNull\<rparr>) = Some (Some (False, c1)) \<and>
    sync_rounds env L s (Suc fuel) j c1 = Some (Some c2) \<and>
    cl_out c1 = lk_out link @ map packet (copy_stream n (kv_view (contents (ss_ldb s0)))) \<and>
    cl_out c2 = cl_out c1 @ map packet (sync_msgs (contents (ss_ldb s)) n j)"
proof -
  define c :: "'b Client" where "c = cl_sent [copy_begin_msg] ((Client_new link)\<lparr>cl_status := CL_COPY\<rparr>)"
  have client: "client_init env [''sync140'', str_uint64 0, [], ''sync''] (Client_new link) = Some c"
    unfolding c_def by (rule fresh_client [OF assms(1)])
  have c: "cl_status c = CL_COPY" "cl_last_seq c = 0" "\<not> cl_is_mirror c" "cl_last_key c = []"
    "cl_out c = lk_out link @ [packet copy_begin_msg]"
    by (simp_all add: c_def cl_sent_def Client_new_def)
  have "log_ops_ok (contents (ss_ldb s0)) n" using assms(3) by (simp add: log_agrees_def)
  from first_round [OF assms(1,2) refl this assms(4,5), of "c\<lparr>cl_iter := IterNull\<rparr>" fuel] c
  obtain c1 where c1: "sync_round env L s0 (Suc (Suc fuel)) (c\<lparr>cl_iter := IterNull\<rparr>) = Some (Some (False, c1))"
    "cl_status c1 = CL_SYNC" "cl_last_seq c1 = n" "\<not> cl_is_mirror c1"
    "cl_out c1 = cl_out c @ map packet (tl (copy_stream n (kv_view (contents (ss_ldb s0)))))" by auto
  then have out: "cl_out c1 = lk_out link @ map packet (copy_stream n (kv_view (contents (ss_ldb s0))))"
    using c(5) by (simp add: copy_stream_def)
  define c2 where "c2 = cl_sent (sync_msgs (contents (ss_ldb s)) n j) (c1\<lparr>cl_last_seq := n + word_of_nat j\<rparr>)"
  have c2: "sync_rounds env L s (Suc fuel) j c1 = Some (Some c2)"
    "cl_out c2 = cl_out c1 @ map packet (sync_msgs (contents (ss_ldb s)) n j)"
    using sync_rounds_follow [OF assms(1,6) refl assms(7), of c1 j fuel] assms(8) c1(2-4) by (simp_all add: c2_def)
  show ?thesis by (intro exI conjI) (rule client c1(1) c2 out)+
qed

lemma slave_copies:
  assumes "slave_inv contents (length (copy_stream n v) + length changes) sl"
    "kv_view (contents (ss_ldb (sl_ssdb sl))) = Map.empty" "finite (dom v)" "v [] = None"
    "\<forall>msg \<in> set changes. sync_message msg" "packets_ok (copy_stream n v @ changes)"
    "buffer_wf (lk_input link)" "b_view (lk_input link) = []"
    "int (length (concat (map packet (copy_stream n v @ changes)))) \<le> b_room env (lk_input link)"
  shows "\<exists>sl1 sl2 link1 link2. slave_reads env f L (map packet (copy_stream n v)) sl link = Some (sl1, link1) \<and>
    kv_view (contents (ss_ldb (sl_ssdb sl1))) = v \<and> sl_last_key sl1 = [] \<and>
    sl_last_seq sl1 = (if dom v = {} then sl_last_seq sl else n) \<and>
    slave_reads env f L (map packet changes) sl1 link1 = Some (sl2, link2) \<and>
    kv_view (contents (ss_ldb (sl_ssdb sl2))) = fold apply_change changes v"
proof -
  have "length (copy_stream n v) = Suc (Suc (card (dom v)))" by (simp add: copy_stream_def)
  then have "slave_inv contents (card (dom v) + Suc (Suc (length changes))) sl" using assms(1) by simp
  from proc_copy_stream [OF this assms(2-4), of n]
  obtain sl1 where sl1: "slave_procs L (copy_stream n v) sl = Some sl1" "slave_inv contents (length changes + 1) sl1"
    "kv_view (contents (ss_ldb (sl_ssdb sl1))) = v" "sl_last_key sl1 = []"
    "sl_last_seq sl1 = (if dom v = {} then sl_last_seq sl else n)" by auto
  from procs_apply [OF assms(5) sl1(2)]
  obtain sl2 where sl2: "slave_procs L changes sl1 = Some sl2"
    "kv_view (contents (ss_ldb (sl_ssdb sl2))) = fold apply_change changes v" using sl1(3) by auto
  have ok: "packets_ok (copy_stream n v)" "packets_ok changes" using assms(6) by (auto simp: packets_ok_def)
  have room: "int (length (concat (map packet (copy_stream n v)))) \<le> b_room env (lk_input link)" using assms(9) by simp
  from reads_run [OF sl1(1) ok(1) assms(7,8) room, of f] obtain link1 where
    r1: "slave_reads env f L (map packet (copy_stream n v)) sl link = Some (sl1, link1)" "buffer_wf (lk_input link1)"
      "b_view (lk_input link1) = []"
      "b_room env (lk_input link1) \<ge> b_room env (lk_input link) - int (length (concat (map packet (copy_stream n v))))"
    by blast
  have "int (length (concat (map packet changes))) \<le> b_room env (lk_input link1)" using r1(4) assms(9) by simp
  from reads_run [OF sl2(1) ok(2) r1(2,3) this, of f] r1(1) sl1(3-5) sl2(2) show ?thesis by blast
qed

end

end
