(* ===== verification/Log_Writer.thy ===== *)
theory Log_Writer
  imports Strings
begin

text \<open>
  The logger of util/log.h and util/log.cpp: levels, the line buffer of \<open>logv\<close>, files and their
  rotation.  The C streams are a small file system: named files with their contents, open append
  handles, and the standard streams.  The clock, the outcome of \<open>fopen\<close>, \<open>fstat\<close> and \<open>rename\<close>, the
  bytes that the stack buffer holds before it is written and the text that \<open>vsnprintf\<close> makes of
  the format are arguments.  \<^term>\<open>None\<close> is an access outside a block or the use of a stream
  that is not open.  Locking the mutex has no effect on the state; that lines are not interleaved
  is that \<open>logv\<close> is one step.
\<close>

section \<open>Streams\<close>

datatype FILE = NULL_fp | Stdin | Stdout | Stderr | Handle nat

record io =
  io_files :: "bytes \<rightharpoonup> bytes"
  io_handles :: "nat \<rightharpoonup> bytes"
  io_next :: nat
  io_stdout :: "bytes option"
  io_stderr :: "bytes option"

definition fopen_append :: "bool \<Rightarrow> bytes \<Rightarrow> io \<Rightarrow> FILE \<times> io" where
  "fopen_append ok name io =
     (if ok then (Handle (io_next io),
        io\<lparr>io_files := (io_files io)(name \<mapsto> (case io_files io name of None \<Rightarrow> [] | Some c \<Rightarrow> c)),
           io_handles := (io_handles io)(io_next io \<mapsto> name), io_next := Suc (io_next io)\<rparr>)
      else (NULL_fp, io))"

fun fclose :: "FILE \<Rightarrow> io \<Rightarrow> io option" where
  "fclose NULL_fp io = None"
| "fclose Stdin io = Some io"
| "fclose Stdout io = (if io_stdout io = None then None else Some (io\<lparr>io_stdout := None\<rparr>))"
| "fclose Stderr io = (if io_stderr io = None then None else Some (io\<lparr>io_stderr := None\<rparr>))"
| "fclose (Handle n) io = (if io_handles io n = None then None
     else Some (io\<lparr>io_handles := (io_handles io)(n := None)\<rparr>))"

fun fwrite :: "FILE \<Rightarrow> bytes \<Rightarrow> io \<Rightarrow> io option" where
  "fwrite NULL_fp bs io = None"
| "fwrite Stdin bs io = Some io"
| "fwrite Stdout bs io = map_option (\<lambda>c. io\<lparr>io_stdout := Some (c @ bs)\<rparr>) (io_stdout io)"
| "fwrite Stderr bs io = map_option (\<lambda>c. io\<lparr>io_stderr := Some (c @ bs)\<rparr>) (io_stderr io)"
| "fwrite (Handle n) bs io = do {
     name \<leftarrow> io_handles io n;
     Some (case io_files io name of
             None \<Rightarrow> io
           | Some c \<Rightarrow> io\<lparr>io_files := (io_files io)(name \<mapsto> c @ bs)\<rparr>) }"

text \<open>\<open>rename\<close> replaces an existing file of the new name.\<close>

definition file_rename :: "bool \<Rightarrow> bytes \<Rightarrow> bytes \<Rightarrow> io \<Rightarrow> int \<times> io" where
  "file_rename ok old new io =
     (case io_files io old of
        None \<Rightarrow> (- 1, io)
      | Some c \<Rightarrow> if ok then (0, io\<lparr>io_files := (io_files io)(old := None, new \<mapsto> c)\<rparr>) else (- 1, io))"

section \<open>Levels\<close>

definition LEVEL_NONE :: int where "LEVEL_NONE = - 1"
definition LEVEL_FATAL :: int where "LEVEL_FATAL = 0"
definition LEVEL_ERROR :: int where "LEVEL_ERROR = 1"
definition LEVEL_WARN :: int where "LEVEL_WARN = 2"
definition LEVEL_INFO :: int where "LEVEL_INFO = 3"
definition LEVEL_DEBUG :: int where "LEVEL_DEBUG = 4"
definition LEVEL_TRACE :: int where "LEVEL_TRACE = 5"

lemmas level_defs = LEVEL_NONE_def LEVEL_FATAL_def LEVEL_ERROR_def LEVEL_WARN_def LEVEL_INFO_def
  LEVEL_DEBUG_def LEVEL_TRACE_def

record Logger =
  lg_fp :: FILE
  lg_filename :: bytes
  lg_level :: int
  lg_mutex :: bool
  lg_rotate_size :: "64 word"
  lg_w_curr :: "64 word"
  lg_w_total :: "64 word"


definition set_level :: "int \<Rightarrow> Logger \<Rightarrow> Logger" where
  "set_level level lg = lg\<lparr>lg_level := level\<rparr>"

definition set_log_level :: "bytes \<Rightarrow> Logger \<Rightarrow> Logger" where
  "set_log_level s lg =
     (let ss = map tolower s in
      set_level
       (if ss = ''fatal'' then LEVEL_FATAL
        else if ss = ''error'' then LEVEL_ERROR
        else if ss = ''warn'' then LEVEL_WARN
        else if ss = ''info'' then LEVEL_INFO
        else if ss = ''debug'' then LEVEL_DEBUG
        else if ss = ''trace'' then LEVEL_TRACE
        else LEVEL_DEBUG) lg)"

definition level_name :: "Logger \<Rightarrow> bytes" where
  "level_name lg =
     (if lg_level lg = LEVEL_FATAL then ''fatal''
      else if lg_level lg = LEVEL_ERROR then ''error''
      else if lg_level lg = LEVEL_WARN then ''warn''
      else if lg_level lg = LEVEL_INFO then ''info''
      else if lg_level lg = LEVEL_DEBUG then ''debug''
      else if lg_level lg = LEVEL_TRACE then ''trace''
      else [])"

definition get_level :: "bytes \<Rightarrow> int" where
  "get_level levelname =
     (if levelname = ''trace'' then LEVEL_TRACE
      else if levelname = ''debug'' then LEVEL_DEBUG
      else if levelname = ''info'' then LEVEL_INFO
      else if levelname = ''warn'' then LEVEL_WARN
      else if levelname = ''error'' then LEVEL_ERROR
      else if levelname = ''fatal'' then LEVEL_FATAL
      else if levelname = ''none'' then LEVEL_NONE
      else LEVEL_DEBUG)"

text \<open>The tag of a line; the bytes of the literal, without the terminator.\<close>

definition get_level_name :: "int \<Rightarrow> bytes" where
  "get_level_name level =
     (if level = LEVEL_FATAL then ''[FATAL] ''
      else if level = LEVEL_ERROR then ''[ERROR] ''
      else if level = LEVEL_WARN then ''[WARN ] ''
      else if level = LEVEL_INFO then ''[INFO ] ''
      else if level = LEVEL_DEBUG then ''[DEBUG] ''
      else if level = LEVEL_TRACE then ''[TRACE] ''
      else [])"

section \<open>Opening and closing\<close>

definition PATH_MAX :: nat where "PATH_MAX = 4096"

definition threadsafe :: "Logger \<Rightarrow> Logger" where
  "threadsafe lg = lg\<lparr>lg_mutex := True\<rparr>"

definition Logger_open_fp :: "FILE \<Rightarrow> int \<Rightarrow> bool \<Rightarrow> Logger \<Rightarrow> int \<times> Logger" where
  "Logger_open_fp fp level is_threadsafe lg =
     (let lg = lg\<lparr>lg_fp := fp, lg_level := level\<rparr> in
      (0, if is_threadsafe then threadsafe lg else lg))"

definition Logger_open :: "bool \<Rightarrow> bool \<Rightarrow> bytes \<Rightarrow> int \<Rightarrow> bool \<Rightarrow> 64 word \<Rightarrow> Logger \<Rightarrow> io \<Rightarrow> int \<times> Logger \<times> io" where
  "Logger_open fopen_ok fstat_ok filename level is_threadsafe rotate_size lg io =
     (if length filename > PATH_MAX - 20 then (- 1, lg, io)
      else
        let lg = lg\<lparr>lg_level := level, lg_rotate_size := rotate_size, lg_filename := filename\<rparr> in
        if filename = ''stdout'' then (let (ret, lg) = Logger_open_fp Stdout level is_threadsafe lg in (ret, lg, io))
        else if filename = ''stderr'' then (let (ret, lg) = Logger_open_fp Stderr level is_threadsafe lg in (ret, lg, io))
        else
          let (fp, io) = fopen_append fopen_ok filename io in
          if fp = NULL_fp then (- 1, lg, io)
          else if \<not> fstat_ok then (- 1, lg, io)
          else
            let lg = lg\<lparr>lg_w_curr := word_of_nat (length (the (io_files io filename)))\<rparr>;
                (ret, lg) = Logger_open_fp fp level is_threadsafe lg
            in (ret, lg, io))"

definition Logger_close :: "Logger \<Rightarrow> io \<Rightarrow> io option" where
  "Logger_close lg io = (if lg_fp lg \<noteq> Stdin \<and> lg_fp lg \<noteq> Stdout then fclose (lg_fp lg) io else Some io)"

section \<open>Writing a line\<close>

text \<open>The broken-down time of \<open>localtime_r\<close> and the microseconds of \<open>gettimeofday\<close>.\<close>

record tm =
  tm_year :: int
  tm_mon :: int
  tm_mday :: int
  tm_hour :: int
  tm_min :: int
  tm_sec :: int
  tm_usec :: int

text \<open>\<open>%0wd\<close> of printf.\<close>

definition pad_dec :: "nat \<Rightarrow> int \<Rightarrow> bytes" where
  "pad_dec w n = (let s = dec_nat (nat \<bar>n\<bar>) in
     if n < 0 then CHR ''-'' # replicate (w - 1 - length s) CHR ''0'' @ s
     else replicate (w - length s) CHR ''0'' @ s)"

definition time_prefix :: "tm \<Rightarrow> bytes" where
  "time_prefix t = pad_dec 4 (tm_year t + 1900) @ ''-'' @ pad_dec 2 (tm_mon t + 1) @ ''-'' @ pad_dec 2 (tm_mday t)
     @ '' '' @ pad_dec 2 (tm_hour t) @ '':'' @ pad_dec 2 (tm_min t) @ '':'' @ pad_dec 2 (tm_sec t)
     @ ''.'' @ pad_dec 3 (tm_usec t div 1000) @ '' ''"

definition rotated_name :: "bytes \<Rightarrow> tm \<Rightarrow> bytes" where
  "rotated_name filename t = filename @ ''.'' @ pad_dec 4 (tm_year t + 1900) @ pad_dec 2 (tm_mon t + 1)
     @ pad_dec 2 (tm_mday t) @ ''-'' @ pad_dec 2 (tm_hour t) @ pad_dec 2 (tm_min t) @ pad_dec 2 (tm_sec t)"

record log_env =
  le_now :: tm
  le_garbage :: bytes
  le_rotate_now :: tm
  le_rename_ok :: bool
  le_fopen_ok :: bool

definition Logger_rotate :: "log_env \<Rightarrow> Logger \<Rightarrow> io \<Rightarrow> (Logger \<times> io) option" where
  "Logger_rotate env lg io = do {
     io \<leftarrow> fclose (lg_fp lg) io;
     let newpath = rotated_name (lg_filename lg) (le_rotate_now env);
     if length newpath + 1 > PATH_MAX then None
     else
       let (ret, io) = file_rename (le_rename_ok env) (lg_filename lg) newpath io in
       if ret = - 1 then Some (lg, io)
       else
         let (fp, io) = fopen_append (le_fopen_ok env) (lg_filename lg) io in
         if fp = NULL_fp then Some (lg\<lparr>lg_fp := fp\<rparr>, io)
         else Some (lg\<lparr>lg_fp := fp, lg_w_curr := 0\<rparr>, io) }"

definition LEVEL_NAME_LEN :: nat where "LEVEL_NAME_LEN = 8"
definition LOG_BUF_LEN :: nat where "LOG_BUF_LEN = 4096"

text \<open>A write of bytes into the buffer, and \<open>vsnprintf\<close>: the text cut to the space, with its terminator.\<close>

definition buf_write :: "nat \<Rightarrow> bytes \<Rightarrow> bytes \<Rightarrow> bytes option" where
  "buf_write off bs buf =
     (if off + length bs \<le> length buf then Some (take off buf @ bs @ drop (off + length bs) buf) else None)"

definition c_vsnprintf :: "nat \<Rightarrow> int \<Rightarrow> bytes \<Rightarrow> bytes \<Rightarrow> bytes option" where
  "c_vsnprintf off space text buf =
     (if space < 0 then None else if space = 0 then Some buf
      else buf_write off (take (nat space - 1) text @ [NUL]) buf)"

definition logv :: "log_env \<Rightarrow> int \<Rightarrow> int \<Rightarrow> bytes option \<Rightarrow> Logger \<Rightarrow> io \<Rightarrow> (int \<times> Logger \<times> io) option" where
  "logv env global_level level text lg io =
     (if global_level < level then Some (0, lg, io)
      else do {
        let prefix = time_prefix (le_now env);
        buf \<leftarrow> buf_write 0 (prefix @ [NUL]) (le_garbage env);
        let ptr = length prefix;
        let name = get_level_name level;
        if length name < LEVEL_NAME_LEN then None
        else do {
          buf \<leftarrow> buf_write ptr (take LEVEL_NAME_LEN name) buf;
          let ptr = ptr + LEVEL_NAME_LEN;
          let space = int LOG_BUF_LEN - int ptr - 10;
          (case text of
             None \<Rightarrow> Some (- 1, lg, io)
           | Some text \<Rightarrow> do {
               buf \<leftarrow> c_vsnprintf ptr space text buf;
               let len = int (length text);
               let ptr = ptr + nat (if len > space then space else len);
               buf \<leftarrow> buf_write ptr [LF, NUL] buf;
               let len = ptr + 1;
               io \<leftarrow> fwrite (lg_fp lg) (take len buf) io;
               let lg = lg\<lparr>lg_w_curr := lg_w_curr lg + word_of_nat len, lg_w_total := lg_w_total lg + word_of_nat len\<rparr>;
               (lg, io) \<leftarrow> (if lg_rotate_size lg > 0 \<and> lg_w_curr lg > lg_rotate_size lg
                            then Logger_rotate env lg io else Some (lg, io));
               Some (int len, lg, io) }) } })"


section \<open>The line\<close>

text \<open>What \<open>localtime_r\<close> and \<open>gettimeofday\<close> return before the year 10000.\<close>

definition time_ok :: "tm \<Rightarrow> bool" where
  "time_ok t \<longleftrightarrow> 0 \<le> tm_year t + 1900 \<and> tm_year t < 8100 \<and> 0 \<le> tm_mon t \<and> tm_mon t < 12 \<and>
     1 \<le> tm_mday t \<and> tm_mday t \<le> 31 \<and> 0 \<le> tm_hour t \<and> tm_hour t < 24 \<and> 0 \<le> tm_min t \<and> tm_min t < 60 \<and>
     0 \<le> tm_sec t \<and> tm_sec t \<le> 60 \<and> 0 \<le> tm_usec t \<and> tm_usec t < 1000000"

lemma length_pad_dec: "0 \<le> n \<Longrightarrow> n < 10 ^ w \<Longrightarrow> 0 < w \<Longrightarrow> length (pad_dec w n) = w"
  using length_dec_nat [of "nat n" w] by (simp add: pad_dec_def Let_def nat_less_iff)


lemma length_rotated_name: "time_ok t \<Longrightarrow> length (rotated_name f t) = length f + 16"
  by (simp add: rotated_name_def time_ok_def length_pad_dec)

definition log_line :: "tm \<Rightarrow> int \<Rightarrow> bytes \<Rightarrow> bytes" where
  "log_line now level text = time_prefix now @ get_level_name level
     @ (if length text < 4054 then text else take 4053 text @ [NUL]) @ [LF]"







section \<open>Files that the logger has open\<close>

text \<open>
  The log so far: the rotated files in their order, then the file being written, which the
  logger has open.
\<close>

definition log_open_file :: "Logger \<Rightarrow> io \<Rightarrow> bool" where
  "log_open_file lg io \<longleftrightarrow> (\<exists>n. lg_fp lg = Handle n \<and> io_handles io n = Some (lg_filename lg) \<and> n < io_next io) \<and>
     io_files io (lg_filename lg) \<noteq> None \<and> length (lg_filename lg) \<le> PATH_MAX - 20"



lemma rotated_name_other: "rotated_name f t \<noteq> f"
  by (simp add: rotated_name_def)

lemma rotate_file:
  assumes "log_open_file lg io" "time_ok (le_rotate_now env)" "le_rename_ok env" "le_fopen_ok env"
    "new = rotated_name (lg_filename lg) (le_rotate_now env)"
  shows "\<exists>lg' io'. Logger_rotate env lg io = Some (lg', io') \<and> log_open_file lg' io' \<and> lg_filename lg' = lg_filename lg \<and>
    lg_w_curr lg' = 0 \<and> lg_w_total lg' = lg_w_total lg \<and> lg_rotate_size lg' = lg_rotate_size lg \<and> lg_level lg' = lg_level lg \<and>
    io_files io' = (io_files io)(new := io_files io (lg_filename lg), lg_filename lg := Some [])"
proof -
  obtain n c where n: "lg_fp lg = Handle n" "io_handles io n = Some (lg_filename lg)" "n < io_next io"
    "io_files io (lg_filename lg) = Some c" "length (lg_filename lg) \<le> PATH_MAX - 20"
    using assms(1) by (auto simp: log_open_file_def)
  have len: "\<not> length new + 1 > PATH_MAX"
    using length_rotated_name [OF assms(2)] n(5) by (simp add: assms(5) PATH_MAX_def)
  have other: "lg_filename lg \<noteq> new" using rotated_name_other assms(5) by metis
  show ?thesis
    using n len other assms(3,4)
    by (auto simp: Logger_rotate_def file_rename_def fopen_append_def log_open_file_def Let_def assms(5) [symmetric]
        fun_upd_twist)
qed

lemma fwrite_open_file:
  assumes "log_open_file lg io"
  shows "\<exists>io'. fwrite (lg_fp lg) bs io = Some io' \<and> log_open_file lg io' \<and>
    io_files io' = (io_files io)(lg_filename lg \<mapsto> the (io_files io (lg_filename lg)) @ bs)"
  using assms by (auto simp: log_open_file_def)



















text \<open>
  Where the logger loses lines or uses a closed stream.  Two rotations within one second give
  the rotated file the same name, so that the second replaces the first; when \<open>rename\<close> fails the
  logger keeps the closed stream, and when \<open>fopen\<close> fails a null one, so that the next line is a
  use of a stream that is not open; a message of 4054 bytes or more leaves the terminator of the
  cut text inside the line; and a message of a level that has no name makes \<open>logv\<close> read past the
  end of the empty string.
\<close>

theorem log_rotation_failures:
  assumes "log_open_file lg io" "time_ok (le_rotate_now env)" "new = rotated_name (lg_filename lg) (le_rotate_now env)"
  shows "(le_rename_ok env \<and> le_fopen_ok env \<longrightarrow>
      (\<exists>lg1 io1 io2 lg3 io3. Logger_rotate env lg io = Some (lg1, io1) \<and> fwrite (lg_fp lg1) bs io1 = Some io2 \<and>
         Logger_rotate env lg1 io2 = Some (lg3, io3) \<and>
         io_files io3 = (io_files io)(new \<mapsto> bs, lg_filename lg \<mapsto> []))) \<and>
    (\<not> le_rename_ok env \<or> \<not> le_fopen_ok env \<longrightarrow>
      (\<exists>lg1 io1. Logger_rotate env lg io = Some (lg1, io1) \<and> fwrite (lg_fp lg1) bs io1 = None)) \<and>
    (4054 \<le> length msg \<longrightarrow> (\<exists>pre. log_line now level msg = pre @ [NUL, LF])) \<and>
    ((level < 0 \<or> 5 < level) \<and> level \<le> gl \<longrightarrow> logv env gl level m lg io = None)"
proof (intro conjI impI)
  assume ok: "le_rename_ok env \<and> le_fopen_ok env"
  then obtain lg1 io1 where r: "Logger_rotate env lg io = Some (lg1, io1)" "log_open_file lg1 io1"
    "lg_filename lg1 = lg_filename lg"
    "io_files io1 = (io_files io)(new := io_files io (lg_filename lg), lg_filename lg := Some [])"
    using rotate_file [OF assms(1,2) _ _ assms(3)] by blast
  from fwrite_open_file [OF r(2), of bs] r(3,4) obtain io2 where w: "fwrite (lg_fp lg1) bs io1 = Some io2"
    "log_open_file lg1 io2" "io_files io2 = (io_files io1)(lg_filename lg \<mapsto> bs)" by auto
  have "new = rotated_name (lg_filename lg1) (le_rotate_now env)" using assms(3) r(3) by simp
  from rotate_file [OF w(2) assms(2) _ _ this] ok obtain lg3 io3 where r3: "Logger_rotate env lg1 io2 = Some (lg3, io3)"
    "io_files io3 = (io_files io2)(new := io_files io2 (lg_filename lg1), lg_filename lg1 := Some [])" by blast
  have "new \<noteq> lg_filename lg" using rotated_name_other assms(3) by simp
  then have "io_files io3 = (io_files io)(new \<mapsto> bs, lg_filename lg \<mapsto> [])"
    using r3(2) w(3) r(3,4) by (auto simp: fun_eq_iff)
  then show "\<exists>lg1 io1 io2 lg3 io3. Logger_rotate env lg io = Some (lg1, io1) \<and> fwrite (lg_fp lg1) bs io1 = Some io2 \<and>
      Logger_rotate env lg1 io2 = Some (lg3, io3) \<and> io_files io3 = (io_files io)(new \<mapsto> bs, lg_filename lg \<mapsto> [])"
    using r(1) w(1) r3(1) by blast
next
  assume bad: "\<not> le_rename_ok env \<or> \<not> le_fopen_ok env"
  have "length new + 1 \<le> PATH_MAX"
    using length_rotated_name [OF assms(2)] assms(1,3) by (simp add: log_open_file_def PATH_MAX_def)
  then show "\<exists>lg1 io1. Logger_rotate env lg io = Some (lg1, io1) \<and> fwrite (lg_fp lg1) bs io1 = None"
    using assms(1) bad
    by (auto simp: log_open_file_def Logger_rotate_def file_rename_def fopen_append_def Let_def assms(3) [symmetric])
next
  assume "4054 \<le> length msg"
  then show "\<exists>pre. log_line now level msg = pre @ [NUL, LF]" by (auto simp: log_line_def)
next
  assume "(level < 0 \<or> 5 < level) \<and> level \<le> gl"
  then show "logv env gl level m lg io = None"
    by (auto simp: logv_def get_level_name_def level_defs LEVEL_NAME_LEN_def split: bind_splits)
qed

text \<open>
  The names of the levels.  \<open>get_level\<close> and \<open>set_log_level\<close> invert \<open>level_name\<close>; they disagree on
  \<open>none\<close>, which turns logging off for the one and is the debug level for the other.
\<close>

lemma level_names:
  "0 \<le> lg_level lg \<Longrightarrow> lg_level lg \<le> 5 \<Longrightarrow> get_level (level_name lg) = lg_level lg"
  "0 \<le> lg_level lg \<Longrightarrow> lg_level lg \<le> 5 \<Longrightarrow> set_log_level (level_name lg) lg2 = lg2\<lparr>lg_level := lg_level lg\<rparr>"
  "get_level ''none'' = LEVEL_NONE" "lg_level (set_log_level ''none'' lg) = LEVEL_DEBUG"
  by (auto simp: get_level_def level_name_def level_defs set_log_level_def set_level_def tolower_def Let_def)

text \<open>
  An \<open>open\<close> that fails keeps the old stream but not the old settings; one that succeeds does not
  close the stream it replaces.
\<close>

lemma open_failure:
  assumes "length f \<le> PATH_MAX - 20" "f \<noteq> ''stdout''" "f \<noteq> ''stderr''"
  shows "Logger_open False fs f level safe sz lg io =
      (- 1, lg\<lparr>lg_level := level, lg_rotate_size := sz, lg_filename := f\<rparr>, io)"
    "\<exists>lg' io'. Logger_open True True f level safe sz lg io = (0, lg', io') \<and>
       (io_next io \<notin> dom (io_handles io) \<longrightarrow> io_handles io \<subseteq>\<^sub>m io_handles io')"
  using assms by (auto simp: Logger_open_def fopen_append_def Logger_open_fp_def Let_def map_le_def)

end
