(* ===== verification/Thread_Queue.thy ===== *)
theory Thread_Queue
  imports Prelude "HOL-Library.Multiset"
begin

text \<open>
  The thread primitives of util/thread.h: the blocking \<open>Queue\<close>, the \<open>SelectableQueue\<close> whose
  length is mirrored by the bytes in a pipe, and the \<open>WorkerPool\<close> that joins them.

  The pool is a state machine over the threads of the process.  A thread runs alone between
  two of its synchronisation points: locking or unlocking a mutex, waiting on the condition,
  reading from or writing to the pipe.  The program counters below name the points where a
  thread of the code can be between two such steps, and one step function per thread
  (\<open>producer_step\<close> for \<open>push\<close>, \<open>worker_step\<close> for \<open>_run_worker\<close>, \<open>reader_step\<close> for \<open>pop\<close>) follows
  the code from one point to the next; the outcome argument is the result of the system call
  there.  The relation \<open>pool_step\<close> interleaves the steps of all threads, the choice of the
  waiter a signal wakes and spurious wake-ups.
\<close>

section \<open>The queues, one call at a time\<close>

datatype outcome = Ok | Fail | Intr

text \<open>\<open>std::queue\<close>: the head of the list is the front.\<close>

definition Queue_empty :: "outcome \<Rightarrow> 'a list \<Rightarrow> bool" where
  "Queue_empty lock items = (if lock \<noteq> Ok then True else items = [])"

definition Queue_size :: "outcome \<Rightarrow> 'a list \<Rightarrow> int" where
  "Queue_size lock items = (if lock \<noteq> Ok then - 1 else i32 (int (length items)))"

definition Queue_push :: "outcome \<Rightarrow> 'a \<Rightarrow> 'a list \<Rightarrow> int \<times> 'a list" where
  "Queue_push lock item items = (if lock \<noteq> Ok then (- 1, items) else (1, items @ [item]))"

definition SelectableQueue_size :: "'a list \<Rightarrow> int" where
  "SelectableQueue_size items = i32 (int (length items))"

section \<open>Threads of a pool\<close>

datatype thread = Producer nat | Worker nat | Reader

text \<open>\<open>Queue::push\<close>: before the lock, before the unlock, before the signal.\<close>

datatype 'j ppc = P_idle | P_lock 'j | P_unlock | P_signal

text \<open>
  \<open>_run_worker\<close>: in \<open>jobs.pop\<close> before the lock, at the test of the loop, asleep in the wait,
  woken and about to lock again, with the job before the unlock; before \<open>proc\<close>; in
  \<open>results.push\<close> before the lock, before the write, before the unlock.
\<close>

datatype 'j wpc = W_lock | W_check | W_wait | W_woken | W_popped 'j | W_proc 'j
  | W_push 'j | W_write | W_unlock | W_dead

text \<open>
  \<open>SelectableQueue::pop\<close>: in the read, before the lock, before the unlock.  A read that
  fails and a read that meets the end of the pipe both make \<open>pop\<close> return -1.
\<close>

datatype 'j rpc = R_idle | R_read | R_lock | R_unlock "'j option"

record 'j pool =
  p_jobs :: "'j list"
  p_jobs_mutex :: "thread option"
  p_results :: "'j list"
  p_results_mutex :: "thread option"
  p_pipe :: nat
  p_producers :: "'j ppc list"
  p_workers :: "'j wpc list"
  p_reader :: "'j rpc"
  p_exited :: bool

text \<open>
  What a step shows to the outside: a job accepted by \<open>push\<close> or refused, a job taken by a
  worker, a job put into the results, a result returned by \<open>pop\<close>, a \<open>pop\<close> that returned -1, and
  one that did so after it had consumed a byte of the pipe.
\<close>

datatype 'j event = Tau | Push 'j | Push_failed 'j | Take nat 'j | Store nat 'j | Popped 'j
  | Pop_failed | Byte_lost | Exit

definition set_producer :: "nat \<Rightarrow> 'j ppc \<Rightarrow> 'j pool \<Rightarrow> 'j pool" where
  "set_producer i pc s = s\<lparr>p_producers := (p_producers s)[i := pc]\<rparr>"

definition set_worker :: "nat \<Rightarrow> 'j wpc \<Rightarrow> 'j pool \<Rightarrow> 'j pool" where
  "set_worker w pc s = s\<lparr>p_workers := (p_workers s)[w := pc]\<rparr>"

fun producer_step :: "outcome \<Rightarrow> nat option \<Rightarrow> nat \<Rightarrow> 'j ppc \<Rightarrow> 'j pool \<Rightarrow> ('j event \<times> 'j pool) option" where
  "producer_step out sig i (P_lock item) s =
     (if out \<noteq> Ok then Some (Push_failed item, set_producer i P_idle s)
      else if p_jobs_mutex s \<noteq> None then None
      else Some (Push item, set_producer i P_unlock
             (s\<lparr>p_jobs_mutex := Some (Producer i), p_jobs := snd (Queue_push Ok item (p_jobs s))\<rparr>)))"
| "producer_step out sig i P_unlock s = Some (Tau, set_producer i P_signal (s\<lparr>p_jobs_mutex := None\<rparr>))"
| "producer_step out sig i P_signal s =
     (case sig of
        None \<Rightarrow> if W_wait \<in> set (p_workers s) then None else Some (Tau, set_producer i P_idle s)
      | Some w \<Rightarrow>
          if w < length (p_workers s) \<and> p_workers s ! w = W_wait
          then Some (Tau, set_producer i P_idle (set_worker w W_woken s)) else None)"
| "producer_step out sig i P_idle s = None"

definition exit0 :: "'j pool \<Rightarrow> ('j event \<times> 'j pool) option" where
  "exit0 s = Some (Exit, s\<lparr>p_exited := True\<rparr>)"

fun worker_step :: "nat \<Rightarrow> outcome \<Rightarrow> nat \<Rightarrow> 'j wpc \<Rightarrow> 'j pool \<Rightarrow> ('j event \<times> 'j pool) option" where
  "worker_step cap out w W_lock s =
     (if out \<noteq> Ok then exit0 s
      else if p_jobs_mutex s \<noteq> None then None
      else Some (Tau, set_worker w W_check (s\<lparr>p_jobs_mutex := Some (Worker w)\<rparr>)))"
| "worker_step cap out w W_check s =
     (case p_jobs s of
        [] \<Rightarrow> if out \<noteq> Ok then exit0 s
              else Some (Tau, set_worker w W_wait (s\<lparr>p_jobs_mutex := None\<rparr>))
      | job # items \<Rightarrow> Some (Take w job, set_worker w (W_popped job) (s\<lparr>p_jobs := items\<rparr>)))"
| "worker_step cap out w W_wait s = None"
| "worker_step cap out w W_woken s =
     (if p_jobs_mutex s \<noteq> None then None
      else Some (Tau, set_worker w W_check (s\<lparr>p_jobs_mutex := Some (Worker w)\<rparr>)))"
| "worker_step cap out w (W_popped job) s =
     (if out \<noteq> Ok then exit0 s
      else Some (Tau, set_worker w (W_proc job) (s\<lparr>p_jobs_mutex := None\<rparr>)))"
| "worker_step cap out w (W_proc job) s = Some (Tau, set_worker w (W_push job) s)"
| "worker_step cap out w (W_push job) s =
     (if out \<noteq> Ok then exit0 s
      else if p_results_mutex s \<noteq> None then None
      else Some (Store w job, set_worker w W_write
             (s\<lparr>p_results_mutex := Some (Worker w), p_results := p_results s @ [job]\<rparr>)))"
| "worker_step cap out w W_write s =
     (if out \<noteq> Ok then exit0 s
      else if p_pipe s < cap then Some (Tau, set_worker w W_unlock (s\<lparr>p_pipe := Suc (p_pipe s)\<rparr>))
      else None)"
| "worker_step cap out w W_unlock s = Some (Tau, set_worker w W_lock (s\<lparr>p_results_mutex := None\<rparr>))"
| "worker_step cap out w W_dead s = None"

fun reader_step :: "outcome \<Rightarrow> 'j rpc \<Rightarrow> 'j pool \<Rightarrow> ('j event \<times> 'j pool) option" where
  "reader_step out R_read s =
     (case out of
        Intr \<Rightarrow> Some (Tau, s)
      | Fail \<Rightarrow> Some (Pop_failed, s\<lparr>p_reader := R_idle\<rparr>)
      | Ok \<Rightarrow> if p_pipe s = 0 then None
             else Some (Tau, s\<lparr>p_pipe := p_pipe s - 1, p_reader := R_lock\<rparr>))"
| "reader_step out R_lock s =
     (if out \<noteq> Ok then Some (Byte_lost, s\<lparr>p_reader := R_idle\<rparr>)
      else if p_results_mutex s \<noteq> None then None
      else case p_results s of
        [] \<Rightarrow> Some (Tau, s\<lparr>p_results_mutex := Some Reader, p_reader := R_unlock None\<rparr>)
      | item # items \<Rightarrow>
          Some (Popped item, s\<lparr>p_results_mutex := Some Reader, p_results := items, p_reader := R_unlock (Some item)\<rparr>))"
| "reader_step out (R_unlock r) s =
     Some (if r = None then Pop_failed else Tau, s\<lparr>p_results_mutex := None, p_reader := R_idle\<rparr>)"
| "reader_step out R_idle s = None"


text \<open>
  The threads under way when every system call succeeds, and the whole pool with its callers
  and its failures: calls of \<open>push\<close> and \<open>pop\<close> arrive, calls fail, waiters wake up spuriously.
\<close>

inductive run_step :: "nat \<Rightarrow> 'j pool \<Rightarrow> 'j event \<Rightarrow> 'j pool \<Rightarrow> bool" for cap where
  producer: "\<not> p_exited s \<Longrightarrow> i < length (p_producers s) \<Longrightarrow>
     producer_step Ok sig i (p_producers s ! i) s = Some (e, s') \<Longrightarrow> run_step cap s e s'"
| worker: "\<not> p_exited s \<Longrightarrow> w < length (p_workers s) \<Longrightarrow>
     worker_step cap Ok w (p_workers s ! w) s = Some (e, s') \<Longrightarrow> run_step cap s e s'"
| reader: "\<not> p_exited s \<Longrightarrow> reader_step Ok (p_reader s) s = Some (e, s') \<Longrightarrow> run_step cap s e s'"
| call_pop: "\<not> p_exited s \<Longrightarrow> p_reader s = R_idle \<Longrightarrow> run_step cap s Tau (s\<lparr>p_reader := R_read\<rparr>)"

inductive pool_step :: "nat \<Rightarrow> 'j pool \<Rightarrow> 'j event \<Rightarrow> 'j pool \<Rightarrow> bool" for cap where
  run: "run_step cap s e s' \<Longrightarrow> pool_step cap s e s'"
| call_push: "\<not> p_exited s \<Longrightarrow> i < length (p_producers s) \<Longrightarrow> p_producers s ! i = P_idle \<Longrightarrow>
     pool_step cap s Tau (set_producer i (P_lock item) s)"
| spurious: "\<not> p_exited s \<Longrightarrow> w < length (p_workers s) \<Longrightarrow> p_workers s ! w = W_wait \<Longrightarrow>
     pool_step cap s Tau (set_worker w W_woken s)"
| producer_fails: "\<not> p_exited s \<Longrightarrow> i < length (p_producers s) \<Longrightarrow> out \<noteq> Ok \<Longrightarrow>
     producer_step out sig i (p_producers s ! i) s = Some (e, s') \<Longrightarrow> pool_step cap s e s'"
| worker_fails: "\<not> p_exited s \<Longrightarrow> w < length (p_workers s) \<Longrightarrow> out \<noteq> Ok \<Longrightarrow>
     worker_step cap out w (p_workers s ! w) s = Some (e, s') \<Longrightarrow> pool_step cap s e s'"
| reader_fails: "\<not> p_exited s \<Longrightarrow> out \<noteq> Ok \<Longrightarrow>
     reader_step out (p_reader s) s = Some (e, s') \<Longrightarrow> pool_step cap s e s'"

inductive trace :: "('s \<Rightarrow> 'e \<Rightarrow> 's \<Rightarrow> bool) \<Rightarrow> 's \<Rightarrow> 'e list \<Rightarrow> 's \<Rightarrow> bool" for step where
  trace_Nil: "trace step s [] s"
| trace_snoc: "trace step s es s' \<Longrightarrow> step s' e s'' \<Longrightarrow> trace step s (es @ [e]) s''"

definition pool_init :: "nat \<Rightarrow> nat \<Rightarrow> 'j pool" where
  "pool_init producers workers = \<lparr>p_jobs = [], p_jobs_mutex = None, p_results = [], p_results_mutex = None,
     p_pipe = 0, p_producers = replicate producers P_idle, p_workers = replicate workers W_lock,
     p_reader = R_idle, p_exited = False\<rparr>"

section \<open>First in, first out\<close>

text \<open>
  The contract of a channel inside a state machine: what is in it, and what every step puts
  in at the back and takes out at the front.  Over a whole run nothing is lost, made up or
  reordered.
\<close>

locale fifo_channel =
  fixes step :: "'s \<Rightarrow> 'e \<Rightarrow> 's \<Rightarrow> bool" and contents :: "'s \<Rightarrow> 'a list"
    and ins outs :: "'e \<Rightarrow> 'a list"
  assumes step_fifo: "step s e s' \<Longrightarrow> contents s @ ins e = outs e @ contents s'"
begin

lemma trace_fifo:
  "trace step s es s' \<Longrightarrow> contents s @ concat (map ins es) = concat (map outs es) @ contents s'"
proof (induction rule: trace.induct)
  case (trace_snoc s es s' e s'')
  then show ?case using step_fifo [of s' e s''] by (metis append.assoc concat.simps concat_append
        list.simps(8,9) map_append append_Nil2)
qed simp

end

fun pushed :: "'j event \<Rightarrow> 'j list" where
  "pushed (Push x) = [x]" | "pushed _ = []"
fun taken :: "'j event \<Rightarrow> 'j list" where
  "taken (Take w x) = [x]" | "taken _ = []"
fun taken_by :: "nat \<Rightarrow> 'j event \<Rightarrow> 'j list" where
  "taken_by v (Take w x) = (if w = v then [x] else [])" | "taken_by v _ = []"
fun stored :: "'j event \<Rightarrow> 'j list" where
  "stored (Store w x) = [x]" | "stored _ = []"
fun stored_by :: "nat \<Rightarrow> 'j event \<Rightarrow> 'j list" where
  "stored_by v (Store w x) = (if w = v then [x] else [])" | "stored_by v _ = []"
fun popped :: "'j event \<Rightarrow> 'j list" where
  "popped (Popped x) = [x]" | "popped _ = []"
fun bytes_lost :: "'j event \<Rightarrow> nat" where
  "bytes_lost Byte_lost = 1" | "bytes_lost _ = 0"

text \<open>The job that a worker has in its hands.\<close>

fun wpc_job :: "'j wpc \<Rightarrow> 'j list" where
  "wpc_job (W_popped x) = [x]"
| "wpc_job (W_proc x) = [x]"
| "wpc_job (W_push x) = [x]"
| "wpc_job _ = []"

definition held :: "nat \<Rightarrow> 'j pool \<Rightarrow> 'j list" where
  "held w s = (if w < length (p_workers s) then wpc_job (p_workers s ! w) else [])"

lemmas pool_defs = set_producer_def set_worker_def exit0_def Queue_push_def

text \<open>A step of the pool, by the program counter of the thread that makes it.\<close>

lemma producer_stepE:
  assumes "producer_step out sig i pc s = Some (e, s')"
  obtains (refused) item where "pc = P_lock item" "out \<noteq> Ok" "e = Push_failed item" "s' = set_producer i P_idle s"
  | (push) item where "pc = P_lock item" "out = Ok" "p_jobs_mutex s = None" "e = Push item"
      "s' = set_producer i P_unlock (s\<lparr>p_jobs_mutex := Some (Producer i), p_jobs := p_jobs s @ [item]\<rparr>)"
  | (unlock) "pc = P_unlock" "e = Tau" "s' = set_producer i P_signal (s\<lparr>p_jobs_mutex := None\<rparr>)"
  | (nobody) "pc = P_signal" "e = Tau" "W_wait \<notin> set (p_workers s)" "s' = set_producer i P_idle s"
  | (signal) w where "pc = P_signal" "e = Tau" "w < length (p_workers s)" "p_workers s ! w = W_wait"
      "s' = set_producer i P_idle (set_worker w W_woken s)"
  using assms by (cases pc) (auto simp: Queue_push_def split: if_splits option.splits)

lemma worker_stepE:
  assumes "worker_step cap out w pc s = Some (e, s')"
  obtains (exit) "out \<noteq> Ok" "e = Exit" "s' = s\<lparr>p_exited := True\<rparr>"
  | (lock) "pc = W_lock \<or> pc = W_woken" "p_jobs_mutex s = None" "e = Tau"
      "s' = set_worker w W_check (s\<lparr>p_jobs_mutex := Some (Worker w)\<rparr>)"
  | (wait) "pc = W_check" "p_jobs s = []" "e = Tau" "s' = set_worker w W_wait (s\<lparr>p_jobs_mutex := None\<rparr>)"
  | (take) job items where "pc = W_check" "p_jobs s = job # items" "e = Take w job"
      "s' = set_worker w (W_popped job) (s\<lparr>p_jobs := items\<rparr>)"
  | (unlock) job where "pc = W_popped job" "e = Tau" "s' = set_worker w (W_proc job) (s\<lparr>p_jobs_mutex := None\<rparr>)"
  | (proc) job where "pc = W_proc job" "e = Tau" "s' = set_worker w (W_push job) s"
  | (store) job where "pc = W_push job" "p_results_mutex s = None" "e = Store w job"
      "s' = set_worker w W_write (s\<lparr>p_results_mutex := Some (Worker w), p_results := p_results s @ [job]\<rparr>)"
  | (byte) "pc = W_write" "p_pipe s < cap" "e = Tau" "s' = set_worker w W_unlock (s\<lparr>p_pipe := Suc (p_pipe s)\<rparr>)"
  | (finish) "pc = W_unlock" "e = Tau" "s' = set_worker w W_lock (s\<lparr>p_results_mutex := None\<rparr>)"
  using assms by (cases pc) (auto simp: exit0_def split: if_splits list.splits)

lemma reader_stepE:
  assumes "reader_step out pc s = Some (e, s')"
  obtains (again) "pc = R_read" "out = Intr" "e = Tau" "s' = s"
  | (read_error) "pc = R_read" "out = Fail" "e = Pop_failed" "s' = s\<lparr>p_reader := R_idle\<rparr>"
  | (read) "pc = R_read" "out = Ok" "p_pipe s \<noteq> 0" "e = Tau" "s' = s\<lparr>p_pipe := p_pipe s - 1, p_reader := R_lock\<rparr>"
  | (lock_error) "pc = R_lock" "out \<noteq> Ok" "e = Byte_lost" "s' = s\<lparr>p_reader := R_idle\<rparr>"
  | (empty) "pc = R_lock" "out = Ok" "p_results_mutex s = None" "p_results s = []" "e = Tau"
      "s' = s\<lparr>p_results_mutex := Some Reader, p_reader := R_unlock None\<rparr>"
  | (pop) item items where "pc = R_lock" "out = Ok" "p_results_mutex s = None" "p_results s = item # items" "e = Popped item"
      "s' = s\<lparr>p_results_mutex := Some Reader, p_results := items, p_reader := R_unlock (Some item)\<rparr>"
  | (return) r where "pc = R_unlock r" "e = (if r = None then Pop_failed else Tau)"
      "s' = s\<lparr>p_results_mutex := None, p_reader := R_idle\<rparr>"
proof (cases pc)
  case R_read
  show ?thesis
  proof (cases out)
    case Ok
    then show ?thesis using assms R_read Ok that(3) by (simp split: if_splits)
  next
    case Fail
    then show ?thesis using assms R_read Fail that(2) by simp
  next
    case Intr
    then show ?thesis using assms R_read Intr that(1) by simp
  qed
next
  case R_lock
  show ?thesis
  proof (cases out)
    case Ok
    then show ?thesis using assms R_lock Ok that(5,6) by (simp split: if_splits list.splits)
  next
    case Fail
    then show ?thesis using assms R_lock Fail that(4) by simp
  next
    case Intr
    then show ?thesis using assms R_lock Intr that(4) by simp
  qed
next
  case (R_unlock r)
  then show ?thesis using assms that(7) [of r] by (simp only: reader_step.simps option.inject prod.inject)
qed (use assms in simp)

inductive_cases run_stepE: "run_step cap s e s'"
inductive_cases pool_stepE: "pool_step cap s e s'"

text \<open>The same for the whole pool: one case per point of the code, with or without failure.\<close>

lemma pool_step_cases:
  assumes "pool_step cap s e s'"
  obtains (producer) out sig i where "i < length (p_producers s)"
      "producer_step out sig i (p_producers s ! i) s = Some (e, s')"
  | (worker) out w where "w < length (p_workers s)" "worker_step cap out w (p_workers s ! w) s = Some (e, s')"
  | (reader) out where "reader_step out (p_reader s) s = Some (e, s')"
  | (call_pop) "p_reader s = R_idle" "e = Tau" "s' = s\<lparr>p_reader := R_read\<rparr>"
  | (call_push) i item where "i < length (p_producers s)" "p_producers s ! i = P_idle" "e = Tau"
      "s' = set_producer i (P_lock item) s"
  | (spurious) w where "w < length (p_workers s)" "p_workers s ! w = W_wait" "e = Tau" "s' = set_worker w W_woken s"
  using assms by (auto elim!: pool_stepE run_stepE)

interpretation jobs_queue: fifo_channel "pool_step cap" p_jobs pushed taken for cap
proof
  fix s e s' assume "pool_step cap s e (s' :: 'a pool)"
  then show "p_jobs s @ pushed e = taken e @ p_jobs s'"
    by (cases rule: pool_step_cases)
      (auto elim!: producer_stepE worker_stepE reader_stepE simp: pool_defs)
qed

interpretation results_queue: fifo_channel "pool_step cap" p_results stored popped for cap
proof
  fix s e s' assume "pool_step cap s e (s' :: 'a pool)"
  then show "p_results s @ stored e = popped e @ p_results s'"
    by (cases rule: pool_step_cases)
      (auto elim!: producer_stepE worker_stepE reader_stepE simp: pool_defs)
qed

interpretation worker_hands: fifo_channel "pool_step cap" "held w" "taken_by w" "stored_by w" for cap w
proof
  fix s e s' assume "pool_step cap s e (s' :: 'a pool)"
  then show "held w s @ taken_by w e = stored_by w e @ held w s'"
    by (cases rule: pool_step_cases)
      (auto elim!: producer_stepE worker_stepE reader_stepE simp: pool_defs held_def nth_list_update)
qed

section \<open>Mutual exclusion and the pipe\<close>

fun in_jobs :: "'j wpc \<Rightarrow> bool" where
  "in_jobs W_check \<longleftrightarrow> True" | "in_jobs (W_popped x) \<longleftrightarrow> True" | "in_jobs _ \<longleftrightarrow> False"

fun in_results :: "'j wpc \<Rightarrow> bool" where
  "in_results W_write \<longleftrightarrow> True" | "in_results W_unlock \<longleftrightarrow> True" | "in_results _ \<longleftrightarrow> False"

text \<open>A mutex and the threads whose program counter is inside its critical section.\<close>

definition mutex_ok :: "thread option \<Rightarrow> (thread \<Rightarrow> bool) \<Rightarrow> bool" where
  "mutex_ok m inside \<longleftrightarrow> (\<forall>t. inside t \<longleftrightarrow> m = Some t)"

definition jobs_section :: "'j pool \<Rightarrow> thread \<Rightarrow> bool" where
  "jobs_section s = (\<lambda>t. case t of
     Producer i \<Rightarrow> i < length (p_producers s) \<and> p_producers s ! i = P_unlock
   | Worker w \<Rightarrow> w < length (p_workers s) \<and> in_jobs (p_workers s ! w)
   | Reader \<Rightarrow> False)"

fun in_pop :: "'j rpc \<Rightarrow> bool" where
  "in_pop (R_unlock r) \<longleftrightarrow> True" | "in_pop _ \<longleftrightarrow> False"

definition results_section :: "'j pool \<Rightarrow> thread \<Rightarrow> bool" where
  "results_section s = (\<lambda>t. case t of
     Producer i \<Rightarrow> False
   | Worker w \<Rightarrow> w < length (p_workers s) \<and> in_results (p_workers s ! w)
   | Reader \<Rightarrow> in_pop (p_reader s))"

definition pool_locks :: "'j pool \<Rightarrow> bool" where
  "pool_locks s \<longleftrightarrow> mutex_ok (p_jobs_mutex s) (jobs_section s) \<and> mutex_ok (p_results_mutex s) (results_section s)"

lemma mutex_acquire: "mutex_ok None H \<Longrightarrow> mutex_ok (Some t) (H(t := True))"
  by (auto simp: mutex_ok_def)

lemma mutex_release: "mutex_ok m H \<Longrightarrow> H t \<Longrightarrow> mutex_ok None (H(t := False))"
  by (auto simp: mutex_ok_def)

lemma sections_producer [simp]:
  assumes "i < length (p_producers s)"
  shows "jobs_section (set_producer i pc s) = (jobs_section s)(Producer i := (pc = P_unlock))"
    "results_section (set_producer i pc s) = results_section s"
  using assms
  by (auto simp: fun_eq_iff jobs_section_def results_section_def set_producer_def nth_list_update split: thread.splits)

lemma sections_worker [simp]:
  assumes "w < length (p_workers s)"
  shows "jobs_section (set_worker w pc s) = (jobs_section s)(Worker w := in_jobs pc)"
    "results_section (set_worker w pc s) = (results_section s)(Worker w := in_results pc)"
  using assms
  by (auto simp: fun_eq_iff jobs_section_def results_section_def set_worker_def nth_list_update split: thread.splits)

lemma sections_frame [simp]:
  "jobs_section (s\<lparr>p_jobs_mutex := m\<rparr>) = jobs_section s" "results_section (s\<lparr>p_jobs_mutex := m\<rparr>) = results_section s"
  "jobs_section (s\<lparr>p_results_mutex := m\<rparr>) = jobs_section s" "results_section (s\<lparr>p_results_mutex := m\<rparr>) = results_section s"
  "jobs_section (s\<lparr>p_jobs := xs\<rparr>) = jobs_section s" "results_section (s\<lparr>p_jobs := xs\<rparr>) = results_section s"
  "jobs_section (s\<lparr>p_results := xs\<rparr>) = jobs_section s" "results_section (s\<lparr>p_results := xs\<rparr>) = results_section s"
  "jobs_section (s\<lparr>p_pipe := k\<rparr>) = jobs_section s" "results_section (s\<lparr>p_pipe := k\<rparr>) = results_section s"
  "jobs_section (s\<lparr>p_exited := b\<rparr>) = jobs_section s" "results_section (s\<lparr>p_exited := b\<rparr>) = results_section s"
  "jobs_section (s\<lparr>p_reader := r\<rparr>) = jobs_section s"
  "results_section (s\<lparr>p_reader := r\<rparr>) = (results_section s)(Reader := in_pop r)"
  by (auto simp: fun_eq_iff jobs_section_def results_section_def split: thread.splits)

lemma fields_set [simp]:
  "p_jobs (set_producer i pc s) = p_jobs s" "p_jobs (set_worker w wpc s) = p_jobs s"
  "p_jobs_mutex (set_producer i pc s) = p_jobs_mutex s" "p_jobs_mutex (set_worker w wpc s) = p_jobs_mutex s"
  "p_results (set_producer i pc s) = p_results s" "p_results (set_worker w wpc s) = p_results s"
  "p_results_mutex (set_producer i pc s) = p_results_mutex s" "p_results_mutex (set_worker w wpc s) = p_results_mutex s"
  "p_pipe (set_producer i pc s) = p_pipe s" "p_pipe (set_worker w wpc s) = p_pipe s"
  "p_reader (set_producer i pc s) = p_reader s" "p_reader (set_worker w wpc s) = p_reader s"
  "p_exited (set_producer i pc s) = p_exited s" "p_exited (set_worker w wpc s) = p_exited s"
  "p_workers (set_producer i pc s) = p_workers s" "p_workers (set_worker w wpc s) = (p_workers s)[w := wpc]"
  "p_producers (set_producer i pc s) = (p_producers s)[i := pc]" "p_producers (set_worker w wpc s) = p_producers s"
  by (simp_all add: set_producer_def set_worker_def)

lemma in_section [simp]:
  "i < length (p_producers s) \<Longrightarrow> jobs_section s (Producer i) \<longleftrightarrow> p_producers s ! i = P_unlock"
  "w < length (p_workers s) \<Longrightarrow> jobs_section s (Worker w) \<longleftrightarrow> in_jobs (p_workers s ! w)"
  "w < length (p_workers s) \<Longrightarrow> results_section s (Worker w) \<longleftrightarrow> in_results (p_workers s ! w)"
  "results_section s Reader \<longleftrightarrow> in_pop (p_reader s)"
  by (simp_all add: jobs_section_def results_section_def)

lemma pool_locks_step:
  assumes "pool_step cap s e s'" "pool_locks s"
  shows "pool_locks s'"
  using assms(1)
proof (cases rule: pool_step_cases)
  case (producer out sig i)
  from producer(2,1) assms(2) show ?thesis
    by (cases rule: producer_stepE)
      (auto simp: pool_locks_def fun_upd_idem intro: mutex_acquire mutex_release)
next
  case (worker out w)
  from worker(2,1) assms(2) show ?thesis
    by (cases rule: worker_stepE)
      (auto simp: pool_locks_def fun_upd_idem intro: mutex_acquire mutex_release)
next
  case (reader out)
  from reader assms(2) show ?thesis
    by (cases rule: reader_stepE)
      (auto simp: pool_locks_def fun_upd_idem intro: mutex_acquire mutex_release)
qed (use assms(2) in \<open>auto simp: pool_locks_def fun_upd_idem\<close>)

text \<open>Items without a byte in the pipe: the byte is about to be written, was just read, or is lost.\<close>

fun is_writing :: "'j wpc \<Rightarrow> nat" where
  "is_writing W_write = 1" | "is_writing _ = 0"

definition pipe_ok :: "nat \<Rightarrow> 'j pool \<Rightarrow> bool" where
  "pipe_ok lost s \<longleftrightarrow>
     length (p_results s) = p_pipe s + sum_list (map is_writing (p_workers s))
       + (if p_reader s = R_lock then 1 else 0) + lost \<and>
     p_reader s \<noteq> R_unlock None"

lemma sum_list_map_update:
  fixes f :: "'a \<Rightarrow> 'b::comm_monoid_add"
  shows "i < length xs \<Longrightarrow> f (xs ! i) + sum_list (map f (xs[i := v])) = f v + sum_list (map f xs)"
proof (induction xs arbitrary: i)
  case (Cons x xs)
  show ?case
  proof (cases i)
    case (Suc j)
    then have "f (xs ! j) + sum_list (map f (xs[j := v])) = f v + sum_list (map f xs)"
      using Cons by simp
    then show ?thesis using Suc by (simp add: add.left_commute [of _ "f x"])
  qed (simp add: add.left_commute)
qed simp

lemma map_update_same: "f (xs ! i) = f v \<Longrightarrow> map f (xs[i := v]) = map f xs"
  by (cases "i < length xs") (simp_all add: map_update list_update_same_conv list_update_beyond)

lemma sum_list_replicate_0: "sum_list (replicate n (0 :: 'a::comm_monoid_add)) = 0"
  by (induction n) simp_all

lemma pipe_ok_step:
  assumes "pool_step cap s e s'" "pipe_ok lost s"
  shows "pipe_ok (lost + bytes_lost e) s'"
  using assms(1)
proof (cases rule: pool_step_cases)
  case (producer out sig i)
  from producer(2,1) assms(2) show ?thesis
    by (cases rule: producer_stepE) (auto simp: pipe_ok_def dest: sum_list_map_update [of _ _ is_writing W_woken])
next
  case (worker out w)
  from worker(2,1) assms(2) sum_list_map_update [OF worker(1), of is_writing] show ?thesis
    by (cases rule: worker_stepE) (auto simp: pipe_ok_def)
next
  case (reader out)
  from reader assms(2) show ?thesis
    by (cases rule: reader_stepE) (auto simp: pipe_ok_def)
next
  case (spurious w)
  with sum_list_map_update [OF spurious(1), of is_writing] assms(2) show ?thesis
    by (auto simp: pipe_ok_def)
qed (use assms(2) in \<open>auto simp: pipe_ok_def\<close>)

definition jobs_in_hands :: "'j pool \<Rightarrow> 'j multiset" where
  "jobs_in_hands s = sum_list (map (mset \<circ> wpc_job) (p_workers s))"

lemma jobs_in_hands_step:
  assumes "pool_step cap s e s'"
  shows "jobs_in_hands s + mset (taken e) = mset (stored e) + jobs_in_hands s'"
  using assms
proof (cases rule: pool_step_cases)
  case (producer out sig i)
  from producer(2,1) show ?thesis
    by (cases rule: producer_stepE)
      (auto simp: jobs_in_hands_def dest: sum_list_map_update [of _ _ "mset \<circ> wpc_job" W_woken])
next
  case (worker out w)
  from worker(2,1) sum_list_map_update [OF worker(1), of "mset \<circ> wpc_job"] show ?thesis
    by (cases rule: worker_stepE) (auto simp: jobs_in_hands_def map_update_same add.commute)
next
  case (reader out)
  then show ?thesis by (cases rule: reader_stepE) (auto simp: jobs_in_hands_def)
next
  case (spurious w)
  with sum_list_map_update [OF spurious(1), of "mset \<circ> wpc_job"] show ?thesis
    by (auto simp: jobs_in_hands_def)
qed (auto simp: jobs_in_hands_def)

lemma jobs_in_hands_trace:
  "trace (pool_step cap) s es s' \<Longrightarrow>
     jobs_in_hands s + mset (concat (map taken es)) = mset (concat (map stored es)) + jobs_in_hands s'"
proof (induction rule: trace.induct)
  case (trace_snoc s es s' e s'')
  from jobs_in_hands_step [OF trace_snoc(2)] trace_snoc(3) show ?case
    by simp (metis add.assoc add.commute)
qed simp

lemma pool_inv_trace:
  "trace (pool_step cap) s es s' \<Longrightarrow> pool_locks s \<Longrightarrow> pipe_ok 0 s \<Longrightarrow>
     pool_locks s' \<and> pipe_ok (sum_list (map bytes_lost es)) s'"
proof (induction rule: trace.induct)
  case (trace_snoc s es s' e s'')
  then show ?case using pool_locks_step [OF trace_snoc(2)] pipe_ok_step [OF trace_snoc(2)] by auto
qed simp

lemma pool_init_inv: "pool_locks (pool_init p n)" "pipe_ok 0 (pool_init p n)" "jobs_in_hands (pool_init p n) = {#}"
  by (auto simp: pool_init_def pool_locks_def mutex_ok_def jobs_section_def results_section_def pipe_ok_def
      sum_list_replicate_0 jobs_in_hands_def map_replicate split: thread.splits)

lemma held_init: "held w (pool_init p n) = []"
  by (simp add: held_def pool_init_def)

text \<open>Every job pushed is in exactly one place.\<close>

lemma pool_conserves:
  assumes "trace (pool_step cap) (pool_init p n) es s"
  shows "mset (concat (map pushed es)) =
    mset (p_jobs s) + jobs_in_hands s + mset (p_results s) + mset (concat (map popped es))"
proof -
  have "concat (map pushed es) = concat (map taken es) @ p_jobs s"
    "concat (map stored es) = concat (map popped es) @ p_results s"
    using jobs_queue.trace_fifo [OF assms] results_queue.trace_fifo [OF assms] by (simp_all add: pool_init_def)
  then show ?thesis using jobs_in_hands_trace [OF assms] by (simp add: pool_init_inv ac_simps)
qed

section \<open>No lost wake-up, and progress\<close>

text \<open>
  Jobs never wait while every worker sleeps: a producer is still on its way to the signal, or
  some worker is awake and will look at the queue again.
\<close>

definition someone_awake :: "'j pool \<Rightarrow> bool" where
  "someone_awake s \<longleftrightarrow> p_jobs s = [] \<or> P_unlock \<in> set (p_producers s) \<or> P_signal \<in> set (p_producers s) \<or>
     (\<exists>pc \<in> set (p_workers s). pc \<noteq> W_wait)"

definition workers_alive :: "'j pool \<Rightarrow> bool" where
  "workers_alive s \<longleftrightarrow> p_workers s \<noteq> [] \<and> W_dead \<notin> set (p_workers s)"

lemma in_set_update_other: "x \<in> set xs \<Longrightarrow> xs ! i \<noteq> x \<Longrightarrow> x \<in> set (xs[i := v])"
  by (metis in_set_conv_nth length_list_update nth_list_update_neq)

lemma workers_alive_step: 
  assumes "pool_step cap s e s'" "workers_alive s"
  shows "workers_alive s'"
  using assms(1)
proof (cases rule: pool_step_cases)
  case (producer out sig i)
  from producer(2) assms(2) show ?thesis
    by (cases rule: producer_stepE) (auto simp: workers_alive_def dest: set_update_subset_insert [THEN subsetD])
next
  case (worker out w)
  from worker(2) assms(2) show ?thesis
    by (cases rule: worker_stepE) (auto simp: workers_alive_def dest: set_update_subset_insert [THEN subsetD])
next
  case (reader out)
  from reader assms(2) show ?thesis by (cases rule: reader_stepE) (auto simp: workers_alive_def)
qed (use assms(2) in \<open>auto simp: workers_alive_def dest: set_update_subset_insert [THEN subsetD]\<close>)

lemma someone_awake_step:
  assumes "pool_step cap s e s'" "workers_alive s" "someone_awake s"
  shows "someone_awake s'"
  using assms(1)
proof (cases rule: pool_step_cases)
  case (producer out sig i)
  from producer(2,1) assms(2,3) show ?thesis
    by (cases rule: producer_stepE)
      (auto simp: someone_awake_def workers_alive_def neq_Nil_conv intro: set_update_memI in_set_update_other)
next
  case (worker out w)
  from worker(2,1) assms(3) show ?thesis
    by (cases rule: worker_stepE) (auto simp: someone_awake_def intro: set_update_memI)
next
  case (reader out)
  from reader assms(3) show ?thesis by (cases rule: reader_stepE) (auto simp: someone_awake_def)
next
  case (call_push i item)
  then show ?thesis using assms(3) by (auto simp: someone_awake_def intro: in_set_update_other)
next
  case (spurious w)
  then show ?thesis by (auto simp: someone_awake_def intro: set_update_memI)
qed (use assms(3) in \<open>auto simp: someone_awake_def\<close>)

text \<open>A bound on the steps that are left when no new call arrives.\<close>

fun ppc_work :: "'j ppc \<Rightarrow> nat" where
  "ppc_work (P_lock x) = 16" | "ppc_work P_unlock = 4" | "ppc_work P_signal = 3" | "ppc_work P_idle = 0"

fun wpc_work :: "'j wpc \<Rightarrow> nat" where
  "wpc_work (W_popped x) = 11" | "wpc_work (W_proc x) = 10" | "wpc_work (W_push x) = 9"
| "wpc_work W_write = 8" | "wpc_work W_unlock = 3" | "wpc_work W_lock = 2" | "wpc_work W_woken = 2"
| "wpc_work W_check = 1" | "wpc_work W_wait = 0" | "wpc_work W_dead = 0"

fun rpc_work :: "'j rpc \<Rightarrow> nat" where
  "rpc_work R_lock = 3" | "rpc_work (R_unlock r) = 2" | "rpc_work R_idle = 1" | "rpc_work R_read = 0"

definition work :: "'j pool \<Rightarrow> nat" where
  "work s = sum_list (map ppc_work (p_producers s)) + 11 * length (p_jobs s)
     + sum_list (map wpc_work (p_workers s)) + 4 * p_pipe s + rpc_work (p_reader s)"

lemma sum_list_nat_update:
  fixes f :: "'a \<Rightarrow> nat"
  assumes "i < length xs"
  shows "sum_list (map f (xs[i := v])) = sum_list (map f xs) - f (xs ! i) + f v" "f (xs ! i) \<le> sum_list (map f xs)"
proof -
  show le: "f (xs ! i) \<le> sum_list (map f xs)" using assms by (simp add: member_le_sum_list)
  show "sum_list (map f (xs[i := v])) = sum_list (map f xs) - f (xs ! i) + f v"
    using sum_list_map_update [OF assms, of f v] le by simp
qed

lemma run_step_work:
  assumes "run_step cap s e s'"
  shows "work s' < work s"
  using assms
proof (cases rule: run_step.cases)
  case (producer i sig)
  from producer(3,2) sum_list_nat_update(2) [OF producer(2), of ppc_work] show ?thesis
    by (cases rule: producer_stepE) (auto simp: work_def sum_list_nat_update(1))
next
  case (worker w)
  from worker(3,2) sum_list_nat_update(2) [OF worker(2), of wpc_work] show ?thesis
    by (cases rule: worker_stepE) (auto simp: work_def sum_list_nat_update(1))
next
  case reader
  from reader(2) show ?thesis by (cases rule: reader_stepE) (auto simp: work_def)
qed (auto simp: work_def)

text \<open>When nothing can run, everything has been delivered or the reader and a worker block each other.\<close>

definition stuck :: "nat \<Rightarrow> 'j pool \<Rightarrow> bool" where
  "stuck cap s \<longleftrightarrow> (\<forall>e s'. \<not> run_step cap s e s')"

lemma no_pair_None: "(\<And>e s'. x \<noteq> Some (e, s')) \<Longrightarrow> x = None"
  by (cases x) auto

lemma stuck_producer:
  assumes "stuck cap s" "\<not> p_exited s" "i < length (p_producers s)"
  shows "p_producers s ! i = P_idle \<or> p_producers s ! i \<in> range P_lock \<and> p_jobs_mutex s \<noteq> None"
proof -
  have "producer_step Ok sig i (p_producers s ! i) s = None" for sig
    by (rule no_pair_None) (use assms run_step.producer [of s i sig _ _ cap] in \<open>auto simp: stuck_def\<close>)
  from this [of None] this [of "Some (SOME w. w < length (p_workers s) \<and> p_workers s ! w = W_wait)"]
  show ?thesis
    using someI_ex [of "\<lambda>w. w < length (p_workers s) \<and> p_workers s ! w = W_wait"]
    by (cases "p_producers s ! i") (auto simp: in_set_conv_nth split: if_splits)
qed

lemma stuck_worker:
  assumes "stuck cap s" "\<not> p_exited s" "w < length (p_workers s)"
  shows "case p_workers s ! w of
      W_lock \<Rightarrow> p_jobs_mutex s \<noteq> None | W_woken \<Rightarrow> p_jobs_mutex s \<noteq> None | W_push x \<Rightarrow> p_results_mutex s \<noteq> None
    | W_write \<Rightarrow> cap \<le> p_pipe s | W_wait \<Rightarrow> True | W_dead \<Rightarrow> True | _ \<Rightarrow> False"
proof -
  have "worker_step cap Ok w (p_workers s ! w) s = None"
    by (rule no_pair_None) (use assms run_step.worker [of s w cap] in \<open>auto simp: stuck_def\<close>)
  then show ?thesis by (cases "p_workers s ! w") (auto split: if_splits list.splits)
qed

lemma stuck_reader:
  assumes "stuck cap s" "\<not> p_exited s"
  shows "p_reader s = R_read \<and> p_pipe s = 0 \<or> p_reader s = R_lock \<and> p_results_mutex s \<noteq> None"
proof -
  have "reader_step Ok (p_reader s) s = None"
    by (rule no_pair_None) (use assms run_step.reader [of s _ _ cap] in \<open>auto simp: stuck_def\<close>)
  moreover have "p_reader s \<noteq> R_idle" using assms run_step.call_pop [of s cap] by (auto simp: stuck_def)
  ultimately show ?thesis by (cases "p_reader s") (auto split: if_splits list.splits)
qed

lemma stuck_jobs_free:
  assumes "stuck cap s" "\<not> p_exited s" "pool_locks s"
  shows "p_jobs_mutex s = None"
proof (rule ccontr)
  assume "p_jobs_mutex s \<noteq> None"
  then obtain t where t: "p_jobs_mutex s = Some t" by blast
  then have "jobs_section s t" using assms(3) by (simp add: pool_locks_def mutex_ok_def)
  then show False
  proof (cases t)
    case (Producer i)
    with \<open>jobs_section s t\<close> stuck_producer [OF assms(1,2), of i] show ?thesis by (auto simp: jobs_section_def)
  next
    case (Worker w)
    with \<open>jobs_section s t\<close> stuck_worker [OF assms(1,2), of w] show ?thesis
      by (cases "p_workers s ! w") (auto simp: jobs_section_def)
  qed (simp add: jobs_section_def)
qed

lemma stuck_results:
  assumes "stuck cap s" "\<not> p_exited s" "pool_locks s" "p_results_mutex s \<noteq> None" "0 < cap"
  shows "p_reader s = R_lock \<and> cap \<le> p_pipe s \<and> W_write \<in> set (p_workers s)"
proof -
  obtain t where t: "p_results_mutex s = Some t" using assms(4) by blast
  then have "results_section s t" using assms(3) by (simp add: pool_locks_def mutex_ok_def)
  then obtain w where w: "w < length (p_workers s)" "in_results (p_workers s ! w)"
    using stuck_reader [OF assms(1,2)] by (auto simp: results_section_def split: thread.splits)
  then have "p_workers s ! w = W_write" "cap \<le> p_pipe s"
    using stuck_worker [OF assms(1,2) w(1)] by (auto split: wpc.splits)
  then show ?thesis using stuck_reader [OF assms(1,2)] w(1) assms(5) by (auto simp: in_set_conv_nth)
qed

lemma stuck_delivered:
  assumes "stuck cap s" "\<not> p_exited s" "pool_locks s" "pipe_ok 0 s" "workers_alive s" "someone_awake s"
    "0 < cap" "length (p_results s) \<le> cap + 1"
  shows "p_jobs s = [] \<and> jobs_in_hands s = {#} \<and> p_results s = [] \<and> set (p_producers s) \<subseteq> {P_idle}"
proof -
  have jobs_free: "p_jobs_mutex s = None" by (rule stuck_jobs_free [OF assms(1-3)])
  have results_free: "p_results_mutex s = None"
  proof (rule ccontr)
    assume "p_results_mutex s \<noteq> None"
    from stuck_results [OF assms(1-3) this assms(7)]
    have r: "p_reader s = R_lock" "cap \<le> p_pipe s" "W_write \<in> set (p_workers s)" by auto
    then have "1 \<le> sum_list (map is_writing (p_workers s))"
      using member_le_sum_list [of "is_writing W_write" "map is_writing (p_workers s)"] by force
    then show False using r assms(4,8) by (simp add: pipe_ok_def)
  qed
  have reader: "p_pipe s = 0" "p_reader s = R_read" using stuck_reader [OF assms(1,2)] results_free by auto
  have waits: "pc = W_wait" if pc: "pc \<in> set (p_workers s)" for pc
  proof -
    obtain w where w: "w < length (p_workers s)" "p_workers s ! w = pc"
      using pc by (auto simp: in_set_conv_nth)
    moreover have "pc \<noteq> W_dead" using pc assms(5) by (auto simp: workers_alive_def)
    ultimately show ?thesis
      using stuck_worker [OF assms(1,2) w(1)] jobs_free results_free reader assms(7) by (cases pc) simp_all
  qed
  have idle: "set (p_producers s) \<subseteq> {P_idle}"
    using stuck_producer [OF assms(1,2)] jobs_free by (auto simp: in_set_conv_nth)
  have "jobs_in_hands s = sum_list (map (\<lambda>_. {#}) (p_workers s))"
    unfolding jobs_in_hands_def by (intro arg_cong [where f = sum_list] map_cong) (auto dest: waits)
  then have hands: "jobs_in_hands s = {#}" by (simp add: map_replicate_const sum_list_replicate_0)
  have "is_writing pc = 0" if "pc \<in> set (p_workers s)" for pc using waits [OF that] by simp
  then have none: "sum_list (map is_writing (p_workers s)) = 0" by (auto simp: sum_list_eq_0_iff)
  have "length (p_results s) = sum_list (map is_writing (p_workers s))"
    using reader assms(4) by (simp add: pipe_ok_def)
  with none have "p_results s = []" by (metis length_0_conv)
  moreover have "p_jobs s = []" using assms(6) idle waits by (auto simp: someone_awake_def)
  ultimately show ?thesis using hands idle by simp
qed

lemma run_traces_pool: "trace (run_step cap) s es s' \<Longrightarrow> trace (pool_step cap) s es s'"
  by (induction rule: trace.induct) (auto intro: trace.intros pool_step.run)

lemma trace_append: "trace step s es s' \<Longrightarrow> trace step s' es' s'' \<Longrightarrow> trace step s (es @ es') s''"
  by (rotate_tac, induction rule: trace.induct) (auto intro: trace_snoc simp flip: append_assoc)

lemma run_trace_work: "trace (run_step cap) s es s' \<Longrightarrow> length es + work s' \<le> work s"
proof (induction rule: trace.induct)
  case (trace_snoc s es s' e s'')
  then show ?case using run_step_work [OF trace_snoc(2)] by simp
qed simp

lemma run_step_no_loss: "run_step cap s e s' \<Longrightarrow> bytes_lost e = 0"
proof (induction rule: run_step.induct)
  case (producer s i sig e s')
  from producer(3) show ?case by (cases rule: producer_stepE) auto
next
  case (worker s w e s')
  from worker(3) show ?case by (cases rule: worker_stepE) auto
next
  case (reader s e s')
  from reader(2) show ?case by (cases rule: reader_stepE) auto
qed simp

lemma run_not_exited: "run_step cap s e s' \<Longrightarrow> \<not> p_exited s'"
proof (induction rule: run_step.induct)
  case (producer s i sig e s')
  from producer(3,1) show ?case by (cases rule: producer_stepE) auto
next
  case (worker s w e s')
  from worker(3,1) show ?case by (cases rule: worker_stepE) auto
next
  case (reader s e s')
  from reader(2,1) show ?case by (cases rule: reader_stepE) auto
qed auto

lemma run_trace_not_exited: "trace (run_step cap) s es s' \<Longrightarrow> \<not> p_exited s \<Longrightarrow> \<not> p_exited s'"
  by (induction rule: trace.induct) (auto dest: run_not_exited)

lemma awake_trace:
  "trace (pool_step cap) s es s' \<Longrightarrow> workers_alive s \<Longrightarrow> someone_awake s \<Longrightarrow> workers_alive s' \<and> someone_awake s'"
  by (induction rule: trace.induct) (auto dest: workers_alive_step someone_awake_step)

lemma pool_init_awake: "0 < n \<Longrightarrow> workers_alive (pool_init p n) \<and> someone_awake (pool_init p n)"
  by (auto simp: workers_alive_def someone_awake_def pool_init_def)

section \<open>Schedules\<close>

text \<open>One step of the pool chosen by a scheduler, for running the model.\<close>

datatype 'j action = Call_push nat 'j | Run_producer nat "nat option" | Run_worker nat | Call_pop | Run_reader

definition perform :: "nat \<Rightarrow> 'j action \<Rightarrow> 'j pool \<Rightarrow> ('j event \<times> 'j pool) option" where
  "perform cap a s = (if p_exited s then None else
     case a of
       Call_push i x \<Rightarrow>
         if i < length (p_producers s) \<and> p_producers s ! i = P_idle then Some (Tau, set_producer i (P_lock x) s) else None
     | Run_producer i sig \<Rightarrow>
         if i < length (p_producers s) then producer_step Ok sig i (p_producers s ! i) s else None
     | Run_worker w \<Rightarrow> if w < length (p_workers s) then worker_step cap Ok w (p_workers s ! w) s else None
     | Call_pop \<Rightarrow> if p_reader s = R_idle then Some (Tau, s\<lparr>p_reader := R_read\<rparr>) else None
     | Run_reader \<Rightarrow> reader_step Ok (p_reader s) s)"

fun schedule :: "nat \<Rightarrow> 'j action list \<Rightarrow> 'j pool \<Rightarrow> ('j event list \<times> 'j pool) option" where
  "schedule cap [] s = Some ([], s)"
| "schedule cap (a # as) s = (case perform cap a s of
     None \<Rightarrow> None
   | Some (e, s') \<Rightarrow> (case schedule cap as s' of None \<Rightarrow> None | Some (es, s'') \<Rightarrow> Some (e # es, s'')))"

lemma perform_step: "perform cap a s = Some (e, s') \<Longrightarrow> pool_step cap s e s'"
  by (auto simp: perform_def split: action.splits if_splits
      intro: pool_step.intros run_step.intros)

lemma trace_Cons: "step s e s' \<Longrightarrow> trace step s' es s'' \<Longrightarrow> trace step s (e # es) s''"
  using trace_append [of step s "[e]" s' es s''] trace_snoc [OF trace_Nil, of step s e s'] by simp

lemma schedule_trace: "schedule cap as s = Some (es, s') \<Longrightarrow> trace (pool_step cap) s es s'"
proof (induction as arbitrary: s es)
  case (Cons a as)
  then obtain e s1 es1 where "perform cap a s = Some (e, s1)" "schedule cap as s1 = Some (es1, s')" "es = e # es1"
    by (auto split: option.splits)
  then show ?case using Cons.IH perform_step trace_Cons by metis
qed (auto intro: trace_Nil)

section \<open>Properties\<close>

text \<open>
  C1. The pool neither loses nor duplicates a job, and its queues are first in, first out.  In
  every run of any number of producers and workers, whatever the interleaving and whichever
  calls fail, the jobs accepted by \<open>push\<close> are, in this order, those taken by workers followed
  by those still queued; the results stored are those popped followed by those still queued;
  each worker stores the jobs it takes in the order it took them; and every accepted job is
  exactly once in the queue, in the hands of a worker, among the results or already popped.
\<close>

theorem pool_loses_no_job:
  assumes "trace (pool_step cap) (pool_init p n) es s"
  shows "concat (map pushed es) = concat (map taken es) @ p_jobs s \<and>
    concat (map stored es) = concat (map popped es) @ p_results s \<and>
    (\<forall>w. concat (map (taken_by w) es) = concat (map (stored_by w) es) @ held w s) \<and>
    mset (concat (map pushed es)) =
      mset (p_jobs s) + jobs_in_hands s + mset (p_results s) + mset (concat (map popped es))"
proof (intro conjI allI)
  show "concat (map (taken_by w) es) = concat (map (stored_by w) es) @ held w s" for w
    using worker_hands.trace_fifo [OF assms, of w] by (simp add: held_init)
qed (use jobs_queue.trace_fifo [OF assms] results_queue.trace_fifo [OF assms] pool_conserves [OF assms]
    in \<open>simp_all add: pool_init_def\<close>)

text \<open>
  The critical sections of the pool exclude each other, and a \<open>pop\<close> that has read its byte
  finds an item: in every reachable state a thread is inside a critical section exactly when it
  owns that section's mutex, the number of results is the number of bytes in the pipe plus
  those being written, just read, or lost to a failed lock, and the branch of
  \<open>SelectableQueue::pop\<close> that reports an empty queue is never taken.
\<close>

theorem pool_sections_and_pipe:
  assumes "trace (pool_step cap) (pool_init p n) es s"
  shows "(\<forall>t. jobs_section s t \<longleftrightarrow> p_jobs_mutex s = Some t) \<and>
    (\<forall>t. results_section s t \<longleftrightarrow> p_results_mutex s = Some t) \<and>
    length (p_results s) = p_pipe s + sum_list (map is_writing (p_workers s))
      + (if p_reader s = R_lock then 1 else 0) + sum_list (map bytes_lost es) \<and>
    (p_reader s = R_lock \<longrightarrow> p_results s \<noteq> []) \<and> p_reader s \<noteq> R_unlock None"
  using pool_inv_trace [OF assms pool_init_inv(1,2)]
  by (auto simp: pool_locks_def mutex_ok_def pipe_ok_def)

text \<open>
  C3. Every job is delivered when no call fails and the pipe has room.  After any history
  without lost bytes, the threads of the pool can only take a bounded number of steps until
  none can move, and then every job ever accepted has been returned by \<open>pop\<close>, every \<open>push\<close> has
  returned, no worker slept through its wake-up; provided that at most one job more than the
  capacity of the pipe is outstanding.
\<close>

theorem pool_delivers_every_job:
  assumes "trace (pool_step cap) (pool_init p n) es s" "0 < n" "0 < cap" "\<not> p_exited s"
    "sum_list (map bytes_lost es) = 0" "trace (run_step cap) s es' s'"
  shows "length es' \<le> work s \<and>
    ((\<forall>e s''. \<not> run_step cap s' e s'') \<longrightarrow>
     length (concat (map pushed (es @ es'))) \<le> length (concat (map popped (es @ es'))) + cap + 1 \<longrightarrow>
     mset (concat (map pushed (es @ es'))) = mset (concat (map popped (es @ es'))) \<and>
     set (p_producers s') \<subseteq> {P_idle})"
proof (intro conjI impI)
  show "length es' \<le> work s" using run_trace_work [OF assms(6)] by simp
  have all: "trace (pool_step cap) (pool_init p n) (es @ es') s'"
    using trace_append [OF assms(1) run_traces_pool [OF assms(6)]] .
  have lost: "sum_list (map bytes_lost es') = 0"
    using assms(6) by (induction rule: trace.induct) (auto dest: run_step_no_loss)
  from pool_inv_trace [OF all pool_init_inv(1,2)] lost assms(5)
  have inv: "pool_locks s'" "pipe_ok 0 s'" by auto
  have awake: "workers_alive s'" "someone_awake s'"
    using awake_trace [OF all] pool_init_awake [OF assms(2), of p] by auto
  assume "\<forall>e s''. \<not> run_step cap s' e s''"
    and few: "length (concat (map pushed (es @ es'))) \<le> length (concat (map popped (es @ es'))) + cap + 1"
  then have stuck: "stuck cap s'" by (simp add: stuck_def)
  note sum = pool_conserves [OF all]
  from arg_cong [OF sum, of size] few have "length (p_results s') \<le> cap + 1" by simp
  from stuck_delivered [OF stuck run_trace_not_exited [OF assms(6,4)] inv awake assms(3) this] sum
  show "mset (concat (map pushed (es @ es'))) = mset (concat (map popped (es @ es')))"
    "set (p_producers s') \<subseteq> {P_idle}" by auto
qed

definition push_acts :: "'j \<Rightarrow> 'j action list" where
  "push_acts x = [Call_push 0 x, Run_producer 0 None, Run_producer 0 None, Run_producer 0 None]"

text \<open>One job goes through the pool.\<close>

definition one_job :: "nat action list" where
  "one_job = push_acts 7 @ replicate 7 (Run_worker 0) @ Call_pop # replicate 3 Run_reader"

definition one_job_state :: "nat pool" where
  "one_job_state = (pool_init 1 1)\<lparr>p_reader := R_idle\<rparr>"

definition one_job_events :: "nat event list" where
  "one_job_events = [Tau, Push 7, Tau, Tau, Tau, Take 0 7, Tau, Tau, Store 0 7, Tau, Tau, Tau, Tau, Popped 7, Tau]"

lemmas schedule_simps = perform_def push_acts_def pool_init_def set_producer_def set_worker_def Queue_push_def

lemma one_job_run: "schedule 1 one_job (pool_init 1 1) = Some (one_job_events, one_job_state)"
  by (simp add: one_job_def one_job_events_def one_job_state_def schedule_simps numeral_eq_Suc)

theorem pool_loses_no_job_witness:
  "mset (concat (map pushed one_job_events)) =
     mset (p_jobs one_job_state) + jobs_in_hands one_job_state + mset (p_results one_job_state)
     + mset (concat (map popped one_job_events)) \<and> concat (map popped one_job_events) = [7]"
  using pool_loses_no_job [OF schedule_trace [OF one_job_run]] by (simp add: one_job_events_def)

lemma one_job_quiet: "trace (run_step 1) one_job_state [Tau, Tau, Tau]
   (one_job_state\<lparr>p_reader := R_read, p_workers := [W_wait]\<rparr>)"
proof -
  have "run_step 1 one_job_state Tau (one_job_state\<lparr>p_reader := R_read\<rparr>)"
    by (rule run_step.call_pop) (simp_all add: one_job_state_def pool_init_def)
  moreover have "run_step 1 (one_job_state\<lparr>p_reader := R_read\<rparr>) Tau
      (one_job_state\<lparr>p_reader := R_read, p_workers := [W_check], p_jobs_mutex := Some (Worker 0)\<rparr>)"
    by (rule run_step.worker [of _ 0]) (simp_all add: one_job_state_def pool_init_def set_worker_def)
  moreover have "run_step 1 (one_job_state\<lparr>p_reader := R_read, p_workers := [W_check], p_jobs_mutex := Some (Worker 0)\<rparr>)
      Tau (one_job_state\<lparr>p_reader := R_read, p_workers := [W_wait]\<rparr>)"
    by (rule run_step.worker [of _ 0]) (simp_all add: one_job_state_def pool_init_def set_worker_def)
  ultimately show ?thesis by (blast intro: trace_Cons trace_Nil)
qed

theorem pool_delivers_every_job_witness:
  "mset (concat (map pushed (one_job_events @ [Tau, Tau, Tau]))) =
     mset (concat (map popped (one_job_events @ [Tau, Tau, Tau]))) \<and>
   concat (map popped (one_job_events @ [Tau, Tau, Tau])) = [7]"
proof -
  define s' where "s' = one_job_state\<lparr>p_reader := R_read, p_workers := [W_wait]\<rparr>"
  have "\<forall>e s''. \<not> run_step 1 s' e s''"
    by (auto simp: s'_def one_job_state_def pool_init_def elim!: run_stepE)
  with pool_delivers_every_job [OF schedule_trace [OF one_job_run] _ _ _ _ one_job_quiet]
  show ?thesis by (simp add: one_job_events_def one_job_state_def pool_init_def s'_def)
qed

section \<open>Blocking at a full pipe\<close>

text \<open>
  The worker \<open>v\<close> is at its write with the results mutex, the pipe is full, and the reader is at the
  lock of that mutex.
\<close>

definition blocked_pair :: "nat \<Rightarrow> nat \<Rightarrow> 'j pool \<Rightarrow> bool" where
  "blocked_pair cap v s \<longleftrightarrow> p_reader s = R_lock \<and> cap \<le> p_pipe s \<and> W_unlock \<notin> set (p_workers s) \<and>
     v < length (p_workers s) \<and> p_workers s ! v = W_write \<and> p_results_mutex s = Some (Worker v)"

text \<open>In a reachable state the mutex is the worker's as soon as it is at its write.\<close>

lemma blocked_pairI:
  assumes "pool_locks s" "p_reader s = R_lock" "cap \<le> p_pipe s" "v < length (p_workers s)" "p_workers s ! v = W_write"
  shows "blocked_pair cap v s"
proof -
  have inside: "results_section s t \<longleftrightarrow> p_results_mutex s = Some t" for t
    using assms(1) by (auto simp: pool_locks_def mutex_ok_def)
  have v: "p_results_mutex s = Some (Worker v)" using inside [of "Worker v"] assms(4,5) by (simp add: results_section_def)
  have "p_workers s ! w \<noteq> W_unlock" if "w < length (p_workers s)" for w
    using inside [of "Worker w"] v that assms(5) by (auto simp: results_section_def)
  then show ?thesis using v assms(2-5) by (auto simp: blocked_pair_def in_set_conv_nth)
qed

lemma blocked_pair_step:
  assumes "pool_step cap s e s'" "blocked_pair cap v s" "e \<noteq> Exit" "e \<noteq> Byte_lost"
  shows "blocked_pair cap v s' \<and> popped e = [] \<and> stored e = []"
proof -
  note v = assms(2) [unfolded blocked_pair_def]
  show ?thesis using assms(1)
  proof (cases rule: pool_step_cases)
    case (producer out sig i)
    from producer(2) v show ?thesis
      by (cases rule: producer_stepE)
        (auto simp: blocked_pair_def nth_list_update dest: set_update_subset_insert [THEN subsetD])
  next
    case (worker out w)
    have "p_workers s ! w \<noteq> W_unlock" using worker(1) v by (metis nth_mem)
    with worker(2,1) v assms(3) show ?thesis
      by (cases rule: worker_stepE)
        (auto simp: blocked_pair_def nth_list_update dest: set_update_subset_insert [THEN subsetD])
  next
    case (reader out)
    from reader v assms(4) show ?thesis by (cases rule: reader_stepE) auto
  next
    case (spurious w)
    with v show ?thesis
      by (auto simp: blocked_pair_def nth_list_update dest: set_update_subset_insert [THEN subsetD])
  qed (use v in \<open>auto simp: blocked_pair_def\<close>)
qed

lemma blocked_pair_trace:
  "trace (pool_step cap) s es s' \<Longrightarrow> blocked_pair cap v s \<Longrightarrow> Exit \<notin> set es \<Longrightarrow> Byte_lost \<notin> set es \<Longrightarrow>
     blocked_pair cap v s' \<and> concat (map popped es) = [] \<and> concat (map stored es) = []"
proof (induction rule: trace.induct)
  case (trace_snoc s es s' e s'')
  then show ?case using blocked_pair_step [OF trace_snoc(2)] by auto
qed simp

lemma workers_step: "pool_step cap s e s' \<Longrightarrow> length (p_workers s') = length (p_workers s)"
  by (cases rule: pool_step_cases, assumption)
    (auto elim!: producer_stepE worker_stepE reader_stepE simp: set_producer_def set_worker_def)

lemma workers_trace: "trace (pool_step cap) s es s' \<Longrightarrow> length (p_workers s') = length (p_workers s)"
  by (induction rule: trace.induct) (auto dest: workers_step)

text \<open>
  The way there, for any pipe: the pool at rest with \<open>n\<close> bytes in the pipe and the results \<open>xs\<close>;
  one job moves into the results, and a pop reads its byte.
\<close>

definition at_rest :: "nat \<Rightarrow> nat \<Rightarrow> nat \<Rightarrow> 'j list \<Rightarrow> 'j rpc \<Rightarrow> 'j pool" where
  "at_rest p q n xs r = (pool_init (Suc p) (Suc q))\<lparr>p_pipe := n, p_results := xs, p_reader := r\<rparr>"

lemma at_rest_init: "at_rest p q 0 [] R_idle = pool_init (Suc p) (Suc q)"
  by (simp add: at_rest_def pool_init_def)

definition job_acts :: "'j \<Rightarrow> nat \<Rightarrow> 'j action list" where
  "job_acts x n = push_acts x @ replicate n (Run_worker 0)"

definition no_failure :: "'j event list \<Rightarrow> bool" where
  "no_failure es \<longleftrightarrow> {Exit, Byte_lost, Pop_failed} \<inter> set es = {} \<and> (\<forall>x. Push_failed x \<notin> set es)"

lemma no_failure_append [simp]: "no_failure (es @ es') \<longleftrightarrow> no_failure es \<and> no_failure es'"
  by (auto simp: no_failure_def)

lemma one_more_result:
  "n < cap \<Longrightarrow> \<exists>es. trace (pool_step cap) (at_rest p q n xs r) es (at_rest p q (Suc n) (xs @ [x]) r) \<and> no_failure es"
proof -
  assume "n < cap"
  then obtain es where "schedule cap (job_acts x 7) (at_rest p q n xs r) = Some (es, at_rest p q (Suc n) (xs @ [x]) r)"
    "no_failure es"
    by (simp add: job_acts_def at_rest_def schedule_simps numeral_eq_Suc no_failure_def)
  then show ?thesis using schedule_trace by blast
qed

lemma fill_pipe:
  "n + length xs \<le> cap \<Longrightarrow>
     \<exists>es. trace (pool_step cap) (at_rest p q n ys r) es (at_rest p q (n + length xs) (ys @ xs) r) \<and> no_failure es"
proof (induction xs arbitrary: n ys)
  case Nil
  then show ?case by (auto simp: no_failure_def intro!: exI [of _ "[]"] trace_Nil)
next
  case (Cons x xs)
  then have n: "n < cap" "Suc n + length xs \<le> cap" by auto
  from one_more_result [OF n(1), of p q ys r x] Cons.IH [OF n(2), of "ys @ [x]"] obtain es es' where
    "trace (pool_step cap) (at_rest p q n ys r) es (at_rest p q (Suc n) (ys @ [x]) r)" "no_failure es"
    "trace (pool_step cap) (at_rest p q (Suc n) (ys @ [x]) r) es' (at_rest p q (Suc n + length xs) ((ys @ [x]) @ xs) r)"
    "no_failure es'" by blast
  then show ?case by (intro exI [of _ "es @ es'"]) (auto intro: trace_append)
qed

lemma blocked_reachable:
  assumes "length xs = cap" "0 < cap"
  shows "\<exists>es s. trace (pool_step cap) (pool_init (Suc p) (Suc q)) es s \<and> no_failure es \<and>
    p_results s = xs @ [x, y] \<and> p_reader s = R_lock \<and> cap \<le> p_pipe s \<and> p_workers s ! 0 = W_write"
proof -
  obtain n where n: "cap = Suc n" using assms(2) by (cases cap) auto
  from fill_pipe [of 0 xs cap p q "[]" R_idle] assms(1) obtain es1 where
    1: "trace (pool_step cap) (at_rest p q 0 [] R_idle) es1 (at_rest p q cap xs R_idle)" "no_failure es1" by auto
  have "\<exists>es. schedule cap [Call_pop, Run_reader] (at_rest p q cap xs R_idle) = Some (es, at_rest p q n xs R_lock) \<and> no_failure es"
    by (simp add: at_rest_def schedule_simps no_failure_def n)
  then obtain es2 where 2: "trace (pool_step cap) (at_rest p q cap xs R_idle) es2 (at_rest p q n xs R_lock)" "no_failure es2"
    using schedule_trace by blast
  obtain es3 where 3: "trace (pool_step cap) (at_rest p q n xs R_lock) es3 (at_rest p q cap (xs @ [x]) R_lock)" "no_failure es3"
    using one_more_result [of n cap p q xs R_lock x] by (auto simp: n)
  have "\<exists>es s. schedule cap (job_acts y 5) (at_rest p q cap (xs @ [x]) R_lock) = Some (es, s) \<and> no_failure es \<and>
      p_results s = xs @ [x, y] \<and> p_reader s = R_lock \<and> cap \<le> p_pipe s \<and> p_workers s ! 0 = W_write"
    by (simp add: job_acts_def at_rest_def schedule_simps numeral_eq_Suc no_failure_def)
  then obtain es4 s where 4: "trace (pool_step cap) (at_rest p q cap (xs @ [x]) R_lock) es4 s" "no_failure es4"
    "p_results s = xs @ [x, y] \<and> p_reader s = R_lock \<and> cap \<le> p_pipe s \<and> p_workers s ! 0 = W_write"
    using schedule_trace by blast
  from trace_append [OF trace_append [OF trace_append [OF 1(1) 2(1)] 3(1)] 4(1)] 1(2) 2(2) 3(2) 4(2,3)
  show ?thesis by (intro exI [of _ "((es1 @ es2) @ es3) @ es4"] exI [of _ s]) (simp add: at_rest_init)
qed

text \<open>
  C4. The pool can block for ever when its pipe is full.  \<open>SelectableQueue::push\<close> writes its
  byte while it holds the mutex that \<open>pop\<close> takes after it has read a byte.  Whenever, in a pool of
  any number of threads with a pipe of any capacity, the pipe is full, a worker is at its write and
  the reader has taken its byte, then both stay where they are and the pipe stays full in every
  continuation in which no call fails, whatever is pushed: no result is stored or returned any more.
  And such a state is reached without any failure for every capacity, with two results more than
  the pipe has room for.
\<close>

theorem pool_can_deadlock:
  assumes "0 < cap" "0 < p" "0 < q" "length jobs = cap + 2"
  shows "(\<forall>es s v es' s'. trace (pool_step cap) (pool_init p q) es s \<longrightarrow> p_reader s = R_lock \<longrightarrow> cap \<le> p_pipe s \<longrightarrow>
      v < q \<longrightarrow> p_workers s ! v = W_write \<longrightarrow>
      trace (pool_step cap) s es' s' \<longrightarrow> Exit \<notin> set es' \<longrightarrow> Byte_lost \<notin> set es' \<longrightarrow>
        p_reader s' = R_lock \<and> p_workers s' ! v = W_write \<and> cap \<le> p_pipe s' \<and>
        concat (map popped es') = [] \<and> concat (map stored es') = []) \<and>
    (\<exists>es s. trace (pool_step cap) (pool_init p q) es s \<and> no_failure es \<and> p_results s = jobs \<and>
      p_reader s = R_lock \<and> cap \<le> p_pipe s \<and> p_workers s ! 0 = W_write)"
proof (intro conjI allI impI)
  have xs: "jobs = take cap jobs @ [jobs ! cap, jobs ! Suc cap]" "length (take cap jobs) = cap"
    using assms(4) by (auto intro!: nth_equalityI simp: nth_append nth_Cons less_Suc_eq split: nat.splits)
  obtain p' q' where "p = Suc p'" "q = Suc q'" using assms(2,3) by (metis Suc_pred)
  then show "\<exists>es s. trace (pool_step cap) (pool_init p q) es s \<and> no_failure es \<and> p_results s = jobs \<and>
      p_reader s = R_lock \<and> cap \<le> p_pipe s \<and> p_workers s ! 0 = W_write"
    using blocked_reachable [OF xs(2) assms(1), of p' q'] xs(1) by metis
next
  fix es s v es' s'
  assume s: "trace (pool_step cap) (pool_init p q) es s" "p_reader s = R_lock" "cap \<le> p_pipe s" "v < q"
    "p_workers s ! v = W_write" and cont: "trace (pool_step cap) s es' s'" "Exit \<notin> set es'" "Byte_lost \<notin> set es'"
  have "pool_locks s" using pool_inv_trace [OF s(1) pool_init_inv(1,2)] by blast
  moreover have "v < length (p_workers s)" using workers_trace [OF s(1)] s(4) by (simp add: pool_init_def)
  ultimately have "blocked_pair cap v s" using s(2,3,5) by (intro blocked_pairI)
  from blocked_pair_trace [OF cont(1) this cont(2,3)]
  show "p_reader s' = R_lock" "p_workers s' ! v = W_write" "cap \<le> p_pipe s'"
    "concat (map popped es') = []" "concat (map stored es') = []" by (auto simp: blocked_pair_def)
qed

theorem pool_can_deadlock_witness:
  "\<exists>es s. trace (pool_step 2) (pool_init 1 1) es s \<and> no_failure es \<and> p_results s = [1, 2, 3, 4::nat] \<and>
     p_reader s = R_lock \<and> p_workers s ! 0 = W_write"
  using pool_can_deadlock [of 2 1 1 "[1, 2, 3, 4::nat]"] by auto

section \<open>Starting and stopping\<close>

text \<open>
  \<open>start\<close> takes the results of \<open>pthread_create\<close>: \<open>None\<close> is an error, which is only reported.
  \<open>stop\<close> returns the threads it cancels; \<open>tids\<close> keeps them.
\<close>

record 'tid WorkerPool =
  wp_num_workers :: int
  wp_tids :: "'tid list"
  wp_started :: bool

definition WorkerPool_new :: "int \<Rightarrow> 'tid WorkerPool" where
  "WorkerPool_new garbage = \<lparr>wp_num_workers = garbage, wp_tids = [], wp_started = False\<rparr>"

definition WorkerPool_start :: "int \<Rightarrow> (nat \<Rightarrow> 'tid option) \<Rightarrow> 'tid WorkerPool \<Rightarrow> int \<times> 'tid WorkerPool" where
  "WorkerPool_start num create tp =
     (let tp = tp\<lparr>wp_num_workers := num\<rparr> in
      if wp_started tp then (0, tp)
      else (0, tp\<lparr>wp_tids := wp_tids tp @ List.map_filter create [0..<nat num], wp_started := True\<rparr>))"

definition WorkerPool_stop :: "'tid WorkerPool \<Rightarrow> int \<times> 'tid list \<times> 'tid WorkerPool" where
  "WorkerPool_stop tp = (0, wp_tids tp, tp\<lparr>wp_started := False\<rparr>)"

definition WorkerPool_delete :: "'tid WorkerPool \<Rightarrow> 'tid list" where
  "WorkerPool_delete tp = (if wp_started tp then fst (snd (WorkerPool_stop tp)) else [])"

text \<open>
  What the cancellation of a worker does at the two cancellation points where it can be blocked:
  the wait, which takes the mutex again before the thread ends, and the write.
\<close>

inductive cancel_step :: "'j pool \<Rightarrow> 'j event \<Rightarrow> 'j pool \<Rightarrow> bool" where
  in_wait: "w < length (p_workers s) \<Longrightarrow> p_workers s ! w = W_wait \<Longrightarrow> p_jobs_mutex s = None \<Longrightarrow>
     cancel_step s Tau (set_worker w W_dead (s\<lparr>p_jobs_mutex := Some (Worker w)\<rparr>))"
| in_write: "w < length (p_workers s) \<Longrightarrow> p_workers s ! w = W_write \<Longrightarrow>
     cancel_step s Tau (set_worker w W_dead s)"

definition dead_owner :: "nat \<Rightarrow> 'j pool \<Rightarrow> bool" where
  "dead_owner w s \<longleftrightarrow> p_jobs_mutex s = Some (Worker w) \<and> w < length (p_workers s) \<and> p_workers s ! w = W_dead \<and>
     P_unlock \<notin> set (p_producers s) \<and> (\<forall>pc \<in> set (p_workers s). \<not> in_jobs pc)"

lemma dead_owner_step:
  assumes "pool_step cap s e s' \<or> cancel_step s e s'" "dead_owner w s"
  shows "dead_owner w s' \<and> pushed e = [] \<and> taken e = []"
  using assms(1)
proof
  have d: "p_jobs_mutex s = Some (Worker w)" "w < length (p_workers s)" "p_workers s ! w = W_dead"
    "P_unlock \<notin> set (p_producers s)" "\<And>v. v < length (p_workers s) \<Longrightarrow> \<not> in_jobs (p_workers s ! v)"
    "\<And>i. i < length (p_producers s) \<Longrightarrow> p_producers s ! i \<noteq> P_unlock"
    "\<forall>pc \<in> set (p_workers s). \<not> in_jobs pc"
    using assms(2) by (auto simp: dead_owner_def dest: nth_mem)
  {
    assume "pool_step cap s e s'"
    then show ?thesis
    proof (cases rule: pool_step_cases)
      case (producer out sig i)
      from producer(2) d(1-4,7) d(6) [OF producer(1)] show ?thesis
        by (cases rule: producer_stepE)
          (auto simp: dead_owner_def nth_list_update dest: set_update_subset_insert [THEN subsetD])
    next
      case (worker out v)
      from worker(2,1) d(1-4,7) d(5) [OF worker(1)] show ?thesis
        by (cases rule: worker_stepE)
          (auto simp: dead_owner_def nth_list_update dest!: set_update_subset_insert [THEN subsetD])
    next
      case (reader out)
      from reader d show ?thesis by (cases rule: reader_stepE) (auto simp: dead_owner_def)
    qed (use d in \<open>auto simp: dead_owner_def nth_list_update dest!: set_update_subset_insert [THEN subsetD]\<close>)
  }
  {
    assume "cancel_step s e s'"
    then show ?thesis using d
      by cases (auto simp: dead_owner_def nth_list_update dest!: set_update_subset_insert [THEN subsetD])
  }
qed

lemma dead_owner_trace:
  "trace (\<lambda>s e s'. pool_step cap s e s' \<or> cancel_step s e s') s es s' \<Longrightarrow> dead_owner w s \<Longrightarrow>
     dead_owner w s' \<and> concat (map pushed es) = [] \<and> concat (map taken es) = []"
proof (induction rule: trace.induct)
  case (trace_snoc s es s' e s'')
  then show ?case using dead_owner_step [of cap s' e s'' w] by auto
qed simp

lemma cancel_dead_owner:
  assumes "pool_locks s" "w < length (p_workers s)" "p_workers s ! w = W_wait" "p_jobs_mutex s = None"
  shows "dead_owner w (set_worker w W_dead (s\<lparr>p_jobs_mutex := Some (Worker w)\<rparr>))"
proof -
  have free: "\<not> jobs_section s t" for t using assms(1,4) by (simp add: pool_locks_def mutex_ok_def)
  have "P_unlock \<notin> set (p_producers s)"
    using free in_section(1) by (metis in_set_conv_nth)
  moreover have "\<forall>pc \<in> set (p_workers s). \<not> in_jobs pc"
    using free in_section(2) by (metis in_set_conv_nth)
  ultimately show ?thesis
    using assms(2) by (auto simp: dead_owner_def dest!: set_update_subset_insert [THEN subsetD])
qed

text \<open>
  A pool that has been stopped cannot be used again.  \<open>stop\<close> cancels the workers, and a
  worker that is cancelled while it waits for a job ends with the mutex of the job queue locked,
  since nothing unlocks it: from then on, whatever threads do, no \<open>push\<close> is accepted and no
  job is taken.
\<close>

theorem stop_blocks_pool:
  assumes "trace (pool_step cap) (pool_init p n) es s"
    "w < length (p_workers s)" "p_workers s ! w = W_wait" "p_jobs_mutex s = None"
  shows "\<exists>s1. cancel_step s Tau s1 \<and>
    (\<forall>es' s'. trace (\<lambda>s e s'. pool_step cap s e s' \<or> cancel_step s e s') s1 es' s' \<longrightarrow>
       p_jobs_mutex s' = Some (Worker w) \<and> concat (map pushed es') = [] \<and> concat (map taken es') = [])"
proof -
  have locks: "pool_locks s" using pool_inv_trace [OF assms(1) pool_init_inv(1,2)] by simp
  show ?thesis
    using in_wait [OF assms(2-4)] dead_owner_trace [OF _ cancel_dead_owner [OF locks assms(2-4)]]
    by (auto simp: dead_owner_def)
qed

theorem stop_blocks_pool_witness:
  "\<exists>s1. cancel_step (one_job_state\<lparr>p_reader := R_read, p_workers := [W_wait]\<rparr>) Tau s1 \<and>
     p_jobs_mutex s1 = Some (Worker 0)"
proof -
  have "trace (pool_step 1) (pool_init 1 1) (one_job_events @ [Tau, Tau, Tau])
      (one_job_state\<lparr>p_reader := R_read, p_workers := [W_wait]\<rparr>)"
    by (rule trace_append [OF schedule_trace [OF one_job_run] run_traces_pool [OF one_job_quiet]])
  from stop_blocks_pool [OF this, of 0] trace_Nil show ?thesis
    by (force simp: one_job_state_def pool_init_def)
qed

text \<open>
  \<open>stop\<close> keeps the thread ids it has cancelled: after a second \<open>start\<close> and \<open>stop\<close> the
  threads of the first generation are cancelled again, although they have ended.  \<open>start\<close>
  reports success even when no thread could be created, and overwrites the number of workers of
  a running pool.
\<close>

theorem restart_cancels_twice:
  "WorkerPool_start a c1 (WorkerPool_new g) = (0, tp1) \<and> WorkerPool_stop tp1 = (0, ids1, tp2) \<and>
   WorkerPool_start b c2 tp2 = (0, tp3) \<and> WorkerPool_stop tp3 = (0, ids2, tp4) \<longrightarrow>
   ids2 = ids1 @ List.map_filter c2 [0..<nat b] \<and>
   WorkerPool_start k c3 tp3 = (0, tp3\<lparr>wp_num_workers := k\<rparr>)"
  by (auto simp: WorkerPool_start_def WorkerPool_stop_def WorkerPool_new_def Let_def)

end
