(* ===== verification/Work_Queue.thy ===== *)
theory Work_Queue
  imports Thread_Queue
begin

text \<open>
  The intrusive queue of cnm/util/queue.h and the thread pool of cnm/util/threadpool.c that is
  built on it.  The queue is a ring of links in a heap, with a sentinel; the macros are written
  out as the loads and stores they expand to, \<^term>\<open>None\<close> being an access to memory that is not
  allocated.  The pool is a state machine over its threads, as in \<open>Thread_Queue\<close>: submitters run
  \<open>ae_work_submit\<close>, the workers run \<open>worker\<close>.
\<close>

section \<open>The macros\<close>

record ngx_queue_t =
  q_prev :: nat
  q_next :: nat

type_synonym qheap = "nat \<rightharpoonup> ngx_queue_t"

definition get_prev :: "nat \<Rightarrow> qheap \<Rightarrow> nat option" where
  "get_prev a hp = map_option q_prev (hp a)"

definition get_next :: "nat \<Rightarrow> qheap \<Rightarrow> nat option" where
  "get_next a hp = map_option q_next (hp a)"

definition set_prev :: "nat \<Rightarrow> nat \<Rightarrow> qheap \<Rightarrow> qheap option" where
  "set_prev a v hp = map_option (\<lambda>nd. hp(a \<mapsto> nd\<lparr>q_prev := v\<rparr>)) (hp a)"

definition set_next :: "nat \<Rightarrow> nat \<Rightarrow> qheap \<Rightarrow> qheap option" where
  "set_next a v hp = map_option (\<lambda>nd. hp(a \<mapsto> nd\<lparr>q_next := v\<rparr>)) (hp a)"

definition ngx_queue_init :: "nat \<Rightarrow> qheap \<Rightarrow> qheap option" where
  "ngx_queue_init q hp = do { hp \<leftarrow> set_prev q q hp; set_next q q hp }"

definition ngx_queue_empty :: "nat \<Rightarrow> qheap \<Rightarrow> bool option" where
  "ngx_queue_empty h hp = do { p \<leftarrow> get_prev h hp; Some (h = p) }"

definition ngx_queue_insert_head :: "nat \<Rightarrow> nat \<Rightarrow> qheap \<Rightarrow> qheap option" where
  "ngx_queue_insert_head h x hp = do {
     n \<leftarrow> get_next h hp;
     hp \<leftarrow> set_next x n hp;
     n \<leftarrow> get_next x hp;
     hp \<leftarrow> set_prev n x hp;
     hp \<leftarrow> set_prev x h hp;
     set_next h x hp }"

definition ngx_queue_insert_tail :: "nat \<Rightarrow> nat \<Rightarrow> qheap \<Rightarrow> qheap option" where
  "ngx_queue_insert_tail h x hp = do {
     p \<leftarrow> get_prev h hp;
     hp \<leftarrow> set_prev x p hp;
     p \<leftarrow> get_prev x hp;
     hp \<leftarrow> set_next p x hp;
     hp \<leftarrow> set_next x h hp;
     set_prev h x hp }"

definition ngx_queue_head :: "nat \<Rightarrow> qheap \<Rightarrow> nat option" where
  "ngx_queue_head h hp = get_next h hp"

definition ngx_queue_last :: "nat \<Rightarrow> qheap \<Rightarrow> nat option" where
  "ngx_queue_last h hp = get_prev h hp"

definition ngx_queue_remove :: "nat \<Rightarrow> qheap \<Rightarrow> qheap option" where
  "ngx_queue_remove x hp = do {
     n \<leftarrow> get_next x hp;
     p \<leftarrow> get_prev x hp;
     hp \<leftarrow> set_prev n p hp;
     p \<leftarrow> get_prev x hp;
     n \<leftarrow> get_next x hp;
     set_next p n hp }"

definition ngx_queue_split :: "nat \<Rightarrow> nat \<Rightarrow> nat \<Rightarrow> qheap \<Rightarrow> qheap option" where
  "ngx_queue_split h q n hp = do {
     p \<leftarrow> get_prev h hp;
     hp \<leftarrow> set_prev n p hp;
     p \<leftarrow> get_prev n hp;
     hp \<leftarrow> set_next p n hp;
     hp \<leftarrow> set_next n q hp;
     p \<leftarrow> get_prev q hp;
     hp \<leftarrow> set_prev h p hp;
     p \<leftarrow> get_prev h hp;
     hp \<leftarrow> set_next p h hp;
     set_prev q n hp }"

definition ngx_queue_add :: "nat \<Rightarrow> nat \<Rightarrow> qheap \<Rightarrow> qheap option" where
  "ngx_queue_add h n hp = do {
     p \<leftarrow> get_prev h hp;
     x \<leftarrow> get_next n hp;
     hp \<leftarrow> set_next p x hp;
     x \<leftarrow> get_next n hp;
     p \<leftarrow> get_prev h hp;
     hp \<leftarrow> set_prev x p hp;
     l \<leftarrow> get_prev n hp;
     hp \<leftarrow> set_prev h l hp;
     p \<leftarrow> get_prev h hp;
     set_next p h hp }"

section \<open>Rings\<close>

text \<open>Links in both directions from \<open>a\<close> through the nodes of a list to \<open>b\<close>; a ring is a chain back to the sentinel.\<close>

fun chain :: "qheap \<Rightarrow> nat \<Rightarrow> nat list \<Rightarrow> nat \<Rightarrow> bool" where
  "chain hp a [] b \<longleftrightarrow> get_next a hp = Some b \<and> get_prev b hp = Some a"
| "chain hp a (x # xs) b \<longleftrightarrow> get_next a hp = Some x \<and> get_prev x hp = Some a \<and> chain hp x xs b"

definition ring :: "qheap \<Rightarrow> nat \<Rightarrow> nat list \<Rightarrow> bool" where
  "ring hp h xs \<longleftrightarrow> chain hp h xs h \<and> distinct (h # xs)"

text \<open>A store to allocated memory, and the loads after it.\<close>

definition put_next :: "nat \<Rightarrow> nat \<Rightarrow> qheap \<Rightarrow> qheap" where
  "put_next a v hp = hp(a \<mapsto> (the (hp a))\<lparr>q_next := v\<rparr>)"

definition put_prev :: "nat \<Rightarrow> nat \<Rightarrow> qheap \<Rightarrow> qheap" where
  "put_prev a v hp = hp(a \<mapsto> (the (hp a))\<lparr>q_prev := v\<rparr>)"

lemma put_simps [simp]:
  "a \<in> dom hp \<Longrightarrow> set_next a v hp = Some (put_next a v hp)"
  "a \<in> dom hp \<Longrightarrow> set_prev a v hp = Some (put_prev a v hp)"
  "a \<in> dom hp \<Longrightarrow> dom (put_next a v hp) = dom hp"
  "a \<in> dom hp \<Longrightarrow> dom (put_prev a v hp) = dom hp"
  "get_next b (put_next a v hp) = (if b = a then Some v else get_next b hp)"
  "get_prev b (put_prev a v hp) = (if b = a then Some v else get_prev b hp)"
  "a \<in> dom hp \<Longrightarrow> get_prev b (put_next a v hp) = get_prev b hp"
  "a \<in> dom hp \<Longrightarrow> get_next b (put_prev a v hp) = get_next b hp"
  "put_next a v hp b = (if b = a then Some ((the (hp a))\<lparr>q_next := v\<rparr>) else hp b)"
  "put_prev a v hp b = (if b = a then Some ((the (hp a))\<lparr>q_prev := v\<rparr>) else hp b)"
  by (auto simp: set_next_def set_prev_def put_next_def put_prev_def get_next_def get_prev_def)

lemma get_alloc: "get_next a hp = Some b \<Longrightarrow> a \<in> dom hp" "get_prev a hp = Some b \<Longrightarrow> a \<in> dom hp"
  by (auto simp: get_next_def get_prev_def)

lemma chain_append: "chain hp a (xs @ y # ys) b \<longleftrightarrow> chain hp a xs y \<and> chain hp y ys b"
  by (induction xs arbitrary: a) auto

lemma chain_cong:
  "(\<And>x. x \<in> set (a # xs) \<Longrightarrow> get_next x hp' = get_next x hp) \<Longrightarrow>
   (\<And>x. x \<in> set (xs @ [b]) \<Longrightarrow> get_prev x hp' = get_prev x hp) \<Longrightarrow> chain hp' a xs b = chain hp a xs b"
  by (induction xs arbitrary: a) auto

lemma chain_alloc: "chain hp a xs b \<Longrightarrow> x \<in> set (a # xs @ [b]) \<Longrightarrow> x \<in> dom hp"
  by (induction xs arbitrary: a) (auto dest!: get_alloc)

text \<open>The two ends of a chain, and what changing them does.\<close>

lemma chain_ends:
  "chain hp a xs b \<Longrightarrow> get_next a hp = Some (hd (xs @ [b])) \<and> get_prev b hp = Some (last (a # xs))"
  by (induction xs arbitrary: a) auto

lemma ring_empty_iff: "ring hp h xs \<Longrightarrow> ngx_queue_empty h hp = Some (xs = [])"
proof -
  assume r: "ring hp h xs"
  then have "get_prev h hp = Some (last (h # xs))" "h \<notin> set xs" using chain_ends [of hp h xs h] by (auto simp: ring_def)
  then show ?thesis using last_in_set [of xs] by (auto simp: ngx_queue_empty_def)
qed

lemma ring_ends:
  assumes "ring hp h xs"
  shows "ngx_queue_head h hp = Some (hd (xs @ [h]))" "ngx_queue_last h hp = Some (last (h # xs))"
  using chain_ends [of hp h xs h] assms by (auto simp: ring_def ngx_queue_head_def ngx_queue_last_def)

lemma ring_init: "q \<in> dom hp \<Longrightarrow> \<exists>hp'. ngx_queue_init q hp = Some hp' \<and> ring hp' q [] \<and> dom hp' = dom hp"
  by (auto simp: ngx_queue_init_def ring_def)

lemma chain_retarget:
  assumes "chain hp a xs b" "distinct (a # xs)"
    "\<And>y. y \<in> set (a # xs) \<Longrightarrow> y \<noteq> last (a # xs) \<Longrightarrow> get_next y hp' = get_next y hp"
    "\<And>y. y \<in> set xs \<Longrightarrow> get_prev y hp' = get_prev y hp"
    "get_next (last (a # xs)) hp' = Some c" "get_prev c hp' = Some (last (a # xs))"
  shows "chain hp' a xs c"
  using assms
proof (induction xs arbitrary: a)
  case (Cons x xs)
  have "a \<noteq> last (x # xs)" using Cons.prems(2) last_in_set [of "x # xs"] by (metis distinct.simps(2) list.discI)
  then have "get_next a hp' = Some x" "get_prev x hp' = Some a" using Cons.prems(1,3,4) by auto
  moreover have "chain hp' x xs c"
    by (rule Cons.IH) (use Cons.prems in auto)
  ultimately show ?case by simp
qed simp

lemma ring_alloc: "ring hp h xs \<Longrightarrow> x \<in> set (h # xs) \<Longrightarrow> x \<in> dom hp"
  using chain_alloc [of hp h xs h x] by (auto simp: ring_def)

lemma ring_frame: "ring hp h xs \<Longrightarrow> (\<And>y. y \<in> set (h # xs) \<Longrightarrow> hp' y = hp y) \<Longrightarrow> ring hp' h xs"
  using chain_cong [of h xs hp' hp h] by (auto simp: ring_def get_next_def get_prev_def)

lemma ring_insert_tail:
  assumes "ring hp h xs" "x \<in> dom hp" "x \<notin> set (h # xs)"
  shows "\<exists>hp'. ngx_queue_insert_tail h x hp = Some hp' \<and> ring hp' h (xs @ [x]) \<and> dom hp' = dom hp \<and>
    (\<forall>y. y \<notin> set (h # x # xs) \<longrightarrow> hp' y = hp y)"
proof -
  define l where "l = last (h # xs)"
  have l: "get_prev h hp = Some l" "l \<in> set (h # xs)"
    using chain_ends [of hp h xs h] assms(1) by (auto simp: ring_def l_def)
  have al: "h \<in> dom hp" "l \<in> dom hp" using ring_alloc [OF assms(1)] l(2) by auto
  have x: "x \<noteq> h" "x \<noteq> l" using assms(3) l(2) by auto
  define hp' where "hp' = put_prev h x (put_next x h (put_next l x (put_prev x l hp)))"
  have "ngx_queue_insert_tail h x hp = Some hp'"
    using l(1) al assms(2) x by (simp add: ngx_queue_insert_tail_def hp'_def)
  moreover have get: "get_next y hp' = (if y = x then Some h else if y = l then Some x else get_next y hp)"
    "get_prev y hp' = (if y = h then Some x else if y = x then Some l else get_prev y hp)" for y
    using x al assms(2) by (simp_all add: hp'_def)
  have "chain hp' h xs x"
    by (rule chain_retarget [of hp h xs h]) (use assms(1,3) x in \<open>auto simp: ring_def get l_def\<close>)
  then have "ring hp' h (xs @ [x])" using assms(1,3) x by (auto simp: ring_def chain_append get)
  moreover have "dom hp' = dom hp" "\<forall>y. y \<notin> set (h # x # xs) \<longrightarrow> hp' y = hp y"
    using al assms(2) l(2) by (auto simp: hp'_def)
  ultimately show ?thesis by blast
qed

lemma ring_remove:
  assumes "ring hp h (as @ x # bs)"
  shows "\<exists>hp'. ngx_queue_remove x hp = Some hp' \<and> ring hp' h (as @ bs) \<and> dom hp' = dom hp \<and>
    (\<forall>y. y \<notin> set (h # as @ bs) \<longrightarrow> hp' y = hp y)"
proof -
  define p n where "p = last (h # as)" and "n = hd (bs @ [h])"
  have c: "chain hp h as x" "chain hp x bs h" and d: "distinct (h # as @ x # bs)"
    using assms by (auto simp: ring_def chain_append)
  have x: "get_prev x hp = Some p" "get_next x hp = Some n"
    using chain_ends [OF c(1)] chain_ends [OF c(2)] by (auto simp: p_def n_def)
  have pn: "p \<in> set (h # as)" "n \<in> set (h # bs)" by (auto simp: p_def n_def hd_append)
  then have ne: "p \<noteq> x" "n \<noteq> x" using d by auto
  have al: "p \<in> dom hp" "n \<in> dom hp" "x \<in> dom hp" using ring_alloc [OF assms] pn by auto
  define hp' where "hp' = put_next p n (put_prev n p hp)"
  have "ngx_queue_remove x hp = Some hp'" using x al ne by (simp add: ngx_queue_remove_def hp'_def)
  moreover have get: "get_next y hp' = (if y = p then Some n else get_next y hp)"
    "get_prev y hp' = (if y = n then Some p else get_prev y hp)" for y
    using al by (simp_all add: hp'_def)
  have n_as: "n \<notin> set as" using pn(2) d by auto
  have as: "chain hp' h as n"
    by (rule chain_retarget [OF c(1)]) (use d n_as in \<open>auto simp: get p_def\<close>)
  have "chain hp' h (as @ bs) h"
  proof (cases bs)
    case Nil
    then show ?thesis using as by (simp add: n_def)
  next
    case (Cons y ys)
    have "chain hp' y ys h = chain hp y ys h"
      by (rule chain_cong) (use d pn(1) Cons in \<open>auto simp: get n_def\<close>)
    then show ?thesis using as c(2) Cons by (simp add: n_def chain_append)
  qed
  then have "ring hp' h (as @ bs)" using d by (auto simp: ring_def)
  moreover have "dom hp' = dom hp" "\<forall>y. y \<notin> set (h # as @ bs) \<longrightarrow> hp' y = hp y"
    using al pn by (auto simp: hp'_def)
  ultimately show ?thesis by blast
qed

lemma ring_insert_head:
  assumes "ring hp h xs" "x \<in> dom hp" "x \<notin> set (h # xs)"
  shows "\<exists>hp'. ngx_queue_insert_head h x hp = Some hp' \<and> ring hp' h (x # xs)"
proof -
  define n where "n = hd (xs @ [h])"
  have n: "get_next h hp = Some n" "n \<in> set (h # xs)"
    using chain_ends [of hp h xs h] assms(1) by (auto simp: ring_def n_def hd_append)
  have al: "h \<in> dom hp" "n \<in> dom hp" using ring_alloc [OF assms(1)] n(2) by auto
  have x: "x \<noteq> h" "x \<noteq> n" using assms(3) n(2) by auto
  define hp' where "hp' = put_next h x (put_prev x h (put_prev n x (put_next x n hp)))"
  have "ngx_queue_insert_head h x hp = Some hp'"
    using n(1) al assms(2) x by (simp add: ngx_queue_insert_head_def hp'_def)
  moreover have get: "get_next y hp' = (if y = h then Some x else if y = x then Some n else get_next y hp)"
    "get_prev y hp' = (if y = x then Some h else if y = n then Some x else get_prev y hp)" for y
    using x al assms(2) by (simp_all add: hp'_def)
  have "chain hp' x xs h"
  proof (cases xs)
    case Nil
    then show ?thesis using x by (simp add: get n_def)
  next
    case (Cons y ys)
    have "chain hp' y ys h = chain hp y ys h"
      by (rule chain_cong) (use assms(1,3) Cons in \<open>auto simp: ring_def get n_def\<close>)
    then show ?thesis using assms(1,3) Cons by (auto simp: ring_def get n_def)
  qed
  then have "ring hp' h (x # xs)" using assms(1,3) by (auto simp: ring_def get)
  ultimately show ?thesis by blast
qed

text \<open>\<open>split\<close> moves the tail that begins with \<open>q\<close> behind a second sentinel.\<close>

lemma ring_split:
  assumes "ring hp h (as @ q # bs)" "n \<in> dom hp" "n \<notin> set (h # as @ q # bs)"
  shows "\<exists>hp'. ngx_queue_split h q n hp = Some hp' \<and> ring hp' h as \<and> ring hp' n (q # bs)"
proof -
  define l p where "l = last (q # bs)" and "p = last (h # as)"
  have c: "chain hp h as q" "chain hp q bs h" and d: "distinct (h # as @ q # bs)"
    using assms(1) by (auto simp: ring_def chain_append)
  have e: "get_prev h hp = Some l" "get_prev q hp = Some p"
    using chain_ends [OF c(1)] chain_ends [OF c(2)] by (auto simp: p_def l_def)
  have lp: "l \<in> set (q # bs)" "p \<in> set (h # as)" by (auto simp: l_def p_def)
  have ne: "n \<noteq> h" "n \<noteq> q" "n \<noteq> l" "n \<noteq> p" "l \<noteq> h" "l \<noteq> p" "q \<noteq> h" "q \<noteq> p" using assms(3) lp d by auto
  have al: "h \<in> dom hp" "q \<in> dom hp" "l \<in> dom hp" "p \<in> dom hp" using ring_alloc [OF assms(1)] lp by auto
  define hp' where "hp' = put_prev q n (put_next p h (put_prev h p (put_next n q (put_next l n (put_prev n l hp)))))"
  have "ngx_queue_split h q n hp = Some hp'"
    using e al assms(2) ne by (simp add: ngx_queue_split_def hp'_def)
  moreover have get: "get_next y hp' = (if y = p then Some h else if y = n then Some q else if y = l then Some n else get_next y hp)"
    "get_prev y hp' = (if y = q then Some n else if y = h then Some p else if y = n then Some l else get_prev y hp)" for y
    using al assms(2) by (simp_all add: hp'_def)
  have "chain hp' h as h"
    by (rule chain_retarget [OF c(1)], unfold p_def [symmetric]) (use d assms(3) lp ne in \<open>auto simp: get\<close>)
  moreover have "chain hp' q bs n"
    by (rule chain_retarget [OF c(2)], unfold l_def [symmetric]) (use d assms(3) lp ne in \<open>auto simp: get\<close>)
  ultimately show ?thesis using \<open>ngx_queue_split h q n hp = Some hp'\<close> d assms(3) ne by (auto simp: ring_def get)
qed

text \<open>\<open>add\<close> appends the nodes behind one sentinel to those behind another.\<close>

lemma ring_add:
  assumes "ring hp h as" "ring hp n bs" "set (h # as) \<inter> set (n # bs) = {}"
  shows "\<exists>hp'. ngx_queue_add h n hp = Some hp' \<and> ring hp' h (as @ bs)"
proof -
  define p x l where "p = last (h # as)" and "x = hd (bs @ [n])" and "l = (if bs = [] then p else last bs)"
  have c: "chain hp h as h" "chain hp n bs n" and d: "distinct (h # as)" "distinct (n # bs)"
    using assms(1,2) by (auto simp: ring_def)
  have e: "get_prev h hp = Some p" "get_next n hp = Some x" "get_prev n hp = Some (last (n # bs))"
    using chain_ends [OF c(1)] chain_ends [OF c(2)] by (auto simp: p_def x_def)
  have px: "p \<in> set (h # as)" "x \<in> set (n # bs)" "l \<in> insert p (set bs)" by (auto simp: p_def x_def l_def hd_append)
  have ne: "n \<noteq> h" "n \<noteq> p" "x \<noteq> h" "x \<noteq> p" "p \<notin> set bs" "h \<notin> set bs" using assms(3) px by auto
  have al: "h \<in> dom hp" "p \<in> dom hp" "n \<in> dom hp" "x \<in> dom hp" "l \<in> dom hp"
    using ring_alloc [OF assms(1)] ring_alloc [OF assms(2)] px by auto
  have xn: "x = n \<longleftrightarrow> bs = []" using d(2) by (cases bs) (auto simp: x_def)
  define hp' where "hp' = put_next l h (put_prev h l (put_prev x p (put_next p x hp)))"
  have "ngx_queue_add h n hp = Some hp'"
    using e al ne xn by (cases "bs = []") (simp_all add: ngx_queue_add_def hp'_def l_def)
  moreover have get: "get_next y hp' = (if y = l then Some h else if y = p then Some x else get_next y hp)"
    "get_prev y hp' = (if y = h then Some l else if y = x then Some p else get_prev y hp)" for y
    using al by (simp_all add: hp'_def)
  have "chain hp' h (as @ bs) h"
  proof (cases bs)
    case Nil
    have "chain hp' h as h"
      by (rule chain_retarget [OF c(1)], unfold p_def [symmetric]) (use d assms(3) Nil ne xn in \<open>auto simp: get l_def\<close>)
    then show ?thesis using Nil by simp
  next
    case (Cons y ys)
    have "chain hp' h as y"
      by (rule chain_retarget [OF c(1)], unfold p_def [symmetric])
        (use d assms(3) Cons px ne in \<open>auto simp: get x_def l_def split: if_splits\<close>)
    moreover have "chain hp' y ys h"
      by (rule chain_retarget [of hp y ys n]) (use c(2) d assms(3) Cons px ne in \<open>auto simp: get x_def l_def\<close>)
    ultimately show ?thesis using Cons by (simp add: chain_append)
  qed
  then show ?thesis using \<open>ngx_queue_add h n hp = Some hp'\<close> d assms(3) by (auto simp: ring_def)
qed

section \<open>Properties\<close>

text \<open>
  C1. The macros of cnm/util/queue.h implement the operations of a list.  On a ring through any
  nodes, \<open>ngx_queue_empty\<close>, \<open>ngx_queue_head\<close> and \<open>ngx_queue_last\<close> answer for the list of the nodes
  (the ends of an empty queue are its sentinel); a node outside the ring is inserted at either
  end; any node of the ring is removed from its middle; the ring is cut before any of its nodes,
  the rest going behind a fresh sentinel; and \<open>ngx_queue_add\<close> appends a disjoint ring.  Every
  access is to allocated memory and what is left is a ring again.
\<close>

theorem queue_macros_refine_lists:
  assumes "ring hp h xs"
  shows "ngx_queue_empty h hp = Some (xs = []) \<and>
    ngx_queue_head h hp = Some (hd (xs @ [h])) \<and> ngx_queue_last h hp = Some (last (h # xs)) \<and>
    (\<forall>x \<in> dom hp - set (h # xs).
       (\<exists>hp'. ngx_queue_insert_head h x hp = Some hp' \<and> ring hp' h (x # xs)) \<and>
       (\<exists>hp'. ngx_queue_insert_tail h x hp = Some hp' \<and> ring hp' h (xs @ [x]))) \<and>
    (\<forall>as x bs. xs = as @ x # bs \<longrightarrow>
       (\<exists>hp'. ngx_queue_remove x hp = Some hp' \<and> ring hp' h (as @ bs)) \<and>
       (\<forall>n \<in> dom hp - set (h # xs).
          \<exists>hp'. ngx_queue_split h x n hp = Some hp' \<and> ring hp' h as \<and> ring hp' n (x # bs))) \<and>
    (\<forall>n ys. ring hp n ys \<and> set (h # xs) \<inter> set (n # ys) = {} \<longrightarrow>
       (\<exists>hp'. ngx_queue_add h n hp = Some hp' \<and> ring hp' h (xs @ ys)))"
proof (intro conjI ballI allI impI)
  fix x assume x: "x \<in> dom hp - set (h # xs)"
  show "\<exists>hp'. ngx_queue_insert_head h x hp = Some hp' \<and> ring hp' h (x # xs)"
    using ring_insert_head [OF assms] x by blast
  show "\<exists>hp'. ngx_queue_insert_tail h x hp = Some hp' \<and> ring hp' h (xs @ [x])"
    using ring_insert_tail [OF assms] x by blast
next
  fix as x bs assume xs: "xs = as @ x # bs"
  show "\<exists>hp'. ngx_queue_remove x hp = Some hp' \<and> ring hp' h (as @ bs)"
    using ring_remove assms unfolding xs by blast
  fix n assume "n \<in> dom hp - set (h # xs)"
  then show "\<exists>hp'. ngx_queue_split h x n hp = Some hp' \<and> ring hp' h as \<and> ring hp' n (x # bs)"
    using ring_split [of hp h as x bs n] assms unfolding xs by blast
next
  fix n ys assume "ring hp n ys \<and> set (h # xs) \<inter> set (n # ys) = {}"
  then show "\<exists>hp'. ngx_queue_add h n hp = Some hp' \<and> ring hp' h (xs @ ys)"
    using ring_add [OF assms] by blast
qed (use ring_empty_iff [OF assms] ring_ends [OF assms] in auto)

definition three_links :: qheap where
  "three_links = [10 \<mapsto> \<lparr>q_prev = 30, q_next = 20\<rparr>, 20 \<mapsto> \<lparr>q_prev = 10, q_next = 30\<rparr>,
     30 \<mapsto> \<lparr>q_prev = 20, q_next = 10\<rparr>, 40 \<mapsto> \<lparr>q_prev = 0, q_next = 0\<rparr>]"

theorem queue_macros_refine_lists_witness:
  "(\<exists>hp'. ngx_queue_insert_tail 10 40 three_links = Some hp' \<and> ring hp' 10 [20, 30, 40]) \<and>
   (\<exists>hp'. ngx_queue_remove 20 three_links = Some hp' \<and> ring hp' 10 [30])"
proof -
  have ring: "ring three_links 10 [20, 30]"
    by (simp add: ring_def get_next_def get_prev_def three_links_def)
  have "40 \<in> dom three_links - set [10, 20, 30]" by (simp add: three_links_def)
  then show ?thesis using queue_macros_refine_lists [OF ring] by fastforce
qed

end
