(* ===== verification/Work_Pool.thy ===== *)
theory Work_Pool
  imports Work_Queue
begin

text \<open>
  The thread pool of cnm/util/threadpool.c: four workers take the work items that
  \<open>ae_work_submit\<close> links into the ring \<open>wq\<close>.  As in \<open>Thread_Queue\<close> a thread runs alone between two
  synchronisation points; here all of them are uses of one mutex and one condition, and unlike
  \<open>Queue::push\<close> the submitter signals while it holds the mutex, and only when it has counted an
  idle worker.  An access to memory that is not allocated is the event \<open>Fault\<close>.
\<close>

section \<open>The pool\<close>

text \<open>
  \<open>worker\<close>: before the lock, at the test of the loop, asleep in the wait, woken and about to
  lock again, with an item before the unlock, before the call of its \<open>work\<close> function.
  \<open>ae_work_submit\<close>: before the lock, before the signal, before the unlock.
\<close>

datatype tpc = T_lock | T_check | T_wait | T_woken | T_unlock nat | T_work nat

datatype spc = S_idle | S_lock nat | S_signal | S_unlock

record threadpool =
  tp_heap :: qheap
  tp_mutex :: "thread option"
  idle_threads :: "32 word"
  tp_workers :: "tpc list"
  tp_submitters :: "spc list"

datatype work_event = Silent | Submit nat | Grab nat nat | Run nat nat | Fault

definition wq :: nat where
  "wq = 0"

definition set_tpc :: "nat \<Rightarrow> tpc \<Rightarrow> threadpool \<Rightarrow> threadpool" where
  "set_tpc t pc s = s\<lparr>tp_workers := (tp_workers s)[t := pc]\<rparr>"

definition set_spc :: "nat \<Rightarrow> spc \<Rightarrow> threadpool \<Rightarrow> threadpool" where
  "set_spc i pc s = s\<lparr>tp_submitters := (tp_submitters s)[i := pc]\<rparr>"

text \<open>\<open>q = ngx_queue_head(&wq)\<close>, and \<open>ngx_queue_remove\<close> of the link inside the item that contains \<open>q\<close>.\<close>

definition take_work :: "qheap \<Rightarrow> (nat \<times> qheap) option" where
  "take_work hp = do { q \<leftarrow> ngx_queue_head wq hp; hp \<leftarrow> ngx_queue_remove q hp; Some (q, hp) }"

fun worker_run :: "nat \<Rightarrow> tpc \<Rightarrow> threadpool \<Rightarrow> (work_event \<times> threadpool) option" where
  "worker_run t T_lock s =
     (if tp_mutex s \<noteq> None then None
      else Some (Silent, set_tpc t T_check (s\<lparr>tp_mutex := Some (Worker t)\<rparr>)))"
| "worker_run t T_check s =
     (case ngx_queue_empty wq (tp_heap s) of
        None \<Rightarrow> Some (Fault, s)
      | Some True \<Rightarrow> Some (Silent, set_tpc t T_wait (s\<lparr>idle_threads := idle_threads s + 1, tp_mutex := None\<rparr>))
      | Some False \<Rightarrow> (case take_work (tp_heap s) of
          None \<Rightarrow> Some (Fault, s)
        | Some (q, hp) \<Rightarrow> Some (Grab t q, set_tpc t (T_unlock q) (s\<lparr>tp_heap := hp\<rparr>))))"
| "worker_run t T_wait s = None"
| "worker_run t T_woken s =
     (if tp_mutex s \<noteq> None then None
      else Some (Silent, set_tpc t T_check (s\<lparr>tp_mutex := Some (Worker t), idle_threads := idle_threads s - 1\<rparr>)))"
| "worker_run t (T_unlock q) s = Some (Silent, set_tpc t (T_work q) (s\<lparr>tp_mutex := None\<rparr>))"
| "worker_run t (T_work q) s = Some (Run t q, set_tpc t T_lock s)"

fun ae_work_submit :: "nat option \<Rightarrow> nat \<Rightarrow> spc \<Rightarrow> threadpool \<Rightarrow> (work_event \<times> threadpool) option" where
  "ae_work_submit sig i (S_lock w) s =
     (if tp_mutex s \<noteq> None then None
      else case ngx_queue_insert_tail wq w (tp_heap s) of
        None \<Rightarrow> Some (Fault, s)
      | Some hp \<Rightarrow> Some (Submit w, set_spc i S_signal (s\<lparr>tp_mutex := Some (Producer i), tp_heap := hp\<rparr>)))"
| "ae_work_submit sig i S_signal s =
     (if idle_threads s > 0 then
        (case sig of
           None \<Rightarrow> if T_wait \<in> set (tp_workers s) then None else Some (Silent, set_spc i S_unlock s)
         | Some t \<Rightarrow>
             if t < length (tp_workers s) \<and> tp_workers s ! t = T_wait
             then Some (Silent, set_spc i S_unlock (set_tpc t T_woken s)) else None)
      else Some (Silent, set_spc i S_unlock s))"
| "ae_work_submit sig i S_unlock s = Some (Silent, set_spc i S_idle (s\<lparr>tp_mutex := None\<rparr>))"
| "ae_work_submit sig i S_idle s = None"

text \<open>
  The threads under way, and the whole pool with its callers: a caller allocates an item, whose
  link holds whatever was in that memory, and submits it; waiters wake up spuriously.
\<close>

inductive work_step :: "threadpool \<Rightarrow> work_event \<Rightarrow> threadpool \<Rightarrow> bool" where
  submitter: "i < length (tp_submitters s) \<Longrightarrow>
     ae_work_submit sig i (tp_submitters s ! i) s = Some (e, s') \<Longrightarrow> work_step s e s'"
| worker: "t < length (tp_workers s) \<Longrightarrow>
     worker_run t (tp_workers s ! t) s = Some (e, s') \<Longrightarrow> work_step s e s'"

inductive tp_step :: "threadpool \<Rightarrow> work_event \<Rightarrow> threadpool \<Rightarrow> bool" where
  work: "work_step s e s' \<Longrightarrow> tp_step s e s'"
| call: "i < length (tp_submitters s) \<Longrightarrow> tp_submitters s ! i = S_idle \<Longrightarrow> w \<notin> dom (tp_heap s) \<Longrightarrow>
     tp_step s Silent (set_spc i (S_lock w) (s\<lparr>tp_heap := (tp_heap s)(w \<mapsto> garbage)\<rparr>))"
| spurious: "t < length (tp_workers s) \<Longrightarrow> tp_workers s ! t = T_wait \<Longrightarrow>
     tp_step s Silent (set_tpc t T_woken s)"

text \<open>
  \<open>ae_init_threads\<close>.  The loop over the threads hands \<open>threads + i\<close> to \<open>pthread_create\<close>, which stores
  the id of the new thread there.  \<open>threads\<close> points to \<open>default_threads\<close>, four ids of 8 bytes, but its
  type is \<open>pthread_mutex_t *\<close>, so that \<open>i\<close> advances it by 40 bytes: every store but the first is outside
  of the array.  What it overwrites depends on where the linker has put the other objects of the file,
  the argument \<open>place\<close>; the sizes are those of glibc on x86-64.  When the bytes belong to one of those
  objects, the pool is broken and the model stops with \<open>Overwritten\<close>; when they do not, they belong to
  nothing that the pool uses.  A thread that cannot be created aborts the process.
\<close>

datatype pool_object = O_mutex | O_cond | O_idle_threads | O_nthreads | O_threads | O_default_threads | O_wq

datatype init_error = Overwritten nat pool_object | Aborted nat

fun object_size :: "pool_object \<Rightarrow> nat" where
  "object_size O_mutex = 40" | "object_size O_cond = 48" | "object_size O_idle_threads = 4"
| "object_size O_nthreads = 4" | "object_size O_threads = 8" | "object_size O_default_threads = 4 * 8"
| "object_size O_wq = 16"

definition default_threads :: nat where
  "default_threads = object_size O_default_threads div 8"

definition object_bytes :: "(pool_object \<Rightarrow> nat) \<Rightarrow> pool_object \<Rightarrow> nat set" where
  "object_bytes place ob = {place ob ..< place ob + object_size ob}"

definition tid_bytes :: "(pool_object \<Rightarrow> nat) \<Rightarrow> nat \<Rightarrow> nat set" where
  "tid_bytes place i = (let tid = place O_default_threads + i * object_size O_mutex in {tid ..< tid + 8})"

definition overwritten :: "(pool_object \<Rightarrow> nat) \<Rightarrow> nat \<Rightarrow> pool_object option" where
  "overwritten place i = find (\<lambda>ob. tid_bytes place i \<inter> object_bytes place ob \<noteq> {})
     [O_mutex, O_cond, O_idle_threads, O_nthreads, O_threads, O_wq]"

fun create_threads :: "(pool_object \<Rightarrow> nat) \<Rightarrow> (nat \<Rightarrow> bool) \<Rightarrow> nat list \<Rightarrow> init_error + tpc list" where
  "create_threads place created [] = Inr []"
| "create_threads place created (i # is) =
     (case overwritten place i of
        Some ob \<Rightarrow> Inl (Overwritten i ob)
      | None \<Rightarrow>
          if \<not> created i then Inl (Aborted i)
          else case create_threads place created is of
                 Inl e \<Rightarrow> Inl e
               | Inr ts \<Rightarrow> Inr (T_lock # ts))"

definition ae_init_threads :: "(pool_object \<Rightarrow> nat) \<Rightarrow> (nat \<Rightarrow> bool) \<Rightarrow> ngx_queue_t \<Rightarrow> nat \<Rightarrow> init_error + threadpool" where
  "ae_init_threads place created garbage callers =
     (let hp = the (ngx_queue_init wq [wq \<mapsto> garbage]) in
      case create_threads place created [0..<default_threads] of
        Inl e \<Rightarrow> Inl e
      | Inr ts \<Rightarrow> Inr \<lparr>tp_heap = hp, tp_mutex = None, idle_threads = 0,
          tp_workers = ts, tp_submitters = replicate callers S_idle\<rparr>)"

section \<open>Steps\<close>

fun submitted :: "work_event \<Rightarrow> nat list" where
  "submitted (Submit w) = [w]" | "submitted _ = []"
fun grabbed :: "work_event \<Rightarrow> nat list" where
  "grabbed (Grab t w) = [w]" | "grabbed _ = []"
fun ran :: "work_event \<Rightarrow> nat list" where
  "ran (Run t w) = [w]" | "ran _ = []"

lemma tp_fields [simp]:
  "tp_heap (set_tpc t pc s) = tp_heap s" "tp_heap (set_spc i sp s) = tp_heap s"
  "tp_mutex (set_tpc t pc s) = tp_mutex s" "tp_mutex (set_spc i sp s) = tp_mutex s"
  "idle_threads (set_tpc t pc s) = idle_threads s" "idle_threads (set_spc i sp s) = idle_threads s"
  "tp_workers (set_tpc t pc s) = (tp_workers s)[t := pc]" "tp_workers (set_spc i sp s) = tp_workers s"
  "tp_submitters (set_tpc t pc s) = tp_submitters s" "tp_submitters (set_spc i sp s) = (tp_submitters s)[i := sp]"
  by (simp_all add: set_tpc_def set_spc_def)

text \<open>The nodes on the ring, in the order of the queue.\<close>

definition wq_nodes :: "threadpool \<Rightarrow> nat list" where
  "wq_nodes s = (THE xs. ring (tp_heap s) wq xs)"

lemma chain_unique:
  "chain hp a xs b \<Longrightarrow> chain hp a ys b \<Longrightarrow> b \<notin> set xs \<Longrightarrow> b \<notin> set ys \<Longrightarrow> xs = ys"
proof (induction xs arbitrary: a ys)
  case Nil
  then show ?case by (cases ys) auto
next
  case (Cons x xs)
  then show ?case by (cases ys) auto
qed

lemma ring_unique: "ring hp h xs \<Longrightarrow> ring hp h ys \<Longrightarrow> xs = ys"
  using chain_unique [of hp h xs h ys] by (simp add: ring_def)

lemma wq_nodes_eq: "ring (tp_heap s) wq xs \<Longrightarrow> wq_nodes s = xs"
  unfolding wq_nodes_def using ring_unique by blast

text \<open>
  The memory in use: the sentinel, the nodes on the ring and the items that callers have allocated
  and not yet linked, each of them once.
\<close>

fun spc_item :: "spc \<Rightarrow> nat list" where
  "spc_item (S_lock w) = [w]" | "spc_item _ = []"

definition in_use :: "nat list \<Rightarrow> spc list \<Rightarrow> nat multiset" where
  "in_use xs subs = mset (wq # xs) + sum_list (map (mset \<circ> spc_item) subs)"

definition items_ok :: "qheap \<Rightarrow> nat multiset \<Rightarrow> bool" where
  "items_ok hp M \<longleftrightarrow> set_mset M \<subseteq> dom hp \<and> (\<forall>x. count M x \<le> 1)"

lemma in_use_update:
  "i < length subs \<Longrightarrow>
     mset (spc_item (subs ! i)) + in_use xs (subs[i := pc]) = mset (spc_item pc) + in_use xs subs"
  using sum_list_map_update [of i subs "mset \<circ> spc_item" pc] by (simp add: in_use_def)

lemma items_ok_less:
  assumes "items_ok hp M" "N \<subseteq># M" "dom hp' = dom hp"
  shows "items_ok hp' N"
proof -
  have "count N x \<le> 1" for x using assms(1) mset_subset_eq_count [OF assms(2), of x] unfolding items_ok_def
    by (metis order_trans)
  then show ?thesis using assms(1,3) set_mset_mono [OF assms(2)] unfolding items_ok_def by auto
qed

lemma items_ok_alloc:
  assumes "items_ok hp M" "w \<notin> dom hp"
  shows "items_ok (hp(w \<mapsto> garbage)) (add_mset w M)"
proof -
  have "w \<notin># M" using assms unfolding items_ok_def by blast
  then show ?thesis using assms unfolding items_ok_def by (auto simp: not_in_iff)
qed

lemma items_ok_pending:
  assumes "items_ok hp (in_use xs subs)" "i < length subs" "subs ! i = S_lock w"
  shows "w \<in> dom hp \<and> w \<notin> set (wq # xs)"
proof -
  have "in_use xs subs = add_mset w (in_use xs (subs[i := S_idle]))"
    using in_use_update [OF assms(2), of xs S_idle] assms(3) by simp
  then have "w \<in> dom hp" "count (in_use xs (subs[i := S_idle])) w = 0"
    using assms(1) by (auto simp: items_ok_def dest: spec [of _ w])
  then have "w \<in> dom hp" "w \<notin># in_use xs (subs[i := S_idle])" by (simp_all add: not_in_iff)
  then show ?thesis by (simp add: in_use_def)
qed

definition heap_ok :: "threadpool \<Rightarrow> bool" where
  "heap_ok s \<longleftrightarrow> ring (tp_heap s) wq (wq_nodes s) \<and> items_ok (tp_heap s) (in_use (wq_nodes s) (tp_submitters s))"

lemma take_work_ring:
  assumes "ring hp wq (x # xs)"
  shows "\<exists>hp'. take_work hp = Some (x, hp') \<and> ring hp' wq xs \<and> dom hp' = dom hp"
  using ring_remove [of hp wq "[]" x xs] ring_ends(1) [OF assms] assms by (auto simp: take_work_def)

text \<open>A step, by the point of the code it starts from, when the heap is in order.\<close>

lemma worker_runE:
  assumes "worker_run t pc s = Some (e, s')" "ring (tp_heap s) wq xs"
  obtains (lock) "pc = T_lock" "tp_mutex s = None" "e = Silent"
      "s' = set_tpc t T_check (s\<lparr>tp_mutex := Some (Worker t)\<rparr>)"
  | (wait) "pc = T_check" "xs = []" "e = Silent"
      "s' = set_tpc t T_wait (s\<lparr>idle_threads := idle_threads s + 1, tp_mutex := None\<rparr>)"
  | (grab) x ys hp where "pc = T_check" "xs = x # ys" "e = Grab t x" "ring hp wq ys" "dom hp = dom (tp_heap s)"
      "s' = set_tpc t (T_unlock x) (s\<lparr>tp_heap := hp\<rparr>)"
  | (woken) "pc = T_woken" "tp_mutex s = None" "e = Silent"
      "s' = set_tpc t T_check (s\<lparr>tp_mutex := Some (Worker t), idle_threads := idle_threads s - 1\<rparr>)"
  | (unlock) q where "pc = T_unlock q" "e = Silent" "s' = set_tpc t (T_work q) (s\<lparr>tp_mutex := None\<rparr>)"
  | (run) q where "pc = T_work q" "e = Run t q" "s' = set_tpc t T_lock s"
proof (cases pc)
  case T_check
  show ?thesis
  proof (cases xs)
    case Nil
    then show ?thesis using assms T_check that(2) by (simp add: ring_empty_iff [OF assms(2)])
  next
    case (Cons x ys)
    then obtain hp where "take_work (tp_heap s) = Some (x, hp)" "ring hp wq ys" "dom hp = dom (tp_heap s)"
      using take_work_ring assms(2) by blast
    then show ?thesis using assms(1) T_check Cons that(3) by (simp add: ring_empty_iff [OF assms(2)])
  qed
next
  case T_lock
  then show ?thesis using assms(1) that(1) by (simp split: if_splits)
next
  case T_woken
  then show ?thesis using assms(1) that(4) by (simp split: if_splits)
next
  case (T_unlock q)
  then show ?thesis using assms(1) that(5) by simp
next
  case (T_work q)
  then show ?thesis using assms(1) that(6) by simp
qed (use assms(1) in simp)

lemma ae_work_submitE:
  assumes "ae_work_submit sig i pc s = Some (e, s')" "ring (tp_heap s) wq xs"
    "\<forall>w. pc = S_lock w \<longrightarrow> w \<in> dom (tp_heap s) \<and> w \<notin> set (wq # xs)"
  obtains (link) w hp where "pc = S_lock w" "tp_mutex s = None" "e = Submit w" "ring hp wq (xs @ [w])"
      "dom hp = dom (tp_heap s)" "s' = set_spc i S_signal (s\<lparr>tp_mutex := Some (Producer i), tp_heap := hp\<rparr>)"
  | (nobody) "pc = S_signal" "e = Silent" "idle_threads s = 0 \<or> T_wait \<notin> set (tp_workers s)"
      "s' = set_spc i S_unlock s"
  | (signal) t where "pc = S_signal" "e = Silent" "t < length (tp_workers s)" "tp_workers s ! t = T_wait"
      "s' = set_spc i S_unlock (set_tpc t T_woken s)"
  | (unlock) "pc = S_unlock" "e = Silent" "s' = set_spc i S_idle (s\<lparr>tp_mutex := None\<rparr>)"
proof (cases pc)
  case (S_lock w)
  then obtain hp where "ngx_queue_insert_tail wq w (tp_heap s) = Some hp" "ring hp wq (xs @ [w])"
    "dom hp = dom (tp_heap s)" using ring_insert_tail [OF assms(2), of w] assms(3) by blast
  then show ?thesis using assms(1) S_lock that(1) by (simp split: if_splits)
next
  case S_signal
  then show ?thesis using assms(1) that(2,3) by (auto simp: word_neq_0_conv [symmetric] split: if_splits option.splits)
next
  case S_unlock
  then show ?thesis using assms(1) that(4) by simp
qed (use assms(1) in simp)

lemma heap_okD:
  assumes "heap_ok s"
  shows "ring (tp_heap s) wq (wq_nodes s)" "items_ok (tp_heap s) (in_use (wq_nodes s) (tp_submitters s))"
  using assms by (auto simp: heap_ok_def)

inductive_cases work_stepE: "work_step s e s'"
inductive_cases tp_stepE: "tp_step s e s'"

lemma heap_okI:
  assumes "ring (tp_heap s) wq xs" "items_ok (tp_heap s) (in_use xs (tp_submitters s))"
  shows "heap_ok s" "wq_nodes s = xs"
  using assms wq_nodes_eq [OF assms(1)] by (auto simp: heap_ok_def)

text \<open>The ways a step of the whole pool can go.\<close>

lemma tp_step_cases:
  assumes "tp_step s e s'" "heap_ok s"
  obtains (worker) t where "t < length (tp_workers s)" "worker_run t (tp_workers s ! t) s = Some (e, s')"
  | (submitter) sig i where "i < length (tp_submitters s)"
      "ae_work_submit sig i (tp_submitters s ! i) s = Some (e, s')"
      "\<forall>w. tp_submitters s ! i = S_lock w \<longrightarrow> w \<in> dom (tp_heap s) \<and> w \<notin> set (wq # wq_nodes s)"
  | (call) i w garbage where "i < length (tp_submitters s)" "tp_submitters s ! i = S_idle"
      "w \<notin> dom (tp_heap s)" "e = Silent"
      "s' = set_spc i (S_lock w) (s\<lparr>tp_heap := (tp_heap s)(w \<mapsto> garbage)\<rparr>)"
  | (spurious) t where "t < length (tp_workers s)" "tp_workers s ! t = T_wait" "e = Silent" "s' = set_tpc t T_woken s"
proof -
  have items: "w \<in> dom (tp_heap s) \<and> w \<notin> set (wq # wq_nodes s)"
    if "i < length (tp_submitters s)" "tp_submitters s ! i = S_lock w" for i w
    using items_ok_pending [OF heap_okD(2) [OF assms(2)] that] .
  from assms(1) show ?thesis
  proof (cases rule: tp_step.cases)
    case work
    then show ?thesis using worker submitter items by (cases rule: work_step.cases) blast+
  qed (use call spurious in blast)+
qed

section \<open>Invariant\<close>

lemma heap_ok_step:
  assumes "tp_step s e s'" "heap_ok s"
  shows "heap_ok s' \<and> wq_nodes s @ submitted e = grabbed e @ wq_nodes s'"
proof -
  note ring = heap_okD(1) [OF assms(2)] and items = heap_okD(2) [OF assms(2)]
  have keep: "heap_ok s' \<and> wq_nodes s' = wq_nodes s"
    if "tp_heap s' = tp_heap s" "in_use (wq_nodes s) (tp_submitters s') = in_use (wq_nodes s) (tp_submitters s)"
    using heap_okI [of s' "wq_nodes s"] ring items that by simp
  from assms show ?thesis
  proof (cases rule: tp_step_cases)
    case (worker t)
    from worker(2) ring show ?thesis
    proof (cases rule: worker_runE)
      case (grab x ys hp)
      have "in_use ys (tp_submitters s) \<subseteq># in_use (wq_nodes s) (tp_submitters s)"
        using grab(2) by (simp add: in_use_def)
      then show ?thesis using heap_okI [of s' ys] items_ok_less [OF items] grab by simp
    qed (use keep in simp_all)
  next
    case (submitter sig i)
    note upd = in_use_update [OF submitter(1), of "wq_nodes s"]
    from submitter(2) ring submitter(3) show ?thesis
    proof (cases rule: ae_work_submitE)
      case (link w hp)
      have "in_use (wq_nodes s @ [w]) ((tp_submitters s)[i := S_signal]) = in_use (wq_nodes s) (tp_submitters s)"
        using upd [of S_signal] link(1) by (simp add: in_use_def)
      then show ?thesis
        using heap_okI [of s' "wq_nodes s @ [w]"] items_ok_less [OF items subset_mset.order_refl link(5)] link by simp
    next
      case nobody
      then show ?thesis using keep upd [of S_unlock] by simp
    next
      case (signal t)
      then show ?thesis using keep upd [of S_unlock] by simp
    next
      case unlock
      then show ?thesis using keep upd [of S_idle] by simp
    qed
  next
    case (call i w garbage)
    have "ring ((tp_heap s)(w \<mapsto> garbage)) wq (wq_nodes s)"
      by (rule ring_frame [OF ring]) (use ring_alloc [OF ring] call(3) in auto)
    moreover have "in_use (wq_nodes s) ((tp_submitters s)[i := S_lock w])
        = add_mset w (in_use (wq_nodes s) (tp_submitters s))"
      using in_use_update [OF call(1), of "wq_nodes s" "S_lock w"] call(2) by simp
    ultimately show ?thesis
      using heap_okI [of s' "wq_nodes s"] items_ok_alloc [OF items call(3), of garbage] call by simp
  qed (use keep in simp)
qed

text \<open>The ring is a first-in first-out channel of every pool whose heap is in order.\<close>

interpretation work_ring: fifo_channel "\<lambda>s e s'. heap_ok s \<and> tp_step s e s'" wq_nodes submitted grabbed
  by unfold_locales (use heap_ok_step in blast)

text \<open>Who is inside the critical section, who counts as idle, and what the workers hold.\<close>

fun in_worker :: "tpc \<Rightarrow> bool" where
  "in_worker T_check \<longleftrightarrow> True" | "in_worker (T_unlock q) \<longleftrightarrow> True" | "in_worker _ \<longleftrightarrow> False"

definition wq_section :: "threadpool \<Rightarrow> thread \<Rightarrow> bool" where
  "wq_section s = (\<lambda>t. case t of
     Producer i \<Rightarrow> i < length (tp_submitters s) \<and> tp_submitters s ! i \<in> {S_signal, S_unlock}
   | Worker w \<Rightarrow> w < length (tp_workers s) \<and> in_worker (tp_workers s ! w)
   | Reader \<Rightarrow> False)"

fun is_idle :: "tpc \<Rightarrow> nat" where
  "is_idle T_wait = 1" | "is_idle T_woken = 1" | "is_idle _ = 0"

fun tpc_item :: "tpc \<Rightarrow> nat list" where
  "tpc_item (T_unlock q) = [q]" | "tpc_item (T_work q) = [q]" | "tpc_item _ = []"

definition in_hands :: "threadpool \<Rightarrow> nat multiset" where
  "in_hands s = sum_list (map (mset \<circ> tpc_item) (tp_workers s))"

definition tp_awake :: "threadpool \<Rightarrow> bool" where
  "tp_awake s \<longleftrightarrow> wq_nodes s = [] \<or> S_signal \<in> set (tp_submitters s) \<or> (\<exists>pc \<in> set (tp_workers s). pc \<noteq> T_wait)"

definition tp_inv :: "threadpool \<Rightarrow> bool" where
  "tp_inv s \<longleftrightarrow> heap_ok s \<and> mutex_ok (tp_mutex s) (wq_section s) \<and> tp_workers s \<noteq> [] \<and>
     length (tp_workers s) < 2 ^ 32 - 1 \<and> unat (idle_threads s) = sum_list (map is_idle (tp_workers s)) \<and> tp_awake s"

lemma wq_section_simps [simp]:
  "t < length (tp_workers s) \<Longrightarrow> wq_section (set_tpc t pc s) = (wq_section s)(Worker t := in_worker pc)"
  "i < length (tp_submitters s) \<Longrightarrow>
     wq_section (set_spc i sp s) = (wq_section s)(Producer i := (sp \<in> {S_signal, S_unlock}))"
  "wq_section (s\<lparr>tp_mutex := m\<rparr>) = wq_section s" "wq_section (s\<lparr>tp_heap := hp\<rparr>) = wq_section s"
  "wq_section (s\<lparr>idle_threads := k\<rparr>) = wq_section s"
  "t < length (tp_workers s) \<Longrightarrow> wq_section s (Worker t) = in_worker (tp_workers s ! t)"
  "i < length (tp_submitters s) \<Longrightarrow> wq_section s (Producer i) \<longleftrightarrow> tp_submitters s ! i \<in> {S_signal, S_unlock}"
  by (auto simp: fun_eq_iff wq_section_def nth_list_update split: thread.splits)

lemma tp_mutex_step:
  assumes "tp_step s e s'" "heap_ok s" "mutex_ok (tp_mutex s) (wq_section s)"
  shows "mutex_ok (tp_mutex s') (wq_section s')"
  using assms(1,2)
proof (cases rule: tp_step_cases)
  case (worker t)
  from worker(2) heap_okD(1) [OF assms(2)] worker(1) assms(3) show ?thesis
    by (cases rule: worker_runE) (auto simp: fun_upd_idem intro: mutex_acquire mutex_release)
next
  case (submitter sig i)
  from submitter(2) heap_okD(1) [OF assms(2)] submitter(3,1) assms(3) show ?thesis
    by (cases rule: ae_work_submitE) (auto simp: fun_upd_idem intro: mutex_acquire mutex_release)
qed (use assms(3) in \<open>auto simp: fun_upd_idem\<close>)

text \<open>The counter is unsigned: it neither wraps above the number of workers nor below zero.\<close>

lemma idle_le_workers: "sum_list (map is_idle pcs) \<le> length pcs"
proof -
  have "is_idle pc \<le> 1" for pc by (cases pc) simp_all
  then have "sum_list (map is_idle pcs) \<le> sum_list (map (\<lambda>_. 1) pcs)" by (rule sum_list_mono)
  then show ?thesis by (simp add: sum_list_triv)
qed

lemma unat32_add1: "unat (x :: 32 word) < 2 ^ 32 - 1 \<Longrightarrow> unat (x + 1) = unat x + 1"
  by (simp add: unat_word_ariths)

lemma unat32_sub1: "0 < unat (x :: 32 word) \<Longrightarrow> unat (x - 1) = unat x - 1"
  by (metis unat_minus_one unat_0 less_irrefl)

lemma idle_step:
  assumes "tp_step s e s'" "heap_ok s" "unat (idle_threads s) = sum_list (map is_idle (tp_workers s))"
    "length (tp_workers s) < 2 ^ 32 - 1"
  shows "unat (idle_threads s') = sum_list (map is_idle (tp_workers s'))"
  using assms(1,2)
proof (cases rule: tp_step_cases)
  case (worker t)
  have le: "unat (idle_threads s) < 2 ^ 32 - 1" using assms(3,4) idle_le_workers [of "tp_workers s"] by simp
  note upd = sum_list_nat_update [OF worker(1), of is_idle]
  from worker(2) heap_okD(1) [OF assms(2)] show ?thesis
  proof (cases rule: worker_runE)
    case woken
    then have "0 < unat (idle_threads s)" using upd assms(3) by simp
    then show ?thesis using woken upd assms(3) worker(1) by (simp add: unat32_sub1)
  qed (use upd assms(3) worker(1) unat32_add1 [OF le] in auto)
next
  case (submitter sig i)
  from submitter(2) heap_okD(1) [OF assms(2)] submitter(3) show ?thesis
    by (cases rule: ae_work_submitE) (use assms(3) in \<open>auto simp: map_update_same\<close>)
qed (use assms(3) in \<open>auto simp: map_update_same\<close>)

lemma in_hands_step:
  assumes "tp_step s e s'" "heap_ok s"
  shows "in_hands s + mset (grabbed e) = mset (ran e) + in_hands s'"
  using assms
proof (cases rule: tp_step_cases)
  case (worker t)
  from worker(2) heap_okD(1) [OF assms(2)] sum_list_map_update [OF worker(1), of "mset \<circ> tpc_item"] show ?thesis
    by (cases rule: worker_runE) (auto simp: in_hands_def map_update_same add.commute)
next
  case (submitter sig i)
  from submitter(2) heap_okD(1) [OF assms(2)] submitter(3) show ?thesis
    by (cases rule: ae_work_submitE) (auto simp: in_hands_def map_update_same)
qed (auto simp: in_hands_def map_update_same)

lemma not_waiting: "pcs \<noteq> [] \<Longrightarrow> T_wait \<notin> set pcs \<Longrightarrow> \<exists>pc \<in> set pcs. pc \<noteq> T_wait"
  by (cases pcs) auto

lemma tp_awake_step:
  assumes "tp_step s e s'" "tp_inv s"
  shows "tp_awake s'"
proof -
  have heap: "heap_ok s" and awake: "tp_awake s" and some: "tp_workers s \<noteq> []"
    and idle: "idle_threads s = 0 \<Longrightarrow> T_wait \<notin> set (tp_workers s)"
    using assms(2) member_le_sum_list [of "is_idle T_wait" "map is_idle (tp_workers s)"] by (force simp: tp_inv_def)+
  have nodes: "wq_nodes s @ submitted e = grabbed e @ wq_nodes s'" using heap_ok_step [OF assms(1) heap] by simp
  from assms(1) heap show ?thesis
  proof (cases rule: tp_step_cases)
    case (worker t)
    from worker(2) heap_okD(1) [OF heap] worker(1) nodes show ?thesis
      by (cases rule: worker_runE) (auto simp: tp_awake_def intro: set_update_memI)
  next
    case (submitter sig i)
    from submitter(2) heap_okD(1) [OF heap] submitter(3) show ?thesis
    proof (cases rule: ae_work_submitE)
      case nobody
      then show ?thesis using not_waiting [OF some] idle by (auto simp: tp_awake_def)
    qed (use submitter(1) nodes awake in \<open>auto simp: tp_awake_def intro: set_update_memI in_set_update_other\<close>)
  next
    case (call i w garbage)
    then show ?thesis using nodes awake by (auto simp: tp_awake_def intro: in_set_update_other)
  next
    case (spurious t)
    then show ?thesis by (auto simp: tp_awake_def intro: set_update_memI)
  qed
qed

lemma tp_step_frame:
  assumes "tp_step s e s'" "heap_ok s"
  shows "e \<noteq> Fault" "length (tp_workers s') = length (tp_workers s)"
proof -
  from assms have "e \<noteq> Fault \<and> length (tp_workers s') = length (tp_workers s)"
  proof (cases rule: tp_step_cases)
    case (worker t)
    from worker(2) heap_okD(1) [OF assms(2)] show ?thesis by (cases rule: worker_runE) auto
  next
    case (submitter sig i)
    from submitter(2) heap_okD(1) [OF assms(2)] submitter(3) show ?thesis by (cases rule: ae_work_submitE) auto
  qed auto
  then show "e \<noteq> Fault" "length (tp_workers s') = length (tp_workers s)" by auto
qed

lemma tp_inv_step:
  assumes "tp_step s e s'" "tp_inv s"
  shows "tp_inv s'"
proof -
  have heap: "heap_ok s" using assms(2) by (simp add: tp_inv_def)
  have "tp_workers s' \<noteq> []" "length (tp_workers s') < 2 ^ 32 - 1"
    using tp_step_frame(2) [OF assms(1) heap] assms(2) by (auto simp: tp_inv_def)
  then show ?thesis
    using assms(2) heap_ok_step [OF assms(1) heap] tp_mutex_step [OF assms(1) heap] idle_step [OF assms(1) heap]
      tp_awake_step [OF assms] by (simp add: tp_inv_def)
qed

lemma tp_inv_trace:
  assumes "trace tp_step s es s'" "tp_inv s"
  shows "tp_inv s' \<and> length (tp_workers s') = length (tp_workers s) \<and> Fault \<notin> set es \<and>
    trace (\<lambda>s e s'. heap_ok s \<and> tp_step s e s') s es s' \<and>
    in_hands s + mset (concat (map grabbed es)) = mset (concat (map ran es)) + in_hands s'"
  using assms
proof (induction rule: trace.induct)
  case (trace_snoc s es s' e s'')
  have inv: "tp_inv s'" and heap: "heap_ok s'" using trace_snoc by (auto simp: tp_inv_def)
  have "in_hands s + mset (concat (map grabbed (es @ [e]))) = mset (concat (map ran (es @ [e]))) + in_hands s''"
    using in_hands_step [OF trace_snoc(2) heap] trace_snoc(3,4) by simp (metis add.assoc add.commute)
  then show ?case
    using trace_snoc(3,4) tp_inv_step [OF trace_snoc(2) inv] tp_step_frame [OF trace_snoc(2) heap] heap trace_snoc(2)
    by (auto intro: trace.trace_snoc)
qed (simp add: trace_Nil)

text \<open>When the threads are created, no store has met an object of the pool.\<close>

lemma find_None: "find P xs = None \<longleftrightarrow> (\<forall>x \<in> set xs. \<not> P x)"
  by (induction xs) auto

lemma overwritten_None:
  "overwritten place i = None \<longleftrightarrow> (\<forall>ob. ob \<noteq> O_default_threads \<longrightarrow> tid_bytes place i \<inter> object_bytes place ob = {})"
  (is "_ \<longleftrightarrow> (\<forall>ob. ob \<noteq> O_default_threads \<longrightarrow> ?apart ob)")
proof -
  have "overwritten place i = None \<longleftrightarrow>
      (\<forall>ob \<in> set [O_mutex, O_cond, O_idle_threads, O_nthreads, O_threads, O_wq]. ?apart ob)"
    by (simp add: overwritten_def find_None)
  also have "\<dots> \<longleftrightarrow> (\<forall>ob. ob \<noteq> O_default_threads \<longrightarrow> ?apart ob)"
  proof (intro iffI allI impI ballI)
    fix ob
    assume apart: "\<forall>ob \<in> set [O_mutex, O_cond, O_idle_threads, O_nthreads, O_threads, O_wq]. ?apart ob"
      and "ob \<noteq> O_default_threads"
    then have "ob \<in> set [O_mutex, O_cond, O_idle_threads, O_nthreads, O_threads, O_wq]" by (cases ob) simp_all
    with apart show "?apart ob" by (rule bspec)
  next
    fix ob
    assume *: "\<forall>ob. ob \<noteq> O_default_threads \<longrightarrow> ?apart ob"
      and ob: "ob \<in> set [O_mutex, O_cond, O_idle_threads, O_nthreads, O_threads, O_wq]"
    from ob have "ob \<noteq> O_default_threads" by auto
    then show "?apart ob" by (rule * [rule_format])
  qed
  finally show ?thesis .
qed

lemma create_threads_Inr:
  "create_threads place created is = Inr ts \<longleftrightarrow>
     ts = replicate (length is) T_lock \<and> (\<forall>i \<in> set is. created i \<and> overwritten place i = None)"
  by (induction "is" arbitrary: ts) (auto split: option.splits sum.splits)



lemma ae_init_threads_inv:
  assumes "ae_init_threads place created garbage callers = Inr s"
  shows "tp_inv s" "wq_nodes s = []" "in_hands s = {#}" "length (tp_workers s) = default_threads"
    "\<forall>i < default_threads. overwritten place i = None"
proof -
  obtain hp where hp: "ring hp wq []" "dom hp = {wq}"
    and s: "s = \<lparr>tp_heap = hp, tp_mutex = None, idle_threads = 0,
         tp_workers = replicate default_threads T_lock, tp_submitters = replicate callers S_idle\<rparr>"
    and stores: "\<forall>i < default_threads. overwritten place i = None"
    using assms ring_init [of wq "[wq \<mapsto> garbage]"]
    by (auto simp: ae_init_threads_def create_threads_Inr split: sum.splits)
  have "items_ok (tp_heap s) (in_use [] (tp_submitters s))"
    using hp(2) by (simp add: s items_ok_def in_use_def map_replicate sum_list_replicate_0)
  then have heap: "heap_ok s" and nodes: "wq_nodes s = []" using heap_okI [of s "[]"] hp(1) by (simp_all add: s)
  have "mutex_ok (tp_mutex s) (wq_section s)"
    by (auto simp: mutex_ok_def wq_section_def s split: thread.splits)
  then show "tp_inv s" "in_hands s = {#}" "length (tp_workers s) = default_threads"
    using heap nodes
    by (simp_all add: tp_inv_def tp_awake_def in_hands_def s map_replicate sum_list_replicate_0 default_threads_def)
  show "wq_nodes s = []" by (rule nodes)
  show "\<forall>i < default_threads. overwritten place i = None" by (rule stores)
qed

section \<open>Progress\<close>

fun spc_work :: "spc \<Rightarrow> nat" where
  "spc_work (S_lock w) = 10" | "spc_work S_signal = 4" | "spc_work S_unlock = 1" | "spc_work S_idle = 0"

fun tpc_work :: "tpc \<Rightarrow> nat" where
  "tpc_work (T_unlock q) = 4" | "tpc_work (T_work q) = 3" | "tpc_work T_lock = 2" | "tpc_work T_woken = 2"
| "tpc_work T_check = 1" | "tpc_work T_wait = 0"

definition tp_work :: "threadpool \<Rightarrow> nat" where
  "tp_work s = sum_list (map spc_work (tp_submitters s)) + 4 * length (wq_nodes s)
     + sum_list (map tpc_work (tp_workers s))"

lemma work_step_decreases:
  assumes "work_step s e s'" "heap_ok s"
  shows "tp_work s' < tp_work s"
proof -
  have step: "tp_step s e s'" by (rule tp_step.work [OF assms(1)])
  note nodes = conjunct2 [OF heap_ok_step [OF step assms(2)]]
  from assms(1) show ?thesis
  proof (cases rule: work_step.cases)
    case (worker t)
    from worker(2) heap_okD(1) [OF assms(2)] worker(1) sum_list_nat_update(2) [OF worker(1), of tpc_work] nodes
    show ?thesis
      by (cases rule: worker_runE) (auto simp: tp_work_def sum_list_nat_update(1))
  next
    case (submitter i sig)
    have "\<forall>w. tp_submitters s ! i = S_lock w \<longrightarrow> w \<in> dom (tp_heap s) \<and> w \<notin> set (wq # wq_nodes s)"
      using items_ok_pending [OF heap_okD(2) [OF assms(2)] submitter(1)] by blast
    from submitter(2) heap_okD(1) [OF assms(2)] this submitter(1)
      sum_list_nat_update(2) [OF submitter(1), of spc_work] nodes
    show ?thesis
    proof (cases rule: ae_work_submitE)
      case (link w hp)
      then have "length (wq_nodes s') = length (wq_nodes s) + 1" using nodes by (metis append_Nil grabbed.simps(3) length_append_singleton submitted.simps(1) Suc_eq_plus1)
      then show ?thesis using link submitter(1) sum_list_nat_update(2) [OF submitter(1), of spc_work]
        by (auto simp: tp_work_def sum_list_nat_update(1))
    qed (auto simp: tp_work_def sum_list_nat_update(1))
  qed
qed

lemma work_trace:
  "trace work_step s es s' \<Longrightarrow> tp_inv s \<Longrightarrow> trace tp_step s es s' \<and> length es + tp_work s' \<le> tp_work s"
proof (induction rule: trace.induct)
  case (trace_snoc s es s' e s'')
  have "heap_ok s'" using trace_snoc(3,4) tp_inv_trace by (auto simp: tp_inv_def)
  from work_step_decreases [OF trace_snoc(2) this] trace_snoc show ?case
    by (auto intro: trace.trace_snoc tp_step.work)
qed (simp add: trace_Nil)

text \<open>When nothing can run, the ring is empty and every thread is at rest.\<close>

lemma submitter_enabled:
  assumes "tp_submitters s ! i \<noteq> S_idle" "(\<forall>w. tp_submitters s ! i \<noteq> S_lock w) \<or> tp_mutex s = None"
  shows "\<exists>sig. ae_work_submit sig i (tp_submitters s ! i) s \<noteq> None"
proof (cases "tp_submitters s ! i")
  case S_signal
  show ?thesis
  proof (cases "T_wait \<in> set (tp_workers s)")
    case True
    then obtain t where "t < length (tp_workers s)" "tp_workers s ! t = T_wait" by (auto simp: in_set_conv_nth)
    then have "ae_work_submit (Some t) i S_signal s \<noteq> None" by simp
    then show ?thesis using S_signal by metis
  next
    case False
    then have "ae_work_submit None i S_signal s \<noteq> None" by simp
    then show ?thesis using S_signal by metis
  qed
qed (use assms in \<open>auto split: option.splits\<close>)

lemma worker_enabled:
  assumes "tp_workers s ! t \<noteq> T_wait" "tp_workers s ! t \<notin> {T_lock, T_woken} \<or> tp_mutex s = None"
  shows "worker_run t (tp_workers s ! t) s \<noteq> None"
  using assms by (cases "tp_workers s ! t") (auto split: option.splits bool.splits)

lemma quiet_pool:
  assumes "\<forall>e s'. \<not> work_step s e s'" "tp_inv s"
  shows "wq_nodes s = [] \<and> in_hands s = {#} \<and> set (tp_submitters s) \<subseteq> {S_idle} \<and> set (tp_workers s) \<subseteq> {T_wait}"
proof -
  have no_worker: "worker_run t (tp_workers s ! t) s = None" if "t < length (tp_workers s)" for t
    by (rule no_pair_None) (use assms(1) that work_step.worker in blast)
  have no_submitter: "ae_work_submit sig i (tp_submitters s ! i) s = None" if "i < length (tp_submitters s)" for sig i
    by (rule no_pair_None) (use assms(1) that work_step.submitter in blast)
  have free: "tp_mutex s = None"
  proof (rule ccontr)
    assume "tp_mutex s \<noteq> None"
    then obtain t where "tp_mutex s = Some t" by blast
    then have "wq_section s t" using assms(2) by (simp add: tp_inv_def mutex_ok_def)
    then show False
    proof (cases t)
      case (Producer i)
      with \<open>wq_section s t\<close> no_submitter submitter_enabled [of s i] show ?thesis by (auto simp: wq_section_def)
    next
      case (Worker w)
      with \<open>wq_section s t\<close> have w: "w < length (tp_workers s)" "in_worker (tp_workers s ! w)"
        by (simp_all add: wq_section_def)
      then have "tp_workers s ! w \<notin> {T_wait, T_lock, T_woken}" by auto
      then show ?thesis using no_worker [OF w(1)] worker_enabled [of s w] by auto
    qed (simp add: wq_section_def)
  qed
  have "\<forall>i < length (tp_submitters s). tp_submitters s ! i = S_idle"
    using no_submitter submitter_enabled [of s] free by (metis (no_types))
  then have subs: "set (tp_submitters s) \<subseteq> {S_idle}" by (auto simp: in_set_conv_nth)
  have "\<forall>t < length (tp_workers s). tp_workers s ! t = T_wait"
    using no_worker worker_enabled [of s] free by (metis (no_types))
  then have workers: "set (tp_workers s) \<subseteq> {T_wait}" by (auto simp: in_set_conv_nth)
  then have "in_hands s = sum_list (map (\<lambda>_. {#}) (tp_workers s))"
    unfolding in_hands_def by (intro arg_cong [where f = sum_list] map_cong) auto
  then have "in_hands s = {#}" by (simp add: map_replicate_const sum_list_replicate_0)
  then show ?thesis using subs workers assms(2) by (auto simp: tp_inv_def tp_awake_def)
qed

lemma tp_counts:
  assumes "ae_init_threads place created garbage callers = Inr s0" "trace tp_step s0 es s"
  shows "tp_inv s" "concat (map submitted es) = concat (map grabbed es) @ wq_nodes s"
    "mset (concat (map grabbed es)) = mset (concat (map ran es)) + in_hands s"
    "length (tp_workers s) = default_threads" "Fault \<notin> set es"
  using tp_inv_trace [OF assms(2) ae_init_threads_inv(1) [OF assms(1)]] ae_init_threads_inv [OF assms(1)]
    work_ring.trace_fifo [of s0 es s] by auto

section \<open>Properties\<close>


text \<open>
  C2. No wake-up is lost: from any state the pool can reach, when the stores of \<open>ae_init_threads\<close>
  have left its objects alone, its threads make a bounded number of
  steps when no further call arrives, and when none of them can move, every item submitted has
  been run exactly once, in whatever order the workers finish, and no caller is blocked in
  \<open>ae_work_submit\<close>.  This holds although the signal is sent only when a worker has counted
  itself as idle, and although woken workers still count.
\<close>

theorem threadpool_runs_all_work:
  assumes "ae_init_threads place created garbage callers = Inr s0" "trace tp_step s0 es s" "trace work_step s es' s'"
  shows "length es' \<le> tp_work s \<and>
    ((\<forall>e s''. \<not> work_step s' e s'') \<longrightarrow>
      mset (concat (map ran (es @ es'))) = mset (concat (map submitted (es @ es'))) \<and>
      set (tp_submitters s') \<subseteq> {S_idle} \<and> set (tp_workers s') \<subseteq> {T_wait})"
proof -
  have rest: "trace tp_step s es' s' \<and> length es' + tp_work s' \<le> tp_work s"
    by (rule work_trace [OF assms(3) tp_counts(1) [OF assms(1,2)]])
  note counts = tp_counts [OF assms(1) trace_append [OF assms(2) conjunct1 [OF rest]]]
  then show ?thesis using rest quiet_pool [of s'] by auto
qed

text \<open>A run of the model: a caller submits the item at address 1, worker 2 takes and runs it, all workers go to sleep.\<close>

fun run_workers :: "nat list \<Rightarrow> threadpool \<Rightarrow> (work_event list \<times> threadpool) option" where
  "run_workers [] s = Some ([], s)"
| "run_workers (t # ts) s = (if length (tp_workers s) \<le> t then None else
     case worker_run t (tp_workers s ! t) s of
       None \<Rightarrow> None
     | Some (e, s') \<Rightarrow> (case run_workers ts s' of None \<Rightarrow> None | Some (es, s'') \<Rightarrow> Some (e # es, s'')))"

fun run_submitter :: "nat \<Rightarrow> threadpool \<Rightarrow> (work_event list \<times> threadpool) option" where
  "run_submitter 0 s = Some ([], s)"
| "run_submitter (Suc n) s = (if tp_submitters s = [] then None else
     case ae_work_submit None 0 (tp_submitters s ! 0) s of
       None \<Rightarrow> None
     | Some (e, s') \<Rightarrow> (case run_submitter n s' of None \<Rightarrow> None | Some (es, s'') \<Rightarrow> Some (e # es, s'')))"

lemma run_workers_trace: "run_workers ts s = Some (es, s') \<Longrightarrow> trace work_step s es s'"
proof (induction ts arbitrary: s es)
  case (Cons t ts)
  then obtain e s1 es1 where "t < length (tp_workers s)" "worker_run t (tp_workers s ! t) s = Some (e, s1)"
    "run_workers ts s1 = Some (es1, s')" "es = e # es1" by (auto split: option.splits if_splits)
  then show ?case using Cons.IH work_step.worker trace_Cons by metis
qed (auto intro: trace_Nil)

lemma run_submitter_trace: "run_submitter n s = Some (es, s') \<Longrightarrow> trace work_step s es s'"
proof (induction n arbitrary: s es)
  case (Suc n)
  then obtain e s1 es1 where "0 < length (tp_submitters s)" "ae_work_submit None 0 (tp_submitters s ! 0) s = Some (e, s1)"
    "run_submitter n s1 = Some (es1, s')" "es = e # es1" by (auto split: option.splits if_splits)
  then show ?case using Suc.IH work_step.submitter trace_Cons by metis
qed (auto intro: trace_Nil)

definition garbage_link :: ngx_queue_t where
  "garbage_link = \<lparr>q_prev = 77, q_next = 88\<rparr>"

text \<open>The objects in the order of the file, but \<open>default_threads\<close> last.\<close>

fun bss_place :: "pool_object \<Rightarrow> nat" where
  "bss_place O_mutex = 0" | "bss_place O_cond = 40" | "bss_place O_idle_threads = 88"
| "bss_place O_nthreads = 92" | "bss_place O_threads = 96" | "bss_place O_wq = 104"
| "bss_place O_default_threads = 128"

definition pool0 :: threadpool where
  "pool0 = projr (ae_init_threads bss_place (\<lambda>_. True) garbage_link 1)"

definition pool1 :: threadpool where
  "pool1 = set_spc 0 (S_lock 1) (pool0\<lparr>tp_heap := (tp_heap pool0)(1 \<mapsto> garbage_link)\<rparr>)"

definition pool_end :: threadpool where
  "pool_end = pool1\<lparr>tp_workers := replicate 4 T_wait, tp_submitters := [S_idle], idle_threads := 4,
     tp_heap := [0 \<mapsto> \<lparr>q_prev = 0, q_next = 0\<rparr>, 1 \<mapsto> \<lparr>q_prev = 0, q_next = 0\<rparr>]\<rparr>"

definition pool_events :: "work_event list" where
  "pool_events = [Submit 1, Silent, Silent] @ [Silent, Grab 2 1, Silent, Run 2 1] @ replicate 8 Silent"

lemma bss_clear: "overwritten bss_place i = None"
  unfolding overwritten_None tid_bytes_def object_bytes_def Let_def by (rule allI, case_tac ob) auto

lemma pool0_create: "create_threads bss_place (\<lambda>_. True) [0..<default_threads] = Inr [T_lock, T_lock, T_lock, T_lock]"
proof -
  have "default_threads = Suc (Suc (Suc (Suc 0)))" by (simp add: default_threads_def)
  then have "replicate default_threads T_lock = [T_lock, T_lock, T_lock, T_lock]" by (metis replicate_0 replicate_Suc)
  then show ?thesis unfolding create_threads_Inr by (simp add: bss_clear)
qed

lemma pool0_eq: "pool0 = \<lparr>tp_heap = [0 \<mapsto> \<lparr>q_prev = 0, q_next = 0\<rparr>], tp_mutex = None, idle_threads = 0,
     tp_workers = [T_lock, T_lock, T_lock, T_lock], tp_submitters = [S_idle]\<rparr>"
  by (simp add: pool0_def ae_init_threads_def pool0_create ngx_queue_init_def wq_def garbage_link_def
      numeral_eq_Suc put_next_def put_prev_def)

lemma pool0_init: "ae_init_threads bss_place (\<lambda>_. True) garbage_link 1 = Inr pool0"
  by (simp add: pool0_def ae_init_threads_def pool0_create)

lemma pool1_call: "trace tp_step pool0 [Silent] pool1"
  unfolding pool1_def
  by (rule trace_Cons [of tp_step, OF tp_step.call trace_Nil]) (simp_all add: pool0_eq)

lemmas pool_run_simps = pool1_def pool0_eq set_spc_def set_tpc_def wq_def ngx_queue_insert_tail_def ngx_queue_empty_def
  take_work_def ngx_queue_head_def ngx_queue_remove_def get_next_def get_prev_def garbage_link_def

lemma pool_run: "\<exists>s. run_submitter 3 pool1 = Some ([Submit 1, Silent, Silent], s) \<and>
   run_workers ([2, 2, 2, 2] @ [0, 0, 1, 1, 2, 2, 3, 3]) s =
     Some ([Silent, Grab 2 1, Silent, Run 2 1] @ replicate 8 Silent, pool_end)"
  by (simp add: pool_run_simps pool_end_def numeral_eq_Suc put_next_def put_prev_def fun_eq_iff)

lemma pool_run_trace: "trace work_step pool1 pool_events pool_end"
proof -
  obtain s where "run_submitter 3 pool1 = Some ([Submit 1, Silent, Silent], s)"
    "run_workers ([2, 2, 2, 2] @ [0, 0, 1, 1, 2, 2, 3, 3]) s =
       Some ([Silent, Grab 2 1, Silent, Run 2 1] @ replicate 8 Silent, pool_end)" using pool_run by blast
  from trace_append [OF run_submitter_trace [OF this(1)] run_workers_trace [OF this(2)]]
  show ?thesis by (simp only: pool_events_def)
qed

lemma pool_end_quiet: "\<not> work_step pool_end e s"
proof -
  have "tp_workers pool_end = replicate 4 T_wait" "tp_submitters pool_end = [S_idle]"
    by (simp_all add: pool_end_def)
  then show ?thesis by (auto elim!: work_stepE)
qed



theorem threadpool_runs_all_work_witness:
  "mset (concat (map ran (Silent # pool_events))) = {#1#} \<and> set (tp_workers pool_end) \<subseteq> {T_wait}"
  using threadpool_runs_all_work [OF pool0_init pool1_call pool_run_trace] pool_end_quiet
  by (simp add: pool_events_def)

end
