(* ===== verification/Event_Loop.thy ===== *)
theory Event_Loop
  imports Prelude
begin

text \<open>
  The event loop of cnm/net/ae.c with its epoll layer cnm/net/ae\_epoll.c.  The loop, the epoll
  interest set and the time events are explicit state; handlers are numbers whose meaning is
  given by an environment, as are the clock, \<open>epoll_wait\<close>, \<open>epoll_ctl\<close> and \<open>malloc\<close>, which act on the
  rest of the world.  The red-black tree of the time events is the list of its nodes in
  the order of \<open>compare\<close>; \<open>Timer_Tree\<close> relates the two.  \<^term>\<open>None\<close> is an access outside an array or through a pointer that is not valid.
\<close>

unbundle bit_operations_syntax

section \<open>Time\<close>

record timeval =
  tv_sec :: int
  tv_usec :: int

definition timercmp_less :: "timeval \<Rightarrow> timeval \<Rightarrow> bool" where
  "timercmp_less a b = (if tv_sec a = tv_sec b then tv_usec a < tv_usec b else tv_sec a < tv_sec b)"

definition timeradd :: "timeval \<Rightarrow> timeval \<Rightarrow> timeval" where
  "timeradd a b =
     (let sec = tv_sec a + tv_sec b; usec = tv_usec a + tv_usec b
      in if usec \<ge> 1000000 then \<lparr>tv_sec = sec + 1, tv_usec = usec - 1000000\<rparr>
         else \<lparr>tv_sec = sec, tv_usec = usec\<rparr>)"

definition timersub :: "timeval \<Rightarrow> timeval \<Rightarrow> timeval" where
  "timersub a b =
     (let sec = tv_sec a - tv_sec b; usec = tv_usec a - tv_usec b
      in if usec < 0 then \<lparr>tv_sec = sec - 1, tv_usec = usec + 1000000\<rparr>
         else \<lparr>tv_sec = sec, tv_usec = usec\<rparr>)"

section \<open>The loop\<close>

definition AE_OK :: int where "AE_OK = 0"
definition AE_ERR :: int where "AE_ERR = - 1"
definition AE_NONE :: int where "AE_NONE = 0"
definition AE_READABLE :: int where "AE_READABLE = 1"
definition AE_WRITABLE :: int where "AE_WRITABLE = 2"
definition AE_NOMORE :: int where "AE_NOMORE = - 1"

definition EPOLLIN :: int where "EPOLLIN = 1"
definition EPOLLOUT :: int where "EPOLLOUT = 4"
definition EPOLLERR :: int where "EPOLLERR = 8"
definition EPOLLHUP :: int where "EPOLLHUP = 16"

lemmas ae_consts = AE_OK_def AE_ERR_def AE_NONE_def AE_READABLE_def AE_WRITABLE_def AE_NOMORE_def
  EPOLLIN_def EPOLLOUT_def EPOLLERR_def EPOLLHUP_def

record aeFileEvent =
  fe_mask :: int
  rfileProc :: nat
  wfileProc :: nat
  fe_clientData :: nat

record aeTimeEvent =
  te_timeout :: timeval
  te_tv :: timeval
  te_timeProc :: nat
  te_mask :: int
  te_clientData :: nat

text \<open>
  The fields of \<open>aeEventLoop\<close>; the time events of \<open>timetree\<close> live in a heap of their own, and
  \<open>ep_interest\<close> is the interest set of the epoll instance behind \<open>apidata\<close>.
\<close>

record aeEventLoop =
  maxfd :: int
  setsize :: int
  eventtv :: timeval
  events :: "aeFileEvent list"
  fired :: "(int \<times> int) list"
  timetree :: "nat list"
  te_heap :: "nat \<rightharpoonup> aeTimeEvent"
  stop :: bool
  ep_interest :: "int \<rightharpoonup> int"

text \<open>
  The environment of the loop on a world \<open>'w\<close>: \<open>epoll_wait\<close> reports descriptors of the interest set
  with their events, or fails; \<open>malloc\<close> gives a fresh address and what is in that memory, or fails;
  \<open>epoll_ctl\<close> may fail for reasons of its own.
\<close>

record 'w ae_env =
  e_time :: "'w \<Rightarrow> timeval \<times> 'w"
  e_wait :: "(int \<rightharpoonup> int) \<Rightarrow> int \<Rightarrow> 'w \<Rightarrow> (int \<times> int) list option \<times> 'w"
  e_ctl :: "int \<Rightarrow> 'w \<Rightarrow> bool \<times> 'w"
  e_malloc :: "(nat \<rightharpoonup> aeTimeEvent) \<Rightarrow> 'w \<Rightarrow> (nat \<times> aeTimeEvent) option \<times> 'w"
  e_fileProc :: "nat \<Rightarrow> int \<Rightarrow> nat \<Rightarrow> int \<Rightarrow> aeEventLoop \<times> 'w \<Rightarrow> aeEventLoop \<times> 'w"
  e_timeProc :: "nat \<Rightarrow> nat \<Rightarrow> aeEventLoop \<times> 'w \<Rightarrow> int \<times> aeEventLoop \<times> 'w"

section \<open>The epoll layer\<close>

definition event_at :: "aeEventLoop \<Rightarrow> int \<Rightarrow> aeFileEvent option" where
  "event_at el fd = (if 0 \<le> fd \<and> nat fd < length (events el) then Some (events el ! nat fd) else None)"

definition epoll_flags :: "int \<Rightarrow> int" where
  "epoll_flags msk = (if msk AND AE_READABLE \<noteq> 0 then EPOLLIN else 0) OR (if msk AND AE_WRITABLE \<noteq> 0 then EPOLLOUT else 0)"

text \<open>\<open>EPOLL_CTL_ADD\<close> fails for a descriptor that is registered, \<open>EPOLL_CTL_MOD\<close> for one that is not.\<close>

definition epoll_ctl :: "'w ae_env \<Rightarrow> bool \<Rightarrow> int \<Rightarrow> int \<Rightarrow> aeEventLoop \<times> 'w \<Rightarrow> bool \<times> aeEventLoop \<times> 'w" where
  "epoll_ctl env add fd flags = (\<lambda>(el, w).
     let (ok, w) = e_ctl env fd w in
     if ok \<and> (add \<longleftrightarrow> ep_interest el fd = None)
     then (True, el\<lparr>ep_interest := (ep_interest el)(fd \<mapsto> flags)\<rparr>, w) else (False, el, w))"

definition aeApiAddEvent :: "'w ae_env \<Rightarrow> int \<Rightarrow> int \<Rightarrow> aeEventLoop \<times> 'w \<Rightarrow> (int \<times> aeEventLoop \<times> 'w) option" where
  "aeApiAddEvent env fd msk = (\<lambda>(el, w). do {
     fe \<leftarrow> event_at el fd;
     let (ok, el, w) = epoll_ctl env (fe_mask fe = AE_NONE) fd (epoll_flags (msk OR fe_mask fe)) (el, w);
     Some (if ok then 0 else - 1, el, w) })"

text \<open>\<open>aeApiDelEvent\<close> ignores the result of \<open>epoll_ctl\<close> and leaves the mask in the table of events.\<close>

definition aeApiDelEvent :: "'w ae_env \<Rightarrow> int \<Rightarrow> int \<Rightarrow> aeEventLoop \<times> 'w \<Rightarrow> (aeEventLoop \<times> 'w) option" where
  "aeApiDelEvent env fd delmask = (\<lambda>(el, w). do {
     fe \<leftarrow> event_at el fd;
     let rest = fe_mask fe AND NOT delmask;
     Some (if rest \<noteq> AE_NONE then snd (epoll_ctl env False fd (epoll_flags rest) (el, w))
           else let (ok, w) = e_ctl env fd w in
             (if ok then el\<lparr>ep_interest := (ep_interest el)(fd := None)\<rparr> else el, w)) })"

definition fired_mask :: "int \<Rightarrow> int" where
  "fired_mask ev =
     (if ev AND EPOLLIN \<noteq> 0 then AE_READABLE else 0) OR (if ev AND EPOLLOUT \<noteq> 0 then AE_WRITABLE else 0)
     OR (if ev AND EPOLLERR \<noteq> 0 then AE_WRITABLE else 0) OR (if ev AND EPOLLHUP \<noteq> 0 then AE_WRITABLE else 0)"

definition aeApiPoll :: "'w ae_env \<Rightarrow> timeval \<Rightarrow> aeEventLoop \<times> 'w \<Rightarrow> (int \<times> aeEventLoop \<times> 'w) option" where
  "aeApiPoll env tv = (\<lambda>(el, w).
     let (r, w) = e_wait env (ep_interest el) (tv_sec tv * 1000 + tv_usec tv div 1000) w in
     case r of
       None \<Rightarrow> Some (- 1, el, w)
     | Some evs \<Rightarrow>
         if length evs > length (fired el) then None
         else Some (int (length evs),
           el\<lparr>fired := map (\<lambda>(fd, ev). (fd, fired_mask ev)) evs @ drop (length evs) (fired el)\<rparr>, w))"

section \<open>File events\<close>

definition aeCreateEventLoop :: "'w ae_env \<Rightarrow> bool \<Rightarrow> aeFileEvent list \<Rightarrow> (int \<times> int) list \<Rightarrow> 'w \<Rightarrow> aeEventLoop option \<times> 'w" where
  "aeCreateEventLoop env allocated garbage_events garbage_fired w =
     (if \<not> allocated then (None, w)
      else
        let (tv, w) = e_time env w in
        (Some \<lparr>maxfd = - 1, setsize = int (length garbage_events), eventtv = tv,
           events = map (\<lambda>fe. fe\<lparr>fe_mask := AE_NONE\<rparr>) garbage_events, fired = garbage_fired,
           timetree = [], te_heap = Map.empty, stop = False, ep_interest = Map.empty\<rparr>, w))"

definition aeStop :: "aeEventLoop \<Rightarrow> aeEventLoop" where
  "aeStop el = el\<lparr>stop := True\<rparr>"

definition aeCreateFileEvent :: "'w ae_env \<Rightarrow> int \<Rightarrow> int \<Rightarrow> nat \<Rightarrow> nat \<Rightarrow> aeEventLoop \<times> 'w \<Rightarrow> (int \<times> aeEventLoop \<times> 'w) option" where
  "aeCreateFileEvent env fd msk proc clientData = (\<lambda>(el, w).
     if fd \<ge> setsize el then Some (AE_ERR, el, w)
     else do {
       (r, el, w) \<leftarrow> aeApiAddEvent env fd msk (el, w);
       if r = - 1 then Some (AE_ERR, el, w)
       else do {
         fe \<leftarrow> event_at el fd;
         let fe = fe\<lparr>fe_mask := fe_mask fe OR msk\<rparr>;
         let fe = (if msk AND AE_READABLE \<noteq> 0 then fe\<lparr>rfileProc := proc\<rparr> else fe);
         let fe = (if msk AND AE_WRITABLE \<noteq> 0 then fe\<lparr>wfileProc := proc\<rparr> else fe);
         let fe = fe\<lparr>fe_clientData := clientData\<rparr>;
         let el = el\<lparr>events := (events el)[nat fd := fe]\<rparr>;
         Some (AE_OK, if fd > maxfd el then el\<lparr>maxfd := fd\<rparr> else el, w) } })"

text \<open>One fired event: \<open>fe\<close> points into the table, so the second test sees what the first handler did.\<close>

definition process_fired :: "'w ae_env \<Rightarrow> nat \<Rightarrow> aeEventLoop \<times> 'w \<Rightarrow> (aeEventLoop \<times> 'w) option" where
  "process_fired env j = (\<lambda>(el, w). do {
     (fd, msk) \<leftarrow> (if j < length (fired el) then Some (fired el ! j) else None);
     fe \<leftarrow> event_at el fd;
     let rfired = (fe_mask fe AND msk AND AE_READABLE \<noteq> 0);
     let (el, w) = (if rfired then e_fileProc env (rfileProc fe) fd (fe_clientData fe) msk (el, w) else (el, w));
     fe \<leftarrow> event_at el fd;
     Some (if fe_mask fe AND msk AND AE_WRITABLE \<noteq> 0 \<and> (\<not> rfired \<or> wfileProc fe \<noteq> rfileProc fe)
           then e_fileProc env (wfileProc fe) fd (fe_clientData fe) msk (el, w) else (el, w)) })"

fun process_all :: "'w ae_env \<Rightarrow> nat list \<Rightarrow> aeEventLoop \<times> 'w \<Rightarrow> (aeEventLoop \<times> 'w) option" where
  "process_all env [] s = Some s"
| "process_all env (j # js) s = do { s \<leftarrow> process_fired env j s; process_all env js s }"

definition aeProcessEvents :: "'w ae_env \<Rightarrow> aeEventLoop \<times> 'w \<Rightarrow> (int \<times> aeEventLoop \<times> 'w) option" where
  "aeProcessEvents env = (\<lambda>(el, w).
     if maxfd el = - 1 then Some (0, el, w)
     else do {
       (numevents, s) \<leftarrow> aeApiPoll env \<lparr>tv_sec = 0, tv_usec = 5\<rparr> (el, w);
       s \<leftarrow> process_all env [0..<nat numevents] s;
       Some (int (nat numevents), s) })"

section \<open>Time events\<close>

definition compare :: "(nat \<rightharpoonup> aeTimeEvent) \<Rightarrow> nat \<Rightarrow> nat \<Rightarrow> int" where
  "compare hp a b =
     (let ta = te_timeout (the (hp a)); tb = te_timeout (the (hp b)) in
      if timercmp_less ta tb then - 1
      else if timercmp_less tb ta then 1
      else if a < b then - 1 else if b < a then 1 else 0)"

text \<open>The tree as a list: an element equal to one of the tree is not inserted.\<close>

definition timer_insert :: "(nat \<rightharpoonup> aeTimeEvent) \<Rightarrow> nat \<Rightarrow> nat list \<Rightarrow> nat list" where
  "timer_insert hp x t =
     (if \<exists>y \<in> set t. compare hp x y = 0 then t
      else takeWhile (\<lambda>y. compare hp x y > 0) t @ x # dropWhile (\<lambda>y. compare hp x y > 0) t)"

definition timer_min :: "nat list \<Rightarrow> nat option" where
  "timer_min t = (case t of [] \<Rightarrow> None | x # _ \<Rightarrow> Some x)"

definition timer_next :: "nat \<Rightarrow> nat list \<Rightarrow> nat option" where
  "timer_next x t = (case dropWhile (\<lambda>y. y \<noteq> x) t of _ # y # _ \<Rightarrow> Some y | _ \<Rightarrow> None)"

definition timer_remove :: "nat \<Rightarrow> nat list \<Rightarrow> nat list" where
  "timer_remove x t = remove1 x t"

definition timeout_correct :: "timeval \<Rightarrow> aeEventLoop \<Rightarrow> aeEventLoop" where
  "timeout_correct off el = el\<lparr>te_heap := fold (\<lambda>a hp.
     hp(a := map_option (\<lambda>ev. ev\<lparr>te_timeout := timersub (te_timeout ev) off\<rparr>) (hp a))) (timetree el) (te_heap el)\<rparr>"

text \<open>The argument \<open>clientData\<close> of the code is never stored: the event keeps what \<open>malloc\<close> returned.\<close>

definition aeCreateTimeEvent :: "'w ae_env \<Rightarrow> timeval option \<Rightarrow> nat \<Rightarrow> nat \<Rightarrow> int \<Rightarrow> aeEventLoop \<times> 'w \<Rightarrow> int \<times> aeEventLoop \<times> 'w" where
  "aeCreateTimeEvent env tv proc clientData msk = (\<lambda>(el, w).
     case tv of
       None \<Rightarrow> (AE_ERR, el, w)
     | Some tv \<Rightarrow>
         let (r, w) = e_malloc env (te_heap el) w in
         case r of
           None \<Rightarrow> (AE_ERR, el, w)
         | Some (te, garbage) \<Rightarrow>
             let ev = garbage\<lparr>te_timeProc := proc, te_mask := msk, te_tv := tv\<rparr>;
                 (now, w) = e_time env w;
                 hp = (te_heap el)(te \<mapsto> ev\<lparr>te_timeout := timeradd now tv\<rparr>)
             in (AE_OK, el\<lparr>te_heap := hp, timetree := timer_insert hp te (timetree el)\<rparr>, w))"

partial_function (option) time_loop :: "'w ae_env \<Rightarrow> timeval \<Rightarrow> nat option \<Rightarrow> aeEventLoop \<times> 'w \<Rightarrow> (aeEventLoop \<times> 'w) option" where
  "time_loop env now te s =
     (case te of
        None \<Rightarrow> Some s
      | Some a \<Rightarrow> do {
          ev \<leftarrow> te_heap (fst s) a;
          if timercmp_less now (te_timeout ev) then Some s
          else do {
            let next = timer_next a (timetree (fst s));
            let (retval, s) = e_timeProc env (te_timeProc ev) (te_clientData ev) s;
            ev \<leftarrow> te_heap (fst s) a;
            let (el, w) = (if retval \<noteq> AE_NOMORE
              then snd (aeCreateTimeEvent env (Some (te_tv ev)) (te_timeProc ev) (te_clientData ev) 0 s) else s);
            time_loop env now next (el\<lparr>timetree := timer_remove a (timetree el)\<rparr>, w) } })"

definition aeProcessTimeEvents :: "'w ae_env \<Rightarrow> aeEventLoop \<times> 'w \<Rightarrow> (aeEventLoop \<times> 'w) option" where
  "aeProcessTimeEvents env = (\<lambda>(el, w).
     let (now, w) = e_time env w in time_loop env now (timer_min (timetree el)) (el, w))"

section \<open>The main loop\<close>

partial_function (option) ae_loop :: "'w ae_env \<Rightarrow> aeEventLoop \<times> 'w \<Rightarrow> (aeEventLoop \<times> 'w) option" where
  "ae_loop env s =
     (if stop (fst s) then Some s
      else do {
        (processed, s) \<leftarrow> aeProcessEvents env s;
        s \<leftarrow> aeProcessTimeEvents env s;
        ae_loop env s })"

definition aeMain :: "'w ae_env \<Rightarrow> aeEventLoop \<times> 'w \<Rightarrow> (aeEventLoop \<times> 'w) option" where
  "aeMain env = (\<lambda>(el, w). ae_loop env (el\<lparr>stop := False\<rparr>, w))"

section \<open>The table of file events and the interest set\<close>

text \<open>
  The mask of an entry and the registration of its descriptor say the same; \<open>maxfd\<close> is the largest
  registered descriptor.
\<close>

definition registered :: "aeEventLoop \<Rightarrow> int \<Rightarrow> bool" where
  "registered el fd \<longleftrightarrow> (\<exists>fe. event_at el fd = Some fe \<and> fe_mask fe \<noteq> AE_NONE)"

definition ae_inv :: "aeEventLoop \<Rightarrow> bool" where
  "ae_inv el \<longleftrightarrow> setsize el = int (length (events el)) \<and> length (fired el) = length (events el) \<and>
     (\<forall>fd fe. event_at el fd = Some fe \<longrightarrow> fe_mask fe \<in> {0, 1, 2, 3}) \<and>
     ep_interest el = (\<lambda>fd. if registered el fd then map_option (epoll_flags \<circ> fe_mask) (event_at el fd) else None) \<and>
     (\<forall>fd. registered el fd \<longrightarrow> fd \<le> maxfd el) \<and> (maxfd el = - 1 \<or> registered el (maxfd el))"

lemma or_masks:
  assumes "a \<in> {0, 1, 2, 3 :: int}" "b \<in> {1, 2, 3}"
  shows "a OR b \<in> {0, 1, 2, 3}" "a OR b \<noteq> 0"
  using assms by (simp only: insert_iff empty_iff simp_thms, elim disjE; simp)+

text \<open>The order in which the fields are stored does not matter.\<close>

lemma file_event_fields:
  "el\<lparr>ep_interest := a, events := b\<rparr> = el\<lparr>events := b, ep_interest := a, maxfd := maxfd el\<rparr>"
  "el\<lparr>ep_interest := a, events := b, maxfd := m\<rparr> = el\<lparr>events := b, ep_interest := a, maxfd := m\<rparr>"
  by (cases el, simp)+

lemma event_at_update:
  assumes "event_at el fd = Some fe"
  shows "event_at (el\<lparr>events := (events el)[nat fd := fe']\<rparr>) fd' = (if fd' = fd then Some fe' else event_at el fd')"
proof (cases "fd' = fd")
  case False
  have "0 \<le> fd" using assms by (simp add: event_at_def split: if_splits)
  then have "0 \<le> fd' \<Longrightarrow> nat fd \<noteq> nat fd'" using False by (simp add: eq_nat_nat_iff)
  then show ?thesis using False by (simp add: event_at_def)
qed (use assms in \<open>simp add: event_at_def split: if_splits\<close>)

lemma event_at_frame [simp]:
  "event_at (el\<lparr>ep_interest := e\<rparr>) fd = event_at el fd" "event_at (el\<lparr>maxfd := m\<rparr>) fd = event_at el fd"
  "event_at (el\<lparr>fired := f\<rparr>) fd = event_at el fd" "event_at (el\<lparr>timetree := t\<rparr>) fd = event_at el fd"
  "event_at (el\<lparr>te_heap := h\<rparr>) fd = event_at el fd" "event_at (el\<lparr>stop := b\<rparr>) fd = event_at el fd"
  by (simp_all add: event_at_def)

text \<open>The entry that a successful call leaves.\<close>

definition file_entry :: "aeFileEvent \<Rightarrow> int \<Rightarrow> nat \<Rightarrow> nat \<Rightarrow> aeFileEvent" where
  "file_entry fe msk proc clientData =
     fe\<lparr>fe_mask := fe_mask fe OR msk,
       rfileProc := (if msk AND AE_READABLE \<noteq> 0 then proc else rfileProc fe),
       wfileProc := (if msk AND AE_WRITABLE \<noteq> 0 then proc else wfileProc fe), fe_clientData := clientData\<rparr>"

definition with_file_event :: "aeEventLoop \<Rightarrow> int \<Rightarrow> aeFileEvent \<Rightarrow> aeEventLoop" where
  "with_file_event el fd fe = el\<lparr>events := (events el)[nat fd := fe],
     ep_interest := (ep_interest el)(fd \<mapsto> epoll_flags (fe_mask fe)), maxfd := max (maxfd el) fd\<rparr>"

lemma with_file_event_inv:
  assumes "ae_inv el" "event_at el fd = Some fe" "msk \<in> {1, 2, 3}"
  shows "ae_inv (with_file_event el fd (file_entry fe msk proc clientData))"
proof -
  let ?fe = "file_entry fe msk proc clientData" let ?el = "with_file_event el fd ?fe"
  have m: "fe_mask ?fe \<in> {0, 1, 2, 3}" "fe_mask ?fe \<noteq> AE_NONE"
    using or_masks [of "fe_mask fe" msk] assms by (auto simp: file_entry_def ae_inv_def AE_NONE_def)
  have at: "event_at ?el fd' = (if fd' = fd then Some ?fe else event_at el fd')" for fd'
    using event_at_update [OF assms(2), of ?fe fd'] by (simp add: with_file_event_def)
  have reg: "registered ?el fd' \<longleftrightarrow> fd' = fd \<or> registered el fd'" for fd'
    using m(2) by (auto simp: registered_def at)
  have fd: "0 \<le> fd" using assms(2) by (simp add: event_at_def split: if_splits)
  have fields: "length (events ?el) = length (events el)" "setsize ?el = setsize el" "fired ?el = fired el"
    "maxfd ?el = max (maxfd el) fd" "ep_interest ?el = (ep_interest el)(fd \<mapsto> epoll_flags (fe_mask ?fe))"
    by (simp_all add: with_file_event_def)
  have "ep_interest ?el = (\<lambda>fd. if registered ?el fd then map_option (epoll_flags \<circ> fe_mask) (event_at ?el fd) else None)"
    using assms(1) unfolding ae_inv_def by (simp add: fields reg at fun_eq_iff)
  moreover have "\<forall>fd' fe. event_at ?el fd' = Some fe \<longrightarrow> fe_mask fe \<in> {0, 1, 2, 3}"
    using assms(1) m(1) unfolding ae_inv_def at by (metis option.inject)
  moreover have "\<forall>fd'. registered ?el fd' \<longrightarrow> fd' \<le> max (maxfd el) fd"
    using assms(1) unfolding ae_inv_def reg by auto
  moreover have "max (maxfd el) fd = - 1 \<or> registered ?el (max (maxfd el) fd)"
    using assms(1) fd unfolding ae_inv_def reg max_def by auto
  ultimately show ?thesis using assms(1) by (simp add: ae_inv_def fields)
qed

text \<open>
  \<open>aeCreateFileEvent\<close> on a loop whose table and interest set agree.  A descriptor outside the
  table is refused with -1 and changes nothing, and so is one the kernel refuses; otherwise the
  call returns 0, the descriptor is registered for what it was registered for before and what is
  asked for now, the handler is installed for exactly the events asked for, \<open>maxfd\<close> is the largest
  registered descriptor, and table and interest set agree again.  A negative descriptor is not
  refused but used as an index in front of the table.
\<close>

theorem create_file_event:
  assumes "ae_inv el" "msk \<in> {1, 2, 3}"
  shows "(fd \<ge> setsize el \<longrightarrow> aeCreateFileEvent env fd msk proc cd (el, w) = Some (AE_ERR, el, w)) \<and>
    (0 \<le> fd \<and> fd < setsize el \<longrightarrow>
      (\<exists>fe w'. event_at el fd = Some fe \<and> w' = snd (e_ctl env fd w) \<and>
        aeCreateFileEvent env fd msk proc cd (el, w) =
          (if fst (e_ctl env fd w) then Some (AE_OK, with_file_event el fd (file_entry fe msk proc cd), w')
           else Some (AE_ERR, el, w')) \<and>
        ae_inv (with_file_event el fd (file_entry fe msk proc cd)))) \<and>
    (fd < 0 \<longrightarrow> aeCreateFileEvent env fd msk proc cd (el, w) = None)"
proof (intro conjI impI)
  assume "0 \<le> fd \<and> fd < setsize el"
  then have fd: "0 \<le> fd" "fd < setsize el" by simp_all
  define fe where "fe = events el ! nat fd"
  have fe: "event_at el fd = Some fe" using fd assms(1) by (simp add: ae_inv_def event_at_def fe_def)
  obtain ok w' where ctl: "e_ctl env fd w = (ok, w')" by fastforce
  have "fe_mask fe = AE_NONE \<longleftrightarrow> ep_interest el fd = None"
    using assms(1) fe by (auto simp: ae_inv_def registered_def)
  moreover have "msk OR fe_mask fe = fe_mask fe OR msk" by (rule or.commute)
  ultimately have add: "aeApiAddEvent env fd msk (el, w) = Some (if ok then 0 else - 1,
      if ok then el\<lparr>ep_interest := (ep_interest el)(fd \<mapsto> epoll_flags (fe_mask fe OR msk))\<rparr> else el, w')"
    using fe by (simp add: aeApiAddEvent_def epoll_ctl_def ctl)
  have "aeCreateFileEvent env fd msk proc cd (el, w) =
    (if ok then Some (AE_OK, with_file_event el fd (file_entry fe msk proc cd), w') else Some (AE_ERR, el, w'))"
    using fd fe by (auto simp: aeCreateFileEvent_def add with_file_event_def file_entry_def Let_def max_def file_event_fields)
  then show "\<exists>fe w'. event_at el fd = Some fe \<and> w' = snd (e_ctl env fd w) \<and>
        aeCreateFileEvent env fd msk proc cd (el, w) =
          (if fst (e_ctl env fd w) then Some (AE_OK, with_file_event el fd (file_entry fe msk proc cd), w')
           else Some (AE_ERR, el, w')) \<and>
        ae_inv (with_file_event el fd (file_entry fe msk proc cd))"
    using fe ctl with_file_event_inv [OF assms(1) fe assms(2)] by auto
next
  assume "fd < 0"
  then show "aeCreateFileEvent env fd msk proc cd (el, w) = None"
    using assms(1) by (simp add: aeCreateFileEvent_def aeApiAddEvent_def event_at_def ae_inv_def)
qed (simp add: aeCreateFileEvent_def)

section \<open>Dispatching file events\<close>

text \<open>The calls that an event reported by the kernel leads to: handler, descriptor, argument and mask.\<close>

type_synonym call = "nat \<times> int \<times> nat \<times> int"

definition file_calls :: "aeEventLoop \<Rightarrow> int \<times> int \<Rightarrow> call list" where
  "file_calls el = (\<lambda>(fd, ev). case event_at el fd of
     None \<Rightarrow> []
   | Some fe \<Rightarrow>
       let m = fired_mask ev; r = (fe_mask fe AND m AND AE_READABLE \<noteq> 0); w = (fe_mask fe AND m AND AE_WRITABLE \<noteq> 0)
       in (if r then [(rfileProc fe, fd, fe_clientData fe, m)] else []) @
          (if w \<and> (\<not> r \<or> wfileProc fe \<noteq> rfileProc fe) then [(wfileProc fe, fd, fe_clientData fe, m)] else []))"

definition run_calls :: "'w ae_env \<Rightarrow> call list \<Rightarrow> aeEventLoop \<times> 'w \<Rightarrow> aeEventLoop \<times> 'w" where
  "run_calls env cs s = fold (\<lambda>(p, fd, cd, m). e_fileProc env p fd cd m) cs s"

lemma run_calls_simps [simp]:
  "run_calls env [] s = s"
  "run_calls env ((p, fd, cd, m) # cs) s = run_calls env cs (e_fileProc env p fd cd m s)"
  "run_calls env (cs @ ds) s = run_calls env ds (run_calls env cs s)"
  by (simp_all add: run_calls_def)

text \<open>
  Handlers may register new descriptors, stop the loop and start timers, but leave the events being
  processed and their entries as they are.
\<close>

definition keeps_batch :: "int set \<Rightarrow> aeEventLoop \<Rightarrow> aeEventLoop \<Rightarrow> bool" where
  "keeps_batch D el el' \<longleftrightarrow> fired el' = fired el \<and> (\<forall>fd \<in> D. event_at el' fd = event_at el fd)"

locale file_handlers =
  fixes env :: "'w ae_env" and D :: "int set"
  assumes handler_keeps: "keeps_batch D (fst s) (fst (e_fileProc env p fd cd m s))"
begin

lemma calls_keep: "keeps_batch D (fst s) (fst (run_calls env cs s))"
proof (induction cs arbitrary: s)
  case (Cons c cs)
  obtain p fd cd m where c: "c = (p, fd, cd, m)" by (cases c) auto
  show ?case using handler_keeps [of s p fd cd m] Cons [of "e_fileProc env p fd cd m s"]
    by (simp add: c keeps_batch_def)
qed (simp add: keeps_batch_def)

lemma process_one:
  assumes "j < length (fired el)" "fired el ! j = (fd, fired_mask ev)" "fd \<in> D" "event_at el fd = Some fe"
  shows "process_fired env j (el, w) = Some (run_calls env (file_calls el (fd, ev)) (el, w))"
proof -
  obtain el1 w1 where s1: "e_fileProc env (rfileProc fe) fd (fe_clientData fe) (fired_mask ev) (el, w) = (el1, w1)"
    by fastforce
  then have "event_at el1 fd = Some fe"
    using handler_keeps [of "(el, w)" "rfileProc fe" fd "fe_clientData fe" "fired_mask ev"] assms(3,4)
    by (simp add: keeps_batch_def)
  then show ?thesis
    using assms s1 by (simp add: process_fired_def file_calls_def Let_def)
qed

lemma process_from:
  assumes "\<And>fd ev. (fd, ev) \<in> set evs \<Longrightarrow> fd \<in> D \<and> event_at el0 fd \<noteq> None"
    "keeps_batch D el0 (fst s)" "length evs \<le> k" "k \<le> length (fired el0)"
    "\<And>i. i < length evs \<Longrightarrow> fired el0 ! (k - length evs + i) = (fst (evs ! i), fired_mask (snd (evs ! i)))"
  shows "process_all env [k - length evs..<k] s = Some (run_calls env (concat (map (file_calls el0) evs)) s)"
  using assms
proof (induction evs arbitrary: s)
  case (Cons e evs)
  obtain fd ev where e: "e = (fd, ev)" by fastforce
  define j where "j = k - length (e # evs)"
  have j: "j < k" "[j..<k] = j # [k - length evs..<k]"
    using Cons.prems(3) by (simp_all add: j_def upt_conv_Cons Suc_diff_Suc)
  have here: "fd \<in> D" "event_at el0 fd \<noteq> None" using Cons.prems(1) [of fd ev] e by auto
  then obtain fe where fe: "event_at el0 fd = Some fe" by blast
  obtain el w where s: "s = (el, w)" by fastforce
  have k: "fired el = fired el0" "event_at el fd = Some fe"
    using Cons.prems(2) here fe by (simp_all add: keeps_batch_def s)
  have at: "fired el ! j = (fd, fired_mask ev)" using Cons.prems(5) [of 0] e k(1) by (simp add: j_def)
  have "process_fired env j s = Some (run_calls env (file_calls el (fd, ev)) s)"
    unfolding s by (rule process_one [OF _ at here(1) k(2)]) (use j(1) Cons.prems(4) k(1) in simp)
  moreover have "file_calls el (fd, ev) = file_calls el0 e" using fe k(2) by (simp add: file_calls_def e)
  moreover have "process_all env [k - length evs..<k] (run_calls env (file_calls el0 e) s)
      = Some (run_calls env (concat (map (file_calls el0) evs)) (run_calls env (file_calls el0 e) s))"
  proof (rule Cons.IH)
    show "fd \<in> D \<and> event_at el0 fd \<noteq> None" if "(fd, ev) \<in> set evs" for fd ev
      by (rule Cons.prems(1) [of _ ev]) (use that in simp)
    show "keeps_batch D el0 (fst (run_calls env (file_calls el0 e) s))"
      using Cons.prems(2) calls_keep [of s "file_calls el0 e"] by (simp add: keeps_batch_def)
    show "fired el0 ! (k - length evs + i) = (fst (evs ! i), fired_mask (snd (evs ! i)))" if "i < length evs" for i
    proof -
      have "k - length (e # evs) + Suc i = k - length evs + i" using Cons.prems(3) by simp
      moreover have "fired el0 ! (k - length (e # evs) + Suc i) = (fst (evs ! i), fired_mask (snd (evs ! i)))"
        using Cons.prems(5) [of "Suc i"] that by (simp only: length_Cons nth_Cons_Suc Suc_less_eq)
      ultimately show ?thesis by (simp only:)
    qed
  qed (use Cons.prems(3,4) in simp_all)
  ultimately show ?case unfolding j_def [symmetric] j(2) by simp
qed simp

end

text \<open>
  Handlers written with the interface of the loop: each runs a list of calls.  They keep every
  batch that none of their calls registers a descriptor of.
\<close>

datatype ae_call = Create_file nat int nat nat | Create_time timeval nat nat | Stop_loop

fun run_call :: "'w ae_env \<Rightarrow> ae_call \<Rightarrow> aeEventLoop \<times> 'w \<Rightarrow> aeEventLoop \<times> 'w" where
  "run_call env (Create_file fd msk proc cd) s =
     (case aeCreateFileEvent env (int fd) msk proc cd s of None \<Rightarrow> s | Some (r, s') \<Rightarrow> s')"
| "run_call env (Create_time tv proc cd) s = snd (aeCreateTimeEvent env (Some tv) proc cd 0 s)"
| "run_call env Stop_loop s = (aeStop (fst s), snd s)"

definition scripted :: "(nat \<Rightarrow> ae_call list) \<Rightarrow> 'w ae_env \<Rightarrow> 'w ae_env" where
  "scripted script env = env\<lparr>e_fileProc := \<lambda>p fd cd m. fold (run_call env) (script p)\<rparr>"

definition created_fds :: "(nat \<Rightarrow> ae_call list) \<Rightarrow> int set" where
  "created_fds script = {int fd |fd. \<exists>p msk proc cd. Create_file fd msk proc cd \<in> set (script p)}"

lemma keeps_batch_refl: "keeps_batch D el el"
  by (simp add: keeps_batch_def)

lemma keeps_batch_trans: "keeps_batch D el el' \<Longrightarrow> keeps_batch D el' el'' \<Longrightarrow> keeps_batch D el el''"
  by (simp add: keeps_batch_def)

lemma add_event_shape:
  assumes "aeApiAddEvent env fd msk (el, w) = Some (r, el', w')"
  shows "\<exists>e. el' = el\<lparr>ep_interest := e\<rparr>"
proof -
  obtain ok w1 where ctl: "e_ctl env fd w = (ok, w1)" by fastforce
  have same: "\<exists>e. x = x\<lparr>ep_interest := e\<rparr>" for x :: aeEventLoop by (rule exI [of _ "ep_interest x"]) simp
  show ?thesis using assms same
    by (cases "event_at el fd") (auto simp: aeApiAddEvent_def epoll_ctl_def ctl Let_def split: if_splits)
qed

lemma create_file_keeps:
  assumes "aeCreateFileEvent env fd msk proc cd (el, w) = Some (r, el', w')" "fd \<notin> D"
  shows "keeps_batch D el el'"
proof (cases "fd \<ge> setsize el")
  case True
  then show ?thesis using assms(1) by (simp add: aeCreateFileEvent_def keeps_batch_def)
next
  case False
  then obtain r1 el1 w1 where add: "aeApiAddEvent env fd msk (el, w) = Some (r1, el1, w1)"
    using assms(1) by (cases "aeApiAddEvent env fd msk (el, w)") (auto simp: aeCreateFileEvent_def)
  from add_event_shape [OF this] obtain e where el1: "el1 = el\<lparr>ep_interest := e\<rparr>" by blast
  show ?thesis
  proof (cases "r1 = - 1")
    case True
    then show ?thesis using assms(1) False by (auto simp: aeCreateFileEvent_def add el1 keeps_batch_def)
  next
    case r1: False
    then obtain fe where fe: "event_at el fd = Some fe"
      using assms(1) False by (cases "event_at el fd") (simp_all add: aeCreateFileEvent_def add el1)
    have upd: "event_at (el\<lparr>ep_interest := e, events := (events el)[nat fd := fe']\<rparr>) fd' =
        (if fd' = fd then Some fe' else event_at el fd')" for fe' fd'
      using event_at_update [of "el\<lparr>ep_interest := e\<rparr>" fd fe fe' fd'] fe by simp
    show ?thesis using assms False r1 fe
      by (auto simp: aeCreateFileEvent_def add el1 Let_def keeps_batch_def upd split: if_splits)
  qed
qed

lemma run_call_keeps:
  "\<forall>fd msk proc cd. c = Create_file fd msk proc cd \<longrightarrow> int fd \<notin> D \<Longrightarrow> keeps_batch D (fst s) (fst (run_call env c s))"
proof (cases c)
  case (Create_file fd msk proc cd)
  assume "\<forall>fd msk proc cd. c = Create_file fd msk proc cd \<longrightarrow> int fd \<notin> D"
  then have "int fd \<notin> D" using Create_file by blast
  then show ?thesis using Create_file create_file_keeps [of env "int fd" msk proc cd "fst s" "snd s"]
    by (auto simp: keeps_batch_refl split: option.split)
next
  case (Create_time tv proc cd)
  then show ?thesis
    by (auto simp: aeCreateTimeEvent_def Let_def keeps_batch_def split: prod.split option.split)
qed (simp add: aeStop_def keeps_batch_def)

lemma script_keeps:
  "\<forall>fd msk proc cd. Create_file fd msk proc cd \<in> set cs \<longrightarrow> int fd \<notin> D \<Longrightarrow>
     keeps_batch D (fst s) (fst (fold (run_call env) cs s))"
proof (induction cs arbitrary: s)
  case (Cons c cs)
  have "\<forall>fd msk proc cd. c = Create_file fd msk proc cd \<longrightarrow> int fd \<notin> D" using Cons.prems by (metis list.set_intros(1))
  then have "keeps_batch D (fst s) (fst (run_call env c s))" by (rule run_call_keeps)
  moreover have "keeps_batch D (fst (run_call env c s)) (fst (fold (run_call env) cs (run_call env c s)))"
    by (rule Cons.IH) (use Cons.prems in \<open>metis list.set_intros(2)\<close>)
  ultimately show ?case using keeps_batch_trans by simp
qed (simp add: keeps_batch_refl)

interpretation api: file_handlers "scripted script env" "- created_fds script"
  for script :: "nat \<Rightarrow> ae_call list" and env :: "'w ae_env"
proof
  fix s :: "aeEventLoop \<times> 'w" and p fd cd m
  show "keeps_batch (- created_fds script) (fst s) (fst (e_fileProc (scripted script env) p fd cd m s))"
    using script_keeps [of "script p" "- created_fds script" s env] by (auto simp: scripted_def created_fds_def)
qed

lemma poll_timeout: "tv_sec \<lparr>tv_sec = 0, tv_usec = 5\<rparr> * 1000 + tv_usec \<lparr>tv_sec = 0, tv_usec = 5\<rparr> div 1000 = 0"
  by simp

lemma reader_sees_no_hangup:
  assumes "event_at el fd = Some fe" "fe_mask fe = AE_READABLE" "ev AND EPOLLIN = 0"
  shows "file_calls el (fd, ev) = []"
proof -
  have "AE_READABLE AND fired_mask ev = 0"
    using assms(3) by (simp add: fired_mask_def ae_consts)
  then have "AE_READABLE AND (fired_mask ev AND x) = 0" for x by (simp flip: and.assoc)
  then show ?thesis using assms(1,2) by (simp add: file_calls_def)
qed

text \<open>
  C2. Dispatch of file events.  On a loop whose table and interest set agree, one call of
  \<open>aeProcessEvents\<close> polls without waiting (the 5 microseconds are cut to 0 milliseconds) and calls,
  in the order of the reported events, exactly: the read handler of the entry if the event is
  readable and the entry asks for it, then the write handler if the event is writable and the
  entry asks for it, unless that is the read handler again; with the descriptor, the entry's
  argument and the mask of the event; and returns the number of events.  It never leaves its
  tables.  The handlers may change the loop, but not the entries being processed.  If
  \<open>epoll_wait\<close> fails no handler is called.
\<close>

theorem file_events_dispatched:
  assumes "file_handlers env D" "ae_inv el" "maxfd el \<noteq> - 1" "e_wait env (ep_interest el) 0 w = (r, w')"
    "\<And>evs. r = Some evs \<Longrightarrow> int (length evs) \<le> setsize el \<and> (\<forall>(fd, ev) \<in> set evs. fd \<in> D \<and> ep_interest el fd \<noteq> None)"
  shows "aeProcessEvents env (el, w) = (case r of
      None \<Rightarrow> Some (0, el, w')
    | Some evs \<Rightarrow> Some (int (length evs), run_calls env (concat (map (file_calls el) evs))
        (el\<lparr>fired := map (\<lambda>(fd, ev). (fd, fired_mask ev)) evs @ drop (length evs) (fired el)\<rparr>, w')))"
proof (cases r)
  case None
  then show ?thesis using assms(3,4) unfolding aeProcessEvents_def aeApiPoll_def poll_timeout by simp
next
  case (Some evs)
  define el' where "el' = el\<lparr>fired := map (\<lambda>(fd, ev). (fd, fired_mask ev)) evs @ drop (length evs) (fired el)\<rparr>"
  have len: "length evs \<le> length (fired el)" using assms(2,5) Some by (simp add: ae_inv_def)
  have "aeApiPoll env \<lparr>tv_sec = 0, tv_usec = 5\<rparr> (el, w) = Some (int (length evs), el', w')"
    using len assms(4) Some unfolding aeApiPoll_def case_prod_conv poll_timeout by (simp add: el'_def)
  moreover have "process_all env [length evs - length evs..<length evs] (el', w')
      = Some (run_calls env (concat (map (file_calls el') evs)) (el', w'))"
  proof (rule file_handlers.process_from [OF assms(1)])
    fix fd ev assume ev: "(fd, ev) \<in> set evs"
    then have "fd \<in> D" "ep_interest el fd \<noteq> None" using assms(5) [OF Some] by auto
    then show "fd \<in> D \<and> event_at el' fd \<noteq> None"
      using assms(2) by (auto simp: ae_inv_def el'_def registered_def split: if_splits)
  qed (use len in \<open>auto simp: el'_def keeps_batch_def nth_append split: prod.split\<close>)
  moreover have "file_calls el' = file_calls el" by (simp add: fun_eq_iff file_calls_def el'_def)
  ultimately show ?thesis using assms(3) Some by (simp add: aeProcessEvents_def el'_def)
qed

section \<open>The main loop\<close>

definition ae_round :: "'w ae_env \<Rightarrow> aeEventLoop \<times> 'w \<Rightarrow> (aeEventLoop \<times> 'w) option" where
  "ae_round env s = do { (processed, s) \<leftarrow> aeProcessEvents env s; aeProcessTimeEvents env s }"

fun ae_rounds :: "'w ae_env \<Rightarrow> nat \<Rightarrow> aeEventLoop \<times> 'w \<Rightarrow> (aeEventLoop \<times> 'w) option" where
  "ae_rounds env 0 s = Some s"
| "ae_rounds env (Suc n) s = do { s \<leftarrow> ae_round env s; ae_rounds env n s }"

lemma ae_loop_round:
  "ae_loop env s = (if stop (fst s) then Some s else do { s \<leftarrow> ae_round env s; ae_loop env s })"
  by (subst ae_loop.simps) (simp add: ae_round_def split: Option.bind_split)

lemma ae_loop_returns:
  assumes "ae_loop env s = Some s'"
  shows "\<exists>n. ae_rounds env n s = Some s' \<and> stop (fst s') \<and> (\<forall>k < n. \<exists>t. ae_rounds env k s = Some t \<and> \<not> stop (fst t))"
proof (rule ae_loop.raw_induct [OF _ assms])
  fix loop env s s'
  assume IH: "\<And>env s s'. loop env s = Some s' \<Longrightarrow>
      \<exists>n. ae_rounds env n s = Some s' \<and> stop (fst s') \<and> (\<forall>k < n. \<exists>t. ae_rounds env k s = Some t \<and> \<not> stop (fst t))"
    and body: "(if stop (fst s) then Some s else aeProcessEvents env s \<bind>
      (\<lambda>(processed, s). aeProcessTimeEvents env s \<bind> (\<lambda>s. loop env s))) = Some s'"
  show "\<exists>n. ae_rounds env n s = Some s' \<and> stop (fst s') \<and> (\<forall>k < n. \<exists>t. ae_rounds env k s = Some t \<and> \<not> stop (fst t))"
  proof (cases "stop (fst s)")
    case True
    then show ?thesis using body by (intro exI [of _ 0]) simp
  next
    case False
    then obtain t where t: "ae_round env s = Some t" "loop env t = Some s'"
      using body by (auto simp: ae_round_def split: Option.bind_splits prod.splits)
    from IH [OF t(2)] obtain n where n: "ae_rounds env n t = Some s'" "stop (fst s')"
      "\<forall>k < n. \<exists>u. ae_rounds env k t = Some u \<and> \<not> stop (fst u)" by blast
    have "\<exists>u. ae_rounds env k s = Some u \<and> \<not> stop (fst u)" if "k < Suc n" for k
      using that n(3) False t(1) by (cases k) auto
    then show ?thesis using n(1,2) t(1) by (intro exI [of _ "Suc n"]) simp
  qed
qed

lemma ae_loop_stops:
  "ae_rounds env n s = Some s' \<Longrightarrow> stop (fst s') \<Longrightarrow>
     (\<forall>k < n. \<exists>t. ae_rounds env k s = Some t \<and> \<not> stop (fst t)) \<Longrightarrow> ae_loop env s = Some s'"
proof (induction n arbitrary: s)
  case 0
  then show ?case by (subst ae_loop_round) simp
next
  case (Suc n)
  from Suc.prems(1) obtain t where t: "ae_round env s = Some t" "ae_rounds env n t = Some s'"
    by (cases "ae_round env s") auto
  have "\<not> stop (fst s)" using Suc.prems(3) by (auto dest: spec [of _ 0])
  moreover have "\<exists>u. ae_rounds env k t = Some u \<and> \<not> stop (fst u)" if "k < n" for k
    using Suc.prems(3) [rule_format, of "Suc k"] that t(1) by simp
  ultimately show ?case using Suc.IH [OF t(2) Suc.prems(2)] t(1) by (subst ae_loop_round) simp
qed

text \<open>
  When \<open>aeMain\<close> returns.  It returns with a state exactly if that is the state after the first
  round at whose end \<open>stop\<close> is set, every round before it having ended well: a call of \<open>aeStop\<close> in
  a handler lets the round finish, time events included, and a call before \<open>aeMain\<close> has no effect.
\<close>

theorem main_returns_when_stopped:
  "(aeMain env (el, w) = Some s' \<longleftrightarrow>
     (\<exists>n > 0. ae_rounds env n (el\<lparr>stop := False\<rparr>, w) = Some s' \<and> stop (fst s') \<and>
       (\<forall>k < n. \<exists>t. ae_rounds env k (el\<lparr>stop := False\<rparr>, w) = Some t \<and> \<not> stop (fst t)))) \<and>
   aeMain env (aeStop el, w) = aeMain env (el, w)"
proof -
  have "ae_rounds env 0 (el\<lparr>stop := False\<rparr>, w) = Some s' \<Longrightarrow> \<not> stop (fst s')" by auto
  then have "n > 0" if "ae_rounds env n (el\<lparr>stop := False\<rparr>, w) = Some s'" "stop (fst s')" for n
    using that by (cases n) auto
  then show ?thesis
    using ae_loop_returns [of env "(el\<lparr>stop := False\<rparr>, w)" s'] ae_loop_stops [of env _ "(el\<lparr>stop := False\<rparr>, w)" s']
    by (auto simp: aeMain_def aeStop_def)
qed

section \<open>Time events\<close>

definition us :: "timeval \<Rightarrow> int" where
  "us t = tv_sec t * 1000000 + tv_usec t"

definition valid_tv :: "timeval \<Rightarrow> bool" where
  "valid_tv t \<longleftrightarrow> 0 \<le> tv_usec t \<and> tv_usec t < 1000000"

lemma timercmp_us: "valid_tv a \<Longrightarrow> valid_tv b \<Longrightarrow> timercmp_less a b \<longleftrightarrow> us a < us b"
  by (auto simp: timercmp_less_def us_def valid_tv_def)

lemma timeradd_us: "valid_tv a \<Longrightarrow> valid_tv b \<Longrightarrow> valid_tv (timeradd a b) \<and> us (timeradd a b) = us a + us b"
  by (auto simp: timeradd_def us_def valid_tv_def Let_def)

lemma timersub_us: "valid_tv a \<Longrightarrow> valid_tv b \<Longrightarrow> valid_tv (timersub a b) \<and> us (timersub a b) = us a - us b"
  by (auto simp: timersub_def us_def valid_tv_def Let_def)

text \<open>Events of the tree have valid times, positive periods, and stand in the order of \<open>compare\<close>.\<close>

definition ev_ok :: "(nat \<rightharpoonup> aeTimeEvent) \<Rightarrow> nat \<Rightarrow> bool" where
  "ev_ok hp a \<longleftrightarrow> (\<exists>ev. hp a = Some ev \<and> valid_tv (te_timeout ev) \<and> valid_tv (te_tv ev) \<and> 0 < us (te_tv ev))"

definition te_time :: "(nat \<rightharpoonup> aeTimeEvent) \<Rightarrow> nat \<Rightarrow> int" where
  "te_time hp a = us (te_timeout (the (hp a)))"

definition tt_ok :: "(nat \<rightharpoonup> aeTimeEvent) \<Rightarrow> nat list \<Rightarrow> bool" where
  "tt_ok hp t \<longleftrightarrow> list_all (ev_ok hp) t \<and> sorted_wrt (\<lambda>a b. compare hp a b = - 1) t"

lemma compare_us:
  assumes "ev_ok hp a" "ev_ok hp b"
  shows "compare hp a b = (if te_time hp a < te_time hp b \<or> te_time hp a = te_time hp b \<and> a < b then - 1
    else if a = b then 0 else 1)"
proof -
  have "valid_tv (te_timeout (the (hp a)))" "valid_tv (te_timeout (the (hp b)))" using assms by (auto simp: ev_ok_def)
  note t = timercmp_us [OF this] timercmp_us [OF this(2,1)]
  show ?thesis by (auto simp: compare_def Let_def t te_time_def)
qed

lemma tt_ok_cong:
  assumes "tt_ok hp t" "\<And>a. a \<in> set t \<Longrightarrow> hp' a = hp a"
  shows "tt_ok hp' t"
proof -
  have "sorted_wrt (\<lambda>a b. compare hp' a b = - 1) t"
    by (rule sorted_wrt_mono_rel [of t "\<lambda>a b. compare hp a b = - 1"])
      (use assms in \<open>auto simp: tt_ok_def compare_def\<close>)
  then show ?thesis using assms by (auto simp: tt_ok_def list_all_iff ev_ok_def)
qed

lemma tt_ok_Cons: "tt_ok hp (a # t) \<longleftrightarrow> ev_ok hp a \<and> (\<forall>b \<in> set t. compare hp a b = - 1) \<and> tt_ok hp t"
  by (auto simp: tt_ok_def list_all_iff)

lemma tt_ok_append:
  "tt_ok hp (s @ t) \<longleftrightarrow> tt_ok hp s \<and> tt_ok hp t \<and> (\<forall>a \<in> set s. \<forall>b \<in> set t. compare hp a b = - 1)"
  by (auto simp: tt_ok_def list_all_iff sorted_wrt_append)

lemma tt_ok_ev: "tt_ok hp t \<Longrightarrow> a \<in> set t \<Longrightarrow> ev_ok hp a"
  by (auto simp: tt_ok_def list_all_iff)

lemma tt_ok_distinct: "tt_ok hp t \<Longrightarrow> distinct t"
proof (induction t)
  case (Cons a t)
  then show ?case using compare_us [of hp a a] by (auto simp: tt_ok_Cons)
qed simp

lemma timer_insert_spec:
  assumes "tt_ok hp t" "ev_ok hp x" "x \<notin> set t"
  shows "tt_ok hp (timer_insert hp x t)" "set (timer_insert hp x t) = insert x (set t)"
proof -
  have cmp: "compare hp x y = (if te_time hp x < te_time hp y \<or> te_time hp x = te_time hp y \<and> x < y then - 1 else 1)"
    "compare hp y x = (if compare hp x y > 0 then - 1 else 1)"
    if "y \<in> set t" for y
    using compare_us [OF assms(2) tt_ok_ev [OF assms(1) that]] compare_us [OF tt_ok_ev [OF assms(1) that] assms(2)]
      that assms(3) by auto
  define P where "P = (\<lambda>y. compare hp x y > 0)"
  have ins: "timer_insert hp x t = takeWhile P t @ x # dropWhile P t"
    using cmp(1) by (auto simp: timer_insert_def P_def)
  have parts: "set t = set (takeWhile P t) \<union> set (dropWhile P t)" by (metis set_append takeWhile_dropWhile_id)
  show "set (timer_insert hp x t) = insert x (set t)"
    unfolding ins using parts by simp
  have "tt_ok hp (takeWhile P t @ dropWhile P t)" using assms(1) by simp
  note split = this [unfolded tt_ok_append]
  have sub: "set (takeWhile P t) \<subseteq> set t" "set (dropWhile P t) \<subseteq> set t"
    using parts by auto
  have before: "compare hp a x = - 1" if "a \<in> set (takeWhile P t)" for a
    using cmp(2) [of a] that sub set_takeWhileD [OF that] by (auto simp: P_def)
  have after: "compare hp x b = - 1" if b: "b \<in> set (dropWhile P t)" for b
  proof -
    obtain y ys where y: "dropWhile P t = y # ys" using b by (cases "dropWhile P t") auto
    then have "\<not> P y" using hd_dropWhile [of P t] by simp
    have yt: "y \<in> set t" "b \<in> set t" using sub y b by auto
    from \<open>\<not> P y\<close> cmp(1) [OF yt(1)] have xy: "te_time hp x < te_time hp y \<or> te_time hp x = te_time hp y \<and> x < y"
      by (auto simp: P_def split: if_splits)
    have "b = y \<or> compare hp y b = - 1" using split y b by (auto simp: tt_ok_Cons)
    then have "b = y \<or> te_time hp y < te_time hp b \<or> te_time hp y = te_time hp b \<and> y < b"
      using compare_us [OF tt_ok_ev [OF assms(1) yt(1)] tt_ok_ev [OF assms(1) yt(2)]] by (auto split: if_splits)
    then show ?thesis using cmp(1) [OF yt(2)] xy by auto
  qed
  show "tt_ok hp (timer_insert hp x t)"
    unfolding ins using split before after assms(2) by (auto simp: tt_ok_append tt_ok_Cons)
qed

lemma timer_insert_behind:
  assumes "tt_ok hp (s @ t)" "ev_ok hp x" "x \<notin> set (s @ t)" "\<And>a. a \<in> set s \<Longrightarrow> te_time hp a < te_time hp x"
  shows "timer_insert hp x (s @ t) = s @ timer_insert hp x t"
proof -
  have ne: "compare hp x y \<noteq> 0" if "y \<in> set (s @ t)" for y
    using compare_us [OF assms(2) tt_ok_ev [OF assms(1) that]] that assms(3) by (auto split: if_splits)
  have "compare hp x y > 0" if "y \<in> set s" for y
    using compare_us [OF assms(2) tt_ok_ev [OF assms(1)], of y] that assms(3) assms(4) [OF that] by auto
  then show ?thesis using ne by (auto simp: timer_insert_def takeWhile_append dropWhile_append)
qed

lemma timer_next_Cons: "timer_next a (a # t) = timer_min t"
  by (simp add: timer_next_def timer_min_def split: list.split)

text \<open>Arming an event: a fresh event with the period asked for, or nothing if there is no memory.\<close>

definition armed :: "(nat \<rightharpoonup> aeTimeEvent) \<Rightarrow> int \<Rightarrow> timeval \<Rightarrow> nat \<Rightarrow> nat \<Rightarrow> bool" where
  "armed hp now tv proc x \<longleftrightarrow> ev_ok hp x \<and> te_timeProc (the (hp x)) = proc \<and> te_tv (the (hp x)) = tv \<and>
     now + us tv \<le> te_time hp x"

text \<open>What became of a due event whose handler returned \<open>ret\<close>.\<close>

definition rearmed :: "'w ae_env \<Rightarrow> (nat \<rightharpoonup> aeTimeEvent) \<Rightarrow> (nat \<rightharpoonup> aeTimeEvent) \<Rightarrow> int \<Rightarrow> nat \<Rightarrow> int \<Rightarrow> nat list \<Rightarrow> bool" where
  "rearmed env hp hp' now a ret xs \<longleftrightarrow>
     (ret = AE_NOMORE \<and> xs = []) \<or>
     (ret \<noteq> AE_NOMORE \<and> xs = [] \<and> (\<exists>hp w. fst (e_malloc env hp w) = None)) \<or>
     (ret \<noteq> AE_NOMORE \<and> (\<exists>x. xs = [x] \<and> x \<notin> dom hp \<and> armed hp' now (te_tv (the (hp a))) (te_timeProc (the (hp a))) x))"

definition te_call :: "(nat \<rightharpoonup> aeTimeEvent) \<Rightarrow> nat \<Rightarrow> int \<times> nat list \<Rightarrow> nat \<times> nat \<times> int \<times> nat list" where
  "te_call hp a = (\<lambda>(ret, started). (te_timeProc (the (hp a)), te_clientData (the (hp a)), ret, started))"

text \<open>
  What a handler of a time event may do to the loop: register descriptors, stop it, and start
  timers, which are fresh nodes \<open>xs\<close> due after \<open>now\<close>; the events that are due stay in front.
\<close>

definition adds_timers :: "int \<Rightarrow> aeEventLoop \<Rightarrow> aeEventLoop \<Rightarrow> nat list \<Rightarrow> bool" where
  "adds_timers now el el' xs \<longleftrightarrow> te_heap el \<subseteq>\<^sub>m te_heap el' \<and>
     (\<forall>s t. timetree el = s @ t \<and> tt_ok (te_heap el) (s @ t) \<and> (\<forall>a \<in> set s. te_time (te_heap el) a \<le> now) \<longrightarrow>
       (\<exists>t'. timetree el' = s @ t' \<and> tt_ok (te_heap el') (s @ t') \<and> set t' = set t \<union> set xs \<and>
         (\<forall>b \<in> set xs. now < te_time (te_heap el') b \<and> b \<notin> dom (te_heap el))))"

lemma adds_timersE:
  assumes "adds_timers now el el' xs" "timetree el = s @ t" "tt_ok (te_heap el) (s @ t)"
    "\<forall>a \<in> set s. te_time (te_heap el) a \<le> now"
  obtains t' where "timetree el' = s @ t'" "tt_ok (te_heap el') (s @ t')" "set t' = set t \<union> set xs"
    "\<forall>b \<in> set xs. now < te_time (te_heap el') b \<and> b \<notin> dom (te_heap el)" "te_heap el \<subseteq>\<^sub>m te_heap el'"
  using assms unfolding adds_timers_def by blast

lemma adds_timers_none: "te_heap el' = te_heap el \<Longrightarrow> timetree el' = timetree el \<Longrightarrow> adds_timers now el el' []"
  by (simp add: adds_timers_def)

lemma te_time_le: "hp \<subseteq>\<^sub>m hp' \<Longrightarrow> a \<in> dom hp \<Longrightarrow> te_time hp' a = te_time hp a"
  by (auto simp: te_time_def map_le_def)

lemma tt_ok_dom: "tt_ok hp t \<Longrightarrow> a \<in> set t \<Longrightarrow> a \<in> dom hp"
  using tt_ok_ev [of hp t a] by (auto simp: ev_ok_def)

lemma adds_timers_trans:
  assumes 1: "adds_timers now el0 el1 xs" and 2: "adds_timers now el1 el2 ys"
  shows "adds_timers now el0 el2 (xs @ ys)"
proof -
  have le: "te_heap el0 \<subseteq>\<^sub>m te_heap el2" 
    by (rule map_le_trans [OF conjunct1 [OF 1 [unfolded adds_timers_def]] conjunct1 [OF 2 [unfolded adds_timers_def]]])
  moreover have "\<exists>t'. timetree el2 = s @ t' \<and> tt_ok (te_heap el2) (s @ t') \<and> set t' = set t \<union> set (xs @ ys) \<and>
         (\<forall>b \<in> set (xs @ ys). now < te_time (te_heap el2) b \<and> b \<notin> dom (te_heap el0))"
    if st: "timetree el0 = s @ t" "tt_ok (te_heap el0) (s @ t)" "\<forall>a \<in> set s. te_time (te_heap el0) a \<le> now" for s t
  proof -
    obtain t1 where t1: "timetree el1 = s @ t1" "tt_ok (te_heap el1) (s @ t1)" "set t1 = set t \<union> set xs"
      "\<forall>b \<in> set xs. now < te_time (te_heap el1) b \<and> b \<notin> dom (te_heap el0)" "te_heap el0 \<subseteq>\<^sub>m te_heap el1"
      by (rule adds_timersE [OF 1 st])
    have "te_time (te_heap el1) a = te_time (te_heap el0) a" if "a \<in> set s" for a
      using te_time_le [OF t1(5)] tt_ok_dom [OF st(2), of a] that by simp
    then have due: "\<forall>a \<in> set s. te_time (te_heap el1) a \<le> now" using st(3) by simp
    obtain t2 where t2: "timetree el2 = s @ t2" "tt_ok (te_heap el2) (s @ t2)" "set t2 = set t1 \<union> set ys"
      "\<forall>b \<in> set ys. now < te_time (te_heap el2) b \<and> b \<notin> dom (te_heap el1)" "te_heap el1 \<subseteq>\<^sub>m te_heap el2"
      by (rule adds_timersE [OF 2 t1(1,2) due])
    have "te_time (te_heap el2) b = te_time (te_heap el1) b" if "b \<in> set xs" for b
      using te_time_le [OF t2(5)] tt_ok_dom [OF t1(2), of b] t1(3) that by simp
    moreover have "b \<notin> dom (te_heap el0)" if "b \<in> set ys" for b
      using t2(4) that map_le_implies_dom_le [OF t1(5)] by blast
    ultimately show ?thesis using t1(3,4) t2 by (intro exI [of _ t2]) auto
  qed
  ultimately show ?thesis unfolding adds_timers_def by blast
qed

text \<open>
  The laws of the environment during one call of \<open>aeProcessTimeEvents\<close> that began at the time \<open>now\<close>.
  \<open>I\<close> holds for the states that the world goes through in the call: in them the clock is not set
  back behind \<open>now\<close> (it may jump otherwise) and gives valid readings, \<open>malloc\<close> gives addresses that are
  not in use, and a handler of a time event does to the loop what \<open>adds_timers\<close> allows.  The world
  keeps a log of the calls of handlers, with their results and the timers they started.
\<close>

locale timer_world =
  fixes env :: "'w ae_env" and now :: int and I :: "'w \<Rightarrow> bool" and log :: "'w \<Rightarrow> (nat \<times> nat \<times> int \<times> nat list) list"
  assumes time_law: "I w \<Longrightarrow> e_time env w = (t, w') \<Longrightarrow> valid_tv t \<and> now \<le> us t \<and> I w' \<and> log w' = log w"
    and malloc_law: "I w \<Longrightarrow> e_malloc env hp w = (r, w') \<Longrightarrow>
      I w' \<and> log w' = log w \<and> (\<forall>a g. r = Some (a, g) \<longrightarrow> a \<notin> dom hp)"
begin

lemma create_time:
  assumes "aeCreateTimeEvent env (Some tv) proc cd m (el, w) = (r, el', w')" "valid_tv tv" "0 < us tv" "I w"
    "tt_ok (te_heap el) (s @ t)" "timetree el = s @ t" "\<forall>a \<in> set s. te_time (te_heap el) a \<le> now"
  shows "I w'" "log w' = log w" "te_heap el \<subseteq>\<^sub>m te_heap el'"
    "(r = AE_ERR \<and> el' = el \<and> fst (e_malloc env (te_heap el) w) = None) \<or>
     (\<exists>x t'. r = AE_OK \<and> x \<notin> dom (te_heap el) \<and> armed (te_heap el') now tv proc x \<and>
       timetree el' = s @ t' \<and> tt_ok (te_heap el') (s @ t') \<and> set t' = insert x (set t))"
proof -
  obtain mr w1 where mal: "e_malloc env (te_heap el) w = (mr, w1)" by fastforce
  note m = malloc_law [OF assms(4) mal]
  have "I w' \<and> log w' = log w \<and> te_heap el \<subseteq>\<^sub>m te_heap el' \<and>
     ((r = AE_ERR \<and> el' = el \<and> fst (e_malloc env (te_heap el) w) = None) \<or>
     (\<exists>x t'. r = AE_OK \<and> x \<notin> dom (te_heap el) \<and> armed (te_heap el') now tv proc x \<and>
       timetree el' = s @ t' \<and> tt_ok (te_heap el') (s @ t') \<and> set t' = insert x (set t)))"
  proof (cases mr)
    case None
    then show ?thesis using assms(1) m mal by (auto simp: aeCreateTimeEvent_def)
  next
    case (Some ag)
    obtain x g where x: "mr = Some (x, g)" "x \<notin> dom (te_heap el)" using Some m by (cases ag) auto
    obtain rd w2 where rd: "e_time env w1 = (rd, w2)" by fastforce
    note n = time_law [OF conjunct1 [OF m] rd]
    define ev where "ev = g\<lparr>te_timeProc := proc, te_mask := m, te_tv := tv, te_timeout := timeradd rd tv\<rparr>"
    define hp where "hp = (te_heap el)(x \<mapsto> ev)"
    have res: "r = AE_OK" "el' = el\<lparr>te_heap := hp, timetree := timer_insert hp x (timetree el)\<rparr>" "w' = w2"
      using assms(1) by (simp_all add: aeCreateTimeEvent_def mal x rd ev_def hp_def Let_def)
    have add: "valid_tv (timeradd rd tv)" "us (timeradd rd tv) = us rd + us tv"
      using timeradd_us [of rd tv] n assms(2) by auto
    have ev: "ev_ok hp x" "te_time hp x = us rd + us tv"
      using add assms(2,3) by (simp_all add: ev_ok_def te_time_def hp_def ev_def)
    have arm: "armed hp now tv proc x"
      using ev n by (simp add: armed_def) (simp add: hp_def ev_def)
    have fresh: "x \<notin> set (s @ t)" using tt_ok_dom [OF assms(5), of x] x(2) by blast
    have ok: "tt_ok hp (s @ t)"
      by (rule tt_ok_cong [OF assms(5)]) (use fresh in \<open>auto simp: hp_def\<close>)
    have early: "te_time hp a < te_time hp x" if "a \<in> set s" for a
    proof -
      have "a \<noteq> x" using that fresh by auto
      then have "te_time hp a = te_time (te_heap el) a" by (simp add: te_time_def hp_def)
      then show ?thesis using bspec [OF assms(7) that] ev(2) n assms(3) by simp
    qed
    have ins: "timer_insert hp x (s @ t) = s @ timer_insert hp x t"
      by (rule timer_insert_behind [OF ok ev(1) fresh early])
    have "tt_ok hp t" "x \<notin> set t" using ok fresh by (auto simp: tt_ok_append)
    note t' = timer_insert_spec(2) [OF this(1) ev(1) this(2)]
    have "tt_ok hp (s @ timer_insert hp x t)" using timer_insert_spec(1) [OF ok ev(1) fresh] ins by simp
    moreover have "te_heap el \<subseteq>\<^sub>m te_heap el'" using x(2) res(2) by (auto simp: hp_def map_le_def)
    ultimately show ?thesis using res arm x(2) m n ins t' assms(6) by auto
  qed
  then show "I w'" "log w' = log w" "te_heap el \<subseteq>\<^sub>m te_heap el'"
    "(r = AE_ERR \<and> el' = el \<and> fst (e_malloc env (te_heap el) w) = None) \<or>
     (\<exists>x t'. r = AE_OK \<and> x \<notin> dom (te_heap el) \<and> armed (te_heap el') now tv proc x \<and>
       timetree el' = s @ t' \<and> tt_ok (te_heap el') (s @ t') \<and> set t' = insert x (set t))"
    by blast+
qed

text \<open>A call of \<open>aeCreateTimeEvent\<close> is one of the things a handler may do.\<close>

lemma create_time_adds:
  assumes "aeCreateTimeEvent env (Some tv) proc cd m (el, w) = (r, el', w')" "valid_tv tv" "0 < us tv" "I w"
  shows "\<exists>xs. adds_timers now el el' xs \<and> I w' \<and> log w' = log w"
proof -
  obtain mr w1 where mal: "e_malloc env (te_heap el) w = (mr, w1)" by fastforce
  note m = malloc_law [OF assms(4) mal]
  show ?thesis
  proof (cases mr)
    case None
    then show ?thesis using assms(1) m mal adds_timers_none [of el el] by (auto simp: aeCreateTimeEvent_def)
  next
    case (Some ag)
    obtain x g where x: "mr = Some (x, g)" "x \<notin> dom (te_heap el)" using Some m by (cases ag) auto
    obtain rd w2 where rd: "e_time env w1 = (rd, w2)" by fastforce
    note n = time_law [OF conjunct1 [OF m] rd]
    have res: "w' = w2" "x \<in> dom (te_heap el')" "te_heap el \<subseteq>\<^sub>m te_heap el'" "r \<noteq> AE_ERR"
      "\<forall>y. y \<in> dom (te_heap el') \<longrightarrow> y = x \<or> y \<in> dom (te_heap el)"
      using assms(1) x(2) by (auto simp: aeCreateTimeEvent_def mal x(1) rd Let_def map_le_def AE_OK_def AE_ERR_def)
    have "adds_timers now el el' [x]" unfolding adds_timers_def
    proof (intro conjI allI impI)
      show "te_heap el \<subseteq>\<^sub>m te_heap el'" by (rule res(3))
      fix s t
      assume st: "timetree el = s @ t \<and> tt_ok (te_heap el) (s @ t) \<and> (\<forall>a \<in> set s. te_time (te_heap el) a \<le> now)"
      then have st: "tt_ok (te_heap el) (s @ t)" "timetree el = s @ t" "\<forall>a \<in> set s. te_time (te_heap el) a \<le> now" by simp_all
      from create_time(4) [OF assms st] res(4) obtain y t' where y: "y \<notin> dom (te_heap el)" "armed (te_heap el') now tv proc y"
        "timetree el' = s @ t'" "tt_ok (te_heap el') (s @ t')" "set t' = insert y (set t)" by blast
      have "y \<in> dom (te_heap el')" using y(2) by (auto simp: armed_def ev_ok_def)
      then have "y = x" using res(5) y(1) by blast
      then show "\<exists>t'. timetree el' = s @ t' \<and> tt_ok (te_heap el') (s @ t') \<and> set t' = set t \<union> set [x] \<and>
         (\<forall>b \<in> set [x]. now < te_time (te_heap el') b \<and> b \<notin> dom (te_heap el))"
        using y assms(3) by (intro exI [of _ t']) (auto simp: armed_def)
    qed
    then show ?thesis using res(1) m n by metis
  qed
qed

end

locale timers = timer_world env now I log
  for env :: "'w ae_env" and now :: int and I :: "'w \<Rightarrow> bool" and log :: "'w \<Rightarrow> (nat \<times> nat \<times> int \<times> nat list) list" +
  assumes proc_law: "I w \<Longrightarrow> e_timeProc env p cd (el, w) = (ret, el', w') \<Longrightarrow>
      I w' \<and> (\<exists>xs. log w' = log w @ [(p, cd, ret, xs)] \<and> adds_timers now el el' xs)"
begin

lemma armed_mono: "armed hp now tv proc x \<Longrightarrow> hp \<subseteq>\<^sub>m hp' \<Longrightarrow> armed hp' now tv proc x"
  by (auto simp: armed_def ev_ok_def te_time_def map_le_def dom_def)

lemma armed_earlier: "armed hp now tv proc x \<Longrightarrow> now' \<le> now \<Longrightarrow> armed hp now' tv proc x"
  by (simp add: armed_def)

lemma rearmed_mono:
  assumes "rearmed env hp hp1 now a ret xs" "hp1 \<subseteq>\<^sub>m hp2"
  shows "rearmed env hp hp2 now a ret xs"
  using assms armed_mono [OF _ assms(2)] unfolding rearmed_def by blast

lemma rearmed_later:
  assumes "rearmed env hp1 hp2 now a ret xs" "hp \<subseteq>\<^sub>m hp1" "a \<in> dom hp"
  shows "rearmed env hp hp2 now a ret xs"
proof -
  have a: "hp1 a = hp a" using assms(2,3) by (auto simp: map_le_def)
  have "x \<notin> dom hp1 \<Longrightarrow> x \<notin> dom hp" for x using map_le_implies_dom_le [OF assms(2)] by blast
  then show ?thesis using assms(1) unfolding rearmed_def a by metis
qed

text \<open>One iteration: the event in front has run, and the fresh events are behind those that are due.\<close>

lemma iteration_due:
  assumes "timetree el = (a # D) @ F" "tt_ok (te_heap el) ((a # D) @ F)" "valid_tv tv" "us tv = now" "I w"
    "\<forall>b \<in> set (a # D). te_time (te_heap el) b \<le> now" "\<forall>b \<in> set F. now < te_time (te_heap el) b"
  shows "\<exists>el3 w2 ret started xs F'. time_loop env tv (Some a) (el, w) = time_loop env tv (timer_min (D @ F)) (el3, w2) \<and>
     I w2 \<and> log w2 = log w @ [te_call (te_heap el) a (ret, started)] \<and> timetree el3 = D @ F' \<and> tt_ok (te_heap el3) (D @ F') \<and>
     set F' = set F \<union> set started \<union> set xs \<and> te_heap el \<subseteq>\<^sub>m te_heap el3 \<and>
     rearmed env (te_heap el) (te_heap el3) now a ret xs \<and> (\<forall>b \<in> set started. b \<notin> dom (te_heap el)) \<and>
     (\<forall>b \<in> set F'. now < te_time (te_heap el3) b)"
proof -
  define hp where "hp = te_heap el"
  obtain ev where ev: "hp a = Some ev" "valid_tv (te_timeout ev)" "valid_tv (te_tv ev)" "0 < us (te_tv ev)"
    using tt_ok_ev [OF assms(2), of a] by (auto simp: ev_ok_def hp_def)
  have due: "\<not> timercmp_less tv (te_timeout ev)"
    using assms(3,4,6) ev by (auto simp: timercmp_us te_time_def hp_def)
  obtain ret el1 w1 where call: "e_timeProc env (te_timeProc ev) (te_clientData ev) (el, w) = (ret, el1, w1)"
    by (metis prod_cases3)
  from proc_law [OF assms(5) call] obtain started where p: "I w1"
    "log w1 = log w @ [(te_timeProc ev, te_clientData ev, ret, started)]" "adds_timers now el el1 started" by blast
  obtain F1 where F1: "timetree el1 = (a # D) @ F1" "tt_ok (te_heap el1) ((a # D) @ F1)" "set F1 = set F \<union> set started"
    "\<forall>b \<in> set started. now < te_time (te_heap el1) b \<and> b \<notin> dom (te_heap el)" "te_heap el \<subseteq>\<^sub>m te_heap el1"
    by (rule adds_timersE [OF p(3) assms(1,2,6)])
  have a1: "te_heap el1 a = Some ev" using F1(5) ev(1) by (auto simp: map_le_def hp_def dom_def)
  have old: "te_time (te_heap el1) b = te_time (te_heap el) b" if "b \<in> set ((a # D) @ F)" for b
    by (rule te_time_le [OF F1(5) tt_ok_dom [OF assms(2) that]])
  have due1: "\<forall>b \<in> set (a # D). te_time (te_heap el1) b \<le> now" using assms(6) old by simp
  have late1: "\<forall>b \<in> set F1. now < te_time (te_heap el1) b" using assms(7) old F1(3,4) by auto
  obtain r el2 w2 where step: "(if ret \<noteq> AE_NOMORE
      then aeCreateTimeEvent env (Some (te_tv ev)) (te_timeProc ev) (te_clientData ev) 0 (el1, w1) else (0, el1, w1)) = (r, el2, w2)"
    by (metis prod_cases3)
  define el3 where "el3 = el2\<lparr>timetree := timer_remove a (timetree el2)\<rparr>"
  have nxt: "timer_next a (timetree el) = timer_min (D @ F)" by (simp add: assms(1) timer_next_Cons)
  have unfold: "time_loop env tv (Some a) (el, w) = time_loop env tv (timer_min (D @ F)) (el3, w2)"
  proof -
    have "(if ret \<noteq> AE_NOMORE then snd (aeCreateTimeEvent env (Some (te_tv ev)) (te_timeProc ev) (te_clientData ev) 0 (el1, w1))
        else (el1, w1)) = (el2, w2)" using step by (auto split: if_splits)
    then show ?thesis using ev(1) due call nxt a1
      by (subst time_loop.simps) (simp add: el3_def hp_def [symmetric] Let_def del: if_split)
  qed
  have new: "\<exists>xs F'. timetree el3 = D @ F' \<and> tt_ok (te_heap el3) (D @ F') \<and> set F' = set F1 \<union> set xs \<and>
      I w2 \<and> log w2 = log w1 \<and> te_heap el1 \<subseteq>\<^sub>m te_heap el3 \<and> rearmed env (te_heap el1) (te_heap el3) now a ret xs \<and>
      (\<forall>b \<in> set F'. now < te_time (te_heap el3) b)"
  proof (cases "ret = AE_NOMORE")
    case True
    then have "el2 = el1" "w2 = w1" using step by simp_all
    then show ?thesis using F1(1,2) late1 p(1) True
      by (intro exI [of _ "[]"] exI [of _ F1]) (simp add: el3_def timer_remove_def tt_ok_Cons rearmed_def)
  next
    case False
    then have "aeCreateTimeEvent env (Some (te_tv ev)) (te_timeProc ev) (te_clientData ev) 0 (el1, w1) = (r, el2, w2)"
      using step by simp
    note c = create_time [OF this ev(3,4) p(1) F1(2,1) due1]
    from c(4) consider (failed) "r = AE_ERR" "el2 = el1" "fst (e_malloc env (te_heap el1) w1) = None"
      | (added) x t' where "x \<notin> dom (te_heap el1)" "armed (te_heap el2) now (te_tv ev) (te_timeProc ev) x"
        "timetree el2 = (a # D) @ t'" "tt_ok (te_heap el2) ((a # D) @ t')" "set t' = insert x (set F1)"
      by metis
    then show ?thesis
    proof cases
      case failed
      then show ?thesis using F1(1,2) late1 False c(1,2)
        by (intro exI [of _ "[]"] exI [of _ F1])
          (auto simp: el3_def timer_remove_def tt_ok_Cons rearmed_def)
    next
      case x: (added x t')
      have t: "timetree el3 = D @ t'" "te_heap el3 = te_heap el2" using x(3) by (simp_all add: el3_def timer_remove_def)
      have late: "now < te_time (te_heap el2) b" if "b \<in> set t'" for b
      proof (cases "b = x")
        case True
        then show ?thesis using x(2) ev(4) by (simp add: armed_def)
      next
        case False
        then have "b \<in> set F1" "b \<in> dom (te_heap el1)" using that x(5) tt_ok_dom [OF F1(2), of b] by auto
        then show ?thesis using late1 te_time_le [OF c(3)] by simp
      qed
      have "rearmed env (te_heap el1) (te_heap el3) now a ret [x]"
        using x(1,2) False a1 by (simp add: rearmed_def t)
      then show ?thesis using t x(4,5) late c(1-3)
        by (intro exI [of _ "[x]"] exI [of _ t']) (simp add: tt_ok_Cons)
    qed
  qed
  then obtain xs F' where n: "timetree el3 = D @ F'" "tt_ok (te_heap el3) (D @ F')" "set F' = set F1 \<union> set xs"
      "I w2" "log w2 = log w1" "te_heap el1 \<subseteq>\<^sub>m te_heap el3" "rearmed env (te_heap el1) (te_heap el3) now a ret xs"
      "\<forall>b \<in> set F'. now < te_time (te_heap el3) b" by blast
  have "rearmed env (te_heap el) (te_heap el3) now a ret xs"
    by (rule rearmed_later [OF n(7) F1(5)]) (use ev(1) in \<open>auto simp: hp_def\<close>)
  moreover have "log w2 = log w @ [te_call (te_heap el) a (ret, started)]"
    using n(5) p(2) ev(1) by (simp add: te_call_def hp_def)
  ultimately show ?thesis using unfold n(1-4,8) F1(3,4) map_le_trans [OF F1(5) n(6)]
    by (intro exI [of _ el3] exI [of _ w2] exI [of _ ret] exI [of _ started] exI [of _ xs] exI [of _ F']) auto
qed

lemma loop_due:
  assumes "timetree el = D @ F" "tt_ok (te_heap el) (D @ F)" "valid_tv tv" "us tv = now" "I w"
    "\<forall>a \<in> set D. te_time (te_heap el) a \<le> now" "\<forall>b \<in> set F. now < te_time (te_heap el) b"
    "if D = [] then te = None \<or> te \<in> Some ` set F else te = Some (hd D)"
  shows "\<exists>el' w' rets started new. time_loop env tv te (el, w) = Some (el', w') \<and>
    length rets = length D \<and> length started = length D \<and>
    log w' = log w @ map2 (te_call (te_heap el)) D (zip rets started) \<and> te_heap el \<subseteq>\<^sub>m te_heap el' \<and>
    tt_ok (te_heap el') (timetree el') \<and> (\<forall>b \<in> set (timetree el'). now < te_time (te_heap el') b) \<and>
    set (timetree el') = set F \<union> set (concat started) \<union> set (concat new) \<and>
    (\<forall>b \<in> set (concat started). b \<notin> dom (te_heap el)) \<and>
    list_all2 (\<lambda>(a, ret). rearmed env (te_heap el) (te_heap el') now a ret) (zip D rets) new"
  using assms
proof (induction D arbitrary: el w F te)
  case Nil
  have "time_loop env tv te (el, w) = Some (el, w)"
  proof (cases te)
    case (Some b)
    then have b: "b \<in> set F" using Nil.prems(8) by auto
    then obtain ev where "te_heap el b = Some ev" "valid_tv (te_timeout ev)" using tt_ok_ev [OF Nil.prems(2), of b]
      by (auto simp: ev_ok_def)
    then have "timercmp_less tv (te_timeout ev)" using Nil.prems(3,4,7) b by (auto simp: timercmp_us te_time_def)
    then show ?thesis using Some \<open>te_heap el b = Some ev\<close> by (simp add: time_loop.simps)
  qed (simp add: time_loop.simps)
  then show ?case using Nil.prems
    by (intro exI [of _ el] exI [of _ w] exI [of _ "[]"] exI [of _ "[]"] exI [of _ "[]"]) simp
next
  case (Cons a D)
  define hp where "hp = te_heap el"
  have te: "te = Some a" using Cons.prems(8) by simp
  obtain el3 w2 ret st0 xs F' where n: "time_loop env tv (Some a) (el, w) = time_loop env tv (timer_min (D @ F)) (el3, w2)"
    "I w2" "log w2 = log w @ [te_call hp a (ret, st0)]" "timetree el3 = D @ F'" "tt_ok (te_heap el3) (D @ F')"
    "set F' = set F \<union> set st0 \<union> set xs" "hp \<subseteq>\<^sub>m te_heap el3" "rearmed env hp (te_heap el3) now a ret xs"
    "\<forall>b \<in> set st0. b \<notin> dom hp" "\<forall>b \<in> set F'. now < te_time (te_heap el3) b"
    using iteration_due [OF Cons.prems(1-7)] unfolding hp_def by blast
  have dom: "b \<in> dom hp" if "b \<in> set (a # D)" for b
    using tt_ok_dom [OF Cons.prems(2), of b] that by (auto simp: hp_def)
  have same: "te_heap el3 b = hp b" if "b \<in> set (a # D)" for b using dom [OF that] n(7) by (auto simp: map_le_def)
  have due: "\<forall>b \<in> set D. te_time (te_heap el3) b \<le> now"
    using Cons.prems(6) same by (simp add: te_time_def hp_def)
  have start: "if D = [] then timer_min (D @ F) = None \<or> timer_min (D @ F) \<in> Some ` set F' else timer_min (D @ F) = Some (hd D)"
    using n(6) by (cases D; cases F) (auto simp: timer_min_def)
  obtain el' w' rets started new where rec: "time_loop env tv (timer_min (D @ F)) (el3, w2) = Some (el', w')"
    "length rets = length D" "length started = length D"
    "log w' = log w2 @ map2 (te_call (te_heap el3)) D (zip rets started)" "te_heap el3 \<subseteq>\<^sub>m te_heap el'"
    "tt_ok (te_heap el') (timetree el')" "\<forall>b \<in> set (timetree el'). now < te_time (te_heap el') b"
    "set (timetree el') = set F' \<union> set (concat started) \<union> set (concat new)"
    "\<forall>b \<in> set (concat started). b \<notin> dom (te_heap el3)"
    "list_all2 (\<lambda>(a, ret). rearmed env (te_heap el3) (te_heap el') now a ret) (zip D rets) new"
    using Cons.IH [OF n(4,5) Cons.prems(3,4) n(2) due n(10) start] by blast
  have "map2 (te_call (te_heap el3)) D (zip rets started) = map2 (te_call hp) D (zip rets started)"
    by (rule map_cong) (use same in \<open>auto simp: te_call_def dest: set_zip_leftD\<close>)
  then have log: "log w' = log w @ map2 (te_call hp) (a # D) (zip (ret # rets) (st0 # started))"
    using rec(4) n(3) by simp
  have "list_all2 (\<lambda>(a, ret). rearmed env hp (te_heap el') now a ret) (zip D rets) new"
    using rec(10)
  proof (rule list.rel_mono_strong)
    fix ar ys assume ar: "ar \<in> set (zip D rets)" and "ys \<in> set new" and r: "(case ar of (a, ret) \<Rightarrow> rearmed env (te_heap el3) (te_heap el') now a ret) ys"
    obtain b ret where b: "ar = (b, ret)" by fastforce
    then have "b \<in> dom hp" using ar dom by (auto dest: set_zip_leftD)
    then show "(case ar of (a, ret) \<Rightarrow> rearmed env hp (te_heap el') now a ret) ys"
      using rearmed_later [OF _ n(7)] b r by auto
  qed
  moreover have "rearmed env hp (te_heap el') now a ret xs" by (rule rearmed_mono [OF n(8) rec(5)])
  moreover have "hp \<subseteq>\<^sub>m te_heap el'" using map_le_trans [OF n(7) rec(5)] .
  moreover have "\<forall>b \<in> set (concat (st0 # started)). b \<notin> dom hp"
    using n(9) rec(9) subsetD [OF map_le_implies_dom_le [OF n(7)]] by (metis Un_iff concat.simps(2) set_append)
  ultimately show ?case using rec(1,2,3,6-8) log n(1,6)
    by (intro exI [of _ el'] exI [of _ w'] exI [of _ "ret # rets"] exI [of _ "st0 # started"] exI [of _ "xs # new"])
      (auto simp: hp_def te)
qed

end

text \<open>
  Handlers written with the interface of the loop, in any environment: the handler \<open>p\<close> makes the
  calls \<open>script p\<close> and returns what \<open>body p\<close> says.  The world is extended by the log of the calls.
  They obey the laws wherever the clock and the allocator do.
\<close>

definition lift_world :: "('w \<Rightarrow> 'a \<times> 'w) \<Rightarrow> 'w \<times> 'l \<Rightarrow> 'a \<times> 'w \<times> 'l" where
  "lift_world f = (\<lambda>(w, l). let (a, w') = f w in (a, w', l))"

definition timer_base :: "'w ae_env \<Rightarrow> ('w \<times> (nat \<times> nat \<times> int \<times> nat list) list) ae_env" where
  "timer_base env = \<lparr>e_time = lift_world (e_time env),
     e_wait = \<lambda>interest timeout. lift_world (e_wait env interest timeout), e_ctl = \<lambda>fd. lift_world (e_ctl env fd),
     e_malloc = \<lambda>hp. lift_world (e_malloc env hp), e_fileProc = \<lambda>p fd cd m s. s, e_timeProc = \<lambda>p cd s. (0, s)\<rparr>"

definition timer_scripts :: "(nat \<Rightarrow> ae_call list) \<Rightarrow> (nat \<Rightarrow> nat \<Rightarrow> 'w \<Rightarrow> int \<times> 'w) \<Rightarrow> 'w ae_env \<Rightarrow>
    ('w \<times> (nat \<times> nat \<times> int \<times> nat list) list) ae_env" where
  "timer_scripts script body env = (timer_base env)\<lparr>e_timeProc := \<lambda>p cd (el, wl).
     let (el', w1, l) = fold (run_call (timer_base env)) (script p) (el, wl);
         (ret, w2) = body p cd w1
     in (ret, el', w2, l @ [(p, cd, ret, filter (\<lambda>x. x \<notin> set (timetree el)) (timetree el'))])\<rparr>"

text \<open>The worlds of one call: the clock is not behind \<open>now\<close>, whatever the loop and its handlers do.\<close>

locale running_clock =
  fixes env :: "'w ae_env" and body :: "nat \<Rightarrow> nat \<Rightarrow> 'w \<Rightarrow> int \<times> 'w" and now :: int and I :: "'w \<Rightarrow> bool"
  assumes clock_reads: "I w \<Longrightarrow> e_time env w = (t, w') \<Longrightarrow> valid_tv t \<and> now \<le> us t \<and> I w'"
    and allocates: "I w \<Longrightarrow> e_malloc env hp w = (r, w') \<Longrightarrow> I w' \<and> (\<forall>a g. r = Some (a, g) \<longrightarrow> a \<notin> dom hp)"
    and registers: "I w \<Longrightarrow> e_ctl env fd w = (ok, w') \<Longrightarrow> I w'"
    and handles: "I w \<Longrightarrow> body p cd w = (ret, w') \<Longrightarrow> I w'"

definition positive_periods :: "(nat \<Rightarrow> ae_call list) \<Rightarrow> bool" where
  "positive_periods script \<longleftrightarrow> (\<forall>p tv proc cd. Create_time tv proc cd \<in> set (script p) \<longrightarrow> valid_tv tv \<and> 0 < us tv)"

lemma adds_timers_started:
  assumes "adds_timers now el el' xs"
  shows "adds_timers now el el' (filter (\<lambda>x. x \<notin> set (timetree el)) (timetree el'))"
  unfolding adds_timers_def
proof (intro conjI allI impI)
  show "te_heap el \<subseteq>\<^sub>m te_heap el'" using assms by (simp add: adds_timers_def)
  fix s t
  assume "timetree el = s @ t \<and> tt_ok (te_heap el) (s @ t) \<and> (\<forall>a \<in> set s. te_time (te_heap el) a \<le> now)"
  then have st: "timetree el = s @ t" "tt_ok (te_heap el) (s @ t)" "\<forall>a \<in> set s. te_time (te_heap el) a \<le> now" by simp_all
  obtain t' where t': "timetree el' = s @ t'" "tt_ok (te_heap el') (s @ t')" "set t' = set t \<union> set xs"
    "\<forall>b \<in> set xs. now < te_time (te_heap el') b \<and> b \<notin> dom (te_heap el)" by (rule adds_timersE [OF assms st])
  have "b \<notin> set (s @ t)" if "b \<in> set xs" for b using tt_ok_dom [OF st(2), of b] t'(4) that by blast
  then have "set (filter (\<lambda>x. x \<notin> set (timetree el)) (timetree el')) = set xs" using st(1) t'(1,3) by auto
  then show "\<exists>t'. timetree el' = s @ t' \<and> tt_ok (te_heap el') (s @ t') \<and>
      set t' = set t \<union> set (filter (\<lambda>x. x \<notin> set (timetree el)) (timetree el')) \<and>
      (\<forall>b \<in> set (filter (\<lambda>x. x \<notin> set (timetree el)) (timetree el')). now < te_time (te_heap el') b \<and> b \<notin> dom (te_heap el))"
    using t' by (intro exI [of _ t']) simp
qed

lemma create_file_timers:
  assumes "aeCreateFileEvent env fd msk proc cd (el, w) = Some (r, el', w')"
  shows "te_heap el' = te_heap el \<and> timetree el' = timetree el \<and> (w' = w \<or> w' = snd (e_ctl env fd w))"
proof (cases "fd \<ge> setsize el")
  case True
  then show ?thesis using assms by (simp add: aeCreateFileEvent_def)
next
  case False
  then obtain r1 el1 w1 where add: "aeApiAddEvent env fd msk (el, w) = Some (r1, el1, w1)"
    using assms by (cases "aeApiAddEvent env fd msk (el, w)") (auto simp: aeCreateFileEvent_def)
  from add_event_shape [OF this] obtain e where el1: "el1 = el\<lparr>ep_interest := e\<rparr>" by blast
  have w1: "w1 = snd (e_ctl env fd w)"
    using add by (cases "event_at el fd") (auto simp: aeApiAddEvent_def epoll_ctl_def Let_def split: prod.splits if_splits)
  show ?thesis
  proof (cases "r1 = - 1")
    case True
    then show ?thesis using assms False w1 by (auto simp: aeCreateFileEvent_def add el1)
  next
    case r1: False
    then show ?thesis using assms False w1
      by (cases "event_at el fd") (auto simp: aeCreateFileEvent_def add el1 Let_def split: if_splits)
  qed
qed

context running_clock
begin

lemma base_world: "timer_world (timer_base env) now (I \<circ> fst) snd"
proof
  show "valid_tv t \<and> now \<le> us t \<and> (I \<circ> fst) w' \<and> snd w' = snd w"
    if "(I \<circ> fst) w" "e_time (timer_base env) w = (t, w')" for w t w'
    using that clock_reads [of "fst w" t "fst w'"]
    by (cases w) (auto simp: timer_base_def lift_world_def Let_def split: prod.splits)
  show "(I \<circ> fst) w' \<and> snd w' = snd w \<and> (\<forall>a g. r = Some (a, g) \<longrightarrow> a \<notin> dom hp)"
    if "(I \<circ> fst) w" "e_malloc (timer_base env) hp w = (r, w')" for w hp r w'
    using that allocates [of "fst w" hp r "fst w'"]
    by (cases w) (auto simp: timer_base_def lift_world_def Let_def split: prod.splits)
qed

lemma run_call_adds:
  assumes "run_call (timer_base env) c (el, w) = (el', w')" "I (fst w)"
    "\<And>tv proc cd. c = Create_time tv proc cd \<Longrightarrow> valid_tv tv \<and> 0 < us tv"
  shows "\<exists>xs. adds_timers now el el' xs \<and> I (fst w') \<and> snd w' = snd w"
proof (cases c)
  case (Create_file fd msk proc cd)
  show ?thesis
  proof (cases "aeCreateFileEvent (timer_base env) (int fd) msk proc cd (el, w)")
    case None
    then show ?thesis using assms(1,2) Create_file adds_timers_none [of el el now] by auto
  next
    case (Some res)
    then have some: "aeCreateFileEvent (timer_base env) (int fd) msk proc cd (el, w) = Some (fst res, el', w')"
      using assms(1) Create_file by (cases res) auto
    note k = create_file_timers [OF some]
    obtain ok w1 where ctl: "e_ctl env (int fd) (fst w) = (ok, w1)" by fastforce
    have "snd (e_ctl (timer_base env) (int fd) w) = (w1, snd w)"
      using ctl by (cases w) (simp add: timer_base_def lift_world_def)
    then have "I (fst w') \<and> snd w' = snd w" using k registers [OF assms(2) ctl] assms(2) by (metis fst_conv snd_conv)
    then show ?thesis using k adds_timers_none [of el' el now] by blast
  qed
next
  case (Create_time tv proc cd)
  obtain r where "aeCreateTimeEvent (timer_base env) (Some tv) proc cd 0 (el, w) = (r, el', w')"
    using assms(1) Create_time by (cases "aeCreateTimeEvent (timer_base env) (Some tv) proc cd 0 (el, w)") auto
  from timer_world.create_time_adds [OF base_world this] show ?thesis using assms(2,3) Create_time by auto
next
  case Stop_loop
  then show ?thesis using assms(1,2) adds_timers_none [of el' el now] by (auto simp: aeStop_def)
qed

lemma script_adds:
  "fold (run_call (timer_base env)) cs (el, w) = (el', w') \<Longrightarrow> I (fst w) \<Longrightarrow>
   (\<And>tv proc cd. Create_time tv proc cd \<in> set cs \<Longrightarrow> valid_tv tv \<and> 0 < us tv) \<Longrightarrow>
   \<exists>xs. adds_timers now el el' xs \<and> I (fst w') \<and> snd w' = snd w"
proof (induction cs arbitrary: el w)
  case Nil
  then show ?case using adds_timers_none [of el el now] by auto
next
  case (Cons c cs)
  obtain el1 w1 where c: "run_call (timer_base env) c (el, w) = (el1, w1)" by (metis surj_pair)
  from run_call_adds [OF this Cons.prems(2)] Cons.prems(3) obtain xs where
    1: "adds_timers now el el1 xs" "I (fst w1)" "snd w1 = snd w" by fastforce
  have "fold (run_call (timer_base env)) cs (el1, w1) = (el', w')" using Cons.prems(1) c by simp
  from Cons.IH [OF this 1(2)] Cons.prems(3) obtain ys where
    "adds_timers now el1 el' ys" "I (fst w')" "snd w' = snd w1" by fastforce
  then show ?case using adds_timers_trans [OF 1(1)] 1(3) by auto
qed

lemma scripts_obey:
  assumes "positive_periods script"
  shows "timers (timer_scripts script body env) now (I \<circ> fst) snd"
proof -
  have same: "e_time (timer_scripts script body env) = e_time (timer_base env)"
    "e_malloc (timer_scripts script body env) = e_malloc (timer_base env)" by (simp_all add: timer_scripts_def)
  have world: "timer_world (timer_scripts script body env) now (I \<circ> fst) snd"
    using base_world unfolding timer_world_def same .
  moreover have "(I \<circ> fst) w' \<and> (\<exists>xs. snd w' = snd w @ [(p, cd, ret, xs)] \<and> adds_timers now el el' xs)"
    if w: "(I \<circ> fst) w" and call: "e_timeProc (timer_scripts script body env) p cd (el, w) = (ret, el', w')"
    for w p cd el ret el' w'
  proof -
    obtain el1 w1 l where f: "fold (run_call (timer_base env)) (script p) (el, w) = (el1, w1, l)" by (metis prod_cases3)
    obtain ret1 w2 where b: "body p cd w1 = (ret1, w2)" by fastforce
    have "\<exists>xs. adds_timers now el el1 xs \<and> I (fst (w1, l)) \<and> snd (w1, l) = snd w"
    proof (rule script_adds [OF f])
      show "I (fst w)" using w by simp
      show "valid_tv tv \<and> 0 < us tv" if "Create_time tv proc cd \<in> set (script p)" for tv proc cd
        using assms that unfolding positive_periods_def by blast
    qed
    then obtain xs where 1: "adds_timers now el el1 xs" "I w1" "l = snd w" by auto
    have "ret = ret1" "el' = el1" "w' = (w2, l @ [(p, cd, ret1, filter (\<lambda>x. x \<notin> set (timetree el)) (timetree el1))])"
      using call by (auto simp: timer_scripts_def f b)
    then show ?thesis using 1 adds_timers_started [OF 1(1)] handles [OF 1(2) b] by auto
  qed
  ultimately show ?thesis by (intro timers.intro timers_axioms.intro) auto
qed

end

text \<open>
  C4. Time events.  The conditions: the events in the tree have valid times and positive periods;
  during the call the clock is not set back behind its first reading; \<open>malloc\<close> gives memory that is
  not in use; and a handler does no more to the loop than register descriptors, stop it, and start
  timers of a positive period (\<open>scripts_obey\<close>: handlers written with the interface do so, in every
  such world).  Then one call of
  \<open>aeProcessTimeEvents\<close> returns, and the handlers it calls are exactly those of the events that
  are due at its reading of the clock, each once, in the order of their times (and addresses).
  An event whose handler returned -1 is gone; any other is armed again as a fresh event with the
  same handler and period, due no earlier than that reading plus the period, or is lost when
  there is no memory.  The tree then holds the events that were not due, the timers the handlers
  started and those armed again; nothing is due at that reading, and the tree is in order.  The
  node of every event that ran stays allocated.
\<close>

theorem time_events_run:
  assumes "timers env (us now) I log" "tt_ok (te_heap el) (timetree el)" "I w" "e_time env w = (now, w0)"
    "D = takeWhile (\<lambda>a. te_time (te_heap el) a \<le> us now) (timetree el)"
  shows "\<exists>el' w' rets started new. aeProcessTimeEvents env (el, w) = Some (el', w') \<and>
    length rets = length D \<and> length started = length D \<and>
    log w' = log w @ map2 (te_call (te_heap el)) D (zip rets started) \<and>
    list_all2 (\<lambda>(a, ret). rearmed env (te_heap el) (te_heap el') (us now) a ret) (zip D rets) new \<and>
    (\<forall>b \<in> set (concat started). b \<notin> dom (te_heap el)) \<and>
    set (timetree el') = (set (timetree el) - set D) \<union> set (concat started) \<union> set (concat new) \<and>
    tt_ok (te_heap el') (timetree el') \<and>
    (\<forall>b \<in> set (timetree el'). us now < te_time (te_heap el') b) \<and> te_heap el \<subseteq>\<^sub>m te_heap el'"
proof -
  define F where "F = dropWhile (\<lambda>a. te_time (te_heap el) a \<le> us now) (timetree el)"
  have t: "timetree el = D @ F" by (simp add: assms(5) F_def)
  have ok: "tt_ok (te_heap el) (D @ F)" using assms(2) t by simp
  have world: "timer_world env (us now) I log" using assms(1) by (simp add: timers_def)
  have law: "valid_tv now" "I w0" "log w0 = log w" using timer_world.time_law [OF world assms(3,4)] by auto
  have late: "\<forall>b \<in> set F. us now < te_time (te_heap el) b"
  proof (cases F)
    case (Cons c G)
    then have c: "us now < te_time (te_heap el) c"
      using hd_dropWhile [of "\<lambda>a. te_time (te_heap el) a \<le> us now" "timetree el"] by (simp add: F_def)
    have F: "tt_ok (te_heap el) (c # G)" using ok Cons by (simp add: tt_ok_append)
    have "te_time (te_heap el) c \<le> te_time (te_heap el) b" if "b \<in> set G" for b
    proof -
      have "compare (te_heap el) c b = - 1" using F that by (simp add: tt_ok_Cons)
      then show ?thesis using compare_us [OF tt_ok_ev [OF F] tt_ok_ev [OF F], of c b] that by (auto split: if_splits)
    qed
    then show ?thesis using c Cons by fastforce
  qed simp
  have due: "\<forall>a \<in> set D. te_time (te_heap el) a \<le> us now" by (auto simp: assms(5) dest: set_takeWhileD)
  have start: "if D = [] then timer_min (timetree el) = None \<or> timer_min (timetree el) \<in> Some ` set F
      else timer_min (timetree el) = Some (hd D)"
    unfolding t by (cases D; cases F) (auto simp: timer_min_def)
  have "set D \<inter> set F = {}" using tt_ok_distinct [OF ok] by auto
  then have rest: "set (timetree el) - set D = set F" by (auto simp: t)
  have "aeProcessTimeEvents env (el, w) = time_loop env now (timer_min (timetree el)) (el, w0)"
    by (simp add: aeProcessTimeEvents_def assms(4))
  then show ?thesis
    using timers.loop_due [OF assms(1) t ok law(1) refl law(2) due late start] law(3) unfolding rest by metis
qed

text \<open>
  A peer that hangs up makes the loop spin.  epoll reports a hang-up or an error without
  readability as writable only: for a descriptor registered for reading no handler is called,
  the event is reported again, and \<open>aeMain\<close> runs round after round and never returns.
\<close>

theorem hangup_spins:
  assumes "file_handlers env {fd}" "ae_inv el" "event_at el fd = Some fe" "fe_mask fe = AE_READABLE"
    "ev AND EPOLLIN = 0" "\<And>w. fst (e_wait env (ep_interest el) 0 w) = Some [(fd, ev)]" "timetree el = []"
  shows "aeMain env (el, w) = None \<and>
    (\<exists>f w'. ae_rounds env n (el\<lparr>stop := False\<rparr>, w) = Some (el\<lparr>stop := False, fired := f\<rparr>, w'))"
proof -
  have reg: "registered el fd" "ep_interest el fd \<noteq> None"
    using assms(2-4) by (auto simp: registered_def ae_consts ae_inv_def)
  have round: "\<exists>f' w'. ae_round env (el\<lparr>stop := False, fired := f\<rparr>, w) = Some (el\<lparr>stop := False, fired := f'\<rparr>, w') \<and>
      length f' = length (fired el)" if f: "length f = length (fired el)" for f w
  proof -
    define el1 where "el1 = el\<lparr>stop := False, fired := f\<rparr>"
    have at: "event_at el1 = event_at el" by (simp add: fun_eq_iff el1_def)
    then have same: "registered el1 = registered el" by (simp add: fun_eq_iff registered_def)
    have inv: "ae_inv el1" using assms(2) f unfolding ae_inv_def same at by (simp add: el1_def)
    obtain w1 where wait: "e_wait env (ep_interest el1) 0 w = (Some [(fd, ev)], w1)"
      using assms(6) [of w] by (cases "e_wait env (ep_interest el) 0 w") (simp add: el1_def)
    have "maxfd el1 \<noteq> - 1" using reg assms(2,3) by (auto simp: el1_def ae_inv_def event_at_def split: if_splits)
    moreover have size: "1 \<le> setsize el" using assms(2,3) by (auto simp: ae_inv_def event_at_def split: if_splits)
    ultimately have "aeProcessEvents env (el1, w) = Some (1, el1\<lparr>fired := (fd, fired_mask ev) # drop 1 f\<rparr>, w1)"
      using file_events_dispatched [OF assms(1) inv _ wait] reg(2) reader_sees_no_hangup [OF _ assms(4,5), of el1 fd] assms(3)
      by (simp add: at) (simp add: el1_def)
    moreover have "length ((fd, fired_mask ev) # drop 1 f) = length (fired el)" using f size assms(2) by (simp add: ae_inv_def)
    ultimately show ?thesis
      using assms(7) by (intro exI [of _ "(fd, fired_mask ev) # drop 1 f"])
        (simp add: ae_round_def aeProcessTimeEvents_def timer_min_def time_loop.simps el1_def split: prod.split)
  qed
  have rounds: "\<exists>f' w'. ae_rounds env n (el\<lparr>stop := False, fired := f\<rparr>, w) = Some (el\<lparr>stop := False, fired := f'\<rparr>, w')"
    if "length f = length (fired el)" for n f w
    using that
  proof (induction n arbitrary: f w)
    case (Suc n)
    from round [OF Suc.prems, of w] Suc.IH show ?case by fastforce
  qed auto
  have all: "\<exists>f w'. ae_rounds env n (el\<lparr>stop := False\<rparr>, w) = Some (el\<lparr>stop := False, fired := f\<rparr>, w')" for n
    using rounds [of "fired el" n w] by simp
  have "aeMain env (el, w) \<noteq> Some s'" for s'
  proof
    assume "aeMain env (el, w) = Some s'"
    then have "ae_loop env (el\<lparr>stop := False\<rparr>, w) = Some s'" by (simp add: aeMain_def)
    from ae_loop_returns [OF this] obtain n where "ae_rounds env n (el\<lparr>stop := False\<rparr>, w) = Some s'" "stop (fst s')" by blast
    then show False using all [of n] by auto
  qed
  then show ?thesis using all by (cases "aeMain env (el, w)") auto
qed

section \<open>A run\<close>

lemma new_loop_inv:
  assumes "aeCreateEventLoop env True garbage_events garbage_fired w = (Some el, w')"
    "length garbage_fired = length garbage_events"
  shows "ae_inv el \<and> tt_ok (te_heap el) (timetree el)"
proof -
  have no: "\<not> registered el fd" for fd
    using assms(1) by (auto simp: aeCreateEventLoop_def registered_def event_at_def split: prod.splits if_splits)
  have fields: "setsize el = int (length (events el))" "length (fired el) = length (events el)" "maxfd el = - 1"
    "ep_interest el = Map.empty" "timetree el = []" "events el = map (\<lambda>fe. fe\<lparr>fe_mask := AE_NONE\<rparr>) garbage_events"
    using assms by (auto simp: aeCreateEventLoop_def split: prod.splits)
  then show ?thesis using no by (auto simp: ae_inv_def tt_ok_def fun_eq_iff event_at_def AE_NONE_def split: if_splits)
qed

text \<open>
  A simulated world: a clock with the readings to come, in microseconds, which need not grow, a
  counter as allocator, and handlers that leave a log.
\<close>

record sim =
  sim_clock :: "int list"
  sim_next :: nat
  sim_log :: "(nat \<times> nat \<times> int) list"

definition sim_junk :: aeTimeEvent where
  "sim_junk = \<lparr>te_timeout = \<lparr>tv_sec = 0, tv_usec = 0\<rparr>, te_tv = \<lparr>tv_sec = 0, tv_usec = 0\<rparr>, te_timeProc = 0, te_mask = 0,
     te_clientData = 777\<rparr>"

definition sim_env :: "(int \<times> int) list \<Rightarrow> sim ae_env" where
  "sim_env evs = \<lparr>
     e_time = \<lambda>w. (\<lparr>tv_sec = hd (sim_clock w) div 1000000, tv_usec = hd (sim_clock w) mod 1000000\<rparr>,
       if length (sim_clock w) < 2 then w else w\<lparr>sim_clock := tl (sim_clock w)\<rparr>),
     e_wait = \<lambda>interest timeout w. (Some evs, w),
     e_ctl = \<lambda>fd w. (True, w),
     e_malloc = \<lambda>hp w. (if hp (sim_next w) = None then Some (sim_next w, sim_junk) else None, w\<lparr>sim_next := sim_next w + 1\<rparr>),
     e_fileProc = \<lambda>p fd cd m (el, w). (el, w\<lparr>sim_log := sim_log w @ [(p, cd, m)]\<rparr>),
     e_timeProc = \<lambda>p cd (el, w). (- 1, el, w)\<rparr>"

text \<open>
  The callbacks of test.c, \<open>loop_forver_time_cb\<close> (1) and \<open>loop_once_time_cb\<close> (2); the second one here also
  starts a timer of half a second and stops the loop.
\<close>

definition test_script :: "nat \<Rightarrow> ae_call list" where
  "test_script p = (if p = 2 then [Create_time \<lparr>tv_sec = 0, tv_usec = 500000\<rparr> 3 0, Stop_loop] else [])"

definition test_cb :: "nat \<Rightarrow> nat \<Rightarrow> sim \<Rightarrow> int \<times> sim" where
  "test_cb p cd w = (if p = 1 then 1 else - 1, w)"

definition clock_from :: "int \<Rightarrow> sim \<Rightarrow> bool" where
  "clock_from now w \<longleftrightarrow> sim_clock w \<noteq> [] \<and> (\<forall>r \<in> set (sim_clock w). now \<le> r)"

interpretation sim: running_clock "sim_env evs" test_cb now "clock_from now" for evs now
proof
  show "valid_tv t \<and> now \<le> us t \<and> clock_from now w'" if w: "clock_from now w" and t: "e_time (sim_env evs) w = (t, w')" for w t w'
  proof -
    have "now \<le> hd (sim_clock w)" using w by (auto simp: clock_from_def)
    moreover have "clock_from now (w\<lparr>sim_clock := tl (sim_clock w)\<rparr>)" if "\<not> length (sim_clock w) < 2"
      using w that by (cases "sim_clock w" rule: remdups_adj.cases) (auto simp: clock_from_def)
    ultimately show ?thesis using w t by (auto simp: sim_env_def us_def valid_tv_def split: if_splits)
  qed
qed (auto simp: sim_env_def clock_from_def test_cb_def split: if_splits)

interpretation sim_timers: timers "timer_scripts test_script test_cb (sim_env evs)" now "clock_from now \<circ> fst" snd
  for evs now
  by (rule sim.scripts_obey) (simp add: positive_periods_def test_script_def valid_tv_def us_def)

interpretation sim: file_handlers "sim_env evs" D for evs D
  by unfold_locales (simp add: sim_env_def keeps_batch_def split: prod.split)

definition blank_event :: aeFileEvent where
  "blank_event = \<lparr>fe_mask = 99, rfileProc = 0, wfileProc = 0, fe_clientData = 0\<rparr>"

definition sim0 :: sim where
  "sim0 = \<lparr>sim_clock = [5000000, 5000001], sim_next = 40, sim_log = []\<rparr>"

definition loop0 :: aeEventLoop where
  "loop0 = the (fst (aeCreateEventLoop (sim_env []) True (replicate 4 blank_event) (replicate 4 (0, 0)) sim0))"

text \<open>Descriptor 3 is registered for reading, the two timers are armed with a period of one second.\<close>

definition entry0 :: aeFileEvent where
  "entry0 = blank_event\<lparr>fe_mask := AE_NONE\<rparr>"

definition loop1 :: aeEventLoop where
  "loop1 = with_file_event loop0 3 (file_entry entry0 AE_READABLE 9 0)"

definition second :: timeval where
  "second = \<lparr>tv_sec = 1, tv_usec = 0\<rparr>"

definition loop2 :: "aeEventLoop \<times> sim" where
  "loop2 = snd (aeCreateTimeEvent (sim_env []) (Some second) 2 0 0
     (snd (aeCreateTimeEvent (sim_env []) (Some second) 1 0 0 (loop1, sim0))))"

lemmas sim_simps = sim_env_def sim0_def sim_junk_def blank_event_def second_def

lemma loop0_inv: "ae_inv loop0" "setsize loop0 = 4"
proof -
  obtain w' where "aeCreateEventLoop (sim_env []) True (replicate 4 blank_event) (replicate 4 (0, 0)) sim0 = (Some loop0, w')"
    by (simp add: loop0_def aeCreateEventLoop_def sim_simps)
  from new_loop_inv [OF this] show "ae_inv loop0" by simp
  show "setsize loop0 = 4" by (simp add: loop0_def aeCreateEventLoop_def sim_simps)
qed

theorem create_file_event_witness:
  "aeCreateFileEvent (sim_env []) 4 AE_READABLE 9 0 (loop0, sim0) = Some (AE_ERR, loop0, sim0) \<and>
   aeCreateFileEvent (sim_env []) (- 2) AE_READABLE 9 0 (loop0, sim0) = None"
  using create_file_event [OF loop0_inv(1), of AE_READABLE 4 "sim_env []" 9 0 sim0]
    create_file_event [OF loop0_inv(1), of AE_READABLE "- 2" "sim_env []" 9 0 sim0] loop0_inv(2)
  by (simp add: AE_READABLE_def)

lemma loop0_eq: "loop0 = \<lparr>maxfd = - 1, setsize = 4, eventtv = \<lparr>tv_sec = 5, tv_usec = 0\<rparr>, events = replicate 4 entry0,
     fired = replicate 4 (0, 0), timetree = [], te_heap = Map.empty, stop = False, ep_interest = Map.empty\<rparr>"
  by (simp add: loop0_def aeCreateEventLoop_def sim_simps entry0_def)

lemma loop1_inv: "ae_inv loop1" "maxfd loop1 = 3" "setsize loop1 = 4" "ep_interest loop1 = [3 \<mapsto> EPOLLIN]"
    "event_at loop1 3 = Some (file_entry entry0 AE_READABLE 9 0)" "timetree loop1 = []"
proof -
  have fe: "event_at loop0 3 = Some entry0" by (simp add: event_at_def loop0_eq numeral_eq_Suc)
  show "ae_inv loop1"
    unfolding loop1_def by (rule with_file_event_inv [OF loop0_inv(1) fe]) (simp add: AE_READABLE_def)
  show "maxfd loop1 = 3" "setsize loop1 = 4" "ep_interest loop1 = [3 \<mapsto> EPOLLIN]"
    "event_at loop1 3 = Some (file_entry entry0 AE_READABLE 9 0)" "timetree loop1 = []"
    by (simp_all add: loop1_def with_file_event_def loop0_eq file_entry_def entry0_def blank_event_def epoll_flags_def
        event_at_def numeral_eq_Suc ae_consts)
qed

lemma sim_handlers: "file_handlers (sim_env evs) D"
  by (rule sim.file_handlers_axioms)

theorem file_events_dispatched_witness:
  "aeProcessEvents (sim_env [(3, 1)]) (loop1, sim0) =
     Some (1, loop1\<lparr>fired := (3, 1) # replicate 3 (0, 0)\<rparr>, sim0\<lparr>sim_log := [(9, 0, 1)]\<rparr>)"
proof -
  have wait: "e_wait (sim_env [(3, 1)]) (ep_interest loop1) 0 sim0 = (Some [(3, 1)], sim0)" by (simp add: sim_env_def)
  have calls: "file_calls loop1 (3, 1) = [(9, 3, 0, 1)]"
    by (simp add: file_calls_def loop1_inv file_entry_def entry0_def blank_event_def fired_mask_def ae_consts)
  have fired: "fired loop1 = replicate 4 (0, 0)" by (simp add: loop1_def with_file_event_def loop0_eq)
  from file_events_dispatched [OF sim_handlers [of "[(3, 1)]" "{3}"] loop1_inv(1) _ wait] loop1_inv(2-4) calls fired
  show ?thesis by (simp add: fired_mask_def ae_consts numeral_eq_Suc) (simp add: sim_env_def sim0_def)
qed

text \<open>A handler that stops the loop.\<close>

definition stop_env :: "sim ae_env" where
  "stop_env = scripted (\<lambda>p. [Stop_loop]) (sim_env [(3, 1)])"

theorem main_returns_when_stopped_witness:
  "\<exists>s'. aeMain stop_env (loop1, sim0) = Some s' \<and> stop (fst s')"
proof -
  define s' where "s' = the (ae_rounds stop_env 1 (loop1\<lparr>stop := False\<rparr>, sim0))"
  have fe: "event_at loop1 3 = Some (file_entry entry0 AE_READABLE 9 0)" "fired loop1 = replicate 4 (0, 0)"
    "stop loop1 = False" "maxfd loop1 = 3" "timetree loop1 = []"
    by (simp_all add: loop1_inv) (simp_all add: loop1_def with_file_event_def loop0_eq)
  have "ae_rounds stop_env 1 (loop1\<lparr>stop := False\<rparr>, sim0) = Some s' \<and> stop (fst s')"
    by (simp add: s'_def ae_round_def aeProcessEvents_def aeApiPoll_def stop_env_def scripted_def sim_env_def fe
        process_fired_def file_entry_def entry0_def blank_event_def fired_mask_def ae_consts aeStop_def
        aeProcessTimeEvents_def timer_min_def time_loop.simps)
  then have "aeMain stop_env (loop1, sim0) = Some s'" "stop (fst s')"
    using main_returns_when_stopped [of stop_env loop1 sim0 s'] by (auto intro!: exI [of _ 1] exI [of _ 1])
  then show ?thesis by blast
qed

theorem hangup_spins_witness:
  "aeMain (sim_env [(3, EPOLLHUP)]) (loop1, sim0) = None"
  using hangup_spins [OF sim_handlers loop1_inv(1,5) _ _ _ loop1_inv(6), of EPOLLHUP "[(3, EPOLLHUP)]" sim0 0]
  by (simp add: sim_env_def file_entry_def entry0_def blank_event_def ae_consts)

text \<open>
  A second and a bit later both timers run, in the order of their times, and the second one starts
  another; the clock jumps forward by 0.2 and back by 0.1 seconds meanwhile.  The handlers are given
  the garbage that \<open>malloc\<close> returned and not the argument 0 they were created with.
\<close>

definition sim1 :: sim where
  "sim1 = (snd loop2)\<lparr>sim_clock := [6500000, 6700000, 6600000]\<rparr>"

definition timer_at :: "nat \<Rightarrow> int \<Rightarrow> aeTimeEvent" where
  "timer_at proc usec = \<lparr>te_timeout = \<lparr>tv_sec = 6, tv_usec = usec\<rparr>, te_tv = second, te_timeProc = proc, te_mask = 0,
     te_clientData = 777\<rparr>"

lemma loop2_timers: "timetree (fst loop2) = [40, 41]" "te_heap (fst loop2) = [40 \<mapsto> timer_at 1 0, 41 \<mapsto> timer_at 2 1]"
proof -
  have "timetree loop1 = []" "te_heap loop1 = Map.empty" by (simp_all add: loop1_def with_file_event_def loop0_eq)
  then show "timetree (fst loop2) = [40, 41]" "te_heap (fst loop2) = [40 \<mapsto> timer_at 1 0, 41 \<mapsto> timer_at 2 1]"
    by (simp_all add: loop2_def aeCreateTimeEvent_def sim_simps timeradd_def timer_insert_def compare_def
        timercmp_less_def timer_at_def Let_def)
qed

theorem time_events_run_witness:
  "\<exists>el' w' r1 r2 x1 x2. aeProcessTimeEvents (timer_scripts test_script test_cb (sim_env [])) (fst loop2, sim1, []) = Some (el', w') \<and>
     snd w' = [(1, 777, r1, x1), (2, 777, r2, x2)] \<and> (\<forall>b \<in> set (timetree el'). 6500000 < te_time (te_heap el') b)"
proof -
  define tv where "tv = \<lparr>tv_sec = 6 :: int, tv_usec = 500000\<rparr>"
  have tv: "us tv = 6500000" by (simp add: tv_def us_def)
  have ok: "tt_ok (te_heap (fst loop2)) (timetree (fst loop2))"
    by (simp add: loop2_timers tt_ok_def ev_ok_def timer_at_def second_def valid_tv_def us_def compare_def timercmp_less_def)
  have laws: "timers (timer_scripts test_script test_cb (sim_env [])) (us tv) (clock_from (us tv) \<circ> fst) snd"
    by (rule sim_timers.timers_axioms)
  have I: "(clock_from (us tv) \<circ> fst) (sim1, [])" by (simp add: tv clock_from_def sim1_def)
  have now: "e_time (timer_scripts test_script test_cb (sim_env [])) (sim1, []) =
      (tv, sim1\<lparr>sim_clock := [6700000, 6600000]\<rparr>, [])"
    by (simp add: timer_scripts_def timer_base_def lift_world_def sim_env_def sim1_def tv_def)
  have due: "takeWhile (\<lambda>a. te_time (te_heap (fst loop2)) a \<le> us tv) (timetree (fst loop2)) = [40, 41]"
    by (simp add: tv loop2_timers te_time_def timer_at_def) (simp add: us_def)
  from time_events_run [OF laws ok I now due [symmetric]]
  obtain el' w' rets started where r: "aeProcessTimeEvents (timer_scripts test_script test_cb (sim_env [])) (fst loop2, sim1, []) = Some (el', w')"
    "length rets = length [40 :: nat, 41]" "length started = length [40 :: nat, 41]"
    "snd w' = snd (sim1, []) @ map2 (te_call (te_heap (fst loop2))) [40, 41] (zip rets started)"
    "\<forall>b \<in> set (timetree el'). us tv < te_time (te_heap el') b" by blast
  from r(2,3) obtain r1 r2 x1 x2 where "rets = [r1, r2]" "started = [x1, x2]" by (auto simp: numeral_eq_Suc length_Suc_conv)
  then have "snd w' = [(1, 777, r1, x1), (2, 777, r2, x2)]"
    using r(4) by (simp add: te_call_def loop2_timers timer_at_def)
  then show ?thesis using r(1,5) by (auto simp: tv)
qed

text \<open>\<open>timeout_correct\<close> moves every event of the tree by the same time and keeps the order.\<close>

lemma timeout_correct_keeps_order:
  assumes "tt_ok (te_heap el) (timetree el)" "valid_tv off"
  shows "tt_ok (te_heap (timeout_correct off el)) (timetree el) \<and>
    (\<forall>a \<in> set (timetree el). te_time (te_heap (timeout_correct off el)) a = te_time (te_heap el) a - us off)"
proof -
  define hp where "hp = te_heap el"
  define upd where "upd = (\<lambda>ev :: aeTimeEvent. ev\<lparr>te_timeout := timersub (te_timeout ev) off\<rparr>)"
  have fold: "distinct t \<Longrightarrow> fold (\<lambda>a hp. hp(a := map_option upd (hp a))) t h b =
      (if b \<in> set t then map_option upd (h b) else h b)" for t h b
    by (induction t arbitrary: h) auto
  have heap: "te_heap (timeout_correct off el) b = (if b \<in> set (timetree el) then map_option upd (hp b) else hp b)" for b
    using fold [OF tt_ok_distinct [OF assms(1)]] by (simp add: timeout_correct_def upd_def hp_def)
  define hp' where "hp' = te_heap (timeout_correct off el)"
  have ev: "ev_ok hp' a \<and> te_time hp' a = te_time hp a - us off" if a: "a \<in> set (timetree el)" for a
  proof -
    obtain ev where "hp a = Some ev" "valid_tv (te_timeout ev)" "valid_tv (te_tv ev)" "0 < us (te_tv ev)"
      using tt_ok_ev [OF assms(1) a] by (auto simp: ev_ok_def hp_def)
    then show ?thesis using timersub_us [OF _ assms(2), of "te_timeout ev"] a
      by (simp add: ev_ok_def te_time_def hp'_def heap upd_def)
  qed
  have "sorted_wrt (\<lambda>a b. compare hp' a b = - 1) (timetree el)"
  proof (rule sorted_wrt_mono_rel)
    show "sorted_wrt (\<lambda>a b. compare hp a b = - 1) (timetree el)" using assms(1) by (simp add: tt_ok_def hp_def)
    fix a b assume ab: "a \<in> set (timetree el)" "b \<in> set (timetree el)" "compare hp a b = - 1"
    have "ev_ok hp a" "ev_ok hp b" using tt_ok_ev [OF assms(1)] ab by (simp_all add: hp_def)
    then show "compare hp' a b = - 1"
      using compare_us [of hp a b] compare_us [of hp' a b] ev [OF ab(1)] ev [OF ab(2)] ab(3) by (simp split: if_splits)
  qed
  then show ?thesis using ev by (auto simp: tt_ok_def list_all_iff hp'_def hp_def)
qed

text \<open>
  \<open>aeApiDelEvent\<close>, which nothing calls, would break the table: the mask of the entry stays, so a
  later registration of the descriptor is a modification, which the kernel refuses.
\<close>

lemma del_event_breaks_table:
  assumes "ae_inv el" "event_at el fd = Some fe" "fe_mask fe \<noteq> AE_NONE" "\<And>w. fst (e_ctl env fd w)" "fd < setsize el"
  shows "\<exists>el' w'. aeApiDelEvent env fd 3 (el, w) = Some (el', w') \<and> ep_interest el' fd = None \<and> event_at el' fd = Some fe \<and>
    (\<exists>w''. aeCreateFileEvent env fd AE_READABLE proc cd (el', w') = Some (AE_ERR, el', w''))"
proof -
  have "fe_mask fe \<in> {0, 1, 2, 3}" using assms(1,2) by (simp add: ae_inv_def)
  then have "fe_mask fe AND NOT 3 = 0" by (elim insertE emptyE) simp_all
  moreover obtain w' where "e_ctl env fd w = (True, w')" using assms(4) [of w] by (cases "e_ctl env fd w") simp
  moreover obtain w'' where "e_ctl env fd w' = (True, w'')" using assms(4) [of w'] by (cases "e_ctl env fd w'") simp
  ultimately show ?thesis using assms(2,3,5)
    by (simp add: aeApiDelEvent_def aeCreateFileEvent_def aeApiAddEvent_def epoll_ctl_def AE_NONE_def Let_def)
qed

end
