(* ===== verification/Rb_Tree.thy ===== *)
theory Rb_Tree
  imports Prelude
begin

text \<open>
  The red-black tree of src/cnm/net/tree.h, as \<open>RB_GENERATE\<close> expands it with an empty \<open>RB_AUGMENT\<close>.
  The heap maps addresses to the \<open>RB_ENTRY\<close> of the elements; \<open>cmp\<close> is the comparison of two
  elements.  Macros and branches that are mirror images of each other are one definition with a
  \<open>side\<close>.  \<^term>\<open>None\<close> as a result is the use of a NULL or dangling pointer.
\<close>

section \<open>The code\<close>

definition RB_BLACK :: int where
  "RB_BLACK = 0"

definition RB_RED :: int where
  "RB_RED = 1"

lemma colors_differ [simp]: "RB_RED \<noteq> RB_BLACK" "RB_BLACK \<noteq> RB_RED"
  by (simp_all add: RB_RED_def RB_BLACK_def)

record rb_node =
  rbe_left :: "nat option"
  rbe_right :: "nat option"
  rbe_parent :: "nat option"
  rbe_color :: int

type_synonym rb_state = "(nat \<rightharpoonup> rb_node) \<times> nat option"

datatype side = LeftS | RightS

primrec opp :: "side \<Rightarrow> side" where
  "opp LeftS = RightS"
| "opp RightS = LeftS"

primrec rb_link :: "side \<Rightarrow> rb_node \<Rightarrow> nat option" where
  "rb_link LeftS = rbe_left"
| "rb_link RightS = rbe_right"

primrec set_link :: "side \<Rightarrow> nat option \<Rightarrow> rb_node \<Rightarrow> rb_node" where
  "set_link LeftS p = rbe_left_update (\<lambda>_. p)"
| "set_link RightS p = rbe_right_update (\<lambda>_. p)"

definition set_parent :: "nat option \<Rightarrow> rb_node \<Rightarrow> rb_node" where
  "set_parent p = rbe_parent_update (\<lambda>_. p)"

definition set_color :: "int \<Rightarrow> rb_node \<Rightarrow> rb_node" where
  "set_color c = rbe_color_update (\<lambda>_. c)"

definition rb_get :: "rb_state \<Rightarrow> nat option \<Rightarrow> rb_node option" where
  "rb_get st p = Option.bind p (fst st)"

definition rb_put :: "nat option \<Rightarrow> (rb_node \<Rightarrow> rb_node) \<Rightarrow> rb_state \<Rightarrow> rb_state option" where
  "rb_put p f st = do { a \<leftarrow> p; nd \<leftarrow> fst st a; Some ((fst st)(a \<mapsto> f nd), snd st) }"

text \<open>A NULL or black child: \<open>RB_LEFT(tmp) == NULL || RB_COLOR(RB_LEFT(tmp)) == RB_BLACK\<close>.\<close>

definition rb_is_black :: "rb_state \<Rightarrow> nat option \<Rightarrow> bool option" where
  "rb_is_black st p = (if p = None then Some True else do { nd \<leftarrow> rb_get st p; Some (rbe_color nd = RB_BLACK) })"

text \<open>A red child: \<open>tmp && RB_COLOR(tmp) == RB_RED\<close>.\<close>

definition rb_is_red :: "rb_state \<Rightarrow> nat option \<Rightarrow> bool option" where
  "rb_is_red st p = (if p = None then Some False else do { nd \<leftarrow> rb_get st p; Some (rbe_color nd = RB_RED) })"

definition RB_SET :: "nat option \<Rightarrow> nat option \<Rightarrow> rb_state \<Rightarrow> rb_state option" where
  "RB_SET elm parent st = rb_put elm (\<lambda>nd. nd\<lparr>rbe_parent := parent, rbe_left := None, rbe_right := None, rbe_color := RB_RED\<rparr>) st"

definition RB_SET_BLACKRED :: "nat option \<Rightarrow> nat option \<Rightarrow> rb_state \<Rightarrow> rb_state option" where
  "RB_SET_BLACKRED black red st = do { st \<leftarrow> rb_put black (set_color RB_BLACK) st; rb_put red (set_color RB_RED) st }"

text \<open>The link to \<open>old\<close> from its parent, or the root, becomes \<open>new\<close>.\<close>

definition rb_replace :: "nat option \<Rightarrow> nat option \<Rightarrow> nat option \<Rightarrow> rb_state \<Rightarrow> rb_state option" where
  "rb_replace parent old new st =
     (if parent \<noteq> None then do {
        np \<leftarrow> rb_get st parent;
        if old = rbe_left np then rb_put parent (set_link LeftS new) st else rb_put parent (set_link RightS new) st
      } else Some (fst st, new))"

text \<open>\<open>if (p) RB_PARENT(p) = parent\<close> and \<open>if (p) RB_COLOR(p) = RB_BLACK\<close>.\<close>

definition rb_adopt :: "nat option \<Rightarrow> nat option \<Rightarrow> rb_state \<Rightarrow> rb_state option" where
  "rb_adopt p parent st = (if p \<noteq> None then rb_put p (set_parent parent) st else Some st)"

definition rb_blacken :: "nat option \<Rightarrow> rb_state \<Rightarrow> rb_state option" where
  "rb_blacken p st = (if p \<noteq> None then rb_put p (set_color RB_BLACK) st else Some st)"

text \<open>\<open>RB_ROTATE_LEFT\<close> and \<open>RB_ROTATE_RIGHT\<close>.\<close>

definition RB_ROTATE :: "side \<Rightarrow> nat option \<Rightarrow> rb_state \<Rightarrow> rb_state option" where
  "RB_ROTATE s elm st = do {
     ne \<leftarrow> rb_get st elm;
     let tmp = rb_link (opp s) ne;
     nt \<leftarrow> rb_get st tmp;
     st \<leftarrow> rb_put elm (set_link (opp s) (rb_link s nt)) st;
     st \<leftarrow> rb_adopt (rb_link s nt) elm st;
     ne \<leftarrow> rb_get st elm;
     st \<leftarrow> rb_put tmp (set_parent (rbe_parent ne)) st;
     st \<leftarrow> rb_replace (rbe_parent ne) elm tmp st;
     st \<leftarrow> rb_put tmp (set_link s elm) st;
     rb_put elm (set_parent tmp) st }"

text \<open>
  The body of the loop of \<open>RB_INSERT_COLOR\<close> for a parent on side \<open>s\<close> of the grandparent: the next
  \<open>elm\<close> and the new state.
\<close>

definition insert_color_side :: "side \<Rightarrow> nat option \<Rightarrow> nat option \<Rightarrow> nat option \<Rightarrow> rb_state \<Rightarrow> (nat option \<times> rb_state) option" where
  "insert_color_side s elm parent gparent st = do {
     ng \<leftarrow> rb_get st gparent;
     let tmp = rb_link (opp s) ng;
     red \<leftarrow> rb_is_red st tmp;
     if red then do {
       st \<leftarrow> rb_put tmp (set_color RB_BLACK) st;
       st \<leftarrow> RB_SET_BLACKRED parent gparent st;
       Some (gparent, st)
     } else do {
       np \<leftarrow> rb_get st parent;
       (elm, parent, st) \<leftarrow> (if rb_link (opp s) np = elm then do {
           st \<leftarrow> RB_ROTATE s parent st;
           Some (parent, elm, st)
         } else Some (elm, parent, st));
       st \<leftarrow> RB_SET_BLACKRED parent gparent st;
       st \<leftarrow> RB_ROTATE (opp s) gparent st;
       Some (elm, st) } }"

partial_function (option) RB_INSERT_COLOR :: "nat option \<Rightarrow> rb_state \<Rightarrow> rb_state option" where
  "RB_INSERT_COLOR elm st = do {
     ne \<leftarrow> rb_get st elm;
     let parent = rbe_parent ne;
     red \<leftarrow> (if parent = None then Some False else do { np \<leftarrow> rb_get st parent; Some (rbe_color np = RB_RED) });
     if red then do {
       np \<leftarrow> rb_get st parent;
       let gparent = rbe_parent np;
       ng \<leftarrow> rb_get st gparent;
       (elm, st) \<leftarrow> insert_color_side (if parent = rbe_left ng then LeftS else RightS) elm parent gparent st;
       RB_INSERT_COLOR elm st
     } else rb_put (snd st) (set_color RB_BLACK) st }"

text \<open>
  The body of the loop of \<open>RB_REMOVE_COLOR\<close> for \<open>elm\<close> on side \<open>s\<close> of its parent: whether the loop is
  left by \<open>break\<close>, and the next \<open>parent\<close> and \<open>elm\<close>.  The first definition is the part after the
  sibling \<open>tmp\<close> has been made black.
\<close>

definition remove_color_black :: "side \<Rightarrow> nat option \<Rightarrow> nat option \<Rightarrow> rb_state \<Rightarrow> (bool \<times> nat option \<times> nat option \<times> rb_state) option" where
  "remove_color_black s parent tmp st = do {
     nt \<leftarrow> rb_get st tmp;
     near \<leftarrow> rb_is_black st (rb_link s nt);
     far \<leftarrow> rb_is_black st (rb_link (opp s) nt);
     if near \<and> far then do {
       st \<leftarrow> rb_put tmp (set_color RB_RED) st;
       np \<leftarrow> rb_get st parent;
       Some (False, rbe_parent np, parent, st)
     } else do {
       (tmp, st) \<leftarrow> (if far then do {
           st \<leftarrow> rb_blacken (rb_link s nt) st;
           st \<leftarrow> rb_put tmp (set_color RB_RED) st;
           st \<leftarrow> RB_ROTATE (opp s) tmp st;
           np \<leftarrow> rb_get st parent;
           Some (rb_link (opp s) np, st)
         } else Some (tmp, st));
       np \<leftarrow> rb_get st parent;
       st \<leftarrow> rb_put tmp (set_color (rbe_color np)) st;
       st \<leftarrow> rb_put parent (set_color RB_BLACK) st;
       nt \<leftarrow> rb_get st tmp;
       st \<leftarrow> rb_blacken (rb_link (opp s) nt) st;
       st \<leftarrow> RB_ROTATE s parent st;
       Some (True, parent, snd st, st) } }"

definition remove_color_side :: "side \<Rightarrow> nat option \<Rightarrow> rb_state \<Rightarrow> (bool \<times> nat option \<times> nat option \<times> rb_state) option" where
  "remove_color_side s parent st = do {
     np \<leftarrow> rb_get st parent;
     let tmp = rb_link (opp s) np;
     nt \<leftarrow> rb_get st tmp;
     (tmp, st) \<leftarrow> (if rbe_color nt = RB_RED then do {
         st \<leftarrow> RB_SET_BLACKRED tmp parent st;
         st \<leftarrow> RB_ROTATE s parent st;
         np \<leftarrow> rb_get st parent;
         Some (rb_link (opp s) np, st)
       } else Some (tmp, st));
     remove_color_black s parent tmp st }"

partial_function (option) remove_color_loop :: "nat option \<Rightarrow> nat option \<Rightarrow> rb_state \<Rightarrow> (nat option \<times> rb_state) option" where
  "remove_color_loop parent elm st = do {
     black \<leftarrow> rb_is_black st elm;
     if black \<and> elm \<noteq> snd st then do {
       np \<leftarrow> rb_get st parent;
       (stop, parent, elm, st) \<leftarrow> remove_color_side (if rbe_left np = elm then LeftS else RightS) parent st;
       if stop then Some (elm, st) else remove_color_loop parent elm st
     } else Some (elm, st) }"

definition RB_REMOVE_COLOR :: "nat option \<Rightarrow> nat option \<Rightarrow> rb_state \<Rightarrow> rb_state option" where
  "RB_REMOVE_COLOR parent elm st = do {
     (elm, st) \<leftarrow> remove_color_loop parent elm st;
     rb_blacken elm st }"

text \<open>\<open>elm\<close> with at most one child, \<open>child\<close>, is taken out.\<close>

definition rb_unlink :: "nat option \<Rightarrow> nat option \<Rightarrow> nat option \<Rightarrow> rb_state \<Rightarrow> rb_state option" where
  "rb_unlink elm child parent st = do {
     st \<leftarrow> rb_adopt child parent st;
     rb_replace parent elm child st }"

partial_function (option) rb_leftmost :: "rb_state \<Rightarrow> nat option \<Rightarrow> nat option option" where
  "rb_leftmost st elm = do {
     ne \<leftarrow> rb_get st elm;
     if rbe_left ne \<noteq> None then rb_leftmost st (rbe_left ne) else Some elm }"

text \<open>\<open>elm\<close> takes the place of \<open>old\<close>.\<close>

definition rb_exchange :: "nat option \<Rightarrow> nat option \<Rightarrow> rb_state \<Rightarrow> rb_state option" where
  "rb_exchange elm old st = do {
     no \<leftarrow> rb_get st old;
     st \<leftarrow> rb_put elm (\<lambda>_. no) st;
     st \<leftarrow> rb_replace (rbe_parent no) old elm st;
     no \<leftarrow> rb_get st old;
     st \<leftarrow> rb_put (rbe_left no) (set_parent elm) st;
     no \<leftarrow> rb_get st old;
     rb_adopt (rbe_right no) elm st }"

text \<open>The loop that calls \<open>RB_AUGMENT\<close> on the ancestors of a node only walks up.\<close>

partial_function (option) rb_walk_up :: "rb_state \<Rightarrow> nat option \<Rightarrow> unit option" where
  "rb_walk_up st left = do {
     nl \<leftarrow> rb_get st left;
     if rbe_parent nl \<noteq> None then rb_walk_up st (rbe_parent nl) else Some () }"

definition RB_REMOVE :: "nat option \<Rightarrow> rb_state \<Rightarrow> (nat option \<times> rb_state) option" where
  "RB_REMOVE elm st = do {
     let old = elm;
     ne \<leftarrow> rb_get st elm;
     (color, parent, child, st) \<leftarrow>
       (if rbe_left ne = None \<or> rbe_right ne = None then do {
          let child = (if rbe_left ne = None then rbe_right ne else rbe_left ne);
          st \<leftarrow> rb_unlink elm child (rbe_parent ne) st;
          Some (rbe_color ne, rbe_parent ne, child, st)
        } else do {
          elm \<leftarrow> rb_leftmost st (rbe_right ne);
          ne \<leftarrow> rb_get st elm;
          let child = rbe_right ne;
          let parent = rbe_parent ne;
          let color = rbe_color ne;
          st \<leftarrow> rb_unlink elm child parent st;
          ne \<leftarrow> rb_get st elm;
          let parent = (if rbe_parent ne = old then elm else parent);
          st \<leftarrow> rb_exchange elm old st;
          _ \<leftarrow> (if parent \<noteq> None then rb_walk_up st parent else Some ());
          Some (color, parent, child, st) });
     st \<leftarrow> (if color = RB_BLACK then RB_REMOVE_COLOR parent child st else Some st);
     Some (old, st) }"

text \<open>The search loop: the element found, or the last node visited and the last result of \<open>cmp\<close>.\<close>

partial_function (option) rb_descend :: "(nat \<Rightarrow> nat \<Rightarrow> int) \<Rightarrow> nat \<Rightarrow> rb_state \<Rightarrow> nat option \<Rightarrow> int \<Rightarrow> nat option \<Rightarrow>
    (nat option \<times> nat option \<times> int) option" where
  "rb_descend cmp elm st parent cv tmp =
     (case tmp of
        None \<Rightarrow> Some (None, parent, cv)
      | Some t \<Rightarrow> do {
          nt \<leftarrow> rb_get st tmp;
          let cv = cmp elm t;
          if cv < 0 then rb_descend cmp elm st tmp cv (rbe_left nt)
          else if cv > 0 then rb_descend cmp elm st tmp cv (rbe_right nt)
          else Some (tmp, tmp, cv) })"

definition RB_INSERT :: "(nat \<Rightarrow> nat \<Rightarrow> int) \<Rightarrow> nat \<Rightarrow> rb_state \<Rightarrow> (nat option \<times> rb_state) option" where
  "RB_INSERT cmp elm st = do {
     (found, parent, cv) \<leftarrow> rb_descend cmp elm st None 0 (snd st);
     if found \<noteq> None then Some (found, st)
     else do {
       st \<leftarrow> RB_SET (Some elm) parent st;
       st \<leftarrow> (if parent \<noteq> None then rb_put parent (set_link (if cv < 0 then LeftS else RightS) (Some elm)) st
             else Some (fst st, Some elm));
       st \<leftarrow> RB_INSERT_COLOR (Some elm) st;
       Some (None, st) } }"

definition RB_FIND :: "(nat \<Rightarrow> nat \<Rightarrow> int) \<Rightarrow> nat \<Rightarrow> rb_state \<Rightarrow> nat option option" where
  "RB_FIND cmp elm st = do { (found, _, _) \<leftarrow> rb_descend cmp elm st None 0 (snd st); Some found }"

partial_function (option) rb_climb :: "rb_state \<Rightarrow> nat option \<Rightarrow> nat option option" where
  "rb_climb st elm = do {
     ne \<leftarrow> rb_get st elm;
     up \<leftarrow> (if rbe_parent ne = None then Some False else do { np \<leftarrow> rb_get st (rbe_parent ne); Some (elm = rbe_right np) });
     if up then rb_climb st (rbe_parent ne) else Some (rbe_parent ne) }"

definition RB_NEXT :: "nat option \<Rightarrow> rb_state \<Rightarrow> nat option option" where
  "RB_NEXT elm st = do {
     ne \<leftarrow> rb_get st elm;
     if rbe_right ne \<noteq> None then rb_leftmost st (rbe_right ne)
     else do {
       left \<leftarrow> (if rbe_parent ne = None then Some False else do { np \<leftarrow> rb_get st (rbe_parent ne); Some (elm = rbe_left np) });
       if left then Some (rbe_parent ne) else rb_climb st elm } }"

partial_function (option) rb_minmax :: "int \<Rightarrow> rb_state \<Rightarrow> nat option \<Rightarrow> nat option \<Rightarrow> nat option option" where
  "rb_minmax val st parent tmp =
     (if tmp = None then Some parent
      else do { nt \<leftarrow> rb_get st tmp; rb_minmax val st tmp (if val < 0 then rbe_left nt else rbe_right nt) })"

definition RB_MINMAX :: "int \<Rightarrow> rb_state \<Rightarrow> nat option option" where
  "RB_MINMAX val st = rb_minmax val st None (snd st)"

section \<open>Trees and contexts\<close>

datatype rbt = Tip | Nd int rbt nat rbt

primrec rt :: "rbt \<Rightarrow> nat option" where
  "rt Tip = None"
| "rt (Nd c l a r) = Some a"

primrec nodes :: "rbt \<Rightarrow> nat list" where
  "nodes Tip = []"
| "nodes (Nd c l a r) = nodes l @ a # nodes r"

fun mk :: "side \<Rightarrow> int \<Rightarrow> nat \<Rightarrow> rbt \<Rightarrow> rbt \<Rightarrow> rbt" where
  "mk LeftS c a x y = Nd c x a y"
| "mk RightS c a x y = Nd c y a x"

fun mknode :: "side \<Rightarrow> nat option \<Rightarrow> nat option \<Rightarrow> nat option \<Rightarrow> int \<Rightarrow> rb_node" where
  "mknode LeftS p q par c = \<lparr>rbe_left = p, rbe_right = q, rbe_parent = par, rbe_color = c\<rparr>"
| "mknode RightS p q par c = \<lparr>rbe_left = q, rbe_right = p, rbe_parent = par, rbe_color = c\<rparr>"

primrec rb_at :: "(nat \<rightharpoonup> rb_node) \<Rightarrow> nat option \<Rightarrow> rbt \<Rightarrow> bool" where
  "rb_at h par Tip \<longleftrightarrow> True"
| "rb_at h par (Nd c l a r) \<longleftrightarrow> h a = Some (mknode LeftS (rt l) (rt r) par c) \<and> rb_at h (Some a) l \<and> rb_at h (Some a) r"

type_synonym frame = "side \<times> int \<times> nat \<times> rbt"

fun plug :: "frame list \<Rightarrow> rbt \<Rightarrow> rbt" where
  "plug [] t = t"
| "plug ((s, c, a, y) # k) t = plug k (mk s c a t y)"

fun par :: "frame list \<Rightarrow> nat option" where
  "par [] = None"
| "par ((s, c, a, y) # k) = Some a"

fun ctx_nodes :: "frame list \<Rightarrow> nat set" where
  "ctx_nodes [] = {}"
| "ctx_nodes ((s, c, a, y) # k) = insert a (set (nodes y) \<union> ctx_nodes k)"

fun ctx_distinct :: "frame list \<Rightarrow> bool" where
  "ctx_distinct [] \<longleftrightarrow> True"
| "ctx_distinct ((s, c, a, y) # k) \<longleftrightarrow> a \<notin> set (nodes y) \<and> a \<notin> ctx_nodes k \<and> distinct (nodes y) \<and>
     set (nodes y) \<inter> ctx_nodes k = {} \<and> ctx_distinct k"

fun rb_ctx :: "(nat \<rightharpoonup> rb_node) \<Rightarrow> frame list \<Rightarrow> nat option \<Rightarrow> bool" where
  "rb_ctx h [] p \<longleftrightarrow> True"
| "rb_ctx h ((s, c, a, y) # k) p \<longleftrightarrow> h a = Some (mknode s p (rt y) (par k) c) \<and> rb_at h (Some a) y \<and> rb_ctx h k (Some a)"

text \<open>A state that holds the tree \<open>t\<close>, and the heap \<open>F\<close> elsewhere.\<close>

definition holds :: "(nat \<rightharpoonup> rb_node) \<Rightarrow> rb_state \<Rightarrow> rbt \<Rightarrow> bool" where
  "holds F st t \<longleftrightarrow> rb_at (fst st) None t \<and> snd st = rt t \<and> distinct (nodes t) \<and>
     (\<forall>a. a \<notin> set (nodes t) \<longrightarrow> fst st a = F a)"

lemma rt_mk [simp]: "rt (mk s c a x y) = Some a"
  by (cases s) simp_all

lemma set_nodes_mk [simp]: "set (nodes (mk s c a x y)) = insert a (set (nodes x) \<union> set (nodes y))"
  by (cases s) auto

lemma distinct_nodes_mk [simp]: "distinct (nodes (mk s c a x y)) \<longleftrightarrow> a \<notin> set (nodes x) \<and> a \<notin> set (nodes y) \<and>
    distinct (nodes x) \<and> distinct (nodes y) \<and> set (nodes x) \<inter> set (nodes y) = {}"
  by (cases s) auto

lemma rb_at_mk [simp]: "rb_at h p (mk s c a x y) \<longleftrightarrow> h a = Some (mknode s (rt x) (rt y) p c) \<and> rb_at h (Some a) x \<and> rb_at h (Some a) y"
  by (cases s) auto

lemma mk_opp: "mk (opp s) c a x y = mk s c a y x"
  by (cases s) simp_all

lemma opp_opp [simp]: "opp (opp s) = s"
  by (cases s) simp_all

lemma mknode_sel [simp]:
  "rb_link s (mknode s p q u c) = p" "rb_link (opp s) (mknode s p q u c) = q"
  "rbe_parent (mknode s p q u c) = u" "rbe_color (mknode s p q u c) = c"
  "set_link s p' (mknode s p q u c) = mknode s p' q u c" "set_link (opp s) q' (mknode s p q u c) = mknode s p q' u c"
  "set_parent u' (mknode s p q u c) = mknode s p q u' c" "set_color c' (mknode s p q u c) = mknode s p q u c'"
  by (cases s; simp add: set_parent_def set_color_def)+

lemma rt_in [simp]: "rt t = Some a \<Longrightarrow> a \<in> set (nodes t)"
  by (cases t) auto

lemma rb_at_cong: "(\<And>a. a \<in> set (nodes t) \<Longrightarrow> h' a = h a) \<Longrightarrow> rb_at h' p t = rb_at h p t"
  by (induction t arbitrary: p) auto

lemma rb_at_upd [simp]: "a \<notin> set (nodes t) \<Longrightarrow> rb_at (h(a := v)) p t = rb_at h p t"
  by (rule rb_at_cong) auto

lemma rb_ctx_cong: "(\<And>a. a \<in> ctx_nodes k \<Longrightarrow> h' a = h a) \<Longrightarrow> rb_ctx h' k p = rb_ctx h k p"
proof (induction k arbitrary: p)
  case (Cons f k)
  obtain s c a y where f: "f = (s, c, a, y)" by (cases f)
  then show ?case using Cons rb_at_cong [of y h' h] by auto
qed simp

lemma rb_ctx_upd [simp]: "a \<notin> ctx_nodes k \<Longrightarrow> rb_ctx (h(a := v)) k p = rb_ctx h k p"
  by (rule rb_ctx_cong) auto

lemma rb_at_plug: "rb_at h None (plug k t) \<longleftrightarrow> rb_ctx h k (rt t) \<and> rb_at h (par k) t"
proof (induction k t rule: plug.induct)
  case (2 s c a y k t)
  then show ?case by auto
qed simp

lemma set_nodes_plug: "set (nodes (plug k t)) = ctx_nodes k \<union> set (nodes t)"
  by (induction k t rule: plug.induct) auto

lemma distinct_plug: "distinct (nodes (plug k t)) \<longleftrightarrow> ctx_distinct k \<and> distinct (nodes t) \<and> ctx_nodes k \<inter> set (nodes t) = {}"
  by (induction k t rule: plug.induct) auto

lemma rt_plug: "k \<noteq> [] \<or> rt x = rt y \<Longrightarrow> rt (plug k x) = rt (plug k y)"
proof (induction k arbitrary: x y)
  case (Cons f k)
  obtain s c a z where f: "f = (s, c, a, z)" by (cases f)
  then show ?case using Cons.IH [of "mk s c a x z" "mk s c a y z"] by simp
qed simp

lemma holds_plug:
  "holds F (h, root) (plug k t) \<longleftrightarrow> rb_ctx h k (rt t) \<and> rb_at h (par k) t \<and> root = rt (plug k t) \<and>
     ctx_distinct k \<and> distinct (nodes t) \<and> ctx_nodes k \<inter> set (nodes t) = {} \<and>
     (\<forall>a. a \<notin> ctx_nodes k \<longrightarrow> a \<notin> set (nodes t) \<longrightarrow> h a = F a)"
  by (auto simp: holds_def rb_at_plug distinct_plug set_nodes_plug)

section \<open>Reading, colouring, rotating\<close>

lemma holds_get: "holds F st (plug k (mk s c a x y)) \<Longrightarrow> rb_get st (Some a) = Some (mknode s (rt x) (rt y) (par k) c)"
  by (cases st) (simp add: holds_plug rb_get_def)

lemma holds_root: "holds F st t \<Longrightarrow> snd st = rt t"
  by (simp add: holds_def)

lemma holds_color:
  "holds F st (plug k (mk s c a x y)) \<Longrightarrow> \<exists>st'. rb_put (Some a) (set_color c') st = Some st' \<and> holds F st' (plug k (mk s c' a x y))"
  by (cases st) (auto simp: holds_plug rb_put_def intro: rt_plug)

lemma par_in: "par k = Some a \<Longrightarrow> a \<in> ctx_nodes k"
  by (cases k) auto

lemma rb_replace_ctx:
  assumes "rb_ctx h k (Some e)" "ctx_distinct k" "e \<notin> ctx_nodes k"
  shows "\<exists>h'. rb_replace (par k) (Some e) q (h, root) = Some (h', if k = [] then q else root) \<and> rb_ctx h' k q \<and>
    (\<forall>a. par k \<noteq> Some a \<longrightarrow> h' a = h a)"
proof (cases k)
  case (Cons f k')
  obtain s c a y where f: "f = (s, c, a, y)" by (cases f)
  have "rt y \<noteq> Some e" using assms(3) rt_in by (auto simp: Cons f)
  moreover have "h a = Some (mknode s (Some e) (rt y) (par k') c)" using assms(1) by (simp add: Cons f)
  ultimately show ?thesis using assms
    by (cases s) (auto simp: Cons f rb_replace_def rb_get_def rb_put_def)
qed (simp add: rb_replace_def)

lemma rb_at_parent:
  "rb_at h u t \<Longrightarrow> distinct (nodes t) \<Longrightarrow> rt t = Some b \<Longrightarrow> \<exists>nd. h b = Some nd \<and> rb_at (h(b \<mapsto> set_parent u' nd)) u' t"
  by (cases t) (auto simp: set_parent_def)

lemma rb_adopt_at:
  assumes "rb_at h u t" "distinct (nodes t)"
  shows "\<exists>h'. rb_adopt (rt t) u' (h, root) = Some (h', root) \<and> rb_at h' u' t \<and> (\<forall>e. e \<notin> set (nodes t) \<longrightarrow> h' e = h e)"
proof (cases "rt t")
  case (Some e)
  then obtain nd where "h e = Some nd" "rb_at (h(e \<mapsto> set_parent u' nd)) u' t" using rb_at_parent [OF assms Some] by blast
  then show ?thesis using Some rt_in [OF Some]
    by (intro exI [of _ "h(e \<mapsto> set_parent u' nd)"]) (auto simp: rb_put_def rb_adopt_def)
next
  case None
  then show ?thesis by (cases t) (simp_all add: rb_adopt_def)
qed

text \<open>A rotation; the subtree \<open>y\<close> changes its parent.\<close>

lemma holds_rotate:
  assumes "holds F st (plug k (mk s c a x (mk s d b y z)))"
  shows "\<exists>st'. RB_ROTATE s (Some a) st = Some st' \<and> holds F st' (plug k (mk s d b (mk s c a x y) z))"
proof -
  obtain h root where st: "st = (h, root)" by (cases st)
  define u where "u = par k"
  have H: "rb_ctx h k (Some a)" "h a = Some (mknode s (rt x) (Some b) u c)" "h b = Some (mknode s (rt y) (rt z) (Some a) d)"
    "rb_at h (Some a) x" "rb_at h (Some b) y" "rb_at h (Some b) z" "root = rt (plug k (mk s c a x (mk s d b y z)))"
    and D: "ctx_distinct k" "distinct (nodes (mk s c a x (mk s d b y z)))" "ctx_nodes k \<inter> set (nodes (mk s c a x (mk s d b y z))) = {}"
    and F: "\<forall>e. e \<notin> ctx_nodes k \<longrightarrow> e \<notin> set (nodes (mk s c a x (mk s d b y z))) \<longrightarrow> h e = F e"
    using assms by (auto simp: st holds_plug u_def)
  have ne: "a \<noteq> b" "a \<notin> ctx_nodes k" "b \<notin> ctx_nodes k" "rt y \<noteq> Some a" "rt y \<noteq> Some b" using D(2,3) rt_in [of y] by auto
  define h1 where "h1 = h(a \<mapsto> mknode s (rt x) (rt y) u c)"
  have "rb_at h1 (Some b) y" using H(5) D(2) by (simp add: h1_def)
  then obtain h2 where h2: "rb_adopt (rt y) (Some a) (h1, root) = Some (h2, root)"
    "rb_at h2 (Some a) y" "\<And>e. e \<notin> set (nodes y) \<Longrightarrow> h2 e = h1 e"
    using rb_adopt_at [of h1 "Some b" y "Some a" root] D(2) by auto
  define h3 where "h3 = h2(b \<mapsto> mknode s (rt y) (rt z) u d)"
  have at2: "h2 a = Some (mknode s (rt x) (rt y) u c)" "h2 b = Some (mknode s (rt y) (rt z) (Some a) d)"
    using h2(3) [of a] h2(3) [of b] D(2) H(3) by (auto simp: h1_def)
  have "rb_ctx h3 k (Some a)"
  proof -
    have "h3 e = h e" if "e \<in> ctx_nodes k" for e
    proof -
      have "e \<noteq> a" "e \<noteq> b" "e \<notin> set (nodes y)" using that ne(2,3) D(3) by auto
      then show ?thesis using h2(3) [of e] by (simp add: h3_def h1_def)
    qed
    then show ?thesis using H(1) rb_ctx_cong [of k h3 h] by simp
  qed
  then obtain h4 where h4: "rb_replace (par k) (Some a) (Some b) (h3, root) = Some (h4, if k = [] then Some b else root)"
    "rb_ctx h4 k (Some b)" "\<And>e. par k \<noteq> Some e \<Longrightarrow> h4 e = h3 e"
    using rb_replace_ctx [OF _ D(1) ne(2), of h3 "Some b" root] by blast
  have out: "h4 e = h3 e" if "e \<notin> ctx_nodes k" for e using h4(3) par_in that by blast
  define h5 where "h5 = h4(b \<mapsto> mknode s (Some a) (rt z) u d, a \<mapsto> mknode s (rt x) (rt y) (Some b) c)"
  have at3: "h3 a = Some (mknode s (rt x) (rt y) u c)" "h3 b = Some (mknode s (rt y) (rt z) u d)"
    using at2 ne(1) by (auto simp: h3_def)
  have at4: "h4 a = h3 a" "h4 b = h3 b" using out ne(2,3) by auto
  define r where "r = (if k = [] then Some b else root)"
  have steps: "rb_get (h, root) (Some a) = Some (mknode s (rt x) (Some b) u c)"
    "rb_get (h, root) (Some b) = Some (mknode s (rt y) (rt z) (Some a) d)"
    "rb_put (Some a) (set_link (opp s) (rt y)) (h, root) = Some (h1, root)"
    "rb_get (h2, root) (Some a) = Some (mknode s (rt x) (rt y) u c)"
    "rb_put (Some b) (set_parent u) (h2, root) = Some (h3, root)"
    "rb_put (Some b) (set_link s (Some a)) (h4, r) = Some (h4(b \<mapsto> mknode s (Some a) (rt z) u d), r)"
    "rb_put (Some a) (set_parent (Some b)) (h4(b \<mapsto> mknode s (Some a) (rt z) u d), r) = Some (h5, r)"
    using H(2,3) at2 at3 at4 ne(1) by (simp_all add: rb_get_def rb_put_def h1_def h3_def h5_def)
  have "RB_ROTATE s (Some a) st = Some (h5, if k = [] then Some b else root)"
    unfolding RB_ROTATE_def st
    using h2(1) h4(1) [folded u_def r_def] by (simp add: steps Let_def r_def [symmetric])
  moreover have "holds F (h5, if k = [] then Some b else root) (plug k (mk s d b (mk s c a x y) z))"
  proof -
    have keep: "rb_at h5 p t" if "rb_at h p t" "set (nodes t) \<inter> (insert a (insert b (set (nodes y) \<union> ctx_nodes k))) = {}" for p t
    proof -
      have "h5 e = h e" if "e \<in> set (nodes t)" for e
      proof -
        have "e \<noteq> a" "e \<noteq> b" "e \<notin> set (nodes y)" "e \<notin> ctx_nodes k" using that \<open>set (nodes t) \<inter> _ = {}\<close> by auto
        then show ?thesis using out [of e] h2(3) [of e] by (simp add: h5_def h3_def h1_def)
      qed
      then show ?thesis using that(1) rb_at_cong [of t h5 h] by blast
    qed
    have y: "rb_at h5 (Some a) y"
    proof -
      have "h5 e = h2 e" if "e \<in> set (nodes y)" for e
      proof -
        have "e \<noteq> a" "e \<noteq> b" "e \<notin> ctx_nodes k" using that D(2,3) by auto
        then show ?thesis using out [of e] by (simp add: h5_def h3_def)
      qed
      then show ?thesis using h2(2) rb_at_cong [of y h5 h2] by blast
    qed
    have "rb_at h5 (Some a) x" "rb_at h5 (Some b) z" using H(4,6) D(2,3) by (auto intro!: keep)
    moreover have "rb_ctx h5 k (Some b)" using h4(2) ne(2,3) by (simp add: h5_def)
    moreover have "h5 e = F e" if "e \<notin> ctx_nodes k" "e \<notin> set (nodes (mk s c a x (mk s d b y z)))" for e
      using that F out [of e] h2(3) [of e] by (auto simp: h5_def h3_def h1_def)
    ultimately show ?thesis using D y ne(1) H(7) u_def
      by (auto simp: holds_plug h5_def intro!: rt_plug)
  qed
  ultimately show ?thesis by blast
qed

section \<open>Balance\<close>

primrec col :: "rbt \<Rightarrow> int" where
  "col Tip = RB_BLACK"
| "col (Nd c l a r) = c"

primrec paint :: "int \<Rightarrow> rbt \<Rightarrow> rbt" where
  "paint c Tip = Tip"
| "paint c (Nd c' l a r) = Nd c l a r"

text \<open>Black height \<open>n\<close>, no red node below a red node.\<close>

primrec bal :: "nat \<Rightarrow> rbt \<Rightarrow> bool" where
  "bal n Tip \<longleftrightarrow> n = 0"
| "bal n (Nd c l a r) \<longleftrightarrow> (if c = RB_RED then bal n l \<and> bal n r \<and> col l = RB_BLACK \<and> col r = RB_BLACK
     else c = RB_BLACK \<and> (\<exists>m. n = Suc m \<and> bal m l \<and> bal m r))"

fun topcol :: "frame list \<Rightarrow> int" where
  "topcol [] = RB_BLACK"
| "topcol ((s, c, a, y) # k) = c"

text \<open>A context whose hole takes trees of black height \<open>n\<close>; the root is black.\<close>

fun cbal :: "nat \<Rightarrow> frame list \<Rightarrow> bool" where
  "cbal n [] \<longleftrightarrow> True"
| "cbal n ((s, c, a, y) # k) \<longleftrightarrow> bal n y \<and>
     (if c = RB_RED then col y = RB_BLACK \<and> topcol k = RB_BLACK \<and> k \<noteq> [] \<and> cbal n k else c = RB_BLACK \<and> cbal (Suc n) k)"

lemma bal_mk [simp]: "bal n (mk s c a x y) \<longleftrightarrow>
    (if c = RB_RED then bal n x \<and> bal n y \<and> col x = RB_BLACK \<and> col y = RB_BLACK
     else c = RB_BLACK \<and> (\<exists>m. n = Suc m \<and> bal m x \<and> bal m y))"
  by (cases s) auto

lemma col_mk [simp]: "col (mk s c a x y) = c"
  by (cases s) simp_all

lemma paint_mk [simp]: "paint d (mk s c a x y) = mk s d a x y"
  by (cases s) simp_all

lemma bal_col: "bal n t \<Longrightarrow> col t = RB_RED \<or> col t = RB_BLACK"
  by (cases t) (auto split: if_splits)

lemma rbt_mk: "t \<noteq> Tip \<Longrightarrow> \<exists>c a x y. t = mk s c a x y"
  by (cases t; cases s) auto

lemma rbt_mk_col: "col t = c \<Longrightarrow> t \<noteq> Tip \<Longrightarrow> \<exists>a x y. t = mk s c a x y"
  by (metis rbt_mk col_mk)

lemma mk_flip: "\<exists>x' z'. mk s c e x z = mk s' c e x' z' \<and> (x' = x \<and> z' = z \<or> x' = z \<and> z' = x)"
  by (cases s; cases s') auto

lemma bal_plug: "cbal n k \<Longrightarrow> bal n t \<Longrightarrow> col t = RB_BLACK \<or> topcol k = RB_BLACK \<and> k \<noteq> [] \<Longrightarrow>
    (\<exists>m. bal m (plug k t)) \<and> col (plug k t) = RB_BLACK"
proof (induction k arbitrary: n t)
  case (Cons f k)
  obtain s c a y where f: "f = (s, c, a, y)" by (cases f)
  show ?case
  proof (cases "c = RB_RED")
    case True
    then show ?thesis using Cons.prems Cons.IH [of n "mk s c a t y"] by (simp add: f)
  next
    case False
    then show ?thesis using Cons.prems Cons.IH [of "Suc n" "mk s c a t y"] by (simp add: f)
  qed
qed auto

lemma plug_bal: "bal m (plug k t) \<Longrightarrow> col (plug k t) = RB_BLACK \<Longrightarrow>
    \<exists>n. cbal n k \<and> bal n t \<and> (col t = RB_BLACK \<or> topcol k = RB_BLACK \<and> k \<noteq> [])"
proof (induction k arbitrary: t)
  case (Cons f k)
  obtain s c a y where f: "f = (s, c, a, y)" by (cases f)
  obtain n where n: "cbal n k" "bal n (mk s c a t y)" "c = RB_BLACK \<or> topcol k = RB_BLACK \<and> k \<noteq> []"
    using Cons.IH [of "mk s c a t y"] Cons.prems by (auto simp: f)
  show ?case
  proof (cases "c = RB_RED")
    case True
    then show ?thesis using n by (intro exI [of _ n]) (simp add: f)
  next
    case False
    then obtain n' where "n = Suc n'" "c = RB_BLACK" "bal n' t" "bal n' y" using n(2) by auto
    then show ?thesis using n(1) by (intro exI [of _ n']) (simp add: f)
  qed
qed auto

lemma nodes_mk_split: "nodes (mk s c a x y) = (if s = LeftS then nodes x @ a # nodes y else nodes y @ a # nodes x)"
  by (cases s) simp_all

lemma nodes_plug_cong: "nodes x = nodes y \<Longrightarrow> nodes (plug k x) = nodes (plug k y)"
proof (induction k arbitrary: x y)
  case (Cons f k)
  obtain s c a z where f: "f = (s, c, a, z)" by (cases f)
  then show ?case using Cons.IH [of "mk s c a x z" "mk s c a y z"] Cons.prems by (simp add: nodes_mk_split)
qed simp

lemma nodes_rotate: "nodes (mk s d b (mk s c a x y) z) = nodes (mk s c' a x (mk s d' b y z))"
  by (cases s) simp_all

lemma nodes_paint [simp]: "nodes (paint c t) = nodes t"
  by (cases t) simp_all

lemma nodes_recolor: "nodes (mk s c a x y) = nodes (mk s d a x y)"
  by (cases s) simp_all

section \<open>Repairing after an insertion\<close>

text \<open>\<open>elm\<close>, the root of the focus, is red; what is wrong at most is that its parent is red too.\<close>

lemma root_blacken:
  assumes "holds F st t" "t \<noteq> Tip"
  shows "\<exists>st'. rb_put (snd st) (set_color RB_BLACK) st = Some st' \<and> holds F st' (paint RB_BLACK t)"
proof -
  obtain c a x y where t: "t = mk LeftS c a x y" using rbt_mk [OF assms(2)] by blast
  show ?thesis using holds_color [of F st "[]" LeftS c a x y RB_BLACK] assms(1) holds_root [OF assms(1)] by (simp add: t)
qed

lemma paint_black: "col t = RB_BLACK \<Longrightarrow> paint RB_BLACK t = t"
  by (cases t) auto

lemma insert_color_done:
  assumes "holds F st (plug k t)" "t = mk s c e x y" "topcol k = RB_BLACK"
  shows "\<exists>st'. RB_INSERT_COLOR (Some e) st = Some st' \<and> holds F st' (paint RB_BLACK (plug k t))"
proof -
  have e: "rb_get st (Some e) = Some (mknode s (rt x) (rt y) (par k) c)" using holds_get assms(1,2) by blast
  have "plug k t \<noteq> Tip" using set_nodes_plug [of k t] assms(2) by auto
  from root_blacken [OF assms(1) this] obtain st' where st': "rb_put (snd st) (set_color RB_BLACK) st = Some st'"
    "holds F st' (paint RB_BLACK (plug k t))" by blast
  have "RB_INSERT_COLOR (Some e) st = Some st'"
  proof (cases k)
    case Nil
    then show ?thesis using e st'(1) by (subst RB_INSERT_COLOR.simps) simp
  next
    case (Cons f k')
    obtain s1 c1 a1 y1 where f: "f = (s1, c1, a1, y1)" by (cases f)
    have "rb_get st (Some a1) = Some (mknode s1 (rt t) (rt y1) (par k') c1)" "c1 = RB_BLACK"
      using assms(1,3) holds_get [of F st k' s1 c1 a1 t y1] by (simp_all add: Cons f)
    then show ?thesis using e st'(1) by (subst RB_INSERT_COLOR.simps) (simp add: Cons f)
  qed
  then show ?thesis using st'(2) by blast
qed

lemma holds_black: "holds F st (plug k t) \<Longrightarrow> rb_is_black st (rt t) = Some (col t = RB_BLACK)"
proof (cases t)
  case (Nd c l a r)
  moreover assume "holds F st (plug k t)"
  ultimately show ?thesis using holds_get [of F st k LeftS c a l r] by (simp add: rb_is_black_def)
qed (simp add: rb_is_black_def)

lemma holds_red: "holds F st (plug k t) \<Longrightarrow> rb_is_red st (rt t) = Some (col t = RB_RED)"
proof (cases t)
  case (Nd c l a r)
  moreover assume "holds F st (plug k t)"
  ultimately show ?thesis using holds_get [of F st k LeftS c a l r] by (simp add: rb_is_red_def)
qed (simp add: rb_is_red_def)

lemma holds_side: "holds F st (plug k (mk s c a x y)) \<Longrightarrow> rt x = Some b \<Longrightarrow>
    \<exists>na. rb_get st (Some a) = Some na \<and> (rbe_left na = Some b \<longleftrightarrow> s = LeftS) \<and> (rb_link (opp s) na \<noteq> Some b)"
proof -
  assume h: "holds F st (plug k (mk s c a x y))" and x: "rt x = Some b"
  then have "set (nodes x) \<inter> set (nodes y) = {}" by (simp add: holds_def distinct_plug)
  then have "rt y \<noteq> Some b" using rt_in [of x b] rt_in [of y b] x by blast
  then show ?thesis using holds_get [OF h] x by (cases s) auto
qed

text \<open>Both ways in which the two macros of a recolouring and a rotation are used.\<close>

lemma blackred_rotate:
  assumes "holds F st (plug k (mk s c g (mk s d p x z) u))"
  shows "\<exists>st1 st2. RB_SET_BLACKRED (Some p) (Some g) st = Some st1 \<and> RB_ROTATE (opp s) (Some g) st1 = Some st2 \<and>
    holds F st2 (plug k (mk s RB_BLACK p x (mk s RB_RED g z u)))"
proof -
  obtain st0 where 0: "rb_put (Some p) (set_color RB_BLACK) st = Some st0" "holds F st0 (plug k (mk s c g (mk s RB_BLACK p x z) u))"
    using holds_color [of F st "(s, c, g, u) # k" s d p x z RB_BLACK] assms by auto
  obtain st1 where 1: "rb_put (Some g) (set_color RB_RED) st0 = Some st1" "holds F st1 (plug k (mk s RB_RED g (mk s RB_BLACK p x z) u))"
    using holds_color [OF 0(2)] by blast
  have "holds F st1 (plug k (mk (opp s) RB_RED g u (mk (opp s) RB_BLACK p z x)))" using 1(2) by (simp add: mk_opp)
  from holds_rotate [OF this] show ?thesis using 0(1) 1(1) by (auto simp: RB_SET_BLACKRED_def mk_opp)
qed

lemma insert_side_outer:
  assumes h: "holds F st (plug k (mk s c g (mk s d p (mk s RB_RED e x z) y) u))" and u: "col u = RB_BLACK"
  shows "\<exists>st'. insert_color_side s (Some e) (Some p) (Some g) st = Some (Some e, st') \<and>
    holds F st' (plug k (mk s RB_BLACK p (mk s RB_RED e x z) (mk s RB_RED g y u)))"
proof -
  have g: "rb_get st (Some g) = Some (mknode s (Some p) (rt u) (par k) c)" using holds_get [OF h] by simp
  have b: "rb_is_red st (rt u) = Some False"
    using holds_red [of F st "(opp s, c, g, mk s d p (mk s RB_RED e x z) y) # k" u] h u by (simp add: mk_opp)
  obtain np where np: "rb_get st (Some p) = Some np" "rb_link (opp s) np \<noteq> Some e"
    using holds_side [of F st "(s, c, g, u) # k" s d p "mk s RB_RED e x z" y e] h by auto
  from blackred_rotate [OF h] show ?thesis using g b np by (auto simp: insert_color_side_def)
qed

lemma insert_side_inner:
  assumes h: "holds F st (plug k (mk s c g (mk s d p y (mk s RB_RED e x z)) u))" and u: "col u = RB_BLACK" and d: "d = RB_RED"
  shows "\<exists>st'. insert_color_side s (Some e) (Some p) (Some g) st = Some (Some p, st') \<and>
    holds F st' (plug k (mk s RB_BLACK e (mk s RB_RED p y x) (mk s RB_RED g z u)))"
proof -
  have g: "rb_get st (Some g) = Some (mknode s (Some p) (rt u) (par k) c)" using holds_get [OF h] by simp
  have b: "rb_is_red st (rt u) = Some False"
    using holds_red [of F st "(opp s, c, g, mk s d p y (mk s RB_RED e x z)) # k" u] h u by (simp add: mk_opp)
  have np: "rb_get st (Some p) = Some (mknode s (rt y) (Some e) (Some g) d)"
    using holds_get [of F st "(s, c, g, u) # k" s d p y "mk s RB_RED e x z"] h by simp
  obtain st1 where 1: "RB_ROTATE s (Some p) st = Some st1"
    "holds F st1 (plug k (mk s c g (mk s RB_RED e (mk s d p y x) z) u))"
    using holds_rotate [of F st "(s, c, g, u) # k" s d p y RB_RED e x z] h by auto
  from blackred_rotate [OF 1(2)] show ?thesis using g b np 1(1) d by (auto simp: insert_color_side_def)
qed

lemma insert_side_red:
  assumes h: "holds F st (plug k (mk s c g (mk s2 d p t y) (mk s RB_RED w u v)))"
  shows "\<exists>st'. insert_color_side s elm (Some p) (Some g) st = Some (Some g, st') \<and>
    holds F st' (plug k (mk s RB_RED g (mk s2 RB_BLACK p t y) (mk s RB_BLACK w u v)))"
proof -
  let ?p = "mk s2 d p t y"
  have g: "rb_get st (Some g) = Some (mknode s (Some p) (Some w) (par k) c)" using holds_get [OF h] by simp
  have h': "holds F st (plug ((opp s, c, g, ?p) # k) (mk s RB_RED w u v))" using h by (simp add: mk_opp)
  have b: "rb_is_red st (Some w) = Some True" using holds_red [OF h'] by simp
  obtain st1 where 1: "rb_put (Some w) (set_color RB_BLACK) st = Some st1"
    "holds F st1 (plug k (mk s c g ?p (mk s RB_BLACK w u v)))" using holds_color [OF h', of RB_BLACK] by (auto simp: mk_opp)
  obtain st2 where 2: "rb_put (Some p) (set_color RB_BLACK) st1 = Some st2"
    "holds F st2 (plug k (mk s c g (mk s2 RB_BLACK p t y) (mk s RB_BLACK w u v)))"
    using holds_color [of F st1 "(s, c, g, mk s RB_BLACK w u v) # k" s2 d p t y RB_BLACK] 1(2) by auto
  from holds_color [OF 2(2), of RB_RED] show ?thesis using g b 1(1) 2(1)
    by (auto simp: insert_color_side_def RB_SET_BLACKRED_def)
qed

lemma RB_INSERT_COLOR_spec:
  "holds F st (plug k t) \<Longrightarrow> t = mk s RB_RED e x z \<Longrightarrow> bal n t \<Longrightarrow> cbal n k \<Longrightarrow>
   \<exists>st' T. RB_INSERT_COLOR (Some e) st = Some st' \<and> holds F st' T \<and> nodes T = nodes (plug k t) \<and>
     (\<exists>m. bal m T) \<and> col T = RB_BLACK"
proof (induction "length k" arbitrary: k t s e x z n st rule: less_induct)
  case less
  note h = less.prems(1) and t = less.prems(2) and bt = less.prems(3) and ck = less.prems(4)
  show ?case
  proof (cases "topcol k = RB_BLACK")
    case True
    from insert_color_done [OF h t True] obtain st' where st': "RB_INSERT_COLOR (Some e) st = Some st'"
      "holds F st' (paint RB_BLACK (plug k t))" by blast
    have "(\<exists>m. bal m (paint RB_BLACK (plug k t))) \<and> col (paint RB_BLACK (plug k t)) = RB_BLACK"
    proof (cases "k = []")
      case False
      then have "(\<exists>m. bal m (plug k t)) \<and> col (plug k t) = RB_BLACK" using bal_plug [OF ck bt] True by simp
      then show ?thesis by (simp add: paint_black)
    qed (use bt t in auto)
    then show ?thesis using st' by fastforce
  next
    case False
    then obtain s2 p y k1 where k: "k = (s2, RB_RED, p, y) # k1" using ck
      by (cases k rule: topcol.cases) (auto split: if_splits)
    have y: "bal n y" "col y = RB_BLACK" and k1: "topcol k1 = RB_BLACK" "k1 \<noteq> []" "cbal n k1" using ck by (simp_all add: k)
    then obtain s1 g u k2 where k1_eq: "k1 = (s1, RB_BLACK, g, u) # k2"
      by (cases k1 rule: topcol.cases) auto
    have u: "bal n u" and k2: "cbal (Suc n) k2" using k1(3) by (simp_all add: k1_eq)
    have xz: "bal n x" "bal n z" "col x = RB_BLACK" "col z = RB_BLACK" using bt by (simp_all add: t)
    let ?p = "mk s2 RB_RED p t y"
    have H: "holds F st (plug k2 (mk s1 RB_BLACK g ?p u))" using h by (simp add: k k1_eq)
    have ne: "rb_get st (Some e) = Some (mknode s (rt x) (rt z) (Some p) RB_RED)" using holds_get [of F st k s RB_RED e x z] h by (simp add: t k)
    have np: "rb_get st (Some p) = Some (mknode s2 (Some e) (rt y) (Some g) RB_RED)"
      using holds_get [of F st k1 s2 RB_RED p t y] h by (simp add: k k1_eq t)
    obtain ng where ng: "rb_get st (Some g) = Some ng" "rbe_left ng = Some p \<longleftrightarrow> s1 = LeftS" using holds_side [OF H] by auto
    have side: "(if Some p = rbe_left ng then LeftS else RightS) = s1" using ng(2) by (cases s1) auto
    have run: "RB_INSERT_COLOR (Some e) st =
        Option.bind (insert_color_side s1 (Some e) (Some p) (Some g) st) (\<lambda>(elm, st). RB_INSERT_COLOR elm st)"
      using ne np ng(1) by (subst RB_INSERT_COLOR.simps) (simp add: side)
    show ?thesis
    proof (cases "col u = RB_BLACK")
      case False
      then have "col u = RB_RED" "u \<noteq> Tip" using bal_col [OF u] by auto
      then obtain w u1 u2 where u_eq: "u = mk s1 RB_RED w u1 u2" using rbt_mk_col by blast
      from insert_side_red [OF H [unfolded u_eq]] obtain st' where
        st': "insert_color_side s1 (Some e) (Some p) (Some g) st = Some (Some g, st')"
          "holds F st' (plug k2 (mk s1 RB_RED g (mk s2 RB_BLACK p t y) (mk s1 RB_BLACK w u1 u2)))" by blast
      have b': "bal (Suc n) (mk s1 RB_RED g (mk s2 RB_BLACK p t y) (mk s1 RB_BLACK w u1 u2))"
        using bt y u by (simp add: u_eq)
      have "nodes (plug k2 (mk s1 RB_RED g (mk s2 RB_BLACK p t y) (mk s1 RB_BLACK w u1 u2))) = nodes (plug k t)"
        unfolding k k1_eq u_eq plug.simps by (rule nodes_plug_cong) (simp add: nodes_mk_split)
      then show ?thesis using less.hyps [OF _ st'(2) refl b' k2] run st'(1) by (simp add: k k1_eq)
    next
      case True
      have "\<exists>st' e' p' X Y Z. insert_color_side s1 (Some e) (Some p) (Some g) st = Some (Some e', st') \<and>
        holds F st' (plug k2 (mk s1 RB_BLACK p' (mk s1 RB_RED e' X Y) (mk s1 RB_RED g Z u))) \<and>
        nodes (mk s1 RB_BLACK p' (mk s1 RB_RED e' X Y) (mk s1 RB_RED g Z u)) = nodes (mk s1 RB_BLACK g ?p u) \<and>
        bal n X \<and> bal n Y \<and> bal n Z \<and> col X = RB_BLACK \<and> col Y = RB_BLACK \<and> col Z = RB_BLACK"
      proof -
        obtain x' z' where t': "t = mk s1 RB_RED e x' z'" "bal n x'" "bal n z'" "col x' = RB_BLACK" "col z' = RB_BLACK"
          using t xz mk_flip [of s RB_RED e x z s1] by metis
        show ?thesis
        proof (cases "s2 = s1")
          case s2: True
          from insert_side_outer [OF _ True, of F st k2 s1 RB_BLACK g RB_RED p e x' z' y] H
          obtain st' where "insert_color_side s1 (Some e) (Some p) (Some g) st = Some (Some e, st')"
            "holds F st' (plug k2 (mk s1 RB_BLACK p (mk s1 RB_RED e x' z') (mk s1 RB_RED g y u)))"
            by (auto simp: t'(1) s2)
          moreover have "nodes (mk s1 RB_BLACK p (mk s1 RB_RED e x' z') (mk s1 RB_RED g y u)) = nodes (mk s1 RB_BLACK g ?p u)"
            by (simp add: nodes_mk_split t'(1) s2)
          ultimately show ?thesis using t'(2-5) y by blast
        next
          case False
          then have s2: "s2 = opp s1" by (cases s1; cases s2) auto
          from insert_side_inner [OF _ True refl, of F st k2 s1 RB_BLACK g p y e x' z'] H
          obtain st' where "insert_color_side s1 (Some e) (Some p) (Some g) st = Some (Some p, st')"
            "holds F st' (plug k2 (mk s1 RB_BLACK e (mk s1 RB_RED p y x') (mk s1 RB_RED g z' u)))"
            by (auto simp: t'(1) s2 mk_opp)
          moreover have "nodes (mk s1 RB_BLACK e (mk s1 RB_RED p y x') (mk s1 RB_RED g z' u)) = nodes (mk s1 RB_BLACK g ?p u)"
            by (simp add: nodes_mk_split t'(1) s2 mk_opp)
          ultimately show ?thesis using t'(2-5) y by blast
        qed
      qed
      then obtain st' e' p' X Y Z where st': "insert_color_side s1 (Some e) (Some p) (Some g) st = Some (Some e', st')"
        "holds F st' (plug k2 (mk s1 RB_BLACK p' (mk s1 RB_RED e' X Y) (mk s1 RB_RED g Z u)))"
        "nodes (mk s1 RB_BLACK p' (mk s1 RB_RED e' X Y) (mk s1 RB_RED g Z u)) = nodes (mk s1 RB_BLACK g ?p u)"
        "bal n X" "bal n Y" "bal n Z" "col X = RB_BLACK" "col Y = RB_BLACK" "col Z = RB_BLACK" by blast
      define T where "T = plug k2 (mk s1 RB_BLACK p' (mk s1 RB_RED e' X Y) (mk s1 RB_RED g Z u))"
      have T: "(\<exists>m. bal m T) \<and> col T = RB_BLACK"
        unfolding T_def using st'(4-9) u True by (intro bal_plug [OF k2]) auto
      have "holds F st' (plug ((s1, RB_BLACK, p', mk s1 RB_RED g Z u) # k2) (mk s1 RB_RED e' X Y))" using st'(2) by simp
      from insert_color_done [OF this refl] obtain st'' where "RB_INSERT_COLOR (Some e') st' = Some st''" "holds F st'' T"
        using T by (auto simp: T_def [symmetric] paint_black)
      moreover have "nodes T = nodes (plug k t)"
        unfolding T_def k k1_eq plug.simps by (rule nodes_plug_cong) (rule st'(3))
      ultimately show ?thesis using run st'(1) T by auto
    qed
  qed
qed

section \<open>Repairing after a removal\<close>

lemma rb_blacken_some: "rb_blacken (Some a) st = rb_put (Some a) (set_color RB_BLACK) st"
  by (simp add: rb_blacken_def)

text \<open>The last steps: the sibling takes the colour of the parent and moves up.\<close>

lemma remove_finish:
  assumes h: "holds F st (plug k (mk s c p t (mk s d b y (mk s d' f u v))))"
  shows "\<exists>st1 st2 nt st3 st4. rb_put (Some b) (set_color c) st = Some st1 \<and> rb_put (Some p) (set_color RB_BLACK) st1 = Some st2 \<and>
    rb_get st2 (Some b) = Some nt \<and> rb_blacken (rb_link (opp s) nt) st2 = Some st3 \<and> RB_ROTATE s (Some p) st3 = Some st4 \<and>
    holds F st4 (plug k (mk s c b (mk s RB_BLACK p t y) (mk s RB_BLACK f u v)))"
proof -
  let ?w = "\<lambda>d d'. mk s d b y (mk s d' f u v)"
  obtain st1 where 1: "rb_put (Some b) (set_color c) st = Some st1" "holds F st1 (plug k (mk s c p t (?w c d')))"
    using holds_color [of F st "(opp s, c, p, t) # k" s d b y "mk s d' f u v" c] h by (auto simp: mk_opp)
  obtain st2 where 2: "rb_put (Some p) (set_color RB_BLACK) st1 = Some st2" "holds F st2 (plug k (mk s RB_BLACK p t (?w c d')))"
    using holds_color [OF 1(2), of RB_BLACK] by blast
  have b: "rb_get st2 (Some b) = Some (mknode s (rt y) (Some f) (Some p) c)"
    using holds_get [of F st2 "(opp s, RB_BLACK, p, t) # k" s c b y "mk s d' f u v"] 2(2) by (simp add: mk_opp)
  obtain st3 where 3: "rb_blacken (Some f) st2 = Some st3" "holds F st3 (plug k (mk s RB_BLACK p t (?w c RB_BLACK)))"
    using holds_color [of F st2 "(opp s, c, b, y) # (opp s, RB_BLACK, p, t) # k" s d' f u v RB_BLACK] 2(2)
    by (auto simp: mk_opp rb_blacken_some)
  obtain st4 where 4: "RB_ROTATE s (Some p) st3 = Some st4" "holds F st4 (plug k (mk s c b (mk s RB_BLACK p t y) (mk s RB_BLACK f u v)))"
    using holds_rotate [OF 3(2)] by blast
  have "rb_blacken (rb_link (opp s) (mknode s (rt y) (Some f) (Some p) c)) st2 = Some st3" using 3(1) by simp
  then show ?thesis using 1(1) 2(1) b 4 by blast
qed

lemma sibling_nodes:
  assumes "holds F st (plug k (mk s c p t (mk s d b y z)))"
  shows "rb_get st (Some p) = Some (mknode s (rt t) (Some b) (par k) c)"
    "rb_get st (Some b) = Some (mknode s (rt y) (rt z) (Some p) d)"
    "rb_is_black st (rt y) = Some (col y = RB_BLACK)" "rb_is_black st (rt z) = Some (col z = RB_BLACK)"
  using holds_get [OF assms] holds_get [of F st "(opp s, c, p, t) # k" s d b y z] assms
    holds_black [of F st "(s, d, b, z) # (opp s, c, p, t) # k" y] holds_black [of F st "(opp s, d, b, y) # (opp s, c, p, t) # k" z]
  by (simp_all add: mk_opp)

lemma black_step_up:
  assumes h: "holds F st (plug k (mk s c p t (mk s d b y z)))" and "col y = RB_BLACK" "col z = RB_BLACK"
  shows "\<exists>st'. remove_color_black s (Some p) (Some b) st = Some (False, par k, Some p, st') \<and>
    holds F st' (plug k (mk s c p t (mk s RB_RED b y z)))"
proof -
  obtain st1 where 1: "rb_put (Some b) (set_color RB_RED) st = Some st1" "holds F st1 (plug k (mk s c p t (mk s RB_RED b y z)))"
    using holds_color [of F st "(opp s, c, p, t) # k" s d b y z RB_RED] h by (auto simp: mk_opp)
  show ?thesis using sibling_nodes [OF h] sibling_nodes(1) [OF 1(2)] assms(2,3) 1
    by (simp add: remove_color_black_def)
qed

lemma black_step_far:
  assumes h: "holds F st (plug k (mk s c p t (mk s d b y (mk s RB_RED f u v))))"
  shows "\<exists>st'. remove_color_black s (Some p) (Some b) st = Some (True, Some p, snd st', st') \<and>
    holds F st' (plug k (mk s c b (mk s RB_BLACK p t y) (mk s RB_BLACK f u v)))"
  using sibling_nodes [OF h] remove_finish [OF h] by (auto simp: remove_color_black_def)

lemma black_step_near:
  assumes h: "holds F st (plug k (mk s c p t (mk s d b (mk s RB_RED e u v) z)))" and z: "col z = RB_BLACK"
  shows "\<exists>st'. remove_color_black s (Some p) (Some b) st = Some (True, Some p, snd st', st') \<and>
    holds F st' (plug k (mk s c e (mk s RB_BLACK p t u) (mk s RB_BLACK b v z)))"
proof -
  obtain st1 where 1: "rb_blacken (Some e) st = Some st1" "holds F st1 (plug k (mk s c p t (mk s d b (mk s RB_BLACK e u v) z)))"
    using holds_color [of F st "(s, d, b, z) # (opp s, c, p, t) # k" s RB_RED e u v RB_BLACK] h by (auto simp: mk_opp rb_blacken_some)
  obtain st2 where 2: "rb_put (Some b) (set_color RB_RED) st1 = Some st2"
    "holds F st2 (plug k (mk s c p t (mk s RB_RED b (mk s RB_BLACK e u v) z)))"
    using holds_color [of F st1 "(opp s, c, p, t) # k" s d b "mk s RB_BLACK e u v" z RB_RED] 1(2) by (auto simp: mk_opp)
  have "holds F st2 (plug ((opp s, c, p, t) # k) (mk (opp s) RB_RED b z (mk (opp s) RB_BLACK e v u)))"
    using 2(2) by (simp add: mk_opp)
  from holds_rotate [OF this] obtain st3 where 3: "RB_ROTATE (opp s) (Some b) st2 = Some st3"
    "holds F st3 (plug k (mk s c p t (mk s RB_BLACK e u (mk s RB_RED b v z))))" by (auto simp: mk_opp)
  show ?thesis using sibling_nodes [OF h] z 1(1) 2(1) 3(1) sibling_nodes(1) [OF 3(2)] remove_finish [OF 3(2)]
    by (auto simp: remove_color_black_def)
qed

text \<open>The colour that is still missing at the focus \<open>t\<close>, whose place takes black height \<open>n\<close>.\<close>

definition short_of :: "nat \<Rightarrow> rbt \<Rightarrow> bool" where
  "short_of n t \<longleftrightarrow> col t = RB_RED \<and> bal n (paint RB_BLACK t) \<or> col t = RB_BLACK \<and> (\<exists>m. n = Suc m \<and> bal m t)"

lemma black_step:
  assumes h: "holds F st (plug k (mk s c p t w))" and w: "bal (Suc m) w" "col w = RB_BLACK" "rt w = Some b"
    and t: "bal m t" "col t = RB_BLACK" and c: "c = RB_RED \<or> c = RB_BLACK" "n = (if c = RB_RED then Suc m else Suc (Suc m))"
  shows "\<exists>stop st' T. remove_color_black s (Some p) (Some b) st = Some (if stop then (True, Some p, snd st', st') else (False, par k, Some p, st')) \<and>
    holds F st' (plug k T) \<and> nodes T = nodes (mk s c p t w) \<and> rt T \<noteq> None \<and> (if stop then bal n T \<and> col T = c else short_of n T \<and> rt T = Some p \<and> col T = c)"
proof -
  obtain y z where w_eq: "w = mk s RB_BLACK b y z" using rbt_mk_col [OF w(2), of s] w(3) by force
  have yz: "bal m y" "bal m z" using w(1) by (simp_all add: w_eq)
  note H = h [unfolded w_eq]
  show ?thesis
  proof (cases "col z = RB_BLACK")
    case z: True
    show ?thesis
    proof (cases "col y = RB_BLACK")
      case True
      from black_step_up [OF H True z] obtain st' where st': "remove_color_black s (Some p) (Some b) st = Some (False, par k, Some p, st')"
        "holds F st' (plug k (mk s c p t (mk s RB_RED b y z)))" by blast
      have "nodes (mk s c p t (mk s RB_RED b y z)) = nodes (mk s c p t w)" by (simp add: w_eq nodes_mk_split)
      moreover have "short_of n (mk s c p t (mk s RB_RED b y z))" using c t yz z True by (auto simp: short_of_def)
      ultimately show ?thesis using st' by (intro exI [of _ False] exI [of _ st'] exI [of _ "mk s c p t (mk s RB_RED b y z)"]) simp
    next
      case False
      then obtain e u v where y: "y = mk s RB_RED e u v" using bal_col [OF yz(1)] rbt_mk_col [of y RB_RED s] by fastforce
      from black_step_near [OF H [unfolded y] z] obtain st' where st': "remove_color_black s (Some p) (Some b) st = Some (True, Some p, snd st', st')"
        "holds F st' (plug k (mk s c e (mk s RB_BLACK p t u) (mk s RB_BLACK b v z)))" by blast
      have "nodes (mk s c e (mk s RB_BLACK p t u) (mk s RB_BLACK b v z)) = nodes (mk s c p t w)" by (simp add: w_eq y nodes_mk_split)
      moreover have "bal n (mk s c e (mk s RB_BLACK p t u) (mk s RB_BLACK b v z))" using c t yz by (auto simp: y)
      ultimately show ?thesis using st'
        by (intro exI [of _ True] exI [of _ st'] exI [of _ "mk s c e (mk s RB_BLACK p t u) (mk s RB_BLACK b v z)"]) simp
    qed
  next
    case False
    then obtain f u v where z: "z = mk s RB_RED f u v" using bal_col [OF yz(2)] rbt_mk_col [of z RB_RED s] by fastforce
    from black_step_far [OF H [unfolded z]] obtain st' where st': "remove_color_black s (Some p) (Some b) st = Some (True, Some p, snd st', st')"
      "holds F st' (plug k (mk s c b (mk s RB_BLACK p t y) (mk s RB_BLACK f u v)))" by blast
    have "nodes (mk s c b (mk s RB_BLACK p t y) (mk s RB_BLACK f u v)) = nodes (mk s c p t w)" by (simp add: w_eq z nodes_mk_split)
    moreover have "bal n (mk s c b (mk s RB_BLACK p t y) (mk s RB_BLACK f u v))" using c t yz by (auto simp: z)
    ultimately show ?thesis using st'
      by (intro exI [of _ True] exI [of _ st'] exI [of _ "mk s c b (mk s RB_BLACK p t y) (mk s RB_BLACK f u v)"]) simp
  qed
qed

lemma RB_REMOVE_COLOR_unfold:
  "RB_REMOVE_COLOR parent elm st = do {
     black \<leftarrow> rb_is_black st elm;
     if black \<and> elm \<noteq> snd st then do {
       np \<leftarrow> rb_get st parent;
       (stop, parent, elm, st) \<leftarrow> remove_color_side (if rbe_left np = elm then LeftS else RightS) parent st;
       if stop then rb_blacken elm st else RB_REMOVE_COLOR parent elm st
     } else rb_blacken elm st }"
  unfolding RB_REMOVE_COLOR_def
  by (subst remove_color_loop.simps) (auto simp: Let_def split: Option.bind_split prod.split)

lemma rt_plug_ctx: "k \<noteq> [] \<Longrightarrow> \<exists>a. rt (plug k t) = Some a \<and> a \<in> ctx_nodes k"
proof (induction k arbitrary: t)
  case (Cons f k)
  obtain s c a y where f: "f = (s, c, a, y)" by (cases f)
  show ?case
  proof (cases "k = []")
    case False
    then show ?thesis using Cons.IH [of "mk s c a t y"] by (auto simp: f)
  qed (simp add: f)
qed simp

definition removed :: "(nat \<rightharpoonup> rb_node) \<Rightarrow> nat option \<Rightarrow> nat option \<Rightarrow> rb_state \<Rightarrow> nat list \<Rightarrow> bool" where
  "removed F parent elm st xs \<longleftrightarrow> (\<exists>st' T. RB_REMOVE_COLOR parent elm st = Some st' \<and> holds F st' T \<and> nodes T = xs \<and>
     (\<exists>m. bal m T) \<and> col T = RB_BLACK)"

lemma remove_exit:
  assumes h: "holds F st (plug k t)" and x: "col t = RB_RED \<or> k = []" and n: "short_of n t" "cbal n k"
  shows "removed F parent (rt t) st (nodes (plug k t))"
proof -
  have run: "RB_REMOVE_COLOR parent (rt t) st = rb_blacken (rt t) st"
    using x holds_black [OF h] holds_root [OF h] by (auto simp: RB_REMOVE_COLOR_unfold)
  have "\<exists>st'. rb_blacken (rt t) st = Some st' \<and> holds F st' (plug k (paint RB_BLACK t))"
  proof (cases t)
    case (Nd c l a r)
    then show ?thesis using holds_color [of F st k LeftS c a l r RB_BLACK] h by (simp add: rb_blacken_some)
  qed (use h in \<open>simp add: rb_blacken_def\<close>)
  moreover have "(\<exists>m. bal m (plug k (paint RB_BLACK t))) \<and> col (plug k (paint RB_BLACK t)) = RB_BLACK"
  proof (cases "col t = RB_RED")
    case True
    then have "col (paint RB_BLACK t) = RB_BLACK" by (cases t) auto
    then show ?thesis using n True by (intro bal_plug [OF n(2)]) (auto simp: short_of_def)
  next
    case False
    then show ?thesis using x n(1) by (auto simp: short_of_def paint_black)
  qed
  moreover have "nodes (plug k (paint RB_BLACK t)) = nodes (plug k t)" by (rule nodes_plug_cong) simp
  ultimately show ?thesis using run unfolding removed_def by metis
qed

lemma remove_stop:
  assumes h: "holds F st (plug k T)" and "bal n T" "cbal n k" "rt T \<noteq> None" "col T = RB_BLACK \<or> topcol k = RB_BLACK \<and> k \<noteq> []"
  shows "\<exists>st' T'. rb_blacken (snd st) st = Some st' \<and> holds F st' T' \<and> nodes T' = nodes (plug k T) \<and>
     (\<exists>m. bal m T') \<and> col T' = RB_BLACK"
proof -
  obtain a where "a \<in> set (nodes T)" using assms(4) by (cases T) auto
  then have "plug k T \<noteq> Tip" using set_nodes_plug [of k T] by auto
  then obtain st' where "rb_put (snd st) (set_color RB_BLACK) st = Some st'" "holds F st' (paint RB_BLACK (plug k T))"
    using root_blacken [OF h] by blast
  moreover have "(\<exists>m. bal m (plug k T)) \<and> col (plug k T) = RB_BLACK" by (rule bal_plug [OF assms(3,2,5)])
  moreover have "snd st \<noteq> None" using holds_root [OF h] \<open>plug k T \<noteq> Tip\<close> by (cases "plug k T") auto
  ultimately show ?thesis by (auto simp: rb_blacken_def paint_black)
qed

lemma RB_REMOVE_COLOR_spec:
  "holds F st (plug k t) \<Longrightarrow> short_of n t \<Longrightarrow> cbal n k \<Longrightarrow> removed F (par k) (rt t) st (nodes (plug k t))"
proof (induction "length k" arbitrary: k t n st rule: less_induct)
  case less
  note h = less.prems(1) and sh = less.prems(2) and ck = less.prems(3)
  show ?case
  proof (cases "col t = RB_RED \<or> k = []")
    case True
    show ?thesis by (rule remove_exit [OF h True sh ck])
  next
    case False
    then obtain s c p w k' where k: "k = (s, c, p, w) # k'" by (cases k) auto
    obtain m where m: "n = Suc m" "bal m t" "col t = RB_BLACK" using sh False by (auto simp: short_of_def)
    have w: "bal (Suc m) w" "c = RB_RED \<Longrightarrow> col w = RB_BLACK \<and> topcol k' = RB_BLACK \<and> k' \<noteq> []" "c = RB_RED \<or> c = RB_BLACK"
      using ck by (auto simp: k m(1) split: if_splits)
    define n' where "n' = (if c = RB_RED then Suc m else Suc (Suc m))"
    have ck': "cbal n' k'" using ck w(3) by (auto simp: k m(1) n'_def)
    have H: "holds F st (plug k' (mk s c p t w))" using h by (simp add: k)
    have dis: "set (nodes t) \<inter> ctx_nodes k = {}" using h by (auto simp: holds_def distinct_plug)
    obtain b where b: "rt w = Some b" using w(1) by (cases w) auto
    have nroot: "rt t \<noteq> snd st"
    proof -
      obtain a where "rt (plug k t) = Some a" "a \<in> ctx_nodes k" using rt_plug_ctx [of k t] by (auto simp: k)
      moreover from this have "a \<notin> set (nodes t)" using dis by blast
      ultimately show ?thesis using holds_root [OF h] by auto
    qed
    have "b \<in> ctx_nodes k" using rt_in [OF b] by (simp add: k)
    then have "b \<notin> set (nodes t)" using dis by blast
    then have "rt t \<noteq> rt w" using b by auto
    moreover have np: "rb_get st (Some p) = Some (mknode s (rt t) (Some b) (par k') c)" using holds_get [OF H] b by simp
    ultimately have side: "(if rbe_left (mknode s (rt t) (Some b) (par k') c) = rt t then LeftS else RightS) = s"
      using b by (cases s) auto
    have run: "RB_REMOVE_COLOR (par k) (rt t) st = Option.bind (remove_color_side s (Some p) st)
        (\<lambda>(stop, parent, elm, st). if stop then rb_blacken elm st else RB_REMOVE_COLOR parent elm st)"
      using holds_black [OF h] m(3) nroot np by (subst RB_REMOVE_COLOR_unfold) (simp add: k side)
    have nw: "nodes (mk s c p t w) = nodes T \<Longrightarrow> nodes (plug k' T) = nodes (plug k t)" for T
      by (simp add: k) (rule nodes_plug_cong, simp)
    show ?thesis
    proof (cases "col w = RB_BLACK")
      case True
      obtain nd where nd: "rb_get st (Some b) = Some nd" "rbe_color nd = RB_BLACK"
        using holds_black [of F st "(opp s, c, p, t) # k'" w] H True b by (auto simp: mk_opp rb_is_black_def split: Option.bind_splits)
      have first: "remove_color_side s (Some p) st = remove_color_black s (Some p) (Some b) st"
        using np nd by (simp add: remove_color_side_def)
      from black_step [OF H w(1) True b m(2,3) w(3) n'_def] obtain stop st' T where
        T: "remove_color_black s (Some p) (Some b) st = Some (if stop then (True, Some p, snd st', st') else (False, par k', Some p, st'))"
          "holds F st' (plug k' T)" "nodes T = nodes (mk s c p t w)" "rt T \<noteq> None"
          "if stop then bal n' T \<and> col T = c else short_of n' T \<and> rt T = Some p \<and> col T = c" by metis
      show ?thesis
      proof (cases stop)
        case True
        from remove_stop [OF T(2) _ ck' T(4)] T(5) w(2,3) True show ?thesis
          using run first T(1) nw [of T] T(3) by (auto simp: removed_def)
      next
        case False
        from less.hyps [OF _ T(2) _ ck'] T(5) False show ?thesis
          using run first T(1) nw [of T] T(3) by (simp add: k removed_def)
      qed
    next
      case False
      then have red: "col w = RB_RED" "c = RB_BLACK" using bal_col [OF w(1)] w(2,3) by auto
      then obtain y z where w_eq: "w = mk s RB_RED b y z" using rbt_mk_col [of w RB_RED s] b by fastforce
      have yz: "bal (Suc m) y" "bal (Suc m) z" "col y = RB_BLACK" "col z = RB_BLACK" using w(1) by (simp_all add: w_eq)
      then obtain b' where b': "rt y = Some b'" by (cases y) auto
      have "holds F st (plug k' (mk (opp s) c p (mk (opp s) RB_RED b z y) t))" using H by (simp add: w_eq mk_opp)
      from blackred_rotate [OF this] obtain st1 st2 where rot: "RB_SET_BLACKRED (Some b) (Some p) st = Some st1"
        "RB_ROTATE s (Some p) st1 = Some st2" "holds F st2 (plug k' (mk s RB_BLACK b (mk s RB_RED p t y) z))"
        by (auto simp: mk_opp)
      define k2 where "k2 = (s, RB_BLACK, b, z) # k'"
      have H2: "holds F st2 (plug k2 (mk s RB_RED p t y))" using rot(3) by (simp add: k2_def)
      have nd: "rb_get st (Some b) = Some (mknode s (rt y) (rt z) (Some p) RB_RED)" using sibling_nodes(2) H by (simp add: w_eq)
      have first: "remove_color_side s (Some p) st = remove_color_black s (Some p) (Some b') st2"
        using np nd rot(1,2) holds_get [OF H2] b' by (simp add: remove_color_side_def)
      have ck2: "cbal (Suc m) k2" using yz ck' red(2) by (simp add: k2_def n'_def)
      have n2: "nodes (plug k2 (mk s RB_RED p t y)) = nodes (plug k t)"
        by (simp add: k2_def k w_eq) (rule nodes_plug_cong, simp add: nodes_mk_split)
      from black_step [OF H2 yz(1,3) b' m(2,3), of "Suc m"] obtain stop st' T where
        T: "remove_color_black s (Some p) (Some b') st2 = Some (if stop then (True, Some p, snd st', st') else (False, par k2, Some p, st'))"
          "holds F st' (plug k2 T)" "nodes T = nodes (mk s RB_RED p t y)" "rt T \<noteq> None"
          "if stop then bal (Suc m) T \<and> col T = RB_RED else short_of (Suc m) T \<and> rt T = Some p \<and> col T = RB_RED" by auto
      have nT: "nodes (plug k2 T) = nodes (plug k t)" using n2 nodes_plug_cong [OF T(3), of k2] by simp
      show ?thesis
      proof (cases stop)
        case True
        from remove_stop [OF T(2) _ ck2 T(4)] T(5) True show ?thesis
          using run first T(1) nT by (auto simp: removed_def k2_def)
      next
        case False
        then have "removed F (par k2) (rt T) st' (nodes (plug k2 T))" using remove_exit [OF T(2) _ _ ck2] T(5) by simp
        then show ?thesis using run first T(1,5) nT False by (simp add: removed_def)
      qed
    qed
  qed
qed

section \<open>The order of the nodes\<close>

fun before :: "frame list \<Rightarrow> nat list" where
  "before [] = []"
| "before ((LeftS, c, a, y) # k) = before k"
| "before ((RightS, c, a, y) # k) = before k @ nodes y @ [a]"

fun after :: "frame list \<Rightarrow> nat list" where
  "after [] = []"
| "after ((LeftS, c, a, y) # k) = a # nodes y @ after k"
| "after ((RightS, c, a, y) # k) = after k"

lemma nodes_plug: "nodes (plug k t) = before k @ nodes t @ after k"
  by (induction k arbitrary: t rule: before.induct) simp_all

lemma rb_plug_append: "plug (k @ k') t = plug k' (plug k t)"
  by (induction k t rule: plug.induct) simp_all

lemma in_plug: "a \<in> set (nodes t) \<Longrightarrow> \<exists>k c l r. t = plug k (Nd c l a r)"
proof (induction t)
  case (Nd c l b r)
  from Nd.prems consider "a = b" | "a \<in> set (nodes l)" | "a \<in> set (nodes r)" by auto
  then show ?case
  proof cases
    case 1
    then show ?thesis by (intro exI [of _ "[]"]) auto
  next
    case 2
    then obtain k d l' r' where "l = plug k (Nd d l' a r')" using Nd.IH(1) by blast
    then have "Nd c l b r = plug (k @ [(LeftS, c, b, r)]) (Nd d l' a r')" by (simp add: rb_plug_append)
    then show ?thesis by blast
  next
    case 3
    then obtain k d l' r' where "r = plug k (Nd d l' a r')" using Nd.IH(2) by blast
    then have "Nd c l b r = plug (k @ [(RightS, c, b, l)]) (Nd d l' a r')" by (simp add: rb_plug_append)
    then show ?thesis by blast
  qed
qed simp

lemma hd_app: "hd (xs @ b # ys) = (if xs = [] then b else hd xs)"
  by (cases xs) simp_all

lemma rb_left_spine: "t \<noteq> Tip \<Longrightarrow> \<exists>k c a r. t = plug k (mk LeftS c a Tip r) \<and> before k = [] \<and> hd (nodes t) = a"
proof (induction t)
  case (Nd c l b r)
  show ?case
  proof (cases "l = Tip")
    case True
    then show ?thesis by (intro exI [of _ "[]"]) auto
  next
    case False
    then obtain k d a r' where l: "l = plug k (mk LeftS d a Tip r')" "before k = []" "hd (nodes l) = a" using Nd.IH(1) by blast
    have "before (k @ [(LeftS, c, b, r)]) = []" using l(2) by (induction k rule: before.induct) auto
    moreover have "Nd c l b r = plug (k @ [(LeftS, c, b, r)]) (mk LeftS d a Tip r')" using l(1) by (simp add: rb_plug_append)
    moreover have "hd (nodes (Nd c l b r)) = a" using False l(3) by (cases l) (auto simp: hd_app)
    ultimately show ?thesis by blast
  qed
qed simp

lemma rb_leftmost_at: "rb_at (fst st) u t \<Longrightarrow> t \<noteq> Tip \<Longrightarrow> rb_leftmost st (rt t) = Some (Some (hd (nodes t)))"
proof (induction t arbitrary: u)
  case (Nd c l a r)
  show ?case
  proof (cases l)
    case Tip
    then show ?thesis using Nd.prems by (subst rb_leftmost.simps) (simp add: rb_get_def)
  next
    case (Nd c' l' b r')
    then show ?thesis using Nd.prems Nd.IH(1) by (subst rb_leftmost.simps) (simp add: rb_get_def hd_app)
  qed
qed simp

lemma rb_minmax_at:
  "rb_at (fst st) u t \<Longrightarrow> rb_minmax val st p (rt t) =
     Some (if t = Tip then p else Some (if val < 0 then hd (nodes t) else last (nodes t)))"
proof (induction t arbitrary: u p)
  case Tip
  then show ?case by (simp add: rb_minmax.simps)
next
  case (Nd c l a r)
  have "rb_minmax val st (Some a) (rt l) = Some (if l = Tip then Some a else Some (if val < 0 then hd (nodes l) else last (nodes l)))"
    "rb_minmax val st (Some a) (rt r) = Some (if r = Tip then Some a else Some (if val < 0 then hd (nodes r) else last (nodes r)))"
    using Nd.IH Nd.prems by auto
  then show ?case using Nd.prems by (subst rb_minmax.simps) (cases l; cases r; simp add: rb_get_def hd_app)
qed

lemma rb_climb_at:
  "holds F st (plug k t) \<Longrightarrow> rt t = Some a \<Longrightarrow> rb_climb st (Some a) = Some (case after k of [] \<Rightarrow> None | b # _ \<Rightarrow> Some b)"
proof (induction k arbitrary: t a)
  case Nil
  then show ?case by (cases t) (auto simp: rb_climb.simps [of st] rb_get_def holds_def)
next
  case (Cons f k)
  obtain s c b y where f: "f = (s, c, b, y)" by (cases f)
  have h: "holds F st (plug k (mk s c b t y))" using Cons.prems(1) by (simp add: f)
  obtain nb where nb: "rb_get st (Some b) = Some nb" "rbe_left nb = Some a \<longleftrightarrow> s = LeftS" "rb_link (opp s) nb \<noteq> Some a"
    using holds_side [OF h Cons.prems(2)] by blast
  have nb': "nb = mknode s (Some a) (rt y) (par k) c" using holds_get [OF h] nb(1) Cons.prems(2) by simp
  obtain d l r where t: "t = Nd d l a r" using Cons.prems(2) by (cases t) auto
  have na: "rb_get st (Some a) = Some (mknode LeftS (rt l) (rt r) (Some b) d)"
    using holds_get [of F st "(s, c, b, y) # k" LeftS d a l r] h t by simp
  show ?case
  proof (cases s)
    case LeftS
    then show ?thesis using na nb by (subst rb_climb.simps) (simp add: f)
  next
    case RightS
    then have "rb_climb st (Some a) = rb_climb st (Some b)" using na nb(1) nb' by (subst rb_climb.simps) simp
    then show ?thesis using Cons.IH [OF h] RightS by (simp add: f)
  qed
qed

lemma RB_NEXT_spec:
  assumes h: "holds F st t" and a: "nodes t = xs @ a # ys"
  shows "RB_NEXT (Some a) st = Some (case ys of [] \<Rightarrow> None | b # _ \<Rightarrow> Some b)"
proof -
  obtain k c l r where t: "t = plug k (Nd c l a r)" using in_plug [of a t] a by auto
  have "distinct (nodes t)" using h by (simp add: holds_def)
  then have ys: "ys = nodes r @ after k"
    using a unfolding t nodes_plug by (metis (no_types) append_Cons append_assoc append_Cons_eq_iff distinct_append distinct.simps(2) nodes.simps(2) not_distinct_conv_prefix)
  have na: "rb_get st (Some a) = Some (mknode LeftS (rt l) (rt r) (par k) c)"
    using holds_get [of F st k LeftS c a l r] h t by simp
  show ?thesis
  proof (cases "r = Tip")
    case False
    have "rb_at (fst st) (Some a) r" using h by (cases st) (simp add: t holds_plug)
    then have "rb_leftmost st (rt r) = Some (Some (hd (nodes r)))" by (rule rb_leftmost_at [OF _ False])
    moreover have "nodes r \<noteq> []" "rt r \<noteq> None" using False by (cases r; simp)+
    ultimately show ?thesis using na ys by (cases "nodes r") (auto simp: RB_NEXT_def)
  next
    case True
    have "rb_climb st (Some a) = Some (case after k of [] \<Rightarrow> None | b # _ \<Rightarrow> Some b)"
      using rb_climb_at [of F st k "Nd c l a r" a] h t by simp
    moreover have "par k \<noteq> None \<Longrightarrow> \<exists>nb. rb_get st (par k) = Some nb \<and> (rbe_left nb = Some a \<longrightarrow> after k \<noteq> [] \<and> par k = Some (hd (after k)))"
    proof (cases k)
      case (Cons f k')
      obtain s d b y where f: "f = (s, d, b, y)" by (cases f)
      show ?thesis using holds_side [of F st k' s d b "Nd c l a r" y a] h by (cases s) (auto simp: t Cons f)
    qed simp
    ultimately show ?thesis using na ys True by (auto simp: RB_NEXT_def split: list.split)
  qed
qed

section \<open>Removal\<close>

text \<open>The tree as an ordered set of addresses: in a heap that is \<open>F\<close> elsewhere, balanced, with the given nodes.\<close>

definition rb_set :: "(nat \<rightharpoonup> rb_node) \<Rightarrow> rb_state \<Rightarrow> nat list \<Rightarrow> bool" where
  "rb_set F st xs \<longleftrightarrow> (\<exists>T m. holds F st T \<and> bal m T \<and> col T = RB_BLACK \<and> nodes T = xs)"

lemma holds_frame: "holds F st T \<Longrightarrow> (\<And>e. e \<notin> set (nodes T) \<Longrightarrow> F' e = fst st e) \<Longrightarrow> holds F' st T"
  by (simp add: holds_def)

lemma unlink:
  assumes h: "holds F st (plug k (mk s c a Tip x))"
  shows "\<exists>st'. rb_unlink (Some a) (rt x) (par k) st = Some st' \<and> holds (F(a := fst st a)) st' (plug k x) \<and> fst st' a = fst st a"
proof -
  obtain h0 root where st: "st = (h0, root)" by (cases st)
  have H: "rb_ctx h0 k (Some a)" "rb_at h0 (Some a) x" "ctx_distinct k" "a \<notin> ctx_nodes k" "a \<notin> set (nodes x)" "distinct (nodes x)"
    "ctx_nodes k \<inter> set (nodes x) = {}" "root = rt (plug k (mk s c a Tip x))"
    "\<And>e. e \<notin> ctx_nodes k \<Longrightarrow> e \<noteq> a \<Longrightarrow> e \<notin> set (nodes x) \<Longrightarrow> h0 e = F e"
    using h by (auto simp: st holds_plug)
  obtain h1 where h1: "rb_adopt (rt x) (par k) (h0, root) = Some (h1, root)" "rb_at h1 (par k) x" "\<And>e. e \<notin> set (nodes x) \<Longrightarrow> h1 e = h0 e"
    using rb_adopt_at [OF H(2,6)] by blast
  have out: "e \<notin> set (nodes x)" if "e \<in> ctx_nodes k" for e using that H(7) by blast
  have "rb_ctx h1 k (Some a)" using H(1) rb_ctx_cong [of k h1 h0] h1(3) out by simp
  then obtain h2 where h2: "rb_replace (par k) (Some a) (rt x) (h1, root) = Some (h2, if k = [] then rt x else root)"
    "rb_ctx h2 k (rt x)" "\<And>e. par k \<noteq> Some e \<Longrightarrow> h2 e = h1 e"
    using rb_replace_ctx [OF _ H(3,4)] by blast
  have same: "h2 e = h1 e" if "e \<notin> ctx_nodes k" for e using h2(3) par_in that by blast
  have "rb_at h2 (par k) x" using h1(2) rb_at_cong [of x h2 h1] same H(7) by (metis disjoint_iff)
  moreover have "(if k = [] then rt x else root) = rt (plug k x)"
    using H(8) rt_plug [of k x "mk s c a Tip x"] by auto
  moreover have "h2 e = (F(a := h0 a)) e" if "e \<notin> ctx_nodes k" "e \<notin> set (nodes x)" for e
    using that same [of e] h1(3) [of e] H(9) [of e] by simp
  ultimately have "holds (F(a := h0 a)) (h2, if k = [] then rt x else root) (plug k x)"
    using h2(2) H(3,6,7) by (simp add: holds_plug)
  moreover have "h2 a = h0 a" using same h1(3) H(4,5) by simp
  ultimately show ?thesis using h1(1) h2(1) by (simp add: rb_unlink_def st)
qed

lemma exchange:
  assumes h: "holds F st (plug k (Nd c l a r))" and e: "e \<notin> set (nodes (plug k (Nd c l a r)))" "fst st e \<noteq> None" and l: "l \<noteq> Tip"
  shows "\<exists>st'. rb_exchange (Some e) (Some a) st = Some st' \<and> holds (F(a := fst st a)) st' (plug k (Nd c l e r)) \<and> fst st' a = fst st a"
proof -
  obtain h0 root where st: "st = (h0, root)" by (cases st)
  define na where "na = mknode LeftS (rt l) (rt r) (par k) c"
  have H: "rb_ctx h0 k (Some a)" "h0 a = Some na" "rb_at h0 (Some a) l" "rb_at h0 (Some a) r" "ctx_distinct k" "a \<notin> ctx_nodes k"
    "a \<notin> set (nodes l)" "a \<notin> set (nodes r)" "distinct (nodes l)" "distinct (nodes r)" "set (nodes l) \<inter> set (nodes r) = {}"
    "ctx_nodes k \<inter> set (nodes l) = {}" "ctx_nodes k \<inter> set (nodes r) = {}" "root = rt (plug k (Nd c l a r))"
    "\<And>b. b \<notin> ctx_nodes k \<Longrightarrow> b \<noteq> a \<Longrightarrow> b \<notin> set (nodes l) \<Longrightarrow> b \<notin> set (nodes r) \<Longrightarrow> h0 b = F b"
    using h by (auto simp: st holds_plug na_def)
  have en: "e \<notin> ctx_nodes k" "e \<noteq> a" "e \<notin> set (nodes l)" "e \<notin> set (nodes r)" using e(1) by (auto simp: set_nodes_plug)
  define h1 where "h1 = h0(e \<mapsto> na)"
  have p1: "rb_put (Some e) (\<lambda>_. na) (h0, root) = Some (h1, root)" using e(2) by (auto simp: rb_put_def st h1_def)
  have "rb_ctx h1 k (Some a)" using H(1) en(1) by (simp add: h1_def)
  then obtain h2 where h2: "rb_replace (par k) (Some a) (Some e) (h1, root) = Some (h2, if k = [] then Some e else root)"
    "rb_ctx h2 k (Some e)" "\<And>b. par k \<noteq> Some b \<Longrightarrow> h2 b = h1 b"
    using rb_replace_ctx [OF _ H(5,6)] by blast
  define q where "q = (if k = [] then Some e else root)"
  have s2: "h2 b = h1 b" if "b \<notin> ctx_nodes k" for b using h2(3) par_in that by blast
  have "rb_at h2 (Some a) l"
  proof -
    have "h2 b = h0 b" if "b \<in> set (nodes l)" for b
      using that s2 [of b] H(12) en(3) by (cases "b = e") (auto simp: h1_def)
    then show ?thesis using H(3) rb_at_cong [of l h2 h0] by simp
  qed
  then obtain h3 where h3: "rb_adopt (rt l) (Some e) (h2, q) = Some (h3, q)" "rb_at h3 (Some e) l" "\<And>b. b \<notin> set (nodes l) \<Longrightarrow> h3 b = h2 b"
    using rb_adopt_at [OF _ H(9)] by blast
  have "rb_at h3 (Some a) r"
  proof -
    have "h3 b = h0 b" if "b \<in> set (nodes r)" for b
    proof -
      have "b \<notin> set (nodes l)" "b \<notin> ctx_nodes k" "b \<noteq> e" using that H(11,13) en(4) by auto
      then show ?thesis using s2 [of b] h3(3) [of b] by (simp add: h1_def)
    qed
    then show ?thesis using H(4) rb_at_cong [of r h3 h0] by simp
  qed
  then obtain h4 where h4: "rb_adopt (rt r) (Some e) (h3, q) = Some (h4, q)" "rb_at h4 (Some e) r" "\<And>b. b \<notin> set (nodes r) \<Longrightarrow> h4 b = h3 b"
    using rb_adopt_at [OF _ H(10)] by blast
  have far: "h4 b = h2 b" if "b \<notin> set (nodes l)" "b \<notin> set (nodes r)" for b using h3(3) h4(3) that by simp
  have at_a: "h1 a = Some na" "h2 a = Some na" "h3 a = Some na" "h4 a = Some na"
    using H(2,6-8) en(2) s2 [of a] h3(3) [of a] h4(3) [of a] by (simp_all add: h1_def)
  obtain b where b: "rt l = Some b" using l by (cases l) auto
  have "rb_put (rt l) (set_parent (Some e)) (h2, q) = Some (h3, q)" using h3(1) b by (simp add: rb_adopt_def)
  moreover have "rbe_left na = rt l" "rbe_right na = rt r" "rbe_parent na = par k" by (simp_all add: na_def)
  ultimately have run: "rb_exchange (Some e) (Some a) st = Some (h4, q)"
    using H(2) p1 h2(1) [folded q_def] at_a h4(1) by (simp add: rb_exchange_def st rb_get_def)
  have "rb_ctx h4 k (Some e)"
  proof -
    have "h4 b = h2 b" if "b \<in> ctx_nodes k" for b using far [of b] that H(12,13) by blast
    then show ?thesis using h2(2) rb_ctx_cong [of k h4 h2] by simp
  qed
  moreover have "h4 e = Some na" using far [of e] s2 [of e] en by (simp add: h1_def)
  moreover have "rb_at h4 (Some e) l" using h3(2) rb_at_cong [of l h4 h3] h4(3) H(11) by (metis disjoint_iff)
  moreover have "q = rt (plug k (Nd c l e r))" using H(14) rt_plug [of k "Nd c l e r" "Nd c l a r"] by (auto simp: q_def)
  moreover have "h4 b = (F(a := h0 a)) b" if "b \<notin> ctx_nodes k" "b \<noteq> e" "b \<notin> set (nodes l)" "b \<notin> set (nodes r)" for b
    using that far [of b] s2 [of b] H(15) [of b] by (cases "b = a") (auto simp: h1_def)
  ultimately have "holds (F(a := h0 a)) (h4, q) (plug k (Nd c l e r))"
    using h4(2) H(5,9-13) en by (auto simp: holds_plug na_def)
  then show ?thesis using run at_a(4) H(2) by (simp add: st)
qed

lemma rb_walk_up_at: "holds F st (plug k t) \<Longrightarrow> par k \<noteq> None \<Longrightarrow> rb_walk_up st (par k) = Some ()"
proof (induction k arbitrary: t)
  case (Cons f k)
  obtain s c a y where f: "f = (s, c, a, y)" by (cases f)
  have h: "holds F st (plug k (mk s c a t y))" using Cons.prems(1) by (simp add: f)
  show ?case
  proof (cases "par k = None")
    case True
    then show ?thesis using holds_get [OF h] by (subst rb_walk_up.simps) (simp add: f)
  next
    case False
    then show ?thesis using holds_get [OF h] Cons.IH [OF h] by (subst rb_walk_up.simps) (simp add: f)
  qed
qed simp

lemma cbal_addr:
  "cbal n (k @ (s, c, a, y) # k') = cbal n (k @ (s, c, b, y) # k')"
  "topcol (k @ (s, c, a, y) # k') = topcol (k @ (s, c, b, y) # k')"
proof (induction k arbitrary: n)
  case Nil
  { case 1 then show ?case by simp }
  { case 2 then show ?case by simp }
next
  case (Cons f k)
  obtain s' c' a' y' where f: "f = (s', c', a', y')" by (cases f)
  { case 1 then show ?case using Cons by (simp add: f) }
  { case 2 then show ?case by (simp add: f) }
qed

lemma short_child: "bal n (mk s RB_BLACK a Tip x) \<Longrightarrow> short_of n x"
  using bal_col [of _ x] by (cases x) (auto simp: short_of_def split: if_splits)

text \<open>After the node has been taken out: repair if it was black.\<close>

lemma repair:
  assumes h: "holds F st (plug k x)" and b: "bal n (mk s c e Tip x)" "cbal n k" "c = RB_BLACK \<or> topcol k = RB_BLACK \<and> k \<noteq> []"
  shows "\<exists>st'. (if c = RB_BLACK then RB_REMOVE_COLOR (par k) (rt x) st else Some st) = Some st' \<and> rb_set F st' (nodes (plug k x))"
proof (cases "c = RB_BLACK")
  case True
  show ?thesis using RB_REMOVE_COLOR_spec [OF h short_child b(2), of s e] b(1) True
    by (auto simp: removed_def rb_set_def)
next
  case False
  then have "bal n x" "col x = RB_BLACK" using b(1) by (auto split: if_splits)
  then have "(\<exists>m. bal m (plug k x)) \<and> col (plug k x) = RB_BLACK" using bal_plug [OF b(2)] by blast
  then show ?thesis using h False by (auto simp: rb_set_def)
qed

lemma remove1_mid: "distinct (xs @ a # ys) \<Longrightarrow> remove1 a (xs @ a # ys) = xs @ ys"
  by (simp add: remove1_append)

lemma RB_REMOVE_spec:
  assumes r: "rb_set F st xs" and a: "a \<in> set xs"
  shows "\<exists>st' na. RB_REMOVE (Some a) st = Some (Some a, st') \<and> rb_set (F(a \<mapsto> na)) st' (remove1 a xs)"
proof -
  obtain T m where T: "holds F st T" "bal m T" "col T = RB_BLACK" "nodes T = xs" using r by (auto simp: rb_set_def)
  obtain k c l r where T_eq: "T = plug k (Nd c l a r)" using in_plug a T(4) by blast
  have dis: "distinct (before k @ nodes l @ a # nodes r @ after k)" using T(1) by (simp add: holds_def T_eq nodes_plug)
  have na: "rb_get st (Some a) = Some (mknode LeftS (rt l) (rt r) (par k) c)"
    using holds_get [of F st k LeftS c a l r] T(1) T_eq by simp
  then obtain nd where nd: "fst st a = Some nd" by (auto simp: rb_get_def)
  obtain n where n: "cbal n k" "bal n (Nd c l a r)" "c = RB_BLACK \<or> topcol k = RB_BLACK \<and> k \<noteq> []"
    using plug_bal [of m k "Nd c l a r"] T(2,3) by (auto simp: T_eq)
  show ?thesis
  proof (cases "l = Tip \<or> r = Tip")
    case True
    obtain s x where x: "Nd c l a r = mk s c a Tip x" "rt x = (if rt l = None then rt r else rt l)" "nodes x = nodes l @ nodes r"
    proof (cases "l = Tip")
      case True
      then show ?thesis using that [of LeftS r] by simp
    next
      case False
      then show ?thesis using that [of RightS l] \<open>l = Tip \<or> r = Tip\<close> by (cases l) auto
    qed
    from unlink [of F st k s c a x] T(1) obtain st1 where st1: "rb_unlink (Some a) (rt x) (par k) st = Some st1"
      "holds (F(a \<mapsto> nd)) st1 (plug k x)" by (auto simp: T_eq x(1) nd)
    from repair [OF st1(2) n(2) [unfolded x(1)] n(1,3)] obtain st' where
      st': "(if c = RB_BLACK then RB_REMOVE_COLOR (par k) (rt x) st1 else Some st1) = Some st'"
        "rb_set (F(a \<mapsto> nd)) st' (nodes (plug k x))" by blast
    have "nodes (plug k x) = remove1 a xs"
      using remove1_mid [of "before k @ nodes l" a "nodes r @ after k"] dis x(3) by (simp add: T(4) [symmetric] T_eq nodes_plug)
    moreover have "rt l = None \<or> rt r = None" using True by auto
    ultimately have "RB_REMOVE (Some a) st = Some (Some a, st')"
      using na st1(1) st'(1) x(2) by (auto simp: RB_REMOVE_def)
    then show ?thesis using st'(2) \<open>nodes (plug k x) = remove1 a xs\<close> by auto
  next
    case False
    obtain kk d e x where sp: "r = plug kk (mk LeftS d e Tip x)" "before kk = []" "hd (nodes r) = e" using rb_left_spine False by blast
    define K where "K = (\<lambda>b. kk @ (RightS, c, b, l) # k)"
    have plugK: "plug (K b) t = plug k (Nd c l b (plug kk t))" for b t by (simp add: K_def rb_plug_append)
    have hK: "holds F st (plug (K a) (mk LeftS d e Tip x))" using T(1) by (simp add: plugK T_eq sp(1) del: mk.simps)
    have rr: "nodes r = e # nodes x @ after kk" using sp(2) by (simp add: sp(1) nodes_plug)
    have ne: "e \<noteq> a" "e \<notin> set (nodes x)" "e \<notin> set (after kk)" "e \<notin> set (nodes l)" "e \<notin> set (before k)" "e \<notin> set (after k)"
      using dis by (auto simp: rr)
    have lm: "rb_leftmost st (rt r) = Some (Some e)"
      using rb_leftmost_at [of st "Some a" r] T(1) False sp(3) by (cases st) (simp add: T_eq holds_plug)
    have e1: "rb_get st (Some e) = Some (mknode LeftS None (rt x) (par (K a)) d)" using holds_get [OF hK] by simp
    from unlink [OF hK] obtain st1 where st1: "rb_unlink (Some e) (rt x) (par (K a)) st = Some st1"
      "holds (F(e := fst st e)) st1 (plug (K a) x)" "fst st1 e = fst st e" by blast
    have h1: "holds (F(e := fst st e)) st1 (plug k (Nd c l a (plug kk x)))" using st1(2) by (simp add: plugK)
    have "e \<notin> set (nodes (plug k (Nd c l a (plug kk x))))" using ne sp(2) by (simp add: nodes_plug)
    moreover have "fst st1 e \<noteq> None" using e1 st1(3) by (auto simp: rb_get_def)
    ultimately obtain st2 where st2: "rb_exchange (Some e) (Some a) st1 = Some st2"
      "holds (F(e := fst st e, a := fst st1 a)) st2 (plug k (Nd c l e (plug kk x)))"
      using exchange [OF h1] False by blast
    obtain na' where na': "fst st1 a = Some na'" using holds_get [of _ st1 k LeftS c a l "plug kk x"] h1 by (auto simp: rb_get_def)
    have h2: "holds (F(a \<mapsto> na')) st2 (plug (K e) x)"
      using holds_frame [OF st2(2), of "F(a \<mapsto> na')"] st2(2) na' by (auto simp: holds_def set_nodes_plug plugK)
    have "par (K a) = Some a \<longleftrightarrow> kk = []"
    proof (cases kk)
      case (Cons f kk')
      obtain s' c' b y where f: "f = (s', c', b, y)" by (cases f)
      have "b \<in> set (nodes r)" by (simp add: sp(1) Cons f set_nodes_plug)
      then show ?thesis using dis by (auto simp: K_def Cons f)
    qed (simp add: K_def)
    then have parent: "(if par (K a) = Some a then Some e else par (K a)) = par (K e)"
      by (cases kk) (auto simp: K_def)
    have walk: "rb_walk_up st2 (par (K e)) = Some ()"
      by (rule rb_walk_up_at [OF h2]) (cases kk; auto simp: K_def)
    obtain n' where n': "cbal n' (K a)" "bal n' (mk LeftS d e Tip x)" "d = RB_BLACK \<or> topcol (K a) = RB_BLACK \<and> K a \<noteq> []"
      using plug_bal [of m "K a" "mk LeftS d e Tip x"] T(2,3) by (auto simp: plugK T_eq sp(1))
    have nK: "cbal n' (K e)" "d = RB_BLACK \<or> topcol (K e) = RB_BLACK \<and> K e \<noteq> []"
      using n'(1,3) cbal_addr(1) [of n' kk RightS c a l k e] cbal_addr(2) [of kk RightS c a l k e] by (simp_all add: K_def)
    from repair [OF h2 n'(2) nK] obtain st' where
      st': "(if d = RB_BLACK then RB_REMOVE_COLOR (par (K e)) (rt x) st2 else Some st2) = Some st'"
        "rb_set (F(a \<mapsto> na')) st' (nodes (plug (K e) x))" by blast
    have "nodes (plug (K e) x) = remove1 a xs"
      using remove1_mid [of "before k @ nodes l" a "nodes r @ after k"] dis sp(2)
      by (simp add: T(4) [symmetric] T_eq plugK rr nodes_plug)
    moreover have "rb_get st1 (Some e) = Some (mknode LeftS None (rt x) (par (K a)) d)" using e1 st1(3) by (simp add: rb_get_def)
    moreover obtain bl br where "rt l = Some bl" "rt r = Some br" using False by (cases l; cases r; simp)
    moreover obtain pe where "par (K e) = Some pe" by (cases kk) (auto simp: K_def)
    ultimately have "RB_REMOVE (Some a) st = Some (Some a, st')"
      using na lm e1 st1(1) st2(1) walk st'(1) parent
      by (cases "par (K a) = Some a"; cases "d = RB_BLACK"; simp add: RB_REMOVE_def Let_def)
    then show ?thesis using st'(2) \<open>nodes (plug (K e) x) = remove1 a xs\<close> by auto
  qed
qed

section \<open>Insertion and search\<close>

text \<open>\<open>cmp\<close> is antisymmetric and transitive on a set of elements.\<close>

definition cmp_order :: "(nat \<Rightarrow> nat \<Rightarrow> int) \<Rightarrow> nat set \<Rightarrow> bool" where
  "cmp_order cmp S \<longleftrightarrow> (\<forall>a \<in> S. \<forall>b \<in> S. cmp a b < 0 \<longleftrightarrow> cmp b a > 0) \<and>
     (\<forall>a \<in> S. \<forall>b \<in> S. \<forall>c \<in> S. cmp a b < 0 \<longrightarrow> cmp b c < 0 \<longrightarrow> cmp a c < 0)"

definition cmp_sorted :: "(nat \<Rightarrow> nat \<Rightarrow> int) \<Rightarrow> nat list \<Rightarrow> bool" where
  "cmp_sorted cmp xs \<longleftrightarrow> sorted_wrt (\<lambda>a b. cmp a b < 0) xs"

lemma cmp_order_mono: "cmp_order cmp S \<Longrightarrow> T \<subseteq> S \<Longrightarrow> cmp_order cmp T"
  unfolding cmp_order_def by blast

lemma rb_before_append: "before (k @ k') = before k' @ before k"
  by (induction k rule: before.induct) simp_all

lemma rb_after_append: "after (k @ k') = after k @ after k'"
  by (induction k rule: after.induct) simp_all

lemma cmp_between:
  assumes "cmp_order cmp (insert x (set (xs @ a # ys)))" "cmp_sorted cmp (xs @ a # ys)"
  shows "cmp x a < 0 \<Longrightarrow> y \<in> set (a # ys) \<Longrightarrow> cmp x y < 0" "cmp x a > 0 \<Longrightarrow> y \<in> set (xs @ [a]) \<Longrightarrow> cmp x y > 0"
proof -
  have tr: "cmp u v < 0 \<Longrightarrow> cmp v w < 0 \<Longrightarrow> cmp u w < 0" and anti: "cmp u v < 0 \<longleftrightarrow> cmp v u > 0"
    if "u \<in> insert x (set (xs @ a # ys))" "v \<in> insert x (set (xs @ a # ys))" "w \<in> insert x (set (xs @ a # ys))" for u v w
    using assms(1) that unfolding cmp_order_def by blast+
  have below: "cmp y a < 0" if "y \<in> set xs" for y using assms(2) that by (simp add: cmp_sorted_def sorted_wrt_append)
  have above: "cmp a y < 0" if "y \<in> set ys" for y using assms(2) that by (simp add: cmp_sorted_def sorted_wrt_append)
  show "cmp x y < 0" if "cmp x a < 0" "y \<in> set (a # ys)" using that above [of y] tr [of x a y] by auto
  show "cmp x y > 0" if "cmp x a > 0" "y \<in> set (xs @ [a])"
    using that below [of y] tr [of y a x] anti [of a x] anti [of y x] by auto
qed

lemma rb_descend_at:
  assumes "rb_at (fst st) u t" "cmp_order cmp (insert x (set (nodes t)))" "cmp_sorted cmp (nodes t)"
  shows "(\<exists>y \<in> set (nodes t). cmp x y = 0 \<and> rb_descend cmp x st p cv (rt t) = Some (Some y, Some y, cmp x y)) \<or>
    (\<exists>k cv'. t = plug k Tip \<and> (\<forall>y \<in> set (before k). cmp x y > 0) \<and> (\<forall>y \<in> set (after k). cmp x y < 0) \<and>
       rb_descend cmp x st p cv (rt t) = Some (None, if k = [] then p else par k, cv') \<and>
       (k \<noteq> [] \<longrightarrow> (cv' < 0 \<longleftrightarrow> fst (hd k) = LeftS)))"
  using assms
proof (induction t arbitrary: u p cv)
  case Tip
  then show ?case by (intro disjI2 exI [of _ "[]"] exI [of _ cv]) (simp add: rb_descend.simps)
next
  case (Nd c l a r)
  have a: "rb_get st (Some a) = Some (mknode LeftS (rt l) (rt r) u c)" using Nd.prems(1) by (simp add: rb_get_def)
  note between = cmp_between [OF Nd.prems(2,3) [unfolded nodes.simps(2)]]
  have sub: "rb_at (fst st) (Some a) l" "rb_at (fst st) (Some a) r" "cmp_order cmp (insert x (set (nodes l)))"
    "cmp_order cmp (insert x (set (nodes r)))" "cmp_sorted cmp (nodes l)" "cmp_sorted cmp (nodes r)"
    using Nd.prems by (auto simp: cmp_sorted_def sorted_wrt_append elim: cmp_order_mono)
  consider "cmp x a = 0" | "cmp x a < 0" | "cmp x a > 0" by linarith
  then show ?case
  proof cases
    case 1
    then show ?thesis using a by (intro disjI1 bexI [of _ a]) (subst rb_descend.simps, auto)
  next
    case 2
    have run: "rb_descend cmp x st p cv (rt (Nd c l a r)) = rb_descend cmp x st (Some a) (cmp x a) (rt l)"
      using a 2 by (subst rb_descend.simps) simp
    from Nd.IH(1) [OF sub(1,3,5), of "Some a" "cmp x a"] show ?thesis
    proof (elim disjE bexE exE conjE)
      fix k cv' assume k: "l = plug k Tip" "\<forall>y \<in> set (before k). cmp x y > 0" "\<forall>y \<in> set (after k). cmp x y < 0"
        "rb_descend cmp x st (Some a) (cmp x a) (rt l) = Some (None, if k = [] then Some a else par k, cv')"
        "k \<noteq> [] \<longrightarrow> (cv' < 0 \<longleftrightarrow> fst (hd k) = LeftS)"
      have cv: "k = [] \<Longrightarrow> cv' = cmp x a" using k(1,4) by (simp add: rb_descend.simps)
      have out: "\<forall>y \<in> set (a # nodes r). cmp x y < 0" using between(1) [OF 2] by blast
      define K where "K = k @ [(LeftS, c, a, r)]"
      have "K \<noteq> []" by (simp add: K_def)
      moreover have "Nd c l a r = plug K Tip" using k(1) by (simp add: rb_plug_append K_def)
      moreover have "\<forall>y \<in> set (before K). cmp x y > 0" "\<forall>y \<in> set (after K). cmp x y < 0"
        using k(2,3) out by (auto simp: rb_before_append rb_after_append K_def)
      moreover have "rb_descend cmp x st p cv (rt (Nd c l a r)) = Some (None, par K, cv')"
        using run k(4) by (cases k) (auto simp: K_def)
      moreover have "cv' < 0 \<longleftrightarrow> fst (hd K) = LeftS" using k(5) cv 2 by (cases k) (auto simp: K_def)
      ultimately show ?thesis by (intro disjI2 exI [of _ K] exI [of _ cv'] conjI impI) simp_all
    qed (use run in auto)
  next
    case 3
    have run: "rb_descend cmp x st p cv (rt (Nd c l a r)) = rb_descend cmp x st (Some a) (cmp x a) (rt r)"
      using a 3 by (subst rb_descend.simps) simp
    from Nd.IH(2) [OF sub(2,4,6), of "Some a" "cmp x a"] show ?thesis
    proof (elim disjE bexE exE conjE)
      fix k cv' assume k: "r = plug k Tip" "\<forall>y \<in> set (before k). cmp x y > 0" "\<forall>y \<in> set (after k). cmp x y < 0"
        "rb_descend cmp x st (Some a) (cmp x a) (rt r) = Some (None, if k = [] then Some a else par k, cv')"
        "k \<noteq> [] \<longrightarrow> (cv' < 0 \<longleftrightarrow> fst (hd k) = LeftS)"
      have cv: "k = [] \<Longrightarrow> cv' = cmp x a" using k(1,4) by (simp add: rb_descend.simps)
      have out: "\<forall>y \<in> set (nodes l @ [a]). cmp x y > 0" using between(2) [OF 3] by blast
      define K where "K = k @ [(RightS, c, a, l)]"
      have "K \<noteq> []" by (simp add: K_def)
      moreover have "Nd c l a r = plug K Tip" using k(1) by (simp add: rb_plug_append K_def)
      moreover have "\<forall>y \<in> set (before K). cmp x y > 0" "\<forall>y \<in> set (after K). cmp x y < 0"
        using k(2,3) out by (auto simp: rb_before_append rb_after_append K_def)
      moreover have "rb_descend cmp x st p cv (rt (Nd c l a r)) = Some (None, par K, cv')"
        using run k(4) by (cases k) (auto simp: K_def)
      moreover have "cv' < 0 \<longleftrightarrow> fst (hd K) = LeftS" using k(5) cv 3 by (cases k) (auto simp: K_def)
      ultimately show ?thesis by (intro disjI2 exI [of _ K] exI [of _ cv'] conjI impI) simp_all
    qed (use run in auto)
  qed
qed

text \<open>A new red leaf.\<close>

lemma attach:
  assumes h: "holds F st (plug k Tip)" and x: "fst st x \<noteq> None" "x \<notin> set (nodes (plug k Tip))"
    and s: "k \<noteq> [] \<longrightarrow> (cv < 0 \<longleftrightarrow> fst (hd k) = LeftS)"
  shows "\<exists>st1 st2. RB_SET (Some x) (par k) st = Some st1 \<and>
    (if par k \<noteq> None then rb_put (par k) (set_link (if cv < 0 then LeftS else RightS) (Some x)) st1
     else Some (fst st1, Some x)) = Some st2 \<and> holds F st2 (plug k (mk LeftS RB_RED x Tip Tip))"
proof -
  obtain h0 root where st: "st = (h0, root)" by (cases st)
  obtain g where g: "h0 x = Some g" using x(1) by (auto simp: st)
  define nx where "nx = mknode LeftS None None (par k) RB_RED"
  have "g\<lparr>rbe_parent := par k, rbe_left := None, rbe_right := None, rbe_color := RB_RED\<rparr> = nx" by (simp add: nx_def)
  then have set: "RB_SET (Some x) (par k) st = Some (h0(x \<mapsto> nx), root)" using g by (simp add: RB_SET_def rb_put_def st)
  have H: "rb_ctx h0 k None" "root = rt (plug k Tip)" "ctx_distinct k" "x \<notin> ctx_nodes k" "\<And>e. e \<notin> ctx_nodes k \<Longrightarrow> h0 e = F e"
    using h x(2) by (auto simp: st holds_plug set_nodes_plug)
  show ?thesis
  proof (cases k)
    case Nil
    then show ?thesis using set H by (auto simp: holds_def nx_def)
  next
    case (Cons f k')
    obtain s c a y where f: "f = (s, c, a, y)" by (cases f)
    have a: "h0 a = Some (mknode s None (rt y) (par k') c)" "x \<noteq> a" using H by (simp_all add: Cons f)
    have side: "(if cv < 0 then LeftS else RightS) = s" using assms(4) by (cases s) (auto simp: Cons f)
    have root': "root = rt (plug k (mk LeftS RB_RED x Tip Tip))" using H(2) rt_plug [of k "mk LeftS RB_RED x Tip Tip" Tip] Cons by simp
    show ?thesis
      using set H a root' unfolding side
      by (auto simp: holds_plug Cons f rb_put_def nx_def)
  qed
qed

lemma RB_INSERT_spec:
  assumes r: "rb_set F st xs" and x: "F x \<noteq> None" "x \<notin> set xs" and o: "cmp_order cmp (insert x (set xs))" "cmp_sorted cmp xs"
  shows "if \<exists>y \<in> set xs. cmp x y = 0 then \<exists>y. cmp x y = 0 \<and> RB_INSERT cmp x st = Some (Some y, st)
    else \<exists>us vs st'. xs = us @ vs \<and> (\<forall>y \<in> set us. cmp x y > 0) \<and> (\<forall>y \<in> set vs. cmp x y < 0) \<and>
      RB_INSERT cmp x st = Some (None, st') \<and> rb_set F st' (us @ x # vs)"
proof -
  obtain T m where T: "holds F st T" "bal m T" "col T = RB_BLACK" "nodes T = xs" using r by (auto simp: rb_set_def)
  have root: "snd st = rt T" "rb_at (fst st) None T" "fst st x = F x" using T(1,4) x(2) by (auto simp: holds_def)
  from rb_descend_at [OF root(2) o [folded T(4)], of None 0] show ?thesis
  proof (elim disjE bexE exE conjE)
    fix y assume "y \<in> set (nodes T)" "cmp x y = 0" "rb_descend cmp x st None 0 (rt T) = Some (Some y, Some y, cmp x y)"
    then show ?thesis using root T(4) by (auto simp: RB_INSERT_def)
  next
    fix k cv assume k: "T = plug k Tip" "\<forall>y \<in> set (before k). cmp x y > 0" "\<forall>y \<in> set (after k). cmp x y < 0"
      "rb_descend cmp x st None 0 (rt T) = Some (None, if k = [] then None else par k, cv)"
      "k \<noteq> [] \<longrightarrow> (cv < 0 \<longleftrightarrow> fst (hd k) = LeftS)"
    have xs: "xs = before k @ after k" using T(4) by (simp add: k(1) nodes_plug)
    have par: "(if k = [] then None else par k) = par k" by simp
    obtain st1 st2 where st2: "RB_SET (Some x) (par k) st = Some st1"
      "(if par k \<noteq> None then rb_put (par k) (set_link (if cv < 0 then LeftS else RightS) (Some x)) st1
        else Some (fst st1, Some x)) = Some st2" "holds F st2 (plug k (mk LeftS RB_RED x Tip Tip))"
      using attach [OF T(1) [unfolded k(1)] _ _ k(5), of x] root(3) x T(4) [unfolded k(1)] by metis
    obtain n where "cbal n k" "bal n Tip" using plug_bal [of m k Tip] T(2,3) by (auto simp: k(1))
    then obtain st' T' where st': "RB_INSERT_COLOR (Some x) st2 = Some st'" "holds F st' T'"
      "nodes T' = nodes (plug k (mk LeftS RB_RED x Tip Tip))" "\<exists>m. bal m T'" "col T' = RB_BLACK"
      using RB_INSERT_COLOR_spec [OF st2(3) refl, of n] by auto
    have "rb_set F st' (before k @ x # after k)" using st'(2-5) by (auto simp: rb_set_def nodes_plug)
    moreover have "RB_INSERT cmp x st = Some (None, st')"
      using k(4) [unfolded par] root(1) st2(1,2) st'(1) by (cases "par k") (simp_all add: RB_INSERT_def)
    moreover have "\<not> (\<exists>y \<in> set xs. cmp x y = 0)" using k(2,3) by (auto simp: xs)
    ultimately show ?thesis using k(2,3) xs by auto
  qed
qed

lemma RB_FIND_spec:
  assumes r: "rb_set F st xs" and o: "cmp_order cmp (insert x (set xs))" "cmp_sorted cmp xs"
  shows "if \<exists>y \<in> set xs. cmp x y = 0 then \<exists>y \<in> set xs. cmp x y = 0 \<and> RB_FIND cmp x st = Some (Some y) else RB_FIND cmp x st = Some None"
proof -
  obtain T where T: "holds F st T" "nodes T = xs" using r by (auto simp: rb_set_def)
  have root: "snd st = rt T" "rb_at (fst st) None T" using T(1) by (auto simp: holds_def)
  from rb_descend_at [OF root(2) o [folded T(2)], of None 0] show ?thesis
  proof (elim disjE bexE exE conjE)
    fix k cv assume k: "T = plug k Tip" "\<forall>y \<in> set (before k). cmp x y > 0" "\<forall>y \<in> set (after k). cmp x y < 0"
      "rb_descend cmp x st None 0 (rt T) = Some (None, if k = [] then None else par k, cv)"
    have "xs = before k @ after k" using T(2) by (simp add: k(1) nodes_plug)
    then show ?thesis using k(2-4) root by (auto simp: RB_FIND_def)
  qed (use root T(2) in \<open>auto simp: RB_FIND_def\<close>)
qed

text \<open>The height is logarithmic.\<close>

primrec rb_height :: "rbt \<Rightarrow> nat" where
  "rb_height Tip = 0"
| "rb_height (Nd c l a r) = Suc (max (rb_height l) (rb_height r))"

lemma bal_size: "bal m t \<Longrightarrow> 2 ^ m \<le> length (nodes t) + 1"
proof (induction t arbitrary: m)
  case (Nd c l a r)
  show ?case
  proof (cases "c = RB_RED")
    case True
    then show ?thesis using Nd.IH(1) [of m] Nd.prems by simp
  next
    case False
    then obtain n where "m = Suc n" "bal n l" "bal n r" using Nd.prems by auto
    then show ?thesis using Nd.IH(1) [of n] Nd.IH(2) [of n] by simp
  qed
qed simp

lemma bal_height: "bal m t \<Longrightarrow> rb_height t \<le> 2 * m + (if col t = RB_RED then 1 else 0)"
proof (induction t arbitrary: m)
  case (Nd c l a r)
  show ?case
  proof (cases "c = RB_RED")
    case True
    then show ?thesis using Nd.IH [of m] Nd.prems by simp
  next
    case False
    then obtain n where "m = Suc n" "bal n l" "bal n r" using Nd.prems by auto
    then show ?thesis using Nd.IH(1) [of n] Nd.IH(2) [of n] by (auto split: if_splits)
  qed
qed simp

lemma rb_set_height: "rb_set F st xs \<Longrightarrow> \<exists>T. holds F st T \<and> nodes T = xs \<and> 2 ^ rb_height T \<le> (length xs + 1) ^ 2"
proof -
  assume "rb_set F st xs"
  then obtain T m where T: "holds F st T" "bal m T" "col T = RB_BLACK" "nodes T = xs" by (auto simp: rb_set_def)
  have "(2 :: nat) ^ rb_height T \<le> 2 ^ (2 * m)" using bal_height [OF T(2)] T(3) by simp
  also have "\<dots> = (2 ^ m) ^ 2" by (simp add: power_mult mult.commute)
  also have "\<dots> \<le> (length xs + 1) ^ 2" using bal_size [OF T(2)] T(4) by (intro power_mono) auto
  finally show ?thesis using T by blast
qed

section \<open>Ordered containers\<close>

definition first_of :: "nat list \<Rightarrow> nat option" where
  "first_of xs = (case xs of [] \<Rightarrow> None | x # _ \<Rightarrow> Some x)"

text \<open>\<open>RB_FOREACH\<close> with a body that leaves the links alone: the elements visited.\<close>

partial_function (option) foreach :: "(nat option \<Rightarrow> 'st \<Rightarrow> nat option option) \<Rightarrow> 'st \<Rightarrow> nat option \<Rightarrow> nat list option" where
  "foreach succ st x =
     (case x of None \<Rightarrow> Some [] | Some a \<Rightarrow> do { y \<leftarrow> succ x st; ys \<leftarrow> foreach succ st y; Some (a # ys) })"

locale ordered_nodes =
  fixes rep :: "'st \<Rightarrow> nat list \<Rightarrow> bool" and first :: "'st \<Rightarrow> nat option option"
    and succ :: "nat option \<Rightarrow> 'st \<Rightarrow> nat option option"
  assumes first_law: "rep st xs \<Longrightarrow> first st = Some (first_of xs)"
    and succ_law: "rep st (xs @ a # ys) \<Longrightarrow> succ (Some a) st = Some (first_of ys)"
begin

lemma foreach_from: "rep st (xs @ ys) \<Longrightarrow> foreach succ st (first_of ys) = Some ys"
proof (induction ys arbitrary: xs)
  case Nil
  then show ?case by (simp add: first_of_def foreach.simps)
next
  case (Cons y ys)
  have "foreach succ st (first_of ys) = Some ys" using Cons.IH [of "xs @ [y]"] Cons.prems by simp
  then show ?case using succ_law [OF Cons.prems] by (subst foreach.simps) (simp add: first_of_def)
qed

lemma foreach_all: "rep st xs \<Longrightarrow> Option.bind (first st) (foreach succ st) = Some xs"
  using first_law [of st xs] foreach_from [of st "[]" xs] by simp

end

text \<open>Containers that elements can be taken out of: taking the first one out again and again.\<close>

locale removable_nodes = ordered_nodes rep first succ
  for rep :: "'st \<Rightarrow> nat list \<Rightarrow> bool" and first succ +
  fixes del :: "nat option \<Rightarrow> 'st \<Rightarrow> (nat option \<times> 'st) option"
  assumes del_law: "rep st xs \<Longrightarrow> a \<in> set xs \<Longrightarrow> \<exists>st'. del (Some a) st = Some (Some a, st') \<and> rep st' (remove1 a xs)"
begin

lemma del_first:
  assumes "rep st (a # xs)"
  shows "\<exists>st'. first st = Some (Some a) \<and> del (Some a) st = Some (Some a, st') \<and> rep st' xs \<and> first st' = Some (first_of xs)"
  using del_law [OF assms, of a] first_law [OF assms] first_law by (auto simp: first_of_def)

end

definition rb_rep :: "rb_state \<Rightarrow> nat list \<Rightarrow> bool" where
  "rb_rep st xs \<longleftrightarrow> (\<exists>F. rb_set F st xs)"

lemma RB_MINMAX_spec:
  "rb_set F st xs \<Longrightarrow> RB_MINMAX val st = Some (if xs = [] then None else Some (if val < 0 then hd xs else last xs))"
  using rb_minmax_at [of st None _ val None]
  by (auto simp: RB_MINMAX_def rb_set_def holds_def) (metis nodes.simps(1) list.distinct(1) append_is_Nil_conv nodes.simps(2) rbt.exhaust)+

interpretation rb: removable_nodes rb_rep "RB_MINMAX (- 1)" RB_NEXT RB_REMOVE
proof
  show "RB_MINMAX (- 1) st = Some (first_of xs)" if "rb_rep st xs" for st xs
    using that by (cases xs) (auto simp: rb_rep_def RB_MINMAX_spec first_of_def)
  show "RB_NEXT (Some a) st = Some (first_of ys)" if "rb_rep st (xs @ a # ys)" for st xs a ys
    using that by (auto simp: rb_rep_def rb_set_def first_of_def RB_NEXT_spec)
  show "\<exists>st'. RB_REMOVE (Some a) st = Some (Some a, st') \<and> rb_rep st' (remove1 a xs)" if "rb_rep st xs" "a \<in> set xs" for st xs a
    using that RB_REMOVE_spec unfolding rb_rep_def by blast
qed

section \<open>Properties\<close>

text \<open>
  C51. The red-black tree implements an ordered list.  From links that form a red-black tree with
  the elements \<open>xs\<close> in order (balanced, no red node below a red one, black root, parents right)
  and memory \<open>F\<close> elsewhere: inserting allocated memory \<open>x\<close> finds an equal element and changes
  nothing, or puts \<open>x\<close> at its place; removing an element returns it and takes it out; in both cases
  the links form a red-black tree again and no other memory has changed.  Search finds an equal element
  exactly if there is one, minimum and maximum are the ends of the list, \<open>RB_FOREACH\<close> visits the list,
  and the height \<open>d\<close> of the tree satisfies \<open>2 ^ d \<le> (n + 1) ^ 2\<close> for \<open>n\<close> elements.
\<close>

theorem red_black_tree_refines_list:
  assumes "rb_set F st xs" "cmp_order cmp (insert x (set xs))" "cmp_sorted cmp xs"
  shows "(F x \<noteq> None \<longrightarrow> x \<notin> set xs \<longrightarrow>
      (if \<exists>y \<in> set xs. cmp x y = 0 then \<exists>y. cmp x y = 0 \<and> RB_INSERT cmp x st = Some (Some y, st)
       else \<exists>us vs st'. xs = us @ vs \<and> (\<forall>y \<in> set us. cmp x y > 0) \<and> (\<forall>y \<in> set vs. cmp x y < 0) \<and>
         RB_INSERT cmp x st = Some (None, st') \<and> rb_set F st' (us @ x # vs))) \<and>
    (\<forall>a \<in> set xs. \<exists>st' na. RB_REMOVE (Some a) st = Some (Some a, st') \<and> rb_set (F(a \<mapsto> na)) st' (remove1 a xs)) \<and>
    (if \<exists>y \<in> set xs. cmp x y = 0 then \<exists>y \<in> set xs. cmp x y = 0 \<and> RB_FIND cmp x st = Some (Some y) else RB_FIND cmp x st = Some None) \<and>
    RB_MINMAX val st = Some (if xs = [] then None else Some (if val < 0 then hd xs else last xs)) \<and>
    Option.bind (RB_MINMAX (- 1) st) (foreach RB_NEXT st) = Some xs \<and>
    (\<exists>T. holds F st T \<and> nodes T = xs \<and> 2 ^ rb_height T \<le> (length xs + 1) ^ 2)"
proof (intro conjI impI ballI)
  show "if \<exists>y \<in> set xs. cmp x y = 0 then \<exists>y. cmp x y = 0 \<and> RB_INSERT cmp x st = Some (Some y, st)
     else \<exists>us vs st'. xs = us @ vs \<and> (\<forall>y \<in> set us. cmp x y > 0) \<and> (\<forall>y \<in> set vs. cmp x y < 0) \<and>
       RB_INSERT cmp x st = Some (None, st') \<and> rb_set F st' (us @ x # vs)"
    if "F x \<noteq> None" "x \<notin> set xs" by (rule RB_INSERT_spec [OF assms(1) that assms(2,3)])
  show "\<exists>st' na. RB_REMOVE (Some a) st = Some (Some a, st') \<and> rb_set (F(a \<mapsto> na)) st' (remove1 a xs)" if "a \<in> set xs" for a
    by (rule RB_REMOVE_spec [OF assms(1) that])
  show "if \<exists>y \<in> set xs. cmp x y = 0 then \<exists>y \<in> set xs. cmp x y = 0 \<and> RB_FIND cmp x st = Some (Some y) else RB_FIND cmp x st = Some None"
    by (rule RB_FIND_spec [OF assms])
  show "Option.bind (RB_MINMAX (- 1) st) (foreach RB_NEXT st) = Some xs"
    using rb.foreach_all [of st xs] assms(1) unfolding rb_rep_def by blast
qed (rule RB_MINMAX_spec [OF assms(1)], rule rb_set_height [OF assms(1)])

definition by_address :: "nat \<Rightarrow> nat \<Rightarrow> int" where
  "by_address a b = int a - int b"

definition blank_heap :: "nat \<rightharpoonup> rb_node" where
  "blank_heap a = (if a < 10 then Some \<lparr>rbe_left = None, rbe_right = Some 7, rbe_parent = None, rbe_color = 42\<rparr> else None)"

lemma by_address_order: "cmp_order by_address S"
  by (auto simp: cmp_order_def by_address_def)

text \<open>Three insertions into an empty tree and a removal.\<close>

theorem red_black_tree_refines_list_witness:
  "\<exists>st1 st2 st3 st4. RB_INSERT by_address 5 (blank_heap, None) = Some (None, st1) \<and> RB_INSERT by_address 3 st1 = Some (None, st2) \<and>
     RB_INSERT by_address 4 st2 = Some (None, st3) \<and> RB_REMOVE (Some 4) st3 = Some (Some 4, st4) \<and>
     RB_FIND by_address 4 st4 = Some None \<and> Option.bind (RB_MINMAX (- 1) st4) (foreach RB_NEXT st4) = Some [3, 5]"
proof -
  note R = red_black_tree_refines_list [OF _ by_address_order, where val = 0]
  have "holds blank_heap (blank_heap, None) Tip" by (simp add: holds_def)
  then have "rb_set blank_heap (blank_heap, None) []" by (auto simp: rb_set_def intro!: exI [of _ Tip])
  then obtain st1 where 1: "RB_INSERT by_address 5 (blank_heap, None) = Some (None, st1)" "rb_set blank_heap st1 [5]"
    using R [of blank_heap "(blank_heap, None)" "[]" 5] by (auto simp: cmp_sorted_def blank_heap_def)
  obtain st2 where 2: "RB_INSERT by_address 3 st1 = Some (None, st2)" "rb_set blank_heap st2 [3, 5]"
    using R [OF 1(2), of 3] by (auto simp: cmp_sorted_def by_address_def blank_heap_def Cons_eq_append_conv)
  obtain st3 where 3: "RB_INSERT by_address 4 st2 = Some (None, st3)" "rb_set blank_heap st3 [3, 4, 5]"
    using R [OF 2(2), of 4] by (auto simp: cmp_sorted_def by_address_def blank_heap_def Cons_eq_append_conv)
  obtain st4 na where 4: "RB_REMOVE (Some 4) st3 = Some (Some 4, st4)" "rb_set (blank_heap(4 \<mapsto> na)) st4 [3, 5]"
    using R [OF 3(2), of 4] by (auto simp: cmp_sorted_def by_address_def)
  have "RB_FIND by_address 4 st4 = Some None" "Option.bind (RB_MINMAX (- 1) st4) (foreach RB_NEXT st4) = Some [3, 5]"
    using R [OF 4(2), of 4] by (simp_all add: cmp_sorted_def by_address_def)
  then show ?thesis using 1(1) 2(1) 3(1) 4(1) by blast
qed

end
