(* ===== verification/Timer_Tree.thy ===== *)
theory Timer_Tree
  imports Event_Loop Rb_Tree
begin

text \<open>
  The event loop of ae.c keeps its time events in a tree of tree.h, ordered by \<open>compare\<close>.  Here the
  operations on lists that stand for the tree in \<open>Event_Loop\<close> are shown to be what the red-black
  tree of \<open>Rb_Tree\<close> does: the links of the events form a tree whose nodes in order are the list
  \<open>timetree\<close>.
\<close>

lemma compare_order: "\<forall>a \<in> S. ev_ok hp a \<Longrightarrow> cmp_order (compare hp) S"
  by (auto simp: cmp_order_def compare_us split: if_splits)

lemma tt_ok_sorted: "tt_ok hp t \<Longrightarrow> cmp_sorted (compare hp) t"
  unfolding cmp_sorted_def tt_ok_def by (auto elim: sorted_wrt_mono_rel [rotated])

lemma timer_insert_split:
  assumes "xs = ps @ qs" "\<forall>y \<in> set ps. compare hp x y > 0" "\<forall>y \<in> set qs. compare hp x y < 0"
  shows "timer_insert hp x xs = ps @ x # qs"
proof -
  have "takeWhile (\<lambda>y. compare hp x y > 0) xs = ps" "dropWhile (\<lambda>y. compare hp x y > 0) xs = qs"
    using assms by (cases qs; force simp: takeWhile_append dropWhile_append)+
  moreover have "\<not> (\<exists>y \<in> set xs. compare hp x y = 0)" using assms by force
  ultimately show ?thesis by (simp add: timer_insert_def)
qed

lemma timer_next_mid: "a \<notin> set xs \<Longrightarrow> timer_next a (xs @ a # ys) = first_of ys"
  by (induction xs) (auto simp: timer_next_def first_of_def split: list.split)

lemma timer_min_first: "timer_min t = first_of t"
  by (simp add: timer_min_def first_of_def)

interpretation timers_list: ordered_nodes "\<lambda>t xs. t = xs \<and> distinct xs" "\<lambda>t. Some (timer_min t)"
  "\<lambda>a t. Option.bind a (\<lambda>a. Some (timer_next a t))"
  by unfold_locales (auto simp: timer_min_first timer_next_mid)

text \<open>
  C52. The tree of the event loop.  While the links of the time events form a red-black tree with
  the nodes \<open>t\<close>, sorted by time, every operation of tree.h that ae.c uses is the list operation of the
  model of the loop: inserting a new event, the earliest event, the next event, removing an event
  give what \<open>timer_insert\<close>, \<open>timer_min\<close>, \<open>timer_next\<close> and \<open>timer_remove\<close> give and leave a red-black
  tree with these nodes, and \<open>RB_FOREACH\<close> visits \<open>t\<close>.
\<close>

theorem time_events_in_tree:
  assumes "rb_set F st t" "tt_ok hp t"
  shows "(ev_ok hp x \<longrightarrow> x \<notin> set t \<longrightarrow> F x \<noteq> None \<longrightarrow>
      (\<exists>st'. RB_INSERT (compare hp) x st = Some (None, st') \<and> rb_set F st' (timer_insert hp x t))) \<and>
    RB_MINMAX (- 1) st = Some (timer_min t) \<and>
    (a \<in> set t \<longrightarrow> RB_NEXT (Some a) st = Some (timer_next a t) \<and>
      (\<exists>st' na. RB_REMOVE (Some a) st = Some (Some a, st') \<and> rb_set (F(a \<mapsto> na)) st' (timer_remove a t))) \<and>
    Option.bind (RB_MINMAX (- 1) st) (foreach RB_NEXT st) = Some t"
proof (intro conjI impI)
  have rep: "rb_rep st t" using assms(1) by (auto simp: rb_rep_def)
  show "RB_MINMAX (- 1) st = Some (timer_min t)" using rb.first_law [OF rep] by (simp add: timer_min_first)
  show "Option.bind (RB_MINMAX (- 1) st) (foreach RB_NEXT st) = Some t" by (rule rb.foreach_all [OF rep])
  show "\<exists>st'. RB_INSERT (compare hp) x st = Some (None, st') \<and> rb_set F st' (timer_insert hp x t)"
    if x: "ev_ok hp x" "x \<notin> set t" "F x \<noteq> None"
  proof -
    have ev: "\<forall>b \<in> insert x (set t). ev_ok hp b" using x(1) tt_ok_ev [OF assms(2)] by blast
    then have "\<not> (\<exists>y \<in> set t. compare hp x y = 0)" using x(2) by (auto simp: compare_us split: if_splits)
    then show ?thesis
      using RB_INSERT_spec [OF assms(1) x(3,2) compare_order [OF ev] tt_ok_sorted [OF assms(2)]] timer_insert_split [of t _ _ hp x]
      by auto
  qed
  assume a: "a \<in> set t"
  then obtain xs ys where t: "t = xs @ a # ys" "a \<notin> set xs" using split_list_first by metis
  show "RB_NEXT (Some a) st = Some (timer_next a t)"
    using rb.succ_law rep timer_next_mid [OF t(2)] unfolding t(1) by simp
  show "\<exists>st' na. RB_REMOVE (Some a) st = Some (Some a, st') \<and> rb_set (F(a \<mapsto> na)) st' (timer_remove a t)"
    using RB_REMOVE_spec [OF assms(1) a] by (simp add: timer_remove_def)
qed

text \<open>Two events, one second apart.\<close>

definition two_events :: "nat \<rightharpoonup> aeTimeEvent" where
  "two_events = [1 \<mapsto> timer_at 0 0, 2 \<mapsto> timer_at 0 1]"

theorem time_events_in_tree_witness:
  "\<exists>st1 st2. RB_INSERT (compare two_events) 2 (blank_heap, None) = Some (None, st1) \<and>
     RB_INSERT (compare two_events) 1 st1 = Some (None, st2) \<and>
     RB_MINMAX (- 1) st2 = Some (Some 1) \<and> RB_NEXT (Some 1) st2 = Some (Some 2)"
proof -
  have ev: "ev_ok two_events 1" "ev_ok two_events 2"
    by (simp_all add: two_events_def ev_ok_def timer_at_def second_def valid_tv_def us_def)
  have cmp: "compare two_events 1 2 = - 1" by (simp add: two_events_def compare_def timer_at_def timercmp_less_def)
  have ok: "tt_ok two_events []" "tt_ok two_events [2]" "tt_ok two_events [1, 2]" using ev cmp by (simp_all add: tt_ok_def)
  have ins: "timer_insert two_events 2 [] = [2]" "timer_insert two_events 1 [2] = [1, 2]" using cmp by (simp_all add: timer_insert_def)
  have "holds blank_heap (blank_heap, None) Tip" by (simp add: holds_def)
  then have "rb_set blank_heap (blank_heap, None) []" by (auto simp: rb_set_def intro!: exI [of _ Tip])
  from time_events_in_tree [OF this ok(1), of 2 0] ev(2) obtain st1 where
    1: "RB_INSERT (compare two_events) 2 (blank_heap, None) = Some (None, st1)" "rb_set blank_heap st1 [2]"
    unfolding ins by (auto simp: blank_heap_def)
  from time_events_in_tree [OF 1(2) ok(2), of 1 0] ev(1) obtain st2 where
    2: "RB_INSERT (compare two_events) 1 st1 = Some (None, st2)" "rb_set blank_heap st2 [1, 2]"
    unfolding ins by (auto simp: blank_heap_def)
  have "RB_MINMAX (- 1) st2 = Some (Some 1)" "RB_NEXT (Some 1) st2 = Some (Some 2)"
    using time_events_in_tree [OF 2(2) ok(3), of 0 1] by (simp_all add: timer_min_def timer_next_def)
  then show ?thesis using 1(1) 2(1) by blast
qed

end
