(* ===== verification/Loop_Memory.thy ===== *)
theory Loop_Memory
  imports Prelude
begin

text \<open>
  What the event loop of src/cnm/net/ae.c and ae\_epoll.c allocates and gives back: the blocks and the
  epoll descriptor that \<open>aeCreateEventLoop\<close> acquires, as a set of live resources.  The outcomes of
  \<open>malloc\<close> and \<open>epoll_create\<close> are arguments; freeing what is not live is \<^term>\<open>None\<close>.  What the loop
  does with its fields is in the theory Event\_Loop.
\<close>

section \<open>The code\<close>

datatype resource = LoopBlock | EventsBlock | FiredBlock | StateBlock | EpollEvents | EpollFd

record outcomes =
  ok_loop :: bool
  ok_events :: bool
  ok_fired :: bool
  ok_state :: bool
  ok_epoll_events :: bool
  ok_epoll_fd :: bool

definition release :: "resource \<Rightarrow> resource set \<Rightarrow> resource set option" where
  "release r live = (if r \<in> live then Some (live - {r}) else None)"

definition aeApiCreate :: "outcomes \<Rightarrow> resource set \<Rightarrow> (int \<times> resource set) option" where
  "aeApiCreate ok live =
     (if \<not> ok_state ok then Some (- 1, live)
      else let live = insert StateBlock live
           in if \<not> ok_epoll_events ok then do { live \<leftarrow> release StateBlock live; Some (- 1, live) }
              else let live = insert EpollEvents live
                   in if \<not> ok_epoll_fd ok
                      then do { live \<leftarrow> release EpollEvents live; live \<leftarrow> release StateBlock live; Some (- 1, live) }
                      else Some (0, insert EpollFd live))"

text \<open>The flag tells whether \<open>aeCreateEventLoop\<close> returns a loop.\<close>

definition create_err :: "resource set \<Rightarrow> (bool \<times> resource set) option" where
  "create_err live = (if LoopBlock \<in> live then do { live \<leftarrow> release LoopBlock live; Some (False, live) } else Some (False, live))"

definition create_blocks :: "outcomes \<Rightarrow> resource set \<Rightarrow> (bool \<times> resource set) option" where
  "create_blocks ok live =
     (if \<not> ok_loop ok then create_err live
      else let live = insert LoopBlock live;
               live = (if ok_events ok then insert EventsBlock live else live);
               live = (if ok_fired ok then insert FiredBlock live else live)
           in if \<not> ok_events ok \<or> \<not> ok_fired ok then create_err live
              else do {
                (r, live) \<leftarrow> aeApiCreate ok live;
                if r = - 1 then create_err live else Some (True, live) })"

definition aeApiFree :: "resource set \<Rightarrow> resource set option" where
  "aeApiFree live = do {
     live \<leftarrow> release EpollFd live;
     live \<leftarrow> release EpollEvents live;
     release StateBlock live }"

definition aeDeleteEventLoop :: "resource set \<Rightarrow> resource set option" where
  "aeDeleteEventLoop live = do {
     live \<leftarrow> aeApiFree live;
     live \<leftarrow> release EventsBlock live;
     release LoopBlock live }"

section \<open>Leaks\<close>

text \<open>
  Nothing is freed twice; a loop that could be made owns all six resources, and deleting it gives
  back all but the array of fired events; a loop that could not be made leaves behind whichever of
  its two arrays was allocated.
\<close>

lemma loop_memory:
  "create_blocks ok {} =
     (if ok_loop ok \<and> ok_events ok \<and> ok_fired ok \<and> ok_state ok \<and> ok_epoll_events ok \<and> ok_epoll_fd ok
      then Some (True, {LoopBlock, EventsBlock, FiredBlock, StateBlock, EpollEvents, EpollFd})
      else Some (False, {r. ok_loop ok \<and> (r = EventsBlock \<and> ok_events ok \<or> r = FiredBlock \<and> ok_fired ok)}))"
  "aeDeleteEventLoop {LoopBlock, EventsBlock, FiredBlock, StateBlock, EpollEvents, EpollFd} = Some {FiredBlock}"
  by (auto simp: create_blocks_def create_err_def aeApiCreate_def release_def Let_def aeDeleteEventLoop_def aeApiFree_def)

end
