(* ===== verification/Search_Tree.thy ===== *)
theory Search_Tree
  imports Prelude "HOL-Library.Tree" "HOL-Library.Multiset"
begin

text \<open>
  The binary search tree of algorithm/tree.c: nodes in a heap, linked to their children and to
  their parent.  A pointer is an address or NULL (\<^term>\<open>None\<close>), the heap a partial map from
  addresses to nodes, \<open>malloc\<close> the address it returns, which is an argument.  The result
  \<^term>\<open>None\<close> of an operation is a dereferenced NULL or freed pointer or a loop that never ends.

  Search, insertion, deletion, successor and predecessor are shown to act on the heap the way
  functions on trees of addresses and keys do; those in turn insert into and delete from the
  sorted list of the keys.  The list contract is the locale \<open>sorted_bag\<close>.
\<close>

section \<open>The code\<close>

type_synonym ptr = "nat option"

record tree_node =
  nd_key :: int
  nd_left :: ptr
  nd_right :: ptr
  nd_parent :: ptr

type_synonym tree_heap = "nat \<rightharpoonup> tree_node"

definition deref :: "tree_heap \<Rightarrow> ptr \<Rightarrow> tree_node option" where
  "deref h p = (case p of None \<Rightarrow> None | Some a \<Rightarrow> h a)"

definition store :: "ptr \<Rightarrow> (tree_node \<Rightarrow> tree_node) \<Rightarrow> tree_heap \<Rightarrow> tree_heap option" where
  "store p f h = do { a \<leftarrow> p; nd \<leftarrow> h a; Some (h(a \<mapsto> f nd)) }"

definition new_node :: "ptr \<Rightarrow> int \<Rightarrow> tree_heap \<Rightarrow> ptr \<times> tree_heap" where
  "new_node malloc k h = (case malloc of
     None \<Rightarrow> (None, h)
   | Some a \<Rightarrow> (Some a, h(a \<mapsto> \<lparr>nd_key = k, nd_left = None, nd_right = None, nd_parent = None\<rparr>)))"

partial_function (option) tree_search :: "tree_heap \<Rightarrow> ptr \<Rightarrow> int \<Rightarrow> ptr option" where
  "tree_search h p k =
     (if p = None then Some None
      else do {
        nd \<leftarrow> deref h p;
        if nd_key nd = k then Some p
        else if k < nd_key nd then tree_search h (nd_left nd) k
        else tree_search h (nd_right nd) k })"

partial_function (option) tree_minimum :: "tree_heap \<Rightarrow> ptr \<Rightarrow> ptr option" where
  "tree_minimum h p =
     (if p = None then Some p
      else do {
        nd \<leftarrow> deref h p;
        if nd_left nd \<noteq> None then tree_minimum h (nd_left nd) else Some p })"

partial_function (option) tree_maximum :: "tree_heap \<Rightarrow> ptr \<Rightarrow> ptr option" where
  "tree_maximum h p =
     (if p = None then Some p
      else do {
        nd \<leftarrow> deref h p;
        if nd_right nd \<noteq> None then tree_maximum h (nd_right nd) else Some p })"

text \<open>The loops of \<open>tree_successor\<close> and \<open>tree_precursor\<close> that climb to the first ancestor on the other side.\<close>

partial_function (option) climb_right :: "tree_heap \<Rightarrow> ptr \<Rightarrow> ptr \<Rightarrow> ptr option" where
  "climb_right h p y =
     (if y = None then Some y
      else do {
        nd \<leftarrow> deref h y;
        if p = nd_right nd then climb_right h y (nd_parent nd) else Some y })"

partial_function (option) climb_left :: "tree_heap \<Rightarrow> ptr \<Rightarrow> ptr \<Rightarrow> ptr option" where
  "climb_left h p y =
     (if y = None then Some y
      else do {
        nd \<leftarrow> deref h y;
        if p = nd_left nd then climb_left h y (nd_parent nd) else Some y })"

definition tree_successor :: "tree_heap \<Rightarrow> ptr \<Rightarrow> ptr option" where
  "tree_successor h p = do {
     nd \<leftarrow> deref h p;
     if nd_right nd \<noteq> None then tree_minimum h (nd_right nd)
     else climb_right h p (nd_parent nd) }"

definition tree_precursor :: "tree_heap \<Rightarrow> ptr \<Rightarrow> ptr option" where
  "tree_precursor h p = do {
     nd \<leftarrow> deref h p;
     if nd_left nd \<noteq> None then tree_maximum h (nd_left nd)
     else climb_left h p (nd_parent nd) }"

text \<open>The loop of \<open>insert\<close>: the node under which a key belongs.\<close>

partial_function (option) insert_point :: "tree_heap \<Rightarrow> int \<Rightarrow> ptr \<Rightarrow> ptr \<Rightarrow> ptr option" where
  "insert_point h k y x =
     (if x = None then Some y
      else do {
        nd \<leftarrow> deref h x;
        insert_point h k x (if k < nd_key nd then nd_left nd else nd_right nd) })"

definition tree_insert :: "ptr \<Rightarrow> int \<Rightarrow> tree_heap \<times> ptr \<Rightarrow> (int \<times> tree_heap \<times> ptr) option" where
  "tree_insert malloc k st = (case st of (h, root) \<Rightarrow>
     (case new_node malloc k h of
        (None, h) \<Rightarrow> Some (- 1, h, root)
      | (Some a, h) \<Rightarrow> do {
          y \<leftarrow> insert_point h k None root;
          if y = None then Some (0, h, Some a)
          else do {
            nd \<leftarrow> deref h y;
            h \<leftarrow> (if k < nd_key nd then store y (nd_left_update (\<lambda>_. Some a)) h
                  else store y (nd_right_update (\<lambda>_. Some a)) h);
            h \<leftarrow> store (Some a) (nd_parent_update (\<lambda>_. y)) h;
            Some (0, h, root) } }))"

text \<open>The first part of \<open>transplant\<close>: the link from the parent of \<open>u\<close>, or the root, becomes \<open>v\<close>.\<close>

definition relink :: "ptr \<Rightarrow> ptr \<Rightarrow> ptr \<Rightarrow> tree_heap \<times> ptr \<Rightarrow> (tree_heap \<times> ptr) option" where
  "relink par u v st = (case st of (h, root) \<Rightarrow>
     if par = None then Some (h, v)
     else do {
       np \<leftarrow> deref h par;
       h \<leftarrow> (if u = nd_left np then store par (nd_left_update (\<lambda>_. v)) h
             else store par (nd_right_update (\<lambda>_. v)) h);
       Some (h, root) })"

definition transplant :: "ptr \<Rightarrow> ptr \<Rightarrow> tree_heap \<times> ptr \<Rightarrow> (tree_heap \<times> ptr) option" where
  "transplant u v st = do {
     nu \<leftarrow> deref (fst st) u;
     (h, root) \<leftarrow> relink (nd_parent nu) u v st;
     if v \<noteq> None then do {
       nu \<leftarrow> deref h u;
       h \<leftarrow> store v (nd_parent_update (\<lambda>_. nd_parent nu)) h;
       Some (h, root) }
     else Some (h, root) }"

text \<open>
  The two steps of \<open>tree_delete\<close> for a node \<open>p\<close> with two children: its successor \<open>y\<close> leaves its
  place and takes over the right subtree, then it takes the place of \<open>p\<close> and its left subtree.
\<close>

definition lift_successor :: "ptr \<Rightarrow> ptr \<Rightarrow> tree_heap \<times> ptr \<Rightarrow> (tree_heap \<times> ptr) option" where
  "lift_successor p y st = do {
     ny \<leftarrow> deref (fst st) y;
     if nd_parent ny \<noteq> p then do {
       (h, root) \<leftarrow> transplant y (nd_right ny) st;
       np \<leftarrow> deref h p;
       h \<leftarrow> store y (nd_right_update (\<lambda>_. nd_right np)) h;
       ny \<leftarrow> deref h y;
       h \<leftarrow> store (nd_right ny) (nd_parent_update (\<lambda>_. y)) h;
       Some (h, root) }
     else Some st }"

definition replace_by_successor :: "ptr \<Rightarrow> ptr \<Rightarrow> tree_heap \<times> ptr \<Rightarrow> (tree_heap \<times> ptr) option" where
  "replace_by_successor p y st = do {
     (h, root) \<leftarrow> transplant p y st;
     np \<leftarrow> deref h p;
     h \<leftarrow> store y (nd_left_update (\<lambda>_. nd_left np)) h;
     ny \<leftarrow> deref h y;
     h \<leftarrow> store (nd_left ny) (nd_parent_update (\<lambda>_. y)) h;
     Some (h, root) }"

definition tree_delete :: "int \<Rightarrow> tree_heap \<times> ptr \<Rightarrow> (int \<times> tree_heap \<times> ptr) option" where
  "tree_delete k st = do {
     p \<leftarrow> tree_search (fst st) (snd st) k;
     if p = None then Some (- 1, st)
     else do {
       np \<leftarrow> deref (fst st) p;
       if nd_left np = None then do { st \<leftarrow> transplant p (nd_right np) st; Some (0, st) }
       else if nd_right np = None then do { st \<leftarrow> transplant p (nd_left np) st; Some (0, st) }
       else do {
         y \<leftarrow> tree_minimum (fst st) (nd_right np);
         st \<leftarrow> lift_successor p y st;
         st \<leftarrow> replace_by_successor p y st;
         Some (0, st) } } }"

partial_function (option) tree_inorder_walk :: "tree_heap \<Rightarrow> ptr \<Rightarrow> int list option" where
  "tree_inorder_walk h p =
     (if p = None then Some []
      else do {
        nd \<leftarrow> deref h p;
        xs \<leftarrow> tree_inorder_walk h (nd_left nd);
        ys \<leftarrow> tree_inorder_walk h (nd_right nd);
        Some (xs @ nd_key nd # ys) })"

partial_function (option) tree_free :: "ptr \<Rightarrow> tree_heap \<Rightarrow> tree_heap option" where
  "tree_free p h =
     (if p = None then Some h
      else do {
        nd \<leftarrow> deref h p;
        h \<leftarrow> tree_free (nd_left nd) h;
        nd \<leftarrow> deref h p;
        h \<leftarrow> tree_free (nd_right nd) h;
        nd \<leftarrow> deref h p;
        Some (h(the p := None)) })"

section \<open>Trees of addresses and keys\<close>

primrec tree_at :: "tree_heap \<Rightarrow> ptr \<Rightarrow> ptr \<Rightarrow> (nat \<times> int) tree \<Rightarrow> bool" where
  "tree_at h par p Leaf \<longleftrightarrow> p = None"
| "tree_at h par p (Node l x r) \<longleftrightarrow> p = Some (fst x) \<and>
     (\<exists>lp rp. h (fst x) = Some \<lparr>nd_key = snd x, nd_left = lp, nd_right = rp, nd_parent = par\<rparr> \<and>
        tree_at h (Some (fst x)) lp l \<and> tree_at h (Some (fst x)) rp r)"

definition addrs :: "(nat \<times> int) tree \<Rightarrow> nat list" where
  "addrs t = map fst (inorder t)"

definition keys :: "(nat \<times> int) tree \<Rightarrow> int list" where
  "keys t = map snd (inorder t)"

lemma addrs_simps [simp]:
  "addrs Leaf = []" "addrs (Node l x r) = addrs l @ fst x # addrs r"
  by (simp_all add: addrs_def)

lemma keys_simps [simp]:
  "keys Leaf = []" "keys (Node l x r) = keys l @ snd x # keys r"
  by (simp_all add: keys_def)

lemma tree_at_cong: "(\<And>a. a \<in> set (addrs t) \<Longrightarrow> h' a = h a) \<Longrightarrow> tree_at h' par p t = tree_at h par p t"
  by (induction t arbitrary: par p) auto

lemma tree_at_upd [simp]: "a \<notin> set (addrs t) \<Longrightarrow> tree_at (h(a := v)) par p t = tree_at h par p t"
  by (rule tree_at_cong) auto

lemma tree_at_root: "tree_at h par p t \<Longrightarrow> t \<noteq> Leaf \<Longrightarrow> p = Some (fst (value t))"
  by (cases t) auto

lemma tree_at_None [simp]: "tree_at h par None t \<longleftrightarrow> t = Leaf"
  by (cases t) auto

lemma tree_at_in: "tree_at h par p t \<Longrightarrow> a \<in> set (addrs t) \<Longrightarrow> h a \<noteq> None"
  by (induction t arbitrary: par p) auto

lemma tree_at_root_in: "tree_at h par (Some a) t \<Longrightarrow> a \<in> set (addrs t)"
  by (cases t) auto

lemma tree_at_parent: "tree_at h par (Some a) t \<Longrightarrow> \<exists>nd. h a = Some nd \<and> nd_parent nd = par"
  by (cases t) auto

text \<open>Moving a subtree under another parent changes one field.\<close>

lemma tree_at_reparent:
  "tree_at h par (Some a) t \<Longrightarrow> distinct (addrs t) \<Longrightarrow> h a = Some nd \<Longrightarrow>
     tree_at (h(a \<mapsto> nd\<lparr>nd_parent := par'\<rparr>)) par' (Some a) t"
  by (cases t) auto

section \<open>Search, minimum and maximum\<close>

primrec find :: "int \<Rightarrow> (nat \<times> int) tree \<Rightarrow> nat option" where
  "find k Leaf = None"
| "find k (Node l x r) = (if snd x = k then Some (fst x) else if k < snd x then find k l else find k r)"

lemma tree_search_find: "tree_at h par p t \<Longrightarrow> tree_search h p k = Some (find k t)"
proof (induction t arbitrary: par p)
  case Leaf
  then show ?case by (simp add: tree_search.simps)
next
  case (Node l x r)
  then obtain lp rp where "p = Some (fst x)"
    "h (fst x) = Some \<lparr>nd_key = snd x, nd_left = lp, nd_right = rp, nd_parent = par\<rparr>"
    "tree_search h lp k = Some (find k l)" "tree_search h rp k = Some (find k r)" by auto
  then show ?case by (subst tree_search.simps) (simp add: deref_def)
qed

lemma find_in: "find k t = Some a \<Longrightarrow> (a, k) \<in> set_tree t"
  by (induction t) (auto split: if_splits)

lemma find_sorted: "sorted (keys t) \<Longrightarrow> find k t = None \<longleftrightarrow> k \<notin> set (keys t)"
  by (induction t) (auto simp: sorted_append)

lemma tree_minimum_first:
  "tree_at h par p t \<Longrightarrow> t \<noteq> Leaf \<Longrightarrow> tree_minimum h p = Some (Some (hd (addrs t)))"
proof (induction t arbitrary: par p)
  case (Node l x r)
  then obtain lp rp where "p = Some (fst x)" and nd:
    "h (fst x) = Some \<lparr>nd_key = snd x, nd_left = lp, nd_right = rp, nd_parent = par\<rparr>"
    and l: "tree_at h (Some (fst x)) lp l" by auto
  moreover have "tree_minimum h lp = Some (Some (hd (addrs l)))" "lp \<noteq> None" if "l \<noteq> Leaf"
    using Node.IH(1) [OF l] tree_at_root [OF l] that by auto
  moreover have "lp = None" if "l = Leaf" using l that by simp
  moreover have "addrs l \<noteq> []" if "l \<noteq> Leaf" using that by (cases l) auto
  ultimately show ?case by (subst tree_minimum.simps) (cases "l = Leaf"; simp add: deref_def)
qed simp

lemma tree_maximum_last:
  "tree_at h par p t \<Longrightarrow> t \<noteq> Leaf \<Longrightarrow> tree_maximum h p = Some (Some (last (addrs t)))"
proof (induction t arbitrary: par p)
  case (Node l x r)
  then obtain lp rp where "p = Some (fst x)" and nd:
    "h (fst x) = Some \<lparr>nd_key = snd x, nd_left = lp, nd_right = rp, nd_parent = par\<rparr>"
    and r: "tree_at h (Some (fst x)) rp r" by auto
  moreover have "tree_maximum h rp = Some (Some (last (addrs r)))" "rp \<noteq> None" if "r \<noteq> Leaf"
    using Node.IH(2) [OF r] tree_at_root [OF r] that by auto
  moreover have "rp = None" if "r = Leaf" using r that by simp
  moreover have "addrs r \<noteq> []" if "r \<noteq> Leaf" using that by (cases r) auto
  ultimately show ?case by (subst tree_maximum.simps) (cases "r = Leaf"; simp add: deref_def)
qed simp

lemma tree_inorder_walk_keys: "tree_at h par p t \<Longrightarrow> tree_inorder_walk h p = Some (keys t)"
proof (induction t arbitrary: par p)
  case Leaf
  then show ?case by (simp add: tree_inorder_walk.simps)
next
  case (Node l x r)
  then obtain lp rp where "p = Some (fst x)"
    "h (fst x) = Some \<lparr>nd_key = snd x, nd_left = lp, nd_right = rp, nd_parent = par\<rparr>"
    "tree_inorder_walk h lp = Some (keys l)" "tree_inorder_walk h rp = Some (keys r)" by auto
  then show ?case by (subst tree_inorder_walk.simps) (simp add: deref_def)
qed

lemma tree_free_heap:
  "tree_at h par p t \<Longrightarrow> distinct (addrs t) \<Longrightarrow> tree_free p h = Some (h |` (- set (addrs t)))"
proof (induction t arbitrary: par p h)
  case Leaf
  then show ?case by (simp add: tree_free.simps)
next
  case (Node l x r)
  then obtain lp rp where p: "p = Some (fst x)"
    and nd: "h (fst x) = Some \<lparr>nd_key = snd x, nd_left = lp, nd_right = rp, nd_parent = par\<rparr>"
    and t: "tree_at h (Some (fst x)) lp l" "tree_at h (Some (fst x)) rp r" by auto
  define h1 where "h1 = h |` (- set (addrs l))"
  have free_l: "tree_free lp h = Some h1" using Node.IH(1) [OF t(1)] Node.prems(2) by (simp add: h1_def)
  have "tree_at h1 (Some (fst x)) rp r"
    using t(2) Node.prems(2) by (subst tree_at_cong [of r h1 h]) (auto simp: h1_def restrict_map_def)
  then have free_r: "tree_free rp h1 = Some (h1 |` (- set (addrs r)))"
    using Node.IH(2) Node.prems(2) by simp
  have "(h1 |` (- set (addrs r)))(fst x := None) = h |` (- set (addrs (Node l x r)))"
    by (auto simp: h1_def restrict_map_def fun_eq_iff)
  moreover have "h1 (fst x) = h (fst x)" "(h1 |` (- set (addrs r))) (fst x) = h (fst x)"
    using Node.prems(2) by (auto simp: h1_def restrict_map_def)
  ultimately show ?case
    using p nd free_l free_r by (subst tree_free.simps) (simp add: deref_def)
qed

section \<open>Insertion\<close>

primrec ins :: "nat \<Rightarrow> int \<Rightarrow> (nat \<times> int) tree \<Rightarrow> (nat \<times> int) tree" where
  "ins a k Leaf = Node Leaf (a, k) Leaf"
| "ins a k (Node l x r) = (if k < snd x then Node (ins a k l) x r else Node l x (ins a k r))"

lemma mset_ins [simp]: "mset (keys (ins a k t)) = add_mset k (mset (keys t))"
  by (induction t) auto

lemma set_keys_ins [simp]: "set (keys (ins a k t)) = insert k (set (keys t))"
  by (induction t) auto

lemma set_addrs_ins [simp]: "set (addrs (ins a k t)) = insert a (set (addrs t))"
  by (induction t) auto

lemma distinct_ins: "distinct (addrs t) \<Longrightarrow> a \<notin> set (addrs t) \<Longrightarrow> distinct (addrs (ins a k t))"
  by (induction t) auto

lemma sorted_ins: "sorted (keys t) \<Longrightarrow> sorted (keys (ins a k t))"
  by (induction t) (auto simp: sorted_append)

lemma sorted_unique: "sorted xs \<Longrightarrow> sorted ys \<Longrightarrow> mset xs = mset ys \<Longrightarrow> xs = (ys :: int list)"
  by (metis properties_for_sort sorted_sort_id)

lemma keys_ins: "sorted (keys t) \<Longrightarrow> keys (ins a k t) = insort k (keys t)"
  by (rule sorted_unique) (simp_all add: sorted_ins sorted_insort)

text \<open>
  The loop ends at the node under which the key belongs: hanging a new leaf there is \<open>ins\<close>.
\<close>

lemma insert_point_step:
  "h b = Some nd \<Longrightarrow> insert_point h k y (Some b) =
     insert_point h k (Some b) (if k < nd_key nd then nd_left nd else nd_right nd)"
  by (subst insert_point.simps) (simp add: deref_def)

lemma insert_point_end [simp]: "insert_point h k y None = Some y"
  by (simp add: insert_point.simps)

definition hang :: "nat \<Rightarrow> int \<Rightarrow> nat \<Rightarrow> tree_node \<Rightarrow> tree_heap \<Rightarrow> tree_heap" where
  "hang a k b nd h = h(b \<mapsto> (if k < nd_key nd then nd\<lparr>nd_left := Some a\<rparr> else nd\<lparr>nd_right := Some a\<rparr>),
     a \<mapsto> \<lparr>nd_key = k, nd_left = None, nd_right = None, nd_parent = Some b\<rparr>)"

lemmas upd_simps = fun_upd_same fun_upd_other

lemma insert_point_ins:
  assumes "tree_at h par p t" "t \<noteq> Leaf" "distinct (addrs t)" "a \<notin> set (addrs t)"
  shows "\<exists>b nd. insert_point h k y p = Some (Some b) \<and> b \<in> set (addrs t) \<and> h b = Some nd \<and>
     tree_at (hang a k b nd h) par p (ins a k t)"
  using assms
proof (induction t arbitrary: par p y)
  case (Node l x r)
  then obtain lp rp where p: "p = Some (fst x)"
    and nd: "h (fst x) = Some \<lparr>nd_key = snd x, nd_left = lp, nd_right = rp, nd_parent = par\<rparr>"
    and t: "tree_at h (Some (fst x)) lp l" "tree_at h (Some (fst x)) rp r" by auto
  note step = insert_point_step [of h "fst x", OF nd, of k y]
  show ?case
  proof (cases "k < snd x")
    case True
    show ?thesis
    proof (cases "l = Leaf")
      case l: True
      then show ?thesis using p nd t step True Node.prems(3,4)
        by (intro exI [of _ "fst x"] exI [of _ "\<lparr>nd_key = snd x, nd_left = lp, nd_right = rp, nd_parent = par\<rparr>"])
          (auto simp: hang_def upd_simps simp del: fun_upd_apply)
    next
      case False
      with Node.IH(1) [OF t(1), of "Some (fst x)"] Node.prems(3,4) obtain b nd' where
        b: "insert_point h k (Some (fst x)) lp = Some (Some b)" "b \<in> set (addrs l)" "h b = Some nd'"
        "tree_at (hang a k b nd' h) (Some (fst x)) lp (ins a k l)" by auto
      moreover have "b \<noteq> fst x" "b \<notin> set (addrs r)" using b(2) Node.prems(3) by auto
      ultimately show ?thesis using p nd t(2) step True Node.prems(3,4)
        by (intro exI [of _ b] exI [of _ nd']) (auto simp: hang_def upd_simps simp del: fun_upd_apply)
    qed
  next
    case False
    show ?thesis
    proof (cases "r = Leaf")
      case r: True
      then show ?thesis using p nd t step False Node.prems(3,4)
        by (intro exI [of _ "fst x"] exI [of _ "\<lparr>nd_key = snd x, nd_left = lp, nd_right = rp, nd_parent = par\<rparr>"])
          (auto simp: hang_def upd_simps simp del: fun_upd_apply)
    next
      case r: False
      with Node.IH(2) [OF t(2), of "Some (fst x)"] Node.prems(3,4) obtain b nd' where
        b: "insert_point h k (Some (fst x)) rp = Some (Some b)" "b \<in> set (addrs r)" "h b = Some nd'"
        "tree_at (hang a k b nd' h) (Some (fst x)) rp (ins a k r)" by auto
      moreover have "b \<noteq> fst x" "b \<notin> set (addrs l)" using b(2) Node.prems(3) by auto
      ultimately show ?thesis using p nd t(1) step False Node.prems(3,4)
        by (intro exI [of _ b] exI [of _ nd']) (auto simp: hang_def upd_simps simp del: fun_upd_apply)
    qed
  qed
qed simp

lemma tree_insert_ins:
  assumes "tree_at h None root t" "distinct (addrs t)" "h a = None"
  shows "\<exists>h' root'. tree_insert (Some a) k (h, root) = Some (0, h', root') \<and>
    tree_at h' None root' (ins a k t) \<and> (\<forall>c. c \<notin> insert a (set (addrs t)) \<longrightarrow> h' c = h c)"
proof -
  define h1 where "h1 = h(a \<mapsto> \<lparr>nd_key = k, nd_left = None, nd_right = None, nd_parent = None\<rparr>)"
  have a: "a \<notin> set (addrs t)" using tree_at_in [OF assms(1), of a] assms(3) by auto
  then have t1: "tree_at h1 None root t" using assms(1) by (simp add: h1_def)
  show ?thesis
  proof (cases "t = Leaf")
    case True
    then show ?thesis using assms(1) by (auto simp: tree_insert_def new_node_def)
  next
    case False
    from insert_point_ins [OF t1 False assms(2) a, of k None] obtain b nd where
      b: "insert_point h1 k None root = Some (Some b)" "b \<in> set (addrs t)" "h1 b = Some nd"
      "tree_at (hang a k b nd h1) None root (ins a k t)" by auto
    moreover have "h1 a = Some \<lparr>nd_key = k, nd_left = None, nd_right = None, nd_parent = None\<rparr>"
      "new_node (Some a) k h = (Some a, h1)" "a \<noteq> b"
      using a b(2) by (auto simp: h1_def new_node_def)
    ultimately have "tree_insert (Some a) k (h, root) = Some (0, hang a k b nd h1, root)"
      by (simp add: tree_insert_def deref_def store_def hang_def)
    moreover have "\<forall>c. c \<notin> insert a (set (addrs t)) \<longrightarrow> hang a k b nd h1 c = h c"
      using b(2) by (auto simp: hang_def h1_def)
    ultimately show ?thesis using b(4) by blast
  qed
qed

section \<open>A place in the tree\<close>

text \<open>
  A context is the way from a subtree up to the root: at each node the side on which the subtree
  hangs, the node, and the other child.
\<close>

datatype crumb = GoL nat int "(nat \<times> int) tree" | GoR "(nat \<times> int) tree" nat int

fun plug :: "crumb list \<Rightarrow> (nat \<times> int) tree \<Rightarrow> (nat \<times> int) tree" where
  "plug [] s = s"
| "plug (GoL a k r # c) s = plug c (Node s (a, k) r)"
| "plug (GoR l a k # c) s = plug c (Node l (a, k) s)"

fun before :: "crumb list \<Rightarrow> (nat \<times> int) list" where
  "before [] = []"
| "before (GoL a k r # c) = before c"
| "before (GoR l a k # c) = before c @ inorder l @ [(a, k)]"

fun after :: "crumb list \<Rightarrow> (nat \<times> int) list" where
  "after [] = []"
| "after (GoL a k r # c) = (a, k) # inorder r @ after c"
| "after (GoR l a k # c) = after c"

definition ctx_addrs :: "crumb list \<Rightarrow> nat list" where
  "ctx_addrs c = map fst (before c) @ map fst (after c)"

fun ctx_at :: "tree_heap \<Rightarrow> ptr \<Rightarrow> crumb list \<Rightarrow> ptr \<Rightarrow> ptr \<Rightarrow> bool" where
  "ctx_at h root [] p par \<longleftrightarrow> root = p \<and> par = None"
| "ctx_at h root (GoL a k r # c) p par \<longleftrightarrow> par = Some a \<and>
     (\<exists>rp pp. h a = Some \<lparr>nd_key = k, nd_left = p, nd_right = rp, nd_parent = pp\<rparr> \<and>
        tree_at h (Some a) rp r \<and> ctx_at h root c (Some a) pp)"
| "ctx_at h root (GoR l a k # c) p par \<longleftrightarrow> par = Some a \<and>
     (\<exists>lp pp. h a = Some \<lparr>nd_key = k, nd_left = lp, nd_right = p, nd_parent = pp\<rparr> \<and>
        tree_at h (Some a) lp l \<and> ctx_at h root c (Some a) pp)"

lemma plug_append: "plug (c @ d) s = plug d (plug c s)"
  by (induction c s rule: plug.induct) auto

lemma before_append: "before (c @ d) = before d @ before c"
  by (induction c rule: before.induct) auto

lemma after_append: "after (c @ d) = after c @ after d"
  by (induction c rule: after.induct) auto

lemma inorder_plug: "inorder (plug c s) = before c @ inorder s @ after c"
  by (induction c s rule: plug.induct) auto

lemma ctx_addrs_simps [simp]:
  "ctx_addrs [] = []"
  "set (ctx_addrs (GoL a k r # c)) = insert a (set (addrs r) \<union> set (ctx_addrs c))"
  "set (ctx_addrs (GoR l a k # c)) = insert a (set (addrs l) \<union> set (ctx_addrs c))"
  "distinct (ctx_addrs (GoL a k r # c)) \<longleftrightarrow> a \<notin> set (addrs r) \<and> a \<notin> set (ctx_addrs c) \<and>
     distinct (addrs r) \<and> distinct (ctx_addrs c) \<and> set (addrs r) \<inter> set (ctx_addrs c) = {}"
  "distinct (ctx_addrs (GoR l a k # c)) \<longleftrightarrow> a \<notin> set (addrs l) \<and> a \<notin> set (ctx_addrs c) \<and>
     distinct (addrs l) \<and> distinct (ctx_addrs c) \<and> set (addrs l) \<inter> set (ctx_addrs c) = {}"
  by (auto simp: ctx_addrs_def addrs_def)

lemma set_ctx_addrs_append [simp]: "set (ctx_addrs (c @ d)) = set (ctx_addrs c) \<union> set (ctx_addrs d)"
  by (auto simp: ctx_addrs_def before_append after_append)

lemma plug_not_Leaf: "s \<noteq> Leaf \<or> c \<noteq> [] \<Longrightarrow> plug c s \<noteq> Leaf"
  by (induction c s rule: plug.induct) auto

lemma addrs_plug:
  "set (addrs (plug c s)) = set (ctx_addrs c) \<union> set (addrs s)"
  "distinct (addrs (plug c s)) \<longleftrightarrow>
     distinct (ctx_addrs c) \<and> distinct (addrs s) \<and> set (ctx_addrs c) \<inter> set (addrs s) = {}"
  by (auto simp: addrs_def ctx_addrs_def inorder_plug)

lemma tree_at_plug:
  "tree_at h None root (plug c s) \<longleftrightarrow> (\<exists>p par. ctx_at h root c p par \<and> tree_at h par p s)"
  by (induction c s rule: plug.induct) auto

lemma ctx_at_cong:
  "(\<And>a. a \<in> set (ctx_addrs c) \<Longrightarrow> h' a = h a) \<Longrightarrow> ctx_at h' root c p par = ctx_at h root c p par"
proof (induction h root c p par rule: ctx_at.induct)
  case (2 h root a k r c p par)
  then show ?case using tree_at_cong [of r h' h] by auto
next
  case (3 h root l a k c p par)
  then show ?case using tree_at_cong [of l h' h] by auto
qed simp

lemma ctx_at_upd [simp]: "a \<notin> set (ctx_addrs c) \<Longrightarrow> ctx_at (h(a := v)) root c p par = ctx_at h root c p par"
  by (rule ctx_at_cong) auto

lemma in_tree_plug: "x \<in> set_tree t \<Longrightarrow> \<exists>c l r. t = plug c (Node l x r)"
proof (induction t)
  case (Node l y r)
  obtain b j where y: "y = (b, j)" by (cases y)
  from Node.prems consider "x = y" | "x \<in> set_tree l" | "x \<in> set_tree r" by auto
  then show ?case
  proof cases
    case 1
    then show ?thesis by (intro exI [of _ "[]"]) auto
  next
    case 2
    then obtain c l' r' where "l = plug c (Node l' x r')" using Node.IH(1) by blast
    then have "Node l y r = plug (c @ [GoL b j r]) (Node l' x r')" by (simp add: plug_append y)
    then show ?thesis by blast
  next
    case 3
    then obtain c l' r' where "r = plug c (Node l' x r')" using Node.IH(2) by blast
    then have "Node l y r = plug (c @ [GoR l b j]) (Node l' x r')" by (simp add: plug_append y)
    then show ?thesis by blast
  qed
qed simp

lemma left_spine:
  "t \<noteq> Leaf \<Longrightarrow> \<exists>c y k r. t = plug c (Node Leaf (y, k) r) \<and> before c = [] \<and> hd (addrs t) = y"
proof (induction t)
  case (Node l x r)
  obtain b j where x: "x = (b, j)" by (cases x)
  show ?case
  proof (cases "l = Leaf")
    case True
    then show ?thesis by (intro exI [of _ "[]"]) (auto simp: x)
  next
    case False
    then obtain c y k r' where s: "l = plug c (Node Leaf (y, k) r')" "before c = []" "hd (addrs l) = y"
      using Node.IH(1) by blast
    then have "Node l x r = plug (c @ [GoL b j r]) (Node Leaf (y, k) r')" by (simp add: plug_append x)
    moreover have "before (c @ [GoL b j r]) = []" using s(2) by (simp add: before_append)
    moreover have "hd (addrs (Node l x r)) = y"
    proof -
      have "addrs l \<noteq> []" using False by (cases l) auto
      then show ?thesis using s(3) by simp
    qed
    ultimately show ?thesis by blast
  qed
qed simp

section \<open>Successor and predecessor\<close>

lemma climb_right_after:
  assumes "ctx_at h root c (Some a) par" "a \<notin> set (ctx_addrs c)" "distinct (ctx_addrs c)"
  shows "climb_right h (Some a) par = Some (if after c = [] then None else Some (fst (hd (after c))))"
  using assms
proof (induction c arbitrary: a par)
  case Nil
  then show ?case by (simp add: climb_right.simps)
next
  case (Cons x c)
  show ?case
  proof (cases x)
    case (GoL b j r)
    with Cons.prems obtain rp pp where b: "par = Some b"
      "h b = Some \<lparr>nd_key = j, nd_left = Some a, nd_right = rp, nd_parent = pp\<rparr>" "tree_at h (Some b) rp r"
      by auto
    then have "rp \<noteq> Some a" using Cons.prems(2) GoL tree_at_root_in [of h "Some b" a r] by auto
    then show ?thesis using b GoL by (subst climb_right.simps) (auto simp: deref_def)
  next
    case (GoR l b j)
    with Cons.prems obtain lp pp where b: "par = Some b"
      "h b = Some \<lparr>nd_key = j, nd_left = lp, nd_right = Some a, nd_parent = pp\<rparr>" "ctx_at h root c (Some b) pp"
      by auto
    moreover have "climb_right h (Some b) pp = Some (if after c = [] then None else Some (fst (hd (after c))))"
      using Cons.IH [OF b(3)] Cons.prems(2,3) GoR by simp
    ultimately show ?thesis using GoR by (subst climb_right.simps) (simp add: deref_def)
  qed
qed

lemma climb_left_before:
  assumes "ctx_at h root c (Some a) par" "a \<notin> set (ctx_addrs c)" "distinct (ctx_addrs c)"
  shows "climb_left h (Some a) par = Some (if before c = [] then None else Some (fst (last (before c))))"
  using assms
proof (induction c arbitrary: a par)
  case Nil
  then show ?case by (simp add: climb_left.simps)
next
  case (Cons x c)
  show ?case
  proof (cases x)
    case (GoR l b j)
    with Cons.prems obtain lp pp where b: "par = Some b"
      "h b = Some \<lparr>nd_key = j, nd_left = lp, nd_right = Some a, nd_parent = pp\<rparr>" "tree_at h (Some b) lp l"
      by auto
    then have "lp \<noteq> Some a" using Cons.prems(2) GoR tree_at_root_in [of h "Some b" a l] by auto
    then show ?thesis using b GoR by (subst climb_left.simps) (auto simp: deref_def)
  next
    case (GoL b j r)
    with Cons.prems obtain rp pp where b: "par = Some b"
      "h b = Some \<lparr>nd_key = j, nd_left = Some a, nd_right = rp, nd_parent = pp\<rparr>" "ctx_at h root c (Some b) pp"
      by auto
    moreover have "climb_left h (Some b) pp = Some (if before c = [] then None else Some (fst (last (before c))))"
      using Cons.IH [OF b(3)] Cons.prems(2,3) GoL by simp
    ultimately show ?thesis using GoL by (subst climb_left.simps) (simp add: deref_def)
  qed
qed

text \<open>The neighbours of a node in the order of the tree.\<close>

lemma successor_next:
  assumes "tree_at h None root t" "distinct (addrs t)" "addrs t = xs @ a # ys"
  shows "tree_successor h (Some a) = Some (case ys of [] \<Rightarrow> None | b # _ \<Rightarrow> Some b)"
    "tree_precursor h (Some a) = Some (if xs = [] then None else Some (last xs))"
proof -
  have "a \<in> set (addrs t)" using assms(3) by simp
  then obtain k where "(a, k) \<in> set_tree t" by (auto simp: addrs_def)
  then obtain c l r where t: "t = plug c (Node l (a, k) r)" using in_tree_plug by blast
  with assms(2) have d: "distinct (ctx_addrs c)" "a \<notin> set (ctx_addrs c)" "distinct (addrs (Node l (a, k) r))"
    by (auto simp: addrs_plug)
  have "addrs t = (map fst (before c) @ addrs l) @ a # (addrs r @ map fst (after c))"
    by (simp add: t addrs_def inorder_plug)
  with assms(2,3) have xs: "xs = map fst (before c) @ addrs l" and ys: "ys = addrs r @ map fst (after c)"
    by (metis append_Cons_eq_iff distinct_append not_distinct_conv_prefix distinct.simps(2))+
  from assms(1) t obtain par lp rp where ctx: "ctx_at h root c (Some a) par"
    and nd: "h a = Some \<lparr>nd_key = k, nd_left = lp, nd_right = rp, nd_parent = par\<rparr>"
    and l: "tree_at h (Some a) lp l" and r: "tree_at h (Some a) rp r" by (auto simp: tree_at_plug)
  show "tree_successor h (Some a) = Some (case ys of [] \<Rightarrow> None | b # _ \<Rightarrow> Some b)"
  proof (cases "r = Leaf")
    case True
    with r climb_right_after [OF ctx d(2,1)] nd ys show ?thesis
      by (auto simp: tree_successor_def deref_def split: list.splits)
  next
    case False
    then have "rp \<noteq> None" "addrs r \<noteq> []" using tree_at_root [OF r] by (auto simp: addrs_def)
    with tree_minimum_first [OF r False] nd ys show ?thesis
      by (cases "addrs r") (auto simp: tree_successor_def deref_def)
  qed
  show "tree_precursor h (Some a) = Some (if xs = [] then None else Some (last xs))"
  proof (cases "l = Leaf")
    case True
    with l climb_left_before [OF ctx d(2,1)] nd xs show ?thesis
      by (auto simp: tree_precursor_def deref_def last_map)
  next
    case False
    then have "lp \<noteq> None" "addrs l \<noteq> []" using tree_at_root [OF l] by (auto simp: addrs_def)
    with tree_maximum_last [OF l False] nd xs show ?thesis
      by (auto simp: tree_precursor_def deref_def)
  qed
qed

section \<open>Deletion\<close>

lemma transplant_ctx:
  assumes "ctx_at h root c (Some u) par" "h u = Some nu" "nd_parent nu = par" "distinct (ctx_addrs c)"
    "u \<notin> set (ctx_addrs c)" "v \<noteq> Some u" "\<And>b. v = Some b \<Longrightarrow> h b = Some (nv b) \<and> b \<notin> set (ctx_addrs c)"
  shows "\<exists>h' root'. transplant (Some u) v (h, root) = Some (h', root') \<and> ctx_at h' root' c v par \<and>
    (\<forall>a. a \<notin> set (ctx_addrs c) \<longrightarrow> v \<noteq> Some a \<longrightarrow> h' a = h a) \<and>
    (\<forall>b. v = Some b \<longrightarrow> h' b = Some (nv b\<lparr>nd_parent := par\<rparr>))"
proof -
  obtain h1 root1 where up: "relink par (Some u) v (h, root) = Some (h1, root1)"
    and c1: "ctx_at h1 root1 c v par" and frame: "\<And>a. a \<notin> set (ctx_addrs c) \<Longrightarrow> h1 a = h a"
  proof (cases c rule: list.exhaust)
    case Nil
    then show ?thesis using that [of h v] assms(1) by (simp add: relink_def)
  next
    case (Cons x c')
    show ?thesis
    proof (cases x)
      case (GoL a k r)
      with assms(1) Cons obtain rp pp where a: "par = Some a"
        "h a = Some \<lparr>nd_key = k, nd_left = Some u, nd_right = rp, nd_parent = pp\<rparr>"
        "tree_at h (Some a) rp r" "ctx_at h root c' (Some a) pp" by auto
      show ?thesis
        using that [of "h(a \<mapsto> \<lparr>nd_key = k, nd_left = v, nd_right = rp, nd_parent = pp\<rparr>)" root] a assms(4) GoL Cons
        by (simp add: relink_def deref_def store_def)
    next
      case (GoR l a k)
      with assms(1) Cons obtain lp pp where a: "par = Some a"
        "h a = Some \<lparr>nd_key = k, nd_left = lp, nd_right = Some u, nd_parent = pp\<rparr>"
        "tree_at h (Some a) lp l" "ctx_at h root c' (Some a) pp" by auto
      moreover have "lp \<noteq> Some u" using a(3) assms(5) GoR Cons tree_at_root_in [of h "Some a" u l] by auto
      ultimately show ?thesis
        using that [of "h(a \<mapsto> \<lparr>nd_key = k, nd_left = lp, nd_right = v, nd_parent = pp\<rparr>)" root] assms(4) GoR Cons
        by (simp add: relink_def deref_def store_def)
    qed
  qed
  show ?thesis
  proof (cases v)
    case None
    then show ?thesis using up c1 frame assms(2,3) by (auto simp: transplant_def deref_def)
  next
    case (Some b)
    with assms(7) frame have b: "h1 b = Some (nv b)" "b \<notin> set (ctx_addrs c)" by auto
    moreover have "h1 u = Some nu" using frame assms(2,5) by simp
    ultimately have "transplant (Some u) v (h, root) = Some (h1(b \<mapsto> nv b\<lparr>nd_parent := par\<rparr>), root1)"
      using up assms(2,3) Some by (simp add: transplant_def deref_def store_def)
    then show ?thesis using c1 b(2) frame Some by auto
  qed
qed

text \<open>The subtree below \<open>u\<close> moves into the place of \<open>u\<close>.\<close>

lemma transplant_tree:
  assumes "ctx_at h root c (Some u) par" "h u = Some nu" "nd_parent nu = par" "distinct (ctx_addrs c)"
    "u \<notin> set (ctx_addrs c)" "tree_at h (Some u) v s" "distinct (addrs s)" "u \<notin> set (addrs s)"
    "set (ctx_addrs c) \<inter> set (addrs s) = {}"
  shows "\<exists>h' root'. transplant (Some u) v (h, root) = Some (h', root') \<and> tree_at h' None root' (plug c s) \<and>
    (\<forall>b. b \<notin> set (ctx_addrs c) \<union> set (addrs s) \<longrightarrow> h' b = h b)"
proof -
  define nv where "nv = (\<lambda>b. the (h b))"
  have nv: "h b = Some (nv b) \<and> b \<notin> set (ctx_addrs c) \<and> b \<noteq> u \<and> b \<in> set (addrs s)" if "v = Some b" for b
    using tree_at_root_in [of h "Some u" b s] tree_at_in [OF assms(6), of b] assms(6-9) that by (auto simp: nv_def)
  then obtain h' root' where t': "transplant (Some u) v (h, root) = Some (h', root')" and c': "ctx_at h' root' c v par"
    and f: "\<And>b. b \<notin> set (ctx_addrs c) \<Longrightarrow> v \<noteq> Some b \<Longrightarrow> h' b = h b"
    and v': "\<And>b. v = Some b \<Longrightarrow> h' b = Some (nv b\<lparr>nd_parent := par\<rparr>)"
    using transplant_ctx [OF assms(1-5), of v nv] by auto
  have "tree_at h' par v s"
  proof (cases v)
    case (Some b)
    have "tree_at (h(b \<mapsto> nv b\<lparr>nd_parent := par\<rparr>)) par (Some b) s"
      using tree_at_reparent [of h "Some u" b s "nv b" par] assms(6,7) nv Some by simp
    moreover have "h' e = (h(b \<mapsto> nv b\<lparr>nd_parent := par\<rparr>)) e" if "e \<in> set (addrs s)" for e
      using that f [of e] v' assms(9) Some by auto
    ultimately show ?thesis
      unfolding Some using tree_at_cong [of s h' "h(b \<mapsto> nv b\<lparr>nd_parent := par\<rparr>)"] by blast
  qed (use assms(6) in simp)
  then have "tree_at h' None root' (plug c s)" using c' by (auto simp only: tree_at_plug)
  moreover have "\<forall>b. b \<notin> set (ctx_addrs c) \<union> set (addrs s) \<longrightarrow> h' b = h b" using f nv by blast
  ultimately show ?thesis using t' by blast
qed

lemma replace_by_successor_tree:
  assumes "ctx_at h root c (Some a) pa" "h a = Some na" "nd_parent na = pa"
    "tree_at h (Some a) (nd_left na) l" "l \<noteq> Leaf"
    "h y = Some ny" "nd_key ny = ky" "tree_at h (Some y) (nd_right ny) r"
    "distinct (ctx_addrs c @ a # y # addrs l @ addrs r)"
  shows "\<exists>h' root'. replace_by_successor (Some a) (Some y) (h, root) = Some (h', root') \<and>
    tree_at h' None root' (plug c (Node l (y, ky) r)) \<and>
    (\<forall>b. b \<notin> set (ctx_addrs c) \<union> set (addrs l) \<union> {y} \<longrightarrow> h' b = h b)"
proof -
  have d: "distinct (ctx_addrs c)" "a \<notin> set (ctx_addrs c)" "y \<notin> set (ctx_addrs c)" "a \<noteq> y"
    "distinct (addrs l)" "y \<notin> set (addrs l)" "y \<notin> set (addrs r)" using assms(9) by auto
  obtain h1 root1 where t1: "transplant (Some a) (Some y) (h, root) = Some (h1, root1)"
    and c1: "ctx_at h1 root1 c (Some y) pa"
    and f1: "\<And>b. b \<notin> set (ctx_addrs c) \<Longrightarrow> b \<noteq> y \<Longrightarrow> h1 b = h b" and y1: "h1 y = Some (ny\<lparr>nd_parent := pa\<rparr>)"
    using transplant_ctx [OF assms(1-3) d(1,2), of "Some y" "\<lambda>_. ny"] assms(6) d(3,4) by auto
  obtain b where b: "nd_left na = Some b" using assms(4,5) by (cases "nd_left na") auto
  then have bl: "b \<in> set (addrs l)" using assms(4) tree_at_root_in by simp
  then obtain nb where nb: "h b = Some nb" using tree_at_in [OF assms(4)] by blast
  have b_other: "b \<noteq> y" "b \<notin> set (ctx_addrs c)" "b \<notin> set (addrs r)" using bl assms(9) by auto
  have a1: "h1 a = Some na" "h1 b = Some nb" using f1 d(2,4) assms(2) b_other nb by auto
  define h2 where "h2 = h1(y \<mapsto> ny\<lparr>nd_parent := pa, nd_left := Some b\<rparr>)"
  define h3 where "h3 = h2(b \<mapsto> nb\<lparr>nd_parent := Some y\<rparr>)"
  have "replace_by_successor (Some a) (Some y) (h, root) = Some (h3, root1)"
    using t1 a1 y1 b b_other(1) by (simp add: replace_by_successor_def deref_def store_def h3_def h2_def)
  moreover have "tree_at h3 None root1 (plug c (Node l (y, ky) r))"
  proof -
    have "tree_at h2 (Some a) (Some b) l"
      using assms(4) b f1 d(6) assms(9) by (subst tree_at_cong [of l _ h]) (auto simp: h2_def)
    then have "tree_at h3 (Some y) (Some b) l"
      unfolding h3_def by (rule tree_at_reparent [OF _ d(5)]) (use a1 b_other in \<open>simp add: h2_def\<close>)
    moreover have "tree_at h3 (Some y) (nd_right ny) r"
      using assms(8,9) f1 b_other by (subst tree_at_cong [of r _ h]) (auto simp: h3_def h2_def)
    moreover have "h3 y = Some \<lparr>nd_key = ky, nd_left = Some b, nd_right = nd_right ny, nd_parent = pa\<rparr>"
      using b_other assms(7) by (cases ny) (simp add: h3_def h2_def)
    ultimately have "tree_at h3 pa (Some y) (Node l (y, ky) r)" by simp
    moreover have "ctx_at h3 root1 c (Some y) pa" using c1 d(3) b_other by (simp add: h3_def h2_def)
    ultimately show ?thesis by (auto simp only: tree_at_plug)
  qed
  moreover have "\<forall>b. b \<notin> set (ctx_addrs c) \<union> set (addrs l) \<union> {y} \<longrightarrow> h3 b = h b"
    using f1 bl by (auto simp: h3_def h2_def)
  ultimately show ?thesis by blast
qed

lemma lift_successor_tree:
  assumes "tree_at h None root (plug c (Node l (a, k) (plug (x # cy) (Node Leaf (y, ky) ry))))"
    "distinct (addrs (plug c (Node l (a, k) (plug (x # cy) (Node Leaf (y, ky) ry)))))"
  shows "\<exists>h' root' na ny pa. lift_successor (Some a) (Some y) (h, root) = Some (h', root') \<and>
    ctx_at h' root' c (Some a) pa \<and> h' a = Some na \<and> nd_parent na = pa \<and> tree_at h' (Some a) (nd_left na) l \<and>
    h' y = Some ny \<and> nd_key ny = ky \<and> tree_at h' (Some y) (nd_right ny) (plug (x # cy) ry) \<and>
    (\<forall>b. b \<notin> set (addrs (plug c (Node l (a, k) (plug (x # cy) (Node Leaf (y, ky) ry))))) \<longrightarrow> h' b = h b)"
proof -
  define d where "d = (x # cy) @ GoR l a k # c"
  have t: "plug c (Node l (a, k) (plug (x # cy) s)) = plug d s" for s by (simp only: d_def plug_append plug.simps)
  from assms(1) obtain par rp where ctx: "ctx_at h root d (Some y) par"
    and y: "h y = Some \<lparr>nd_key = ky, nd_left = None, nd_right = rp, nd_parent = par\<rparr>"
    and ry: "tree_at h (Some y) rp ry" by (auto simp only: t tree_at_plug) auto
  from assms(2) have dist: "distinct (ctx_addrs d)" "y \<notin> set (ctx_addrs d)" "distinct (addrs ry)"
    "y \<notin> set (addrs ry)" "set (ctx_addrs d) \<inter> set (addrs ry) = {}" by (auto simp only: t addrs_plug) auto
  have par: "par \<noteq> Some a"
    using ctx dist(1) by (cases x) (auto simp: d_def)
  obtain h1 root1 where t1: "transplant (Some y) rp (h, root) = Some (h1, root1)"
    and "tree_at h1 None root1 (plug d ry)"
    and f1: "\<And>b. b \<notin> set (ctx_addrs d) \<union> set (addrs ry) \<Longrightarrow> h1 b = h b"
    using transplant_tree [OF ctx y _ dist(1,2) ry dist(3-5)] by auto
  then have "tree_at h1 None root1 (plug c (Node l (a, k) (plug (x # cy) ry)))" by (simp only: t)
  then obtain pa lp rr where c2: "ctx_at h1 root1 c (Some a) pa"
    and a2: "h1 a = Some \<lparr>nd_key = k, nd_left = lp, nd_right = rr, nd_parent = pa\<rparr>"
    and l2: "tree_at h1 (Some a) lp l" and r2: "tree_at h1 (Some a) rr (plug (x # cy) ry)"
    by (auto simp only: tree_at_plug) auto
  have y1: "h1 y = Some \<lparr>nd_key = ky, nd_left = None, nd_right = rp, nd_parent = par\<rparr>"
    using f1 [of y] dist(2,4) y by simp
  have D: "distinct (addrs (plug c (Node l (a, k) (plug (x # cy) ry))))"
    "y \<notin> set (addrs (plug c (Node l (a, k) (plug (x # cy) ry))))"
    using dist by (auto simp only: t addrs_plug)
  obtain b where b: "rr = Some b" using r2 plug_not_Leaf [of ry "x # cy"] by (cases rr) auto
  then have bin: "b \<in> set (addrs (plug (x # cy) ry))" using r2 tree_at_root_in by blast
  then obtain nb where nb: "h1 b = Some nb" using tree_at_in [OF r2] by blast
  define S where "S = plug (x # cy) ry"
  have other: "b \<noteq> y" "b \<noteq> a" "y \<noteq> a" "b \<notin> set (ctx_addrs c)" "y \<notin> set (ctx_addrs c)" "b \<notin> set (addrs l)"
    "y \<notin> set (addrs l)" "y \<notin> set (addrs S)" "distinct (addrs S)"
    using D bin unfolding S_def [symmetric] by (auto simp: addrs_plug)
  define h2 where "h2 = h1(y \<mapsto> \<lparr>nd_key = ky, nd_left = None, nd_right = rr, nd_parent = par\<rparr>)"
  define h3 where "h3 = h2(b \<mapsto> nb\<lparr>nd_parent := Some y\<rparr>)"
  have "lift_successor (Some a) (Some y) (h, root) = Some (h3, root1)"
    using y t1 par a2 y1 nb b other(1-3) by (simp add: lift_successor_def deref_def store_def h3_def h2_def)
  moreover have "tree_at h3 (Some y) rr S"
    unfolding h3_def b using r2 other nb b
    by (intro tree_at_reparent [of _ "Some a"]) (auto simp: h2_def S_def)
  moreover have "h3 y = Some \<lparr>nd_key = ky, nd_left = None, nd_right = rr, nd_parent = par\<rparr>"
    "h3 a = Some \<lparr>nd_key = k, nd_left = lp, nd_right = rr, nd_parent = pa\<rparr>"
    "ctx_at h3 root1 c (Some a) pa" "tree_at h3 (Some a) lp l"
    using a2 c2 l2 other by (simp_all add: h3_def h2_def)
  moreover have "\<forall>e. e \<notin> set (addrs (plug d (Node Leaf (y, ky) ry))) \<longrightarrow> h3 e = h e"
  proof (intro allI impI)
    fix e assume e: "e \<notin> set (addrs (plug d (Node Leaf (y, ky) ry)))"
    then have "e \<notin> set (ctx_addrs d)" "e \<noteq> y" "e \<notin> set (addrs ry)" by (auto simp: addrs_plug)
    moreover have "b \<in> set (ctx_addrs d) \<union> set (addrs ry)" 
      using bin set_ctx_addrs_append [of "x # cy" "GoR l a k # c"] by (auto simp only: addrs_plug d_def)
    ultimately show "h3 e = h e" using f1 [of e] by (auto simp: h3_def h2_def)
  qed
  ultimately show ?thesis unfolding t S_def
    by (intro exI [of _ h3] exI [of _ root1] exI [of _ "\<lparr>nd_key = k, nd_left = lp, nd_right = rr, nd_parent = pa\<rparr>"]
        exI [of _ "\<lparr>nd_key = ky, nd_left = None, nd_right = rr, nd_parent = par\<rparr>"] exI [of _ pa]) simp
qed

text \<open>A node is taken out of the tree: its neighbours in the order close up, the rest stays.\<close>

lemma delete_at_root:
  assumes "tree_at h None root (plug c (Node l (a, k) r))" "distinct (addrs (plug c (Node l (a, k) r)))" "h a = Some np"
  shows "\<exists>h' root' s.
    (if nd_left np = None then transplant (Some a) (nd_right np) (h, root)
     else if nd_right np = None then transplant (Some a) (nd_left np) (h, root)
     else do {
       y \<leftarrow> tree_minimum h (nd_right np);
       st \<leftarrow> lift_successor (Some a) y (h, root);
       replace_by_successor (Some a) y st }) = Some (h', root') \<and>
    tree_at h' None root' (plug c s) \<and> inorder s = inorder l @ inorder r \<and> h' a \<noteq> None"
proof -
  from assms(1,3) obtain par where ctx: "ctx_at h root c (Some a) par" and np: "nd_parent np = par" "nd_key np = k"
    and l: "tree_at h (Some a) (nd_left np) l" and r: "tree_at h (Some a) (nd_right np) r"
    by (auto simp: tree_at_plug)
  from assms(2) have d: "distinct (ctx_addrs c)" "a \<notin> set (ctx_addrs c)" "distinct (addrs l)" "distinct (addrs r)"
    "a \<notin> set (addrs l)" "a \<notin> set (addrs r)" "set (ctx_addrs c) \<inter> (set (addrs l) \<union> set (addrs r)) = {}"
    by (auto simp: addrs_plug)
  consider "nd_left np = None" | "nd_left np \<noteq> None" "nd_right np = None" | "nd_left np \<noteq> None" "nd_right np \<noteq> None"
    by blast
  then show ?thesis
  proof cases
    case 1
    then have "l = Leaf" using l by simp
    then show ?thesis using transplant_tree [OF ctx assms(3) np(1) d(1,2) r d(4,6)] d 1 assms(3)
      by (auto intro!: exI [of _ r])
  next
    case 2
    then have "r = Leaf" using r by simp
    then show ?thesis using transplant_tree [OF ctx assms(3) np(1) d(1,2) l d(3,5)] d 2 assms(3)
      by (auto intro!: exI [of _ l])
  next
    case 3
    then have "l \<noteq> Leaf" "r \<noteq> Leaf" using l r by auto
    from left_spine [OF this(2)] obtain cy y ky ry where
      spine: "r = plug cy (Node Leaf (y, ky) ry)" "before cy = []" "hd (addrs r) = y" by blast
    have y: "tree_minimum h (nd_right np) = Some (Some y)"
      using tree_minimum_first [OF r \<open>r \<noteq> Leaf\<close>] spine(3) by simp
    have dist: "distinct (ctx_addrs c @ a # y # addrs l @ addrs (plug cy ry))"
      using assms(2) unfolding spine(1) by (auto simp: addrs_plug)
    obtain h1 root1 na ny pa where 1: "lift_successor (Some a) (Some y) (h, root) = Some (h1, root1)"
      "ctx_at h1 root1 c (Some a) pa" "h1 a = Some na" "nd_parent na = pa" "tree_at h1 (Some a) (nd_left na) l"
      "h1 y = Some ny" "nd_key ny = ky" "tree_at h1 (Some y) (nd_right ny) (plug cy ry)"
    proof (cases cy)
      case Nil
      with r spine(1) obtain rp where
        "h y = Some \<lparr>nd_key = ky, nd_left = None, nd_right = rp, nd_parent = Some a\<rparr>" "tree_at h (Some y) rp ry"
        by auto
      then show ?thesis
        using that [of h root par np "\<lparr>nd_key = ky, nd_left = None, nd_right = rp, nd_parent = Some a\<rparr>"]
          ctx assms(3) np l Nil by (simp add: lift_successor_def deref_def)
    next
      case (Cons x cy')
      show ?thesis
        using lift_successor_tree [of h root c l a k x cy' y ky ry] assms(1,2) that
        unfolding spine(1) Cons by blast
    qed
    from replace_by_successor_tree [OF 1(2-5) \<open>l \<noteq> Leaf\<close> 1(6-8) dist] obtain h' root' where
      2: "replace_by_successor (Some a) (Some y) (h1, root1) = Some (h', root')"
      "tree_at h' None root' (plug c (Node l (y, ky) (plug cy ry)))" "h' a = h1 a"
      using dist by auto
    have "inorder (Node l (y, ky) (plug cy ry)) = inorder l @ inorder r"
      by (simp add: spine inorder_plug)
    then show ?thesis using 1(1,3) 2 y 3 by auto
  qed
qed

section \<open>The sorted list of keys\<close>

text \<open>
  What a container of keys promises that keeps them in order: an insertion into fresh memory
  succeeds and is an insertion into the sorted list, memory that is still fresh stays fresh.
\<close>

fun inserts :: "('m \<Rightarrow> int \<Rightarrow> 'st \<Rightarrow> (int \<times> 'st) option) \<Rightarrow> ('m \<times> int) list \<Rightarrow> 'st \<Rightarrow> 'st option" where
  "inserts f [] st = Some st"
| "inserts f (mk # mks) st = do { (_, st) \<leftarrow> f (fst mk) (snd mk) st; inserts f mks st }"

locale sorted_insert =
  fixes rep :: "'st \<Rightarrow> int list \<Rightarrow> bool" and fresh :: "'m \<Rightarrow> 'st \<Rightarrow> bool"
    and put :: "'m \<Rightarrow> int \<Rightarrow> 'st \<Rightarrow> (int \<times> 'st) option"
  assumes rep_sorted: "rep st ks \<Longrightarrow> sorted ks"
    and put_law: "rep st ks \<Longrightarrow> fresh m st \<Longrightarrow>
      \<exists>st'. put m k st = Some (0, st') \<and> rep st' (insort k ks) \<and> (\<forall>m'. fresh m' st \<longrightarrow> m' \<noteq> m \<longrightarrow> fresh m' st')"
begin

lemma inserts_law:
  "rep st ks \<Longrightarrow> distinct (map fst mks) \<Longrightarrow> (\<And>m. m \<in> set (map fst mks) \<Longrightarrow> fresh m st) \<Longrightarrow>
     \<exists>st'. inserts put mks st = Some st' \<and> rep st' (sort (map snd mks @ ks))"
proof (induction mks arbitrary: st ks)
  case Nil
  then show ?case using rep_sorted by (simp add: sorted_sort_id)
next
  case (Cons mk mks)
  then obtain st' where s: "put (fst mk) (snd mk) st = Some (0, st')" "rep st' (insort (snd mk) ks)"
    "\<And>m'. fresh m' st \<Longrightarrow> m' \<noteq> fst mk \<Longrightarrow> fresh m' st'" using put_law [of st ks "fst mk" "snd mk"] by auto
  have "fresh m st'" if "m \<in> set (map fst mks)" for m
    using that Cons.prems(2,3) by (intro s(3)) (auto simp flip: set_map)
  with Cons.IH [OF s(2)] Cons.prems(2) obtain st'' where
    r: "inserts put mks st' = Some st''" "rep st'' (sort (map snd mks @ insort (snd mk) ks))" by auto
  have "sort (map snd mks @ insort (snd mk) ks) = sort (map snd (mk # mks) @ ks)"
    by (rule properties_for_sort) (simp_all add: sorted_insort)
  then show ?case using s(1) r by simp
qed

end

locale sorted_bag = sorted_insert rep fresh put
  for rep :: "'st \<Rightarrow> int list \<Rightarrow> bool" and fresh :: "'m \<Rightarrow> 'st \<Rightarrow> bool" and put +
  fixes del :: "int \<Rightarrow> 'st \<Rightarrow> (int \<times> 'st) option"
  assumes del_law: "rep st ks \<Longrightarrow>
    \<exists>st'. del k st = Some (if k \<in> set ks then 0 else - 1, st') \<and> rep st' (remove1 k ks)"
begin

lemma put_del:
  assumes "rep st ks" "fresh m st"
  shows "\<exists>st1 st2. put m k st = Some (0, st1) \<and> del k st1 = Some (0, st2) \<and> rep st2 ks"
proof -
  obtain st1 where 1: "put m k st = Some (0, st1)" "rep st1 (insort k ks)" using put_law [OF assms] by blast
  have "remove1 k (insort k ks) = ks" by (rule remove1_insort_key) 
  moreover have "k \<in> set (insort k ks)" by (simp add: set_insort_key)
  ultimately show ?thesis using del_law [OF 1(2), of k] 1(1) by auto
qed

end

definition bst_rep :: "tree_heap \<times> ptr \<Rightarrow> int list \<Rightarrow> bool" where
  "bst_rep st ks \<longleftrightarrow> (\<exists>t. tree_at (fst st) None (snd st) t \<and> distinct (addrs t) \<and> keys t = ks \<and> sorted ks)"

definition bst_fresh :: "ptr \<Rightarrow> tree_heap \<times> ptr \<Rightarrow> bool" where
  "bst_fresh m st \<longleftrightarrow> (\<exists>a. m = Some a \<and> fst st a = None)"

lemma tree_insert_rep:
  assumes "bst_rep st ks" "bst_fresh m st"
  shows "\<exists>st'. tree_insert m k st = Some (0, st') \<and> bst_rep st' (insort k ks) \<and>
    (\<forall>m'. bst_fresh m' st \<longrightarrow> m' \<noteq> m \<longrightarrow> bst_fresh m' st')"
proof -
  obtain h root where st: "st = (h, root)" by (cases st)
  from assms obtain t a where t: "tree_at h None root t" "distinct (addrs t)" "keys t = ks" "sorted ks"
    and a: "m = Some a" "h a = None" by (auto simp: bst_rep_def bst_fresh_def st)
  from tree_insert_ins [OF t(1,2) a(2), of k] obtain h' root' where
    r: "tree_insert (Some a) k (h, root) = Some (0, h', root')" "tree_at h' None root' (ins a k t)"
    "\<And>c. c \<notin> insert a (set (addrs t)) \<Longrightarrow> h' c = h c" by auto
  have free: "c \<notin> set (addrs t)" if "h c = None" for c using tree_at_in [OF t(1), of c] that by auto
  have "bst_rep (h', root') (insort k ks)"
    using r(2) distinct_ins [OF t(2) free [OF a(2)]] keys_ins [of t] t(3,4) sorted_insort [of k ks]
    by (auto simp: bst_rep_def intro!: exI [of _ "ins a k t"])
  moreover have "bst_fresh m' (h', root')" if "bst_fresh m' st" "m' \<noteq> m" for m'
    using that r(3) free a by (auto simp: bst_fresh_def st)
  ultimately show ?thesis using r(1) a st by auto
qed

lemma tree_at_key: "tree_at h par p t \<Longrightarrow> (a, k) \<in> set_tree t \<Longrightarrow> \<exists>nd. h a = Some nd \<and> nd_key nd = k"
  by (induction t arbitrary: par p) auto

text \<open>A deletion that finds its key unlinks one node, which stays allocated.\<close>

lemma tree_delete_node:
  assumes "tree_at h None root t" "distinct (addrs t)" "find k t = Some a"
  shows "\<exists>h' root' t' xs ys. tree_delete k (h, root) = Some (0, h', root') \<and> tree_at h' None root' t' \<and>
    inorder t = xs @ (a, k) # ys \<and> inorder t' = xs @ ys \<and> h' a \<noteq> None"
proof -
  obtain c l r where p: "t = plug c (Node l (a, k) r)" using assms(3) find_in in_tree_plug by blast
  then obtain np where np: "h a = Some np" using tree_at_in [OF assms(1), of a] by (auto simp: addrs_plug)
  from delete_at_root [of h root c l a k r np] assms(1,2) p np obtain h' root' s where
    d: "(if nd_left np = None then transplant (Some a) (nd_right np) (h, root)
         else if nd_right np = None then transplant (Some a) (nd_left np) (h, root)
         else do { y \<leftarrow> tree_minimum h (nd_right np); st \<leftarrow> lift_successor (Some a) y (h, root);
           replace_by_successor (Some a) y st }) = Some (h', root')"
    "tree_at h' None root' (plug c s)" "inorder s = inorder l @ inorder r" "h' a \<noteq> None" by blast
  have "tree_delete k (h, root) = Some (0, h', root')"
    using tree_search_find [OF assms(1), of k] assms(3) np d(1)
    by (cases "nd_left np = None"; cases "nd_right np = None")
      (auto simp: tree_delete_def deref_def split: bind_splits)
  moreover have "inorder t = (before c @ inorder l) @ (a, k) # (inorder r @ after c)"
    "inorder (plug c s) = (before c @ inorder l) @ (inorder r @ after c)"
    using d(3) by (simp_all add: p inorder_plug)
  ultimately show ?thesis using d(2,4) by blast
qed

lemma tree_delete_rep:
  assumes "bst_rep st ks"
  shows "\<exists>st'. tree_delete k st = Some (if k \<in> set ks then 0 else - 1, st') \<and> bst_rep st' (remove1 k ks)"
proof -
  obtain h root where st: "st = (h, root)" by (cases st)
  from assms obtain t where t: "tree_at h None root t" "distinct (addrs t)" "keys t = ks" "sorted ks"
    by (auto simp: bst_rep_def st)
  show ?thesis
  proof (cases "find k t")
    case None
    then have "k \<notin> set ks" using find_sorted [of t k] t(3,4) by simp
    then show ?thesis
      using None tree_search_find [OF t(1), of k] assms st by (simp add: tree_delete_def remove1_idem)
  next
    case (Some a)
    from tree_delete_node [OF t(1,2) Some] obtain h' root' t' xs ys where
      d: "tree_delete k (h, root) = Some (0, h', root')" "tree_at h' None root' t'"
      "inorder t = xs @ (a, k) # ys" "inorder t' = xs @ ys" by blast
    have ks: "ks = map snd xs @ k # map snd ys" using t(3) d(3) by (simp add: keys_def)
    have "keys t' = remove1 k ks"
      by (rule sorted_unique) (use t(4) ks d(4) in \<open>auto simp: keys_def sorted_append sorted_remove1\<close>)
    moreover have "distinct (addrs t')" using t(2) d(3,4) by (auto simp: addrs_def)
    ultimately have "bst_rep (h', root') (remove1 k ks)"
      using d(2) t(4) by (auto simp: bst_rep_def sorted_remove1)
    moreover have "k \<in> set ks" using ks by simp
    ultimately show ?thesis using d(1) st by auto
  qed
qed

lemma tree_delete_keeps_node:
  assumes "tree_at h None root t" "distinct (addrs t)" "sorted (keys t)" "k \<in> set (keys t)"
  shows "\<exists>a h' root' t'. a \<in> set (addrs t) \<and> tree_delete k (h, root) = Some (0, h', root') \<and>
    tree_at h' None root' t' \<and> distinct (addrs t') \<and> a \<notin> set (addrs t') \<and> h' a \<noteq> None"
proof -
  obtain a where a: "find k t = Some a" using find_sorted [OF assms(3), of k] assms(4) by auto
  from tree_delete_node [OF assms(1,2) this] obtain h' root' t' xs ys where
    d: "tree_delete k (h, root) = Some (0, h', root')" "tree_at h' None root' t'"
    "inorder t = xs @ (a, k) # ys" "inorder t' = xs @ ys" "h' a \<noteq> None" by blast
  have "a \<in> set (addrs t)" "distinct (addrs t')" "a \<notin> set (addrs t')"
    using assms(2) d(3,4) by (auto simp: addrs_def)
  then show ?thesis using d by blast
qed

interpretation bst: sorted_bag bst_rep bst_fresh tree_insert tree_delete
proof
  show "sorted ks" if "bst_rep st ks" for st ks using that by (auto simp: bst_rep_def)
qed (use tree_insert_rep tree_delete_rep in blast)+

section \<open>Properties\<close>

text \<open>The keys met when \<open>step\<close> leads from node to node until NULL, in at most \<open>n\<close> tests for NULL.\<close>

fun keys_from :: "(ptr \<Rightarrow> ptr option) \<Rightarrow> tree_heap \<Rightarrow> nat \<Rightarrow> ptr \<Rightarrow> int list option" where
  "keys_from step h 0 p = None"
| "keys_from step h (Suc n) p =
     (if p = None then Some []
      else do { nd \<leftarrow> deref h p; q \<leftarrow> step p; ks \<leftarrow> keys_from step h n q; Some (nd_key nd # ks) })"

lemma node_at_split:
  assumes "tree_at h None root t" "addrs t = xs @ a # ys"
  shows "\<exists>nd. deref h (Some a) = Some nd \<and> nd_key nd = keys t ! length xs"
proof -
  have "length xs < length (inorder t)" using arg_cong [OF assms(2), of length] by (simp add: addrs_def)
  moreover from this have "inorder t ! length xs = (a, keys t ! length xs)"
    using arg_cong [OF assms(2), of "\<lambda>as. as ! length xs"] by (simp add: keys_def addrs_def prod_eq_iff)
  ultimately have "(a, keys t ! length xs) \<in> set_tree t" by (metis nth_mem set_inorder)
  then show ?thesis using tree_at_key [OF assms(1)] by (simp add: deref_def)
qed

lemma keys_from_successor:
  assumes "tree_at h None root t" "distinct (addrs t)" "addrs t = xs @ a # ys" "length ys + 2 \<le> n"
  shows "keys_from (tree_successor h) h n (Some a) = Some (drop (length xs) (keys t))"
  using assms(3,4)
proof (induction ys arbitrary: xs a n)
  case Nil
  have "drop (length xs) (keys t) = [keys t ! length xs]"
    using arg_cong [OF Nil(1), of length] by (simp add: keys_def addrs_def Cons_nth_drop_Suc [symmetric])
  then show ?case
    using node_at_split [OF assms(1) Nil(1)] successor_next(1) [OF assms(1,2) Nil(1)] Nil(2)
    by (cases n; cases "n - 1") auto
next
  case (Cons b ys)
  obtain m where n: "n = Suc m" using Cons.prems(2) by (cases n) auto
  have "keys_from (tree_successor h) h m (Some b) = Some (drop (Suc (length xs)) (keys t))"
    using Cons.IH [of "xs @ [a]" b m] Cons.prems n by simp
  moreover have "drop (length xs) (keys t) = keys t ! length xs # drop (Suc (length xs)) (keys t)"
    using arg_cong [OF Cons.prems(1), of length] by (intro Cons_nth_drop_Suc [symmetric]) (simp add: keys_def addrs_def)
  ultimately show ?case
    using node_at_split [OF assms(1) Cons.prems(1)] successor_next(1) [OF assms(1,2) Cons.prems(1)] n by auto
qed

lemma keys_from_precursor:
  assumes "tree_at h None root t" "distinct (addrs t)" "addrs t = xs @ a # ys" "length xs + 2 \<le> n"
  shows "keys_from (tree_precursor h) h n (Some a) = Some (rev (take (Suc (length xs)) (keys t)))"
  using assms(3,4)
proof (induction xs arbitrary: ys a n rule: rev_induct)
  case Nil
  have "take (Suc 0) (keys t) = [keys t ! 0]"
    using arg_cong [OF Nil(1), of length] by (simp add: keys_def addrs_def take_Suc_conv_app_nth)
  then show ?case
    using node_at_split [OF assms(1) Nil(1)] successor_next(2) [OF assms(1,2) Nil(1)] Nil(2)
    by (cases n; cases "n - 1") auto
next
  case (snoc b xs)
  obtain m where n: "n = Suc m" using snoc.prems(2) by (cases n) auto
  have "keys_from (tree_precursor h) h m (Some b) = Some (rev (take (Suc (length xs)) (keys t)))"
    using snoc.IH [of b "a # ys" m] snoc.prems n by simp
  moreover have "take (Suc (Suc (length xs))) (keys t) = take (Suc (length xs)) (keys t) @ [keys t ! Suc (length xs)]"
    using arg_cong [OF snoc.prems(1), of length] by (intro take_Suc_conv_app_nth) (simp add: keys_def addrs_def)
  ultimately show ?case
    using node_at_split [OF assms(1) snoc.prems(1)] successor_next(2) [OF assms(1,2) snoc.prems(1)] n by auto
qed

text \<open>Both ways through the tree, from the ends that \<open>tree_minimum\<close> and \<open>tree_maximum\<close> find.\<close>

lemma walk_both_ways:
  assumes "bst_rep st ks" "length ks < n"
  shows "\<exists>p. tree_minimum (fst st) (snd st) = Some p \<and> keys_from (tree_successor (fst st)) (fst st) n p = Some ks"
    "\<exists>p. tree_maximum (fst st) (snd st) = Some p \<and> keys_from (tree_precursor (fst st)) (fst st) n p = Some (rev ks)"
proof -
  obtain t where t: "tree_at (fst st) None (snd st) t" "distinct (addrs t)" "keys t = ks"
    using assms(1) by (auto simp: bst_rep_def)
  obtain m where n: "n = Suc m" using assms(2) by (cases n) auto
  have len: "length (addrs t) = length ks" using t(3) by (auto simp: keys_def addrs_def)
  have "(\<exists>p. tree_minimum (fst st) (snd st) = Some p \<and> keys_from (tree_successor (fst st)) (fst st) n p = Some ks) \<and>
    (\<exists>p. tree_maximum (fst st) (snd st) = Some p \<and> keys_from (tree_precursor (fst st)) (fst st) n p = Some (rev ks))"
  proof (cases "t = Leaf")
    case True
    then have "snd st = None" "ks = []" using t(1,3) by (auto simp: keys_def)
    then show ?thesis by (simp add: n tree_minimum.simps tree_maximum.simps)
  next
    case False
    then have ne: "addrs t \<noteq> []" by (cases t) (auto simp: addrs_def)
    have "addrs t = [] @ hd (addrs t) # tl (addrs t)" "addrs t = butlast (addrs t) @ last (addrs t) # []"
      using ne by simp_all
    from keys_from_successor [OF t(1,2) this(1), of n] keys_from_precursor [OF t(1,2) this(2), of n]
    show ?thesis
      using tree_minimum_first [OF t(1) False] tree_maximum_last [OF t(1) False] ne len t(3) assms(2)
      by (auto simp: length_greater_0_conv [symmetric] simp del: length_greater_0_conv)
  qed
  then show "\<exists>p. tree_minimum (fst st) (snd st) = Some p \<and> keys_from (tree_successor (fst st)) (fst st) n p = Some ks"
    "\<exists>p. tree_maximum (fst st) (snd st) = Some p \<and> keys_from (tree_precursor (fst st)) (fst st) n p = Some (rev ks)"
    by blast+
qed

text \<open>
  C1. The pointer tree implements a sorted list of keys.  In a heap whose root points to a
  search tree with the keys \<open>ks\<close>, an insertion into fresh memory succeeds and inserts into the
  sorted list, and one that gets none returns -1 and changes nothing; a deletion succeeds exactly
  when the key is there and removes one occurrence; a search finds a node with the key exactly when
  it is there; the walk prints the sorted list; from the node \<open>tree_minimum\<close> finds the successors
  lead through the keys in order, and from the one \<open>tree_maximum\<close> finds the precursors lead back.
  No operation follows a NULL or dangling pointer and every loop ends.
\<close>

theorem search_tree_refines_sorted_list:
  assumes "bst_rep st ks"
  shows "(bst_fresh m st \<longrightarrow> (\<exists>st'. tree_insert m k st = Some (0, st') \<and> bst_rep st' (insort k ks))) \<and>
    tree_insert None k st = Some (- 1, st) \<and>
    (\<exists>st'. tree_delete k st = Some (if k \<in> set ks then 0 else - 1, st') \<and> bst_rep st' (remove1 k ks)) \<and>
    (\<exists>p. tree_search (fst st) (snd st) k = Some p \<and>
       (if k \<in> set ks then \<exists>nd. deref (fst st) p = Some nd \<and> nd_key nd = k else p = None)) \<and>
    tree_inorder_walk (fst st) (snd st) = Some ks \<and>
    (\<exists>p. tree_minimum (fst st) (snd st) = Some p \<and>
       keys_from (tree_successor (fst st)) (fst st) (length ks + 1) p = Some ks) \<and>
    (\<exists>p. tree_maximum (fst st) (snd st) = Some p \<and>
       keys_from (tree_precursor (fst st)) (fst st) (length ks + 1) p = Some (rev ks))"
proof (intro conjI impI)
  obtain t where t: "tree_at (fst st) None (snd st) t" "keys t = ks" "sorted ks" using assms by (auto simp: bst_rep_def)
  show "tree_inorder_walk (fst st) (snd st) = Some ks" using tree_inorder_walk_keys [OF t(1)] t(2) by simp
  have "\<exists>nd. fst st a = Some nd \<and> nd_key nd = k" if "find k t = Some a" for a
    using tree_at_key [OF t(1) find_in [OF that]] .
  then show "\<exists>p. tree_search (fst st) (snd st) k = Some p \<and>
      (if k \<in> set ks then \<exists>nd. deref (fst st) p = Some nd \<and> nd_key nd = k else p = None)"
    using tree_search_find [OF t(1), of k] find_sorted [of t k] t(2,3) by (cases "find k t") (auto simp: deref_def)
  show "\<exists>st'. tree_delete k st = Some (if k \<in> set ks then 0 else - 1, st') \<and> bst_rep st' (remove1 k ks)"
    by (rule bst.del_law [OF assms])
  show "\<exists>st'. tree_insert m k st = Some (0, st') \<and> bst_rep st' (insort k ks)" if "bst_fresh m st"
    using bst.put_law [OF assms that] by blast
  show "tree_insert None k st = Some (- 1, st)" by (cases st) (simp add: tree_insert_def new_node_def)
qed (use walk_both_ways [OF assms, of "length ks + 1"] in simp_all)

lemma bst_empty: "bst_rep (Map.empty, None) []"
  by (auto simp: bst_rep_def intro!: exI [of _ Leaf])

definition main_inserts :: "(ptr \<times> int) list" where
  "main_inserts = zip (map Some [0..<9]) [2, 3, 1, 6, 0, 10, -10, 2, 5]"

text \<open>The calls of \<open>main\<close>: nine insertions, then the keys 3, -10, 1 and 2 are deleted.\<close>

theorem search_tree_refines_sorted_list_witness:
  "\<exists>st st'. inserts tree_insert main_inserts (Map.empty, None) = Some st \<and> tree_delete 3 st = Some (0, st') \<and>
     tree_inorder_walk (fst st) (snd st) = Some [-10, 0, 1, 2, 2, 3, 5, 6, 10] \<and>
     bst_rep st' [-10, 0, 1, 2, 2, 5, 6, 10]"
proof -
  have "distinct (map fst main_inserts)" "\<And>m. m \<in> set (map fst main_inserts) \<Longrightarrow> bst_fresh m (Map.empty, None)"
    by (auto simp: main_inserts_def bst_fresh_def distinct_map)
  then obtain st where st: "inserts tree_insert main_inserts (Map.empty, None) = Some st"
    "bst_rep st (sort (map snd main_inserts @ []))"
    using bst.inserts_law [OF bst_empty, of main_inserts] by blast
  then have "bst_rep st [-10, 0, 1, 2, 2, 3, 5, 6, 10]" by (simp add: main_inserts_def)
  from search_tree_refines_sorted_list [OF this, of None 3] st(1) show ?thesis by auto
qed

text \<open>
  \<open>tree_successor\<close> and \<open>tree_precursor\<close> return the neighbours of a node in the order of
  the tree, and NULL at its ends, from the links of any tree in the heap.
\<close>

theorem successor_and_precursor_are_neighbours:
  assumes "tree_at h None root t" "distinct (addrs t)" "addrs t = xs @ a # ys"
  shows "tree_successor h (Some a) = Some (if ys = [] then None else Some (hd ys)) \<and>
    tree_precursor h (Some a) = Some (if xs = [] then None else Some (last xs))"
  using successor_next [OF assms] by (auto split: list.splits)

text \<open>
  \<open>tree_free\<close> frees every node of the tree exactly once and touches nothing else, but the
  nodes that \<open>tree_delete\<close> unlinked are never freed: after a deletion that found its key and
  \<open>tree_free\<close> of the whole tree, a node is still allocated.
\<close>

theorem deleted_node_leaks:
  assumes "tree_at h None root t" "distinct (addrs t)" "sorted (keys t)" "k \<in> set (keys t)"
  shows "tree_free root h = Some (h |` (- set (addrs t))) \<and>
    (\<exists>a h' root' h''. a \<in> set (addrs t) \<and> tree_delete k (h, root) = Some (0, h', root') \<and>
       tree_free root' h' = Some h'' \<and> h'' a \<noteq> None)"
proof
  show "tree_free root h = Some (h |` (- set (addrs t)))" by (rule tree_free_heap [OF assms(1,2)])
  from tree_delete_keeps_node [OF assms] obtain a h' root' t' where
    d: "a \<in> set (addrs t)" "tree_delete k (h, root) = Some (0, h', root')" "tree_at h' None root' t'"
    "distinct (addrs t')" "a \<notin> set (addrs t')" "h' a \<noteq> None" by blast
  then show "\<exists>a h' root' h''. a \<in> set (addrs t) \<and> tree_delete k (h, root) = Some (0, h', root') \<and>
      tree_free root' h' = Some h'' \<and> h'' a \<noteq> None"
    using tree_free_heap [OF d(3,4)] by (auto simp: restrict_map_def)
qed

end
