(* ===== verification/B_Tree.thy ===== *)
theory B_Tree
  imports Search_Tree
begin

text \<open>
  The B-tree of algorithm/btree.c with \<open>MAX_NODE_KEY\<close> = 2: nodes of at most three keys and four
  children in arrays of five whose index 0 is never written.  The heap is a map from addresses to
  nodes with an allocator that hands out increasing addresses; \<open>junk\<close> is what \<open>malloc\<close> returns for
  an address: the old contents of the block, or \<^term>\<open>None\<close> for NULL.  \<^term>\<open>None\<close> as a result is
  the use of a NULL or dangling pointer or an index outside an array.
\<close>

section \<open>The code\<close>

definition MAX_NODE_KEY :: nat where
  "MAX_NODE_KEY = 2"

record btree_node =
  bn_leaf :: bool
  bn_n :: nat
  bn_keys :: "int list"
  bn_childs :: "nat option list"

type_synonym bmem = "(nat \<rightharpoonup> btree_node) \<times> nat"

definition aget :: "'a list \<Rightarrow> nat \<Rightarrow> 'a option" where
  "aget xs i = (if i < length xs then Some (xs ! i) else None)"

definition aput :: "'a list \<Rightarrow> nat \<Rightarrow> 'a \<Rightarrow> 'a list option" where
  "aput xs i v = (if i < length xs then Some (xs[i := v]) else None)"

definition bset :: "nat \<Rightarrow> btree_node \<Rightarrow> bmem \<Rightarrow> bmem" where
  "bset a nd m = ((fst m)(a \<mapsto> nd), snd m)"

definition btree_alloc_node :: "(nat \<Rightarrow> btree_node option) \<Rightarrow> bmem \<Rightarrow> (nat \<times> bmem) option" where
  "btree_alloc_node junk m = do {
     g \<leftarrow> junk (snd m);
     Some (snd m, ((fst m)(snd m \<mapsto> g\<lparr>bn_leaf := True, bn_n := 0\<rparr>), Suc (snd m))) }"

definition btree_create :: "(nat \<Rightarrow> btree_node option) \<Rightarrow> bmem \<Rightarrow> (nat \<times> bmem) option" where
  "btree_create junk m = btree_alloc_node junk m"

text \<open>The loop \<open>while(i <= p->n && key > p->keys[i]) i = i + 1\<close>.\<close>

function search_index :: "int \<Rightarrow> nat \<Rightarrow> int list \<Rightarrow> nat \<Rightarrow> nat option" where
  "search_index key n ks i =
     (if i \<le> n then do { k \<leftarrow> aget ks i; if key > k then search_index key n ks (i + 1) else Some i } else Some i)"
  by auto
termination by (relation "measure (\<lambda>(key, n, ks, i). Suc n - i)") auto

declare search_index.simps [simp del]

partial_function (option) btree_search :: "(nat \<rightharpoonup> btree_node) \<Rightarrow> nat option \<Rightarrow> int \<Rightarrow> nat option option" where
  "btree_search h p key =
     (case p of
        None \<Rightarrow> Some None
      | Some a \<Rightarrow> do {
          nd \<leftarrow> h a;
          i \<leftarrow> search_index key (bn_n nd) (bn_keys nd) 0;
          found \<leftarrow> (if i \<le> bn_n nd then do { k \<leftarrow> aget (bn_keys nd) i; Some (key = k) } else Some False);
          if found then Some p
          else if bn_leaf nd then Some None
          else do { c \<leftarrow> aget (bn_childs nd) i; btree_search h c key } })"

text \<open>\<open>for(j = j0; j >= lo; --j) xs[j + 1] = xs[j]\<close>, for a positive \<open>lo\<close>.\<close>

primrec shift_up :: "nat \<Rightarrow> nat \<Rightarrow> 'a list \<Rightarrow> 'a list option" where
  "shift_up lo 0 xs = Some xs"
| "shift_up lo (Suc k) xs =
     (if Suc k < lo then Some xs
      else do { v \<leftarrow> aget xs (Suc k); xs \<leftarrow> aput xs (Suc k + 1) v; shift_up lo k xs })"

text \<open>\<open>for(j = lo; j < hi; ++j) dst[j] = src[j + d]\<close>.\<close>

fun copy_range :: "nat list \<Rightarrow> nat \<Rightarrow> 'a list \<Rightarrow> 'a list \<Rightarrow> 'a list option" where
  "copy_range [] d src dst = Some dst"
| "copy_range (j # js) d src dst = do { v \<leftarrow> aget src (j + d); dst \<leftarrow> aput dst j v; copy_range js d src dst }"

definition btree_split_child :: "(nat \<Rightarrow> btree_node option) \<Rightarrow> nat \<Rightarrow> nat \<Rightarrow> bmem \<Rightarrow> bmem option" where
  "btree_split_child junk xa i m = do {
     (za, m) \<leftarrow> btree_alloc_node junk m;
     x \<leftarrow> fst m xa;
     ya \<leftarrow> Option.bind (aget (bn_childs x) i) id;
     y \<leftarrow> fst m ya;
     z \<leftarrow> fst m za;
     zk \<leftarrow> copy_range [1..<MAX_NODE_KEY] MAX_NODE_KEY (bn_keys y) (bn_keys z);
     zc \<leftarrow> (if \<not> bn_leaf y then copy_range [1..<MAX_NODE_KEY + 1] MAX_NODE_KEY (bn_childs y) (bn_childs z)
            else Some (bn_childs z));
     let m = bset za (z\<lparr>bn_leaf := bn_leaf y, bn_n := MAX_NODE_KEY - 1, bn_keys := zk, bn_childs := zc\<rparr>) m;
     y \<leftarrow> fst m ya;
     let m = bset ya (y\<lparr>bn_n := MAX_NODE_KEY - 1\<rparr>) m;
     x \<leftarrow> fst m xa;
     xc \<leftarrow> shift_up (i + 1) (bn_n x + 1) (bn_childs x);
     xc \<leftarrow> aput xc (i + 1) (Some za);
     xk \<leftarrow> shift_up i (bn_n x) (bn_keys x);
     let m = bset xa (x\<lparr>bn_keys := xk, bn_childs := xc\<rparr>) m;
     y \<leftarrow> fst m ya;
     k \<leftarrow> aget (bn_keys y) MAX_NODE_KEY;
     xk \<leftarrow> aput xk i k;
     x \<leftarrow> fst m xa;
     Some (bset xa (x\<lparr>bn_keys := xk, bn_n := bn_n x + 1\<rparr>) m) }"

text \<open>The two loops of \<open>btree_insert_nonfull\<close>, with and without moving keys.\<close>

primrec leaf_shift :: "int \<Rightarrow> nat \<Rightarrow> int list \<Rightarrow> (nat \<times> int list) option" where
  "leaf_shift key 0 ks = Some (0, ks)"
| "leaf_shift key (Suc i) ks = do {
     k \<leftarrow> aget ks (Suc i);
     if key < k then do { ks \<leftarrow> aput ks (Suc i + 1) k; leaf_shift key i ks } else Some (Suc i, ks) }"

primrec find_child :: "int \<Rightarrow> nat \<Rightarrow> int list \<Rightarrow> nat option" where
  "find_child key 0 ks = Some 0"
| "find_child key (Suc i) ks = do { k \<leftarrow> aget ks (Suc i); if key < k then find_child key i ks else Some (Suc i) }"

partial_function (option) btree_insert_nonfull :: "(nat \<Rightarrow> btree_node option) \<Rightarrow> nat \<Rightarrow> int \<Rightarrow> bmem \<Rightarrow> bmem option" where
  "btree_insert_nonfull junk pa key m = do {
     p \<leftarrow> fst m pa;
     if bn_leaf p then do {
       (i, ks) \<leftarrow> leaf_shift key (bn_n p) (bn_keys p);
       ks \<leftarrow> aput ks (i + 1) key;
       Some (bset pa (p\<lparr>bn_keys := ks, bn_n := bn_n p + 1\<rparr>) m)
     } else do {
       i \<leftarrow> find_child key (bn_n p) (bn_keys p);
       let i = i + 1;
       ca \<leftarrow> Option.bind (aget (bn_childs p) i) id;
       c \<leftarrow> fst m ca;
       (i, m) \<leftarrow> (if bn_n c = 2 * MAX_NODE_KEY - 1 then do {
           m \<leftarrow> btree_split_child junk pa i m;
           p \<leftarrow> fst m pa;
           k \<leftarrow> aget (bn_keys p) i;
           Some (if key > k then i + 1 else i, m)
         } else Some (i, m));
       p \<leftarrow> fst m pa;
       ca \<leftarrow> Option.bind (aget (bn_childs p) i) id;
       btree_insert_nonfull junk ca key m } }"

definition btree_copy_node :: "(nat \<Rightarrow> btree_node option) \<Rightarrow> nat \<Rightarrow> bmem \<Rightarrow> (nat \<times> bmem) option" where
  "btree_copy_node junk pa m = do {
     (na, m) \<leftarrow> btree_alloc_node junk m;
     p \<leftarrow> fst m pa;
     nd \<leftarrow> fst m na;
     ks \<leftarrow> copy_range [1..<bn_n p + 1] 0 (bn_keys p) (bn_keys nd);
     cs \<leftarrow> copy_range [1..<bn_n p + 2] 0 (bn_childs p) (bn_childs nd);
     Some (na, bset na (nd\<lparr>bn_n := bn_n p, bn_leaf := bn_leaf p, bn_keys := ks, bn_childs := cs\<rparr>) m) }"

text \<open>\<open>*root\<close> is part of the state; the result is always NULL.\<close>

definition btree_insert :: "(nat \<Rightarrow> btree_node option) \<Rightarrow> int \<Rightarrow> bmem \<times> nat \<Rightarrow> (int \<times> bmem \<times> nat) option" where
  "btree_insert junk key = (\<lambda>(m, root). do {
     r \<leftarrow> fst m root;
     if bn_n r = 2 * MAX_NODE_KEY - 1 then do {
       (old_root, m) \<leftarrow> btree_copy_node junk root m;
       (na, m) \<leftarrow> btree_alloc_node junk m;
       nd \<leftarrow> fst m na;
       cs \<leftarrow> aput (bn_childs nd) 1 (Some old_root);
       let m = bset na (nd\<lparr>bn_leaf := False, bn_n := 0, bn_childs := cs\<rparr>) m;
       m \<leftarrow> btree_split_child junk na 1 m;
       m \<leftarrow> btree_insert_nonfull junk na key m;
       Some (0, m, na)
     } else do {
       m \<leftarrow> btree_insert_nonfull junk root key m;
       Some (0, m, root) } })"

text \<open>\<open>print_btree\<close>: what is printed from index \<open>i\<close> on.\<close>

partial_function (option) print_from :: "(nat \<rightharpoonup> btree_node) \<Rightarrow> nat \<Rightarrow> nat \<Rightarrow> int list option" where
  "print_from h a i = do {
     nd \<leftarrow> h a;
     if i \<le> bn_n nd then do {
       l \<leftarrow> (if \<not> bn_leaf nd then do { c \<leftarrow> Option.bind (aget (bn_childs nd) i) id; print_from h c 1 } else Some []);
       k \<leftarrow> aget (bn_keys nd) i;
       r \<leftarrow> print_from h a (i + 1);
       Some (l @ k # r)
     } else if \<not> bn_leaf nd then do { c \<leftarrow> Option.bind (aget (bn_childs nd) (bn_n nd + 1)) id; print_from h c 1 }
     else Some [] }"

definition print_btree :: "(nat \<rightharpoonup> btree_node) \<Rightarrow> nat \<Rightarrow> int list option" where
  "print_btree h p = print_from h p 1"

section \<open>Arrays\<close>

text \<open>The used part of an array: \<open>n\<close> elements from index 1 on.\<close>

definition used :: "nat \<Rightarrow> 'a list \<Rightarrow> 'a list" where
  "used n xs = take n (drop 1 xs)"

lemma length_used: "n < length xs \<Longrightarrow> length (used n xs) = n"
  by (simp add: used_def)

lemma used_nth: "i < n \<Longrightarrow> n < length xs \<Longrightarrow> used n xs ! i = xs ! Suc i"
  by (simp add: used_def)

lemma used_get: "n < length xs \<Longrightarrow> used n xs = as @ v # bs \<Longrightarrow> aget xs (Suc (length as)) = Some v"
proof -
  assume n: "n < length xs" and u: "used n xs = as @ v # bs"
  then have "length as < n" using length_used [OF n] by simp
  then show ?thesis using used_nth [of "length as" n xs] n u by (simp add: aget_def)
qed

lemma shift_up_spec:
  "0 < lo \<Longrightarrow> Suc j < length xs \<Longrightarrow>
     \<exists>xs'. shift_up lo j xs = Some xs' \<and> length xs' = length xs \<and>
       (\<forall>i < length xs. xs' ! i = (if lo < i \<and> i \<le> Suc j then xs ! (i - 1) else xs ! i))"
proof (induction j arbitrary: xs)
  case 0
  then show ?case by auto
next
  case (Suc j)
  show ?case
  proof (cases "Suc j < lo")
    case False
    define ys where "ys = xs[Suc (Suc j) := xs ! Suc j]"
    have "shift_up lo (Suc j) xs = shift_up lo j ys" using False Suc.prems(2) by (simp add: aget_def aput_def ys_def)
    moreover obtain xs' where "shift_up lo j ys = Some xs'" "length xs' = length ys"
      "\<forall>i < length ys. xs' ! i = (if lo < i \<and> i \<le> Suc j then ys ! (i - 1) else ys ! i)"
      using Suc.IH [of ys] Suc.prems by (auto simp: ys_def)
    ultimately show ?thesis using False Suc.prems(2)
      by (intro exI [of _ xs']) (auto simp: ys_def nth_list_update le_Suc_eq)
  qed auto
qed

text \<open>Making room in the used part and writing into it.\<close>

lemma used_insert:
  assumes "used n xs = as @ bs" "Suc n < length xs" "length xs' = length xs"
    "\<forall>i < length xs. xs' ! i = (if Suc (length as) < i \<and> i \<le> Suc n then xs ! (i - 1) else xs ! i)"
  shows "used (Suc n) (xs'[Suc (length as) := v]) = as @ v # bs"
proof (rule nth_equalityI)
  have len: "length as + length bs = n" using length_used [of n xs] assms(1,2) by (metis Suc_lessD length_append)
  show "length (used (Suc n) (xs'[Suc (length as) := v])) = length (as @ v # bs)"
    using assms(2,3) len by (simp add: length_used)
  fix i assume "i < length (used (Suc n) (xs'[Suc (length as) := v]))"
  then have i: "i < Suc n" using assms(2,3) by (simp add: length_used)
  have at: "xs ! Suc j = (as @ bs) ! j" if "j < n" for j using used_nth [OF that, of xs] assms(1,2) by simp
  have "used (Suc n) (xs'[Suc (length as) := v]) ! i = xs'[Suc (length as) := v] ! Suc i"
    using i assms(2,3) by (simp add: used_nth)
  also have "\<dots> = (as @ v # bs) ! i"
  proof -
    consider "i < length as" | "i = length as" | j where "i = Suc j" "length as \<le> j" "j < n"
      using i by (cases i) (force simp: not_less less_Suc_eq)+
    then show ?thesis
    proof cases
      case 1
      then show ?thesis using assms(2,4) len at [of i] by (simp add: nth_append)
    next
      case 2
      then show ?thesis using assms(2,3) len by simp
    next
      case 3
      then show ?thesis using assms(2,4) at [of j] by (simp add: nth_append Suc_diff_le)
    qed
  qed
  finally show "used (Suc n) (xs'[Suc (length as) := v]) ! i = (as @ v # bs) ! i" .
qed

lemma shift_insert:
  assumes "used n xs = as @ bs" "Suc n < length xs"
  shows "\<exists>xs'. shift_up (Suc (length as)) n xs = Some xs' \<and> length xs' = length xs \<and>
    used (Suc n) (xs'[Suc (length as) := v]) = as @ v # bs"
  using shift_up_spec [of "Suc (length as)" n xs] used_insert [OF assms] assms(2) by blast

lemma used_Suc: "Suc n < length xs \<Longrightarrow> used (Suc n) xs = used n xs @ [xs ! Suc n]"
  by (simp add: used_def take_Suc_conv_app_nth)

text \<open>Where a key belongs: behind the last key that is not larger.\<close>

lemma find_child_spec:
  "n < length xs \<Longrightarrow> \<exists>as bs. used n xs = as @ bs \<and> find_child key n xs = Some (length as) \<and>
     (\<forall>b \<in> set bs. key < b) \<and> (as \<noteq> [] \<longrightarrow> last as \<le> key)"
proof (induction n)
  case 0
  then show ?case by (simp add: used_def)
next
  case (Suc n)
  then obtain as bs where ih: "used n xs = as @ bs" "find_child key n xs = Some (length as)"
    "\<forall>b \<in> set bs. key < b" "as \<noteq> [] \<longrightarrow> last as \<le> key" by auto
  show ?case
  proof (cases "key < xs ! Suc n")
    case True
    then show ?thesis using ih Suc.prems
      by (intro exI [of _ as] exI [of _ "bs @ [xs ! Suc n]"]) (auto simp: used_Suc aget_def)
  next
    case False
    then show ?thesis using Suc.prems
      by (intro exI [of _ "used (Suc n) xs"] exI [of _ "[]"]) (auto simp: length_used aget_def used_Suc)
  qed
qed

lemma find_child_cong: "(\<And>i. i \<le> n \<Longrightarrow> aget ys i = aget xs i) \<Longrightarrow> find_child key n ys = find_child key n xs"
  by (induction n) (simp_all cong: if_cong)

lemma find_child_le: "find_child key n xs = Some i \<Longrightarrow> i \<le> n"
  by (induction n) (auto split: Option.bind_splits if_splits)

lemma leaf_shift_eq:
  "find_child key n xs = Some i \<Longrightarrow> Suc n < length xs \<Longrightarrow> leaf_shift key n xs = map_option (Pair i) (shift_up (Suc i) n xs)"
proof (induction n arbitrary: xs)
  case (Suc n)
  show ?case
  proof (cases "key < xs ! Suc n")
    case True
    define ys where "ys = xs[Suc (Suc n) := xs ! Suc n]"
    have i: "find_child key n xs = Some i" using Suc.prems True by (simp add: aget_def)
    have "find_child key n ys = find_child key n xs"
      by (rule find_child_cong) (simp add: ys_def aget_def)
    then have "leaf_shift key n ys = map_option (Pair i) (shift_up (Suc i) n ys)"
      using Suc.IH [of ys] i Suc.prems by (simp add: ys_def)
    then show ?thesis using True Suc.prems find_child_le [OF i] by (simp add: aget_def aput_def ys_def)
  next
    case False
    then show ?thesis using Suc.prems by (auto simp: aget_def)
  qed
qed simp

lemma copy_range_spec:
  "\<forall>j \<in> set js. j + d < length src \<and> j < length dst \<Longrightarrow> distinct js \<Longrightarrow>
     \<exists>dst'. copy_range js d src dst = Some dst' \<and> length dst' = length dst \<and>
       (\<forall>i < length dst. dst' ! i = (if i \<in> set js then src ! (i + d) else dst ! i))"
proof (induction js arbitrary: dst)
  case (Cons j js)
  define ds where "ds = dst[j := src ! (j + d)]"
  obtain dst' where "copy_range js d src ds = Some dst'" "length dst' = length ds"
    "\<forall>i < length ds. dst' ! i = (if i \<in> set js then src ! (i + d) else ds ! i)"
    using Cons.IH [of ds] Cons.prems by (auto simp: ds_def)
  then show ?case using Cons.prems
    by (intro exI [of _ dst']) (auto simp: aget_def aput_def ds_def nth_list_update)
qed auto

lemma copy_used:
  assumes "k < length src" "k < length dst"
  shows "\<exists>dst'. copy_range [1..<Suc k] 0 src dst = Some dst' \<and> length dst' = length dst \<and> used k dst' = used k src"
proof -
  obtain dst' where d: "copy_range [1..<Suc k] 0 src dst = Some dst'" "length dst' = length dst"
    "\<forall>i < length dst. dst' ! i = (if i \<in> set [1..<Suc k] then src ! (i + 0) else dst ! i)"
    using copy_range_spec [of "[1..<Suc k]" 0 src dst] assms by (auto simp del: upt_Suc)
  moreover have "used k dst' = used k src"
    using d assms by (intro nth_equalityI) (auto simp: length_used used_nth)
  ultimately show ?thesis by blast
qed

section \<open>Trees in the heap\<close>

datatype bt = Bt (addr: nat) (bt_keys: "int list") (bt_children: "bt list")

fun bt_addrs :: "bt \<Rightarrow> nat list" where
  "bt_addrs (Bt a ks cs) = a # concat (map bt_addrs cs)"

fun mix :: "int list \<Rightarrow> int list list \<Rightarrow> int list" where
  "mix (k # ks) (l # ls) = l @ k # mix ks ls"
| "mix [] (l # ls) = l"
| "mix ks [] = ks"

fun bt_inorder :: "bt \<Rightarrow> int list" where
  "bt_inorder (Bt a ks cs) = mix ks (map bt_inorder cs)"

definition node_ok :: "btree_node \<Rightarrow> int list \<Rightarrow> nat list \<Rightarrow> bool" where
  "node_ok nd ks as \<longleftrightarrow> length (bn_keys nd) = 5 \<and> length (bn_childs nd) = 5 \<and> bn_n nd = length ks \<and> length ks \<le> 3 \<and>
     used (length ks) (bn_keys nd) = ks \<and> (bn_leaf nd \<longleftrightarrow> as = []) \<and>
     (as \<noteq> [] \<longrightarrow> length as = Suc (length ks) \<and> used (length as) (bn_childs nd) = map Some as)"

fun bt_at :: "(nat \<rightharpoonup> btree_node) \<Rightarrow> bt \<Rightarrow> bool" where
  "bt_at h (Bt a ks cs) \<longleftrightarrow> (\<exists>nd. h a = Some nd \<and> node_ok nd ks (map addr cs)) \<and> (\<forall>c \<in> set cs. bt_at h c)"

text \<open>All leaves at the same depth, every node but the root with a key.\<close>

fun good :: "nat \<Rightarrow> bt \<Rightarrow> bool" where
  "good 0 (Bt a ks cs) \<longleftrightarrow> cs = []"
| "good (Suc d) (Bt a ks cs) \<longleftrightarrow> cs \<noteq> [] \<and> (\<forall>c \<in> set cs. good d c \<and> bt_keys c \<noteq> [])"

lemma bt_at_cong: "(\<And>a. a \<in> set (bt_addrs t) \<Longrightarrow> h' a = h a) \<Longrightarrow> bt_at h' t = bt_at h t"
  by (induction t) (auto; blast)

lemma addr_in [simp]: "addr t \<in> set (bt_addrs t)"
  by (cases t) simp

lemma mix_split:
  "length ls = length ks \<Longrightarrow> mix (ks @ ks') (ls @ l # ls') = concat (map2 (\<lambda>l k. l @ [k]) ls ks) @ mix ks' (l # ls')"
proof (induction ks arbitrary: ls)
  case (Cons k ks)
  then show ?case by (cases ls) auto
qed simp

lemma mix_back: "length ls = length ks \<Longrightarrow> mix ks (l # ls) = l @ concat (map2 (\<lambda>k l. k # l) ks ls)"
proof (induction ks arbitrary: l ls)
  case (Cons k ks)
  then show ?case by (cases ls) auto
qed simp

lemma mix_around:
  "length ls = length ks \<Longrightarrow> length ls' = length ks' \<Longrightarrow>
     mix (ks @ ks') (ls @ l # ls') = concat (map2 (\<lambda>l k. l @ [k]) ls ks) @ l @ concat (map2 (\<lambda>k l. k # l) ks' ls')"
  by (simp add: mix_split mix_back)

section \<open>Printing\<close>

lemma node_ok_child:
  assumes "node_ok nd ks as" "as = as1 @ a # as2"
  shows "aget (bn_childs nd) (Suc (length as1)) = Some (Some a)"
  using assms used_get [of "length as" "bn_childs nd" "map Some as1" "Some a" "map Some as2"]
  by (auto simp: node_ok_def)

lemma node_ok_key:
  assumes "node_ok nd ks as" "ks = ks1 @ k # ks2"
  shows "aget (bn_keys nd) (Suc (length ks1)) = Some k"
  using assms used_get [of "length ks" "bn_keys nd" ks1 k ks2] by (auto simp: node_ok_def)

lemma print_node:
  assumes "h a = Some nd" "node_ok nd ks (map addr cs)" "\<And>c. c \<in> set cs \<Longrightarrow> print_from h (addr c) 1 = Some (bt_inorder c)"
  shows "ks = ks1 @ ks2 \<Longrightarrow> cs = cs1 @ cs2 \<Longrightarrow> cs \<noteq> [] \<longrightarrow> length cs1 = length ks1 \<Longrightarrow>
    print_from h a (Suc (length ks1)) = Some (mix ks2 (map bt_inorder cs2))"
proof (induction ks2 arbitrary: ks1 cs1 cs2)
  case Nil
  show ?case
  proof (cases "cs = []")
    case True
    then show ?thesis using Nil assms(1,2) by (subst print_from.simps) (simp add: node_ok_def)
  next
    case False
    then have "length cs = Suc (length ks)" using assms(2) by (simp add: node_ok_def)
    then have "length cs2 = 1" using Nil False by simp
    then obtain c where c: "cs2 = [c]" by (auto simp: length_Suc_conv)
    have "aget (bn_childs nd) (Suc (length ks)) = Some (Some (addr c))"
      using node_ok_child [OF assms(2), of "map addr cs1" "addr c" "[]"] Nil False c by simp
    then show ?thesis using Nil False c assms(1-3)
      by (subst print_from.simps) (simp add: node_ok_def)
  qed
next
  case (Cons k ks2)
  have len: "Suc (length ks1) \<le> length ks" using Cons.prems by simp
  have key: "aget (bn_keys nd) (Suc (length ks1)) = Some k"
    using node_ok_key [OF assms(2), of ks1 k ks2] Cons.prems by simp
  show ?case
  proof (cases "cs = []")
    case True
    then have "print_from h a (Suc (length (ks1 @ [k]))) = Some (mix ks2 (map bt_inorder []))"
      using Cons.IH [of "ks1 @ [k]" "[]" "[]"] Cons.prems by simp
    then show ?thesis using True Cons.prems len key assms(1,2)
      by (subst print_from.simps) (cases ks2; simp add: node_ok_def)
  next
    case False
    then have "length cs = Suc (length ks)" using assms(2) by (simp add: node_ok_def)
    then obtain c cs3 where c: "cs2 = c # cs3" using Cons.prems False by (cases cs2) auto
    have "aget (bn_childs nd) (Suc (length ks1)) = Some (Some (addr c))"
      using node_ok_child [OF assms(2), of "map addr cs1" "addr c" "map addr cs3"] Cons.prems False c by simp
    moreover have "print_from h a (Suc (length (ks1 @ [k]))) = Some (mix ks2 (map bt_inorder cs3))"
      using Cons.IH [of "ks1 @ [k]" "cs1 @ [c]" cs3] Cons.prems c by simp
    moreover have "print_from h (addr c) 1 = Some (bt_inorder c)" using assms(3) Cons.prems c by simp
    ultimately show ?thesis using False len key assms(1,2) c
      by (subst print_from.simps) (simp add: node_ok_def)
  qed
qed

lemma print_btree_inorder: "bt_at h t \<Longrightarrow> print_btree h (addr t) = Some (bt_inorder t)"
proof (induction t)
  case (Bt a ks cs)
  then obtain nd where "h a = Some nd" "node_ok nd ks (map addr cs)" by auto
  then show ?case using print_node [of h a nd ks cs "[]" ks "[]" cs] Bt by (simp add: print_btree_def)
qed

section \<open>Splitting a child\<close>

definition junk_ok :: "(nat \<Rightarrow> btree_node option) \<Rightarrow> bool" where
  "junk_ok junk \<longleftrightarrow> (\<forall>a. \<exists>g. junk a = Some g \<and> length (bn_keys g) = 5 \<and> length (bn_childs g) = 5)"

lemma used_three: "length xs = 5 \<Longrightarrow> used 3 xs = [x, y, z] \<longleftrightarrow> xs ! 1 = x \<and> xs ! 2 = y \<and> xs ! 3 = z"
  by (cases xs; cases "tl xs"; cases "tl (tl xs)"; cases "tl (tl (tl xs))")
    (auto simp: used_def numeral_eq_Suc)

lemma split_arrays:
  assumes "node_ok y [k1, k2, k3] ds" "length (bn_keys g) = 5" "length (bn_childs g) = 5"
  shows "\<exists>zk zc. copy_range [1..<MAX_NODE_KEY] MAX_NODE_KEY (bn_keys y) (bn_keys g) = Some zk \<and>
    (if \<not> bn_leaf y then copy_range [1..<MAX_NODE_KEY + 1] MAX_NODE_KEY (bn_childs y) (bn_childs g)
     else Some (bn_childs g)) = Some zc \<and>
    node_ok (g\<lparr>bn_leaf := bn_leaf y, bn_n := MAX_NODE_KEY - 1, bn_keys := zk, bn_childs := zc\<rparr>) [k3] (drop 2 ds) \<and>
    node_ok (y\<lparr>bn_n := MAX_NODE_KEY - 1\<rparr>) [k1] (take 2 ds) \<and> aget (bn_keys y) MAX_NODE_KEY = Some k2"
proof -
  obtain a0 a1 a2 a3 a4 where yk: "bn_keys y = [a0, a1, a2, a3, a4]"
    using assms(1) by (auto simp: node_ok_def length_Suc_conv numeral_eq_Suc)
  obtain b0 b1 b2 b3 b4 where yc: "bn_childs y = [b0, b1, b2, b3, b4]"
    using assms(1) by (auto simp: node_ok_def length_Suc_conv numeral_eq_Suc)
  obtain c0 c1 c2 c3 c4 where gk: "bn_keys g = [c0, c1, c2, c3, c4]"
    using assms(2) by (auto simp: length_Suc_conv numeral_eq_Suc)
  obtain d0 d1 d2 d3 d4 where gc: "bn_childs g = [d0, d1, d2, d3, d4]"
    using assms(3) by (auto simp: length_Suc_conv numeral_eq_Suc)
  have keys: "a1 = k1" "a2 = k2" "a3 = k3" using assms(1) by (auto simp: node_ok_def yk used_def numeral_eq_Suc)
  show ?thesis
  proof (cases "ds = []")
    case True
    then show ?thesis using assms(1) keys
      by (simp add: node_ok_def MAX_NODE_KEY_def yk gk gc yc aget_def aput_def used_def numeral_eq_Suc)
  next
    case False
    then obtain e1 e2 e3 e4 where ds: "ds = [e1, e2, e3, e4]"
      using assms(1) by (auto simp: node_ok_def length_Suc_conv numeral_eq_Suc)
    have "b1 = Some e1" "b2 = Some e2" "b3 = Some e3" "b4 = Some e4" "\<not> bn_leaf y"
      using assms(1) by (auto simp: node_ok_def yc ds used_def numeral_eq_Suc)
    then show ?thesis using assms(1) keys ds
      by (simp add: node_ok_def MAX_NODE_KEY_def yk gk gc yc aget_def aput_def used_def numeral_eq_Suc)
  qed
qed

text \<open>The three nodes after the split of a full child, and nothing else changed.\<close>

lemma split_nodes:
  assumes "fst m xa = Some x" "node_ok x (K1 @ K2) (A1 @ ya # A2)" "length A1 = length K1" "length (K1 @ K2) \<le> 2"
    "fst m ya = Some y" "node_ok y [k1, k2, k3] ds" "xa \<noteq> ya" "xa < snd m" "ya < snd m" "junk_ok junk"
  shows "\<exists>m' x' y' z'. btree_split_child junk xa (Suc (length K1)) m = Some m' \<and> snd m' = Suc (snd m) \<and>
    fst m' = (fst m)(xa \<mapsto> x', ya \<mapsto> y', snd m \<mapsto> z') \<and> node_ok x' (K1 @ k2 # K2) (A1 @ ya # snd m # A2) \<and>
    node_ok y' [k1] (take 2 ds) \<and> node_ok z' [k3] (drop 2 ds)"
proof -
  define za where "za = snd m"
  have ne: "za \<noteq> xa" "za \<noteq> ya" "xa \<noteq> ya" using assms(7-9) by (auto simp: za_def)
  obtain g where g: "junk za = Some g" "length (bn_keys g) = 5" "length (bn_childs g) = 5"
    using assms(10) by (auto simp: junk_ok_def)
  define g' where "g' = g\<lparr>bn_leaf := True, bn_n := 0\<rparr>"
  obtain zk zc where z: "copy_range [1..<MAX_NODE_KEY] MAX_NODE_KEY (bn_keys y) (bn_keys g') = Some zk"
    "(if \<not> bn_leaf y then copy_range [1..<MAX_NODE_KEY + 1] MAX_NODE_KEY (bn_childs y) (bn_childs g')
     else Some (bn_childs g')) = Some zc"
    "node_ok (g'\<lparr>bn_leaf := bn_leaf y, bn_n := MAX_NODE_KEY - 1, bn_keys := zk, bn_childs := zc\<rparr>) [k3] (drop 2 ds)"
    "node_ok (y\<lparr>bn_n := MAX_NODE_KEY - 1\<rparr>) [k1] (take 2 ds)" "aget (bn_keys y) MAX_NODE_KEY = Some k2"
    using split_arrays [OF assms(6), of g'] g(2,3) by (auto simp: g'_def)
  define n where "n = length (K1 @ K2)"
  have x: "bn_n x = n" "length (bn_keys x) = 5" "length (bn_childs x) = 5" "used n (bn_keys x) = K1 @ K2"
    "used (Suc n) (bn_childs x) = map Some (A1 @ [ya]) @ map Some A2" "\<not> bn_leaf x" "n \<le> 2" "length A2 = length K2"
    using assms(2-4) by (auto simp: node_ok_def n_def)
  have child: "aget (bn_childs x) (Suc (length K1)) = Some (Some ya)"
    using node_ok_child [OF assms(2), of A1 ya A2] assms(3) by simp
  obtain xc where xc: "shift_up (Suc (Suc (length K1))) (Suc n) (bn_childs x) = Some xc" "length xc = 5"
    "used (Suc (Suc n)) (xc[Suc (Suc (length K1)) := Some za]) = map Some (A1 @ [ya]) @ Some za # map Some A2"
    using shift_insert [OF x(5), of "Some za"] x(3,7) assms(3) by auto
  obtain xk where xk: "shift_up (Suc (length K1)) n (bn_keys x) = Some xk" "length xk = 5"
    "used (Suc n) (xk[Suc (length K1) := k2]) = K1 @ k2 # K2"
    using shift_insert [OF x(4), of k2] x(2,7) by auto
  have small: "length K1 \<le> 2" using assms(4) by simp
  define x' where "x' = x\<lparr>bn_childs := xc[Suc (Suc (length K1)) := Some za], bn_keys := xk[Suc (length K1) := k2], bn_n := n + 1\<rparr>"
  define y' where "y' = y\<lparr>bn_n := MAX_NODE_KEY - 1\<rparr>"
  define z' where "z' = g'\<lparr>bn_leaf := bn_leaf y, bn_n := MAX_NODE_KEY - 1, bn_keys := zk, bn_childs := zc\<rparr>"
  have "node_ok x' (K1 @ k2 # K2) (A1 @ ya # za # A2)"
    using xc(2,3) xk(2,3) x(6-8) assms(3) unfolding node_ok_def x'_def by (simp add: n_def)
  moreover have "btree_split_child junk xa (Suc (length K1)) m = Some ((fst m)(xa \<mapsto> x', ya \<mapsto> y', za \<mapsto> z'), Suc (snd m))"
  proof -
    have alloc: "btree_alloc_node junk m = Some (za, (fst m)(za \<mapsto> g'), Suc (snd m))"
      using g(1) by (simp add: btree_alloc_node_def za_def g'_def)
    have put: "aput xc (Suc (Suc (length K1))) v = Some (xc[Suc (Suc (length K1)) := v])"
      "aput xk (Suc (length K1)) k = Some (xk[Suc (length K1) := k])" for v k
      using xc(2) xk(2) small by (simp_all add: aput_def)
    have order: "(fst m)(xa \<mapsto> x', ya \<mapsto> y', za \<mapsto> z') = (fst m)(za \<mapsto> z', ya \<mapsto> y', xa \<mapsto> x')"
      using ne by (auto simp: fun_eq_iff)
    show ?thesis
      using ne assms(1,5) child z(1,2,5) xc(1) xk(1) x(1) put
      unfolding btree_split_child_def alloc order
      by (simp add: bset_def x'_def y'_def z'_def Let_def del: copy_range.simps shift_up.simps)
  qed
  ultimately show ?thesis using z(3,4) unfolding za_def y'_def z'_def by fastforce
qed

text \<open>A change of the heap that turns one tree into another with the same root, using fresh memory only.\<close>

definition grown :: "bmem \<Rightarrow> bt \<Rightarrow> bmem \<Rightarrow> bt \<Rightarrow> bool" where
  "grown m t m' t' \<longleftrightarrow> bt_at (fst m') t' \<and> addr t' = addr t \<and> snd m \<le> snd m' \<and> distinct (bt_addrs t') \<and>
     set (bt_addrs t') \<subseteq> set (bt_addrs t) \<union> {snd m..<snd m'} \<and>
     (\<forall>c < snd m. c \<notin> set (bt_addrs t) \<longrightarrow> fst m' c = fst m c)"

definition bt_in :: "bmem \<Rightarrow> bt \<Rightarrow> bool" where
  "bt_in m t \<longleftrightarrow> bt_at (fst m) t \<and> distinct (bt_addrs t) \<and> (\<forall>c \<in> set (bt_addrs t). c < snd m)"

lemma grown_in: "bt_in m t \<Longrightarrow> grown m t m' t' \<Longrightarrow> bt_in m' t'"
  by (fastforce simp: grown_def bt_in_def)

lemma grown_trans: "bt_in m t \<Longrightarrow> grown m t m1 t1 \<Longrightarrow> grown m1 t1 m2 t2 \<Longrightarrow> grown m t m2 t2"
proof -
  assume t: "bt_in m t" and 1: "grown m t m1 t1" and 2: "grown m1 t1 m2 t2"
  have le: "snd m \<le> snd m1" "snd m1 \<le> snd m2" using 1 2 by (simp_all add: grown_def)
  have "set (bt_addrs t2) \<subseteq> set (bt_addrs t) \<union> {snd m..<snd m2}"
  proof
    fix b assume "b \<in> set (bt_addrs t2)"
    then have "b \<in> set (bt_addrs t1) \<or> snd m1 \<le> b \<and> b < snd m2" using 2 by (auto simp: grown_def)
    then show "b \<in> set (bt_addrs t) \<union> {snd m..<snd m2}" using 1 le by (auto simp: grown_def)
  qed
  moreover have "fst m2 c = fst m c" if "c < snd m" "c \<notin> set (bt_addrs t)" for c
  proof -
    have "c \<notin> set (bt_addrs t1)" using 1 that by (auto simp: grown_def)
    then show ?thesis using 1 2 that le by (simp add: grown_def)
  qed
  ultimately show ?thesis using 1 2 le by (simp add: grown_def)
qed

lemma bt_in_child: "bt_in m (Bt a ks (C1 @ c # C2)) \<Longrightarrow> bt_in m c"
  by (auto simp: bt_in_def)

lemma grown_child:
  assumes t: "bt_in m (Bt a ks (C1 @ c # C2))" and g: "grown m c m' c'"
  shows "grown m (Bt a ks (C1 @ c # C2)) m' (Bt a ks (C1 @ c' # C2))"
proof -
  have below: "b < snd m" if "b \<in> set (bt_addrs (Bt a ks (C1 @ c # C2)))" for b
    using t that unfolding bt_in_def by blast
  have same: "fst m' b = fst m b" if "b \<in> set (bt_addrs (Bt a ks (C1 @ c # C2)))" "b \<notin> set (bt_addrs c)" for b
    using g below [OF that(1)] that(2) unfolding grown_def by blast
  have dist: "distinct (bt_addrs (Bt a ks (C1 @ c # C2)))" using t by (simp add: bt_in_def)
  have others: "bt_at (fst m') e" if e: "e \<in> set C1 \<union> set C2" for e
  proof -
    have "bt_at (fst m') e = bt_at (fst m) e"
    proof (rule bt_at_cong)
      fix b assume b: "b \<in> set (bt_addrs e)"
      have "b \<in> set (bt_addrs (Bt a ks (C1 @ c # C2)))" using b e by auto
      moreover have "b \<notin> set (bt_addrs c)" using b e dist by auto
      ultimately show "fst m' b = fst m b" by (rule same)
    qed
    then show ?thesis using t e by (auto simp: bt_in_def)
  qed
  have a: "fst m' a = fst m a" using same [of a] dist by auto
  have at: "bt_at (fst m') (Bt a ks (C1 @ c' # C2))"
    using t others a g by (auto simp: bt_in_def grown_def)
  have "distinct (bt_addrs (Bt a ks (C1 @ c' # C2)))"
  proof -
    have new: "set (bt_addrs c') \<subseteq> set (bt_addrs c) \<union> {snd m..<snd m'}" "distinct (bt_addrs c')"
      using g by (auto simp: grown_def)
    have "b \<notin> set (bt_addrs c')" if "b \<in> insert a (\<Union> (set ` bt_addrs ` (set C1 \<union> set C2)))" for b
    proof -
      have "b < snd m" using that by (intro below) auto
      moreover have "b \<notin> set (bt_addrs c)" using that dist by auto
      ultimately show ?thesis using new(1) by auto
    qed
    then show ?thesis using dist new(2) by auto
  qed
  then show ?thesis using at g below same unfolding grown_def by auto
qed

lemma split_tree:
  assumes "bt_in m (Bt a (K1 @ K2) (C1 @ Bt b [k1, k2, k3] ds # C2))" "length C1 = length K1" "length (K1 @ K2) \<le> 2"
    "junk_ok junk"
  shows "\<exists>m'. btree_split_child junk a (Suc (length K1)) m = Some m' \<and>
    grown m (Bt a (K1 @ K2) (C1 @ Bt b [k1, k2, k3] ds # C2)) m'
      (Bt a (K1 @ k2 # K2) (C1 @ Bt b [k1] (take 2 ds) # Bt (snd m) [k3] (drop 2 ds) # C2))"
proof -
  let ?t = "Bt a (K1 @ K2) (C1 @ Bt b [k1, k2, k3] ds # C2)"
  let ?t' = "Bt a (K1 @ k2 # K2) (C1 @ Bt b [k1] (take 2 ds) # Bt (snd m) [k3] (drop 2 ds) # C2)"
  have below: "c < snd m" if "c \<in> set (bt_addrs ?t)" for c using assms(1) that unfolding bt_in_def by blast
  have dist: "distinct (bt_addrs ?t)" using assms(1) by (simp add: bt_in_def)
  obtain x y where x: "fst m a = Some x" "node_ok x (K1 @ K2) (map addr C1 @ b # map addr C2)"
    and y: "fst m b = Some y" "node_ok y [k1, k2, k3] (map addr ds)"
    using assms(1) by (auto simp: bt_in_def)
  have lt: "a < snd m" "b < snd m" "a \<noteq> b" using below dist by auto
  from split_nodes [OF x _ assms(3) y lt(3,1,2) assms(4)] assms(2) obtain m' x' y' z' where
    m': "btree_split_child junk a (Suc (length K1)) m = Some m'" "snd m' = Suc (snd m)"
    "fst m' = (fst m)(a \<mapsto> x', b \<mapsto> y', snd m \<mapsto> z')"
    "node_ok x' (K1 @ k2 # K2) (map addr C1 @ b # snd m # map addr C2)"
    "node_ok y' [k1] (take 2 (map addr ds))" "node_ok z' [k3] (drop 2 (map addr ds))" by auto
  have sub: "bt_at (fst m') e" if e: "e \<in> set C1 \<union> set C2 \<union> set ds" for e
  proof -
    have "bt_at (fst m') e = bt_at (fst m) e"
    proof (rule bt_at_cong)
      fix c assume c: "c \<in> set (bt_addrs e)"
      then have "c \<noteq> a" "c \<noteq> b" "c \<noteq> snd m" using dist below [of c] e by auto
      then show "fst m' c = fst m c" by (simp add: m'(3))
    qed
    then show ?thesis using assms(1) e by (auto simp: bt_in_def)
  qed
  have at: "bt_at (fst m') ?t'"
    using m'(4-6) lt sub by (auto simp: m'(3) take_map drop_map dest: in_set_takeD in_set_dropD)
  have "mset (concat (map bt_addrs ds)) = mset (concat (map bt_addrs (take 2 ds))) + mset (concat (map bt_addrs (drop 2 ds)))"
    by (metis append_take_drop_id concat_append map_append mset_append)
  then have same: "mset (bt_addrs ?t') = mset (snd m # bt_addrs ?t)" by simp
  have "distinct (snd m # bt_addrs ?t)" using dist below [of "snd m"] by auto
  then have new: "distinct (bt_addrs ?t')" "set (bt_addrs ?t') = insert (snd m) (set (bt_addrs ?t))"
    using mset_eq_imp_distinct_iff [OF same] mset_eq_setD [OF same] by simp_all
  have frame: "\<forall>c < snd m. c \<notin> set (bt_addrs ?t) \<longrightarrow> fst m' c = fst m c"
    by (simp add: m'(3))
  have "grown m ?t m' ?t'"
    unfolding grown_def
  proof (intro conjI)
    show "addr ?t' = addr ?t" "snd m \<le> snd m'" by (simp_all add: m'(2))
    show "set (bt_addrs ?t') \<subseteq> set (bt_addrs ?t) \<union> {snd m..<snd m'}" unfolding new(2) by (simp add: m'(2) subset_iff)
  qed (rule at new(1) frame)+
  then show ?thesis using m'(1) by blast
qed

section \<open>Inserting\<close>

abbreviation left_of :: "int list \<Rightarrow> int list list \<Rightarrow> int list" where
  "left_of ks ls \<equiv> concat (map2 (\<lambda>l k. l @ [k]) ls ks)"

abbreviation right_of :: "int list \<Rightarrow> int list list \<Rightarrow> int list" where
  "right_of ks ls \<equiv> concat (map2 (\<lambda>k l. k # l) ks ls)"

lemma insort_middle:
  assumes "sorted (xs @ ys @ zs)" "\<forall>x \<in> set xs. x \<le> (key :: int)" "\<forall>z \<in> set zs. key \<le> z"
  shows "insort key (xs @ ys @ zs) = xs @ insort key ys @ zs"
proof (rule sorted_unique)
  show "sorted (insort key (xs @ ys @ zs))" using assms(1) by (rule sorted_insort [THEN iffD2])
  show "sorted (xs @ insort key ys @ zs)"
    using assms by (auto simp: sorted_append sorted_insort set_insort_key)
qed simp

lemma left_of_bound:
  assumes "length ls = length ks" "ks \<noteq> [] \<longrightarrow> last ks \<le> key" "sorted (left_of ks ls)"
  shows "\<forall>x \<in> set (left_of ks ls). x \<le> key"
proof (cases ks rule: rev_cases)
  case (snoc ks' k)
  then obtain ls' l where "ls = ls' @ [l]" "length ls' = length ks'" using assms(1) by (cases ls rule: rev_cases) auto
  then have eq: "left_of ks ls = (left_of ks' ls' @ l) @ [k]" using snoc by simp
  have "\<forall>x \<in> set (xs @ [k]). x \<le> key" if "sorted (xs @ [k])" for xs
    using that assms(2) snoc by (fastforce simp: sorted_append)
  then show ?thesis using assms(3) unfolding eq by blast
qed simp

lemma right_of_bound:
  assumes "length ls = length ks" "ks \<noteq> [] \<longrightarrow> key \<le> hd ks" "sorted (right_of ks ls)"
  shows "\<forall>x \<in> set (right_of ks ls). key \<le> x"
proof (cases ks)
  case (Cons k ks')
  then obtain l ls' where "ls = l # ls'" using assms(1) by (cases ls) auto
  then have eq: "right_of ks ls = k # (l @ right_of ks' ls')" using Cons by simp
  have "\<forall>x \<in> set (k # xs). key \<le> x" if "sorted (k # xs)" for xs
    using that assms(2) Cons by fastforce
  then show ?thesis using assms(3) unfolding eq by blast
qed simp

text \<open>Growing the child in which a key belongs grows the node by that key.\<close>

lemma grow_at_child:
  assumes t: "bt_in m (Bt a (K1 @ K2) (C1 @ c # C2))" and len: "length C1 = length K1" "length C2 = length K2"
    and order: "K1 \<noteq> [] \<longrightarrow> last K1 \<le> key" "K2 \<noteq> [] \<longrightarrow> key \<le> hd K2" "sorted (bt_inorder (Bt a (K1 @ K2) (C1 @ c # C2)))"
    and c': "grown m c m' c'" "bt_inorder c' = insort key (bt_inorder c)"
  shows "grown m (Bt a (K1 @ K2) (C1 @ c # C2)) m' (Bt a (K1 @ K2) (C1 @ c' # C2))"
    "bt_inorder (Bt a (K1 @ K2) (C1 @ c' # C2)) = insort key (bt_inorder (Bt a (K1 @ K2) (C1 @ c # C2)))"
proof -
  show "grown m (Bt a (K1 @ K2) (C1 @ c # C2)) m' (Bt a (K1 @ K2) (C1 @ c' # C2))"
    by (rule grown_child [OF t c'(1)])
  define L R where "L = left_of K1 (map bt_inorder C1)" and "R = right_of K2 (map bt_inorder C2)"
  have io: "bt_inorder (Bt a (K1 @ K2) (C1 @ e # C2)) = L @ bt_inorder e @ R" for e
    using len by (simp add: mix_around L_def R_def)
  have s: "sorted (L @ bt_inorder c @ R)" using order(3) by (simp only: io)
  have "\<forall>x \<in> set L. x \<le> key" "\<forall>x \<in> set R. key \<le> x"
    using left_of_bound [of "map bt_inorder C1" K1 key] right_of_bound [of "map bt_inorder C2" K2 key] len order(1,2) s
    by (auto simp: L_def R_def sorted_append)
  then show "bt_inorder (Bt a (K1 @ K2) (C1 @ c' # C2)) = insort key (bt_inorder (Bt a (K1 @ K2) (C1 @ c # C2)))"
    unfolding io c'(2) using insort_middle [OF s] by simp
qed

lemma insert_leaf:
  assumes t: "bt_in m (Bt a ks [])" and len: "length ks \<le> 2" and s: "sorted ks"
  shows "\<exists>m'. btree_insert_nonfull junk a key m = Some m' \<and> grown m (Bt a ks []) m' (Bt a (insort key ks) [])"
proof -
  obtain p where p: "fst m a = Some p" "node_ok p ks []" using t by (auto simp: bt_in_def)
  have arr: "length ks < length (bn_keys p)" "Suc (length ks) < length (bn_keys p)" "used (length ks) (bn_keys p) = ks"
    using p(2) len by (auto simp: node_ok_def)
  obtain as bs where f: "ks = as @ bs" "find_child key (length ks) (bn_keys p) = Some (length as)"
    "\<forall>b \<in> set bs. key < b" "as \<noteq> [] \<longrightarrow> last as \<le> key"
    using find_child_spec [OF arr(1), of key] arr(3) by metis
  obtain ks' where ks': "shift_up (Suc (length as)) (length ks) (bn_keys p) = Some ks'" "length ks' = length (bn_keys p)"
    "used (Suc (length ks)) (ks'[Suc (length as) := key]) = as @ key # bs"
    using shift_insert [of "length ks" "bn_keys p" as bs key] arr f(1) by auto
  have "leaf_shift key (length ks) (bn_keys p) = Some (length as, ks')"
    using leaf_shift_eq [OF f(2) arr(2)] ks'(1) by simp
  then have run: "btree_insert_nonfull junk a key m =
      Some (bset a (p\<lparr>bn_keys := ks'[Suc (length as) := key], bn_n := bn_n p + 1\<rparr>) m)"
    using p arr f(1) ks'(2) by (subst btree_insert_nonfull.simps) (simp add: node_ok_def aput_def)
  have "\<forall>x \<in> set as. x \<le> key"
    using f(1,4) s by (cases as rule: rev_cases) (auto simp: sorted_append)
  then have "insort key ks = as @ key # bs"
    using insort_middle [of as "[]" bs key] s f(1,3) by fastforce
  then have "node_ok (p\<lparr>bn_keys := ks'[Suc (length as) := key], bn_n := bn_n p + 1\<rparr>) (insort key ks) []"
    using p(2) ks'(2,3) f(1) len by (auto simp: node_ok_def)
  then have "grown m (Bt a ks []) (bset a (p\<lparr>bn_keys := ks'[Suc (length as) := key], bn_n := bn_n p + 1\<rparr>) m) (Bt a (insort key ks) [])"
    by (simp add: grown_def bset_def)
  then show ?thesis using run by blast
qed

lemma descend:
  assumes p: "fst m a = Some p" "node_ok p ks (map addr (C1 @ c # C2))" and c: "fst m (addr c) = Some n" "node_ok n (bt_keys c) as"
    and f: "find_child key (length ks) (bn_keys p) = Some (length C1)"
  shows "length (bt_keys c) \<noteq> 3 \<Longrightarrow> btree_insert_nonfull junk a key m = btree_insert_nonfull junk (addr c) key m"
    and "length (bt_keys c) = 3 \<Longrightarrow> btree_split_child junk a (Suc (length C1)) m = Some m1 \<Longrightarrow> fst m1 a = Some p1 \<Longrightarrow>
      node_ok p1 (K1 @ k2 # K2) (map addr (C1 @ y # z # C2)) \<Longrightarrow> length K1 = length C1 \<Longrightarrow>
      btree_insert_nonfull junk a key m = btree_insert_nonfull junk (if key > k2 then addr z else addr y) key m1"
proof -
  have head: "\<not> bn_leaf p" "bn_n p = length ks" "aget (bn_childs p) (Suc (length C1)) = Some (Some (addr c))" "bn_n n = length (bt_keys c)"
    using node_ok_child [OF p(2), of "map addr C1" "addr c" "map addr C2"] p(2) c(2) by (auto simp: node_ok_def)
  show "btree_insert_nonfull junk a key m = btree_insert_nonfull junk (addr c) key m" if "length (bt_keys c) \<noteq> 3"
    using head p(1) c(1) f that by (subst btree_insert_nonfull.simps) (simp add: MAX_NODE_KEY_def)
  assume full: "length (bt_keys c) = 3" and m1: "btree_split_child junk a (Suc (length C1)) m = Some m1"
    "fst m1 a = Some p1" "node_ok p1 (K1 @ k2 # K2) (map addr (C1 @ y # z # C2))" "length K1 = length C1"
  have "aget (bn_keys p1) (Suc (length C1)) = Some k2"
    using node_ok_key [OF m1(3) refl] m1(4) by simp
  moreover have "aget (bn_childs p1) (Suc (length C1)) = Some (Some (addr y))"
    "aget (bn_childs p1) (Suc (Suc (length C1))) = Some (Some (addr z))"
    using node_ok_child [OF m1(3), of "map addr C1" "addr y" "map addr (z # C2)"]
      node_ok_child [OF m1(3), of "map addr (C1 @ [y])" "addr z" "map addr C2"] by simp_all
  ultimately show "btree_insert_nonfull junk a key m = btree_insert_nonfull junk (if key > k2 then addr z else addr y) key m1"
    using head p(1) c(1) f full m1(1,2) by (subst btree_insert_nonfull.simps) (simp add: MAX_NODE_KEY_def)
qed

lemma bt_node:
  assumes "bt_in m (Bt a ks cs)"
  obtains nd where "fst m a = Some nd" "node_ok nd ks (map addr cs)"
  using assms by (auto simp: bt_in_def)

lemma bt_root:
  assumes "bt_in m t"
  obtains nd as where "fst m (addr t) = Some nd" "node_ok nd (bt_keys t) as"
  using assms by (cases t) (auto simp: bt_in_def)

lemma bt_lengths:
  assumes "bt_in m (Bt a ks cs)"
  shows "length ks \<le> 3" "cs \<noteq> [] \<longrightarrow> length cs = Suc (length ks)"
  using assms by (auto simp: bt_in_def node_ok_def)

text \<open>The halves of a full child: same keys in the same order, and no node without a key.\<close>

lemma split_inorder:
  assumes "length C1 = length K1" "length C2 = length K2" "ds \<noteq> [] \<longrightarrow> length ds = 4"
  shows "bt_inorder (Bt a (K1 @ k2 # K2) (C1 @ Bt b [k1] (take 2 ds) # Bt z [k3] (drop 2 ds) # C2)) =
    bt_inorder (Bt a (K1 @ K2) (C1 @ Bt b [k1, k2, k3] ds # C2))"
proof -
  have "bt_inorder (Bt b [k1, k2, k3] ds) = bt_inorder (Bt b [k1] (take 2 ds)) @ k2 # bt_inorder (Bt z [k3] (drop 2 ds))"
  proof (cases "ds = []")
    case False
    then obtain d1 d2 d3 d4 where "ds = [d1, d2, d3, d4]" using assms(3) by (auto simp: length_Suc_conv numeral_eq_Suc)
    then show ?thesis by simp
  qed simp
  then show ?thesis using assms(1,2) by (simp add: mix_split mix_back del: bt_inorder.simps(1) add: bt_inorder.simps [of a])
qed

lemma split_good:
  assumes "good d (Bt b [k1, k2, k3] ds)" "ds \<noteq> [] \<longrightarrow> length ds = 4"
  shows "good d (Bt b [k1] (take 2 ds))" "good d (Bt z [k3] (drop 2 ds))"
proof -
  have "set (take 2 ds) \<subseteq> set ds" "set (drop 2 ds) \<subseteq> set ds" by (rule set_take_subset, rule set_drop_subset)
  then show "good d (Bt b [k1] (take 2 ds))" "good d (Bt z [k3] (drop 2 ds))"
    using assms by (cases d; auto)+
qed

text \<open>What one insertion into a node that is not full achieves.\<close>

definition inserted :: "(nat \<Rightarrow> btree_node option) \<Rightarrow> int \<Rightarrow> nat \<Rightarrow> bmem \<Rightarrow> bt \<Rightarrow> bool" where
  "inserted junk key d m t \<longleftrightarrow> (\<exists>m' t'. btree_insert_nonfull junk (addr t) key m = Some m' \<and> grown m t m' t' \<and>
     good d t' \<and> bt_keys t' \<noteq> [] \<and> bt_inorder t' = insort key (bt_inorder t))"

definition insertable :: "nat \<Rightarrow> bmem \<Rightarrow> bt \<Rightarrow> bool" where
  "insertable d m t \<longleftrightarrow> bt_in m t \<and> good d t \<and> length (bt_keys t) \<le> 2 \<and> sorted (bt_inorder t)"

lemma insert_in_child:
  assumes t: "bt_in m (Bt a (K1 @ K2) (C1 @ c # C2))" "good (Suc d) (Bt a (K1 @ K2) (C1 @ c # C2))" "K1 @ K2 \<noteq> []"
    and len: "length C1 = length K1" "length C2 = length K2"
    and order: "K1 \<noteq> [] \<longrightarrow> last K1 \<le> key" "K2 \<noteq> [] \<longrightarrow> key \<le> hd K2" "sorted (bt_inorder (Bt a (K1 @ K2) (C1 @ c # C2)))"
    and run: "btree_insert_nonfull junk a key m0 = btree_insert_nonfull junk (addr c) key m" and c: "inserted junk key d m c"
  shows "\<exists>m' t'. btree_insert_nonfull junk a key m0 = Some m' \<and> grown m (Bt a (K1 @ K2) (C1 @ c # C2)) m' t' \<and>
     good (Suc d) t' \<and> bt_keys t' \<noteq> [] \<and> bt_inorder t' = insort key (bt_inorder (Bt a (K1 @ K2) (C1 @ c # C2)))"
proof -
  obtain m' c' where c': "btree_insert_nonfull junk (addr c) key m = Some m'" "grown m c m' c'" "good d c'"
    "bt_keys c' \<noteq> []" "bt_inorder c' = insort key (bt_inorder c)" using c by (auto simp: inserted_def)
  show ?thesis
    using grow_at_child [OF t(1) len order c'(2,5)] run c'(1,3,4) t(2,3)
    by (intro exI [of _ m'] exI [of _ "Bt a (K1 @ K2) (C1 @ c' # C2)"]) (simp del: bt_inorder.simps)
qed

lemma insert_nonfull_tree:
  "insertable d m t \<Longrightarrow> d = 0 \<or> bt_keys t \<noteq> [] \<Longrightarrow> junk_ok junk \<Longrightarrow> inserted junk key d m t"
proof (induction d arbitrary: m t)
  case 0
  then obtain a ks where t: "t = Bt a ks []" by (cases t) (auto simp: insertable_def)
  then show ?case using 0 insert_leaf [of m a ks junk key]
    by (auto simp: inserted_def insertable_def sorted_insort intro!: exI [of _ "Bt a (insort key ks) []"])
next
  case (Suc d)
  obtain a ks cs where t: "t = Bt a ks cs" by (cases t)
  have ok: "bt_in m (Bt a ks cs)" "good (Suc d) (Bt a ks cs)" "length ks \<le> 2" "ks \<noteq> []" "sorted (bt_inorder (Bt a ks cs))"
    using Suc.prems(1,2) by (auto simp: insertable_def t)
  have cs: "cs \<noteq> []" "length cs = Suc (length ks)" using ok(2) bt_lengths(2) [OF ok(1)] by auto
  obtain p where p: "fst m a = Some p" "node_ok p ks (map addr cs)" using bt_node [OF ok(1)] .
  have arr: "length ks < length (bn_keys p)" "used (length ks) (bn_keys p) = ks" using p(2) ok(3) by (auto simp: node_ok_def)
  obtain K1 K2 where f: "ks = K1 @ K2" "find_child key (length ks) (bn_keys p) = Some (length K1)"
    "\<forall>b \<in> set K2. key < b" "K1 \<noteq> [] \<longrightarrow> last K1 \<le> key"
    using find_child_spec [OF arr(1), of key] arr(2) by metis
  have K2: "K2 \<noteq> [] \<longrightarrow> key \<le> hd K2" using f(3) by (cases K2) auto
  define C1 c C2 where "C1 = take (length K1) cs" and "c = cs ! length K1" and "C2 = drop (Suc (length K1)) cs"
  have C: "cs = C1 @ c # C2" "length C1 = length K1" "length C2 = length K2"
    using cs f(1) by (simp_all add: C1_def c_def C2_def id_take_nth_drop)
  note T = ok(1,2,5) [unfolded f(1) C(1)]
  have c: "bt_in m c" "good d c" "bt_keys c \<noteq> []" using T(1,2) bt_in_child by auto
  have sub: "sorted (bt_inorder e)" if "length D1 = length L1" "length D2 = length L2"
      "sorted (bt_inorder (Bt a (L1 @ L2) (D1 @ e # D2)))" for e L1 L2 D1 D2
    using that by (simp add: mix_around sorted_append)
  obtain n as where n: "fst m (addr c) = Some n" "node_ok n (bt_keys c) as" using bt_root [OF c(1)] .
  have f': "find_child key (length ks) (bn_keys p) = Some (length C1)" using f(2) C(2) by simp
  show ?case
  proof (cases "length (bt_keys c) = 3")
    case False
    have "length (bt_keys c) \<le> 3" using c(1) bt_lengths(1) by (cases c) auto
    then have "inserted junk key d m c"
      using Suc.IH [of m c] Suc.prems(3) c False sub [OF C(2,3) T(3)] by (simp add: insertable_def)
    from insert_in_child [OF T(1,2) _ C(2,3) f(4) K2 T(3) descend(1) [OF p [unfolded C(1)] n f' False] this]
    show ?thesis using ok(4) by (simp add: inserted_def t f(1) C(1))
  next
    case True
    then obtain b k1 k2 k3 ds where c_eq: "c = Bt b [k1, k2, k3] ds"
      by (cases c) (auto simp: length_Suc_conv numeral_eq_Suc)
    have ds: "ds \<noteq> [] \<longrightarrow> length ds = 4" using c(1) bt_lengths(2) by (auto simp: c_eq)
    define y z where "y = Bt b [k1] (take 2 ds)" and "z = Bt (snd m) [k3] (drop 2 ds)"
    define t1 where "t1 = Bt a (K1 @ k2 # K2) (C1 @ y # z # C2)"
    obtain m1 where m1: "btree_split_child junk a (Suc (length C1)) m = Some m1" "grown m t m1 t1"
      using split_tree [of m a K1 K2 C1 b k1 k2 k3 ds C2 junk] T(1) C(2) ok(3) f(1) Suc.prems(3)
      by (auto simp: t C(1) c_eq y_def z_def t1_def)
    have t1: "bt_in m1 t1" using grown_in [OF _ m1(2)] ok(1) by (simp add: t)
    have io: "bt_inorder t1 = bt_inorder t"
      unfolding t1_def y_def z_def t f(1) C(1) c_eq by (rule split_inorder [OF C(2,3) ds])
    have s1: "sorted (bt_inorder t1)" using ok(5) by (simp only: io t)
    have half: "good d y" "good d z" using split_good [OF _ ds] c(2) by (auto simp: c_eq y_def z_def)
    have good1: "good (Suc d) t1" using T(2) half by (auto simp: t1_def y_def z_def)
    obtain p1 where p1: "fst m1 a = Some p1" "node_ok p1 (K1 @ k2 # K2) (map addr (C1 @ y # z # C2))"
      using bt_node [OF t1 [unfolded t1_def]] .
    note run = descend(2) [OF p [unfolded C(1)] n f' True m1(1) p1 C(2) [symmetric]]
    note t1' = t1 [unfolded t1_def] good1 [unfolded t1_def] s1 [unfolded t1_def]
    have "\<exists>m' t'. btree_insert_nonfull junk a key m = Some m' \<and> grown m1 t1 m' t' \<and>
      good (Suc d) t' \<and> bt_keys t' \<noteq> [] \<and> bt_inorder t' = insort key (bt_inorder t1)"
    proof (cases "key > k2")
      case False
      have "inserted junk key d m1 y"
        using Suc.IH [of m1 y] Suc.prems(3) half(1) bt_in_child [of m1 a _ C1 y] t1'(1)
          sub [of C1 K1 "z # C2" "k2 # K2" y] C(2,3) t1'(3) by (auto simp: insertable_def y_def)
      from insert_in_child [OF t1'(1,2) _ C(2) _ f(4) _ t1'(3) _ this]
      show ?thesis using run False C(3) by (simp add: t1_def)
    next
      case True
      have e: "K1 @ k2 # K2 = (K1 @ [k2]) @ K2" "C1 @ y # z # C2 = (C1 @ [y]) @ z # C2" by simp_all
      have "inserted junk key d m1 z"
        using Suc.IH [of m1 z] Suc.prems(3) half(2) bt_in_child [of m1 a _ "C1 @ [y]" z] t1'(1)
          sub [of "C1 @ [y]" "K1 @ [k2]" C2 K2 z] C(2,3) t1'(3) by (auto simp: insertable_def z_def)
      from insert_in_child [OF t1'(1,2) [unfolded e] _ _ C(3) _ K2 t1'(3) [unfolded e] _ this]
      show ?thesis using run True C(2) t1'(3) by (simp add: t1_def)
    qed
    then show ?thesis using grown_trans [OF _ m1(2)] ok(1) by (force simp: inserted_def t io)
  qed
qed

text \<open>A full root is copied; the copy becomes the only child of a new root and is split.\<close>

lemma bt_in_root_copy:
  assumes t: "bt_in m (Bt a ks cs)" and n: "node_ok n ks (map addr cs)"
    and m': "fst m' = (fst m)(snd m \<mapsto> n)" "snd m' = Suc (snd m)"
  shows "bt_in m' (Bt (snd m) ks cs)"
proof -
  have below: "c < snd m" if "c \<in> set (concat (map bt_addrs cs))" for c using t that by (auto simp: bt_in_def)
  have "bt_at (fst m') e" if e: "e \<in> set cs" for e
  proof -
    have "bt_at (fst m') e = bt_at (fst m) e"
      using below e by (intro bt_at_cong) (force simp: m'(1))
    then show ?thesis using t e by (simp add: bt_in_def)
  qed
  then show ?thesis using t n below by (force simp: bt_in_def m')
qed

lemma copy_root:
  assumes t: "bt_in m (Bt a ks cs)" and j: "junk_ok junk"
  shows "\<exists>m'. btree_copy_node junk a m = Some (snd m, m') \<and> bt_in m' (Bt (snd m) ks cs) \<and> snd m' = Suc (snd m)"
proof -
  obtain p where p: "fst m a = Some p" "node_ok p ks (map addr cs)" using bt_node [OF t] .
  obtain g where g: "junk (snd m) = Some g" "length (bn_keys g) = 5" "length (bn_childs g) = 5" using j by (auto simp: junk_ok_def)
  have a: "a \<noteq> snd m" using t by (auto simp: bt_in_def)
  have n: "bn_n p = length ks" "length ks \<le> 3" "length (bn_keys p) = 5" "length (bn_childs p) = 5" using p(2) by (auto simp: node_ok_def)
  obtain ks' where ks': "copy_range [1..<bn_n p + 1] 0 (bn_keys p) (bn_keys g) = Some ks'" "length ks' = 5" "used (length ks) ks' = used (length ks) (bn_keys p)"
    using copy_used [of "length ks" "bn_keys p" "bn_keys g"] n g(2) by auto
  obtain cs' where cs': "copy_range [1..<bn_n p + 2] 0 (bn_childs p) (bn_childs g) = Some cs'" "length cs' = 5" "used (Suc (length ks)) cs' = used (Suc (length ks)) (bn_childs p)"
    using copy_used [of "Suc (length ks)" "bn_childs p" "bn_childs g"] n g(3) by auto
  define q where "q = g\<lparr>bn_n := bn_n p, bn_leaf := bn_leaf p, bn_keys := ks', bn_childs := cs'\<rparr>"
  have q: "node_ok q ks (map addr cs)"
    using p(2) ks'(2,3) cs'(2,3) by (auto simp: node_ok_def q_def)
  have "btree_copy_node junk a m = Some (snd m, ((fst m)(snd m \<mapsto> q), Suc (snd m)))"
    using p(1) g(1) a ks'(1) cs'(1) by (simp add: btree_copy_node_def btree_alloc_node_def bset_def q_def)
  then show ?thesis using bt_in_root_copy [OF t q] by auto
qed

lemma new_root:
  assumes t: "bt_in m t" and j: "junk_ok junk"
  shows "\<exists>m1 nd m'. btree_alloc_node junk m = Some (snd m, m1) \<and> fst m1 (snd m) = Some nd \<and> 1 < length (bn_childs nd) \<and>
    m' = bset (snd m) (nd\<lparr>bn_leaf := False, bn_n := 0, bn_childs := (bn_childs nd)[1 := Some (addr t)]\<rparr>) m1 \<and>
    bt_in m' (Bt (snd m) [] [t])"
proof -
  obtain g where g: "junk (snd m) = Some g" "length (bn_keys g) = 5" "length (bn_childs g) = 5" using j by (auto simp: junk_ok_def)
  obtain c0 c1 cs where cs: "bn_childs g = c0 # c1 # cs" using g(3) by (auto simp: length_Suc_conv numeral_eq_Suc)
  define n where "n = g\<lparr>bn_leaf := False, bn_n := 0, bn_childs := (bn_childs g)[1 := Some (addr t)]\<rparr>"
  have n: "node_ok n [] [addr t]" using g by (simp add: node_ok_def n_def used_def cs)
  have below: "c < snd m" if "c \<in> set (bt_addrs t)" for c using t that by (simp add: bt_in_def)
  have "bt_at ((fst m)(snd m \<mapsto> n)) t = bt_at (fst m) t" using below by (intro bt_at_cong) force
  then have "bt_in ((fst m)(snd m \<mapsto> n), Suc (snd m)) (Bt (snd m) [] [t])" using t n below by (force simp: bt_in_def)
  then show ?thesis using g by (simp add: btree_alloc_node_def bset_def n_def)
qed

section \<open>The tree as a sorted list\<close>

definition btree_rep :: "bmem \<times> nat \<Rightarrow> int list \<Rightarrow> bool" where
  "btree_rep st ks \<longleftrightarrow> (\<exists>d t. bt_in (fst st) t \<and> addr t = snd st \<and> good d t \<and> (d = 0 \<or> bt_keys t \<noteq> []) \<and>
     bt_inorder t = ks \<and> sorted ks)"

lemma btree_insert_rep:
  assumes "btree_rep st ks" "junk_ok junk"
  shows "\<exists>st'. btree_insert junk key st = Some (0, st') \<and> btree_rep st' (insort key ks)"
proof -
  obtain d t where t: "bt_in (fst st) t" "addr t = snd st" "good d t" "d = 0 \<or> bt_keys t \<noteq> []" "bt_inorder t = ks" "sorted ks"
    using assms(1) by (auto simp: btree_rep_def)
  obtain m root where st: "st = (m, root)" by (cases st)
  obtain r as where r: "fst m root = Some r" "node_ok r (bt_keys t) as" using bt_root [OF t(1)] t(2) by (auto simp: st)
  have n: "bn_n r = length (bt_keys t)" "length (bt_keys t) \<le> 3" using r(2) by (auto simp: node_ok_def)
  have rep: "btree_rep (m', addr t0) (insort key ks)" if "bt_in m0 t0" "grown m0 t0 m' t'" "good e t'" "bt_keys t' \<noteq> []"
    "bt_inorder t' = insort key ks" for m0 t0 m' t' e
    using that grown_in [OF that(1,2)] t(6) by (auto simp: btree_rep_def grown_def sorted_insort intro!: exI [of _ e] exI [of _ t'])
  show ?thesis
  proof (cases "length (bt_keys t) = 3")
    case False
    then have "inserted junk key d m t"
      using t n(2) assms(2) by (intro insert_nonfull_tree) (auto simp: insertable_def st)
    then obtain m' t' where "btree_insert_nonfull junk root key m = Some m'" "grown m t m' t'" "good d t'" "bt_keys t' \<noteq> []"
      "bt_inorder t' = insort key ks" using t(2,5) by (auto simp: inserted_def st)
    then show ?thesis using rep [of m t m' t' d] t(1,2) r(1) n(1) False
      by (auto simp: btree_insert_def st MAX_NODE_KEY_def)
  next
    case True
    then obtain k1 k2 k3 cs where t_eq: "t = Bt root [k1, k2, k3] cs"
      using t(2) by (cases t) (auto simp: st length_Suc_conv numeral_eq_Suc)
    have cs: "cs \<noteq> [] \<longrightarrow> length cs = 4" using t(1) bt_lengths(2) by (auto simp: t_eq)
    obtain m1 where m1: "btree_copy_node junk root m = Some (snd m, m1)" "bt_in m1 (Bt (snd m) [k1, k2, k3] cs)"
      using copy_root [of m root "[k1, k2, k3]" cs junk] t(1) assms(2) by (auto simp: st t_eq)
    define t1 where "t1 = Bt (snd m) [k1, k2, k3] cs"
    obtain m2 nd m3 where m3: "btree_alloc_node junk m1 = Some (snd m1, m2)" "fst m2 (snd m1) = Some nd" "1 < length (bn_childs nd)"
      "m3 = bset (snd m1) (nd\<lparr>bn_leaf := False, bn_n := 0, bn_childs := (bn_childs nd)[1 := Some (snd m)]\<rparr>) m2"
      "bt_in m3 (Bt (snd m1) [] [t1])"
      using new_root [OF m1(2) assms(2)] unfolding t1_def bt.sel by blast
    define t2 where "t2 = Bt (snd m1) [k2] [Bt (snd m) [k1] (take 2 cs), Bt (snd m3) [k3] (drop 2 cs)]"
    obtain m4 where m4: "btree_split_child junk (snd m1) 1 m3 = Some m4" "grown m3 (Bt (snd m1) [] [t1]) m4 t2"
      using split_tree [of m3 "snd m1" "[]" "[]" "[]" "snd m" k1 k2 k3 cs "[]" junk] m3(5) assms(2)
      by (auto simp: t1_def t2_def)
    have io: "bt_inorder t2 = ks"
      using split_inorder [of "[]" "[]" "[]" "[]" cs "snd m1" k2 "snd m" k1 "snd m3" k3] cs t(5) by (simp add: t2_def t_eq)
    have "good d t1" using t(3) by (cases d) (auto simp: t1_def t_eq)
    then have g: "good (Suc d) t2" using split_good [of d "snd m" k1 k2 k3 cs] cs by (simp add: t1_def t2_def)
    have t2: "bt_in m4 t2" using grown_in [OF m3(5) m4(2)] .
    have "inserted junk key (Suc d) m4 t2"
      using t2 g io t(6) assms(2) by (intro insert_nonfull_tree) (auto simp: insertable_def t2_def)
    then obtain m' t' where "btree_insert_nonfull junk (snd m1) key m4 = Some m'" "grown m4 t2 m' t'" "good (Suc d) t'"
      "bt_keys t' \<noteq> []" "bt_inorder t' = insort key ks" using io by (auto simp: inserted_def t2_def)
    then show ?thesis using rep [of m4 t2 m' t' "Suc d"] t2 r(1) n(1) True m1(1) m3(1-4) m4(1)
      by (auto simp: btree_insert_def st MAX_NODE_KEY_def aput_def t2_def)
  qed
qed

interpretation btree: sorted_insert btree_rep "\<lambda>_ _. junk_ok junk" "\<lambda>_ :: nat. btree_insert junk" for junk
proof
  show "sorted ks" if "btree_rep st ks" for st ks using that by (auto simp: btree_rep_def)
qed (use btree_insert_rep in auto)

section \<open>Searching\<close>

lemma search_index_from:
  "1 \<le> i \<Longrightarrow> i \<le> Suc (length as) \<Longrightarrow> used n ks = as @ bs \<Longrightarrow> n < length ks \<Longrightarrow> \<forall>k \<in> set as. k < key \<Longrightarrow>
     bs \<noteq> [] \<longrightarrow> key \<le> hd bs \<Longrightarrow> search_index key n ks i = Some (Suc (length as))"
proof (induction "Suc (length as) - i" arbitrary: i)
  case 0
  then have i: "i = Suc (length as)" by simp
  have len: "n = length as + length bs" using length_used [OF 0(5)] 0(4) by simp
  show ?case
  proof (cases bs)
    case (Cons b bs')
    then show ?thesis using 0 i len used_get [OF 0(5), of as b bs'] by (subst search_index.simps) auto
  qed (use i len in \<open>subst search_index.simps, simp\<close>)
next
  case (Suc d)
  have len: "n = length as + length bs" using length_used [OF Suc.prems(4)] Suc.prems(3) by simp
  have "i - 1 < length as" using Suc by simp
  moreover from this have "as ! (i - 1) = ks ! i"
    using used_nth [of "i - 1" n ks] Suc.prems len by (simp add: nth_append)
  ultimately have "ks ! i < key" using Suc.prems(5) by (metis nth_mem)
  then show ?case using Suc len by (subst search_index.simps) (auto simp: aget_def)
qed

lemma search_index_spec:
  assumes "used n ks = as @ bs" "n < length ks" "\<forall>k \<in> set as. k < key" "bs \<noteq> [] \<longrightarrow> key \<le> hd bs" "ks ! 0 < key"
  shows "search_index key n ks 0 = Some (Suc (length as))"
  using search_index_from [of 1 as n ks bs key] assms by (subst search_index.simps) (auto simp: aget_def)

text \<open>\<open>keys[0]\<close>, which no operation writes, is smaller than \<open>key\<close> in every node.\<close>

definition low_guards :: "(nat \<rightharpoonup> btree_node) \<Rightarrow> int \<Rightarrow> bt \<Rightarrow> bool" where
  "low_guards h key t \<longleftrightarrow> (\<forall>a \<in> set (bt_addrs t). \<exists>nd. h a = Some nd \<and> bn_keys nd ! 0 < key)"

lemma search_split: "sorted ks \<Longrightarrow> \<exists>as bs. ks = as @ bs \<and> (\<forall>k \<in> set as. k < key) \<and> (bs \<noteq> [] \<longrightarrow> (key :: int) \<le> hd bs)"
proof (intro exI conjI)
  show "ks = takeWhile (\<lambda>k. k < key) ks @ dropWhile (\<lambda>k. k < key) ks" by simp
  show "dropWhile (\<lambda>k. k < key) ks \<noteq> [] \<longrightarrow> key \<le> hd (dropWhile (\<lambda>k. k < key) ks)"
    using hd_dropWhile [of "\<lambda>k. k < key" ks] by (meson not_less)
qed (auto dest: set_takeWhileD)

lemma mix_keys_sorted: "sorted (mix ks ls) \<Longrightarrow> length ls = Suc (length ks) \<or> ls = [] \<Longrightarrow> sorted ks \<and> set ks \<subseteq> set (mix ks ls)"
proof (induction ks ls rule: mix.induct)
  case (1 k ks l ls)
  then show ?case by (auto simp: sorted_append)
qed (auto simp: sorted_append)

lemma btree_search_spec:
  "bt_at h t \<Longrightarrow> sorted (bt_inorder t) \<Longrightarrow> low_guards h key t \<Longrightarrow> \<exists>p. btree_search h (Some (addr t)) key = Some p \<and>
     (if key \<in> set (bt_inorder t)
      then \<exists>a nd. p = Some a \<and> a \<in> set (bt_addrs t) \<and> h a = Some nd \<and> key \<in> set (used (bn_n nd) (bn_keys nd)) else p = None)"
proof (induction t)
  case (Bt a ks cs)
  obtain nd where nd: "h a = Some nd" "node_ok nd ks (map addr cs)" using Bt.prems(1) by auto
  have low: "bn_keys nd ! 0 < key" using Bt.prems(3) nd(1) by (auto simp: low_guards_def)
  have n: "bn_n nd = length ks" "length ks < length (bn_keys nd)" "used (length ks) (bn_keys nd) = ks"
    "bn_leaf nd \<longleftrightarrow> cs = []" "cs = [] \<or> length cs = Suc (length ks)" using nd(2) by (auto simp: node_ok_def)
  have ks: "sorted ks" "set ks \<subseteq> set (bt_inorder (Bt a ks cs))"
    using mix_keys_sorted [of ks "map bt_inorder cs"] Bt.prems(2) n(5) by auto
  obtain as bs where s: "ks = as @ bs" "\<forall>k \<in> set as. k < key" "bs \<noteq> [] \<longrightarrow> key \<le> hd bs"
    using search_split [OF ks(1)] by blast
  have idx: "search_index key (bn_n nd) (bn_keys nd) 0 = Some (Suc (length as))"
    using search_index_spec [of "length ks" "bn_keys nd" as bs key] n s low by simp
  show ?case
  proof (cases "bs \<noteq> [] \<and> hd bs = key")
    case True
    then obtain bs' where bs: "bs = key # bs'" by (cases bs) auto
    have "btree_search h (Some a) key = Some (Some a)"
      using nd(1) idx n(1) s(1) bs used_get [OF n(2), of as key bs'] n(3) by (subst btree_search.simps) simp
    moreover have "key \<in> set ks" using s(1) bs by simp
    ultimately show ?thesis using ks(2) nd(1) n(1,3) by auto
  next
    case False
    then have later: "bs \<noteq> [] \<longrightarrow> key < hd bs" using s(3) by auto
    have nin: "key \<notin> set ks" using s ks(1) later by (cases bs) (auto simp: sorted_append)
    have not_here: "Suc (length as) \<le> bn_n nd \<longrightarrow> (\<exists>k. aget (bn_keys nd) (Suc (length as)) = Some k \<and> key \<noteq> k)"
      using used_get [OF n(2), of as "hd bs" "tl bs"] n(1,3) s(1) later by (cases bs) auto
    show ?thesis
    proof (cases "cs = []")
      case True
      then have "btree_search h (Some a) key = Some None"
        using nd(1) idx n(4) not_here by (subst btree_search.simps) auto
      then show ?thesis using True nin by (cases ks) auto
    next
      case inner: False
      define C1 c C2 where "C1 = take (length as) cs" and "c = cs ! length as" and "C2 = drop (Suc (length as)) cs"
      have C: "cs = C1 @ c # C2" "length C1 = length as" "length C2 = length bs"
        using inner n(5) s(1) by (simp_all add: C1_def c_def C2_def id_take_nth_drop)
      have io: "bt_inorder (Bt a ks cs) = left_of as (map bt_inorder C1) @ bt_inorder c @ right_of bs (map bt_inorder C2)"
        using C(2,3) by (simp add: s(1) C(1) mix_around)
      have so: "sorted (left_of as (map bt_inorder C1))" "sorted (bt_inorder c)" "sorted (right_of bs (map bt_inorder C2))"
        using Bt.prems(2) unfolding io sorted_append by blast+
      have "as \<noteq> [] \<longrightarrow> last as \<le> key - 1" "bs \<noteq> [] \<longrightarrow> key + 1 \<le> hd bs"
        using s(2) later last_in_set [of as] by force+
      then have out: "key \<notin> set (left_of as (map bt_inorder C1))" "key \<notin> set (right_of bs (map bt_inorder C2))"
        using left_of_bound [OF _ _ so(1), of "key - 1"] right_of_bound [OF _ _ so(3), of "key + 1"] C(2,3)
        by (fastforce simp del: set_concat)+
      then have mem: "key \<in> set (bt_inorder (Bt a ks cs)) \<longleftrightarrow> key \<in> set (bt_inorder c)"
        unfolding io set_append by blast
      have c: "c \<in> set cs" "bt_at h c" "low_guards h key c" "set (bt_addrs c) \<subseteq> set (bt_addrs (Bt a ks cs))"
        using Bt.prems(1,3) C(1) by (auto simp: low_guards_def)
      have "aget (bn_childs nd) (Suc (length as)) = Some (Some (addr c))"
        using node_ok_child [OF nd(2), of "map addr C1" "addr c" "map addr C2"] C(1,2) by simp
      then have run: "btree_search h (Some a) key = btree_search h (Some (addr c)) key"
        using nd(1) idx n(4) not_here inner by (subst btree_search.simps) auto
      show ?thesis
        using Bt.IH [OF c(1,2) so(2) c(3)] c(4) unfolding mem bt.sel run by (meson subsetD)
    qed
  qed
qed

section \<open>Properties\<close>

text \<open>
  C41. The B-tree keeps its keys sorted and its shape.  A new tree is empty.  From a tree whose
  leaves have the same depth, whose nodes other than the root have one to three keys and whose
  keys in order are the sorted list \<open>ks\<close>, an insertion succeeds, uses no invalid pointer or index,
  gives such a tree for \<open>ks\<close> with the key inserted in order, and printing shows that list, whatever
  \<open>malloc\<close> leaves in fresh nodes.
\<close>

theorem btree_keeps_keys_sorted:
  assumes "junk_ok junk"
  shows "(\<exists>root m. btree_create junk (h, n) = Some (root, m) \<and> btree_rep (m, root) []) \<and>
    (btree_rep st ks \<longrightarrow> (\<exists>m' root'. btree_insert junk key st = Some (0, m', root') \<and>
       btree_rep (m', root') (insort key ks) \<and> print_btree (fst m') root' = Some (insort key ks)))"
proof (intro conjI impI)
  obtain g where "junk n = Some g" "length (bn_keys g) = 5" "length (bn_childs g) = 5"
    using assms by (auto simp: junk_ok_def)
  then show "\<exists>root m. btree_create junk (h, n) = Some (root, m) \<and> btree_rep (m, root) []"
    by (auto simp: btree_create_def btree_alloc_node_def btree_rep_def bt_in_def node_ok_def used_def
        intro!: exI [of _ 0] exI [of _ "Bt n [] []"])
next
  assume "btree_rep st ks"
  then obtain m' root' where i: "btree_insert junk key st = Some (0, m', root')" "btree_rep (m', root') (insort key ks)"
    using btree_insert_rep [OF _ assms] by fastforce
  then show "\<exists>m' root'. btree_insert junk key st = Some (0, m', root') \<and>
      btree_rep (m', root') (insort key ks) \<and> print_btree (fst m') root' = Some (insort key ks)"
    using print_btree_inorder by (fastforce simp: btree_rep_def bt_in_def)
qed

definition zero_junk :: "nat \<Rightarrow> btree_node option" where
  "zero_junk a = Some \<lparr>bn_leaf = False, bn_n = 0, bn_keys = replicate 5 0, bn_childs = replicate 5 None\<rparr>"

definition btree_main :: "(nat \<times> int) list" where
  "btree_main = zip [0..<9] [1, 2, 3, 4, 6, 5, 7, 8, 9]"

text \<open>The calls of \<open>main\<close>, and one insertion more.\<close>

theorem btree_keeps_keys_sorted_witness:
  "\<exists>root m st m' root'. btree_create zero_junk (Map.empty, 0) = Some (root, m) \<and>
     inserts (\<lambda>_. btree_insert zero_junk) btree_main (m, root) = Some st \<and>
     btree_insert zero_junk 4 st = Some (0, m', root') \<and> print_btree (fst m') root' = Some [1, 2, 3, 4, 4, 5, 6, 7, 8, 9]"
proof -
  have j: "junk_ok zero_junk" by (simp add: junk_ok_def zero_junk_def)
  obtain root m where m: "btree_create zero_junk (Map.empty, 0) = Some (root, m)" "btree_rep (m, root) []"
    using btree_keeps_keys_sorted [OF j] by blast
  obtain st where st: "inserts (\<lambda>_. btree_insert zero_junk) btree_main (m, root) = Some st"
    "btree_rep st (sort (map snd btree_main @ []))"
    using btree.inserts_law [OF m(2), of btree_main zero_junk] j by (auto simp: btree_main_def)
  then have "btree_rep st [1, 2, 3, 4, 5, 6, 7, 8, 9]" by (simp add: btree_main_def)
  then show ?thesis using btree_keeps_keys_sorted [OF j, of Map.empty 0 st _ 4] m(1) st(1) by fastforce
qed

text \<open>
  A search starts at \<open>keys[0]\<close>, which is never written.  Where the garbage there is smaller than
  the key in every node, the search finds a node with the key exactly when the tree has the key.  If
  the garbage of the root is the key itself, the root is returned though the key may be absent; if it
  is larger and the root is a leaf, the search reports the key missing though it may be there.
\<close>

theorem search_reads_slot_zero:
  assumes "btree_rep (m, root) ks"
  shows "((\<forall>a nd. fst m a = Some nd \<longrightarrow> bn_keys nd ! 0 < key) \<longrightarrow>
      (\<exists>p. btree_search (fst m) (Some root) key = Some p \<and>
        (if key \<in> set ks then \<exists>a nd. p = Some a \<and> fst m a = Some nd \<and> key \<in> set (used (bn_n nd) (bn_keys nd)) else p = None))) \<and>
    (\<forall>nd. fst m root = Some nd \<longrightarrow>
      (bn_keys nd ! 0 = key \<longrightarrow> btree_search (fst m) (Some root) key = Some (Some root)) \<and>
      (key < bn_keys nd ! 0 \<and> bn_leaf nd \<longrightarrow> btree_search (fst m) (Some root) key = Some None))"
proof (intro conjI allI impI)
  obtain t where t: "bt_at (fst m) t" "addr t = root" "bt_inorder t = ks" "sorted ks"
    using assms by (auto simp: btree_rep_def bt_in_def)
  assume low: "\<forall>a nd. fst m a = Some nd \<longrightarrow> bn_keys nd ! 0 < key"
  have "a \<in> set (bt_addrs u) \<Longrightarrow> bt_at (fst m) u \<Longrightarrow> \<exists>nd. fst m a = Some nd" for a u
    by (induction u) auto
  then have "low_guards (fst m) key t" using low t(1) by (force simp: low_guards_def)
  then show "\<exists>p. btree_search (fst m) (Some root) key = Some p \<and>
      (if key \<in> set ks then \<exists>a nd. p = Some a \<and> fst m a = Some nd \<and> key \<in> set (used (bn_n nd) (bn_keys nd)) else p = None)"
    using btree_search_spec [OF t(1), of key] t(2-4) by (auto split: if_splits)
next
  fix nd assume nd: "fst m root = Some nd"
  have len: "0 < length (bn_keys nd)" using assms nd
    by (auto simp: btree_rep_def bt_in_def node_ok_def elim!: bt_at.elims)
  show "btree_search (fst m) (Some root) key = Some (Some root)" if "bn_keys nd ! 0 = key"
    using nd len that by (subst btree_search.simps, subst search_index.simps) (simp add: aget_def)
  show "btree_search (fst m) (Some root) key = Some None" if "key < bn_keys nd ! 0 \<and> bn_leaf nd"
    using nd len that by (subst btree_search.simps, subst search_index.simps) (simp add: aget_def)
qed

end
