(* ===== verification/Skip_List.thy ===== *)
theory Skip_List
  imports B_Tree
begin

text \<open>
  The skip list of algorithm/skip-list.c: nodes with an array of forward pointers, linked on every
  level into a ring through the head, whose key is \<open>INT_MAX\<close>.  The heap is a map from addresses
  to nodes with an allocator that hands out increasing addresses; \<open>junk\<close> is what \<open>malloc\<close> returns
  for an address: the old contents of the pointer array, or \<^term>\<open>None\<close> for NULL, which the code
  does not test for.  \<^term>\<open>None\<close> as a result is the use of a NULL or dangling pointer, of an
  uninitialised slot of \<open>update\<close>, or an index outside an array.  The field \<open>level\<close> of a node is never
  used and left out.

  The theory proves that the list is a sorted set of keys as long as a new node does not raise
  the level of the list behind a smaller key of the top level: there \<open>skip_list_insert\<close> links it at
  the wrong place, and keys are lost (\<open>insert_loses_key\<close>).
\<close>

unbundle bit_operations_syntax

section \<open>The code\<close>

definition MAX_LEVEL :: nat where
  "MAX_LEVEL = 32"

definition INT_MAX :: int where
  "INT_MAX = 2147483647"

record skip_node =
  sn_key :: int
  sn_forward :: "nat list"

type_synonym smem = "(nat \<rightharpoonup> skip_node) \<times> nat"

type_synonym junk = "nat \<Rightarrow> (nat \<Rightarrow> nat) option"

record skip_list =
  sl_head :: nat
  sl_level :: nat

definition skip_list_node_alloc :: "junk \<Rightarrow> int \<Rightarrow> nat \<Rightarrow> smem \<Rightarrow> (nat \<times> smem) option" where
  "skip_list_node_alloc junk key level m = do {
     g \<leftarrow> junk (snd m);
     Some (snd m, ((fst m)(snd m \<mapsto> \<lparr>sn_key = key, sn_forward = map g [0..<level]\<rparr>), Suc (snd m))) }"

definition skip_list_init :: "junk \<Rightarrow> smem \<Rightarrow> (skip_list \<times> smem) option" where
  "skip_list_init junk m = do {
     (a, m) \<leftarrow> skip_list_node_alloc junk INT_MAX (MAX_LEVEL + 1) m;
     nd \<leftarrow> fst m a;
     Some (\<lparr>sl_head = a, sl_level = 0\<rparr>,
           ((fst m)(a \<mapsto> nd\<lparr>sn_forward := replicate (MAX_LEVEL + 1) a\<rparr>), snd m)) }"

text \<open>\<open>rand_level\<close>; the n-th call of \<open>rand\<close> returns \<open>rnd n\<close>.\<close>

function rand_level_from :: "(nat \<Rightarrow> int) \<Rightarrow> nat \<Rightarrow> nat" where
  "rand_level_from rnd level =
     (if level < MAX_LEVEL \<and> rnd level AND 1 = 1 then rand_level_from rnd (level + 1) else level)"
  by auto
termination by (relation "measure (\<lambda>(rnd, level). MAX_LEVEL - level)") auto

declare rand_level_from.simps [simp del]

definition rand_level :: "(nat \<Rightarrow> int) \<Rightarrow> nat" where
  "rand_level rnd = rand_level_from rnd 0"

text \<open>\<open>x->forward[i]\<close>, and the walk along one level.\<close>

definition forward_of :: "(nat \<rightharpoonup> skip_node) \<Rightarrow> nat \<Rightarrow> nat \<Rightarrow> nat option" where
  "forward_of h x i = do { nd \<leftarrow> h x; aget (sn_forward nd) i }"

partial_function (option) walk_level :: "(nat \<rightharpoonup> skip_node) \<Rightarrow> int \<Rightarrow> nat \<Rightarrow> nat \<Rightarrow> nat option" where
  "walk_level h key i x = do {
     y \<leftarrow> forward_of h x i;
     nd \<leftarrow> h y;
     if sn_key nd < key then walk_level h key i y else Some x }"

text \<open>The loop over the levels that records the predecessors in \<open>update\<close>.\<close>

fun find_update :: "(nat \<rightharpoonup> skip_node) \<Rightarrow> int \<Rightarrow> nat \<Rightarrow> nat \<Rightarrow> nat option list \<Rightarrow> (nat \<times> nat option list) option" where
  "find_update h key 0 x update = do {
     x \<leftarrow> walk_level h key 0 x;
     update \<leftarrow> aput update 0 (Some x);
     Some (x, update) }"
| "find_update h key (Suc i) x update = do {
     x \<leftarrow> walk_level h key (Suc i) x;
     update \<leftarrow> aput update (Suc i) (Some x);
     find_update h key i x update }"

primrec fill_update :: "nat list \<Rightarrow> nat \<Rightarrow> nat option list \<Rightarrow> nat option list option" where
  "fill_update [] head update = Some update"
| "fill_update (i # is) head update = Option.bind (aput update i (Some head)) (fill_update is head)"

definition set_forward :: "(nat \<rightharpoonup> skip_node) \<Rightarrow> nat \<Rightarrow> nat \<Rightarrow> nat \<Rightarrow> (nat \<rightharpoonup> skip_node) option" where
  "set_forward h x i y = do {
     nd \<leftarrow> h x;
     f \<leftarrow> aput (sn_forward nd) i y;
     Some (h(x \<mapsto> nd\<lparr>sn_forward := f\<rparr>)) }"

definition update_at :: "nat option list \<Rightarrow> nat \<Rightarrow> nat option" where
  "update_at update i = Option.bind (aget update i) id"

primrec link_levels :: "nat list \<Rightarrow> nat \<Rightarrow> nat option list \<Rightarrow> (nat \<rightharpoonup> skip_node) \<Rightarrow> (nat \<rightharpoonup> skip_node) option" where
  "link_levels [] x update h = Some h"
| "link_levels (i # is) x update h = do {
     u \<leftarrow> update_at update i;
     y \<leftarrow> forward_of h u i;
     h \<leftarrow> set_forward h x i y;
     h \<leftarrow> set_forward h u i x;
     link_levels is x update h }"

definition skip_list_insert :: "junk \<Rightarrow> (nat \<Rightarrow> int) \<Rightarrow> skip_list \<Rightarrow> int \<Rightarrow> smem \<Rightarrow> (skip_list \<times> smem) option" where
  "skip_list_insert junk rnd root key m = do {
     (x, update) \<leftarrow> find_update (fst m) key (sl_level root) (sl_head root) (replicate (MAX_LEVEL + 1) None);
     x \<leftarrow> forward_of (fst m) x 0;
     nd \<leftarrow> fst m x;
     if key = sn_key nd then Some (root, m)
     else do {
       let level = rand_level rnd;
       (root, update) \<leftarrow>
         (if sl_level root < level
          then do { update \<leftarrow> fill_update [sl_level root..<level + 1] (sl_head root) update;
                    Some (root\<lparr>sl_level := level\<rparr>, update) }
          else Some (root, update));
       (x, m) \<leftarrow> skip_list_node_alloc junk key (level + 1) m;
       h \<leftarrow> link_levels [0..<level + 1] x update (fst m);
       Some (root, (h, snd m)) } }"

fun find_levels :: "(nat \<rightharpoonup> skip_node) \<Rightarrow> int \<Rightarrow> nat \<Rightarrow> nat \<Rightarrow> nat option" where
  "find_levels h key 0 p = walk_level h key 0 p"
| "find_levels h key (Suc i) p = Option.bind (walk_level h key (Suc i) p) (find_levels h key i)"

text \<open>The node returned is the one in front of the node with the key; \<open>None\<close> inside is NULL.\<close>

definition skip_list_find :: "skip_list \<Rightarrow> int \<Rightarrow> smem \<Rightarrow> nat option option" where
  "skip_list_find root key m = do {
     p \<leftarrow> find_levels (fst m) key (sl_level root) (sl_head root);
     y \<leftarrow> forward_of (fst m) p 0;
     nd \<leftarrow> fst m y;
     Some (if sn_key nd = key then Some p else None) }"

primrec unlink_levels :: "nat list \<Rightarrow> nat \<Rightarrow> nat option list \<Rightarrow> (nat \<rightharpoonup> skip_node) \<Rightarrow> (nat \<rightharpoonup> skip_node) option" where
  "unlink_levels [] p update h = Some h"
| "unlink_levels (i # is) p update h = do {
     u \<leftarrow> update_at update i;
     y \<leftarrow> forward_of h u i;
     if y \<noteq> p then Some h
     else do {
       z \<leftarrow> forward_of h p i;
       h \<leftarrow> set_forward h u i z;
       unlink_levels is p update h } }"

fun lower_level :: "(nat \<rightharpoonup> skip_node) \<Rightarrow> nat \<Rightarrow> nat \<Rightarrow> nat option" where
  "lower_level h head 0 = Some 0"
| "lower_level h head (Suc i) = do {
     y \<leftarrow> forward_of h head (Suc i);
     if y = head then lower_level h head i else Some (Suc i) }"

definition skip_list_node_free :: "nat \<Rightarrow> (nat \<rightharpoonup> skip_node) \<Rightarrow> (nat \<rightharpoonup> skip_node) option" where
  "skip_list_node_free p h = (if h p = None then None else Some (h(p := None)))"

definition skip_list_remove :: "skip_list \<Rightarrow> int \<Rightarrow> smem \<Rightarrow> (skip_list \<times> smem) option" where
  "skip_list_remove root key m = do {
     (p, update) \<leftarrow> find_update (fst m) key (sl_level root) (sl_head root) (replicate (MAX_LEVEL + 1) None);
     p \<leftarrow> forward_of (fst m) p 0;
     nd \<leftarrow> fst m p;
     if sn_key nd = key
     then do {
       h \<leftarrow> unlink_levels [0..<sl_level root + 1] p update (fst m);
       h \<leftarrow> skip_list_node_free p h;
       level \<leftarrow> lower_level h (sl_head root) (sl_level root);
       Some (root\<lparr>sl_level := level\<rparr>, (h, snd m)) }
     else Some (root, m) }"

text \<open>\<open>skip_list_dump\<close>: the keys it prints, from the node \<open>x\<close>.\<close>

partial_function (option) dump_from :: "(nat \<rightharpoonup> skip_node) \<Rightarrow> nat \<Rightarrow> nat \<Rightarrow> int list option" where
  "dump_from h head x = do {
     y \<leftarrow> forward_of h x 0;
     if y = head then Some []
     else do { nd \<leftarrow> h y; ks \<leftarrow> dump_from h head y; Some (sn_key nd # ks) } }"

definition skip_list_dump :: "skip_list \<Rightarrow> smem \<Rightarrow> int list option" where
  "skip_list_dump root m = dump_from (fst m) (sl_head root) (sl_head root)"

partial_function (option) free_from :: "nat \<Rightarrow> nat \<Rightarrow> (nat \<rightharpoonup> skip_node) \<Rightarrow> (nat \<rightharpoonup> skip_node) option" where
  "free_from head x h =
     (if x = head then Some h
      else do {
        next_node \<leftarrow> forward_of h x 0;
        h \<leftarrow> skip_list_node_free x h;
        free_from head next_node h })"

definition skip_list_free :: "skip_list \<Rightarrow> smem \<Rightarrow> smem option" where
  "skip_list_free root m = do {
     x \<leftarrow> forward_of (fst m) (sl_head root) 0;
     h \<leftarrow> free_from (sl_head root) x (fst m);
     h \<leftarrow> skip_list_node_free (sl_head root) h;
     Some (h, snd m) }"


section \<open>Rings of links\<close>

text \<open>On level \<open>i\<close> the links lead from \<open>a\<close> over the nodes \<open>bs\<close> to \<open>z\<close>.\<close>

primrec linked :: "(nat \<rightharpoonup> skip_node) \<Rightarrow> nat \<Rightarrow> nat \<Rightarrow> nat list \<Rightarrow> nat \<Rightarrow> bool" where
  "linked h i a [] z \<longleftrightarrow> forward_of h a i = Some z"
| "linked h i a (b # bs) z \<longleftrightarrow> forward_of h a i = Some b \<and> linked h i b bs z"

lemma linked_append: "linked h i a (us @ b # vs) z \<longleftrightarrow> linked h i a us b \<and> linked h i b vs z"
  by (induction us arbitrary: a) auto

lemma linked_cong:
  "(\<And>x. x \<in> set (a # bs) \<Longrightarrow> forward_of h' x i = forward_of h x i) \<Longrightarrow> linked h' i a bs z = linked h i a bs z"
  by (induction bs arbitrary: a) auto

lemma linked_hd: "linked h i a bs z \<Longrightarrow> forward_of h a i = Some (hd (bs @ [z]))"
  by (cases bs) auto

abbreviation key_of :: "(nat \<rightharpoonup> skip_node) \<Rightarrow> nat \<Rightarrow> int" where
  "key_of h a \<equiv> sn_key (the (h a))"

abbreviation tall :: "(nat \<rightharpoonup> skip_node) \<Rightarrow> nat \<Rightarrow> nat" where
  "tall h a \<equiv> length (sn_forward (the (h a)))"

lemma walk_linked:
  assumes "linked h i x ys z" "\<And>y. y \<in> set ys \<Longrightarrow> h y \<noteq> None" "h z \<noteq> None" "key \<le> key_of h z"
  shows "walk_level h key i x = Some (last (x # takeWhile (\<lambda>y. key_of h y < key) ys))"
  using assms
proof (induction ys arbitrary: x)
  case (Cons y ys)
  obtain nd where nd: "h y = Some nd" using Cons.prems(2) by fastforce
  have step: "forward_of h x i = Some y" "linked h i y ys z" using Cons.prems(1) by simp_all
  show ?case
  proof (cases "sn_key nd < key")
    case True
    have "walk_level h key i y = Some (last (y # takeWhile (\<lambda>y. key_of h y < key) ys))"
      using Cons.prems by (intro Cons.IH step(2)) simp_all
    with step nd True show ?thesis by (subst walk_level.simps) simp
  next
    case False
    with step nd show ?thesis by (subst walk_level.simps) simp
  qed
qed (subst walk_level.simps, auto)

section \<open>The invariant\<close>

text \<open>
  \<open>skip_rep root h as\<close>: on level \<open>i\<close> the ring runs through the nodes of \<open>as\<close> that are taller than
  \<open>i\<close>, in the order of their keys, which are below \<open>INT_MAX\<close>.
\<close>

definition on_level :: "(nat \<rightharpoonup> skip_node) \<Rightarrow> nat \<Rightarrow> nat list \<Rightarrow> nat list" where
  "on_level h i as = filter (\<lambda>a. i < tall h a) as"

definition skip_rep :: "skip_list \<Rightarrow> (nat \<rightharpoonup> skip_node) \<Rightarrow> nat list \<Rightarrow> bool" where
  "skip_rep root h as \<longleftrightarrow>
     sl_level root \<le> MAX_LEVEL \<and> sl_head root \<notin> set as \<and> (\<forall>a \<in> set (sl_head root # as). h a \<noteq> None) \<and>
     key_of h (sl_head root) = INT_MAX \<and> tall h (sl_head root) = MAX_LEVEL + 1 \<and>
     (\<forall>a \<in> set as. key_of h a < INT_MAX \<and> 0 < tall h a \<and> tall h a \<le> sl_level root + 1) \<and>
     sorted_wrt (<) (map (key_of h) as) \<and>
     (\<forall>i \<le> MAX_LEVEL. linked h i (sl_head root) (on_level h i as) (sl_head root))"

lemma sorted_takeWhile_filter:
  "sorted_wrt (<) (map f xs) \<Longrightarrow> takeWhile (\<lambda>x. f x < (k :: int)) xs = filter (\<lambda>x. f x < k) xs"
proof (induction xs)
  case (Cons x xs)
  show ?case
  proof (cases "f x < k")
    case False
    then have "\<forall>y \<in> set xs. \<not> f y < k" using Cons.prems by auto
    with False show ?thesis by (simp add: filter_False)
  qed (use Cons in simp)
qed simp

lemma sorted_split:
  "sorted_wrt (<) (map f xs) \<Longrightarrow> xs = filter (\<lambda>x. f x < (k :: int)) xs @ filter (\<lambda>x. \<not> f x < k) xs"
  using sorted_takeWhile_filter [of f xs k] takeWhile_dropWhile_id [of "\<lambda>x. f x < k" xs]
proof (induction xs)
  case (Cons x xs)
  show ?case
  proof (cases "f x < k")
    case False
    then have "\<forall>y \<in> set xs. \<not> f y < k" using Cons.prems by auto
    with False show ?thesis by (simp add: filter_False)
  next
    case True
    with Cons show ?thesis by (simp add: sorted_takeWhile_filter)
  qed
qed simp

text \<open>The nodes with smaller keys on a level, and the last of them or the head.\<close>

definition below :: "(nat \<rightharpoonup> skip_node) \<Rightarrow> int \<Rightarrow> nat \<Rightarrow> nat list \<Rightarrow> nat list" where
  "below h key i as = filter (\<lambda>a. key_of h a < key) (on_level h i as)"

definition beyond :: "(nat \<rightharpoonup> skip_node) \<Rightarrow> int \<Rightarrow> nat \<Rightarrow> nat list \<Rightarrow> nat list" where
  "beyond h key i as = filter (\<lambda>a. \<not> key_of h a < key) (on_level h i as)"

definition pred_at :: "skip_list \<Rightarrow> (nat \<rightharpoonup> skip_node) \<Rightarrow> int \<Rightarrow> nat \<Rightarrow> nat list \<Rightarrow> nat" where
  "pred_at root h key i as = last (sl_head root # below h key i as)"

lemma on_level_sorted: "sorted_wrt (<) (map (key_of h) as) \<Longrightarrow> sorted_wrt (<) (map (key_of h) (on_level h i as))"
  unfolding on_level_def by (induction as) auto

lemma level_split: "sorted_wrt (<) (map (key_of h) as) \<Longrightarrow> on_level h i as = below h key i as @ beyond h key i as"
  unfolding below_def beyond_def by (rule sorted_split [OF on_level_sorted])

lemma below_mono: "i \<le> j \<Longrightarrow> set (below h key j as) \<subseteq> set (below h key i as)"
  by (auto simp: below_def on_level_def)

lemma pred_at_cases: "pred_at root h key i as = sl_head root \<or> pred_at root h key i as \<in> set (below h key i as)"
  unfolding pred_at_def by (cases "below h key i as = []") auto

lemma walk_rep:
  assumes "skip_rep root h as" "i \<le> MAX_LEVEL" "key \<le> INT_MAX" "x = sl_head root \<or> x \<in> set (below h key i as)"
  shows "walk_level h key i x = Some (pred_at root h key i as)"
proof -
  have sorted: "sorted_wrt (<) (map (key_of h) as)" and ring: "linked h i (sl_head root) (on_level h i as) (sl_head root)"
    and heap: "\<forall>a \<in> set (sl_head root # as). h a \<noteq> None" "key_of h (sl_head root) = INT_MAX"
    using assms(1,2) by (auto simp: skip_rep_def)
  note split = level_split [OF sorted, of i key]
  have tw: "takeWhile (\<lambda>y. key_of h y < key) (ys @ beyond h key i as) = ys" if "set ys \<subseteq> set (below h key i as)" for ys
    using that by (subst takeWhile_append2) (auto simp: below_def beyond_def takeWhile_eq_Nil_iff dest: hd_in_set)
  have some: "h y \<noteq> None" if "y \<in> set (on_level h i as)" for y using that heap(1) by (auto simp: on_level_def)
  show ?thesis
  proof (cases "x = sl_head root")
    case True
    have "walk_level h key i x = Some (last (x # takeWhile (\<lambda>y. key_of h y < key) (on_level h i as)))"
      using ring True heap some assms(3) by (intro walk_linked) auto
    then show ?thesis unfolding split tw [OF order_refl] using True by (simp add: pred_at_def)
  next
    case False
    then obtain us vs where b: "below h key i as = us @ x # vs" using assms(4) split_list by metis
    then have "linked h i x (vs @ beyond h key i as) (sl_head root)"
      using ring unfolding split by (simp add: linked_append)
    then have "walk_level h key i x = Some (last (x # takeWhile (\<lambda>y. key_of h y < key) (vs @ beyond h key i as)))"
      using heap some assms(3) by (intro walk_linked) (auto simp: split b)
    moreover have "takeWhile (\<lambda>y. key_of h y < key) (vs @ beyond h key i as) = vs" using b by (intro tw) auto
    ultimately show ?thesis using b by (simp only: pred_at_def) simp
  qed
qed


section \<open>Changing one link\<close>

definition fwd_upd :: "(nat \<rightharpoonup> skip_node) \<Rightarrow> nat \<Rightarrow> nat \<Rightarrow> nat \<Rightarrow> (nat \<rightharpoonup> skip_node)" where
  "fwd_upd h x i y = h(x \<mapsto> (the (h x))\<lparr>sn_forward := (sn_forward (the (h x)))[i := y]\<rparr>)"

text \<open>Two heaps with the same nodes, keys and heights.\<close>

definition same_nodes :: "(nat \<rightharpoonup> skip_node) \<Rightarrow> (nat \<rightharpoonup> skip_node) \<Rightarrow> bool" where
  "same_nodes h h' \<longleftrightarrow> (\<forall>a. (h' a = None) = (h a = None) \<and> (h a \<noteq> None \<longrightarrow> key_of h' a = key_of h a \<and> tall h' a = tall h a))"

lemma same_nodes_trans: "same_nodes h1 h2 \<Longrightarrow> same_nodes h2 h3 \<Longrightarrow> same_nodes h1 h3"
  by (simp add: same_nodes_def)

lemma same_nodesD:
  "same_nodes h h' \<Longrightarrow> (h' a = None) = (h a = None)"
  "same_nodes h h' \<Longrightarrow> h a \<noteq> None \<Longrightarrow> key_of h' a = key_of h a"
  "same_nodes h h' \<Longrightarrow> h a \<noteq> None \<Longrightarrow> tall h' a = tall h a"
  by (auto simp: same_nodes_def)

lemma forward_of_Some: "forward_of h x i = Some y \<longleftrightarrow> h x \<noteq> None \<and> i < tall h x \<and> sn_forward (the (h x)) ! i = y"
  by (cases "h x") (auto simp: forward_of_def aget_def)

lemma forward_of_same: "same_nodes h h' \<Longrightarrow> (forward_of h' x i \<noteq> None) = (forward_of h x i \<noteq> None)"
  by (auto simp: forward_of_Some same_nodes_def)

lemma set_forward_ok:
  assumes "h x \<noteq> None" "i < tall h x"
  shows "set_forward h x i y = Some (fwd_upd h x i y)" "same_nodes h (fwd_upd h x i y)"
    "forward_of (fwd_upd h x i y) a j = (if a = x \<and> j = i then Some y else forward_of h a j)"
  using assms by (auto simp: set_forward_def fwd_upd_def aput_def same_nodes_def forward_of_def aget_def)

lemma link_levels_ok:
  assumes "distinct is" "h x \<noteq> None"
    "\<And>i. i \<in> set is \<Longrightarrow> update_at update i = Some (u i) \<and> u i \<noteq> x \<and> forward_of h (u i) i \<noteq> None \<and> i < tall h x"
  shows "\<exists>h'. link_levels is x update h = Some h' \<and> same_nodes h h' \<and>
    (\<forall>a j. forward_of h' a j =
       (if j \<in> set is then if a = x then forward_of h (u j) j else if a = u j then Some x else forward_of h a j
        else forward_of h a j))"
  using assms
proof (induction "is" arbitrary: h)
  case Nil
  then show ?case by (simp add: same_nodes_def)
next
  case (Cons i "is")
  have i: "update_at update i = Some (u i)" "u i \<noteq> x" "i < tall h x" using Cons.prems(3) [of i] by simp_all
  obtain y where y: "forward_of h (u i) i = Some y" using Cons.prems(3) [of i] by auto
  let ?h1 = "fwd_upd h x i y"
  note s1 = set_forward_ok [of h x i y, OF Cons.prems(2) i(3)]
  have u: "?h1 (u i) \<noteq> None" "i < tall ?h1 (u i)" using y i(2) by (auto simp: forward_of_Some fwd_upd_def)
  let ?h2 = "fwd_upd ?h1 (u i) i x"
  note s2 = set_forward_ok [of ?h1 "u i" i x, OF u]
  have same: "same_nodes h ?h2" using s1(2) s2(2) by (rule same_nodes_trans)
  have "\<exists>h'. link_levels is x update ?h2 = Some h' \<and> same_nodes ?h2 h' \<and>
    (\<forall>a j. forward_of h' a j =
       (if j \<in> set is then if a = x then forward_of ?h2 (u j) j else if a = u j then Some x else forward_of ?h2 a j
        else forward_of ?h2 a j))"
  proof (rule Cons.IH)
    show "distinct is" "?h2 x \<noteq> None" using Cons.prems(1,2) same by (auto simp: same_nodes_def)
    show "update_at update j = Some (u j) \<and> u j \<noteq> x \<and> forward_of ?h2 (u j) j \<noteq> None \<and> j < tall ?h2 x" if "j \<in> set is" for j
      using Cons.prems(2) Cons.prems(3) [of j] that same forward_of_same [OF same, of "u j" j] by (simp add: same_nodes_def)
  qed
  then obtain h' where h': "link_levels is x update ?h2 = Some h'" "same_nodes ?h2 h'"
    "\<And>a j. forward_of h' a j =
       (if j \<in> set is then if a = x then forward_of ?h2 (u j) j else if a = u j then Some x else forward_of ?h2 a j
        else forward_of ?h2 a j)"
    by blast
  have "link_levels (i # is) x update h = Some h'" using i(1) y s1(1) s2(1) h'(1) by simp
  moreover have "same_nodes h h'" using same h'(2) by (rule same_nodes_trans)
  moreover have "forward_of h' a j =
       (if j \<in> set (i # is) then if a = x then forward_of h (u j) j else if a = u j then Some x else forward_of h a j
        else forward_of h a j)" for a j
    using Cons.prems(1) i(2) y unfolding h'(3) s1(3) s2(3) by auto
  ultimately show ?case by blast
qed

lemma unlink_levels_ok:
  assumes "\<And>i. k \<le> i \<Longrightarrow> i < n \<Longrightarrow> update_at update i = Some (u i) \<and> u i \<noteq> p \<and> forward_of h (u i) i \<noteq> None \<and>
      (forward_of h (u i) i = Some p \<longleftrightarrow> i < tall h p)" "h p \<noteq> None" "k \<le> n"
  shows "\<exists>h'. unlink_levels [k..<n] p update h = Some h' \<and> same_nodes h h' \<and>
    (\<forall>a j. forward_of h' a j =
       (if k \<le> j \<and> j < n \<and> j < tall h p \<and> a = u j then forward_of h p j else forward_of h a j))"
  using assms
proof (induction "n - k" arbitrary: k h)
  case 0
  then show ?case by (auto simp: same_nodes_def)
next
  case (Suc d)
  then have lt: "k < n" by simp
  have k: "update_at update k = Some (u k)" "u k \<noteq> p" using Suc.prems(1) [of k] lt by simp_all
  obtain y where y: "forward_of h (u k) k = Some y" using Suc.prems(1) [of k] lt by auto
  show ?case
  proof (cases "k < tall h p")
    case False
    then have "y \<noteq> p" using Suc.prems(1) [of k] lt y by simp
    then have "unlink_levels [k..<n] p update h = Some h" using k y lt by (simp add: upt_conv_Cons)
    with False show ?thesis by (auto simp: same_nodes_def)
  next
    case True
    then have yp: "y = p" using Suc.prems(1) [of k] lt y by simp
    obtain z where z: "forward_of h p k = Some z" using True Suc.prems(2) by (auto simp: forward_of_Some)
    have u: "h (u k) \<noteq> None" "k < tall h (u k)" using y by (auto simp: forward_of_Some)
    let ?h1 = "fwd_upd h (u k) k z"
    note s1 = set_forward_ok [of h "u k" k z, OF u]
    have "\<exists>h'. unlink_levels [Suc k..<n] p update ?h1 = Some h' \<and> same_nodes ?h1 h' \<and>
      (\<forall>a j. forward_of h' a j =
         (if Suc k \<le> j \<and> j < n \<and> j < tall ?h1 p \<and> a = u j then forward_of ?h1 p j else forward_of ?h1 a j))"
    proof (rule Suc.hyps(1))
      show "d = n - Suc k" "Suc k \<le> n" using Suc.hyps(2) lt by simp_all
      show "?h1 p \<noteq> None" using Suc.prems(2) s1(2) by (simp add: same_nodes_def)
      show "update_at update i = Some (u i) \<and> u i \<noteq> p \<and> forward_of ?h1 (u i) i \<noteq> None \<and>
          (forward_of ?h1 (u i) i = Some p \<longleftrightarrow> i < tall ?h1 p)" if "Suc k \<le> i" "i < n" for i
        using Suc.prems(1) [of i] Suc.prems(2) that same_nodesD(3) [OF s1(2), of p] unfolding s1(3) by simp
    qed
    then obtain h' where h': "unlink_levels [Suc k..<n] p update ?h1 = Some h'" "same_nodes ?h1 h'"
      "\<And>a j. forward_of h' a j =
         (if Suc k \<le> j \<and> j < n \<and> j < tall ?h1 p \<and> a = u j then forward_of ?h1 p j else forward_of ?h1 a j)"
      by blast
    have "unlink_levels [k..<n] p update h = Some h'" using lt k(1) y yp z s1(1) h'(1) by (simp add: upt_conv_Cons)
    moreover have "same_nodes h h'" using s1(2) h'(2) by (rule same_nodes_trans)
    moreover have "forward_of h' a j =
       (if k \<le> j \<and> j < n \<and> j < tall h p \<and> a = u j then forward_of h p j else forward_of h a j)" for a j
      using lt True z k(2) same_nodesD(3) [OF s1(2) Suc.prems(2)] unfolding h'(3) s1(3) by (cases "j = k") auto
    ultimately show ?thesis by blast
  qed
qed

text \<open>A node put behind the last of \<open>us\<close>, and taken out again.\<close>

lemma linked_insert:
  "linked h i a (us @ vs) z \<Longrightarrow> distinct (a # us @ vs) \<Longrightarrow>
   (\<And>b. b \<in> set (a # us @ vs) \<Longrightarrow> b \<noteq> last (a # us) \<Longrightarrow> forward_of h' b i = forward_of h b i) \<Longrightarrow>
   forward_of h' (last (a # us)) i = Some x \<Longrightarrow> forward_of h' x i = forward_of h (last (a # us)) i \<Longrightarrow>
   linked h' i a (us @ x # vs) z"
proof (induction us arbitrary: a)
  case Nil
  have "linked h' i b bs z = linked h i b bs z" if "set (b # bs) \<subseteq> set vs" for b bs
    using that Nil(2) by (intro linked_cong Nil(3)) auto
  with Nil(1,4,5) show ?case by (cases vs) auto
next
  case (Cons u us)
  have "last (u # us) \<in> set (u # us)" by (rule last_in_set) simp
  then have "a \<noteq> last (a # u # us)" using Cons.prems(2) by auto
  then have "forward_of h' a i = Some u" using Cons.prems(1) Cons.prems(3) [of a] by simp
  moreover have "linked h' i u (us @ x # vs) z"
    using Cons.prems by (intro Cons.IH) auto
  ultimately show ?case by simp
qed

lemma linked_remove:
  "linked h i a (us @ p # vs) z \<Longrightarrow> distinct (a # us @ p # vs) \<Longrightarrow>
   (\<And>b. b \<in> set (a # us @ vs) \<Longrightarrow> b \<noteq> last (a # us) \<Longrightarrow> forward_of h' b i = forward_of h b i) \<Longrightarrow>
   forward_of h' (last (a # us)) i = forward_of h p i \<Longrightarrow> linked h' i a (us @ vs) z"
proof (induction us arbitrary: a)
  case Nil
  have "linked h' i b bs z = linked h i b bs z" if "set (b # bs) \<subseteq> set vs" for b bs
    using that Nil(2) by (intro linked_cong Nil(3)) auto
  with Nil(1,4) show ?case by (cases vs) auto
next
  case (Cons u us)
  have "last (u # us) \<in> set (u # us)" by (rule last_in_set) simp
  then have "a \<noteq> last (a # u # us)" using Cons.prems(2) by auto
  then have "forward_of h' a i = Some u" using Cons.prems(1) Cons.prems(3) [of a] by simp
  moreover have "linked h' i u (us @ vs) z"
    using Cons.prems by (intro Cons.IH) auto
  ultimately show ?case by simp
qed


section \<open>Finding\<close>

lemma skip_repD:
  assumes "skip_rep root h as"
  shows "sl_level root \<le> MAX_LEVEL" "sl_head root \<notin> set as" "h (sl_head root) \<noteq> None"
    "\<And>a. a \<in> set as \<Longrightarrow> h a \<noteq> None" "key_of h (sl_head root) = INT_MAX" "tall h (sl_head root) = MAX_LEVEL + 1"
    "\<And>a. a \<in> set as \<Longrightarrow> key_of h a < INT_MAX" "\<And>a. a \<in> set as \<Longrightarrow> 0 < tall h a"
    "\<And>a. a \<in> set as \<Longrightarrow> tall h a \<le> sl_level root + 1" "sorted_wrt (<) (map (key_of h) as)"
    "\<And>i. i \<le> MAX_LEVEL \<Longrightarrow> linked h i (sl_head root) (on_level h i as) (sl_head root)" "distinct (sl_head root # as)"
proof -
  have "sorted_wrt (<) (map (key_of h) as) \<Longrightarrow> distinct as" by (induction as) auto
  with assms show "sl_level root \<le> MAX_LEVEL" "sl_head root \<notin> set as" "h (sl_head root) \<noteq> None"
    "\<And>a. a \<in> set as \<Longrightarrow> h a \<noteq> None" "key_of h (sl_head root) = INT_MAX" "tall h (sl_head root) = MAX_LEVEL + 1"
    "\<And>a. a \<in> set as \<Longrightarrow> key_of h a < INT_MAX" "\<And>a. a \<in> set as \<Longrightarrow> 0 < tall h a"
    "\<And>a. a \<in> set as \<Longrightarrow> tall h a \<le> sl_level root + 1" "sorted_wrt (<) (map (key_of h) as)"
    "\<And>i. i \<le> MAX_LEVEL \<Longrightarrow> linked h i (sl_head root) (on_level h i as) (sl_head root)" "distinct (sl_head root # as)"
    by (simp_all add: skip_rep_def)
qed

lemma on_level_zero: "skip_rep root h as \<Longrightarrow> on_level h 0 as = as"
  using skip_repD(8) by (auto simp: on_level_def filter_id_conv)

lemma on_level_top: "skip_rep root h as \<Longrightarrow> sl_level root < i \<Longrightarrow> on_level h i as = []"
  using skip_repD(9) by (fastforce simp: on_level_def filter_empty_conv)

lemma linked_last: "linked h i a (us @ vs) z \<Longrightarrow> forward_of h (last (a # us)) i = Some (hd (vs @ [z]))"
  by (induction us arbitrary: a) (auto dest: linked_hd)

lemma pred_forward:
  assumes "skip_rep root h as" "i \<le> MAX_LEVEL"
  shows "forward_of h (pred_at root h key i as) i = Some (hd (beyond h key i as @ [sl_head root]))"
  using linked_last skip_repD(11) [OF assms] level_split [OF skip_repD(10) [OF assms(1)], of i key]
  unfolding pred_at_def by metis

lemma find_update_rep:
  assumes "skip_rep root h as" "key \<le> INT_MAX"
  shows "i \<le> MAX_LEVEL \<Longrightarrow> i < length update \<Longrightarrow> x = sl_head root \<or> x \<in> set (below h key i as) \<Longrightarrow>
    \<exists>upd. find_update h key i x update = Some (pred_at root h key 0 as, upd) \<and> length upd = length update \<and>
      (\<forall>j \<le> i. update_at upd j = Some (pred_at root h key j as)) \<and> (\<forall>j > i. update_at upd j = update_at update j)"
proof (induction i arbitrary: x update)
  case 0
  note w = walk_rep [OF assms(1) _ assms(2) 0(3)]
  from 0 show ?case by (auto simp: w aput_def update_at_def aget_def)
next
  case (Suc i)
  note w = walk_rep [OF assms(1) Suc.prems(1) assms(2) Suc.prems(3)]
  let ?p = "pred_at root h key (Suc i) as" and ?update = "update[Suc i := Some (pred_at root h key (Suc i) as)]"
  have p: "?p = sl_head root \<or> ?p \<in> set (below h key i as)"
    using pred_at_cases [of root h key "Suc i" as] below_mono [of i "Suc i" h key as] by auto
  obtain upd where upd: "find_update h key i ?p ?update = Some (pred_at root h key 0 as, upd)" "length upd = length ?update"
    "\<And>j. j \<le> i \<Longrightarrow> update_at upd j = Some (pred_at root h key j as)" "\<And>j. i < j \<Longrightarrow> update_at upd j = update_at ?update j"
    using Suc.IH [of ?update ?p] Suc.prems(1,2) p by auto
  have "update_at upd j = Some (pred_at root h key j as)" if "j \<le> Suc i" for j
    using that upd(3,4) [of j] Suc.prems(2) by (cases "j = Suc i") (auto simp: update_at_def aget_def)
  moreover have "update_at upd j = update_at update j" if "Suc i < j" for j
    using that upd(4) [of j] by (auto simp: update_at_def aget_def)
  ultimately show ?case using w upd(1,2) Suc.prems(2) by (auto simp: aput_def)
qed

lemma find_levels_rep:
  assumes "skip_rep root h as" "key \<le> INT_MAX"
  shows "i \<le> MAX_LEVEL \<Longrightarrow> x = sl_head root \<or> x \<in> set (below h key i as) \<Longrightarrow>
    find_levels h key i x = Some (pred_at root h key 0 as)"
proof (induction i arbitrary: x)
  case 0
  then show ?case using walk_rep [OF assms(1) _ assms(2)] by simp
next
  case (Suc i)
  have "pred_at root h key (Suc i) as = sl_head root \<or> pred_at root h key (Suc i) as \<in> set (below h key i as)"
    using pred_at_cases [of root h key "Suc i" as] below_mono [of i "Suc i" h key as] by auto
  then show ?case using Suc walk_rep [OF assms(1) Suc.prems(1) assms(2) Suc.prems(2)] by simp
qed

text \<open>The node behind the predecessor has the key exactly when the key is there.\<close>

lemma next_node:
  assumes "skip_rep root h as" "key < INT_MAX" "y = hd (beyond h key 0 as @ [sl_head root])"
  shows "h y \<noteq> None" "key_of h y = key \<longleftrightarrow> key \<in> key_of h ` set as"
    "key_of h y = key \<Longrightarrow> beyond h key 0 as = y # tl (beyond h key 0 as) \<and> y \<in> set as"
proof -
  note rep = skip_repD [OF assms(1)]
  have as: "as = below h key 0 as @ beyond h key 0 as"
    using level_split [OF rep(10), of 0] on_level_zero [OF assms(1)] by simp
  have "set (beyond h key 0 as) \<subseteq> set as" by (auto simp: beyond_def on_level_def)
  then have nodes: "y = sl_head root \<and> beyond h key 0 as = [] \<or> beyond h key 0 as = y # tl (beyond h key 0 as) \<and> y \<in> set as"
    using assms(3) by (cases "beyond h key 0 as") auto
  then show "h y \<noteq> None" using rep(3,4) by auto
  show "key_of h y = key \<Longrightarrow> beyond h key 0 as = y # tl (beyond h key 0 as) \<and> y \<in> set as"
    using nodes rep(5) assms(2) by auto
  show "key_of h y = key \<longleftrightarrow> key \<in> key_of h ` set as"
  proof
    assume "key_of h y = key"
    then show "key \<in> key_of h ` set as" using nodes rep(5) assms(2) by auto
  next
    assume "key \<in> key_of h ` set as"
    then obtain a where a: "a \<in> set as" "key_of h a = key" by auto
    then have b: "a \<in> set (beyond h key 0 as)" using on_level_zero [OF assms(1)] by (simp add: beyond_def)
    then have y: "beyond h key 0 as = y # tl (beyond h key 0 as)" using nodes by auto
    have "sorted_wrt (<) (map (key_of h) (beyond h key 0 as))" using rep(10) by (subst (asm) as) (simp add: sorted_wrt_append)
    then have "a = y \<or> key_of h y < key_of h a" using b by (subst (asm) y, subst (asm) (2) y) auto
    moreover have "\<not> key_of h y < key" using y by (metis (no_types, lifting) beyond_def filter_eq_ConsD)
    ultimately show "key_of h y = key" using a(2) by auto
  qed
qed


section \<open>Inserting\<close>

lemma rand_level_le: "rand_level rnd \<le> MAX_LEVEL"
proof -
  have "rand_level_from rnd l \<le> max l MAX_LEVEL" for l
  proof (induction rnd l rule: rand_level_from.induct)
    case (1 rnd l)
    then show ?case by (subst rand_level_from.simps) (auto simp: max_def split: if_splits)
  qed
  from this [of 0] show ?thesis by (simp add: rand_level_def)
qed

lemma fill_update_ok:
  "\<forall>i \<in> set is. i < length upd \<Longrightarrow> \<exists>upd'. fill_update is a upd = Some upd' \<and>
     (\<forall>j. update_at upd' j = (if j \<in> set is then Some a else update_at upd j))"
proof (induction "is" arbitrary: upd)
  case (Cons i "is")
  let ?upd = "upd[i := Some a]"
  have "\<forall>j \<in> set is. j < length ?upd" using Cons.prems by simp
  from Cons.IH [OF this] obtain upd' where upd': "fill_update is a ?upd = Some upd'"
    "\<And>j. update_at upd' j = (if j \<in> set is then Some a else update_at ?upd j)" by blast
  have "update_at ?upd j = (if j = i then Some a else update_at upd j)" for j
    using Cons.prems by (auto simp: update_at_def aget_def)
  then show ?case using upd' Cons.prems by (auto simp: aput_def)
qed simp

lemma level_part:
  assumes "skip_rep root h as"
  shows "filter (\<lambda>a. i < tall h a) (below h key 0 as) = below h key i as"
    "filter (\<lambda>a. i < tall h a) (beyond h key 0 as) = beyond h key i as"
  using on_level_zero [OF assms] by (simp_all add: below_def beyond_def on_level_def conj_commute)

lemma rep_insert:
  assumes "skip_rep root h as" "key < INT_MAX" "key \<notin> key_of h ` set as" "h x = None" "lev \<le> MAX_LEVEL"
    "h0 = h(x \<mapsto> \<lparr>sn_key = key, sn_forward = fs\<rparr>)" "length fs = lev + 1" "same_nodes h0 h'"
    "\<And>a j. forward_of h' a j =
      (if j \<le> lev then if a = x then forward_of h0 (pred_at root h key j as) j
                      else if a = pred_at root h key j as then Some x else forward_of h0 a j
       else forward_of h0 a j)"
  shows "skip_rep (root\<lparr>sl_level := max (sl_level root) lev\<rparr>) h' (below h key 0 as @ x # beyond h key 0 as)"
proof -
  note rep = skip_repD [OF assms(1)]
  have as: "as = below h key 0 as @ beyond h key 0 as"
    using level_split [OF rep(10), of 0] on_level_zero [OF assms(1)] by simp
  then have parts: "set (below h key 0 as) \<subseteq> set as" "set (beyond h key 0 as) \<subseteq> set as" by (metis set_append Un_upper1 Un_upper2)+
  have old: "a \<noteq> x" "h0 a = h a" "key_of h' a = key_of h a" "tall h' a = tall h a" "h' a \<noteq> None" if "a \<in> set (sl_head root # as)" for a
  proof -
    have "h a \<noteq> None" using that rep(3,4) by (metis set_ConsD)
    then show "a \<noteq> x" using assms(4) by metis
    then show "h0 a = h a" by (simp add: assms(6))
    then show "key_of h' a = key_of h a" "tall h' a = tall h a" "h' a \<noteq> None"
      using same_nodesD [OF assms(8), of a] that rep(3,4) by auto
  qed
  have new: "key_of h' x = key" "tall h' x = lev + 1" "h' x \<noteq> None"
    using same_nodesD [OF assms(8), of x] assms(7) by (simp_all add: assms(6))
  have level: "on_level h' i (below h key 0 as @ x # beyond h key 0 as) =
      below h key i as @ (if i \<le> lev then [x] else []) @ beyond h key i as" for i
  proof -
    have "filter (\<lambda>a. i < tall h' a) (below h key 0 as) = filter (\<lambda>a. i < tall h a) (below h key 0 as)"
      "filter (\<lambda>a. i < tall h' a) (beyond h key 0 as) = filter (\<lambda>a. i < tall h a) (beyond h key 0 as)"
      using old(4) parts by (auto intro!: filter_cong)
    then show ?thesis using new(2) level_part [OF assms(1)] by (auto simp: on_level_def less_Suc_eq_le)
  qed
  have forward0: "forward_of h0 a j = forward_of h a j" if "a \<in> set (sl_head root # as)" for a j
    using old(2) [OF that] by (simp add: forward_of_def)
  have ring: "linked h' i (sl_head root) (on_level h' i (below h key 0 as @ x # beyond h key 0 as)) (sl_head root)" if "i \<le> MAX_LEVEL" for i
  proof -
    have l: "linked h i (sl_head root) (below h key i as @ beyond h key i as) (sl_head root)"
      using rep(11) [OF that] level_split [OF rep(10), of i key] by simp
    have sub: "set (below h key i as @ beyond h key i as) \<subseteq> set as" by (auto simp: below_def beyond_def on_level_def)
    have d: "distinct (sl_head root # below h key i as @ beyond h key i as)"
      using rep(12) level_split [OF rep(10), of i key] by (auto simp: on_level_def simp flip: level_split [OF rep(10)])
    have fw: "forward_of h' b i = forward_of h b i"
      if "b \<in> set (sl_head root # below h key i as @ beyond h key i as)" "b \<noteq> pred_at root h key i as \<or> lev < i" for b
    proof -
      have "b \<in> set (sl_head root # as)" using that(1) sub by auto
      then show ?thesis using that(2) old(1) forward0 assms(9) [of b i] by auto
    qed
    show ?thesis
    proof (cases "i \<le> lev")
      case True
      have u: "pred_at root h key i as \<in> set (sl_head root # as)"
        using pred_at_cases [of root h key i as] sub by auto
      have "linked h' i (sl_head root) (below h key i as @ x # beyond h key i as) (sl_head root)"
        using True fw old(1) [OF u] forward0 [OF u] assms(9) [of "pred_at root h key i as" i] assms(9) [of x i]
        by (intro linked_insert [OF l d, folded pred_at_def]) auto
      then show ?thesis using True by (simp add: level)
    next
      case False
      then have "linked h' i (sl_head root) (below h key i as @ beyond h key i as) (sl_head root)"
        using l fw linked_cong [of "sl_head root" "below h key i as @ beyond h key i as" h' i h] by auto
      then show ?thesis using False by (simp add: level)
    qed
  qed
  have sorted: "sorted_wrt (<) (map (key_of h') (below h key 0 as @ x # beyond h key 0 as))"
  proof -
    have keys: "map (key_of h') (below h key 0 as @ x # beyond h key 0 as) =
        map (key_of h) (below h key 0 as) @ key # map (key_of h) (beyond h key 0 as)"
      using old(3) parts new(1) by auto
    have "\<forall>a \<in> set (below h key 0 as). key_of h a < key" by (simp add: below_def)
    moreover have "\<forall>a \<in> set (beyond h key 0 as). key < key_of h a"
      using assms(3) parts by (force simp: beyond_def)
    moreover have "sorted_wrt (<) (map (key_of h) (below h key 0 as @ beyond h key 0 as))"
      using rep(10) by (simp only: as [symmetric])
    ultimately show ?thesis unfolding keys by (simp add: sorted_wrt_append)
  qed
  have heads: "sl_head root \<noteq> x" "h' (sl_head root) \<noteq> None" "key_of h' (sl_head root) = INT_MAX"
    "tall h' (sl_head root) = MAX_LEVEL + 1"
    using old [of "sl_head root"] rep(5,6) by simp_all
  have nodes: "h' a \<noteq> None \<and> key_of h' a < INT_MAX \<and> 0 < tall h' a \<and> tall h' a \<le> max (sl_level root) lev + 1"
    if "a \<in> set (below h key 0 as @ x # beyond h key 0 as)" for a
  proof (cases "a = x")
    case False
    then have a: "a \<in> set as" using that parts by auto
    then show ?thesis using old [of a] rep(7,8) rep(9) [OF a] by simp
  qed (use new assms(2) in simp)
  have "sl_head root \<notin> set (below h key 0 as @ x # beyond h key 0 as)" using heads(1) rep(2) parts by auto
  then show ?thesis
    unfolding skip_rep_def using rep(1) assms(5) heads nodes sorted ring by simp
qed


text \<open>The list as a set of keys; the allocator has handed out only smaller addresses.\<close>

definition skip_set :: "skip_list \<Rightarrow> smem \<Rightarrow> int set \<Rightarrow> bool" where
  "skip_set root m K \<longleftrightarrow>
     (\<exists>as. skip_rep root (fst m) as \<and> K = key_of (fst m) ` set as) \<and> (\<forall>a \<ge> snd m. fst m a = None)"

text \<open>No node of the top level has a smaller key: then raising the level is harmless.\<close>

definition top_clear :: "skip_list \<Rightarrow> smem \<Rightarrow> int \<Rightarrow> bool" where
  "top_clear root m key \<longleftrightarrow>
     (case forward_of (fst m) (sl_head root) (sl_level root) of
        None \<Rightarrow> False | Some y \<Rightarrow> key \<le> key_of (fst m) y)"

lemma top_clear_below:
  assumes "skip_rep root (fst m) as" "top_clear root m key" "sl_level root \<le> i"
  shows "below (fst m) key i as = []"
proof -
  let ?on = "on_level (fst m) (sl_level root) as"
  have "forward_of (fst m) (sl_head root) (sl_level root) = Some (hd (?on @ [sl_head root]))"
    using skip_repD(11) [OF assms(1) skip_repD(1) [OF assms(1)]] by (rule linked_hd)
  then have le: "key \<le> key_of (fst m) (hd (?on @ [sl_head root]))" using assms(2) by (simp add: top_clear_def)
  have "sorted_wrt (<) (map (key_of (fst m)) ?on)" by (rule on_level_sorted [OF skip_repD(10) [OF assms(1)]])
  then have "\<forall>a \<in> set ?on. \<not> key_of (fst m) a < key" using le by (cases ?on) auto
  then have "below (fst m) key (sl_level root) as = []" by (simp add: below_def filter_empty_conv)
  then show ?thesis using below_mono [OF assms(3), of "fst m" key as] by simp
qed

lemma insert_op:
  assumes "skip_set root m K" "key < INT_MAX" "\<And>a. junk a \<noteq> None"
    "rand_level rnd \<le> sl_level root \<or> top_clear root m key"
  shows "\<exists>root' m'. skip_list_insert junk rnd root key m = Some (root', m') \<and> skip_set root' m' (insert key K)"
proof -
  obtain h x where m: "m = (h, x)" by (cases m)
  obtain as where rep: "skip_rep root h as" and K: "K = key_of h ` set as" and fresh: "\<forall>a \<ge> x. h a = None"
    using assms(1) by (auto simp: skip_set_def m)
  have le: "key \<le> INT_MAX" using assms(2) by simp
  obtain upd where upd: "find_update h key (sl_level root) (sl_head root) (replicate (MAX_LEVEL + 1) None) =
      Some (pred_at root h key 0 as, upd)" "length upd = MAX_LEVEL + 1"
    "\<And>j. j \<le> sl_level root \<Longrightarrow> update_at upd j = Some (pred_at root h key j as)"
    using find_update_rep [OF rep le, of "sl_level root" "replicate (MAX_LEVEL + 1) None" "sl_head root"]
      skip_repD(1) [OF rep] by (auto simp: less_Suc_eq_le)
  define y where "y = hd (beyond h key 0 as @ [sl_head root])"
  have fw: "forward_of h (pred_at root h key 0 as) 0 = Some y" using pred_forward [OF rep, of 0 key] by (simp add: y_def)
  note y = next_node [OF rep assms(2) y_def]
  then obtain nd where nd: "h y = Some nd" by auto
  show ?thesis
  proof (cases "key \<in> K")
    case True
    then have "skip_list_insert junk rnd root key m = Some (root, m)"
      using upd(1) fw nd y(2) by (simp add: skip_list_insert_def m K)
    then show ?thesis using assms(1) True by (auto simp: insert_absorb)
  next
    case False
    let ?lev = "rand_level rnd" and ?L = "sl_level root"
    let ?root = "root\<lparr>sl_level := max ?L ?lev\<rparr>"
    obtain upd' where upd': "(if ?L < ?lev
          then do { update \<leftarrow> fill_update [?L..<?lev + 1] (sl_head root) upd; Some (root\<lparr>sl_level := ?lev\<rparr>, update) }
          else Some (root, upd)) = Some (?root, upd')"
      "\<And>j. j \<le> ?lev \<Longrightarrow> update_at upd' j = Some (pred_at root h key j as)"
    proof (cases "?L < ?lev")
      case True
      then have "top_clear root m key" using assms(4) by simp
      then have head: "pred_at root h key j as = sl_head root" if "?L \<le> j" for j
        using top_clear_below [of root m as key j] rep that by (simp add: m pred_at_def)
      have "\<forall>i \<in> set [?L..<?lev + 1]. i < length upd" using rand_level_le [of rnd] upd(2) by auto
      from fill_update_ok [OF this, of "sl_head root"] obtain upd' where
        "fill_update [?L..<?lev + 1] (sl_head root) upd = Some upd'" and
        u: "\<And>j. update_at upd' j = (if j \<in> set [?L..<?lev + 1] then Some (sl_head root) else update_at upd j)" by blast
      moreover have "update_at upd' j = Some (pred_at root h key j as)" if "j \<le> ?lev" for j
        using that head [of j] upd(3) [of j] u [of j] by (cases "?L \<le> j") auto
      ultimately show thesis using that [of upd'] True by (simp add: max_def del: upt_Suc)
    qed (use that [of upd] upd(3) in \<open>simp add: max_def\<close>)
    obtain g where g: "junk x = Some g" using assms(3) [of x] by auto
    let ?nd = "\<lparr>sn_key = key, sn_forward = map g [0..<?lev + 1]\<rparr>"
    let ?h0 = "h(x \<mapsto> ?nd)"
    have hx: "h x = None" using fresh by simp
    have "\<exists>h'. link_levels [0..<?lev + 1] x upd' ?h0 = Some h' \<and> same_nodes ?h0 h' \<and>
      (\<forall>a j. forward_of h' a j = (if j \<in> set [0..<?lev + 1]
         then if a = x then forward_of ?h0 (pred_at root h key j as) j
              else if a = pred_at root h key j as then Some x else forward_of ?h0 a j
         else forward_of ?h0 a j))"
    proof (rule link_levels_ok)
      fix i assume "i \<in> set [0..<?lev + 1]"
      then have i: "i \<le> ?lev" "i \<le> MAX_LEVEL" using rand_level_le [of rnd] by auto
      have f: "forward_of h (pred_at root h key i as) i \<noteq> None" using pred_forward [OF rep i(2), of key] by simp
      then have "pred_at root h key i as \<noteq> x" using hx by (auto simp: forward_of_Some)
      then show "update_at upd' i = Some (pred_at root h key i as) \<and> pred_at root h key i as \<noteq> x \<and>
          forward_of ?h0 (pred_at root h key i as) i \<noteq> None \<and> i < tall ?h0 x"
        using upd'(2) [OF i(1)] f i(1) by (simp add: forward_of_def)
    qed simp_all
    then obtain h' where h': "link_levels [0..<?lev + 1] x upd' ?h0 = Some h'" "same_nodes ?h0 h'"
      "\<And>a j. forward_of h' a j = (if j \<in> set [0..<?lev + 1]
         then if a = x then forward_of ?h0 (pred_at root h key j as) j
              else if a = pred_at root h key j as then Some x else forward_of ?h0 a j
         else forward_of ?h0 a j)"
      by blast
    have result: "skip_list_insert junk rnd root key m = Some (?root, (h', Suc x))"
      using upd(1) fw nd y(2) False upd'(1) g h'(1)
      by (simp add: skip_list_insert_def skip_list_node_alloc_def m K Let_def del: upt_Suc)
    have "skip_rep ?root h' (below h key 0 as @ x # beyond h key 0 as)"
      using False h'(3) by (intro rep_insert [OF rep assms(2) _ hx rand_level_le refl _ h'(2)]) (auto simp: K)
    moreover have "key_of h' ` set (below h key 0 as @ x # beyond h key 0 as) = insert key K"
    proof -
      have "set (below h key 0 as @ beyond h key 0 as) = set as"
        using level_split [OF skip_repD(10) [OF rep], of 0 key] on_level_zero [OF rep] by metis
      moreover have "key_of h' a = key_of h a" if "a \<in> set as" for a
      proof -
        have "h a \<noteq> None" "a \<noteq> x" using skip_repD(4) [OF rep that] hx by auto
        then show ?thesis using same_nodesD(2) [OF h'(2), of a] by simp
      qed
      moreover have "key_of h' x = key" using same_nodesD(2) [OF h'(2), of x] by simp
      ultimately show ?thesis unfolding K by auto
    qed
    moreover have "\<forall>a \<ge> Suc x. h' a = None" using fresh same_nodesD(1) [OF h'(2)] by auto
    ultimately have "skip_set ?root (h', Suc x) (insert key K)" unfolding skip_set_def by (metis fst_conv snd_conv)
    with result show ?thesis by blast
  qed
qed


section \<open>Removing\<close>

lemma lower_level_ok:
  "(\<And>j. j \<le> i \<Longrightarrow> forward_of h a j \<noteq> None) \<Longrightarrow>
     \<exists>l \<le> i. lower_level h a i = Some l \<and> (\<forall>j. l < j \<and> j \<le> i \<longrightarrow> forward_of h a j = Some a)"
proof (induction i)
  case (Suc i)
  obtain y where y: "forward_of h a (Suc i) = Some y" using Suc.prems [of "Suc i"] by auto
  show ?case
  proof (cases "y = a")
    case True
    obtain l where "l \<le> i" "lower_level h a i = Some l" "\<forall>j. l < j \<and> j \<le> i \<longrightarrow> forward_of h a j = Some a"
      using Suc by fastforce
    with True y show ?thesis by (intro exI [of _ l]) (auto simp: le_Suc_eq)
  qed (use y in auto)
qed simp

lemma rep_remove:
  assumes "skip_rep root h as" "beyond h key 0 as = p # ps" "same_nodes h h'" "h'' = h'(p := None)"
    "\<And>a j. forward_of h' a j =
      (if j \<le> sl_level root \<and> j < tall h p \<and> a = pred_at root h key j as then forward_of h p j else forward_of h a j)"
    "level \<le> sl_level root"
    "\<And>j. level < j \<Longrightarrow> j \<le> sl_level root \<Longrightarrow> forward_of h'' (sl_head root) j = Some (sl_head root)"
  shows "skip_rep (root\<lparr>sl_level := level\<rparr>) h'' (below h key 0 as @ ps)"
proof -
  note rep = skip_repD [OF assms(1)]
  have as: "as = below h key 0 as @ p # ps"
    using level_split [OF rep(10), of 0 key] on_level_zero [OF assms(1)] assms(2) by simp
  have parts: "set (below h key 0 as @ ps) \<subseteq> set as" "p \<in> set as" "p \<notin> set (below h key 0 as @ ps)" "p \<noteq> sl_head root"
    using rep(2,12) arg_cong [OF as, of set] arg_cong [OF as, of distinct] by auto
  have old: "h'' a \<noteq> None" "key_of h'' a = key_of h a" "tall h'' a = tall h a" "forward_of h'' a j = forward_of h' a j"
    if "a \<in> set (sl_head root # below h key 0 as @ ps)" for a j
  proof -
    have "a \<in> set (sl_head root # as)" "a \<noteq> p" using that parts by auto
    then have a: "a \<noteq> p" "h a \<noteq> None" using rep(3,4) by (simp_all, metis)
    then show "h'' a \<noteq> None" "key_of h'' a = key_of h a" "tall h'' a = tall h a" "forward_of h'' a j = forward_of h' a j"
      using same_nodesD [OF assms(3), of a] by (simp_all add: assms(4) forward_of_def)
  qed
  define rest where "rest i = filter (\<lambda>a. i < tall h a) ps" for i
  have split: "beyond h key i as = (if i < tall h p then [p] else []) @ rest i" for i
    using level_part(2) [OF assms(1), of i key, symmetric] assms(2) by (simp add: rest_def)
  have level: "on_level h'' i (below h key 0 as @ ps) = below h key i as @ rest i" for i
  proof -
    have "filter (\<lambda>a. i < tall h'' a) (below h key 0 as) = filter (\<lambda>a. i < tall h a) (below h key 0 as)"
      "filter (\<lambda>a. i < tall h'' a) ps = filter (\<lambda>a. i < tall h a) ps"
      using old(3) by (auto intro!: filter_cong)
    then show ?thesis using level_part(1) [OF assms(1)] by (simp add: on_level_def rest_def)
  qed
  have ring: "linked h'' i (sl_head root) (on_level h'' i (below h key 0 as @ ps)) (sl_head root)" if "i \<le> MAX_LEVEL" for i
  proof -
    have l: "linked h i (sl_head root) (below h key i as @ (if i < tall h p then [p] else []) @ rest i) (sl_head root)"
      using rep(11) [OF that] level_split [OF rep(10), of i key] split by simp
    have sub: "set (below h key i as @ rest i) \<subseteq> set (below h key 0 as @ ps)"
      using below_mono [of 0 i h key as] by (auto simp: rest_def)
    have fw: "forward_of h'' b i = forward_of h b i"
      if "b \<in> set (sl_head root # below h key i as @ rest i)" "b \<noteq> pred_at root h key i as \<or> tall h p \<le> i" for b
      using that old(4) [of b i] sub assms(5) [of b i] by auto
    show ?thesis
    proof (cases "i < tall h p")
      case True
      then have i: "i \<le> sl_level root" using rep(9) [OF parts(2)] by simp
      have d: "distinct (sl_head root # below h key i as @ p # rest i)"
      proof -
        have "distinct (sl_head root # on_level h i as)" using rep(12) by (auto simp: on_level_def)
        then show ?thesis using level_split [OF rep(10), of i key] split True by simp
      qed
      have u: "pred_at root h key i as \<in> set (sl_head root # below h key 0 as @ ps)"
        using pred_at_cases [of root h key i as] sub by auto
      have l': "linked h i (sl_head root) (below h key i as @ p # rest i) (sl_head root)" using l True by simp
      have "forward_of h'' (pred_at root h key i as) i = forward_of h p i"
        using True i old(4) [OF u] assms(5) [of "pred_at root h key i as" i] by simp
      then have "linked h'' i (sl_head root) (below h key i as @ rest i) (sl_head root)"
        using fw by (intro linked_remove [OF l' d, folded pred_at_def]) blast+
      then show ?thesis by (simp add: level)
    next
      case False
      then have "linked h'' i (sl_head root) (below h key i as @ rest i) (sl_head root)"
        using l fw linked_cong [of "sl_head root" "below h key i as @ rest i" h'' i h] by auto
      then show ?thesis by (simp add: level)
    qed
  qed
  have "sorted_wrt (<) (map (key_of h) (below h key 0 as @ ps))"
    using rep(10) arg_cong [OF as, of "\<lambda>as. sorted_wrt (<) (map (key_of h) as)"] by (simp add: sorted_wrt_append)
  moreover have "map (key_of h'') (below h key 0 as @ ps) = map (key_of h) (below h key 0 as @ ps)"
    using old(2) by auto
  ultimately have sorted: "sorted_wrt (<) (map (key_of h'') (below h key 0 as @ ps))" by (simp only:)
  have low: "tall h'' a \<le> level + 1" if "a \<in> set (below h key 0 as @ ps)" for a
  proof (rule ccontr)
    assume *: "\<not> tall h'' a \<le> level + 1"
    let ?j = "tall h'' a - 1"
    have "?j \<le> sl_level root" "level < ?j" using * rep(9) [of a] that parts(1) old(3) [of a] by auto
    then have "forward_of h'' (sl_head root) ?j = Some (sl_head root)" by (intro assms(7))
    moreover have "a \<in> set (on_level h'' ?j (below h key 0 as @ ps))" using that * by (auto simp: on_level_def)
    moreover have "sl_head root \<notin> set (on_level h'' ?j (below h key 0 as @ ps))" using rep(2) parts(1) by (auto simp: on_level_def)
    ultimately show False
      using ring [of ?j] \<open>?j \<le> sl_level root\<close> rep(1)
      by (cases "on_level h'' ?j (below h key 0 as @ ps)") auto
  qed
  have "\<forall>a \<in> set (below h key 0 as @ ps). key_of h'' a < INT_MAX \<and> 0 < tall h'' a \<and> tall h'' a \<le> level + 1"
    using old(2,3) low rep(7,8) parts(1) by auto
  moreover have "\<forall>a \<in> set (sl_head root # below h key 0 as @ ps). h'' a \<noteq> None" using old(1) by blast
  moreover have "key_of h'' (sl_head root) = INT_MAX" "tall h'' (sl_head root) = MAX_LEVEL + 1"
    using old(2,3) [of "sl_head root"] rep(5,6) by simp_all
  moreover have "sl_head root \<notin> set (below h key 0 as @ ps)" using rep(2) parts(1) by blast
  ultimately show ?thesis
    unfolding skip_rep_def using rep(1) assms(6) sorted ring by simp
qed


lemma remove_op:
  assumes "skip_set root m K" "key < INT_MAX"
  shows "\<exists>root' m'. skip_list_remove root key m = Some (root', m') \<and> skip_set root' m' (K - {key})"
proof -
  obtain h x where m: "m = (h, x)" by (cases m)
  obtain as where rep: "skip_rep root h as" and K: "K = key_of h ` set as" and fresh: "\<forall>a \<ge> x. h a = None"
    using assms(1) by (auto simp: skip_set_def m)
  have le: "key \<le> INT_MAX" using assms(2) by simp
  note R = skip_repD [OF rep]
  obtain upd where upd: "find_update h key (sl_level root) (sl_head root) (replicate (MAX_LEVEL + 1) None) =
      Some (pred_at root h key 0 as, upd)" "\<And>j. j \<le> sl_level root \<Longrightarrow> update_at upd j = Some (pred_at root h key j as)"
    using find_update_rep [OF rep le, of "sl_level root" "replicate (MAX_LEVEL + 1) None" "sl_head root"]
      R(1) by (auto simp: less_Suc_eq_le)
  define p where "p = hd (beyond h key 0 as @ [sl_head root])"
  have fw: "forward_of h (pred_at root h key 0 as) 0 = Some p" using pred_forward [OF rep, of 0 key] by (simp add: p_def)
  note p = next_node [OF rep assms(2) p_def]
  then obtain nd where nd: "h p = Some nd" by auto
  show ?thesis
  proof (cases "key \<in> K")
    case False
    then have "skip_list_remove root key m = Some (root, m)"
      using upd(1) fw nd p(2) by (simp add: skip_list_remove_def m K)
    then show ?thesis using assms(1) False by auto
  next
    case True
    then have key: "key_of h p = key" using p(2) K by simp
    then obtain ps where ps: "beyond h key 0 as = p # ps" "p \<in> set as" using p(3) by metis
    have u: "update_at upd i = Some (pred_at root h key i as) \<and> pred_at root h key i as \<noteq> p \<and>
        forward_of h (pred_at root h key i as) i \<noteq> None \<and>
        (forward_of h (pred_at root h key i as) i = Some p \<longleftrightarrow> i < tall h p)" if "i < sl_level root + 1" for i
    proof -
      have i: "i \<le> sl_level root" "i \<le> MAX_LEVEL" using that R(1) by simp_all
      have "p \<notin> set (below h key i as)" using key by (simp add: below_def)
      then have "pred_at root h key i as \<noteq> p" using pred_at_cases [of root h key i as] ps(2) R(2) by metis
      moreover have "hd (beyond h key i as @ [sl_head root]) = p \<longleftrightarrow> i < tall h p"
      proof
        assume "i < tall h p"
        then show "hd (beyond h key i as @ [sl_head root]) = p"
          using level_part(2) [OF rep, of i key, symmetric] ps(1) by simp
      next
        assume *: "hd (beyond h key i as @ [sl_head root]) = p"
        then have "p \<in> set (beyond h key i as)" using ps(2) R(2) by (cases "beyond h key i as") auto
        then show "i < tall h p" by (simp add: beyond_def on_level_def)
      qed
      ultimately show ?thesis using upd(2) [OF i(1)] pred_forward [OF rep i(2), of key] by simp
    qed
    obtain h' where h': "unlink_levels [0..<sl_level root + 1] p upd h = Some h'" "same_nodes h h'"
      "\<And>a j. forward_of h' a j =
         (if 0 \<le> j \<and> j < sl_level root + 1 \<and> j < tall h p \<and> a = pred_at root h key j as then forward_of h p j
          else forward_of h a j)"
      using unlink_levels_ok [of 0 "sl_level root + 1" upd "\<lambda>i. pred_at root h key i as" p h] u nd by auto
    let ?h = "h'(p := None)"
    have head: "sl_head root \<noteq> p" using ps(2) R(2) by auto
    have "forward_of ?h (sl_head root) j \<noteq> None" if "j \<le> sl_level root" for j
      using that head R(1,3,6) same_nodesD [OF h'(2), of "sl_head root"]
      by (auto simp: forward_of_def aget_def)
    then obtain l where l: "l \<le> sl_level root" "lower_level ?h (sl_head root) (sl_level root) = Some l"
      "\<And>j. l < j \<Longrightarrow> j \<le> sl_level root \<Longrightarrow> forward_of ?h (sl_head root) j = Some (sl_head root)"
      using lower_level_ok [of "sl_level root" ?h "sl_head root"] by blast
    have "h' p \<noteq> None" using nd same_nodesD(1) [OF h'(2), of p] by simp
    then have result: "skip_list_remove root key m = Some (root\<lparr>sl_level := l\<rparr>, (?h, x))"
      using upd(1) fw nd key h'(1) l(2) by (simp add: skip_list_remove_def skip_list_node_free_def m del: upt_Suc)
    have "skip_rep (root\<lparr>sl_level := l\<rparr>) ?h (below h key 0 as @ ps)"
      using h'(3) l(3) by (intro rep_remove [OF rep ps(1) h'(2) refl _ l(1)]) auto
    moreover have "key_of ?h ` set (below h key 0 as @ ps) = K - {key}"
    proof -
      have as: "as = below h key 0 as @ p # ps"
        using level_split [OF R(10), of 0 key] on_level_zero [OF rep] ps(1) by simp
      have d: "set as = insert p (set (below h key 0 as @ ps))" "p \<notin> set (below h key 0 as @ ps)"
        using R(12) arg_cong [OF as, of set] arg_cong [OF as, of distinct] by auto
      have "key_of h a \<noteq> key" if "a \<in> set (below h key 0 as @ ps)" for a
      proof -
        have "sorted_wrt (<) (map (key_of h) (below h key 0 as @ p # ps))" using R(10) as by metis
        then show ?thesis using that key by (auto simp: sorted_wrt_append)
      qed
      moreover have "key_of ?h a = key_of h a" if "a \<in> set (below h key 0 as @ ps)" for a
      proof -
        have "a \<in> set as" "a \<noteq> p" using that d by auto
        then show ?thesis using same_nodesD(2) [OF h'(2), of a] R(4) by simp
      qed
      ultimately show ?thesis unfolding K d(1) using key by force
    qed
    moreover have "\<forall>a \<ge> x. ?h a = None" using fresh same_nodesD(1) [OF h'(2)] by simp
    ultimately have "skip_set (root\<lparr>sl_level := l\<rparr>) (?h, x) (K - {key})" unfolding skip_set_def by (metis fst_conv snd_conv)
    with result show ?thesis by blast
  qed
qed

section \<open>Making, finding, dumping and freeing\<close>

lemma init_op:
  assumes "\<And>a. junk a \<noteq> None" "\<forall>a \<ge> snd m. fst m a = None"
  shows "\<exists>root m'. skip_list_init junk m = Some (root, m') \<and> skip_set root m' {} \<and> sl_level root = 0"
proof -
  obtain g where g: "junk (snd m) = Some g" using assms(1) [of "snd m"] by auto
  let ?nd = "\<lparr>sn_key = INT_MAX, sn_forward = replicate (MAX_LEVEL + 1) (snd m)\<rparr>"
  let ?root = "\<lparr>sl_head = snd m, sl_level = 0\<rparr>" and ?m = "((fst m)(snd m \<mapsto> ?nd), Suc (snd m))"
  have "skip_list_init junk m = Some (?root, ?m)"
    by (simp add: skip_list_init_def skip_list_node_alloc_def g del: upt_Suc replicate_Suc)
  moreover have "skip_rep ?root (fst ?m) []"
    by (simp add: skip_rep_def on_level_def forward_of_def aget_def del: replicate_Suc)
  ultimately show ?thesis using assms(2) by (fastforce simp: skip_set_def)
qed

lemma find_op:
  assumes "skip_set root m K" "key < INT_MAX"
  shows "\<exists>r. skip_list_find root key m = Some r \<and> (r \<noteq> None \<longleftrightarrow> key \<in> K)"
proof -
  obtain h x where m: "m = (h, x)" by (cases m)
  obtain as where rep: "skip_rep root h as" and K: "K = key_of h ` set as"
    using assms(1) by (auto simp: skip_set_def m)
  have "find_levels h key (sl_level root) (sl_head root) = Some (pred_at root h key 0 as)"
    using assms(2) skip_repD(1) [OF rep] by (intro find_levels_rep [OF rep]) simp_all
  moreover have "forward_of h (pred_at root h key 0 as) 0 = Some (hd (beyond h key 0 as @ [sl_head root]))"
    using pred_forward [OF rep, of 0] by simp
  ultimately show ?thesis
    using next_node [OF rep assms(2) refl] by (auto simp: skip_list_find_def m K)
qed

lemma dump_linked:
  "linked h 0 x ys a \<Longrightarrow> a \<notin> set ys \<Longrightarrow> (\<And>y. y \<in> set ys \<Longrightarrow> h y \<noteq> None) \<Longrightarrow>
     dump_from h a x = Some (map (key_of h) ys)"
proof (induction ys arbitrary: x)
  case (Cons y ys)
  obtain nd where "h y = Some nd" using Cons.prems(3) [of y] by auto
  then show ?case using Cons by (subst dump_from.simps) auto
qed (subst dump_from.simps, simp)

lemma rep_keys: "skip_rep root h as \<Longrightarrow> map (key_of h) as = sorted_list_of_set (key_of h ` set as)"
  using skip_repD(10) by (intro strict_sorted_equal) (simp_all add: strict_sorted_list_of_set)

lemma dump_op:
  assumes "skip_set root m K"
  shows "skip_list_dump root m = Some (sorted_list_of_set K)"
proof -
  obtain as where rep: "skip_rep root (fst m) as" and K: "K = key_of (fst m) ` set as"
    using assms by (auto simp: skip_set_def)
  note R = skip_repD [OF rep]
  have "linked (fst m) 0 (sl_head root) as (sl_head root)" using R(11) [of 0] on_level_zero [OF rep] by simp
  then have "skip_list_dump root m = Some (map (key_of (fst m)) as)"
    unfolding skip_list_dump_def using R(2,4) by (intro dump_linked) auto
  then show ?thesis using rep_keys [OF rep] K by simp
qed

lemma free_linked:
  "linked h 0 y ys a \<Longrightarrow> distinct (y # ys) \<Longrightarrow> a \<notin> set (y # ys) \<Longrightarrow> (\<And>b. b \<in> set (y # ys) \<Longrightarrow> h b \<noteq> None) \<Longrightarrow>
     free_from a y h = Some (h |` (- set (y # ys)))"
proof (induction ys arbitrary: y h)
  case Nil
  have "free_from a a (h(y := None)) = Some (h(y := None))" by (subst free_from.simps) simp
  moreover have "h(y := None) = h |` (- {y})" by (auto simp: restrict_map_def fun_eq_iff)
  moreover have "forward_of h y 0 = Some a" "h y \<noteq> None" "y \<noteq> a" using Nil by auto
  ultimately show ?case by (subst free_from.simps) (simp add: skip_list_node_free_def)
next
  case (Cons z ys)
  let ?h = "h(y := None)"
  have ring: "linked ?h 0 z ys a"
  proof -
    have "forward_of ?h b 0 = forward_of h b 0" if "b \<in> set (z # ys)" for b
      using that Cons.prems(2) by (auto simp: forward_of_def)
    then show ?thesis using Cons.prems(1) linked_cong [of z ys ?h 0 h] by simp
  qed
  have "free_from a z ?h = Some (?h |` (- set (z # ys)))"
    by (rule Cons.IH [OF ring]) (use Cons.prems(2-4) in auto)
  moreover have "?h |` (- set (z # ys)) = h |` (- set (y # z # ys))" by (auto simp: restrict_map_def fun_eq_iff)
  moreover have "forward_of h y 0 = Some z" "h y \<noteq> None" "y \<noteq> a" using Cons.prems(1,3,4) by auto
  ultimately show ?case by (subst free_from.simps) (simp add: skip_list_node_free_def)
qed

lemma free_op:
  assumes "skip_rep root (fst m) as"
  shows "skip_list_free root m = Some (fst m |` (- set (sl_head root # as)), snd m)"
proof -
  note R = skip_repD [OF assms]
  let ?a = "sl_head root"
  have ring: "linked (fst m) 0 ?a as ?a" using R(11) [of 0] on_level_zero [OF assms] by simp
  have "free_from ?a (hd (as @ [?a])) (fst m) = Some (fst m |` (- set as))"
  proof (cases as)
    case Nil
    then show ?thesis by (subst free_from.simps) (simp add: restrict_map_def)
  next
    case (Cons y ys)
    have "free_from ?a y (fst m) = Some (fst m |` (- set (y # ys)))"
      using ring R(2,4,12) Cons by (intro free_linked) auto
    then show ?thesis using Cons by simp
  qed
  moreover have "(fst m |` (- set as)) ?a \<noteq> None" using R(2,3) by simp
  moreover have "(fst m |` (- set as))(?a := None) = fst m |` (- set (?a # as))" by (auto simp: restrict_map_def fun_eq_iff)
  ultimately show ?thesis
    using linked_hd [OF ring] by (simp add: skip_list_free_def skip_list_node_free_def)
qed

section \<open>The list as a set\<close>

text \<open>C1.  The operations of the skip list are those of a set of integers below \<open>INT_MAX\<close>: from a state
  that stands for the set K, none of them uses a dangling pointer or an index outside an array; insert
  leads to the set with the key (where the new node is not higher than the list, or no node of the top
  level has a smaller key), remove to the set without it, find answers whether the key is in the set,
  dump prints the set in ascending order, and free releases the head and one node for every key.\<close>

theorem skip_list_refines_set:
  assumes "skip_set root m K" "key < INT_MAX" "\<And>a. junk a \<noteq> None"
    "rand_level rnd \<le> sl_level root \<or> top_clear root m key"
  shows "(\<exists>root' m'. skip_list_insert junk rnd root key m = Some (root', m') \<and> skip_set root' m' (insert key K)) \<and>
    (\<exists>root' m'. skip_list_remove root key m = Some (root', m') \<and> skip_set root' m' (K - {key})) \<and>
    (\<exists>r. skip_list_find root key m = Some r \<and> (r \<noteq> None \<longleftrightarrow> key \<in> K)) \<and>
    skip_list_dump root m = Some (sorted_list_of_set K) \<and>
    (\<exists>as. skip_list_free root m = Some (fst m |` (- set (sl_head root # as)), snd m) \<and>
      map (key_of (fst m)) as = sorted_list_of_set K)"
proof -
  obtain as where rep: "skip_rep root (fst m) as" and K: "K = key_of (fst m) ` set as"
    using assms(1) by (auto simp: skip_set_def)
  have "map (key_of (fst m)) as = sorted_list_of_set K" using rep_keys [OF rep] K by simp
  then show ?thesis using insert_op [OF assms(1,2), of junk rnd] assms(3,4) remove_op [OF assms(1,2)] find_op [OF assms(1,2)] dump_op [OF assms(1)]
    free_op [OF rep] by (intro conjI) blast+
qed

lemma empty_top_clear:
  assumes "skip_set root m {}" "key \<le> INT_MAX"
  shows "top_clear root m key"
proof -
  have rep: "skip_rep root (fst m) []" using assms(1) by (auto simp: skip_set_def)
  have "forward_of (fst m) (sl_head root) (sl_level root) = Some (sl_head root)"
    using skip_repD(11) [OF rep skip_repD(1) [OF rep]] by (simp add: on_level_def)
  then show ?thesis using skip_repD(5) [OF rep] assms(2) by (simp add: top_clear_def)
qed

theorem skip_list_refines_set_witness:
  "\<exists>root m root' m'. skip_list_init (\<lambda>_. Some id) (Map.empty, 0) = Some (root, m) \<and>
     skip_list_insert (\<lambda>_. Some id) (\<lambda>n. if n = 0 then 1 else 0) root 10 m = Some (root', m') \<and> skip_set root' m' {10} \<and>
     skip_list_dump root m = Some []"
proof -
  obtain root m where m: "skip_list_init (\<lambda>_. Some id) (Map.empty, 0) = Some (root, m)" "skip_set root m {}"
    using init_op [of "\<lambda>_. Some id" "(Map.empty, 0)"] by auto
  have "10 < INT_MAX" by (simp add: INT_MAX_def)
  with skip_list_refines_set [OF m(2), of 10 "\<lambda>_. Some id" "\<lambda>n. if n = 0 then 1 else 0"]
    empty_top_clear [OF m(2), of 10] m(1)
  show ?thesis by auto
qed

text \<open>Raising the level overwrites the predecessor on the old top level by the head: the second key is
  linked in front of the first, which is no longer found.\<close>

declare walk_level.simps [code] dump_from.simps [code]

lemma insert_loses_key:
  "\<exists>root m root1 m1 root2 m2.
     skip_list_init (\<lambda>_. Some id) (Map.empty, 0) = Some (root, m) \<and>
     skip_list_insert (\<lambda>_. Some id) (\<lambda>_. 0) root 10 m = Some (root1, m1) \<and>
     skip_list_insert (\<lambda>_. Some id) (\<lambda>n. if n = 0 then 1 else 0) root1 25 m1 = Some (root2, m2) \<and>
     skip_list_dump root2 m2 = Some [25, 10] \<and> skip_list_find root2 10 m2 = Some None"
proof -
  have "(do { (root, m) \<leftarrow> skip_list_init (\<lambda>_. Some id) (Map.empty, 0);
     (root, m) \<leftarrow> skip_list_insert (\<lambda>_. Some id) (\<lambda>_. 0) root 10 m;
     (root, m) \<leftarrow> skip_list_insert (\<lambda>_. Some id) (\<lambda>n. if n = 0 then 1 else 0) root 25 m;
     ks \<leftarrow> skip_list_dump root m;
     r \<leftarrow> skip_list_find root 10 m;
     Some (ks, r) }) = Some ([25, 10], None)"
    by code_simp
  then show ?thesis by (fastforce simp: bind_eq_Some_conv split: prod.splits)
qed

end
