(* ===== verification/Sds.thy ===== *)
theory Sds
  imports Bytes_Buffer
begin

text \<open>
  The dynamic strings of redis-2.8.0/doc/sds.c: a header with the length and the free space, both
  \<open>int\<close>, in front of the characters.  A string is a record of the header's fields and the block
  behind it; sizes are \<open>size_t\<close>, 64-bit words.  The inner \<^term>\<open>None\<close> is the null pointer of a
  failed allocation, the outer one an access outside a block.  What the functions print is left
  out, except that \<open>sdscatlen\<close> prints its argument as a C string and so needs a terminator in it.
\<close>

section \<open>The code\<close>

definition SDS_MAX_PERALLOC :: "64 word" where
  "SDS_MAX_PERALLOC = 1024 * 1024"

record sdshdr =
  sh_len :: "32 word"
  sh_free :: "32 word"
  sh_buf :: bytes

text \<open>The size of the header.\<close>

definition sdshdr_size :: nat where
  "sdshdr_size = 8"

definition sdslen :: "sdshdr \<Rightarrow> 64 word" where
  "sdslen s = scast (sh_len s)"

definition sdsnewlen :: "heap_env \<Rightarrow> 64 word \<Rightarrow> sdshdr option option" where
  "sdsnewlen env initlen =
     (let n = word_of_nat sdshdr_size + initlen + 1
      in if \<not> realloc_ok env (uint n) then Some None
         else if unat n < sdshdr_size then None
         else do {
           buf \<leftarrow> mem_write (map (fresh env) [sdshdr_size..<unat n]) (uint initlen) [NUL];
           Some (Some \<lparr>sh_len = ucast initlen, sh_free = 0, sh_buf = buf\<rparr>) })"

definition sdsavail :: "sdshdr \<Rightarrow> 64 word" where
  "sdsavail s = scast (sh_free s)"

definition sdsMakeRoomFor :: "heap_env \<Rightarrow> sdshdr \<Rightarrow> 64 word \<Rightarrow> sdshdr option option" where
  "sdsMakeRoomFor env s addlen =
     (if addlen \<le> sdsavail s then Some (Some s)
      else let len = sdslen s;
               newlen = len + addlen;
               newlen = (if newlen < SDS_MAX_PERALLOC then newlen * 2 else SDS_MAX_PERALLOC);
               n = word_of_nat sdshdr_size + newlen + 1
           in if \<not> realloc_ok env (uint n) then Some None
              else if unat n < sdshdr_size then None
              else Some (Some (s\<lparr>sh_free := ucast (newlen - len),
                                 sh_buf := mem_realloc env (sh_buf s) (uint n - int sdshdr_size)\<rparr>)))"

definition sdscatlen :: "heap_env \<Rightarrow> sdshdr \<Rightarrow> bytes \<Rightarrow> 64 word \<Rightarrow> sdshdr option option" where
  "sdscatlen env s t len = do {
     let curlen = sdslen s;
     r \<leftarrow> sdsMakeRoomFor env s len;
     case r of
       None \<Rightarrow> Some None
     | Some s \<Rightarrow>
         if NUL \<notin> set t then None
         else do {
           xs \<leftarrow> mem_read t 0 (uint len);
           buf \<leftarrow> mem_write (sh_buf s) (uint curlen) xs;
           buf \<leftarrow> mem_write buf (uint (curlen + len)) [NUL];
           Some (Some \<lparr>sh_len = ucast (curlen + len), sh_free = ucast (scast (sh_free s) - len), sh_buf = buf\<rparr>) } }"

section \<open>Strings\<close>

text \<open>The fields describe the block, and the characters are terminated.\<close>

definition sds_wf :: "sdshdr \<Rightarrow> bool" where
  "sds_wf s \<longleftrightarrow> 0 \<le> sint (sh_len s) \<and> 0 \<le> sint (sh_free s) \<and>
     int (length (sh_buf s)) = sint (sh_len s) + sint (sh_free s) + 1 \<and> length (sh_buf s) \<le> 2 ^ 31 \<and>
     sh_buf s ! nat (sint (sh_len s)) = NUL"

definition sds_text :: "sdshdr \<Rightarrow> bytes" where
  "sds_text s = take (nat (sint (sh_len s))) (sh_buf s)"

lemma scast_uint:
  fixes w :: "32 word"
  assumes "0 \<le> sint w"
  shows "uint (scast w :: 64 word) = sint w"
proof -
  have "sint w < 2 ^ 31" using sint_lt [of w] by simp
  then have "sint w mod 2 ^ LENGTH(64) = sint w" using assms by (intro mod_pos_pos_trivial) simp_all
  then show ?thesis by (simp only: scast_eq uint_word_of_int)
qed

lemma ucast_sint:
  fixes w :: "64 word"
  assumes "uint w < 2 ^ 31"
  shows "sint (ucast w :: 32 word) = uint w"
proof -
  have "signed_take_bit 31 (uint w) = uint w" using assms uint_ge_0 [of w] by (intro signed_take_bit_int_eq_self) linarith+
  then show ?thesis by (simp only: ucast_eq sint_sbintrunc') simp
qed

lemma uint_add:
  fixes a b :: "64 word"
  shows "uint a + uint b < 2 ^ 64 \<Longrightarrow> uint (a + b) = uint a + uint b"
  by (simp only: uint_word_ariths) simp

lemma block_size:
  fixes n :: "64 word"
  assumes "uint n < 2 ^ 63"
  shows "uint (word_of_nat sdshdr_size + n + 1) = uint n + 9"
proof -
  have "uint (word_of_nat sdshdr_size :: 64 word) = 8" by (simp add: sdshdr_size_def)
  then have "uint (word_of_nat sdshdr_size + n) = 8 + uint n" using uint_add [of "word_of_nat sdshdr_size" n] assms by simp
  then show ?thesis using uint_add [of "word_of_nat sdshdr_size + n" 1] assms by simp
qed

text \<open>A new string has the length asked for; its characters are what the block held.\<close>

lemma sdsnewlen_wf:
  assumes "uint n < 2 ^ 31" "realloc_ok env (uint n + 9)"
  shows "\<exists>s. sdsnewlen env n = Some (Some s) \<and> sds_wf s \<and> int (length (sds_text s)) = uint n"
proof -
  define k where "k = word_of_nat sdshdr_size + n + (1 :: 64 word)"
  have sz: "uint k = uint n + 9" unfolding k_def using assms(1) by (intro block_size) simp
  then have "int (unat k) = int (unat n + 9)" by simp
  then have sz': "unat k = unat n + 9" by (simp only: of_nat_eq_iff)
  define blk where "blk = map (fresh env) [8..<unat n + 9]"
  have blk: "length blk = unat n + 1" by (simp add: blk_def)
  have w: "mem_write blk (uint n) [NUL] = Some (take (unat n) blk @ [NUL])"
    using blk by (simp add: mem_write_def)
  have "sdsnewlen env n = Some (Some \<lparr>sh_len = ucast n, sh_free = 0, sh_buf = take (unat n) blk @ [NUL]\<rparr>)"
    using assms(2) w
    unfolding sdsnewlen_def k_def [symmetric] Let_def sz sz' unfolding sdshdr_size_def blk_def [symmetric] by simp
  moreover have "unat n \<le> 2147483647"
    unfolding unat_eq_nat_uint using assms(1) by (simp add: nat_le_iff del: nat_uint_eq)
  ultimately show ?thesis
    using ucast_sint [OF assms(1)] blk by (simp add: sds_wf_def sds_text_def nth_append)
qed

text \<open>The outcome of making room: nothing to do, no memory, or a block with the space the code asked for.\<close>

lemma make_room:
  assumes "sds_wf s" "uint n < 2 ^ 62"
  shows "sdsMakeRoomFor env s n =
    (let len = sint (sh_len s); cap = (if len + uint n < 2 ^ 20 then 2 * (len + uint n) else 2 ^ 20)
     in if uint n \<le> sint (sh_free s) then Some (Some s)
        else if \<not> realloc_ok env (cap + 9) then Some None
        else Some (Some (s\<lparr>sh_free := word_of_int (cap - len), sh_buf := mem_realloc env (sh_buf s) (cap + 1)\<rparr>)))"
proof -
  define cap :: "64 word" where
    "cap = (if sdslen s + n < SDS_MAX_PERALLOC then (sdslen s + n) * 2 else SDS_MAX_PERALLOC)"
  define len where "len = sint (sh_len s)"
  have l: "uint (sdslen s) = len" "uint (sdsavail s) = sint (sh_free s)" "0 \<le> len" "len < 2 ^ 31"
    using assms(1) sint_lt [of "sh_len s"] by (simp_all add: sds_wf_def sdslen_def sdsavail_def scast_uint len_def)
  have new: "uint (sdslen s + n) = len + uint n"
    unfolding l(1) [symmetric] using l assms(2) by (intro uint_add) simp
  have max: "uint SDS_MAX_PERALLOC = 2 ^ 20" by (simp add: SDS_MAX_PERALLOC_def)
  have cap: "uint cap = (if len + uint n < 2 ^ 20 then 2 * (len + uint n) else 2 ^ 20)"
  proof (cases "len + uint n < 2 ^ 20")
    case True
    have "uint ((sdslen s + n) * 2) = 2 * (len + uint n)"
      using True new l(3) by (simp only: mult_2_right uint_add) (subst uint_add, simp_all)
    then show ?thesis using True new max by (simp add: cap_def word_less_def)
  next
    case False
    then show ?thesis using new max by (simp add: cap_def word_less_def)
  qed
  have sz: "uint (word_of_nat sdshdr_size + cap + 1) = uint cap + 9"
    using cap l by (intro block_size) (simp split: if_splits)
  then have "8 \<le> uint (word_of_nat sdshdr_size + cap + 1)"
    using uint_ge_0 [of cap] by simp
  then have "int sdshdr_size \<le> int (unat (word_of_nat sdshdr_size + cap + 1))" by (simp add: sdshdr_size_def)
  then have "sdshdr_size \<le> unat (word_of_nat sdshdr_size + cap + 1)" by (rule of_nat_le_iff [THEN iffD1])
  from leD [OF this] have big: "(unat (word_of_nat sdshdr_size + cap + 1) < sdshdr_size) = False" by blast
  have sub: "uint cap + 9 - int sdshdr_size = uint cap + 1" by (simp add: sdshdr_size_def)
  have free: "(ucast (cap - sdslen s) :: 32 word) = word_of_int (uint cap - len)"
  proof -
    have "uint (cap - sdslen s) = take_bit 64 (uint cap - len)"
      unfolding l(1) [symmetric] by (simp only: uint_word_arith_bintrs) simp
    then show ?thesis by (simp only: ucast_eq word_of_int_eq_iff take_bit_take_bit) simp
  qed
  have le: "n \<le> sdsavail s \<longleftrightarrow> uint n \<le> sint (sh_free s)" by (simp add: word_le_def l(2))
  show ?thesis
    unfolding sdsMakeRoomFor_def Let_def cap_def [symmetric] len_def [symmetric] cap [symmetric] le sz free big sub if_False ..
qed

section \<open>Properties\<close>

text \<open>Writing the bytes and the terminator behind the text.\<close>

lemma append_write:
  assumes "length buf \<ge> l + length xs + 1"
  shows "Option.bind (mem_write buf (int l) xs) (\<lambda>buf. mem_write buf (int (l + length xs)) [NUL]) =
    Some (take l buf @ xs @ NUL # drop (l + length xs + 1) buf)"
proof -
  have "mem_write buf (int l) xs = Some (take l buf @ xs @ drop (l + length xs) buf)"
    using assms by (simp add: mem_write_def)
  moreover have "mem_write (take l buf @ xs @ drop (l + length xs) buf) (int (l + length xs)) [NUL] =
      Some (take l buf @ xs @ NUL # drop (l + length xs + 1) buf)"
    using assms unfolding mem_write_def nat_int by simp
  ultimately show ?thesis by simp
qed

lemma append_overrun:
  assumes "length buf < l + length xs + 1"
  shows "Option.bind (mem_write buf (int l) xs) (\<lambda>buf. mem_write buf (int (l + length xs)) [NUL]) = None"
  using assms by (auto simp: mem_write_def bind_eq_None_conv)

text \<open>\<open>sdscatlen\<close> once there is room, or what the code takes for it.\<close>

lemma catlen_unfold:
  assumes "sds_wf s" "unat n \<le> length t" "length t < 2 ^ 62" "NUL \<in> set t"
    "sdsMakeRoomFor env s n = Some (Some r)" "l = nat (sint (sh_len s))" "xs = take (unat n) t"
  shows "sdscatlen env s t n =
    Option.bind (Option.bind (mem_write (sh_buf r) (int l) xs) (\<lambda>buf. mem_write buf (int (l + length xs)) [NUL]))
      (\<lambda>buf. Some (Some \<lparr>sh_len = ucast (sdslen s + n), sh_free = ucast (scast (sh_free r) - n), sh_buf = buf\<rparr>))"
    and "uint (sdslen s + n) = int (l + length xs)" "length xs = unat n"
proof -
  have l: "uint (sdslen s) = int l" using assms(1,6) by (simp add: sds_wf_def sdslen_def scast_uint)
  have "sint (sh_len s) < 2 ^ 31" using sint_lt [of "sh_len s"] by simp
  then have lt: "int l < 2 ^ 31" using assms(1,6) by (simp add: sds_wf_def)
  show len: "length xs = unat n" using assms(2,7) by simp
  have "uint n = int (length xs)" "length xs < 2 ^ 62" using len assms(2,3) by simp_all
  then show sum: "uint (sdslen s + n) = int (l + length xs)"
    using uint_add [of "sdslen s" n] l lt by simp
  have "int (unat n) = uint n" by simp
  then have "uint n \<le> int (length t)" using assms(2) by linarith
  then have "mem_read t 0 (uint n) = Some xs" using assms(7) by (simp add: mem_read_def)
  then show "sdscatlen env s t n =
    Option.bind (Option.bind (mem_write (sh_buf r) (int l) xs) (\<lambda>buf. mem_write buf (int (l + length xs)) [NUL]))
      (\<lambda>buf. Some (Some \<lparr>sh_len = ucast (sdslen s + n), sh_free = ucast (scast (sh_free r) - n), sh_buf = buf\<rparr>))"
    unfolding sdscatlen_def Let_def assms(5) sum l using assms(4) by simp
qed

lemma catlen_in_room:
  assumes "sds_wf s" "unat n \<le> length t" "length t < 2 ^ 62" "NUL \<in> set t"
    "sdsMakeRoomFor env s n = Some (Some r)" "uint n \<le> sint (sh_free r)"
    "int (length (sh_buf r)) = sint (sh_len s) + sint (sh_free r) + 1" "length (sh_buf r) \<le> 2 ^ 31"
    "take (nat (sint (sh_len s))) (sh_buf r) = sds_text s"
  shows "\<exists>s'. sdscatlen env s t n = Some (Some s') \<and> sds_wf s' \<and> sds_text s' = sds_text s @ take (unat n) t"
proof -
  define l xs where "l = nat (sint (sh_len s))" and "xs = take (unat n) t"
  note u = catlen_unfold [OF assms(1-5) l_def xs_def]
  have l: "sint (sh_len s) = int l" using assms(1) by (simp add: sds_wf_def l_def)
  have n: "uint n = int (length xs)" using u(3) by simp
  have fits: "l + length xs + 1 \<le> length (sh_buf r)" using assms(6,7) l n by linarith
  let ?buf = "take l (sh_buf r) @ xs @ NUL # drop (l + length xs + 1) (sh_buf r)"
  let ?s = "\<lparr>sh_len = ucast (sdslen s + n), sh_free = ucast (scast (sh_free r) - n), sh_buf = ?buf\<rparr>"
  have "sdscatlen env s t n = Some (Some ?s)" unfolding u(1) append_write [OF fits] by simp
  moreover have len: "sint (sh_len ?s) = int (l + length xs)"
  proof -
    have "uint (sdslen s + n) < 2 ^ 31" unfolding u(2) using fits assms(8) by simp
    then show ?thesis using ucast_sint [of "sdslen s + n"] u(2) by simp
  qed
  moreover have free: "sint (sh_free ?s) = sint (sh_free r) - uint n"
  proof -
    have pos: "0 \<le> sint (sh_free r)" using assms(6) uint_ge_0 [of n] by linarith
    have "sint (sh_free r) < 2 ^ 31" using sint_lt [of "sh_free r"] by simp
    then have lt: "sint (sh_free r) - uint n < 2 ^ 31" using uint_ge_0 [of n] by linarith
    have "uint (scast (sh_free r) - n) = (sint (sh_free r) - uint n) mod 2 ^ LENGTH(64)"
      by (simp only: uint_word_ariths scast_uint [OF pos])
    also have "\<dots> = sint (sh_free r) - uint n"
      using lt assms(6) by (intro mod_pos_pos_trivial) simp_all
    finally have "uint (scast (sh_free r) - n) = sint (sh_free r) - uint n" .
    then show ?thesis using lt ucast_sint [of "scast (sh_free r) - n"] by simp
  qed
  moreover have "sds_wf ?s"
  proof -
    have nat: "nat (int (l + length xs)) = l + length xs" by (rule nat_int)
    have "?buf ! (l + length xs) = NUL" using fits by (simp add: nth_append)
    moreover have "length ?buf = length (sh_buf r)" using fits by simp
    ultimately show ?thesis using assms(6-8) l n unfolding sds_wf_def len free nat by simp
  qed
  moreover have "sds_text ?s = sds_text s @ xs"
  proof -
    have "nat (sint (sh_len ?s)) = l + length xs" unfolding len by (rule nat_int)
    moreover have "take (l + length xs) ?buf = take l (sh_buf r) @ xs" using fits by simp
    ultimately show ?thesis using assms(9) unfolding sds_text_def [of ?s] l_def [symmetric] by simp
  qed
  ultimately show ?thesis unfolding xs_def by blast
qed

lemma catlen_overrun:
  assumes "sds_wf s" "unat n \<le> length t" "length t < 2 ^ 62" "NUL \<in> set t"
    "sdsMakeRoomFor env s n = Some (Some r)" "int (length (sh_buf r)) < sint (sh_len s) + uint n + 1"
  shows "sdscatlen env s t n = None"
proof -
  define l xs where "l = nat (sint (sh_len s))" and "xs = take (unat n) t"
  note u = catlen_unfold [OF assms(1-5) l_def xs_def]
  have l: "sint (sh_len s) = int l" using assms(1) by (simp add: sds_wf_def l_def)
  have n: "uint n = int (length xs)" using u(3) by simp
  have short: "length (sh_buf r) < l + length xs + 1" using assms(6) l n by linarith
  show ?thesis unfolding u(1) append_overrun [OF short] by simp
qed

text \<open>C36.  Appending to a dynamic string: where the space is there or the string does not grow beyond 1 MiB,
  the text is the old one followed by the bytes given, the fields and the terminator are right, and no
  access leaves the block; a refused allocation is reported.  Beyond 1 MiB the block is cut to that
  size and the bytes are written past its end.\<close>

theorem sdscatlen_appends:
  assumes "sds_wf s" "unat n \<le> length t" "length t < 2 ^ 62" "NUL \<in> set t"
    "new = sint (sh_len s) + uint n" "cap = (if new < 2 ^ 20 then 2 * new else 2 ^ 20)"
  shows "(uint n \<le> sint (sh_free s) \<or> new \<le> 2 ^ 20 \<and> realloc_ok env (cap + 9) \<longrightarrow>
      (\<exists>s'. sdscatlen env s t n = Some (Some s') \<and> sds_wf s' \<and> sds_text s' = sds_text s @ take (unat n) t)) \<and>
    (sint (sh_free s) < uint n \<and> \<not> realloc_ok env (cap + 9) \<longrightarrow> sdscatlen env s t n = Some None) \<and>
    (sint (sh_free s) < uint n \<and> 2 ^ 20 < new \<and> realloc_ok env (cap + 9) \<longrightarrow> sdscatlen env s t n = None)"
proof -
  define len where "len = sint (sh_len s)"
  have wf: "0 \<le> len" "len < 2 ^ 31" "0 \<le> sint (sh_free s)" "int (length (sh_buf s)) = len + sint (sh_free s) + 1"
    "length (sh_buf s) \<le> 2 ^ 31"
    using assms(1) sint_lt [of "sh_len s"] by (simp_all add: sds_wf_def len_def)
  have "unat n < 2 ^ 62" using assms(2,3) by linarith
  then have "int (unat n) < int (2 ^ 62)" by (simp only: of_nat_less_iff)
  then have n: "uint n < 2 ^ 62" "0 \<le> uint n" by simp_all
  note room = make_room [OF assms(1) n(1), of env, unfolded Let_def, folded len_def, folded assms(5) [folded len_def], folded assms(6)]
  note cat = assms(1-4)
  show ?thesis
  proof (cases "uint n \<le> sint (sh_free s)")
    case True
    have "sdsMakeRoomFor env s n = Some (Some s)" using room True by simp
    from catlen_in_room [OF cat this True] True wf show ?thesis by (simp add: sds_text_def len_def)
  next
    case grow: False
    define r where "r = s\<lparr>sh_free := word_of_int (cap - len), sh_buf := mem_realloc env (sh_buf s) (cap + 1)\<rparr>"
    have r: "sdsMakeRoomFor env s n = (if realloc_ok env (cap + 9) then Some (Some r) else Some None)"
      using room grow by (simp add: r_def)
    have none: "\<not> realloc_ok env (cap + 9) \<Longrightarrow> sdscatlen env s t n = Some None" using r by (simp add: sdscatlen_def)
    have cap: "0 \<le> cap" "cap < 2 ^ 21" using assms(5,6) wf(1) n(2) by (simp_all add: len_def)
    have buf: "int (length (sh_buf r)) = cap + 1" using cap(1) by (simp add: r_def mem_realloc_def)
    have bad: "sdscatlen env s t n = None" if "2 ^ 20 < new" "realloc_ok env (cap + 9)"
      using that r buf assms(5,6) by (intro catlen_overrun [OF cat, of env r]) simp_all
    have good: "\<exists>s'. sdscatlen env s t n = Some (Some s') \<and> sds_wf s' \<and> sds_text s' = sds_text s @ take (unat n) t"
      if new: "new \<le> 2 ^ 20" "realloc_ok env (cap + 9)"
    proof -
      have le: "new \<le> cap" using new(1) assms(5,6) wf(1) n(2) by (simp add: len_def)
      have "len \<le> new" using assms(5) n(2) by (simp only: len_def)
      then have "0 \<le> cap - len" "cap - len < 2 ^ 31" using le cap(2) wf(1) by simp_all
      then have free: "sint (sh_free r) = cap - len"
      proof -
        have "sh_free r = word_of_int (cap - len)" by (simp add: r_def)
        then have "sint (sh_free r) = signed_take_bit (LENGTH(32) - 1) (cap - len)" by (simp only: sint_sbintrunc')
        then show ?thesis using \<open>0 \<le> cap - len\<close> \<open>cap - len < 2 ^ 31\<close> by (simp add: signed_take_bit_int_eq_self)
      qed
      have "min (nat len) (nat (cap + 1)) = nat len" "nat len - min (length (sh_buf s)) (nat (cap + 1)) = 0"
        using \<open>len \<le> new\<close> le wf by linarith+
      then have "take (nat len) (sh_buf r) = sds_text s" by (simp add: r_def sds_text_def len_def [symmetric] mem_realloc_def)
      then show ?thesis
        using r new(2) free buf cap(2) le assms(5)
        by (intro catlen_in_room [OF cat, of env r]) (simp_all add: len_def)
    qed
    show ?thesis using none bad good grow by auto
  qed
qed

theorem sdscatlen_appends_witness:
  "\<exists>s s'. sdsnewlen zero_env 0 = Some (Some s) \<and> sdscatlen zero_env s (''hell'' @ [NUL]) 4 = Some (Some s') \<and>
     sds_text s' = ''hell''"
proof -
  from sdsnewlen_wf [of 0 zero_env] obtain s where s: "sdsnewlen zero_env 0 = Some (Some s)" "sds_wf s" "sds_text s = []"
    by (auto simp: zero_env_def)
  then have "sh_len s = 0" "sh_free s = 0" by (auto simp: sdsnewlen_def zero_env_def Let_def bind_eq_Some_conv split: if_splits)
  with sdscatlen_appends [OF s(2), of 4 "''hell'' @ [NUL]" _ _ zero_env] s(1,3) show ?thesis
    by (auto simp: zero_env_def)
qed

end
