(* ===== verification/Spec2Isabelle.thy ===== *)
theory Spec2Isabelle
  imports Server_Main First_Copy Log_Writer Work_Pool Timer_Tree Loop_Memory B_Tree Skip_List Sds
begin

text \<open>
  A model of the key-value server under src/ssdb: a network front end that speaks the Redis
  and the ssdb protocol, handlers that read and write a LevelDB database through a log of
  changes, and asynchronous replication of that log from a master to slaves.

  \<^bold>\<open>Parts and how they interact.\<close>  \<open>Link\<close> (net/link.cpp) keeps the input of a
  connection in a \<open>Buffer\<close> (util/bytes.cpp), cuts it into requests, with the help of
  \<open>RedisLink\<close> (net/link\_redis.cpp) for the Redis protocol, and calls the handler that the
  \<open>ProcMap\<close> (net/proc.cpp) of the \<open>NetworkServer\<close> (net/server.cpp) has for the command.
  The handlers (proc\_kv.cpp, serv.cpp) call \<open>SSDBImpl\<close> (ssdb/ssdb\_impl.cpp), whose writes go
  through \<open>BinlogQueue\<close> (ssdb/binlog.cpp) so that data and log record are one LevelDB batch,
  and reply through \<open>Response\<close> (net/resp.cpp).  A slave (slave.cpp) connects to a master with
  its position in the log; the master's \<open>BackendSync\<close> (backend\_sync.cpp) copies the data or
  follows the log with an \<open>Iterator\<close> (ssdb/iterator.cpp) and the queue, and sends what it
  finds as packets, which the slave applies to its own database.

  \<^bold>\<open>Theories.\<close>
  \<^item> \<open>Prelude\<close>: byte strings, integer widths, little-endian memory, the codec locales.
  \<^item> \<open>Strings\<close> (util/strings.h): trimming, escaping, number printing and parsing, endianness.
  \<^item> \<open>Bytes_Buffer\<close> (util/bytes.h, bytes.cpp): comparison, buffer over an explicit block,
    decoder; the locale \<open>byte_queue\<close> is the contract of the append operations.
  \<^item> \<open>Leveldb\<close>: the storage engine as a parameter, its documented laws as the locales
    \<open>leveldb_api\<close> and \<open>leveldb_reliable\<close>, and an in-memory instance of both.
  \<^item> \<open>Binlog\<close> (ssdb/const.h, binlog.h, binlog.cpp): records, log keys, the queue; the locale
    \<open>seq_log\<close> is the contract of a log.
  \<^item> \<open>Store_Iterator\<close> (ssdb/iterator.h, iterator.cpp): scans; locale \<open>list_iterator\<close>.
  \<^item> \<open>Config_Load\<close> (util/config.h, config.cpp): the configuration, from the JSON value.
  \<^item> \<open>Ssdb_Impl\<close> (ssdb/ssdb\_impl.h, ssdb\_impl.cpp): the database; locale \<open>kv_store\<close>.
  \<^item> \<open>Response\<close>, \<open>Redis_Link\<close>, \<open>Proc_Map\<close>, \<open>Net_Link\<close> (net/): replies, the Redis
    protocol, the command table, connections and the network server.
  \<^item> \<open>Server_Procs\<close> (proc\_kv.cpp, serv.h, serv.cpp): the request handlers.
  \<^item> \<open>Backend_Sync\<close> (backend\_sync.h, backend\_sync.cpp): the master side of replication.
  \<^item> \<open>Slave_Node\<close> (slave.h, slave.cpp): the slave side of replication.
  \<^item> \<open>Replication\<close>: the master database as a state machine, and convergence; \<open>First_Copy\<close>: the
    copy that a slave without a position gets.
  \<^item> \<open>Server_Main\<close> (ssdb\_server.cpp, the constructor in serv.cpp): start-up of the whole server.
  \<^item> \<open>Log_Writer\<close> (util/log.h, log.cpp): the logger over a small file system.
  \<^item> \<open>Thread_Queue\<close> (util/thread.h): the queues and the worker pool as a state machine over the
    interleavings of its threads; locale \<open>fifo_channel\<close>.
  \<^item> \<open>Work_Queue\<close>, \<open>Work_Pool\<close> (src/cnm/util): the intrusive queue over a heap of links, and the
    thread pool on it.
  \<^item> \<open>Search_Tree\<close> (src/algorithm/tree.c): the pointer tree; locales \<open>sorted_insert\<close>, \<open>sorted_bag\<close>.
  \<^item> \<open>Event_Loop\<close> (src/cnm/net/ae.c, ae\_epoll.c): file and time events and the main loop; locales
    \<open>file_handlers\<close> and \<open>timers\<close> are what the loop relies on of its handlers and the clock; \<open>Loop_Memory\<close>: what it allocates.
  \<^item> \<open>Rb_Tree\<close> (src/cnm/net/tree.h): the red-black tree over a heap of links, with the locales
    \<open>ordered_nodes\<close> and \<open>removable_nodes\<close>; \<open>Timer_Tree\<close>: the time events of the loop in such a tree.
  \<^item> \<open>B_Tree\<close> (src/algorithm/btree.c): the B-tree, a second instance of \<open>sorted_insert\<close>.
  \<^item> \<open>Skip_List\<close> (src/algorithm/skip-list.c): the skip list, a ring of links on every level;
    \<open>Sds\<close> (src/redis-2.8.0/doc/sds.c): the dynamic strings.
  \<^item> \<open>Json_Lexer\<close> (util/json.hpp, class lexer): the line buffer with its pointers and the scanner
    that re2c generated, one definition per label; \<open>Json_Grammar\<close>: the token grammar it recognises;
    \<open>Json_Token\<close>: the values of string and number tokens; \<open>Json_Parser\<close> (class parser): the
    recursive descent, its loops as the locales \<open>item_loop\<close> and \<open>container\<close>; \<open>Json_Dump\<close>
    (escape\_string, dump): the serialization; \<open>Json_Roundtrip\<close>: reading back what dump writes.
  \<^item> \<open>Config_File\<close> (util/config.cpp): \<open>Config::load\<close> from the bytes of the file.
  \<^item> This theory: the properties that span components.

  \<^bold>\<open>Conventions.\<close>  A class is a record of its fields, a method a function on it that
  returns the result and the new state.  \<open>int\<close> values are integers with their overflow
  checked where the code computes them, sequence numbers are 64-bit words.  Undefined
  behaviour (an access outside a block, signed overflow, a read of an uninitialised pointer)
  is \<open>None\<close>; error codes and null pointers are values.  Memory allocation, LevelDB, libuv
  results and the conversion of floating-point text are parameters.  Calls of the logger have no
  effect on the state of the other parts and are omitted there.  A program of several threads is
  a step relation: a thread runs alone between two of its synchronisation points, program
  counters name these points, and runs of any length and interleaving are the traces of the
  relation.

  \<^bold>\<open>What is shown.\<close>  Buffers never leave their block; parsers accept exactly complete
  requests and wait for partial ones; what is sent is received; database operations refine a
  map and hashes with counted fields, failures are atomic, the log is recovered after a
  restart, and log and data agree in every reachable state; the master's search for records
  ends and its stream is the log; a slave applies it in order, survives restarts at its
  position, and converges to the master, from its position or from nothing.  Loops are total functions, except the search loop
  of \<open>sync\<close>, which takes fuel: one more than the distance to the end of the log suffices
  (\<open>sync_search_terminates\<close>).  Several theorems record where the code is undefined or loses
  data: number formatting, overreads, the uninitialised iterator, the copy that is not resumed,
  the input buffer that is never reclaimed.  The worker pool neither loses nor duplicates jobs
  and delivers all of them while its pipe has room; a full pipe deadlocks it and stopping it
  leaves a mutex locked.  The pool of src/cnm keeps its ring well-formed and runs all work; the
  number of steps its threads have left (\<open>tp_work\<close>, \<open>work\<close>) decreases with every step.  The pointer tree refines
  a sorted list; its loops are partial functions shown to return on every tree.  So does the
  B-tree, except for its search, which reads an uninitialised slot (\<open>search_reads_slot_zero\<close>).  The
  skip list refines a set as long as no insertion raises its level behind a smaller key of the top
  level; then keys are lost (\<open>insert_loses_key\<close>).  A dynamic string keeps its fields and terminator until it grows
  beyond 1 MiB; then it is written past its end.  The red-black tree refines an ordered list through the repairs of insertion and removal; the
  event loop's model keeps this list.  The event loop calls
  exactly the handlers that are due; its main loop is a partial function, which returns exactly
  when a round ends with \<open>stop\<close> set.  A log session
  keeps every line, apart from the failures \<open>log_rotation_failures\<close> lists.  The scanner of the
  configuration file recognises the token grammar over its refilled buffer, and its parser returns
  for every text: the fuel, twice the length of the text and five, covers the calls and iterations,
  each of which consumes a token.  The values it returns are well formed, and what \<open>dump\<close> writes it
  reads back, so that a configuration survives being written to a file and loaded.

  \<^bold>\<open>Not modelled.\<close>  Of the JSON library the containers, pointers and patches, the parser's
  callback, its use of the call stack, and a negative zero; the interleaving of the server's threads (the
  loops of the master's and the slave's threads are modelled, each alone), the libuv event loop, and
  the exercises in other languages.  The splay tree of src/cnm/net/tree.h is not used by the program;
  anet.c is vendored.  The plan for extending the development: partial packets of the ssdb
  protocol, and a copy that takes several turns.
\<close>

section \<open>Properties across components\<close>

text \<open>
  C1. Replication converges.  A slave that held the master's key-value map at record q (not
  zero, no copy under way) reconnects after the master has performed any sequence of writes
  and restarts.  It sends its position; the client the master makes of that request sends one
  stream of records in as many turns as there are records; and once the slave has read them
  its key-value map equals the master's.
\<close>

theorem replication_converges:
  fixes L :: "('db, 'it) leveldb"
  assumes "leveldb_reliable L contents snapshot cursor" "\<And>k. realloc_ok env k"
    "master_inv contents s0" "(master_step L)\<^sup>*\<^sup>* s0 s" "small_store (contents (ss_ldb s))"
    "kv_view (contents (ss_ldb (sl_ssdb sl))) = kv_view (contents (ss_ldb s0))"
    "q = bq_last_seq (ss_binlogs s0)" "sl_last_seq sl = q" "q \<noteq> 0" "sl_last_key sl = []"
    "j = unat (bq_last_seq (ss_binlogs s)) - unat q" "msgs = sync_msgs (contents (ss_ldb s)) q j"
    "slave_inv contents (length msgs) sl"
    "\<And>msg. msg \<in> set msgs \<Longrightarrow> int (length (packet msg)) \<le> MAX_PACKET_SIZE"
    "int (length (concat (map packet msgs))) \<le> 2 ^ 30"
  shows "\<exists>up req c c' sl' link'.
    on_connect env 0 sl (Link_new env) = Some up \<and> lk_out up = [packet req] \<and>
    client_init env req (Client_new link) = Some c \<and>
    sync_rounds env L s (Suc fuel) j c = Some (Some c') \<and> cl_out c' = lk_out link @ map packet msgs \<and>
    slave_reads env f L (map packet msgs) sl up = Some (sl', link') \<and>
    kv_view (contents (ss_ldb (sl_ssdb sl'))) = kv_view (contents (ss_ldb s))"
proof -
  define m n where "m = contents (ss_ldb s)" and "n = bq_last_seq (ss_binlogs s)"
  have start: "current_to (kv_view (contents (ss_ldb s0))) (contents (ss_ldb s0)) q (bq_last_seq (ss_binlogs s0))"
    unfolding assms(7) by (rule current_refl)
  from leveldb_reliable.steps_current [OF assms(1,4,3) start]
  have inv: "log_wf m n" "log_agrees m n"
    and cur: "current_to (kv_view (contents (ss_ldb s0))) m q n"
    by (simp_all add: master_inv_def ssdb_inv_def m_def n_def)
  have le: "unat q + j \<le> unat n" using cur assms(11) by (simp add: current_to_def word_le_nat_alt n_def)
  define up where "up = (Link_new env)\<lparr>lk_out := [packet [''sync140'', str_uint64 q, [], ''sync'']]\<rparr>"
  have up: "on_connect env 0 sl (Link_new env) = Some up"
    using connect_request [OF assms(2,10)] assms(8) by (simp add: up_def Link_new_def)
  define c :: "'it Client" where "c = (Client_new link)\<lparr>cl_last_seq := q\<rparr>"
  have client: "client_init env [''sync140'', str_uint64 q, [], ''sync''] (Client_new link) = Some c"
    unfolding c_def by (rule resuming_client [OF assms(9)])
  have c: "cl_last_seq c = q" "cl_status c = CL_INIT" "\<not> cl_is_mirror c" "cl_link c = link"
    by (simp_all add: c_def Client_new_def)
  define c' where "c' = cl_sent (sync_msgs m (cl_last_seq c) j) (c\<lparr>cl_last_seq := cl_last_seq c + word_of_nat j\<rparr>)"
  have rounds: "sync_rounds env L s (Suc fuel) j c = Some (Some c')"
    using leveldb_reliable.sync_rounds_follow [OF assms(1,2) inv(1) m_def assms(5) [folded m_def], of c j fuel] le c
    by (simp add: c'_def)
  have out: "cl_out c' = lk_out link @ map packet msgs" using c assms(12) by (simp add: c'_def m_def)
  have "buffer_wf (lk_input up)" "b_view (lk_input up) = []" "b_room env (lk_input up) = 2 ^ 30"
    using assms(2) by (simp_all add: up_def Link_new_def INIT_BUFFER_SIZE_def Buffer_new_def b_view_def buffer_wf_def b_room_def)
  then obtain sl' link' where r: "slave_reads env f L (map packet msgs) sl up = Some (sl', link')"
    "kv_view (contents (ss_ldb (sl_ssdb sl'))) = fold apply_change msgs (kv_view (contents (ss_ldb (sl_ssdb sl))))"
    using leveldb_reliable.reads_apply [OF assms(1) _ assms(13), of up env f] assms(12,14,15)
      sync_msgs_messages [OF inv(2) le] by (auto simp: m_def)
  have "fold apply_change msgs (kv_view (contents (ss_ldb (sl_ssdb sl)))) = kv_view m"
    using converges [OF inv(2) cur, of j] assms(6,11,12) by (simp add: m_def n_def)
  then have kv: "kv_view (contents (ss_ldb (sl_ssdb sl'))) = kv_view (contents (ss_ldb s))"
    using r(2) by (simp add: m_def)
  have "lk_out up = [packet [''sync140'', str_uint64 q, [], ''sync'']]" by (simp add: up_def)
  then show ?thesis using up client rounds out r(1) kv by blast
qed

definition master0 :: "mem_db SSDBImpl" where
  "master0 = snd (ssdb_set mem_ldb ''a'' ''1'' sample_db)"

definition master1 :: "mem_db SSDBImpl" where
  "master1 = snd (ssdb_set mem_ldb ''b'' ''2'' master0)"

lemma master0_eq:
  "bq_last_seq (ss_binlogs master0) = 1"
  "ss_ldb master0 = [(encode_seq_key 1, Binlog_new 1 BT_SYNC BC_KSET ''ka''), (''ka'', ''1'')]"
  by (simp_all add: master0_def ssdb_set_def sample_db_def transaction_defs bq_commit_def mem_ldb_def Let_def
      encode_kv_key_def)

lemma master1_eq:
  "bq_last_seq (ss_binlogs master1) = 2"
  "ss_ldb master1 = [(encode_seq_key 2, Binlog_new 2 BT_SYNC BC_KSET ''kb''), (''kb'', ''2'')] @ ss_ldb master0"
  using master0_eq(1)
  by (simp_all add: master1_def ssdb_set_def transaction_defs bq_commit_def mem_ldb_def Let_def encode_kv_key_def)

lemma sample_master_inv: "master_inv mem_contents sample_db"
  using sample_db_inv [of 0]
  by (simp add: master_inv_def log_agrees_def log_ops_ok_def sample_db_def mem_contents_def kv_view_def)

lemma master_steps: "master_step mem_ldb sample_db master0" "master_step mem_ldb master0 master1"
proof -
  show "master_step mem_ldb sample_db master0"
    by (rule step_set [of _ _ "''a''" "''1''"], simp add: sample_db_def) (simp add: master0_def prod_eq_iff)
  show "master_step mem_ldb master0 master1"
    by (rule step_set [of _ _ "''b''" "''2''"], simp add: master0_eq) (simp add: master1_def prod_eq_iff)
qed

lemma master0_inv: "master_inv mem_contents master0"
  using mem.step_extends [OF master_steps(1) sample_master_inv] mem.extends_inv sample_master_inv by blast

lemma master1_msgs:
  "sync_msgs (mem_contents (ss_ldb master1)) 1 1 = [[Binlog_new 2 BT_SYNC BC_KSET ''kb'', ''2'']]"
  by (simp add: sync_msg_def log_entry_def master1_eq mem_contents_def encode_seq_key_eq Let_def)

theorem replication_converges_witness:
  "\<exists>sl' link'. slave_reads zero_env (\<lambda>_. None) mem_ldb [packet [Binlog_new 2 BT_SYNC BC_KSET ''kb'', ''2'']]
      (sample_slave\<lparr>sl_ssdb := master0, sl_last_seq := 1\<rparr>)
      ((Link_new zero_env)\<lparr>lk_out := [packet [''sync140'', str_uint64 1, [], ''sync'']]\<rparr>) = Some (sl', link') \<and>
    kv_view (mem_contents (ss_ldb (sl_ssdb sl'))) = kv_view (mem_contents (ss_ldb master1))"
proof -
  define sl where "sl = sample_slave\<lparr>sl_ssdb := master0, sl_last_seq := 1\<rparr>"
  define msgs where "msgs = sync_msgs (mem_contents (ss_ldb master1)) 1 1"
  have msgs: "msgs = [[Binlog_new 2 BT_SYNC BC_KSET ''kb'', ''2'']]"
    using master1_msgs by (simp add: msgs_def)
  have env: "realloc_ok zero_env k" for k by (simp add: zero_env_def)
  have steps: "(master_step mem_ldb)\<^sup>*\<^sup>* master0 master1" using master_steps(2) by blast
  have small: "small_store (mem_contents (ss_ldb master1))"
    by (auto simp: small_store_def mem_contents_def master1_eq master0_eq length_Binlog_new HEADER_LEN_def
        encode_seq_key_eq split: if_splits)
  have j: "1 = unat (bq_last_seq (ss_binlogs master1)) - unat (1 :: 64 word)" by (simp add: master1_eq)
  have "ssdb_inv mem_contents (Suc 0) master0"
    using mem.kv.put_view [OF sample_db_inv, of 1 "''a''" "''1''"] by (simp add: master0_def)
  then have inv: "slave_inv mem_contents (length msgs) sl"
    using sample_slave_inv [of 1] by (simp add: slave_inv_def sl_def msgs status_key_def)
  have len: "int (length (packet msg)) \<le> 60" if "msg \<in> set msgs" for msg
    using that packet_cost [of msg] by (simp add: msgs length_Binlog_new HEADER_LEN_def)
  then have max: "int (length (packet msg)) \<le> MAX_PACKET_SIZE" if "msg \<in> set msgs" for msg
    using that by (force simp: MAX_PACKET_SIZE_def)
  have tot: "int (length (concat (map packet msgs))) \<le> 2 ^ 30" using len by (simp add: msgs)
  have fields: "kv_view (mem_contents (ss_ldb (sl_ssdb sl))) = kv_view (mem_contents (ss_ldb master0))"
    "1 = bq_last_seq (ss_binlogs master0)" "sl_last_seq sl = 1" "sl_last_key sl = []"
    by (simp_all add: sl_def master0_eq sample_slave_def Slave_new_def)
  from replication_converges [OF mem.leveldb_reliable_axioms env master0_inv steps small fields(1-3) _ fields(4)
      j msgs_def inv max tot, of "Link_new zero_env" 0 "\<lambda>_. None"]
  obtain up sl' link' where r: "on_connect zero_env 0 sl (Link_new zero_env) = Some up"
    "slave_reads zero_env (\<lambda>_. None) mem_ldb (map packet msgs) sl up = Some (sl', link')"
    "kv_view (mem_contents (ss_ldb (sl_ssdb sl'))) = kv_view (mem_contents (ss_ldb master1))"
    by auto
  have "up = (Link_new zero_env)\<lparr>lk_out := [packet [''sync140'', str_uint64 1, [], ''sync'']]\<rparr>"
    using r(1) connect_request [OF env fields(4), of "Link_new zero_env"] by (simp add: fields(3) Link_new_def)
  then show ?thesis using r(2,3) by (auto simp: msgs sl_def)
qed





text \<open>
  C46. The log determines the data.  In every state that a master reaches from an empty
  database by writes and restarts, a key has a value exactly when the last log record about it
  is a set, the records present are numbered 1 to \<open>last_seq\<close> without gaps, and replaying the
  messages of the whole log on an empty map gives the key-value map.
\<close>

theorem log_determines_data:
  assumes "leveldb_reliable L contents snapshot cursor" "(master_step L)\<^sup>*\<^sup>* s0 s"
    "contents (ss_ldb s0) = Map.empty" "bq_last_seq (ss_binlogs s0) = 0"
    "m = contents (ss_ldb s)" "n = bq_last_seq (ss_binlogs s)"
  shows "(\<forall>q. m (encode_seq_key q) \<noteq> None \<longleftrightarrow> 1 \<le> q \<and> q \<le> n) \<and>
    (\<forall>k. kv_view m k \<noteq> None \<longleftrightarrow> last_op m k 0 (unat n) = Some True) \<and>
    fold apply_change (sync_msgs m 0 (unat n)) Map.empty = kv_view m"
proof -
  have "master_inv contents s0"
    using log_wf_empty assms(3,4)
    by (simp add: master_inv_def ssdb_inv_def hash_wf_def hsize_rep_def hash_view_def log_agrees_def
        log_ops_ok_def kv_view_def)
  then have "master_inv contents s"
    "current_to (kv_view (contents (ss_ldb s0))) m 0 n"
    using leveldb_reliable.steps_current [OF assms(1,2), of "kv_view (contents (ss_ldb s0))" 0] current_refl
    by (simp_all add: assms(4-6))
  moreover have "kv_view (contents (ss_ldb s0)) = Map.empty" by (simp add: assms(3) kv_view_def)
  ultimately show ?thesis
    using converges [of m n Map.empty 0 "unat n"] log_wf_present [of m n]
    by (simp add: master_inv_def ssdb_inv_def log_agrees_def assms(5,6))
qed

theorem log_determines_data_witness:
  "fold apply_change (sync_msgs (mem_contents (ss_ldb master1)) 0 2) Map.empty =
     kv_view (mem_contents (ss_ldb master1))"
proof -
  have "(master_step mem_ldb)\<^sup>*\<^sup>* sample_db master1"
    using master_steps by (meson converse_rtranclp_into_rtranclp r_into_rtranclp)
  from log_determines_data [OF mem.leveldb_reliable_axioms this _ _ refl refl]
  show ?thesis by (simp add: master1_eq(1) sample_db_def mem_contents_def)
qed

end
